(* ===== verification/Prelude.thy ===== *)
theory Prelude
  imports Main "HOL-Library.Word"
begin

text \<open>
  Prelude of the development: the machine integer types of the code, a flat byte memory with
  64-bit little-endian loads and stores, address ranges that may not overlap, and the generic
  list lemmas the components share. Nothing here models a particular source function; the
  components name their types and state their memory facts over it.
\<close>

unbundle bit_operations_syntax

section \<open>Collections of rules\<close>

named_theorems mem_simps \<open>reading a memory after a write\<close>
named_theorems range_simps \<open>arithmetic of disjoint address ranges\<close>
named_theorems step_simps \<open>unfolding the operations of a component\<close>

section \<open>Machine integers\<close>

type_synonym u8 = "8 word"
type_synonym u16 = "16 word"
type_synonym u32 = "32 word"
type_synonym u64 = "64 word"

text \<open>A flat memory: every address holds one byte.\<close>

type_synonym mem = "u64 \<Rightarrow> u8"

lemma unat_add_lt: "unat a + unat b < 2 ^ LENGTH('a) \<Longrightarrow> unat (a + b :: 'a::len word) = unat a + unat b"
  by (simp add: unat_word_ariths)

lemma unat_sub_le: "b \<le> a \<Longrightarrow> unat (a - b :: 'a::len word) = unat a - unat b"
  by (rule unat_sub)

lemma of_nat_unat_add [simp]: "of_nat (unat a + n) = (a + of_nat n :: 'a::len word)"
  by simp

lemma unat_plus1: "a < b \<Longrightarrow> unat (a + 1 :: 'a::len word) = Suc (unat a)"
proof -
  assume "a < b"
  then have "unat a + unat (1 :: 'a word) < 2 ^ LENGTH('a)"
    using unsigned_less [of b, where 'a = nat] by (simp add: word_less_nat_alt del: unsigned_less)
  from unat_add_lt [OF this] show ?thesis by simp
qed

lemma plus1_le: "a < b \<Longrightarrow> a + 1 \<le> (b :: 'a::len word)"
  by (rule inc_le)

lemma unat_of_nat_small [simp]: "n < 2 ^ LENGTH('a) \<Longrightarrow> unat (of_nat n :: 'a::len word) = n"
  by (simp add: unat_of_nat take_bit_nat_eq_self)

section \<open>Address ranges\<close>

text \<open>
  \<open>in_rng p n a\<close>: the address \<open>a\<close> is one of the \<open>n\<close> bytes that start at \<open>p\<close>. The subtraction
  wraps, so the test is right for a range that crosses the end of the address space as well.
  \<open>disj_rng p n q k\<close>: neither range starts inside the other.
\<close>

definition in_rng :: "u64 \<Rightarrow> u64 \<Rightarrow> u64 \<Rightarrow> bool" where
  "in_rng p n a \<longleftrightarrow> a - p < n"

definition disj_rng :: "u64 \<Rightarrow> u64 \<Rightarrow> u64 \<Rightarrow> u64 \<Rightarrow> bool" where
  "disj_rng p n q k \<longleftrightarrow> n \<le> q - p \<and> k \<le> p - q"

lemma disj_rng_sym: "disj_rng p n q k \<Longrightarrow> disj_rng q k p n"
  by (auto simp: disj_rng_def)

lemma neg_le_diff:
  fixes x d :: "'a::len word"
  assumes "x < d"
  shows "- d \<le> x - d"
proof -
  from assms have "unat (0 - d) \<le> unat (x - d)"
    unfolding unat_sub_if' by (simp add: word_less_nat_alt)
  then show ?thesis by (simp add: word_le_nat_alt)
qed

lemma disj_rngD [range_simps]:
  assumes "disj_rng p n q k" and "in_rng p n a"
  shows "\<not> in_rng q k a"
proof -
  from assms have "a - p < q - p"
    unfolding disj_rng_def in_rng_def by (meson less_le_trans)
  then have "- (q - p) \<le> (a - p) - (q - p)" by (rule neg_le_diff)
  then have "p - q \<le> a - q" by simp
  with assms(1) show ?thesis unfolding disj_rng_def in_rng_def by (meson leD le_less_trans order_trans)
qed

lemma disj_rngD2: "disj_rng p n q k \<Longrightarrow> in_rng q k a \<Longrightarrow> \<not> in_rng p n a"
  using disj_rngD by blast

lemma disj_rng_shrink [range_simps]:
  "disj_rng p n q k \<Longrightarrow> n' \<le> n \<Longrightarrow> k' \<le> k \<Longrightarrow> disj_rng p n' q k'"
  by (meson disj_rng_def order_trans)

text \<open>Disjoint ranges stay disjoint when parts of them are taken at an offset.\<close>

lemma disj_rng_offset_left:
  assumes "disj_rng p n q k" and "unat i + unat x \<le> unat n" and "0 < x"
  shows "disj_rng (p + i) x q k"
proof -
  let ?d = "q - p"
  have n: "unat n \<le> unat ?d" and k: "k \<le> p - q"
    using assms(1) by (simp_all add: disj_rng_def word_le_nat_alt)
  have pos: "0 < unat x" using assms(3) by (simp add: word_less_nat_alt)
  with n assms(2) have i: "i < ?d" by (simp add: word_less_nat_alt)
  then have "unat (?d - i) = unat ?d - unat i" by (simp add: unat_sub_le)
  with n assms(2) have "x \<le> ?d - i" by (simp add: word_le_nat_alt)
  moreover from i have "- ?d \<le> i - ?d" by (rule neg_le_diff)
  then have "p - q \<le> (p + i) - q" by (simp add: algebra_simps)
  with k have "k \<le> (p + i) - q" by (rule order_trans)
  ultimately show ?thesis by (simp add: disj_rng_def algebra_simps)
qed

lemma disj_rng_offset:
  assumes "disj_rng p n q k"
    and "unat i + unat x \<le> unat n" and "0 < x" and "unat j + unat y \<le> unat k" and "0 < y"
  shows "disj_rng (p + i) x (q + j) y"
  by (metis assms disj_rng_offset_left disj_rng_sym)

section \<open>64-bit loads and stores\<close>

text \<open>
  The machine is little endian: byte \<open>i\<close> of a 64-bit value is stored at offset \<open>i\<close>.
\<close>

definition byte_of :: "u64 \<Rightarrow> u64 \<Rightarrow> u8" where
  "byte_of v i = ucast (drop_bit (8 * unat i) v)"

definition ld64 :: "mem \<Rightarrow> u64 \<Rightarrow> u64" where
  "ld64 m a = ucast (m a) OR push_bit 8 (ucast (m (a + 1)))
     OR push_bit 16 (ucast (m (a + 2))) OR push_bit 24 (ucast (m (a + 3)))
     OR push_bit 32 (ucast (m (a + 4))) OR push_bit 40 (ucast (m (a + 5)))
     OR push_bit 48 (ucast (m (a + 6))) OR push_bit 56 (ucast (m (a + 7)))"

definition st64 :: "mem \<Rightarrow> u64 \<Rightarrow> u64 \<Rightarrow> mem" where
  "st64 m a v = (\<lambda>x. if in_rng a 8 x then byte_of v (x - a) else m x)"

lemma st64_other [mem_simps]: "\<not> in_rng a 8 x \<Longrightarrow> st64 m a v x = m x"
  by (simp add: st64_def)

lemma ld64_cong:
  assumes "\<And>x. in_rng a 8 x \<Longrightarrow> m x = m' x"
  shows "ld64 m a = ld64 m' a"
  by (simp add: ld64_def assms in_rng_def)

text \<open>Joining the eight bytes of a value gives the value back: bit by bit.\<close>

definition put_byte :: "u64 \<Rightarrow> nat \<Rightarrow> u64" where
  "put_byte v k = push_bit (8 * k) (ucast (ucast (drop_bit (8 * k) v) :: u8))"

lemma bit_put_byte: "bit (put_byte v k) n \<longleftrightarrow> 8 * k \<le> n \<and> n < 8 * k + 8 \<and> bit v n"
proof -
  have "bit v n \<Longrightarrow> n < 64" using bit_imp_le_length [of v n] by simp
  then show ?thesis by (auto simp: put_byte_def bit_simps)
qed

lemma bytes_join:
  "put_byte v 0 OR put_byte v 1 OR put_byte v 2 OR put_byte v 3
     OR put_byte v 4 OR put_byte v 5 OR put_byte v 6 OR put_byte v 7 = v"
proof (rule bit_word_eqI)
  fix n assume "n < LENGTH(64)"
  then have "n < 64" by simp
  then consider "n < 8" | "8 \<le> n" "n < 16" | "16 \<le> n" "n < 24" | "24 \<le> n" "n < 32"
    | "32 \<le> n" "n < 40" | "40 \<le> n" "n < 48" | "48 \<le> n" "n < 56" | "56 \<le> n" by linarith
  then show "bit (put_byte v 0 OR put_byte v 1 OR put_byte v 2 OR put_byte v 3
     OR put_byte v 4 OR put_byte v 5 OR put_byte v 6 OR put_byte v 7) n = bit v n"
    using \<open>n < 64\<close> unfolding bit_or_iff bit_put_byte by cases simp_all
qed

lemma ld64_st64_same [mem_simps]: "ld64 (st64 m a v) a = v"
  using bytes_join [of v] by (simp add: ld64_def st64_def in_rng_def byte_of_def put_byte_def)

lemma ld64_st64_disj [mem_simps]: "disj_rng a 8 b 8 \<Longrightarrow> ld64 (st64 m a v) b = ld64 m b"
  by (rule ld64_cong) (simp add: st64_def disj_rngD2)

section \<open>Blocks of bytes\<close>

text \<open>
  The effect of the C library's block operations on a memory, for a block that does not
  overlap its source: \<open>mem_write\<close> stores a list of bytes, \<open>mem_fill\<close> is \<open>memset\<close>,
  \<open>mem_copy\<close> is \<open>memcpy\<close>, and \<open>mem_read\<close> lists the bytes of a block.
\<close>

definition mem_write :: "mem \<Rightarrow> u64 \<Rightarrow> u8 list \<Rightarrow> mem" where
  "mem_write m p bs = (\<lambda>x. if unat (x - p) < length bs then bs ! unat (x - p) else m x)"

definition mem_fill :: "mem \<Rightarrow> u64 \<Rightarrow> u8 \<Rightarrow> u64 \<Rightarrow> mem" where
  "mem_fill m p c n = (\<lambda>x. if in_rng p n x then c else m x)"

definition mem_copy :: "mem \<Rightarrow> u64 \<Rightarrow> u64 \<Rightarrow> u64 \<Rightarrow> mem" where
  "mem_copy m d s n = (\<lambda>x. if in_rng d n x then m (s + (x - d)) else m x)"

definition mem_read :: "mem \<Rightarrow> u64 \<Rightarrow> nat \<Rightarrow> u8 list" where
  "mem_read m p n = map (\<lambda>i. m (p + of_nat i)) [0..<n]"

lemma length_mem_read [simp]: "length (mem_read m p n) = n"
  by (simp add: mem_read_def)

lemma in_rng_of_nat: "n < 2 ^ 64 \<Longrightarrow> in_rng p (of_nat n) x \<longleftrightarrow> unat (x - p) < n"
  by (simp add: in_rng_def word_less_nat_alt unat_of_nat take_bit_nat_eq_self)

lemma in_rng_start: "0 < n \<Longrightarrow> in_rng p n p"
  by (simp add: in_rng_def)

lemma mem_write_other [mem_simps]:
  "length bs < 2 ^ 64 \<Longrightarrow> \<not> in_rng p (of_nat (length bs)) x \<Longrightarrow> mem_write m p bs x = m x"
  by (simp add: mem_write_def in_rng_of_nat)

lemma mem_fill_other [mem_simps]: "\<not> in_rng p n x \<Longrightarrow> mem_fill m p c n x = m x"
  by (simp add: mem_fill_def)

lemma mem_copy_other [mem_simps]: "\<not> in_rng d n x \<Longrightarrow> mem_copy m d s n x = m x"
  by (simp add: mem_copy_def)

lemma mem_read_cong:
  assumes "n < 2 ^ 64" and "\<And>x. in_rng p (of_nat n) x \<Longrightarrow> m x = m' x"
  shows "mem_read m p n = mem_read m' p n"
proof (unfold mem_read_def, rule map_cong [OF refl])
  fix i assume "i \<in> set [0..<n]"
  then have "in_rng p (of_nat n) (p + of_nat i)"
    using assms(1) by (simp add: in_rng_of_nat unat_of_nat take_bit_nat_eq_self)
  then show "m (p + of_nat i) = m' (p + of_nat i)" by (rule assms(2))
qed

lemma mem_read_write_same [mem_simps]:
  assumes "length bs < 2 ^ 64"
  shows "mem_read (mem_write m p bs) p (length bs) = bs"
  using assms by (intro nth_equalityI) (simp_all add: mem_read_def mem_write_def unat_of_nat take_bit_nat_eq_self)

lemma mem_read_fill [mem_simps]:
  "n < 2 ^ 64 \<Longrightarrow> mem_read (mem_fill m p c (of_nat n)) p n = replicate n c"
  by (intro nth_equalityI) (simp_all add: mem_read_def mem_fill_def in_rng_of_nat unat_of_nat take_bit_nat_eq_self)

end
