(* ===== verification/BaseAlloc.thy ===== *)
theory BaseAlloc
  imports Prelude "HOL-Library.Multiset"
begin

text \<open>
  The base allocator of pset1 (\<open>basealloc.cc\<close>): it hands out blocks for the debugging allocator
  and never overwrites a freed block. The C library's \<open>malloc\<close> is the list \<open>sys_regions\<close> of the
  regions (address, capacity) it will hand out, in order: any run of a correct \<open>malloc\<close> is one
  such list, and a request larger than the next region's capacity is a failed request (\<open>NULL\<close>).
  The interface the debugging allocator relies on is the locale \<open>block_allocator\<close>, which this
  theory interprets on the operations below.
\<close>

section \<open>State and operations\<close>

record base_alloc =
  allocs :: "u64 \<Rightarrow> u64 option"        \<comment> \<open>active pointer address to allocation size\<close>
  frees :: "(u64 \<times> u64) list"          \<comment> \<open>freed allocations\<close>
  disabled :: int
  rng_x :: u64                            \<comment> \<open>the static \<open>x\<close> of \<open>alloc_random\<close>\<close>
  atexit_installed :: bool
  sys_regions :: "(u64 \<times> u64) list"

definition base_alloc_init :: "(u64 \<times> u64) list \<Rightarrow> base_alloc" where
  "base_alloc_init rs = \<lparr>allocs = Map.empty, frees = [], disabled = 0,
     rng_x = 8973443640547502487, atexit_installed = False, sys_regions = rs\<rparr>"

text \<open>The C library's \<open>malloc\<close>.\<close>

fun sys_malloc :: "base_alloc \<Rightarrow> u64 \<Rightarrow> u64 \<times> base_alloc" where
  "sys_malloc b sz = (case sys_regions b of
       [] \<Rightarrow> (0, b)
     | (p, c) # rs \<Rightarrow> ((if sz \<le> c then p else 0), b\<lparr>sys_regions := rs\<rparr>))"

definition alloc_random :: "base_alloc \<Rightarrow> u32 \<times> base_alloc" where
  "alloc_random b =
     (let x = rng_x b * 6364136223846793005 + 1
      in (ucast (drop_bit 32 x), b\<lparr>rng_x := x\<rparr>))"

text \<open>
  The loop that looks for a freed block of at least \<open>sz\<close> bytes: at most ten random probes. A
  block that fits is entered in \<open>allocs\<close> (\<open>insert\<close> keeps an existing entry) and replaced by the
  last freed block. The result \<open>0\<close> means that no probe fitted.
\<close>

function reuse_loop :: "nat \<Rightarrow> base_alloc \<Rightarrow> u64 \<Rightarrow> u64 \<times> base_alloc" where
  "reuse_loop ntries b sz =
     (if ntries < 10 \<and> ntries < length (frees b) then
        let (r, b1) = alloc_random b;
            i = unat r mod length (frees b1);
            f = frees b1 ! i
        in if sz \<le> snd f then
             (fst f, b1\<lparr>allocs := (if allocs b1 (fst f) = None then (allocs b1)(fst f \<mapsto> snd f) else allocs b1),
                        frees := butlast ((frees b1)[i := last (frees b1)])\<rparr>)
           else reuse_loop (Suc ntries) b1 sz
      else (0, b))"
  by pat_completeness auto
termination
  by (relation "measure (\<lambda>(n, b, sz). 10 - n)") auto

declare reuse_loop.simps [simp del]

definition base_malloc :: "base_alloc \<Rightarrow> u64 \<Rightarrow> u64 \<times> base_alloc" where
  "base_malloc b sz =
     (if disabled b \<noteq> 0 then sys_malloc b sz
      else
        let b0 = b\<lparr>atexit_installed := True\<rparr>;
            (r, b1) = alloc_random b0;
            (p, b2) = (if r mod 4 \<noteq> 0 then reuse_loop 0 b1 sz else (0, b1));
            (q, b3) = (if p = 0 then sys_malloc b2 (if sz \<noteq> 0 then sz else 1) else (p, b2))
        in (q, if q \<noteq> 0 then b3\<lparr>allocs := (allocs b3)(q \<mapsto> sz)\<rparr> else b3))"

definition base_free :: "base_alloc \<Rightarrow> u64 \<Rightarrow> base_alloc" where
  "base_free b p =
     (if disabled b \<noteq> 0 \<or> p = 0 then b
      else case allocs b p of
          None \<Rightarrow> b
        | Some n \<Rightarrow> b\<lparr>frees := frees b @ [(p, n)], allocs := (allocs b)(p := None)\<rparr>)"

definition base_allocator_disable :: "base_alloc \<Rightarrow> bool \<Rightarrow> base_alloc" where
  "base_allocator_disable b d = b\<lparr>disabled := (if d then 1 else 0)\<rparr>"

text \<open>The pointers that the handler registered with \<open>atexit\<close> gives back to the C library.\<close>

definition base_allocator_atexit :: "base_alloc \<Rightarrow> u64 list" where
  "base_allocator_atexit b = map fst (frees b)"

section \<open>The interface\<close>

text \<open>
  \<open>blk b p = Some n\<close>: the block of \<open>n\<close> bytes at \<open>p\<close> is active. \<open>avoids b q k\<close>: the allocator owns no
  byte of the range of \<open>k\<close> bytes at \<open>q\<close> and never will. A successful request gives a fresh, aligned
  block that overlaps no active block and no avoided range.
\<close>

locale block_allocator =
  fixes bmalloc :: "'b \<Rightarrow> u64 \<Rightarrow> u64 \<times> 'b"
    and bfree :: "'b \<Rightarrow> u64 \<Rightarrow> 'b"
    and blk :: "'b \<Rightarrow> u64 \<Rightarrow> u64 option"
    and avoids :: "'b \<Rightarrow> u64 \<Rightarrow> u64 \<Rightarrow> bool"
    and binv :: "'b \<Rightarrow> bool"
  assumes malloc_inv: "binv b \<Longrightarrow> bmalloc b sz = (p, b') \<Longrightarrow> binv b'"
    and malloc_null: "binv b \<Longrightarrow> bmalloc b sz = (0, b') \<Longrightarrow> blk b' = blk b"
    and malloc_blk: "binv b \<Longrightarrow> bmalloc b sz = (p, b') \<Longrightarrow> p \<noteq> 0 \<Longrightarrow> blk b' = (blk b)(p \<mapsto> sz)"
    and malloc_fresh: "binv b \<Longrightarrow> bmalloc b sz = (p, b') \<Longrightarrow> p \<noteq> 0 \<Longrightarrow> blk b p = None"
    and malloc_aligned: "binv b \<Longrightarrow> bmalloc b sz = (p, b') \<Longrightarrow> p \<noteq> 0 \<Longrightarrow> p mod 16 = 0"
    and malloc_nowrap: "binv b \<Longrightarrow> bmalloc b sz = (p, b') \<Longrightarrow> p \<noteq> 0 \<Longrightarrow> unat p + unat sz < 2 ^ 64"
    and malloc_disj: "binv b \<Longrightarrow> bmalloc b sz = (p, b') \<Longrightarrow> p \<noteq> 0 \<Longrightarrow> blk b q = Some k \<Longrightarrow> disj_rng p sz q k"
    and malloc_avoid: "binv b \<Longrightarrow> bmalloc b sz = (p, b') \<Longrightarrow> p \<noteq> 0 \<Longrightarrow> avoids b q k \<Longrightarrow> disj_rng p sz q k"
    and malloc_avoids: "binv b \<Longrightarrow> bmalloc b sz = (p, b') \<Longrightarrow> avoids b q k \<Longrightarrow> avoids b' q k"
    and free_inv: "binv b \<Longrightarrow> binv (bfree b p)"
    and free_blk: "binv b \<Longrightarrow> p \<noteq> 0 \<Longrightarrow> blk (bfree b p) = (blk b)(p := None)"
    and free_avoids: "binv b \<Longrightarrow> avoids b q k \<Longrightarrow> avoids (bfree b p) q k"

section \<open>The invariant\<close>

text \<open>
  A region is well formed when it is a non-null, 16-byte aligned range below the end of the
  address space. The active blocks and the pool (freed blocks and regions the C library still has)
  are well formed and pairwise disjoint.
\<close>

definition region_ok :: "u64 \<times> u64 \<Rightarrow> bool" where
  "region_ok r \<longleftrightarrow> fst r \<noteq> 0 \<and> fst r mod 16 = 0 \<and> unat (fst r) + unat (snd r) < 2 ^ 64"

definition apart :: "u64 \<times> u64 \<Rightarrow> u64 \<times> u64 \<Rightarrow> bool" where
  "apart r s \<longleftrightarrow> fst r \<noteq> fst s \<and> disj_rng (fst r) (snd r) (fst s) (snd s)"

definition pool_inv :: "(u64 \<Rightarrow> u64 option) \<Rightarrow> (u64 \<times> u64) list \<Rightarrow> bool" where
  "pool_inv A L \<longleftrightarrow> distinct (map fst L)
     \<and> (\<forall>r \<in> set L. region_ok r)
     \<and> (\<forall>r \<in> set L. \<forall>s \<in> set L. fst r \<noteq> fst s \<longrightarrow> apart r s)
     \<and> (\<forall>p n. A p = Some n \<longrightarrow> region_ok (p, n) \<and> (\<forall>r \<in> set L. apart (p, n) r))
     \<and> (\<forall>p n q k. A p = Some n \<longrightarrow> A q = Some k \<longrightarrow> p \<noteq> q \<longrightarrow> disj_rng p n q k)"

definition base_inv :: "base_alloc \<Rightarrow> bool" where
  "base_inv b \<longleftrightarrow> disabled b = 0 \<and> pool_inv (allocs b) (frees b @ sys_regions b)"

definition base_avoids :: "base_alloc \<Rightarrow> u64 \<Rightarrow> u64 \<Rightarrow> bool" where
  "base_avoids b q k \<longleftrightarrow> (\<forall>p n. allocs b p = Some n \<longrightarrow> disj_rng p n q k)
     \<and> (\<forall>r \<in> set (frees b @ sys_regions b). disj_rng (fst r) (snd r) q k)"

lemma apart_sym: "apart r s \<Longrightarrow> apart s r"
  by (auto simp: apart_def disj_rng_sym)

lemma apart_shrink: "apart (p, c) s \<Longrightarrow> n \<le> c \<Longrightarrow> apart (p, n) s"
  by (auto simp: apart_def intro: disj_rng_shrink)

lemma region_ok_shrink: "region_ok (p, c) \<Longrightarrow> n \<le> c \<Longrightarrow> region_ok (p, n)"
  by (auto simp: region_ok_def word_le_nat_alt)

text \<open>
  The pool only matters up to the order of its regions. Taking a region out of the pool and making
  a part of it active keeps the invariant, and so does the way back.
\<close>

lemma pool_inv_perm:
  assumes "mset L = mset L'" shows "pool_inv A L = pool_inv A L'"
proof -
  have "set L = set L'" using assms by (rule mset_eq_setD)
  moreover have "distinct (map fst L) = distinct (map fst L')"
    by (metis assms mset_map mset_eq_imp_distinct_iff)
  ultimately show ?thesis by (simp add: pool_inv_def)
qed

lemma pool_inv_drop: "pool_inv A (r # L) \<Longrightarrow> pool_inv A L"
  by (auto simp: pool_inv_def)

lemma pool_inv_fresh: "pool_inv A ((p, c) # L) \<Longrightarrow> A p = None"
  by (cases "A p") (fastforce simp: pool_inv_def apart_def)+

lemma pool_invI:
  assumes "distinct (map fst L)"
    and "\<And>r. r \<in> set L \<Longrightarrow> region_ok r"
    and "\<And>r s. r \<in> set L \<Longrightarrow> s \<in> set L \<Longrightarrow> fst r \<noteq> fst s \<Longrightarrow> apart r s"
    and "\<And>p n. A p = Some n \<Longrightarrow> region_ok (p, n)"
    and "\<And>p n r. A p = Some n \<Longrightarrow> r \<in> set L \<Longrightarrow> apart (p, n) r"
    and "\<And>p n q k. A p = Some n \<Longrightarrow> A q = Some k \<Longrightarrow> p \<noteq> q \<Longrightarrow> disj_rng p n q k"
  shows "pool_inv A L"
  using assms unfolding pool_inv_def by blast

lemma pool_invD:
  assumes "pool_inv A L"
  shows "distinct (map fst L)"
    and "r \<in> set L \<Longrightarrow> region_ok r"
    and "r \<in> set L \<Longrightarrow> s \<in> set L \<Longrightarrow> fst r \<noteq> fst s \<Longrightarrow> apart r s"
    and "A p = Some n \<Longrightarrow> region_ok (p, n)"
    and "A p = Some n \<Longrightarrow> r \<in> set L \<Longrightarrow> apart (p, n) r"
    and "A p = Some n \<Longrightarrow> A q = Some k \<Longrightarrow> p \<noteq> q \<Longrightarrow> disj_rng p n q k"
  using assms unfolding pool_inv_def by blast+

lemma pool_inv_take:
  assumes inv: "pool_inv A ((p, c) # L)" and le: "n \<le> c"
  shows "pool_inv (A(p \<mapsto> n)) L"
proof -
  note D = pool_invD [OF inv]
  have p: "apart (p, n) r" if "r \<in> set L" for r
  proof (rule apart_shrink [OF D(3) le])
    show "fst (p, c) \<noteq> fst r" using D(1) that by force
  qed (use that in auto)
  have act: "disj_rng q k p n" if "A q = Some k" for q k
    using D(5) [OF that, of "(p, c)"] le by (auto simp: apart_def intro: disj_rng_shrink)
  show ?thesis
  proof (rule pool_invI)
    show "distinct (map fst L)" using D(1) by simp
    show "region_ok r" if "r \<in> set L" for r using D(2) that by simp
    show "apart r s" if "r \<in> set L" "s \<in> set L" "fst r \<noteq> fst s" for r s
      using D(3) that by simp
    show "region_ok (q, k)" if "(A(p \<mapsto> n)) q = Some k" for q k
      using that D(4) D(2) [of "(p, c)"] le by (auto split: if_splits intro: region_ok_shrink)
    show "apart (q, k) r" if "(A(p \<mapsto> n)) q = Some k" "r \<in> set L" for q k r
      using that D(5) p by (auto split: if_splits)
    show "disj_rng q k q' k'"
      if "(A(p \<mapsto> n)) q = Some k" "(A(p \<mapsto> n)) q' = Some k'" "q \<noteq> q'" for q k q' k'
      using that act D(6) by (auto split: if_splits intro: disj_rng_sym)
  qed
qed

lemma pool_inv_give:
  assumes inv: "pool_inv A L" and p: "A p = Some n"
  shows "pool_inv (A(p := None)) ((p, n) # L)"
proof -
  note D = pool_invD [OF inv]
  have L: "apart (p, n) r" if "r \<in> set L" for r using D(5) [OF p that] .
  have A: "apart (q, k) (p, n)" if "A q = Some k" "q \<noteq> p" for q k
    using D(6) [OF that(1) p that(2)] that(2) by (simp add: apart_def)
  show ?thesis
  proof (rule pool_invI)
    show "distinct (map fst ((p, n) # L))" using D(1) L by (auto simp: apart_def)
    show "region_ok r" if "r \<in> set ((p, n) # L)" for r using D(2) [of r] D(4) [OF p] that by (cases r) auto
    show "apart r s" if "r \<in> set ((p, n) # L)" "s \<in> set ((p, n) # L)" "fst r \<noteq> fst s" for r s
      using D(3) L apart_sym that by (cases r; cases s) auto
    show "region_ok (q, k)" if "(A(p := None)) q = Some k" for q k
      using that D(4) by (auto split: if_splits)
    show "apart (q, k) r" if "(A(p := None)) q = Some k" "r \<in> set ((p, n) # L)" for q k r
      using that D(5) A by (cases r) (auto split: if_splits)
    show "disj_rng q k q' k'"
      if "(A(p := None)) q = Some k" "(A(p := None)) q' = Some k'" "q \<noteq> q'" for q k q' k'
      using that D(6) by (auto split: if_splits)
  qed
qed

lemma mset_remove_nth:
  assumes "i < length xs"
  shows "add_mset (xs ! i) (mset (butlast (xs[i := last xs]))) = mset xs"
proof (cases xs rule: rev_cases)
  case Nil
  with assms show ?thesis by simp
next
  case (snoc ys y)
  show ?thesis
  proof (cases "i < length ys")
    case True
    then have "add_mset (ys ! i) (mset (ys[i := y])) = add_mset y (mset ys)"
      by (simp add: mset_update)
    with True snoc show ?thesis by (simp add: list_update_append nth_append)
  next
    case False
    with assms snoc have "i = length ys" by simp
    with snoc show ?thesis by (simp add: list_update_append)
  qed
qed

section \<open>The operations keep the contract\<close>

lemma alloc_random_frame [simp]:
  "alloc_random b = (r, b') \<Longrightarrow> allocs b' = allocs b \<and> frees b' = frees b
     \<and> sys_regions b' = sys_regions b \<and> disabled b' = disabled b"
  by (auto simp: alloc_random_def Let_def)

text \<open>
  The reuse loop either finds nothing, or takes one freed region of at least the size out of
  \<open>frees\<close>. With an inactive address, \<open>insert\<close> enters the region with its old size.
\<close>

lemma reuse_loop_cases:
  assumes "reuse_loop n b sz = (p, b')" and "\<And>r. r \<in> set (frees b) \<Longrightarrow> fst r \<noteq> 0 \<and> allocs b (fst r) = None"
  shows "(p = 0 \<and> allocs b' = allocs b \<and> frees b' = frees b
            \<and> sys_regions b' = sys_regions b \<and> disabled b' = disabled b)
       \<or> (\<exists>c. p \<noteq> 0 \<and> sz \<le> c \<and> add_mset (p, c) (mset (frees b')) = mset (frees b)
            \<and> allocs b' = (allocs b)(p \<mapsto> c) \<and> sys_regions b' = sys_regions b \<and> disabled b' = disabled b)"
  using assms
proof (induction n b sz rule: reuse_loop.induct)
  case (1 n b sz)
  show ?case
  proof (cases "n < 10 \<and> n < length (frees b)")
    case False
    with "1.prems"(1) show ?thesis by (auto simp: reuse_loop.simps [of n b sz])
  next
    case True
    obtain r b1 where rb: "alloc_random b = (r, b1)" by fastforce
    define i where "i = unat r mod length (frees b1)"
    have fr: "allocs b1 = allocs b" "frees b1 = frees b" "sys_regions b1 = sys_regions b" "disabled b1 = disabled b"
      using rb by simp_all
    have "0 < length (frees b1)" using True fr by (metis gr_zeroI not_less_zero)
    then have i: "i < length (frees b1)" by (simp add: i_def)
    show ?thesis
    proof (cases "sz \<le> snd (frees b1 ! i)")
      case False
      with "1.prems"(1) True rb have "reuse_loop (Suc n) b1 sz = (p, b')"
        by (simp add: reuse_loop.simps [of n b sz] i_def)
      moreover have "\<And>r. r \<in> set (frees b1) \<Longrightarrow> fst r \<noteq> 0 \<and> allocs b1 (fst r) = None"
        using "1.prems"(2) fr by simp
      ultimately show ?thesis
        using "1.IH" [OF True rb [symmetric] refl i_def refl] False fr by simp
    next
      case le: True
      have mem: "frees b1 ! i \<in> set (frees b)" using i fr by simp
      have "p = fst (frees b1 ! i)"
        and "b' = b1\<lparr>allocs := (allocs b1)(fst (frees b1 ! i) \<mapsto> snd (frees b1 ! i)),
                      frees := butlast ((frees b1)[i := last (frees b1)])\<rparr>"
        using "1.prems"(1) True rb le "1.prems"(2) [OF mem] fr
        by (auto simp: reuse_loop.simps [of n b sz] i_def Let_def)
      then show ?thesis
        using le mset_remove_nth [OF i] "1.prems"(2) [OF mem] fr
        by (intro disjI2 exI [of _ "snd (frees b1 ! i)"]) simp
    qed
  qed
qed

text \<open>
  A request to an enabled allocator under the invariant: it fails with the pool only shrunk, or it
  takes a region \<open>(p, c)\<close> with \<open>sz \<le> c\<close> out of the pool and activates its first \<open>sz\<close> bytes.
\<close>

lemma base_malloc_cases:
  assumes inv: "base_inv b" and res: "base_malloc b sz = (p, b')"
  shows "(p = 0 \<and> allocs b' = allocs b \<and> disabled b' = 0
            \<and> (\<exists>R. mset (frees b @ sys_regions b) = R + mset (frees b' @ sys_regions b')))
       \<or> (\<exists>c. p \<noteq> 0 \<and> sz \<le> c \<and> allocs b' = (allocs b)(p \<mapsto> sz) \<and> disabled b' = 0
            \<and> mset (frees b @ sys_regions b) = add_mset (p, c) (mset (frees b' @ sys_regions b')))"
proof -
  have dis: "disabled b = 0" and pool: "pool_inv (allocs b) (frees b @ sys_regions b)"
    using inv by (simp_all add: base_inv_def)
  obtain r b1 where rb: "alloc_random (b\<lparr>atexit_installed := True\<rparr>) = (r, b1)" by fastforce
  obtain q b2 where q: "(if r mod 4 \<noteq> 0 then reuse_loop 0 b1 sz else (0, b1)) = (q, b2)" by fastforce
  have b1: "allocs b1 = allocs b" "frees b1 = frees b" "sys_regions b1 = sys_regions b" "disabled b1 = 0"
    using alloc_random_frame [OF rb] dis by simp_all
  have pre: "fst x \<noteq> 0 \<and> allocs b1 (fst x) = None" if "x \<in> set (frees b1)" for x
  proof -
    have x: "x \<in> set (frees b @ sys_regions b)" using that b1 by simp
    then have "fst x \<noteq> 0" using pool_invD(2) [OF pool] by (auto simp: region_ok_def)
    moreover have "allocs b (fst x) = None"
      using pool_invD(5) [OF pool _ x] by (cases "allocs b (fst x)") (auto simp: apart_def)
    ultimately show ?thesis using b1 by simp
  qed
  have b2: "(q = 0 \<and> allocs b2 = allocs b \<and> frees b2 = frees b \<and> sys_regions b2 = sys_regions b \<and> disabled b2 = 0)
       \<or> (\<exists>c. q \<noteq> 0 \<and> sz \<le> c \<and> add_mset (q, c) (mset (frees b2)) = mset (frees b)
            \<and> allocs b2 = (allocs b)(q \<mapsto> c) \<and> sys_regions b2 = sys_regions b \<and> disabled b2 = 0)"
    using q reuse_loop_cases [of 0 b1 sz q b2, OF _ pre] b1 by (auto split: if_splits)
  then show ?thesis
  proof (elim disjE exE conjE)
    assume z: "q = 0" and f: "allocs b2 = allocs b" "frees b2 = frees b" "sys_regions b2 = sys_regions b" "disabled b2 = 0"
    define n where "n = (if sz \<noteq> 0 then sz else 1)"
    have le: "sz \<le> n" by (simp add: n_def)
    have eq: "base_malloc b sz = (let (q, b3) = sys_malloc b2 n in
        (q, if q \<noteq> 0 then b3\<lparr>allocs := (allocs b3)(q \<mapsto> sz)\<rparr> else b3))"
      using dis rb q z by (simp add: base_malloc_def n_def split: prod.splits)
    show ?thesis
    proof (cases "sys_regions b")
      case Nil
      with eq res f show ?thesis by (auto simp: z)
    next
      case (Cons x rs)
      obtain a c where x: "x = (a, c)" by fastforce
      have "region_ok (a, c)" using pool_invD(2) [OF pool] Cons x by simp
      then have a: "a \<noteq> 0" by (simp add: region_ok_def)
      show ?thesis
      proof (cases "n \<le> c")
        case True
        with le have "sz \<le> c" by simp
        with True eq res f Cons x a show ?thesis by auto
      next
        case False
        with eq res f Cons x have "p = 0" and b': "b' = b2\<lparr>sys_regions := rs\<rparr>" by auto
        moreover have "mset (frees b @ sys_regions b) = {#x#} + mset (frees b' @ sys_regions b')"
          using f Cons b' by simp
        ultimately show ?thesis using f by (intro disjI1) auto
      qed
    qed
  next
    fix c
    assume h: "q \<noteq> 0" "sz \<le> c" "add_mset (q, c) (mset (frees b2)) = mset (frees b)"
      "allocs b2 = (allocs b)(q \<mapsto> c)" "sys_regions b2 = sys_regions b" "disabled b2 = 0"
    have "p = q" and "b' = b2\<lparr>allocs := (allocs b2)(q \<mapsto> sz)\<rparr>"
      using res dis rb q h(1) by (auto simp: base_malloc_def split: prod.splits)
    then show ?thesis using h by (intro disjI2 exI [of _ c]) (simp add: h(3) [symmetric])
  qed
qed

lemma pool_inv_drops:
  "pool_inv A L' \<Longrightarrow> mset L' = R + mset L \<Longrightarrow> pool_inv A L"
proof (induction R arbitrary: L')
  case empty
  then show ?case using pool_inv_perm [of L L' A] by simp
next
  case (add r R)
  obtain K where K: "mset K = R + mset L" using ex_mset by blast
  then have "mset (r # K) = mset L'" using add.prems(2) by simp
  then have "pool_inv A (r # K)" using add.prems(1) pool_inv_perm by blast
  then have "pool_inv A K" by (rule pool_inv_drop)
  then show ?case using K by (rule add.IH)
qed

lemma base_malloc_take:
  assumes inv: "base_inv b" and res: "base_malloc b sz = (p, b')" and nz: "p \<noteq> 0"
  obtains c L where "pool_inv (allocs b) ((p, c) # L)" and "sz \<le> c"
    and "mset L = mset (frees b' @ sys_regions b')" and "disabled b' = 0"
    and "allocs b' = (allocs b)(p \<mapsto> sz)" and "set (frees b @ sys_regions b) = insert (p, c) (set L)"
proof -
  from base_malloc_cases [OF inv res] nz obtain c where c: "sz \<le> c"
    "allocs b' = (allocs b)(p \<mapsto> sz)" "disabled b' = 0"
    "mset (frees b @ sys_regions b) = add_mset (p, c) (mset (frees b' @ sys_regions b'))" by auto
  let ?L = "frees b' @ sys_regions b'"
  have eq: "mset (frees b @ sys_regions b) = mset ((p, c) # ?L)" using c(4) by simp
  have "pool_inv (allocs b) ((p, c) # ?L)"
    using inv pool_inv_perm [OF eq] by (simp add: base_inv_def)
  moreover have "set (frees b @ sys_regions b) = insert (p, c) (set ?L)"
    using mset_eq_setD [OF eq] by simp
  ultimately show thesis using that c by blast
qed

interpretation ba: block_allocator base_malloc base_free allocs base_avoids base_inv
proof
  fix b sz p b'
  assume inv: "base_inv b" and res: "base_malloc b sz = (p, b')"
  show "base_inv b'"
  proof (cases "p = 0")
    case True
    with base_malloc_cases [OF inv res] obtain R where "allocs b' = allocs b" "disabled b' = 0"
      "mset (frees b @ sys_regions b) = R + mset (frees b' @ sys_regions b')" by auto
    with inv show ?thesis unfolding base_inv_def by (metis pool_inv_drops)
  next
    case False
    with base_malloc_take [OF inv res] show ?thesis
      by (metis base_inv_def pool_inv_perm pool_inv_take)
  qed
next
  fix b sz b'
  assume "base_inv b" "base_malloc b sz = (0, b')"
  then show "allocs b' = allocs b" using base_malloc_cases by blast
next
  fix b sz p b'
  assume inv: "base_inv b" and res: "base_malloc b sz = (p, b')" and nz: "p \<noteq> 0"
  show "allocs b' = (allocs b)(p \<mapsto> sz)" using base_malloc_take [OF inv res nz] by metis
  show "allocs b p = None" using base_malloc_take [OF inv res nz] pool_inv_fresh by metis
  obtain c L where ok: "region_ok (p, c)" and le: "sz \<le> c"
    using base_malloc_take [OF inv res nz] pool_invD(2) by (metis list.set_intros(1))
  from ok show "p mod 16 = 0" by (simp add: region_ok_def)
  from ok le show "unat p + unat sz < 2 ^ 64" by (simp add: region_ok_def word_le_nat_alt)
next
  fix b sz p b' q k
  assume inv: "base_inv b" and res: "base_malloc b sz = (p, b')" and nz: "p \<noteq> 0" and q: "allocs b q = Some k"
  obtain c L where pool: "pool_inv (allocs b) ((p, c) # L)" and le: "sz \<le> c"
    using base_malloc_take [OF inv res nz] by metis
  have "apart (q, k) (p, c)" by (rule pool_invD(5) [OF pool]) (use q in simp_all)
  then show "disj_rng p sz q k"
    using le disj_rng_shrink [of p c q k sz k] by (auto simp: apart_def disj_rng_sym)
next
  fix b sz p b' q k
  assume inv: "base_inv b" and res: "base_malloc b sz = (p, b')" and nz: "p \<noteq> 0" and q: "base_avoids b q k"
  obtain c L where "sz \<le> c" "set (frees b @ sys_regions b) = insert (p, c) (set L)"
    using base_malloc_take [OF inv res nz] by metis
  then show "disj_rng p sz q k"
    using q disj_rng_shrink [of p c q k sz k] by (auto simp: base_avoids_def)
next
  fix b sz p b' q k
  assume inv: "base_inv b" and res: "base_malloc b sz = (p, b')" and q: "base_avoids b q k"
  show "base_avoids b' q k"
  proof (cases "p = 0")
    case True
    with base_malloc_cases [OF inv res] obtain R where R: "allocs b' = allocs b"
      "mset (frees b @ sys_regions b) = R + mset (frees b' @ sys_regions b')" by auto
    then have "set (frees b' @ sys_regions b') \<subseteq> set (frees b @ sys_regions b)"
      by (metis mset_subset_eq_add_right set_mset_mono set_mset_mset)
    with R(1) q show ?thesis unfolding base_avoids_def by auto
  next
    case False
    obtain c L where c: "sz \<le> c" "set (frees b @ sys_regions b) = insert (p, c) (set L)"
      "mset L = mset (frees b' @ sys_regions b')" "allocs b' = (allocs b)(p \<mapsto> sz)"
      using base_malloc_take [OF inv res False] by metis
    have "set L = set (frees b' @ sys_regions b')" using c(3) by (rule mset_eq_setD)
    with c q disj_rng_shrink [of p c q k sz k] show ?thesis
      unfolding base_avoids_def by auto
  qed
next
  fix b p
  assume inv: "base_inv b"
  show "base_inv (base_free b p)"
  proof (cases "p = 0 \<or> allocs b p = None")
    case True
    then show ?thesis using inv by (auto simp: base_free_def)
  next
    case False
    then obtain n where n: "allocs b p = Some n" by auto
    have "pool_inv ((allocs b)(p := None)) ((p, n) # frees b @ sys_regions b)"
      using inv n by (intro pool_inv_give) (simp_all add: base_inv_def)
    then have "pool_inv ((allocs b)(p := None)) ((frees b @ [(p, n)]) @ sys_regions b)"
      by (rule iffD1 [OF pool_inv_perm, rotated]) simp
    with inv False n show ?thesis by (simp add: base_free_def base_inv_def)
  qed
next
  fix b p
  assume "base_inv b" and "p \<noteq> (0::u64)"
  then show "allocs (base_free b p) = (allocs b)(p := None)"
    by (auto simp: base_free_def base_inv_def split: option.splits)
next
  fix b p q k
  assume "base_avoids b q k"
  then show "base_avoids (base_free b p) q k"
    by (auto simp: base_free_def base_avoids_def split: option.splits)
qed

lemma base_inv_init:
  "distinct (map fst rs) \<Longrightarrow> (\<forall>r \<in> set rs. region_ok r) \<Longrightarrow>
   (\<forall>r \<in> set rs. \<forall>s \<in> set rs. fst r \<noteq> fst s \<longrightarrow> apart r s) \<Longrightarrow> base_inv (base_alloc_init rs)"
  by (simp add: base_inv_def base_alloc_init_def pool_inv_def)


section \<open>Properties\<close>

text \<open>
  A successful request to the base allocator gives a 16-byte aligned block at an inactive
  address, overlapping no active block, and enters exactly it into the active blocks; the
  allocator's invariant is kept, whether the block was a reused one or a new one.
\<close>

theorem base_malloc_block:
  assumes "base_inv b" and "base_malloc b sz = (p, b')" and "p \<noteq> 0"
  shows "base_inv b' \<and> allocs b' = (allocs b)(p \<mapsto> sz) \<and> allocs b p = None \<and> p mod 16 = 0
     \<and> (\<forall>q k. allocs b q = Some k \<longrightarrow> disj_rng p sz q k)"
  using ba.malloc_inv [OF assms(1,2)] ba.malloc_blk [OF assms] ba.malloc_fresh [OF assms]
    ba.malloc_aligned [OF assms] ba.malloc_disj [OF assms] by simp

lemma base_malloc_first:
  assumes "disabled b = 0" "frees b = []" "sys_regions b = (p, c) # rs" "sz \<noteq> 0" "sz \<le> c"
  shows "\<exists>b'. base_malloc b sz = (p, b')"
proof -
  obtain r b1 where r: "alloc_random (b\<lparr>atexit_installed := True\<rparr>) = (r, b1)" by fastforce
  have "frees b1 = []" "sys_regions b1 = (p, c) # rs" using alloc_random_frame [OF r] assms by simp_all
  moreover from this have "reuse_loop 0 b1 sz = (0, b1)" by (simp add: reuse_loop.simps [of 0])
  ultimately show ?thesis using assms r by (auto simp: base_malloc_def)
qed

theorem base_malloc_block_witness:
  "\<exists>b'. base_malloc (base_alloc_init [(4096, 100)]) 40 = (4096, b') \<and> allocs b' = [4096 \<mapsto> 40]"
proof -
  have inv: "base_inv (base_alloc_init [(4096, 100)])" by (rule base_inv_init) (simp_all add: region_ok_def)
  obtain b' where b': "base_malloc (base_alloc_init [(4096, 100)]) 40 = (4096, b')"
    using base_malloc_first [where c = 100 and rs = "[]" and p = 4096 and sz = 40 and b = "base_alloc_init [(4096, 100)]"]
    by (auto simp: base_alloc_init_def)
  from base_malloc_block [OF inv b'] b' show ?thesis by (simp add: base_alloc_init_def)
qed

end
