(* ===== verification/HeavyHitter.thy ===== *)
theory HeavyHitter
  imports Prelude "HOL-Library.Multiset"
begin

text \<open>
  The heavy-hitter tables of pset1 (\<open>m61.cc\<close>): six byte counters and six allocation counters,
  each with the source location it stands for. An allocation updates both tables with a
  Misra-Gries step. The locale \<open>frequency_summary\<close> is the contract of such a table; it gives the
  error bound of a whole run once, and both tables are interpretations of it.
\<close>

section \<open>Locations and tables\<close>

text \<open>
  \<open>struct loc\<close>: the file is a \<open>const char*\<close> and the code compares the pointers, so it is an address.
\<close>

record loc =
  loc_file :: u64
  loc_line :: u64

type_synonym table = "u64 list \<times> loc list"

definition null_loc :: loc where
  "null_loc = \<lparr>loc_file = 0, loc_line = 0\<rparr>"

definition empty_table :: table where
  "empty_table = (replicate 6 0, replicate 6 null_loc)"

section \<open>The allocation counters\<close>

text \<open>
  The scan over the six slots: it stops at the slot of the location (which it increments) and
  remembers the last empty slot it saw, \<open>-1\<close> if none.
\<close>

function freq_scan :: "nat \<Rightarrow> u64 list \<Rightarrow> loc list \<Rightarrow> loc \<Rightarrow> int \<Rightarrow> bool \<times> int \<times> u64 list" where
  "freq_scan i fr ls l zero_frq =
     (if i < 6 then
        if fr ! i = 0 then freq_scan (Suc i) fr ls l (int i)
        else if ls ! i = l then (True, zero_frq, fr[i := fr ! i + 1])
        else freq_scan (Suc i) fr ls l zero_frq
      else (False, zero_frq, fr))"
  by pat_completeness auto
termination
  by (relation "measure (\<lambda>(i, _). 6 - i)") auto

declare freq_scan.simps [simp del]

text \<open>The loop that decrements every counter; its \<open>assert\<close> is the \<open>None\<close> branch.\<close>

fun freq_decr :: "u64 list \<Rightarrow> u64 list option" where
  "freq_decr [] = Some []"
| "freq_decr (c # cs) = (if c > 0 then map_option (Cons (c - 1)) (freq_decr cs) else None)"

definition freq_update :: "table \<Rightarrow> loc \<Rightarrow> table option" where
  "freq_update t l =
     (let (fr, ls) = t; (fnd_freq, zero_frq, fr') = freq_scan 0 fr ls l (-1)
      in if fnd_freq then Some (fr', ls)
         else if zero_frq \<noteq> -1 then Some (fr'[nat zero_frq := 1], ls[nat zero_frq := l])
         else map_option (\<lambda>fr''. (fr'', ls)) (freq_decr fr'))"

section \<open>The byte counters\<close>

text \<open>The scan also keeps the least counter below \<open>sz\<close>, and its slot (\<open>-1\<close> for \<open>sz\<close> itself).\<close>

function byte_scan :: "nat \<Rightarrow> u64 list \<Rightarrow> loc list \<Rightarrow> loc \<Rightarrow> u64 \<Rightarrow> int \<Rightarrow> u64 \<Rightarrow> int
    \<Rightarrow> bool \<times> int \<times> u64 \<times> int \<times> u64 list" where
  "byte_scan i bc ls l sz zero_cnt min_size min_counter =
     (if i < 6 then
        if bc ! i = 0 then byte_scan (Suc i) bc ls l sz (int i) min_size min_counter
        else if ls ! i = l then (True, zero_cnt, min_size, min_counter, bc[i := bc ! i + sz])
        else if min_size > bc ! i then byte_scan (Suc i) bc ls l sz zero_cnt (bc ! i) (int i)
        else byte_scan (Suc i) bc ls l sz zero_cnt min_size min_counter
      else (False, zero_cnt, min_size, min_counter, bc))"
  by pat_completeness auto
termination
  by (relation "measure (\<lambda>(i, _). 6 - i)") auto

declare byte_scan.simps [simp del]

text \<open>The loop that takes \<open>min_size\<close> off every counter and gives the least one to the location.\<close>

definition byte_evict :: "u64 list \<Rightarrow> loc list \<Rightarrow> loc \<Rightarrow> u64 \<Rightarrow> u64 \<Rightarrow> int \<Rightarrow> table" where
  "byte_evict bc ls l sz min_size min_counter =
     (let bc' = map (\<lambda>c. c - min_size) bc
      in if 0 \<le> min_counter then (bc'[nat min_counter := sz - min_size], ls[nat min_counter := l])
         else (bc', ls))"

definition byte_update :: "table \<Rightarrow> loc \<Rightarrow> u64 \<Rightarrow> table" where
  "byte_update t l sz =
     (let (bc, ls) = t;
          (fnd_cnt, zero_cnt, min_size, min_counter, bc') = byte_scan 0 bc ls l sz (-1) sz (-1)
      in if fnd_cnt then (bc', ls)
         else if zero_cnt \<noteq> -1 then (bc'[nat zero_cnt := sz], ls[nat zero_cnt := l])
         else byte_evict bc' ls l sz min_size min_counter)"

section \<open>The report\<close>

text \<open>
  A report line: the location, its counter, and the total that the printed percentage is relative
  to. The report is a selection sort from the largest counter; it overwrites the tables.
\<close>

record hh_line =
  hl_loc :: loc
  hl_count :: u64
  hl_total :: u64

fun max_idx :: "u64 list \<Rightarrow> nat \<Rightarrow> nat" where
  "max_idx cs 0 = 0"
| "max_idx cs (Suc j) = (let m = max_idx cs j in if cs ! m < cs ! j then j else m)"

fun hh_report :: "nat \<Rightarrow> table \<Rightarrow> u64 \<Rightarrow> hh_line list \<times> table" where
  "hh_report 0 t tot = ([], t)"
| "hh_report (Suc i) (cs, ls) tot =
     (let m = max_idx cs (Suc i);
          line = (if loc_file (ls ! m) \<noteq> 0
                  then [\<lparr>hl_loc = ls ! m, hl_count = cs ! m, hl_total = tot\<rparr>] else []);
          (rest, t') = hh_report i (cs[m := cs ! i], ls[m := ls ! i]) tot
      in (line @ rest, t'))"

section \<open>The contract of a frequency summary\<close>

text \<open>
  A summary with \<open>k\<close> counters: \<open>est s l\<close> is what it holds for \<open>l\<close>, \<open>tot s\<close> the sum of its counters.
  One update with weight \<open>w\<close> takes the same amount \<open>d\<close> off every estimate at most, and pays
  \<open>(k + 1) * d\<close> of the total weight for it.
\<close>

fun weight_all :: "('w \<Rightarrow> nat) \<Rightarrow> (loc \<times> 'w) list \<Rightarrow> nat" where
  "weight_all wt [] = 0"
| "weight_all wt (x # xs) = wt (snd x) + weight_all wt xs"

fun weight_of :: "('w \<Rightarrow> nat) \<Rightarrow> (loc \<times> 'w) list \<Rightarrow> loc \<Rightarrow> nat" where
  "weight_of wt [] l = 0"
| "weight_of wt (x # xs) l = (if l = fst x then wt (snd x) else 0) + weight_of wt xs l"

locale frequency_summary =
  fixes upd :: "'s \<Rightarrow> loc \<Rightarrow> 'w \<Rightarrow> 's"
    and wt :: "'w \<Rightarrow> nat"
    and est :: "'s \<Rightarrow> loc \<Rightarrow> nat"
    and tot :: "'s \<Rightarrow> nat"
    and sinv :: "'s \<Rightarrow> bool"
    and k :: nat
    and bound :: nat
  assumes upd_inv: "sinv s \<Longrightarrow> tot s + wt w < bound \<Longrightarrow> sinv (upd s l w)"
    and upd_pay: "sinv s \<Longrightarrow> tot s + wt w < bound \<Longrightarrow>
      \<exists>d. tot (upd s l w) + (k + 1) * d = tot s + wt w
        \<and> (\<forall>l'. est s l' + (if l' = l then wt w else 0) \<le> est (upd s l w) l' + d
              \<and> est (upd s l w) l' \<le> est s l' + (if l' = l then wt w else 0))"
begin

text \<open>A run over a list of allocations, and the true weight of a location in it.\<close>

lemma run_bounds:
  assumes "sinv s" and "tot s + weight_all wt xs < bound"
  defines "s' \<equiv> fold (\<lambda>x s. upd s (fst x) (snd x)) xs s"
  shows "sinv s' \<and> (\<exists>d. tot s' + (k + 1) * d = tot s + weight_all wt xs
     \<and> (\<forall>l. est s l + weight_of wt xs l \<le> est s' l + d
          \<and> est s' l \<le> est s l + weight_of wt xs l))"
  using assms(1,2) unfolding s'_def
proof (induction xs arbitrary: s)
  case Nil
  then show ?case by (auto intro!: exI [of _ 0])
next
  case (Cons x xs)
  let ?s1 = "upd s (fst x) (snd x)" and ?w = "wt (snd x)"
  let ?f = "fold (\<lambda>x s. upd s (fst x) (snd x)) xs ?s1"
  have lt: "tot s + ?w < bound" using Cons.prems(2) by simp
  obtain d where d: "tot ?s1 + (k + 1) * d = tot s + ?w"
    and e: "\<And>l'. est s l' + (if l' = fst x then ?w else 0) \<le> est ?s1 l' + d
              \<and> est ?s1 l' \<le> est s l' + (if l' = fst x then ?w else 0)"
    using upd_pay [OF Cons.prems(1) lt] by blast
  have "tot ?s1 \<le> tot s + ?w" using d by linarith
  then have lt1: "tot ?s1 + weight_all wt xs < bound" using Cons.prems(2) by simp
  obtain d' where inv: "sinv ?f" and d': "tot ?f + (k + 1) * d' = tot ?s1 + weight_all wt xs"
    and e': "\<And>l. est ?s1 l + weight_of wt xs l \<le> est ?f l + d'
          \<and> est ?f l \<le> est ?s1 l + weight_of wt xs l"
    using Cons.IH [OF upd_inv [OF Cons.prems(1) lt] lt1] by blast
  have "tot ?f + (k + 1) * (d + d') = tot s + weight_all wt (x # xs)"
    using d d' by (simp add: algebra_simps)
  moreover have "est s l + weight_of wt (x # xs) l \<le> est ?f l + (d + d')
      \<and> est ?f l \<le> est s l + weight_of wt (x # xs) l" for l
    using e [of l] e' [of l] by (simp split: if_splits)
  ultimately show ?case using inv by (intro conjI exI [of _ "d + d'"]) (simp_all only: fold.simps comp_apply simp_thms)
qed

text \<open>From an empty summary: never too high, and too low by at most one \<open>(k + 1)\<close>-th of the total.\<close>

lemma summary_error:
  assumes "sinv s" and "tot s = 0" and "\<And>l. est s l = 0"
    and "weight_all wt xs < bound"
  shows "est (fold (\<lambda>x s. upd s (fst x) (snd x)) xs s) l \<le> weight_of wt xs l"
    and "(k + 1) * (weight_of wt xs l
            - est (fold (\<lambda>x s. upd s (fst x) (snd x)) xs s) l) \<le> weight_all wt xs"
proof -
  let ?f = "fold (\<lambda>x s. upd s (fst x) (snd x)) xs s"
  let ?c = "weight_of wt xs l"
  obtain d where d: "tot ?f + (k + 1) * d = weight_all wt xs"
    and e: "?c \<le> est ?f l + d" "est ?f l \<le> ?c"
    using run_bounds [OF assms(1), of xs] assms(2-4) by auto
  show "est ?f l \<le> ?c" by (rule e(2))
  have "(k + 1) * (?c - est ?f l) \<le> (k + 1) * d" using e by (intro mult_le_mono2) simp
  with d show "(k + 1) * (?c - est ?f l) \<le> weight_all wt xs" by linarith
qed

end

section \<open>The two tables keep the contract\<close>

definition slot_est :: "u64 \<Rightarrow> loc \<Rightarrow> loc \<Rightarrow> nat" where
  "slot_est c l' l = (if l' = l then unat c else 0)"

fun table_est :: "table \<Rightarrow> loc \<Rightarrow> nat" where
  "table_est (cs, ls) l = (\<Sum>i<6. slot_est (cs ! i) (ls ! i) l)"

fun table_tot :: "table \<Rightarrow> nat" where
  "table_tot (cs, ls) = (\<Sum>i<6. unat (cs ! i))"

declare table_est.simps [simp del] table_tot.simps [simp del]

text \<open>Six slots, and no location has two counters that are not zero.\<close>

definition table_inv :: "table \<Rightarrow> bool" where
  "table_inv t \<longleftrightarrow> length (fst t) = 6 \<and> length (snd t) = 6
     \<and> (\<forall>i<6. \<forall>j<6. i \<noteq> j \<longrightarrow> fst t ! i \<noteq> 0 \<longrightarrow> fst t ! j \<noteq> 0 \<longrightarrow> snd t ! i \<noteq> snd t ! j)"

definition absent :: "table \<Rightarrow> loc \<Rightarrow> bool" where
  "absent t l \<longleftrightarrow> (\<forall>i<6. fst t ! i \<noteq> 0 \<longrightarrow> snd t ! i \<noteq> l)"

text \<open>One update from \<open>t\<close> to \<open>t'\<close> for location \<open>l\<close> with weight \<open>w\<close> that takes \<open>d\<close> off the estimates.\<close>

definition pays :: "table \<Rightarrow> table \<Rightarrow> loc \<Rightarrow> nat \<Rightarrow> nat \<Rightarrow> bool" where
  "pays t t' l w d \<longleftrightarrow> table_inv t' \<and> table_tot t' + 7 * d = table_tot t + w
     \<and> (\<forall>l'. table_est t l' + (if l' = l then w else 0) \<le> table_est t' l' + d
          \<and> table_est t' l' \<le> table_est t l' + (if l' = l then w else 0))"

lemma sum_change:
  fixes F G :: "nat \<Rightarrow> nat"
  assumes "j < n" and "\<And>i. i < n \<Longrightarrow> i \<noteq> j \<Longrightarrow> F i = G i"
  shows "(\<Sum>i<n. F i) + G j = (\<Sum>i<n. G i) + F j"
proof -
  have "sum F ({..<n} - {j}) = sum G ({..<n} - {j})" using assms(2) by (intro sum.cong) auto
  then show ?thesis using assms(1) by (simp add: sum.remove [of "{..<n}" j])
qed

lemma tot_update:
  assumes "j < 6" and "length cs = 6"
  shows "table_tot (cs[j := c], ls') + unat (cs ! j) = table_tot (cs, ls) + unat c"
  using sum_change [OF assms(1), of "\<lambda>i. unat (cs[j := c] ! i)" "\<lambda>i. unat (cs ! i)"] assms
  by (simp add: table_tot.simps)

lemma est_update:
  assumes "j < 6" and "length cs = 6" and "length ls = 6"
  shows "table_est (cs[j := c], ls[j := l']) l + slot_est (cs ! j) (ls ! j) l
       = table_est (cs, ls) l + slot_est c l' l"
  using sum_change [OF assms(1), of "\<lambda>i. slot_est (cs[j := c] ! i) (ls[j := l'] ! i) l"
      "\<lambda>i. slot_est (cs ! i) (ls ! i) l"] assms
  by (simp add: table_est.simps)

lemma pays_found:
  assumes inv: "table_inv (cs, ls)" and j: "j < 6" "cs ! j \<noteq> 0" "ls ! j = l"
    and small: "unat (cs ! j) + unat w < 2 ^ 64"
  shows "pays (cs, ls) (cs[j := cs ! j + w], ls) l (unat w) 0"
proof -
  have len: "length cs = 6" "length ls = 6" using inv by (simp_all add: table_inv_def)
  have u: "unat (cs ! j + w) = unat (cs ! j) + unat w" using small by (simp add: unat_add_lt)
  have tot: "table_tot (cs[j := cs ! j + w], ls) = table_tot (cs, ls) + unat w"
    using tot_update [OF j(1) len(1), of "cs ! j + w" ls ls] u by simp
  have est: "table_est (cs[j := cs ! j + w], ls) l' = table_est (cs, ls) l' + (if l' = l then unat w else 0)" for l'
    using est_update [OF j(1) len, of "cs ! j + w" l l'] u j(3) by (auto simp: slot_est_def)
  have "table_inv (cs[j := cs ! j + w], ls)"
    using inv j len by (auto simp: table_inv_def nth_list_update)
  with tot est show ?thesis by (simp add: pays_def)
qed

lemma absent_est: "absent t l \<Longrightarrow> table_est t l = 0"
  by (cases t) (auto simp: absent_def table_est.simps slot_est_def)

lemma pays_empty:
  assumes inv: "table_inv (cs, ls)" and j: "j < 6" "cs ! j = 0" and ab: "absent (cs, ls) l"
  shows "pays (cs, ls) (cs[j := w], ls[j := l]) l (unat w) 0"
proof -
  have len: "length cs = 6" "length ls = 6" using inv by (simp_all add: table_inv_def)
  have tot: "table_tot (cs[j := w], ls[j := l]) = table_tot (cs, ls) + unat w"
    using tot_update [OF j(1) len(1), of w "ls[j := l]" ls] j(2) by simp
  have est: "table_est (cs[j := w], ls[j := l]) l' = table_est (cs, ls) l' + (if l' = l then unat w else 0)" for l'
  proof -
    have "slot_est (cs ! j) (ls ! j) l' = 0" by (simp add: slot_est_def j(2))
    then show ?thesis using est_update [OF j(1) len, of w l l'] by (auto simp: slot_est_def)
  qed
  have "table_inv (cs[j := w], ls[j := l])"
    using inv ab j len by (auto simp: table_inv_def absent_def nth_list_update)
  with tot est show ?thesis by (simp add: pays_def)
qed

text \<open>
  A location has one counter at most, so taking \<open>m\<close> off every counter takes \<open>m\<close> off its estimate.
\<close>

lemma est_single:
  assumes "table_inv (cs, ls)" and "i < 6" and "cs ! i \<noteq> 0"
  shows "table_est (cs, ls) (ls ! i) = unat (cs ! i)"
proof -
  have "(\<Sum>j<6. slot_est (cs ! j) (ls ! j) (ls ! i)) = (\<Sum>j<6. if j = i then unat (cs ! j) else 0)"
    using assms by (intro sum.cong refl) (force simp: table_inv_def slot_est_def)
  then show ?thesis using assms(2) by (simp add: table_est.simps)
qed

lemma est_le_decr:
  assumes inv: "table_inv (cs, ls)" and m: "\<And>i. i < 6 \<Longrightarrow> m \<le> cs ! i"
    and cs': "\<And>i. i < 6 \<Longrightarrow> ls ! i = l \<Longrightarrow> unat (cs ! i) \<le> unat (cs' ! i) + unat m \<or> cs ! i = 0"
    and ls': "\<And>i. i < 6 \<Longrightarrow> ls ! i = l \<Longrightarrow> cs ! i \<noteq> 0 \<Longrightarrow> ls' ! i = l \<or> cs ! i = m"
  shows "table_est (cs, ls) l \<le> table_est (cs', ls') l + unat m"
proof (cases "absent (cs, ls) l")
  case True
  then show ?thesis by (simp add: absent_est)
next
  case False
  then obtain i where i: "i < 6" "cs ! i \<noteq> 0" "ls ! i = l" by (auto simp: absent_def)
  have e: "table_est (cs, ls) l = unat (cs ! i)" using est_single [OF inv i(1,2)] i(3) by simp
  show ?thesis
  proof (cases "cs ! i = m")
    case True
    with e show ?thesis by simp
  next
    case False
    with ls' [OF i(1,3,2)] have "ls' ! i = l" by simp
    then have "unat (cs' ! i) \<le> table_est (cs', ls') l"
      using i(1) member_le_sum [of i "{..<6}" "\<lambda>i. slot_est (cs' ! i) (ls' ! i) l"]
      by (simp add: table_est.simps slot_est_def [of "cs' ! i"])
    with e cs' [OF i(1,3)] i(2) show ?thesis by auto
  qed
qed

lemma pays_evict:
  assumes inv: "table_inv (cs, ls)" and nz: "\<And>i. i < 6 \<Longrightarrow> cs ! i \<noteq> 0" and ab: "absent (cs, ls) l"
    and m: "\<And>i. i < 6 \<Longrightarrow> m \<le> cs ! i" "m \<le> w"
    and c: "(mc = -1 \<and> m = w) \<or> (\<exists>k<6. mc = int k \<and> cs ! k = m)"
  shows "pays (cs, ls) (byte_evict cs ls l w m mc) l (unat w) (unat m)"
proof -
  have len: "length cs = 6" "length ls = 6" using inv by (simp_all add: table_inv_def)
  define cs1 where "cs1 = map (\<lambda>c. c - m) cs"
  have n1: "unat (cs1 ! i) + unat m = unat (cs ! i)" if "i < 6" for i
    using that m(1) [OF that] len by (simp add: cs1_def unat_sub_le word_le_nat_alt)
  have out: "ls ! i \<noteq> l" if "i < 6" for i using ab nz that by (simp add: absent_def)
  have len1: "length cs1 = 6" using len by (simp add: cs1_def)
  have sum1: "(\<Sum>i<6. unat (cs1 ! i)) + 6 * unat m = (\<Sum>i<6. unat (cs ! i))"
  proof -
    have "(\<Sum>i<6. unat (cs1 ! i)) + (\<Sum>i<(6::nat). unat m) = (\<Sum>i<6. unat (cs1 ! i) + unat m)"
      by (rule sum.distrib [symmetric])
    also have "\<dots> = (\<Sum>i<6. unat (cs ! i))" by (rule sum.cong) (simp_all add: n1)
    finally show ?thesis by simp
  qed
  from c show ?thesis
  proof (elim disjE exE conjE)
    assume mc: "mc = -1" "m = w"
    then have ev: "byte_evict cs ls l w m mc = (cs1, ls)" by (simp add: byte_evict_def cs1_def Let_def)
    have lo: "table_est (cs, ls) l' \<le> table_est (cs1, ls) l' + unat m" for l'
      by (rule est_le_decr [OF inv m(1)]) (use n1 in force)+
    have up: "table_est (cs1, ls) l' \<le> table_est (cs, ls) l'" for l'
      unfolding table_est.simps using n1 by (intro sum_mono) (auto simp: slot_est_def, metis le_add1)
    have "table_inv (cs1, ls)" using inv nz len1 by (simp add: table_inv_def)
    moreover have "table_tot (cs1, ls) + 7 * unat m = table_tot (cs, ls) + unat w"
      using sum1 mc by (simp add: table_tot.simps)
    moreover have "table_est (cs, ls) l = 0" using ab by (rule absent_est)
    ultimately show ?thesis using lo up mc ev by (auto simp: pays_def trans_le_add1)
  next
    fix k assume k: "k < 6" "mc = int k" "cs ! k = m"
    let ?cs = "cs1[k := w - m]" and ?ls = "ls[k := l]"
    have ev: "byte_evict cs ls l w m mc = (?cs, ?ls)" using k by (simp add: byte_evict_def cs1_def Let_def)
    have wm: "unat (w - m) + unat m = unat w" using m(2) by (simp add: unat_sub_le word_le_nat_alt)
    have k0: "unat (cs1 ! k) = 0" using n1 [OF k(1)] k(3) by simp
    have lo: "table_est (cs, ls) l' \<le> table_est (?cs, ?ls) l' + unat m" for l'
      by (rule est_le_decr [OF inv m(1)]) (use n1 k k0 len1 len in \<open>force simp: nth_list_update\<close>)+
    have eq: "table_est (?cs, ?ls) l' = table_est (cs1, ls) l' + (if l' = l then unat (w - m) else 0)" for l'
    proof -
      have "slot_est (cs1 ! k) (ls ! k) l' = 0" by (simp add: slot_est_def k0)
      then show ?thesis using est_update [OF k(1) len1 len(2), of "w - m" l l'] by (auto simp: slot_est_def)
    qed
    have up: "table_est (cs1, ls) l' \<le> table_est (cs, ls) l'" for l'
      unfolding table_est.simps using n1 by (intro sum_mono) (auto simp: slot_est_def, metis le_add1)
    have "table_inv (?cs, ?ls)" using inv nz len1 out k by (auto simp: table_inv_def nth_list_update)
    moreover have "table_tot (?cs, ?ls) + 7 * unat m = table_tot (cs, ls) + unat w"
      using sum1 wm k0 tot_update [OF k(1) len1, of "w - m" ?ls ls] by (simp add: table_tot.simps)
    moreover have "table_est (cs, ls) l = 0" using ab by (rule absent_est)
    moreover have "table_est (cs, ls) l' + (if l' = l then unat w else 0) \<le> table_est (?cs, ?ls) l' + unat m
        \<and> table_est (?cs, ?ls) l' \<le> table_est (cs, ls) l' + (if l' = l then unat w else 0)" for l'
      using lo [of l'] eq [of l'] up [of l'] wm calculation(3) by (cases "l' = l") auto
    ultimately show ?thesis using ev by (simp add: pays_def)
  qed
qed


section \<open>What the two scans find\<close>

text \<open>What is known of the slots below \<open>i\<close> when the scan has passed them.\<close>

definition freq_seen :: "nat \<Rightarrow> u64 list \<Rightarrow> loc list \<Rightarrow> loc \<Rightarrow> int \<Rightarrow> bool" where
  "freq_seen i cs ls l z \<longleftrightarrow> (\<forall>j<i. cs ! j \<noteq> 0 \<longrightarrow> ls ! j \<noteq> l)
     \<and> ((z = -1 \<and> (\<forall>j<i. cs ! j \<noteq> 0)) \<or> (\<exists>k<i. z = int k \<and> cs ! k = 0))"

definition byte_seen :: "nat \<Rightarrow> u64 list \<Rightarrow> u64 \<Rightarrow> u64 \<Rightarrow> int \<Rightarrow> bool" where
  "byte_seen i cs w ms mc \<longleftrightarrow> ms \<le> w \<and> (\<forall>j<i. cs ! j \<noteq> 0 \<longrightarrow> ms \<le> cs ! j)
     \<and> ((mc = -1 \<and> ms = w) \<or> (\<exists>k<i. mc = int k \<and> cs ! k = ms))"

lemma all_less_Suc_iff: "(\<forall>j<Suc i. P j) \<longleftrightarrow> (\<forall>j<i. P j) \<and> P i"
  by (auto simp: less_Suc_eq)

lemma ex_less_Suc_iff: "(\<exists>j<Suc i. P j) \<longleftrightarrow> (\<exists>j<i. P j) \<or> P i"
  by (auto simp: less_Suc_eq)

lemma freq_scan_spec:
  assumes "freq_scan i cs ls l z = (f, z', cs')" and "freq_seen i cs ls l z" and "i \<le> 6"
  shows "(f \<and> (\<exists>k<6. cs ! k \<noteq> 0 \<and> ls ! k = l \<and> cs' = cs[k := cs ! k + 1]))
       \<or> (\<not> f \<and> cs' = cs \<and> freq_seen 6 cs ls l z')"
  using assms
proof (induction i cs ls l z rule: freq_scan.induct)
  case (1 i cs ls l z)
  consider "i = 6" | "i < 6" "cs ! i = 0" | "i < 6" "cs ! i \<noteq> 0" "ls ! i = l"
    | "i < 6" "cs ! i \<noteq> 0" "ls ! i \<noteq> l" using "1.prems"(3) by linarith
  then show ?case
  proof cases
    case 1
    with "1.prems" show ?thesis by (auto simp: freq_scan.simps [of 6])
  next
    case 2
    then have "freq_seen (Suc i) cs ls l (int i)"
      using "1.prems"(2) by (auto simp: freq_seen_def all_less_Suc_iff ex_less_Suc_iff)
    with 2 "1.IH"(1) "1.prems"(1) show ?thesis by (simp add: freq_scan.simps [of i])
  next
    case 4
    then have "freq_seen (Suc i) cs ls l z"
      using "1.prems"(2) by (auto simp: freq_seen_def all_less_Suc_iff ex_less_Suc_iff)
    with 4 "1.IH"(2) "1.prems"(1) show ?thesis by (simp add: freq_scan.simps [of i])
  qed (use "1.prems" in \<open>auto simp: freq_scan.simps [of i] split: if_splits\<close>)
qed

lemma byte_scan_spec:
  assumes "byte_scan i cs ls l w z ms mc = (f, z', ms', mc', cs')"
    and "freq_seen i cs ls l z" and "byte_seen i cs w ms mc" and "i \<le> 6"
  shows "(f \<and> (\<exists>k<6. cs ! k \<noteq> 0 \<and> ls ! k = l \<and> cs' = cs[k := cs ! k + w]))
       \<or> (\<not> f \<and> cs' = cs \<and> freq_seen 6 cs ls l z' \<and> byte_seen 6 cs w ms' mc')"
  using assms
proof (induction i cs ls l w z ms mc rule: byte_scan.induct)
  case (1 i cs ls l w z ms mc)
  note simps = freq_seen_def byte_seen_def all_less_Suc_iff ex_less_Suc_iff
  consider "i = 6" | "i < 6" "cs ! i = 0" | "i < 6" "cs ! i \<noteq> 0" "ls ! i = l"
    | "i < 6" "cs ! i \<noteq> 0" "ls ! i \<noteq> l" "ms > cs ! i"
    | "i < 6" "cs ! i \<noteq> 0" "ls ! i \<noteq> l" "\<not> ms > cs ! i" using "1.prems"(4) by linarith
  then show ?case
  proof cases
    case 1
    with "1.prems" show ?thesis by (auto simp: byte_scan.simps [of 6])
  next
    case 2
    then have "freq_seen (Suc i) cs ls l (int i)" "byte_seen (Suc i) cs w ms mc"
      using "1.prems"(2,3) by (auto simp: simps)
    with 2 "1.IH"(1) "1.prems"(1) show ?thesis by (simp add: byte_scan.simps [of i])
  next
    case 4
    then have "freq_seen (Suc i) cs ls l z" "byte_seen (Suc i) cs w (cs ! i) (int i)"
      using "1.prems"(2,3) by (auto simp: simps)
    with 4 "1.IH"(2) "1.prems"(1) show ?thesis by (simp add: byte_scan.simps [of i])
  next
    case 5
    then have "freq_seen (Suc i) cs ls l z" "byte_seen (Suc i) cs w ms mc"
      using "1.prems"(2,3) by (auto simp: simps)
    with 5 "1.IH"(3) "1.prems"(1) show ?thesis by (simp add: byte_scan.simps [of i])
  qed (use "1.prems" in \<open>auto simp: byte_scan.simps [of i] split: if_splits\<close>)
qed

lemma freq_decr_map: "(\<forall>c \<in> set cs. c \<noteq> 0) \<Longrightarrow> freq_decr cs = Some (map (\<lambda>c. c - 1) cs)"
  by (induction cs) (auto simp: word_gt_0)

lemma slot_le_tot: "i < 6 \<Longrightarrow> unat (cs ! i) \<le> table_tot (cs, ls)"
  using member_le_sum [of i "{..<6}" "\<lambda>i. unat (cs ! i)"] by (simp add: table_tot.simps)

text \<open>Both updates pay for what they take; the allocation update never hits its \<open>assert\<close>.\<close>

lemma freq_update_pays:
  assumes inv: "table_inv t" and small: "table_tot t + 1 < 2 ^ 64"
  shows "\<exists>t' d. freq_update t l = Some t' \<and> pays t t' l 1 d"
proof -
  obtain cs ls where t: "t = (cs, ls)" by fastforce
  have len: "length cs = 6" using inv t by (simp add: table_inv_def)
  obtain f z cs' where sc: "freq_scan 0 cs ls l (-1) = (f, z, cs')" by (metis prod_cases3)
  have upd: "freq_update t l = (if f then Some (cs', ls) else if z \<noteq> -1 then Some (cs'[nat z := 1], ls[nat z := l])
         else map_option (\<lambda>fr''. (fr'', ls)) (freq_decr cs'))"
    by (simp add: freq_update_def t sc)
  have "freq_seen 0 cs ls l (-1)" by (simp add: freq_seen_def)
  from freq_scan_spec [OF sc this] consider
      k where "f" "k < 6" "cs ! k \<noteq> 0" "ls ! k = l" "cs' = cs[k := cs ! k + 1]"
    | k where "\<not> f" "cs' = cs" "absent t l" "k < 6" "z = int k" "cs ! k = 0"
    | "\<not> f" "cs' = cs" "absent t l" "z = -1" "\<forall>j<6. cs ! j \<noteq> 0"
    by (auto simp: freq_seen_def absent_def t)
  then show ?thesis
  proof cases
    case 1
    have "unat (cs ! k) + unat (1 :: u64) < 2 ^ 64" using slot_le_tot [OF 1(2), of cs ls] small t by simp
    from pays_found [OF inv [unfolded t] 1(2,3,4) this] upd 1 t show ?thesis by auto
  next
    case 2
    from pays_empty [OF inv [unfolded t] 2(4,6), of l 1] upd 2 t show ?thesis by auto
  next
    case 3
    have "freq_decr cs = Some (map (\<lambda>c. c - 1) cs)" using 3 len by (intro freq_decr_map) (auto simp: in_set_conv_nth)
    then have u: "freq_update t l = Some (byte_evict cs ls l 1 1 (-1))"
      using upd 3 by (simp add: byte_evict_def)
    have "pays (cs, ls) (byte_evict cs ls l 1 1 (-1)) l (unat (1::u64)) (unat (1::u64))"
      using 3 inv t by (intro pays_evict) (auto simp: word_le_nat_alt Suc_le_eq unat_gt_0)
    with u t show ?thesis by auto
  qed
qed

lemma byte_update_pays:
  assumes inv: "table_inv t" and small: "table_tot t + unat w < 2 ^ 64"
  shows "\<exists>d. pays t (byte_update t l w) l (unat w) d"
proof -
  obtain cs ls where t: "t = (cs, ls)" by fastforce
  obtain f z ms mc cs' where sc: "byte_scan 0 cs ls l w (-1) w (-1) = (f, z, ms, mc, cs')" by (metis prod_cases5)
  have upd: "byte_update t l w = (if f then (cs', ls) else if z \<noteq> -1 then (cs'[nat z := w], ls[nat z := l])
         else byte_evict cs' ls l w ms mc)"
    by (simp add: byte_update_def t sc)
  have "freq_seen 0 cs ls l (-1)" "byte_seen 0 cs w w (-1)" by (simp_all add: freq_seen_def byte_seen_def)
  from byte_scan_spec [OF sc this] consider
      k where "f" "k < 6" "cs ! k \<noteq> 0" "ls ! k = l" "cs' = cs[k := cs ! k + w]"
    | k where "\<not> f" "cs' = cs" "absent t l" "k < 6" "z = int k" "cs ! k = 0"
    | "\<not> f" "cs' = cs" "absent t l" "z = -1" "\<forall>j<6. cs ! j \<noteq> 0" "byte_seen 6 cs w ms mc"
    by (auto simp: freq_seen_def absent_def t)
  then show ?thesis
  proof cases
    case 1
    have "unat (cs ! k) + unat w < 2 ^ 64" using slot_le_tot [OF 1(2), of cs ls] small t by simp
    from pays_found [OF inv [unfolded t] 1(2,3,4) this] upd 1 t show ?thesis by auto
  next
    case 2
    from pays_empty [OF inv [unfolded t] 2(4,6), of l w] upd 2 t show ?thesis by auto
  next
    case 3
    then have "pays (cs, ls) (byte_evict cs ls l w ms mc) l (unat w) (unat ms)"
      using inv t by (intro pays_evict) (auto simp: byte_seen_def)
    with upd 3 t show ?thesis by auto
  qed
qed

text \<open>The step that a run folds over the allocations; without the \<open>assert\<close> it is total.\<close>

definition freq_step :: "table \<Rightarrow> loc \<Rightarrow> unit \<Rightarrow> table" where
  "freq_step t l u = (case freq_update t l of Some t' \<Rightarrow> t' | None \<Rightarrow> t)"

interpretation allocs61: frequency_summary freq_step "\<lambda>_. 1" table_est table_tot table_inv 6 "2 ^ 64"
proof
  fix s :: table and w :: unit and l
  assume "table_inv s" "table_tot s + 1 < 2 ^ 64"
  then obtain t' d where d: "freq_update s l = Some t'" "pays s t' l 1 d" using freq_update_pays by blast
  then show "table_inv (freq_step s l w)" by (simp add: freq_step_def pays_def)
  show "\<exists>d. table_tot (freq_step s l w) + (6 + 1) * d = table_tot s + 1
        \<and> (\<forall>l'. table_est s l' + (if l' = l then 1 else 0) \<le> table_est (freq_step s l w) l' + d
              \<and> table_est (freq_step s l w) l' \<le> table_est s l' + (if l' = l then 1 else 0))"
  proof (intro exI [of _ d] conjI)
    show "table_tot (freq_step s l w) + (6 + 1) * d = table_tot s + 1"
      using d by (simp add: freq_step_def pays_def)
  qed (use d in \<open>simp only: freq_step_def pays_def option.case simp_thms\<close>)
qed

interpretation bytes61: frequency_summary byte_update unat table_est table_tot table_inv 6 "2 ^ 64"
proof
  fix s :: table and w :: u64 and l
  assume "table_inv s" "table_tot s + unat w < 2 ^ 64"
  then obtain d where d: "pays s (byte_update s l w) l (unat w) d" using byte_update_pays by blast
  then show "table_inv (byte_update s l w)" by (simp add: pays_def)
  show "\<exists>d. table_tot (byte_update s l w) + (6 + 1) * d = table_tot s + unat w
        \<and> (\<forall>l'. table_est s l' + (if l' = l then unat w else 0) \<le> table_est (byte_update s l w) l' + d
              \<and> table_est (byte_update s l w) l' \<le> table_est s l' + (if l' = l then unat w else 0))"
    using d by (intro exI [of _ d]) (simp add: pays_def)
qed

lemma empty_table_inv: "table_inv empty_table" "table_tot empty_table = 0" "table_est empty_table l = 0"
  by (simp_all add: table_inv_def empty_table_def table_tot.simps table_est.simps slot_est_def)


section \<open>The report\<close>

lemma max_idx_le: "max_idx cs (Suc i) \<le> i"
  by (induction i) (auto simp: Let_def)

lemma max_idx_max: "j < i \<Longrightarrow> cs ! j \<le> cs ! max_idx cs i"
proof (induction i)
  case (Suc i)
  then show ?case by (cases "j = i") (auto simp: Let_def intro: order_trans)
qed simp

lemma mset_take_swap:
  assumes "m \<le> i" and "i < length z"
  shows "mset (take (Suc i) z) = add_mset (z ! m) (mset (take i (z[m := z ! i])))"
proof (cases "m = i")
  case False
  with assms have m: "m < length (take i z)" by simp
  then have "mset (take i (z[m := z ! i])) = add_mset (z ! i) (mset (take i z) - {# z ! m #})"
    by (simp add: take_update_swap mset_update)
  moreover have "z ! m \<in># mset (take i z)" using m by (metis nth_mem nth_take length_take min_less_iff_conj set_mset_mset)
  ultimately show ?thesis using assms(2) by (simp add: take_Suc_conv_app_nth)
qed (use assms in \<open>simp add: take_Suc_conv_app_nth\<close>)

text \<open>
  The report on the first \<open>i\<close> slots lists exactly their entries with a file, each with its counter,
  and the largest counter first.
\<close>

definition hh_entry :: "u64 \<Rightarrow> loc \<times> u64 \<Rightarrow> hh_line" where
  "hh_entry n e = \<lparr>hl_loc = fst e, hl_count = snd e, hl_total = n\<rparr>"

lemma hh_report_entries:
  assumes "i \<le> length cs" and "i \<le> length ls"
  shows "mset (fst (hh_report i (cs, ls) n))
       = image_mset (hh_entry n) (filter_mset (\<lambda>e. loc_file (fst e) \<noteq> 0) (mset (take i (zip ls cs))))"
  using assms
proof (induction i arbitrary: cs ls)
  case (Suc i)
  define m where "m = max_idx cs (Suc i)"
  have m: "m \<le> i" by (simp add: m_def max_idx_le del: max_idx.simps)
  let ?cs = "cs[m := cs ! i]" and ?ls = "ls[m := ls ! i]"
  have z: "take i (zip ?ls ?cs) = take i ((zip ls cs)[m := zip ls cs ! i])"
    using Suc.prems by (simp add: update_zip)
  have "mset (take (Suc i) (zip ls cs)) = add_mset (ls ! m, cs ! m) (mset (take i (zip ?ls ?cs)))"
    unfolding z using mset_take_swap [OF m, of "zip ls cs"] m Suc.prems by simp
  moreover have "mset (fst (hh_report i (?cs, ?ls) n))
       = image_mset (hh_entry n) (filter_mset (\<lambda>e. loc_file (fst e) \<noteq> 0) (mset (take i (zip ?ls ?cs))))"
    using Suc by simp
  moreover obtain rest t' where "hh_report i (?cs, ?ls) n = (rest, t')" by (meson surj_pair)
  moreover have "\<lparr>hl_loc = ls ! m, hl_count = cs ! m, hl_total = n\<rparr> = hh_entry n (ls ! m, cs ! m)"
    by (simp add: hh_entry_def)
  ultimately show ?case by (simp add: Let_def m_def [symmetric] del: max_idx.simps)
qed simp

lemma hh_report_bound:
  assumes "i \<le> length cs" and "i \<le> length ls" and "\<And>j. j < i \<Longrightarrow> cs ! j \<le> c"
    and "x \<in> set (fst (hh_report i (cs, ls) n))"
  shows "hl_count x \<le> c"
proof -
  have "x \<in># image_mset (hh_entry n) (filter_mset (\<lambda>e. loc_file (fst e) \<noteq> 0) (mset (take i (zip ls cs))))"
    using assms hh_report_entries [of i cs ls n] by (metis set_mset_mset)
  then obtain e where "e \<in> set (take i (zip ls cs))" "x = hh_entry n e" by auto
  then obtain j where "j < i" "hl_count x = cs ! j"
    using assms(1,2) by (auto simp: in_set_conv_nth hh_entry_def)
  with assms(3) show ?thesis by simp
qed

lemma hh_report_sorted:
  assumes "i \<le> length cs" and "i \<le> length ls"
  shows "sorted_wrt (\<lambda>a b. hl_count a \<ge> hl_count b) (fst (hh_report i (cs, ls) n))"
  using assms
proof (induction i arbitrary: cs ls)
  case (Suc i)
  define m where "m = max_idx cs (Suc i)"
  have m: "m \<le> i" by (simp add: m_def max_idx_le del: max_idx.simps)
  have le: "cs ! j \<le> cs ! m" if "j < Suc i" for j
    using max_idx_max [OF that, of cs] by (simp add: m_def del: max_idx.simps)
  let ?cs = "cs[m := cs ! i]" and ?ls = "ls[m := ls ! i]"
  have b: "hl_count x \<le> cs ! m" if "x \<in> set (fst (hh_report i (?cs, ?ls) n))" for x
    using Suc.prems m le by (intro hh_report_bound [OF _ _ _ that]) (auto simp: nth_list_update)
  have "sorted_wrt (\<lambda>a b. hl_count a \<ge> hl_count b) (fst (hh_report i (?cs, ?ls) n))"
    using Suc by simp
  moreover obtain rest t' where "hh_report i (?cs, ?ls) n = (rest, t')" by (meson surj_pair)
  ultimately show ?case using b by (simp add: Let_def m_def [symmetric] del: max_idx.simps)
qed simp

text \<open>A location with an estimate above zero has a line, with the estimate as its counter.\<close>

lemma hh_report_has:
  assumes inv: "table_inv t" and pos: "0 < table_est t l" and nonnull: "loc_file l \<noteq> 0"
  shows "\<exists>x \<in> set (fst (hh_report 6 t n)). hl_loc x = l \<and> unat (hl_count x) = table_est t l"
proof -
  obtain cs ls where t: "t = (cs, ls)" by fastforce
  have len: "length cs = 6" "length ls = 6" using inv t by (simp_all add: table_inv_def)
  have "\<not> absent t l" using absent_est [of t l] pos by auto
  then obtain i where i: "i < 6" "cs ! i \<noteq> 0" "ls ! i = l" by (auto simp: absent_def t)
  have "(ls ! i, cs ! i) \<in> set (take 6 (zip ls cs))" using i len by (force simp: in_set_conv_nth)
  then have "hh_entry n (ls ! i, cs ! i) \<in># mset (fst (hh_report 6 t n))"
    using nonnull i(3) len hh_report_entries [of 6 cs ls n] by (auto simp: t)
  moreover have "table_est t l = unat (cs ! i)" using est_single [of cs ls i] inv i t by simp
  ultimately show ?thesis using i(3) by (intro bexI [of _ "hh_entry n (ls ! i, cs ! i)"]) (simp_all add: hh_entry_def)
qed


section \<open>Properties\<close>

text \<open>A run of allocations over each table, from the empty table of the program's start.\<close>

definition byte_run :: "(loc \<times> u64) list \<Rightarrow> table" where
  "byte_run xs = fold (\<lambda>x t. byte_update t (fst x) (snd x)) xs empty_table"

fun freq_run :: "table \<Rightarrow> loc list \<Rightarrow> table option" where
  "freq_run t [] = Some t"
| "freq_run t (l # ls) = (case freq_update t l of None \<Rightarrow> None | Some t' \<Rightarrow> freq_run t' ls)"

lemma weight_all_ones: "weight_all (\<lambda>_. 1) (map (\<lambda>l. (l, ())) ls) = length ls"
  by (induction ls) simp_all

lemma weight_of_ones: "weight_of (\<lambda>_. 1) (map (\<lambda>l. (l, ())) ls) l = count_list ls l"
  by (induction ls) auto

text \<open>The partial run is the total fold: the \<open>assert\<close> never stops it.\<close>

lemma freq_run_fold:
  assumes "table_inv t" and "table_tot t + length ls < 2 ^ 64"
  shows "freq_run t ls = Some (fold (\<lambda>x t. freq_step t (fst x) (snd x)) (map (\<lambda>l. (l, ())) ls) t)"
  using assms
proof (induction ls arbitrary: t)
  case (Cons l ls)
  then obtain t' d where t': "freq_update t l = Some t'" "pays t t' l 1 d"
    using freq_update_pays [of t l] by auto
  then have "table_tot t' \<le> table_tot t + 1" by (simp add: pays_def)
  then show ?case using Cons t' by (simp add: pays_def freq_step_def)
qed simp

lemma freq_run_start:
  "length ls < 2 ^ 64 \<Longrightarrow>
   freq_run empty_table ls
     = Some (fold (\<lambda>x t. freq_step t (fst x) (snd x)) (map (\<lambda>l. (l, ())) ls) empty_table)"
  by (rule freq_run_fold) (simp_all add: empty_table_inv)

lemma run_has_line:
  assumes inv: "table_inv t" and le: "table_est t l \<le> w" and err: "7 * (w - table_est t l) \<le> n"
    and heavy: "n < 7 * w" and nonnull: "loc_file l \<noteq> 0"
  shows "\<exists>x \<in> set (fst (hh_report 6 t tot)). hl_loc x = l \<and> unat (hl_count x) \<le> w
     \<and> 7 * (w - unat (hl_count x)) \<le> n"
proof -
  have "0 < table_est t l" using err heavy by (cases "table_est t l = 0") simp_all
  from hh_report_has [OF inv this nonnull, of tot] le err show ?thesis by metis
qed

text \<open>
  C40: Heavy hitters by bytes. After any run of allocations whose sizes add up to less than \<open>2^64\<close>,
  a location that asked for more than a seventh of the bytes has a line in the report, and the
  number of bytes on the line is not above what the location asked for and below it by at most a
  seventh of all the bytes.
\<close>

theorem byte_hitters_reported:
  assumes "weight_all unat xs < 2 ^ 64" and "loc_file l \<noteq> 0"
    and "weight_all unat xs < 7 * weight_of unat xs l"
  shows "\<exists>x \<in> set (fst (hh_report 6 (byte_run xs) tot)). hl_loc x = l
     \<and> unat (hl_count x) \<le> weight_of unat xs l
     \<and> 7 * (weight_of unat xs l - unat (hl_count x)) \<le> weight_all unat xs"
proof (rule run_has_line [OF _ _ _ assms(3,2)])
  note err = bytes61.summary_error [OF empty_table_inv(1,2,3) assms(1)]
  show "table_inv (byte_run xs)"
    using bytes61.run_bounds [OF empty_table_inv(1), of xs] assms(1) by (simp add: byte_run_def empty_table_inv)
  show "table_est (byte_run xs) l \<le> weight_of unat xs l"
    and "7 * (weight_of unat xs l - table_est (byte_run xs) l) \<le> weight_all unat xs"
    using err [of l] by (simp_all add: byte_run_def)
qed

theorem byte_hitters_reported_witness:
  "\<exists>x \<in> set (fst (hh_report 6 (byte_run [(\<lparr>loc_file = 4096, loc_line = 7\<rparr>, 10), (\<lparr>loc_file = 4096, loc_line = 9\<rparr>, 3)]) 13)).
      hl_loc x = \<lparr>loc_file = 4096, loc_line = 7\<rparr>"
  using byte_hitters_reported [of "[(\<lparr>loc_file = 4096, loc_line = 7\<rparr>, 10), (\<lparr>loc_file = 4096, loc_line = 9\<rparr>, 3)]"
      "\<lparr>loc_file = 4096, loc_line = 7\<rparr>" 13] by auto

text \<open>
  Heavy hitters by allocations. After any run of fewer than \<open>2^64\<close> allocations the \<open>assert\<close> on
  the counters has never fired, and a location that made more than a seventh of the allocations has
  a line in the report, whose count is too low by at most a seventh of all allocations.
\<close>

theorem alloc_hitters_reported:
  assumes "length ls < 2 ^ 64"
  shows "\<exists>t. freq_run empty_table ls = Some t
     \<and> (\<forall>l. loc_file l \<noteq> 0 \<longrightarrow> length ls < 7 * count_list ls l \<longrightarrow>
          (\<exists>x \<in> set (fst (hh_report 6 t tot)). hl_loc x = l
             \<and> unat (hl_count x) \<le> count_list ls l
             \<and> 7 * (count_list ls l - unat (hl_count x)) \<le> length ls))"
proof -
  let ?xs = "map (\<lambda>l. (l, ())) ls"
  let ?t = "fold (\<lambda>x t. freq_step t (fst x) (snd x)) ?xs empty_table"
  have n: "weight_all (\<lambda>_. 1) ?xs < 2 ^ 64" using assms by (simp add: weight_all_ones [simplified])
  note err = allocs61.summary_error [OF empty_table_inv(1,2,3) n]
  have inv: "table_inv ?t"
    using allocs61.run_bounds [OF empty_table_inv(1), of ?xs] n by (simp add: empty_table_inv)
  have "\<exists>x \<in> set (fst (hh_report 6 ?t tot)). hl_loc x = l \<and> unat (hl_count x) \<le> count_list ls l
      \<and> 7 * (count_list ls l - unat (hl_count x)) \<le> length ls"
    if "loc_file l \<noteq> 0" "length ls < 7 * count_list ls l" for l
    by (rule run_has_line [OF inv _ _ that(2,1)])
      (use err [of l] in \<open>simp_all add: weight_of_ones [simplified] weight_all_ones [simplified]\<close>)
  with freq_run_start [OF assms] show ?thesis by blast
qed

theorem alloc_hitters_reported_witness:
  fixes l :: loc
  defines "l \<equiv> \<lparr>loc_file = 4096, loc_line = 7\<rparr>"
  shows "\<exists>t. freq_run empty_table [l, l, l] = Some t \<and> (\<exists>x \<in> set (fst (hh_report 6 t 3)). hl_loc x = l)"
proof -
  have "length [l, l, l] < 2 ^ 64" by simp
  from alloc_hitters_reported [OF this, of 3] obtain t where t: "freq_run empty_table [l, l, l] = Some t"
    and h: "\<And>l'. loc_file l' \<noteq> 0 \<Longrightarrow> length [l, l, l] < 7 * count_list [l, l, l] l' \<Longrightarrow>
          \<exists>x \<in> set (fst (hh_report 6 t 3)). hl_loc x = l'" by blast
  have "\<exists>x \<in> set (fst (hh_report 6 t 3)). hl_loc x = l" by (rule h) (simp_all add: l_def)
  with t show ?thesis by blast
qed

text \<open>
  The report of a table lists exactly its slots that have a file, each with its counter and
  the total, from the largest counter to the smallest.
\<close>

theorem hh_report_exact:
  assumes "length cs = 6" and "length ls = 6"
  shows "sorted_wrt (\<lambda>a b. hl_count a \<ge> hl_count b) (fst (hh_report 6 (cs, ls) tot))
     \<and> mset (fst (hh_report 6 (cs, ls) tot))
       = image_mset (hh_entry tot) (filter_mset (\<lambda>e. loc_file (fst e) \<noteq> 0) (mset (zip ls cs)))"
  using hh_report_sorted [of 6 cs ls tot] hh_report_entries [of 6 cs ls tot] assms by simp

theorem hh_report_exact_witness:
  "mset (fst (hh_report 6 ([1,5,0,2,0,0], replicate 6 \<lparr>loc_file = 1, loc_line = 2\<rparr>) 8))
     = image_mset (hh_entry 8) (mset (zip (replicate 6 \<lparr>loc_file = 1, loc_line = 2\<rparr>) [1,5,0,2,0,0]))"
  using hh_report_exact [of "[1,5,0,2,0,0]" "replicate 6 \<lparr>loc_file = 1, loc_line = 2\<rparr>" 8]
  by (simp add: numeral_eq_Suc del: hh_report.simps)

end
