(* ===== verification/M61.thy ===== *)
theory M61
  imports Prelude BaseAlloc HeavyHitter
begin

text \<open>
  The debugging allocator of pset1 (\<open>m61.cc\<close>, \<open>m61.hh\<close>) over a flat byte memory. Every block
  carries a 48-byte header (size, status tag, file, line, two links) and the nine bytes of
  \<open>"checkout"\<close> behind the payload; the active blocks form a circular list through a static
  node. The operations take the base allocator's \<open>malloc\<close> and \<open>free\<close> as arguments: their lemmas
  are proved once in the locale \<open>block_allocator\<close>, and the properties are their instances for the
  base allocator of \<open>basealloc.cc\<close>.
\<close>

section \<open>State\<close>

definition magic_header :: u64 where "magic_header = 12345678"
definition magic_free :: u64 where "magic_free = 121234345656"

text \<open>\<open>"checkout"\<close> with its terminator.\<close>

definition magic_footer :: "u8 list" where
  "magic_footer = [99, 104, 101, 99, 107, 111, 117, 116, 0]"

definition meta_data_sz :: u64 where "meta_data_sz = 48 + 48 mod 16"
definition magic_footer_sz :: u64 where "magic_footer_sz = 9"
definition UINT_MAX :: u64 where "UINT_MAX = 4294967295"

lemmas magic_simps = magic_header_def magic_free_def meta_data_sz_def magic_footer_sz_def UINT_MAX_def

text \<open>The fields of \<open>struct meta_data\<close> at address \<open>a\<close>.\<close>

abbreviation alloc_size :: "mem \<Rightarrow> u64 \<Rightarrow> u64" where "alloc_size m a \<equiv> ld64 m a"
abbreviation status_tag :: "mem \<Rightarrow> u64 \<Rightarrow> u64" where "status_tag m a \<equiv> ld64 m (a + 8)"
abbreviation alloc_file :: "mem \<Rightarrow> u64 \<Rightarrow> u64" where "alloc_file m a \<equiv> ld64 m (a + 16)"
abbreviation alloc_line :: "mem \<Rightarrow> u64 \<Rightarrow> u64" where "alloc_line m a \<equiv> ld64 m (a + 24)"
abbreviation prev_ptr :: "mem \<Rightarrow> u64 \<Rightarrow> u64" where "prev_ptr m a \<equiv> ld64 m (a + 32)"
abbreviation next_ptr :: "mem \<Rightarrow> u64 \<Rightarrow> u64" where "next_ptr m a \<equiv> ld64 m (a + 40)"

text \<open>The globals, the memory and the base allocator's state; \<open>inter_ptr\<close> is \<open>&first_node\<close>.\<close>

record 'b m61 =
  heap_mem :: mem
  base :: 'b
  inter_ptr :: u64
  malloc_counter :: u64
  free_counter :: u64
  fail_counter :: u64
  active_size_acc :: u64
  fail_size_acc :: u64
  total_size_acc :: u64
  heap_min_track :: u64
  heap_max_track :: u64
  byte_tab :: table       \<comment> \<open>\<open>byte_counters\<close> and \<open>count_locs\<close>\<close>
  freq_tab :: table       \<comment> \<open>\<open>alloc_freqs\<close> and \<open>freq_locs\<close>\<close>

definition m61_init :: "mem \<Rightarrow> 'b \<Rightarrow> u64 \<Rightarrow> 'b m61" where
  "m61_init m b i = \<lparr>heap_mem = mem_fill m i 0 48, base = b, inter_ptr = i, malloc_counter = 0,
     free_counter = 0, fail_counter = 0, active_size_acc = 0, fail_size_acc = 0, total_size_acc = 0,
     heap_min_track = - 1, heap_max_track = 0, byte_tab = empty_table, freq_tab = empty_table\<rparr>"

text \<open>A line of the leak report, also printed for an invalid free inside a block.\<close>

record leak =
  lk_loc :: loc
  lk_ptr :: u64
  lk_size :: u64

text \<open>
  The ways an operation ends the program: the messages of \<open>m61_free\<close> before \<open>abort\<close>, the
  \<open>assert\<close> on the counters, and the write through the null pointer when the base allocator has
  failed (its result is not tested).
\<close>

datatype m61_fault =
    NotInHeap u64
  | NotAllocated u64 "leak list"
  | DoubleFree u64
  | NotLinked u64
  | WildWrite u64
  | AssertFailed
  | NullWrite

section \<open>Operations\<close>

definition init_list :: "mem \<Rightarrow> u64 \<Rightarrow> mem" where
  "init_list m i = (if next_ptr m i = 0 then st64 (st64 m (i + 32) i) (i + 40) i else m)"

text \<open>Footer, header and links of a new block at \<open>a\<close>, in the order of the code.\<close>

definition place_block :: "mem \<Rightarrow> u64 \<Rightarrow> u64 \<Rightarrow> u64 \<Rightarrow> u64 \<Rightarrow> u64 \<Rightarrow> mem" where
  "place_block m i a sz file line =
     (let m1 = mem_write m (a + meta_data_sz + sz) magic_footer;
          m2 = st64 m1 a sz;
          m3 = st64 m2 (a + 8) magic_header;
          m4 = st64 m3 (a + 24) line;
          m5 = st64 m4 (a + 16) file;
          m6 = st64 m5 (a + 32) (prev_ptr m5 i);
          m7 = st64 m6 (a + 40) i;
          m8 = st64 m7 (prev_ptr m7 i + 40) a
      in st64 m8 (i + 32) a)"

definition count_alloc :: "'b m61 \<Rightarrow> u64 \<Rightarrow> u64 \<Rightarrow> 'b m61" where
  "count_alloc s addr sz = s\<lparr>total_size_acc := total_size_acc s + sz,
     active_size_acc := active_size_acc s + sz,
     malloc_counter := malloc_counter s + 1,
     heap_max_track := (if addr + sz > heap_max_track s then addr + sz else heap_max_track s),
     heap_min_track := (if addr < heap_min_track s then addr else heap_min_track s)\<rparr>"

definition m61_malloc :: "('b \<Rightarrow> u64 \<Rightarrow> u64 \<times> 'b) \<Rightarrow> 'b m61 \<Rightarrow> u64 \<Rightarrow> u64 \<Rightarrow> u64
    \<Rightarrow> m61_fault + (u64 \<times> 'b m61)" where
  "m61_malloc bm s sz file line =
     (if sz < UINT_MAX then
        let m = init_list (heap_mem s) (inter_ptr s);
            (ptr, b') = bm (base s) (meta_data_sz + sz + magic_footer_sz)
        in if ptr = 0 then Inl NullWrite
           else
             let s1 = count_alloc (s\<lparr>heap_mem := place_block m (inter_ptr s) ptr sz file line, base := b'\<rparr>)
                        (ptr + meta_data_sz) sz;
                 l = \<lparr>loc_file = file, loc_line = line\<rparr>
             in case freq_update (freq_tab s1) l of
                  None \<Rightarrow> Inl AssertFailed
                | Some ft \<Rightarrow> Inr (ptr + meta_data_sz,
                    s1\<lparr>byte_tab := byte_update (byte_tab s1) l sz, freq_tab := ft\<rparr>)
      else Inr (0, s\<lparr>fail_counter := fail_counter s + 1, fail_size_acc := fail_size_acc s + sz\<rparr>))"

text \<open>
  The walk along the \<open>prev\<close> links that \<open>m61_free\<close> and the leak report make; it need not end on a
  corrupted list.
\<close>

partial_function (option) prev_walk :: "mem \<Rightarrow> u64 \<Rightarrow> u64 \<Rightarrow> u64 list option" where
  "prev_walk m i a =
     (if a = 0 \<or> a = i then Some []
      else Option.bind (prev_walk m i (prev_ptr m a)) (\<lambda>r. Some (a # r)))"

definition leak_of :: "mem \<Rightarrow> u64 \<Rightarrow> leak" where
  "leak_of m a = \<lparr>lk_loc = \<lparr>loc_file = alloc_file m a, loc_line = alloc_line m a\<rparr>,
     lk_ptr = a + meta_data_sz, lk_size = alloc_size m a\<rparr>"

definition contains :: "mem \<Rightarrow> u64 \<Rightarrow> u64 \<Rightarrow> bool" where
  "contains m p a \<longleftrightarrow> a + meta_data_sz \<le> p \<and> p < a + meta_data_sz + alloc_size m a"

text \<open>The last part of a valid free: retag, count, unlink.\<close>

definition unlink_block :: "mem \<Rightarrow> u64 \<Rightarrow> mem" where
  "unlink_block m h =
     (let m1 = st64 m (prev_ptr m h + 40) (next_ptr m h)
      in st64 m1 (next_ptr m1 h + 32) (prev_ptr m1 h))"

definition m61_free :: "('b \<Rightarrow> u64 \<Rightarrow> 'b) \<Rightarrow> 'b m61 \<Rightarrow> u64 \<Rightarrow> (m61_fault + 'b m61) option" where
  "m61_free bf s p =
     (let m = heap_mem s; h = p - meta_data_sz in
      if p = 0 then Some (Inr s)
      else if \<not> (heap_min_track s \<le> p \<and> p \<le> heap_max_track s) then Some (Inl (NotInHeap p))
      else if p mod 16 \<noteq> 0 \<or> (status_tag m h \<noteq> magic_header \<and> status_tag m h \<noteq> magic_free) then
        map_option (\<lambda>bs. Inl (NotAllocated p (map (leak_of m) (filter (contains m p) bs))))
          (prev_walk m (inter_ptr s) (prev_ptr m (inter_ptr s)))
      else if status_tag m h = magic_free then Some (Inl (DoubleFree p))
      else if next_ptr m (prev_ptr m h) \<noteq> h \<or> prev_ptr m (next_ptr m h) \<noteq> h then Some (Inl (NotLinked p))
      else if mem_read m (p + alloc_size m h) 9 \<noteq> magic_footer then Some (Inl (WildWrite p))
      else
        let m1 = st64 m (h + 8) magic_free
        in Some (Inr (s\<lparr>heap_mem := unlink_block m1 h, free_counter := free_counter s + 1,
             active_size_acc := active_size_acc s - alloc_size m1 h, base := bf (base s) h\<rparr>)))"

definition m61_calloc :: "('b \<Rightarrow> u64 \<Rightarrow> u64 \<times> 'b) \<Rightarrow> 'b m61 \<Rightarrow> u64 \<Rightarrow> u64 \<Rightarrow> u64 \<Rightarrow> u64
    \<Rightarrow> m61_fault + (u64 \<times> 'b m61)" where
  "m61_calloc bm s nmemb sz file line =
     (if nmemb < UINT_MAX then
        case m61_malloc bm s (nmemb * sz) file line of
          Inl e \<Rightarrow> Inl e
        | Inr (p, s1) \<Rightarrow>
            Inr (p, if p \<noteq> 0 then s1\<lparr>heap_mem := mem_fill (heap_mem s1) p 0 (nmemb * sz)\<rparr> else s1)
      else Inr (0, s\<lparr>fail_counter := fail_counter s + 1\<rparr>))"

text \<open>The C++ allocator class of \<open>m61.hh\<close>, for elements of size \<open>k\<close>; \<open>q\<close> is the address of \<open>"?"\<close>.\<close>

definition m61_allocate :: "('b \<Rightarrow> u64 \<Rightarrow> u64 \<times> 'b) \<Rightarrow> u64 \<Rightarrow> u64 \<Rightarrow> 'b m61 \<Rightarrow> u64 \<Rightarrow> m61_fault + (u64 \<times> 'b m61)" where
  "m61_allocate bm q k s n = m61_malloc bm s (n * k) q 0"

definition m61_deallocate :: "('b \<Rightarrow> u64 \<Rightarrow> 'b) \<Rightarrow> 'b m61 \<Rightarrow> u64 \<Rightarrow> (m61_fault + 'b m61) option" where
  "m61_deallocate bf s p = m61_free bf s p"

record m61_statistics =
  nactive :: u64
  active_size :: u64
  ntotal :: u64
  total_size :: u64
  nfail :: u64
  fail_size :: u64
  heap_min :: u64
  heap_max :: u64

definition m61_get_statistics :: "'b m61 \<Rightarrow> m61_statistics" where
  "m61_get_statistics s = \<lparr>nactive = malloc_counter s - free_counter s, active_size = active_size_acc s,
     ntotal = malloc_counter s, total_size = total_size_acc s, nfail = fail_counter s,
     fail_size = fail_size_acc s, heap_min = heap_min_track s, heap_max = heap_max_track s\<rparr>"

text \<open>The six numbers that are printed, in the order of the two lines.\<close>

definition m61_print_statistics :: "'b m61 \<Rightarrow> u64 list" where
  "m61_print_statistics s = (let st = m61_get_statistics s
     in [nactive st, ntotal st, nfail st, active_size st, total_size st, fail_size st])"

definition m61_print_leak_report :: "'b m61 \<Rightarrow> leak list option" where
  "m61_print_leak_report s =
     map_option (map (leak_of (heap_mem s)))
       (prev_walk (heap_mem s) (inter_ptr s) (prev_ptr (heap_mem s) (inter_ptr s)))"

text \<open>Both reports, the bytes first; the tables are used up by them.\<close>

definition m61_print_heavy_hitter_report :: "'b m61 \<Rightarrow> hh_line list \<times> hh_line list \<times> 'b m61" where
  "m61_print_heavy_hitter_report s =
     (let (bl, bt) = hh_report 6 (byte_tab s) (total_size_acc s);
          (fl, ft) = hh_report 6 (freq_tab s) (malloc_counter s)
      in (bl, fl, s\<lparr>byte_tab := bt, freq_tab := ft\<rparr>))"

section \<open>Memory around the blocks\<close>

text \<open>The chain of the active blocks from node \<open>a\<close> along \<open>prev\<close> to node \<open>z\<close>.\<close>

fun node_chain :: "mem \<Rightarrow> u64 \<Rightarrow> u64 list \<Rightarrow> u64 \<Rightarrow> bool" where
  "node_chain m a [] z \<longleftrightarrow> prev_ptr m a = z \<and> next_ptr m z = a"
| "node_chain m a (b # bs) z \<longleftrightarrow> prev_ptr m a = b \<and> next_ptr m b = a \<and> node_chain m b bs z"

lemma chain_cong:
  "node_chain m a bs z \<Longrightarrow> (\<And>b. b \<in> set (a # bs) \<Longrightarrow> prev_ptr m' b = prev_ptr m b) \<Longrightarrow>
   (\<And>b. b \<in> set (bs @ [z]) \<Longrightarrow> next_ptr m' b = next_ptr m b) \<Longrightarrow> node_chain m' a bs z"
  by (induction bs arbitrary: a) simp_all

lemma chain_append: "node_chain m a (xs @ h # ys) z \<longleftrightarrow> node_chain m a xs h \<and> node_chain m h ys z"
  by (induction xs arbitrary: a) auto

lemma chain_last: "node_chain m a xs z \<Longrightarrow> prev_ptr m (last (a # xs)) = z \<and> next_ptr m z = last (a # xs)"
  by (induction xs arbitrary: a) simp_all

lemma chain_first: "node_chain m a xs z \<Longrightarrow> prev_ptr m a = hd (xs @ [z]) \<and> next_ptr m (hd (xs @ [z])) = a"
  by (cases xs) simp_all

text \<open>The last link of a chain is moved to another end.\<close>

lemma chain_relink:
  "node_chain m a xs h \<Longrightarrow> (\<And>b. b \<in> set (butlast (a # xs)) \<Longrightarrow> prev_ptr m' b = prev_ptr m b) \<Longrightarrow>
   (\<And>b. b \<in> set xs \<Longrightarrow> next_ptr m' b = next_ptr m b) \<Longrightarrow>
   prev_ptr m' (last (a # xs)) = n \<Longrightarrow> next_ptr m' n = last (a # xs) \<Longrightarrow> node_chain m' a xs n"
  by (induction xs arbitrary: a) (auto split: if_splits)

lemma prev_walk_chain:
  "node_chain m a bs i \<Longrightarrow> 0 \<notin> set bs \<Longrightarrow> i \<notin> set bs \<Longrightarrow> prev_walk m i (prev_ptr m a) = Some bs"
proof (induction bs arbitrary: a)
  case Nil
  then show ?case by (simp add: prev_walk.simps [of m i i])
next
  case (Cons b bs)
  then have "b \<noteq> i" by auto
  with Cons show ?case by (simp add: prev_walk.simps [of m i b])
qed


section \<open>Ranges inside a block\<close>

text \<open>A range at an offset from \<open>a\<close> that does not wrap, as an interval of the distance from \<open>a\<close>.\<close>

lemma in_rng_offset:
  assumes "unat k + unat n \<le> 2 ^ 64"
  shows "in_rng (a + k) n x \<longleftrightarrow> unat k \<le> unat (x - a) \<and> unat (x - a) < unat k + unat n"
proof -
  have e: "x - (a + k) = (x - a) - k" by simp
  show ?thesis
  proof (cases "k \<le> x - a")
    case True
    then show ?thesis
      by (auto simp: in_rng_def e unat_sub_le word_less_nat_alt word_le_nat_alt)
  next
    case False
    then have lt: "x - a < k" by simp
    have "unat k < 2 ^ 64" using unsigned_less [of k, where 'a = nat] by simp
    then have "unat ((x - a) - k) + unat k = unat (x - a) + 2 ^ 64"
      using lt by (simp add: unat_sub_if' word_less_nat_alt)
    then show ?thesis
      using assms lt by (auto simp: in_rng_def e word_less_nat_alt word_le_nat_alt)
  qed
qed

lemma in_rng_zero: "in_rng a n x \<longleftrightarrow> unat (x - a) < unat n"
  by (simp add: in_rng_def word_less_nat_alt)

lemma fld_same: "8 \<le> p - k \<Longrightarrow> 8 \<le> k - p \<Longrightarrow> disj_rng (a + k) 8 (a + p) 8"
  by (simp add: disj_rng_def)

lemma fld_same0: "8 \<le> p \<Longrightarrow> 8 \<le> - p \<Longrightarrow> disj_rng a 8 (a + p) 8"
  by (simp add: disj_rng_def)

lemma fld_same1: "8 \<le> p \<Longrightarrow> 8 \<le> - p \<Longrightarrow> disj_rng (a + p) 8 a 8"
  by (simp add: disj_rng_def)

lemma fld_diff:
  "disj_rng a n b k \<Longrightarrow> unat i + 8 \<le> unat n \<Longrightarrow> unat j + 8 \<le> unat k \<Longrightarrow> disj_rng (a + i) 8 (b + j) 8"
  by (rule disj_rng_offset) simp_all

lemma ld64_write_disj:
  "disj_rng p 9 b 8 \<Longrightarrow> ld64 (mem_write m p magic_footer) b = ld64 m b"
  by (rule ld64_cong) (simp add: mem_write_other magic_footer_def disj_rngD2)

lemma read_st64_disj: "disj_rng b 8 p 9 \<Longrightarrow> mem_read (st64 m b v) p 9 = mem_read m p 9"
  by (rule mem_read_cong) (simp_all add: st64_def disj_rngD2)

lemma read_footer: "mem_read (mem_write m p magic_footer) p 9 = magic_footer"
proof -
  have "length magic_footer = 9" by (simp add: magic_footer_def)
  with mem_read_write_same [of magic_footer m p] show ?thesis by simp
qed

section \<open>The heap invariant\<close>

definition node_ext :: "mem \<Rightarrow> u64 \<Rightarrow> u64 \<Rightarrow> u64" where
  "node_ext m i a = (if a = i then 48 else alloc_size m a + 57)"

text \<open>One active block: \<open>A\<close> is the base allocator's map, \<open>mn\<close> and \<open>mx\<close> are the tracked bounds.\<close>

definition block_ok :: "mem \<Rightarrow> (u64 \<Rightarrow> u64 option) \<Rightarrow> u64 \<Rightarrow> u64 \<Rightarrow> u64 \<Rightarrow> bool" where
  "block_ok m A mn mx a \<longleftrightarrow> a \<noteq> 0 \<and> a mod 16 = 0 \<and> status_tag m a = magic_header
     \<and> alloc_size m a < UINT_MAX \<and> unat a + unat (alloc_size m a) + 57 < 2 ^ 64
     \<and> A a = Some (alloc_size m a + 57)
     \<and> mem_read m (a + 48 + alloc_size m a) 9 = magic_footer
     \<and> mn \<le> a + 48 \<and> a + 48 + alloc_size m a \<le> mx"

definition nodes_apart :: "mem \<Rightarrow> u64 \<Rightarrow> u64 list \<Rightarrow> bool" where
  "nodes_apart m i L \<longleftrightarrow> (\<forall>a \<in> set (i # L). \<forall>b \<in> set (i # L). a \<noteq> b \<longrightarrow>
     disj_rng a (node_ext m i a) b (node_ext m i b))"

definition heap_ok :: "mem \<Rightarrow> u64 \<Rightarrow> (u64 \<Rightarrow> u64 option) \<Rightarrow> u64 \<Rightarrow> u64 \<Rightarrow> u64 list \<Rightarrow> bool" where
  "heap_ok m i A mn mx L \<longleftrightarrow> i \<noteq> 0 \<and> distinct (i # L) \<and> (\<forall>a \<in> set L. block_ok m A mn mx a)
     \<and> nodes_apart m i L
     \<and> (node_chain m i L i \<or> L = [] \<and> prev_ptr m i = 0 \<and> next_ptr m i = 0)"

text \<open>
  A change that leaves the size, the tag and the footer of a block alone: at most its links and
  its payload differ.
\<close>

definition keeps_block :: "mem \<Rightarrow> mem \<Rightarrow> u64 \<Rightarrow> bool" where
  "keeps_block m m' a \<longleftrightarrow> (\<forall>x. in_rng a (alloc_size m a + 57) x \<longrightarrow> \<not> in_rng (a + 32) 16 x \<longrightarrow>
     \<not> in_rng (a + 48) (alloc_size m a) x \<longrightarrow> m' x = m x)"

lemma unat_size57: "sz < UINT_MAX \<Longrightarrow> unat (sz + 57) = unat sz + 57"
  by (subst unat_add_lt) (simp_all add: UINT_MAX_def word_less_nat_alt)

lemma unat_size48: "sz < UINT_MAX \<Longrightarrow> unat (48 + sz) = 48 + unat sz"
  by (subst unat_add_lt) (simp_all add: UINT_MAX_def word_less_nat_alt)

lemma size_bound: "sz < UINT_MAX \<Longrightarrow> unat sz < 2 ^ 32"
  by (simp add: UINT_MAX_def word_less_nat_alt)

lemma keeps_block_fields:
  assumes k: "keeps_block m m' a" and sz: "alloc_size m a < UINT_MAX"
  shows "alloc_size m' a = alloc_size m a" "status_tag m' a = status_tag m a"
    "alloc_file m' a = alloc_file m a" "alloc_line m' a = alloc_line m a"
    "mem_read m' (a + 48 + alloc_size m a) 9 = mem_read m (a + 48 + alloc_size m a) 9"
proof -
  note u = unat_size57 [OF sz] unat_size48 [OF sz] size_bound [OF sz]
  have same: "m' x = m x" if "unat (x - a) < 32 \<or> 48 + unat (alloc_size m a) \<le> unat (x - a)
      \<and> unat (x - a) < 57 + unat (alloc_size m a)" for x
    using k that u unfolding keeps_block_def
    by (auto simp: in_rng_offset [of 32 16 a] in_rng_offset [of 48 "alloc_size m a" a] in_rng_zero [of a])
  have f: "in_rng (a + c) 8 x \<Longrightarrow> unat c \<le> 24 \<Longrightarrow> unat (x - a) < 32" for c x
    by (subst (asm) in_rng_offset) simp_all
  show "alloc_size m' a = alloc_size m a" by (rule ld64_cong) (use f [of 0] same in simp)
  show "status_tag m' a = status_tag m a" by (rule ld64_cong) (use f [of 8] same in simp)
  show "alloc_file m' a = alloc_file m a" by (rule ld64_cong) (use f [of 16] same in simp)
  show "alloc_line m' a = alloc_line m a" by (rule ld64_cong) (use f [of 24] same in simp)
  have "in_rng (a + (48 + alloc_size m a)) 9 x \<Longrightarrow> m' x = m x" for x
    using u by (intro same) (subst (asm) in_rng_offset; simp)
  then show "mem_read m' (a + 48 + alloc_size m a) 9 = mem_read m (a + 48 + alloc_size m a) 9"
    by (intro mem_read_cong) (simp_all add: add.assoc)
qed

lemma keeps_block_ok:
  assumes "block_ok m A mn mx a" and "keeps_block m m' a" and "A' a = A a" and "mn' \<le> mn" and "mx \<le> mx'"
  shows "block_ok m' A' mn' mx' a"
proof -
  have "alloc_size m a < UINT_MAX" using assms(1) by (simp add: block_ok_def)
  from keeps_block_fields [OF assms(2) this] assms show ?thesis
    by (auto simp: block_ok_def)
qed

text \<open>A change outside a node's extent keeps its fields.\<close>

lemma same_node:
  assumes "\<And>x. in_rng a n x \<Longrightarrow> m' x = m x" and "unat c + 8 \<le> unat n"
  shows "ld64 m' (a + c) = ld64 m (a + c)"
proof (rule ld64_cong)
  fix x assume "in_rng (a + c) 8 x"
  moreover have "unat n < 2 ^ 64" using unsigned_less [of n, where 'a = nat] by simp
  ultimately show "m' x = m x"
    using assms(2) by (intro assms(1)) (subst (asm) in_rng_offset; simp add: in_rng_zero)
qed

lemma nodes_apartD:
  "nodes_apart m i L \<Longrightarrow> a \<in> set (i # L) \<Longrightarrow> b \<in> set (i # L) \<Longrightarrow> a \<noteq> b \<Longrightarrow>
   disj_rng a (node_ext m i a) b (node_ext m i b)"
  unfolding nodes_apart_def by blast

lemma node_ext_ge:
  "a = i \<or> alloc_size m a < UINT_MAX \<Longrightarrow> 48 \<le> unat (node_ext m i a)"
  by (auto simp: node_ext_def unat_size57)

text \<open>Two fields of the nodes overlap only when they are the same field of the same node.\<close>

lemma nodes_fld:
  assumes ap: "nodes_apart m i L" and sz: "\<And>a. a \<in> set L \<Longrightarrow> alloc_size m a < UINT_MAX"
    and a: "a \<in> set (i # L)" and b: "b \<in> set (i # L)"
    and off: "a \<noteq> b \<or> 8 \<le> p - k \<and> 8 \<le> k - p" "unat k \<le> 40" "unat p \<le> 40"
  shows "disj_rng (a + k) 8 (b + p) 8"
proof (cases "a = b")
  case True
  with off show ?thesis by (simp add: fld_same)
next
  case False
  have "48 \<le> unat (node_ext m i a)" "48 \<le> unat (node_ext m i b)"
    using a b sz by (auto intro: node_ext_ge)
  with off show ?thesis by (intro fld_diff [OF nodes_apartD [OF ap a b False]]) simp_all
qed


lemma in_rng_sub:
  "in_rng (a + c) n x \<Longrightarrow> unat c + unat n \<le> unat N \<Longrightarrow> in_rng a N x"
  using unsigned_less [of N, where 'a = nat] by (subst (asm) in_rng_offset) (simp_all add: in_rng_zero)

lemma in_rng_links: "in_rng (a + 32) 8 x \<or> in_rng (a + 40) 8 x \<longleftrightarrow> in_rng (a + 32) 16 x"
  by (auto simp: in_rng_offset [of 32 8 a] in_rng_offset [of 40 8 a] in_rng_offset [of 32 16 a])

lemma block_okD:
  assumes "block_ok m A mn mx a"
  shows "alloc_size m a < UINT_MAX" "a \<noteq> 0" "A a = Some (alloc_size m a + 57)" "a mod 16 = 0"
    "unat a + unat (alloc_size m a) + 57 < 2 ^ 64" "status_tag m a = magic_header"
    "mem_read m (a + 48 + alloc_size m a) 9 = magic_footer" "mn \<le> a + 48" "a + 48 + alloc_size m a \<le> mx"
  using assms by (simp_all add: block_ok_def)

lemma heap_okD:
  assumes "heap_ok m i A mn mx L"
  shows "i \<noteq> 0" "distinct L" "i \<notin> set L" "a \<in> set L \<Longrightarrow> block_ok m A mn mx a" "nodes_apart m i L"
    "a \<in> set L \<Longrightarrow> alloc_size m a < UINT_MAX" "a \<in> set L \<Longrightarrow> a \<noteq> 0"
  using assms by (auto simp: heap_ok_def block_ok_def)

text \<open>
  The invariant after a change of the memory that keeps the blocks of \<open>L'\<close> (some of those of \<open>L\<close>).
\<close>

lemma heap_ok_change:
  assumes ok: "heap_ok m i A mn mx L" and sub: "set L' \<subseteq> set L" "distinct L'"
    and keep: "\<And>a. a \<in> set L' \<Longrightarrow> keeps_block m m' a" and A: "\<And>a. a \<in> set L' \<Longrightarrow> A' a = A a"
    and bnd: "mn' \<le> mn" "mx \<le> mx'"
    and ch: "node_chain m' i L' i \<or> L' = [] \<and> prev_ptr m' i = 0 \<and> next_ptr m' i = 0"
  shows "heap_ok m' i A' mn' mx' L'" and "a \<in> set L' \<Longrightarrow> alloc_size m' a = alloc_size m a"
proof -
  note D = heap_okD [OF ok]
  have sz: "alloc_size m' a = alloc_size m a" if "a \<in> set L'" for a
    using keeps_block_fields(1) [OF keep [OF that] D(6)] sub that by blast
  then show "a \<in> set L' \<Longrightarrow> alloc_size m' a = alloc_size m a" .
  have ext: "node_ext m' i a = node_ext m i a" if "a \<in> set (i # L')" for a
    using that sz D(3) sub by (auto simp: node_ext_def)
  have "nodes_apart m' i L'"
    unfolding nodes_apart_def
  proof (intro ballI impI)
    fix a b assume ab: "a \<in> set (i # L')" "b \<in> set (i # L')" "a \<noteq> b"
    then have "a \<in> set (i # L)" "b \<in> set (i # L)" using sub by auto
    from nodes_apartD [OF D(5) this ab(3)] show "disj_rng a (node_ext m' i a) b (node_ext m' i b)"
      by (simp only: ext [OF ab(1)] ext [OF ab(2)])
  qed
  moreover have "block_ok m' A' mn' mx' a" if "a \<in> set L'" for a
    by (rule keeps_block_ok [where A = A and m = m]) (use that sub in \<open>auto intro: D(4) keep A bnd\<close>)
  ultimately show "heap_ok m' i A' mn' mx' L'"
    using D(1,3) sub ch by (auto simp: heap_ok_def)
qed

text \<open>The links of a node lie outside every other node.\<close>

lemma links_outside:
  assumes ok: "heap_ok m i A mn mx L" and a: "a \<in> set L" and b: "b \<in> set (i # L)"
    and x: "in_rng a (alloc_size m a + 57) x" "\<not> in_rng (a + 32) 16 x"
  shows "\<not> in_rng (b + 32) 16 x"
proof (cases "a = b")
  case False
  note D = heap_okD [OF ok]
  have "disj_rng a (node_ext m i a) b (node_ext m i b)"
    using nodes_apartD [OF D(5) _ b False] a by simp
  moreover have "node_ext m i a = alloc_size m a + 57" using a D(3) by (auto simp: node_ext_def)
  ultimately have "\<not> in_rng b (node_ext m i b) x" using x(1) disj_rngD by metis
  moreover have "48 \<le> unat (node_ext m i b)" using b D(6) by (auto intro: node_ext_ge)
  ultimately show ?thesis using in_rng_sub [of b 32 16 x "node_ext m i b"] by auto
qed (use x in simp)

lemma heap_ok_fld:
  assumes "heap_ok m i A mn mx L" and "a \<in> set (i # L)" and "b \<in> set (i # L)"
    and "a \<noteq> b \<or> 8 \<le> p - k \<and> 8 \<le> k - p" "unat k \<le> 40" "unat p \<le> 40"
  shows "disj_rng (a + k) 8 (b + p) 8"
  using assms(2-) by (intro nodes_fld [OF heap_okD(5) [OF assms(1)]]) (auto intro: heap_okD(6) [OF assms(1)])

section \<open>The list of blocks\<close>

lemma init_list_ok:
  assumes ok: "heap_ok m i A mn mx L"
  shows "heap_ok (init_list m i) i A mn mx L" and "node_chain (init_list m i) i L i"
    and "\<not> in_rng (i + 32) 16 x \<Longrightarrow> init_list m i x = m x"
    and "a \<in> set L \<Longrightarrow> alloc_size (init_list m i) a = alloc_size m a"
    and "a \<in> set L \<Longrightarrow> leak_of (init_list m i) a = leak_of m a"
proof -
  note D = heap_okD [OF ok]
  show other: "\<not> in_rng (i + 32) 16 x \<Longrightarrow> init_list m i x = m x" for x
    by (auto simp: init_list_def st64_def in_rng_links [symmetric])
  have keep: "keeps_block m (init_list m i) a" if "a \<in> set L" for a
    unfolding keeps_block_def using links_outside [OF ok that] other by simp
  have "next_ptr m i \<noteq> 0" if "node_chain m i L i"
    using chain_last [OF that] D(1,7) by (cases "L = []") auto
  then show ch: "node_chain (init_list m i) i L i"
    using ok by (auto simp: init_list_def heap_ok_def ld64_st64_same ld64_st64_disj fld_same)
  show "heap_ok (init_list m i) i A mn mx L"
    by (rule heap_ok_change(1) [OF ok]) (use keep D(2) ch in auto)
  note F = keeps_block_fields [OF keep D(6)]
  show "a \<in> set L \<Longrightarrow> alloc_size (init_list m i) a = alloc_size m a"
    "a \<in> set L \<Longrightarrow> leak_of (init_list m i) a = leak_of m a" by (simp_all add: F leak_of_def)
qed

text \<open>
  The memory after a new block has been placed: what it holds for the new block, for the two
  neighbours, and that nothing else has changed.
\<close>

lemma place_block_eq:
  assumes i: "disj_rng h (sz + 57) i 48" and sz: "sz < UINT_MAX"
  shows "place_block m i h sz fl ln
    = (let q = prev_ptr m i;
           m4 = st64 (st64 (st64 (st64 (mem_write m (h + 48 + sz) magic_footer) h sz) (h + 8) magic_header) (h + 24) ln) (h + 16) fl
       in st64 (st64 (st64 (st64 m4 (h + 32) q) (h + 40) i) (q + 40) h) (i + 32) h)"
proof -
  note u = unat_size57 [OF sz] unat_size48 [OF sz]
  have f: "disj_rng (h + k) 8 (i + 32) 8" if "unat k \<le> 40" for k
    using that u by (intro fld_diff [OF i]) simp_all
  have "disj_rng (h + 0) 8 (i + 32) 8" by (rule f) simp
  then have f0: "disj_rng h 8 (i + 32) 8" by simp
  have "disj_rng (h + (48 + sz)) 9 (i + 32) 8" by (rule disj_rng_offset [OF i]) (simp_all add: u)
  then have ft: "disj_rng (h + 48 + sz) 9 (i + 32) 8" by (simp add: add.assoc)
  show ?thesis
    by (simp add: place_block_def Let_def magic_simps(3,4) f f0 ft ld64_st64_disj ld64_write_disj)
qed


lemma disj_rng_neq: "disj_rng a n b k \<Longrightarrow> 0 < n \<Longrightarrow> a \<noteq> b"
  by (auto simp: disj_rng_def)

text \<open>A block at \<open>h\<close> that overlaps no node.\<close>

definition fresh_block :: "mem \<Rightarrow> u64 \<Rightarrow> u64 list \<Rightarrow> u64 \<Rightarrow> u64 \<Rightarrow> bool" where
  "fresh_block m i L h sz \<longleftrightarrow> sz < UINT_MAX
     \<and> (\<forall>b \<in> set (i # L). disj_rng h (sz + 57) b (node_ext m i b))"

lemma fresh_block_fld:
  assumes fr: "fresh_block m i L h sz" and ok: "heap_ok m i A mn mx L" and b: "b \<in> set (i # L)"
    and c: "unat c + unat n \<le> unat sz + 57" "0 < n" "unat p + unat k \<le> 48" "0 < k"
  shows "disj_rng (h + c) n (b + p) k"
proof (rule disj_rng_offset)
  show "disj_rng h (sz + 57) b (node_ext m i b)" using fr b unfolding fresh_block_def by blast
  show "unat c + unat n \<le> unat (sz + 57)" using c fr by (simp add: fresh_block_def unat_size57)
  have "48 \<le> unat (node_ext m i b)" using b heap_okD(6) [OF ok] by (auto intro: node_ext_ge)
  with c show "unat p + unat k \<le> unat (node_ext m i b)" by simp
qed (rule c)+

lemma place_block_reads:
  fixes fl ln :: u64
  assumes fr: "fresh_block m i L h sz" and ok: "heap_ok m i A mn mx L" and ch: "node_chain m i L i"
  defines "m' \<equiv> place_block m i h sz fl ln" and "q \<equiv> prev_ptr m i"
  shows "alloc_size m' h = sz" "status_tag m' h = magic_header" "alloc_file m' h = fl" "alloc_line m' h = ln"
    "prev_ptr m' h = q" "next_ptr m' h = i" "next_ptr m' q = h" "prev_ptr m' i = h"
    "mem_read m' (h + 48 + sz) 9 = magic_footer"
    "b \<in> set L \<Longrightarrow> prev_ptr m' b = prev_ptr m b"
    "b \<in> set (i # L) \<Longrightarrow> b \<noteq> q \<Longrightarrow> next_ptr m' b = next_ptr m b"
    "\<not> in_rng h (sz + 57) x \<Longrightarrow> \<not> in_rng (q + 32) 16 x \<Longrightarrow> \<not> in_rng (i + 32) 16 x \<Longrightarrow> m' x = m x"
proof -
  have sz: "sz < UINT_MAX" using fr by (simp add: fresh_block_def)
  note u = unat_size57 [OF sz] unat_size48 [OF sz] size_bound [OF sz]
  have q: "q \<in> set (i # L)" using chain_first [OF ch] by (cases L) (auto simp: q_def)
  have hb: "disj_rng (h + k) 8 (b + p) 8" "disj_rng (b + p) 8 (h + k) 8"
    if "b \<in> set (i # L)" "unat k \<le> 40" "unat p \<le> 40" for b k p
    using fresh_block_fld [OF fr ok that(1), of k 8 p 8] that by (simp_all add: disj_rng_sym)
  have h0: "disj_rng h 8 (b + p) 8" "disj_rng (b + p) 8 h 8" if "b \<in> set (i # L)" "unat p \<le> 40" for b p
    using hb [of b 0 p] that by simp_all
  have ftb: "disj_rng (h + 48 + sz) 9 (b + p) 8" "disj_rng (b + p) 8 (h + 48 + sz) 9"
    if "b \<in> set (i # L)" "unat p \<le> 40" for b p
    using fresh_block_fld [OF fr ok that(1), of "48 + sz" 9 p 8] that(2) u
    by (auto simp: add.assoc intro: disj_rng_sym)
  have sz': "disj_rng (h + k) 8 (h + 48 + sz) 9" if "unat k \<le> 40" for k
  proof -
    have "k \<le> 48 + sz" using that u by (simp add: word_le_nat_alt)
    then have a: "unat (48 + sz - k) = 48 + unat sz - unat k" using u by (simp add: unat_sub_le)
    then have "8 \<le> 48 + sz - k" using that by (simp add: word_le_nat_alt)
    moreover have "9 \<le> k - (48 + sz)"
    proof -
      have "k \<noteq> 48 + sz" using a that u by auto
      then have "k < 48 + sz" using \<open>k \<le> 48 + sz\<close> by simp
      then have "unat (k - (48 + sz)) = 2 ^ 64 + unat k - (48 + unat sz)"
        using u by (simp add: unat_sub_if' word_less_nat_alt)
      then show ?thesis using u by (simp add: word_le_nat_alt)
    qed
    ultimately show ?thesis by (simp add: disj_rng_def algebra_simps)
  qed
  have sz0: "disj_rng h 8 (h + 48 + sz) 9" using sz' [of 0] by simp
  note ff = heap_ok_fld [OF ok]
  have P: "m' = (let m4 = st64 (st64 (st64 (st64 (mem_write m (h + 48 + sz) magic_footer) h sz) (h + 8) magic_header) (h + 24) ln) (h + 16) fl
       in st64 (st64 (st64 (st64 m4 (h + 32) q) (h + 40) i) (q + 40) h) (i + 32) h)"
    using place_block_eq [OF _ sz, of h i m fl ln] fr by (simp add: m'_def q_def fresh_block_def node_ext_def Let_def)
  note simps = P Let_def ld64_st64_same ld64_st64_disj fld_same fld_same0 fld_same1 hb [OF q] h0 [OF q] hb [of i] h0 [of i]
  show "alloc_size m' h = sz" by (simp add: simps)
  show "status_tag m' h = magic_header" by (simp add: simps)
  show "alloc_file m' h = fl" by (simp add: simps)
  show "alloc_line m' h = ln" by (simp add: simps)
  show "prev_ptr m' h = q" by (simp add: simps)
  show "next_ptr m' h = i" by (simp add: simps)
  show "next_ptr m' q = h" using q by (simp add: simps ff)
  show "prev_ptr m' i = h" by (simp add: simps)
  show "mem_read m' (h + 48 + sz) 9 = magic_footer"
    using ftb(2) [OF q] ftb(2) [of i] by (simp add: P Let_def read_st64_disj sz' sz0 read_footer)
  show "prev_ptr m' b = prev_ptr m b" if b: "b \<in> set L"
  proof -
    have "b \<noteq> i" using b heap_okD(3) [OF ok] by auto
    with b q show ?thesis using hb [of b] h0 [of b] ftb(1) [of b]
      by (simp add: P Let_def ld64_st64_disj ld64_write_disj ff)
  qed
  show "next_ptr m' b = next_ptr m b" if b: "b \<in> set (i # L)" "b \<noteq> q"
    using b q hb [OF b(1)] h0 [OF b(1)] ftb(1) [OF b(1)]
    by (simp add: P Let_def ld64_st64_disj ld64_write_disj ff)
  show "m' x = m x" if x: "\<not> in_rng h (sz + 57) x" "\<not> in_rng (q + 32) 16 x" "\<not> in_rng (i + 32) 16 x"
  proof -
    have "\<not> in_rng (h + k) 8 x" if "unat k \<le> 40" for k
      using x(1) in_rng_sub [of h k 8 x "sz + 57"] that u by auto
    note n = this this [of 0, simplified]
    have "\<not> in_rng (h + (48 + sz)) 9 x" using x(1) in_rng_sub [of h "48 + sz" 9 x "sz + 57"] u by auto
    then have "mem_write m (h + 48 + sz) magic_footer x = m x"
      by (intro mem_write_other) (simp_all add: magic_footer_def add.assoc)
    then show ?thesis using n x(2,3) by (simp add: P Let_def st64_other in_rng_links [symmetric])
  qed
qed


lemma disj_rng_neq_block: "disj_rng h (sz + 57) b k \<Longrightarrow> sz < UINT_MAX \<Longrightarrow> h \<noteq> b"
  by (erule disj_rng_neq) (simp add: word_gt_0_no [symmetric] unat_size57 word_less_nat_alt)

text \<open>Placing a block puts it in front of the list, and keeps every other block.\<close>

lemma place_block_keeps:
  assumes fr: "fresh_block m i L h sz" and ok: "heap_ok m i A mn mx L" and ch: "node_chain m i L i"
    and a: "a \<in> set L"
  shows "keeps_block m (place_block m i h sz fl ln) a"
  unfolding keeps_block_def
proof (intro allI impI)
  fix x assume x: "in_rng a (alloc_size m a + 57) x" "\<not> in_rng (a + 32) 16 x"
  let ?q = "prev_ptr m i"
  have q: "?q \<in> set (i # L)" using chain_first [OF ch] by (cases L) auto
  have "node_ext m i a = alloc_size m a + 57" using a heap_okD(3) [OF ok] by (auto simp: node_ext_def)
  moreover have "disj_rng h (sz + 57) a (node_ext m i a)" using fr a by (simp add: fresh_block_def)
  ultimately have "\<not> in_rng h (sz + 57) x" using x(1) disj_rngD2 by metis
  then show "place_block m i h sz fl ln x = m x"
    using links_outside [OF ok a q x] links_outside [OF ok a _ x, of i]
    by (intro place_block_reads(12) [OF fr ok ch]) simp_all
qed

lemma place_block_chain:
  assumes fr: "fresh_block m i L h sz" and ok: "heap_ok m i A mn mx L" and ch: "node_chain m i L i"
  shows "node_chain (place_block m i h sz fl ln) i (h # L) i"
proof -
  note D = heap_okD [OF ok] and R = place_block_reads [OF fr ok ch, where fl = fl and ln = ln]
  show ?thesis
  proof (cases L)
    case Nil
    then have "prev_ptr m i = i" using ch by simp
    then show ?thesis using R(5,6,7,8) Nil by simp
  next
    case (Cons b bs)
    then have b: "prev_ptr m i = b" "next_ptr m b = i" "node_chain m b bs i" using ch by simp_all
    have "node_chain (place_block m i h sz fl ln) b bs i"
      using b(3) by (rule chain_cong) (use R(10,11) b(1) D(2,3) Cons in auto)
    then show ?thesis using R(5-8) b Cons by simp
  qed
qed

lemma place_block_ok:
  fixes fl ln :: u64
  assumes fr: "fresh_block m i L h sz" and ok: "heap_ok m i A mn mx L" and ch: "node_chain m i L i"
    and new: "h \<noteq> 0" "h mod 16 = 0" "unat h + unat (sz + 57) < 2 ^ 64"
    and bnd: "mn' \<le> mn" "mx \<le> mx'" "mn' \<le> h + 48" "h + 48 + sz \<le> mx'"
  defines "m' \<equiv> place_block m i h sz fl ln"
  shows "heap_ok m' i (A(h \<mapsto> sz + 57)) mn' mx' (h # L)"
    and "a \<in> set L \<Longrightarrow> alloc_size m' a = alloc_size m a" and "alloc_size m' h = sz"
    and "a \<in> set L \<Longrightarrow> leak_of m' a = leak_of m a"
proof -
  note D = heap_okD [OF ok] and R = place_block_reads [OF fr ok ch, where fl = fl and ln = ln, folded m'_def]
  have sz: "sz < UINT_MAX" using fr by (simp add: fresh_block_def)
  have dj: "disj_rng h (sz + 57) b (node_ext m i b)" if "b \<in> set (i # L)" for b
    using fr that unfolding fresh_block_def by blast
  have h: "h \<notin> set (i # L)" using disj_rng_neq_block [OF dj sz] by metis
  have keep: "keeps_block m m' a" if "a \<in> set L" for a
    unfolding m'_def by (rule place_block_keeps [OF fr ok ch that])
  note F = keeps_block_fields [OF keep D(6)]
  show sz': "a \<in> set L \<Longrightarrow> alloc_size m' a = alloc_size m a" for a by (rule F(1))
  show "a \<in> set L \<Longrightarrow> leak_of m' a = leak_of m a" by (simp add: leak_of_def F)
  show hs: "alloc_size m' h = sz" by (rule R(1))
  have ext: "node_ext m' i b = node_ext m i b" if "b \<in> set (i # L)" for b
    using that sz' D(3) by (auto simp: node_ext_def)
  have exth: "node_ext m' i h = sz + 57" using h hs by (simp add: node_ext_def)
  have "nodes_apart m' i (h # L)"
    unfolding nodes_apart_def
  proof (intro ballI impI)
    fix a b assume ab: "a \<in> set (i # h # L)" "b \<in> set (i # h # L)" "a \<noteq> b"
    then consider "a = h" "b \<in> set (i # L)" | "b = h" "a \<in> set (i # L)" | "a \<in> set (i # L)" "b \<in> set (i # L)"
      by auto
    then show "disj_rng a (node_ext m' i a) b (node_ext m' i b)"
    proof cases
      case 1
      then show ?thesis using dj [OF 1(2)] by (simp only: exth ext [OF 1(2)])
    next
      case 2
      then show ?thesis using disj_rng_sym [OF dj [OF 2(2)]] by (simp only: exth ext [OF 2(2)])
    next
      case 3
      from nodes_apartD [OF D(5) this ab(3)] show ?thesis by (simp only: ext [OF 3(1)] ext [OF 3(2)])
    qed
  qed
  moreover have "block_ok m' (A(h \<mapsto> sz + 57)) mn' mx' a" if "a \<in> set L" for a
    by (rule keeps_block_ok [where A = A and m = m]) (use that h in \<open>auto intro: D(4) keep bnd\<close>)
  moreover have "block_ok m' (A(h \<mapsto> sz + 57)) mn' mx' h"
    using new bnd R(2,9) hs sz by (simp add: block_ok_def unat_size57)
  moreover have "node_chain m' i (h # L) i" unfolding m'_def by (rule place_block_chain [OF fr ok ch])
  ultimately show "heap_ok m' i (A(h \<mapsto> sz + 57)) mn' mx' (h # L)"
    using D(1,2,3) h by (auto simp add: heap_ok_def)
qed

text \<open>
  Unlinking an active block: its neighbours point to each other, and only their links and the
  block's own tag have changed.
\<close>

definition freed_mem :: "mem \<Rightarrow> u64 \<Rightarrow> mem" where
  "freed_mem m h = unlink_block (st64 m (h + 8) magic_free) h"

lemma freed_mem_eq:
  assumes ok: "heap_ok m i A mn mx L" and ch: "node_chain m i L i" and h: "h \<in> set L"
  shows "freed_mem m h = st64 (st64 (st64 m (h + 8) magic_free) (prev_ptr m h + 40) (next_ptr m h))
           (next_ptr m h + 32) (prev_ptr m h)"
    and "prev_ptr m h \<in> set (i # L)" "next_ptr m h \<in> set (i # L)" "prev_ptr m h \<noteq> h" "next_ptr m h \<noteq> h"
proof -
  obtain xs ys where L: "L = xs @ h # ys" using h by (auto simp: in_set_conv_decomp)
  with ch have c: "node_chain m i xs h" "node_chain m h ys i" by (simp_all add: chain_append)
  show p: "prev_ptr m h \<in> set (i # L)" using chain_first [OF c(2)] L by (cases ys) auto
  show n: "next_ptr m h \<in> set (i # L)" using chain_last [OF c(1)] L by (cases xs rule: rev_cases) auto
  note D = heap_okD(2,3) [OF ok]
  show ph: "prev_ptr m h \<noteq> h" using chain_first [OF c(2)] L D by (cases ys) auto
  show nh: "next_ptr m h \<noteq> h" using chain_last [OF c(1)] L D by (cases xs rule: rev_cases) auto
  have h': "h \<in> set (i # L)" using h by simp
  note ff = heap_ok_fld [OF ok]
  show "freed_mem m h = st64 (st64 (st64 m (h + 8) magic_free) (prev_ptr m h + 40) (next_ptr m h))
           (next_ptr m h + 32) (prev_ptr m h)"
    using h' p n ph by (simp add: freed_mem_def unlink_block_def Let_def ld64_st64_disj ff)
qed


lemma freed_mem_reads:
  assumes ok: "heap_ok m i A mn mx L" and ch: "node_chain m i L i" and h: "h \<in> set L"
  shows "b \<in> set (i # L) \<Longrightarrow> b \<noteq> h \<Longrightarrow> prev_ptr (freed_mem m h) b = (if b = next_ptr m h then prev_ptr m h else prev_ptr m b)"
    and "b \<in> set (i # L) \<Longrightarrow> b \<noteq> h \<Longrightarrow> next_ptr (freed_mem m h) b = (if b = prev_ptr m h then next_ptr m h else next_ptr m b)"
    and "status_tag (freed_mem m h) h = magic_free"
    and "\<not> in_rng (h + 8) 8 x \<Longrightarrow> \<not> in_rng (prev_ptr m h + 32) 16 x \<Longrightarrow> \<not> in_rng (next_ptr m h + 32) 16 x
          \<Longrightarrow> freed_mem m h x = m x"
proof -
  note E = freed_mem_eq [OF ok ch h] and ff = heap_ok_fld [OF ok]
  have h': "h \<in> set (i # L)" using h by simp
  note simps = E(1) ld64_st64_same ld64_st64_disj ff E(2,3) h'
  show "prev_ptr (freed_mem m h) b = (if b = next_ptr m h then prev_ptr m h else prev_ptr m b)"
    if "b \<in> set (i # L)" "b \<noteq> h"
  proof (cases "b = next_ptr m h")
    case False
    then have n: "next_ptr m h \<noteq> b" "h \<noteq> b" using that(2) by auto
    show ?thesis using False ff [OF E(3) that(1) disjI1 [OF n(1)], of 32 32]
        ff [OF E(2) that(1), of 32 40] ff [OF h' that(1) disjI1 [OF n(2)], where k = 8 and p = 32]
      by (simp add: E(1) ld64_st64_disj)
  qed (simp add: E(1) ld64_st64_same)
  show "next_ptr (freed_mem m h) b = (if b = prev_ptr m h then next_ptr m h else next_ptr m b)"
    if "b \<in> set (i # L)" "b \<noteq> h"
  proof (cases "b = prev_ptr m h")
    case False
    then have n: "prev_ptr m h \<noteq> b" "h \<noteq> b" using that(2) by auto
    show ?thesis using False ff [OF E(2) that(1) disjI1 [OF n(1)], of 40 40]
        ff [OF E(3) that(1), of 40 32] ff [OF h' that(1) disjI1 [OF n(2)], where k = 8 and p = 40]
      by (simp add: E(1) ld64_st64_disj)
  qed (use ff [OF E(3,2), of 40 32] in \<open>simp add: E(1) ld64_st64_same ld64_st64_disj\<close>)
  show "status_tag (freed_mem m h) h = magic_free" 
    using ff [OF E(2) h' disjI1 [OF E(4)], where k = 40 and p = 8] ff [OF E(3) h' disjI1 [OF E(5)], where k = 32 and p = 8]
    by (simp add: E(1) ld64_st64_same ld64_st64_disj)
  show "freed_mem m h x = m x" if "\<not> in_rng (h + 8) 8 x" "\<not> in_rng (prev_ptr m h + 32) 16 x"
      "\<not> in_rng (next_ptr m h + 32) 16 x"
    using that by (simp add: E(1) st64_other in_rng_links [symmetric])
qed

lemma freed_mem_keeps:
  assumes ok: "heap_ok m i A mn mx L" and ch: "node_chain m i L i" and h: "h \<in> set L"
    and a: "a \<in> set L" "a \<noteq> h"
  shows "keeps_block m (freed_mem m h) a"
  unfolding keeps_block_def
proof (intro allI impI)
  fix x assume x: "in_rng a (alloc_size m a + 57) x" "\<not> in_rng (a + 32) 16 x"
  note D = heap_okD [OF ok] and E = freed_mem_eq [OF ok ch h]
  have "disj_rng a (node_ext m i a) h (node_ext m i h)" using nodes_apartD [OF D(5)] a h by simp
  moreover have "node_ext m i a = alloc_size m a + 57" "node_ext m i h = alloc_size m h + 57"
    using a h D(3) by (auto simp: node_ext_def)
  ultimately have "\<not> in_rng h (alloc_size m h + 57) x" using x(1) disj_rngD by metis
  then have "\<not> in_rng (h + 8) 8 x"
    using in_rng_sub [of h 8 8 x "alloc_size m h + 57"] unat_size57 [OF D(6) [OF h]] by auto
  then show "freed_mem m h x = m x"
    by (rule freed_mem_reads(4) [OF ok ch h]) (rule links_outside [OF ok a(1) _ x], rule E)+
qed

lemma freed_mem_chain:
  assumes ok: "heap_ok m i A mn mx L" and ch: "node_chain m i L i" and h: "h \<in> set L"
  shows "node_chain (freed_mem m h) i (remove1 h L) i"
proof -
  note D = heap_okD [OF ok] and R = freed_mem_reads [OF ok ch h]
  obtain xs ys where L: "L = xs @ h # ys" using h by (auto simp: in_set_conv_decomp)
  with ch have c: "node_chain m i xs h" "node_chain m h ys i" by (simp_all add: chain_append)
  have dst: "distinct (i # xs @ h # ys)" using D(2,3) L by simp
  let ?l = "last (i # xs)" and ?n = "hd (ys @ [i])"
  have n: "prev_ptr m h = ?n" and l: "next_ptr m h = ?l" using chain_first [OF c(2)] chain_last [OF c(1)] by simp_all
  have lmem: "?l \<in> set (i # xs)" by simp
  have nmem: "?n \<in> set (ys @ [i])" by (cases ys) simp_all
  have bl: "b \<noteq> ?l" if "b \<in> set (butlast (i # xs))" for b
  proof -
    have "distinct (butlast (i # xs) @ [?l])" using dst by (metis append_butlast_last_id distinct_append list.discI append_Cons)
    then show ?thesis using that by auto
  qed
  have "node_chain (freed_mem m h) i xs ?n"
  proof (rule chain_relink [OF c(1)])
    fix b assume b: "b \<in> set (butlast (i # xs))"
    then have "b \<in> set (i # xs)" by (rule in_set_butlastD)
    then show "prev_ptr (freed_mem m h) b = prev_ptr m b"
      using R(1) [of b] bl [OF b] dst L l by auto
  next
    fix b assume "b \<in> set xs"
    moreover from this have "b \<noteq> ?n" using nmem dst by (cases ys) auto
    ultimately show "next_ptr (freed_mem m h) b = next_ptr m b" using R(2) [of b] dst L n by auto
  next
    have "?l \<noteq> h" using lmem dst by (metis UnCI distinct.simps(2) distinct_append not_distinct_conv_prefix append_Cons disjoint_iff list.set_intros(1))
    then show "prev_ptr (freed_mem m h) ?l = ?n" using R(1) [of ?l] lmem L n l by auto
    have "?n \<noteq> h" using nmem dst by auto
    then show "next_ptr (freed_mem m h) ?n = ?l" using R(2) [of ?n] nmem L n l by auto
  qed
  moreover have "node_chain (freed_mem m h) b bs i" if ys: "ys = b # bs" for b bs
  proof (rule chain_cong)
    show "node_chain m b bs i" using c(2) ys by simp
    have bi: "next_ptr m h \<notin> set (b # bs)" using l lmem dst ys by auto
    show "prev_ptr (freed_mem m h) a = prev_ptr m a" if "a \<in> set (b # bs)" for a
    proof -
      have "a \<noteq> h" "a \<noteq> next_ptr m h" using that dst ys bi by auto
      then show ?thesis using R(1) [of a] that L ys by auto
    qed
    show "next_ptr (freed_mem m h) a = next_ptr m a" if "a \<in> set (bs @ [i])" for a
    proof -
      have "a \<noteq> h" "a \<noteq> prev_ptr m h" using that dst ys n by auto
      then show ?thesis using R(2) [of a] that L ys by auto
    qed
  qed
  ultimately have "node_chain (freed_mem m h) i (xs @ ys) i"
    by (cases ys) (simp_all add: chain_append)
  then show ?thesis using dst L by (simp add: remove1_append)
qed

lemma freed_mem_ok:
  assumes ok: "heap_ok m i A mn mx L" and ch: "node_chain m i L i" and h: "h \<in> set L"
  shows "heap_ok (freed_mem m h) i (A(h := None)) mn mx (remove1 h L)"
    and "a \<in> set L \<Longrightarrow> a \<noteq> h \<Longrightarrow> alloc_size (freed_mem m h) a = alloc_size m a"
    and "a \<in> set L \<Longrightarrow> a \<noteq> h \<Longrightarrow> leak_of (freed_mem m h) a = leak_of m a"
proof -
  note D = heap_okD [OF ok]
  have sub: "set (remove1 h L) \<subseteq> set L" "distinct (remove1 h L)" "set (remove1 h L) = set L - {h}"
    using D(2) by (auto simp: set_remove1_eq)
  note keep = freed_mem_keeps [OF ok ch h]
  show "heap_ok (freed_mem m h) i (A(h := None)) mn mx (remove1 h L)"
    by (rule heap_ok_change(1) [OF ok sub(1,2)]) (use sub(3) keep freed_mem_chain [OF ok ch h] in auto)
  note F = keeps_block_fields [OF keep D(6)]
  show "a \<in> set L \<Longrightarrow> a \<noteq> h \<Longrightarrow> alloc_size (freed_mem m h) a = alloc_size m a"
    "a \<in> set L \<Longrightarrow> a \<noteq> h \<Longrightarrow> leak_of (freed_mem m h) a = leak_of m a" by (simp_all add: F leak_of_def)
qed

text \<open>A write of the program inside the payload of an active block keeps every block.\<close>

lemma payload_write_ok:
  assumes ok: "heap_ok m i A mn mx L" and a: "a \<in> set L"
    and w: "\<And>x. \<not> in_rng (a + 48) (alloc_size m a) x \<Longrightarrow> m' x = m x"
  shows "heap_ok m' i A mn mx L" and "b \<in> set L \<Longrightarrow> alloc_size m' b = alloc_size m b"
    and "b \<in> set L \<Longrightarrow> leak_of m' b = leak_of m b"
proof -
  note D = heap_okD [OF ok]
  have u: "unat (alloc_size m a + 57) = unat (alloc_size m a) + 57" by (rule unat_size57 [OF D(6) [OF a]])
  have ext: "node_ext m i a = alloc_size m a + 57" using a D(3) by (auto simp: node_ext_def)
  have out: "m' x = m x" if "in_rng b (node_ext m i b) x" "b \<in> set (i # L)" "b \<noteq> a" for b x
  proof -
    have "disj_rng b (node_ext m i b) a (alloc_size m a + 57)"
      using nodes_apartD [OF D(5) that(2) _ that(3)] a ext by simp
    then have "\<not> in_rng a (alloc_size m a + 57) x" using that(1) by (rule disj_rngD)
    then show ?thesis using in_rng_sub [of a 48 "alloc_size m a" x "alloc_size m a + 57"] u w by auto
  qed
  have keep: "keeps_block m m' b" if "b \<in> set L" for b
  proof (cases "b = a")
    case True
    then show ?thesis using w by (simp add: keeps_block_def)
  next
    case False
    have "node_ext m i b = alloc_size m b + 57" using that D(3) by (auto simp: node_ext_def)
    then show ?thesis unfolding keeps_block_def using out [of b] that False by simp
  qed
  have links: "ld64 m' (b + c) = ld64 m (b + c)" if "b \<in> set (i # L)" "32 \<le> unat c" "unat c \<le> 40" for b c
  proof (cases "b = a")
    case True
    show ?thesis
    proof (rule ld64_cong)
      fix x assume "in_rng (b + c) 8 x"
      then have "unat (x - a) < 48" using that(3) True by (subst (asm) in_rng_offset) simp_all
      then show "m' x = m x" using u D(6) [OF a] size_bound
        by (intro w) (subst in_rng_offset; force)
    qed
  next
    case False
    have "48 \<le> unat (node_ext m i b)" using that(1) D(6) by (auto intro: node_ext_ge)
    then show ?thesis using out [OF _ that(1) False] that(3) by (intro same_node [of b "node_ext m i b"]) simp_all
  qed
  have ch: "node_chain m' i L i \<or> L = [] \<and> prev_ptr m' i = 0 \<and> next_ptr m' i = 0"
    using ok links unfolding heap_ok_def by (auto intro: chain_cong)
  show "heap_ok m' i A mn mx L"
    by (rule heap_ok_change(1) [OF ok _ D(2) keep _ _ _ ch]) simp_all
  note F = keeps_block_fields [OF keep D(6)]
  show "b \<in> set L \<Longrightarrow> alloc_size m' b = alloc_size m b" "b \<in> set L \<Longrightarrow> leak_of m' b = leak_of m b"
    by (simp_all add: F leak_of_def)
qed


section \<open>The allocator over any base allocator\<close>

definition stats_ok :: "'b m61 \<Rightarrow> u64 list \<Rightarrow> bool" where
  "stats_ok s L \<longleftrightarrow> malloc_counter s - free_counter s = of_nat (length L)
     \<and> active_size_acc s = sum_list (map (alloc_size (heap_mem s)) L)
     \<and> table_inv (freq_tab s) \<and> table_tot (freq_tab s) \<le> unat (malloc_counter s)"

definition m61_ok :: "('b \<Rightarrow> u64 \<Rightarrow> u64 option) \<Rightarrow> ('b \<Rightarrow> u64 \<Rightarrow> u64 \<Rightarrow> bool) \<Rightarrow> ('b \<Rightarrow> bool)
    \<Rightarrow> 'b m61 \<Rightarrow> u64 list \<Rightarrow> bool" where
  "m61_ok blk avoids binv s L \<longleftrightarrow> binv (base s) \<and> avoids (base s) (inter_ptr s) 48
     \<and> heap_ok (heap_mem s) (inter_ptr s) (blk (base s)) (heap_min_track s) (heap_max_track s) L
     \<and> stats_ok s L"

lemma header_sz: "48 + sz + magic_footer_sz = sz + 57" "meta_data_sz = 48"
  by (simp_all add: magic_simps)

text \<open>A payload byte is a byte of the block outside its links.\<close>

lemma payload_range:
  assumes "block_ok m A mn mx a" and "in_rng (a + 48) (alloc_size m a) x"
  shows "in_rng a (alloc_size m a + 57) x" and "\<not> in_rng (a + 32) 16 x"
proof -
  have sz: "alloc_size m a < UINT_MAX" using assms(1) by (simp add: block_ok_def)
  note u = unat_size57 [OF sz] size_bound [OF sz]
  have x: "48 \<le> unat (x - a)" "unat (x - a) < 48 + unat (alloc_size m a)"
    using assms(2) u by (simp_all add: in_rng_offset [of 48 "alloc_size m a" a])
  then show "in_rng a (alloc_size m a + 57) x" using u by (simp add: in_rng_zero [of a])
  show "\<not> in_rng (a + 32) 16 x" using x by (simp add: in_rng_offset [of 32 16 a])
qed

lemma place_block_payload:
  assumes fr: "fresh_block m i L h sz" and ok: "heap_ok m i A mn mx L" and ch: "node_chain m i L i"
    and a: "a \<in> set L" and x: "in_rng (a + 48) (alloc_size m a) x"
  shows "place_block m i h sz fl ln x = m x"
proof (rule place_block_reads(12) [OF fr ok ch])
  note D = heap_okD [OF ok] and X = payload_range [OF heap_okD(4) [OF ok a] x]
  have "prev_ptr m i \<in> set (i # L)" using chain_first [OF ch] by (cases L) auto
  then show "\<not> in_rng (prev_ptr m i + 32) 16 x" by (rule links_outside [OF ok a _ X])
  show "\<not> in_rng (i + 32) 16 x" by (rule links_outside [OF ok a _ X]) simp
  have "node_ext m i a = alloc_size m a + 57" using a D(3) by (auto simp: node_ext_def)
  moreover have "disj_rng h (sz + 57) a (node_ext m i a)" using fr a by (simp add: fresh_block_def)
  ultimately show "\<not> in_rng h (sz + 57) x" using X(1) disj_rngD2 by metis
qed

lemma freed_mem_payload:
  assumes ok: "heap_ok m i A mn mx L" and ch: "node_chain m i L i" and h: "h \<in> set L"
    and a: "a \<in> set L" "a \<noteq> h" and x: "in_rng (a + 48) (alloc_size m a) x"
  shows "freed_mem m h x = m x"
proof (rule freed_mem_reads(4) [OF ok ch h])
  note D = heap_okD [OF ok] and X = payload_range [OF heap_okD(4) [OF ok a(1)] x]
    and E = freed_mem_eq(2,3) [OF ok ch h]
  show "\<not> in_rng (prev_ptr m h + 32) 16 x" "\<not> in_rng (next_ptr m h + 32) 16 x"
    by (rule links_outside [OF ok a(1) _ X], rule E)+
  have "disj_rng a (alloc_size m a + 57) h (alloc_size m h + 57)"
    using nodes_apartD [OF D(5) _ _ a(2)] a h D(3) by (auto simp: node_ext_def split: if_splits)
  then have "\<not> in_rng h (alloc_size m h + 57) x" using X(1) by (rule disj_rngD)
  then show "\<not> in_rng (h + 8) 8 x"
    using in_rng_sub [of h 8 8 x "alloc_size m h + 57"] unat_size57 [OF D(6) [OF h]] by auto
qed

text \<open>The pointer of an active block passes every test of \<open>m61_free\<close>.\<close>

lemma active_pointer:
  assumes ok: "heap_ok m i A mn mx L" and h: "h \<in> set L"
  shows "h + 48 \<noteq> 0" "mn \<le> h + 48" "h + 48 \<le> mx" "(h + 48) mod 16 = 0"
    "next_ptr m (prev_ptr m h) = h" "prev_ptr m (next_ptr m h) = h" "node_chain m i L i"
proof -
  note B = block_okD [OF heap_okD(4) [OF ok h]]
  have u: "unat (h + 48) = unat h + 48" using B(5) by (subst unat_add_lt) simp_all
  have "unat (h + 48) \<noteq> 0" using u by linarith
  then show "h + 48 \<noteq> 0" using unat_0 by metis
  show "mn \<le> h + 48" by (rule B(8))
  have "unat (h + 48 + alloc_size m h) = unat h + 48 + unat (alloc_size m h)"
    using B(5) u by (subst unat_add_lt) simp_all
  then have "h + 48 \<le> h + 48 + alloc_size m h" using u by (simp only: word_le_nat_alt)
  then show "h + 48 \<le> mx" using B(9) by (rule order_trans)
  have "unat h mod 16 = 0" using B(4) using unat_mod [of h 16] by simp
  then have "(unat h + 48) mod 16 = 0" by presburger
  then have "unat ((h + 48) mod 16) = 0" using unat_mod [of "h + 48" 16] u by simp
  then show "(h + 48) mod 16 = 0" by (metis unat_0 word_unat_eq_iff)
  show ch: "node_chain m i L i" using ok h by (auto simp: heap_ok_def)
  obtain xs ys where L: "L = xs @ h # ys" using h by (auto simp: in_set_conv_decomp)
  with ch have c: "node_chain m i xs h" "node_chain m h ys i" by (simp_all add: chain_append)
  show "next_ptr m (prev_ptr m h) = h" using chain_first [OF c(2)] by simp
  show "prev_ptr m (next_ptr m h) = h" using chain_last [OF c(1)] by simp
qed


context block_allocator
begin

text \<open>A request that the base allocator can serve: a new block in front of the list.\<close>

lemma m61_malloc_ok:
  assumes ok: "m61_ok blk avoids binv s L" and sz: "sz < UINT_MAX" and cnt: "unat (malloc_counter s) + 1 < 2 ^ 64"
    and bm: "bmalloc (base s) (sz + 57) = (h, b')" "h \<noteq> 0"
  obtains s' where "m61_malloc bmalloc s sz fl ln = Inr (h + 48, s')"
    and "m61_ok blk avoids binv s' (h # L)" and "inter_ptr s' = inter_ptr s"
    and "heap_mem s' = place_block (init_list (heap_mem s) (inter_ptr s)) (inter_ptr s) h sz fl ln"
    and "fresh_block (init_list (heap_mem s) (inter_ptr s)) (inter_ptr s) L h sz"
    and "heap_min_track s' \<le> heap_min_track s" and "heap_max_track s \<le> heap_max_track s'"
proof -
  let ?m = "heap_mem s" and ?i = "inter_ptr s" and ?A = "blk (base s)"
  let ?mn = "heap_min_track s" and ?mx = "heap_max_track s"
  have inv: "binv (base s)" and av: "avoids (base s) ?i 48" and hp: "heap_ok ?m ?i ?A ?mn ?mx L"
    and st: "stats_ok s L" using ok by (simp_all add: m61_ok_def)
  let ?mi = "init_list ?m ?i"
  note I = init_list_ok [OF hp] and law = malloc_blk [OF inv bm]
  note D0 = heap_okD [OF I(1)]
  have fr: "fresh_block ?mi ?i L h sz"
    unfolding fresh_block_def
  proof (intro conjI ballI)
    fix b assume b: "b \<in> set (?i # L)"
    show "disj_rng h (sz + 57) b (node_ext ?mi ?i b)"
    proof (cases "b = ?i")
      case True
      then show ?thesis using malloc_avoid [OF inv bm av] by (simp add: node_ext_def)
    next
      case False
      then have "?A b = Some (alloc_size ?mi b + 57)" using b D0(4) by (auto simp: block_ok_def)
      from malloc_disj [OF inv bm this] False show ?thesis by (simp add: node_ext_def)
    qed
  qed (rule sz)
  define s1 where "s1 = count_alloc (s\<lparr>heap_mem := place_block ?mi ?i h sz fl ln, base := b'\<rparr>) (h + 48) sz"
  let ?l = "\<lparr>loc_file = fl, loc_line = ln\<rparr>"
  have "table_tot (freq_tab s) + 1 < 2 ^ 64" using st cnt by (simp add: stats_ok_def)
  then obtain ft d where ft: "freq_update (freq_tab s) ?l = Some ft" "pays (freq_tab s) ft ?l 1 d"
    using freq_update_pays [of "freq_tab s" ?l] st unfolding stats_ok_def by blast
  define s' where "s' = s1\<lparr>byte_tab := byte_update (byte_tab s1) ?l sz, freq_tab := ft\<rparr>"
  have res: "m61_malloc bmalloc s sz fl ln = Inr (h + 48, s')"
  proof -
    have "freq_tab s1 = freq_tab s" by (simp add: s1_def count_alloc_def)
    then show ?thesis
      using sz bm ft(1) by (simp add: m61_malloc_def header_sz s'_def Let_def s1_def [symmetric])
  qed
  have flds: "heap_mem s' = place_block ?mi ?i h sz fl ln" "base s' = b'" "inter_ptr s' = ?i"
    "freq_tab s' = ft" "malloc_counter s' = malloc_counter s + 1" "free_counter s' = free_counter s"
    "active_size_acc s' = active_size_acc s + sz"
    "heap_max_track s' = (if h + 48 + sz > ?mx then h + 48 + sz else ?mx)"
    "heap_min_track s' = (if h + 48 < ?mn then h + 48 else ?mn)"
    by (simp_all add: s'_def s1_def count_alloc_def)
  have bnd: "heap_min_track s' \<le> ?mn" "?mx \<le> heap_max_track s'" "heap_min_track s' \<le> h + 48"
    "h + 48 + sz \<le> heap_max_track s'" using flds(8,9) by auto
  note P = place_block_ok [OF fr I(1,2) bm(2) malloc_aligned [OF inv bm] malloc_nowrap [OF inv bm] bnd,
      where fl = fl and ln = ln, folded flds(1)]
  have "stats_ok s' (h # L)"
    unfolding stats_ok_def
  proof (intro conjI)
    show "malloc_counter s' - free_counter s' = of_nat (length (h # L))"
      using st by (simp add: flds stats_ok_def)
    have "sum_list (map (alloc_size (heap_mem s')) L) = sum_list (map (alloc_size ?m) L)"
      by (simp add: P(2) I(4) cong: map_cong)
    then show "active_size_acc s' = sum_list (map (alloc_size (heap_mem s')) (h # L))"
      using st by (simp add: flds(7) P(3) stats_ok_def)
    show "table_inv (freq_tab s')" using ft(2) by (simp add: flds pays_def)
    have "table_tot ft \<le> table_tot (freq_tab s) + 1" using ft(2) unfolding pays_def by linarith
    moreover have "unat (malloc_counter s + 1) = unat (malloc_counter s) + 1"
      using cnt by (subst unat_add_lt) simp_all
    ultimately show "table_tot (freq_tab s') \<le> unat (malloc_counter s')"
      using st by (simp add: flds stats_ok_def)
  qed
  then have "m61_ok blk avoids binv s' (h # L)"
    using malloc_inv [OF inv bm(1)] malloc_avoids [OF inv bm(1) av] P(1) law flds(2,3)
    by (simp add: m61_ok_def)
  from that [OF res this flds(3,1) fr bnd(1,2)] show thesis .
qed

text \<open>Freeing the pointer of an active block takes the block out of the list.\<close>

lemma m61_free_ok:
  assumes ok: "m61_ok blk avoids binv s L" and h: "h \<in> set L"
  obtains s' where "m61_free bfree s (h + 48) = Some (Inr s')"
    and "m61_ok blk avoids binv s' (remove1 h L)" and "inter_ptr s' = inter_ptr s"
    and "heap_mem s' = freed_mem (heap_mem s) h"
    and "heap_min_track s' = heap_min_track s" and "heap_max_track s' = heap_max_track s"
    and "malloc_counter s' = malloc_counter s"
proof -
  let ?m = "heap_mem s" and ?i = "inter_ptr s"
  have inv: "binv (base s)" and av: "avoids (base s) ?i 48"
    and hp: "heap_ok ?m ?i (blk (base s)) (heap_min_track s) (heap_max_track s) L"
    and st: "stats_ok s L" using ok by (simp_all add: m61_ok_def)
  note P = active_pointer [OF hp h] and B = block_okD [OF heap_okD(4) [OF hp h]] and D = heap_okD [OF hp]
  define s' where "s' = s\<lparr>heap_mem := freed_mem ?m h, free_counter := free_counter s + 1,
     active_size_acc := active_size_acc s - alloc_size ?m h, base := bfree (base s) h\<rparr>"
  have a: "alloc_size (st64 ?m (h + 8) magic_free) h = alloc_size ?m h"
    by (simp add: ld64_st64_disj fld_same1)
  have ft: "mem_read ?m (h + 48 + alloc_size ?m h) 9 = magic_footer" by (rule B(7))
  have tag: "magic_header \<noteq> magic_free" by (simp add: magic_simps)
  have res: "m61_free bfree s (h + 48) = Some (Inr s')"
    using P B(6) ft tag by (simp add: m61_free_def header_sz Let_def s'_def freed_mem_def a)
  note F = freed_mem_ok [OF hp P(7) h]
  have "stats_ok s' (remove1 h L)"
    unfolding stats_ok_def
  proof (intro conjI)
    have "length L \<noteq> 0" using h by auto
    then have "of_nat (length (remove1 h L)) = (of_nat (length L) - 1 :: u64)"
      using h by (simp add: length_remove1 of_nat_diff Suc_leI)
    then show "malloc_counter s' - free_counter s' = of_nat (length (remove1 h L))"
      using st by (simp add: s'_def stats_ok_def algebra_simps)
    have "map (alloc_size (heap_mem s')) (remove1 h L) = map (alloc_size ?m) (remove1 h L)"
      using F(2) D(2) by (auto simp: s'_def set_remove1_eq)
    moreover have "alloc_size ?m h + sum_list (map (alloc_size ?m) (remove1 h L)) = sum_list (map (alloc_size ?m) L)"
      by (rule sum_list_map_remove1 [OF h, symmetric])
    moreover have "active_size_acc s' = sum_list (map (alloc_size ?m) L) - alloc_size ?m h"
      using st by (simp add: s'_def stats_ok_def)
    ultimately show "active_size_acc s' = sum_list (map (alloc_size (heap_mem s')) (remove1 h L))"
      by (metis add_diff_cancel_left')
  qed (use st in \<open>simp_all add: s'_def stats_ok_def\<close>)
  then have "m61_ok blk avoids binv s' (remove1 h L)"
    using free_inv [OF inv] free_avoids [OF inv av] F(1) free_blk [OF inv B(2)]
    by (simp add: m61_ok_def s'_def)
  from that [OF res this] show thesis by (simp add: s'_def)
qed

end

end
