(* ===== verification/M61Run.thy ===== *)
theory M61Run
  imports M61
begin

text \<open>
  Programs that use the debugging allocator over the base allocator of \<open>basealloc.cc\<close>: they
  allocate, free pointers they own, and write inside their own blocks. The run keeps, as ghost
  values, the active blocks (with the location and size of their allocation, most recent first) and
  the freed pointers whose headers no later block has overwritten. The properties of the allocator
  are about every state of every run.
\<close>

section \<open>Freed blocks\<close>

definition retired :: "mem \<Rightarrow> u64 \<Rightarrow> u64 list \<Rightarrow> u64 \<Rightarrow> u64 \<Rightarrow> u64 \<Rightarrow> bool" where
  "retired m i L mn mx q \<longleftrightarrow> q \<noteq> 0 \<and> q mod 16 = 0 \<and> mn \<le> q \<and> q \<le> mx
     \<and> status_tag m (q - 48) = magic_free
     \<and> (\<forall>b \<in> set (i # L). disj_rng (q - 48) 48 b (node_ext m i b))"

lemma retiredD:
  assumes "retired m i L mn mx q"
  shows "q \<noteq> 0" "q mod 16 = 0" "mn \<le> q" "q \<le> mx" "status_tag m (q - 48) = magic_free"
    "b \<in> set (i # L) \<Longrightarrow> disj_rng (q - 48) 48 b (node_ext m i b)"
  using assms unfolding retired_def by blast+

lemma retired_double_free:
  assumes "retired (heap_mem s) (inter_ptr s) L (heap_min_track s) (heap_max_track s) q"
  shows "m61_free bf s q = Some (Inl (DoubleFree q))"
proof -
  have "magic_free \<noteq> magic_header" by (simp add: magic_simps)
  with retiredD [OF assms] show ?thesis by (simp add: m61_free_def header_sz Let_def)
qed

lemma retired_change:
  assumes r: "retired m i L mn mx q" and same: "\<And>x. in_rng (q - 48) 48 x \<Longrightarrow> m' x = m x"
    and bnd: "mn' \<le> mn" "mx \<le> mx'"
    and dj: "\<And>b. b \<in> set (i # L') \<Longrightarrow> disj_rng (q - 48) 48 b (node_ext m' i b)"
  shows "retired m' i L' mn' mx' q"
proof -
  note R = retiredD [OF r]
  have "ld64 m' ((q - 48) + 8) = ld64 m ((q - 48) + 8)" by (rule same_node [of _ 48]) (simp_all add: same)
  with R dj bnd show ?thesis unfolding retired_def by (auto intro: order_trans)
qed

lemma map_remove1_inj: "inj_on f (set xs) \<Longrightarrow> x \<in> set xs \<Longrightarrow> map f (remove1 x xs) = remove1 (f x) (map f xs)"
  by (induction xs) (auto simp: inj_on_def)

text \<open>A byte of a retired header is a byte of no node.\<close>

lemma retired_outside:
  assumes "retired m i L mn mx q" and "in_rng (q - 48) 48 x" and "b \<in> set (i # L)"
  shows "\<not> in_rng b (node_ext m i b) x"
  using disj_rngD [OF retiredD(6) [OF assms(1,3)] assms(2)] .

lemma node_links:
  assumes ok: "heap_ok m i A mn mx L" and b: "b \<in> set (i # L)"
  shows "in_rng (b + 32) 16 x \<Longrightarrow> in_rng b (node_ext m i b) x"
    and "in_rng (b + 8) 8 x \<Longrightarrow> in_rng b (node_ext m i b) x"
proof -
  have "48 \<le> unat (node_ext m i b)" using b heap_okD(6) [OF ok] by (auto intro: node_ext_ge)
  then show "in_rng (b + 32) 16 x \<Longrightarrow> in_rng b (node_ext m i b) x"
    and "in_rng (b + 8) 8 x \<Longrightarrow> in_rng b (node_ext m i b) x"
    using in_rng_sub [of b 32 16 x] in_rng_sub [of b 8 8 x] by simp_all
qed

lemma node_ext_same:
  "heap_ok m i A mn mx L \<Longrightarrow> (\<And>a. a \<in> set L' \<Longrightarrow> alloc_size m' a = alloc_size m a) \<Longrightarrow> b \<in> set (i # L') \<Longrightarrow>
   node_ext m' i b = node_ext m i b"
  by (auto simp: node_ext_def)

text \<open>The three changes of the memory keep a retired pointer.\<close>

lemma retired_malloc:
  assumes ok: "heap_ok m i A mn mx L" and r: "retired m i L mn mx q" and dj: "disj_rng (q - 48) 48 h (sz + 57)"
    and fr: "fresh_block (init_list m i) i L h sz" and bnd: "mn' \<le> mn" "mx \<le> mx'"
  shows "retired (place_block (init_list m i) i h sz fl ln) i (h # L) mn' mx' q"
proof (rule retired_change [OF r _ bnd])
  let ?mi = "init_list m i" and ?m' = "place_block (init_list m i) i h sz fl ln"
  note I = init_list_ok [OF ok]
  note O = retired_outside [OF r]
  note P = place_block_reads [OF fr I(1,2), where fl = fl and ln = ln]
  have sz: "alloc_size ?m' a = alloc_size m a" if "a \<in> set L" for a
    using keeps_block_fields(1) [OF place_block_keeps [OF fr I(1,2) that] heap_okD(6) [OF I(1) that]] I(4) [OF that] by simp
  have q: "prev_ptr ?mi i \<in> set (i # L)" using chain_first [OF I(2)] by (cases L) auto
  show "?m' x = m x" if x: "in_rng (q - 48) 48 x" for x
  proof -
    have ni: "\<not> in_rng (i + 32) 16 x" using O [OF x, of i] node_links(1) [OF ok, of i] by auto
    have "\<not> in_rng (prev_ptr ?mi i + 32) 16 x" using O [OF x q] node_links(1) [OF ok q] by auto
    moreover have "\<not> in_rng h (sz + 57) x" using dj x by (rule disj_rngD)
    ultimately have "?m' x = ?mi x" using ni by (intro P(12))
    then show ?thesis using I(3) [OF ni] by simp
  qed
  have hne: "h \<noteq> i" using fr disj_rng_neq_block [of h sz i] by (auto simp: fresh_block_def)
  show "disj_rng (q - 48) 48 b (node_ext ?m' i b)" if b: "b \<in> set (i # h # L)" for b
  proof (cases "b = h")
    case True
    then show ?thesis using dj P(1) hne by (simp add: node_ext_def)
  next
    case False
    then have b': "b \<in> set (i # L)" using b by auto
    show ?thesis using retiredD(6) [OF r b'] node_ext_same [OF ok sz b'] by simp
  qed
qed

lemma retired_free:
  assumes ok: "heap_ok m i A mn mx L" and r: "retired m i L mn mx q" and h: "h \<in> set L"
  shows "retired (freed_mem m h) i (remove1 h L) mn mx q"
proof (rule retired_change [OF r])
  have ch: "node_chain m i L i" by (rule active_pointer(7) [OF ok h])
  note E = freed_mem_eq(2,3) [OF ok ch h] and O = retired_outside [OF r]
  have d: "set (remove1 h L) = set L - {h}" using heap_okD(2) [OF ok] by (simp add: set_remove1_eq)
  show "freed_mem m h x = m x" if x: "in_rng (q - 48) 48 x" for x
    using O [OF x E(1)] O [OF x E(2)] O [OF x, of h] node_links [OF ok E(1)] node_links [OF ok E(2)] node_links [OF ok, of h] h
    by (intro freed_mem_reads(4) [OF ok ch h]) auto
  show "disj_rng (q - 48) 48 b (node_ext (freed_mem m h) i b)" if b: "b \<in> set (i # remove1 h L)" for b
  proof -
    have "alloc_size (freed_mem m h) a = alloc_size m a" if "a \<in> set (remove1 h L)" for a
      using that d freed_mem_ok(2) [OF ok ch h] by auto
    from node_ext_same [OF ok this b] retiredD(6) [OF r, of b] b d show ?thesis by auto
  qed
qed simp_all

lemma retired_new:
  assumes ok: "heap_ok m i A mn mx L" and h: "h \<in> set L"
  shows "retired (freed_mem m h) i (remove1 h L) mn mx (h + 48)"
proof -
  note P = active_pointer [OF ok h] and D = heap_okD [OF ok]
  note R = freed_mem_reads(3) [OF ok P(7) h]
  have d: "set (remove1 h L) = set L - {h}" using D(2) by (simp add: set_remove1_eq)
  have "disj_rng h 48 b (node_ext (freed_mem m h) i b)" if b: "b \<in> set (i # remove1 h L)" for b
  proof -
    have "alloc_size (freed_mem m h) a = alloc_size m a" if "a \<in> set (remove1 h L)" for a
      using that d freed_mem_ok(2) [OF ok P(7) h] by auto
    from node_ext_same [OF ok this b] have e: "node_ext (freed_mem m h) i b = node_ext m i b" .
    have "b \<noteq> h" using b d h D(3) by auto
    then have "disj_rng h (node_ext m i h) b (node_ext m i b)"
      using nodes_apartD [OF D(5), of h b] h b d by auto
    moreover have "48 \<le> node_ext m i h"
      using node_ext_ge [of h i m] D(6) [OF h] by (simp add: word_le_nat_alt)
    ultimately show ?thesis using e by (auto intro: disj_rng_shrink)
  qed
  with P R show ?thesis by (simp add: retired_def)
qed

lemma retired_write:
  assumes ok: "heap_ok m i A mn mx L" and r: "retired m i L mn mx q" and a: "a \<in> set L"
    and w: "\<And>x. \<not> in_rng (a + 48) (alloc_size m a) x \<Longrightarrow> m' x = m x"
  shows "retired m' i L mn mx q"
proof (rule retired_change [OF r])
  note O = retired_outside [OF r] and B = heap_okD(4) [OF ok a]
  show "m' x = m x" if x: "in_rng (q - 48) 48 x" for x
  proof (rule w)
    have "node_ext m i a = alloc_size m a + 57" using a heap_okD(3) [OF ok] by (auto simp: node_ext_def)
    then show "\<not> in_rng (a + 48) (alloc_size m a) x"
      using O [OF x, of a] a payload_range(1) [OF B] by auto
  qed
  show "disj_rng (q - 48) 48 b (node_ext m' i b)" if b: "b \<in> set (i # L)" for b
    using node_ext_same [OF ok payload_write_ok(2) [OF ok a w] b] retiredD(6) [OF r b] by simp
qed simp_all


section \<open>Runs\<close>

definition leak_rec :: "u64 \<Rightarrow> u64 \<Rightarrow> u64 \<Rightarrow> u64 \<Rightarrow> leak" where
  "leak_rec fl ln p sz = \<lparr>lk_loc = \<lparr>loc_file = fl, loc_line = ln\<rparr>, lk_ptr = p, lk_size = sz\<rparr>"

text \<open>The freed pointers whose headers lie outside a new block of \<open>sz\<close> payload bytes at \<open>p\<close>.\<close>

definition spared :: "u64 set \<Rightarrow> u64 \<Rightarrow> u64 \<Rightarrow> u64 set" where
  "spared F p sz = {q \<in> F. disj_rng (q - 48) 48 (p - 48) (sz + 57)}"

inductive m61_run :: "mem \<Rightarrow> (u64 \<times> u64) list \<Rightarrow> u64 \<Rightarrow> base_alloc m61 \<Rightarrow> leak list \<Rightarrow> u64 set \<Rightarrow> bool"
  for m0 rs i where
  start: "base_inv (base_alloc_init rs) \<Longrightarrow> base_avoids (base_alloc_init rs) i 48 \<Longrightarrow> i \<noteq> 0 \<Longrightarrow>
    m61_run m0 rs i (m61_init m0 (base_alloc_init rs) i) [] {}"
| malloc: "m61_run m0 rs i s P F \<Longrightarrow> unat (malloc_counter s) + 1 < 2 ^ 64 \<Longrightarrow>
    m61_malloc base_malloc s sz fl ln = Inr (p, s') \<Longrightarrow> p \<noteq> 0 \<Longrightarrow>
    m61_run m0 rs i s' (leak_rec fl ln p sz # P) (spared F p sz)"
| malloc_null: "m61_run m0 rs i s P F \<Longrightarrow> m61_malloc base_malloc s sz fl ln = Inr (0, s') \<Longrightarrow>
    unat (malloc_counter s) + 1 < 2 ^ 64 \<Longrightarrow> m61_run m0 rs i s' P F"
| calloc: "m61_run m0 rs i s P F \<Longrightarrow> unat (malloc_counter s) + 1 < 2 ^ 64 \<Longrightarrow>
    m61_calloc base_malloc s n sz fl ln = Inr (p, s') \<Longrightarrow> p \<noteq> 0 \<Longrightarrow>
    m61_run m0 rs i s' (leak_rec fl ln p (n * sz) # P) (spared F p (n * sz))"
| free: "m61_run m0 rs i s P F \<Longrightarrow> x \<in> set P \<Longrightarrow> m61_free base_free s (lk_ptr x) = Some (Inr s') \<Longrightarrow>
    m61_run m0 rs i s' (remove1 x P) (insert (lk_ptr x) F)"
| store: "m61_run m0 rs i s P F \<Longrightarrow> x \<in> set P \<Longrightarrow> in_rng (lk_ptr x) (lk_size x) a \<Longrightarrow>
    m61_run m0 rs i (s\<lparr>heap_mem := (heap_mem s)(a := v)\<rparr>) P F"

text \<open>What holds of every state of a run; \<open>L\<close> lists the headers of the active blocks.\<close>

definition run_inv :: "u64 \<Rightarrow> base_alloc m61 \<Rightarrow> u64 list \<Rightarrow> leak list \<Rightarrow> u64 set \<Rightarrow> bool" where
  "run_inv i s L P F \<longleftrightarrow> m61_ok allocs base_avoids base_inv s L \<and> inter_ptr s = i
     \<and> P = map (leak_of (heap_mem s)) L
     \<and> (\<forall>q \<in> F. retired (heap_mem s) i L (heap_min_track s) (heap_max_track s) q)"

lemma run_invD:
  assumes "run_inv i s L P F"
  shows "m61_ok allocs base_avoids base_inv s L" "inter_ptr s = i" "P = map (leak_of (heap_mem s)) L"
    "q \<in> F \<Longrightarrow> retired (heap_mem s) i L (heap_min_track s) (heap_max_track s) q"
    "heap_ok (heap_mem s) i (allocs (base s)) (heap_min_track s) (heap_max_track s) L" "stats_ok s L"
    "base_inv (base s)" "base_avoids (base s) i 48"
  using assms by (auto simp: run_inv_def m61_ok_def)

lemma leak_of_sel [simp]: "lk_ptr (leak_of m a) = a + 48" "lk_size (leak_of m a) = alloc_size m a"
  by (simp_all add: leak_of_def header_sz)

text \<open>A successful \<open>malloc\<close> comes from a successful request to the base allocator.\<close>

lemma m61_malloc_Inr:
  assumes "m61_malloc bm s sz fl ln = Inr (p, s')"
  shows "(\<exists>b'. bm (base s) (sz + 57) = (p - 48, b') \<and> p - 48 \<noteq> 0 \<and> sz < UINT_MAX)
     \<or> \<not> sz < UINT_MAX \<and> p = 0 \<and> s' = s\<lparr>fail_counter := fail_counter s + 1, fail_size_acc := fail_size_acc s + sz\<rparr>"
proof (cases "sz < UINT_MAX")
  case True
  obtain q b' where b: "bm (base s) (sz + 57) = (q, b')" by fastforce
  with assms True have "q \<noteq> 0" "p = q + 48"
    by (auto simp: m61_malloc_def header_sz Let_def split: if_splits option.splits)
  with b True show ?thesis by simp
next
  case False
  with assms show ?thesis by (auto simp: m61_malloc_def)
qed

lemma run_inv_malloc:
  assumes inv: "run_inv i s L P F" and cnt: "unat (malloc_counter s) + 1 < 2 ^ 64"
    and res: "m61_malloc base_malloc s sz fl ln = Inr (p, s')" and p: "p \<noteq> 0"
  shows "run_inv i s' ((p - 48) # L) (leak_rec fl ln p sz # P) (spared F p sz)"
    and "heap_ok (heap_mem s') i (allocs (base s')) (heap_min_track s') (heap_max_track s') ((p - 48) # L)"
    and "alloc_size (heap_mem s') (p - 48) = sz" and "sz < UINT_MAX"
    and "a \<in> set L \<Longrightarrow> in_rng (a + 48) (alloc_size (heap_mem s) a) x \<Longrightarrow> heap_mem s' x = heap_mem s x"
proof -
  note R = run_invD [OF inv]
  from m61_malloc_Inr [OF res] p obtain b' where bm: "base_malloc (base s) (sz + 57) = (p - 48, b')" "p - 48 \<noteq> 0"
    and sz: "sz < UINT_MAX" by auto
  let ?mi = "init_list (heap_mem s) i"
  from ba.m61_malloc_ok [OF R(1) sz cnt bm, of fl ln]
  obtain s2 where eq: "m61_malloc base_malloc s sz fl ln = Inr ((p - 48) + 48, s2)"
    and ok: "m61_ok allocs base_avoids base_inv s2 ((p - 48) # L)" and ip: "inter_ptr s2 = i"
    and mem: "heap_mem s2 = place_block ?mi i (p - 48) sz fl ln"
    and fr: "fresh_block ?mi i L (p - 48) sz"
    and bnd: "heap_min_track s2 \<le> heap_min_track s" "heap_max_track s \<le> heap_max_track s2"
    unfolding R(2) by metis
  have s2: "s2 = s'" using eq res by simp
  note I = init_list_ok [OF R(5)]
  note PR = place_block_reads [OF fr I(1,2), where fl = fl and ln = ln, folded mem]
  have "leak_of (heap_mem s2) a = leak_of (heap_mem s) a" if a: "a \<in> set L" for a
  proof -
    note K = keeps_block_fields [OF place_block_keeps [OF fr I(1,2) a, of fl ln, folded mem] heap_okD(6) [OF I(1) a]]
    have "leak_of (heap_mem s2) a = leak_of ?mi a" by (simp add: leak_of_def K)
    then show ?thesis using I(5) [OF a] by simp
  qed
  moreover have "leak_of (heap_mem s2) (p - 48) = leak_rec fl ln p sz"
    unfolding leak_of_def leak_rec_def PR(1,3,4) header_sz by simp
  ultimately have "leak_rec fl ln p sz # P = map (leak_of (heap_mem s2)) ((p - 48) # L)"
    using R(3) by simp
  moreover have "retired (heap_mem s2) i ((p - 48) # L) (heap_min_track s2) (heap_max_track s2) q"
    if "q \<in> spared F p sz" for q
    unfolding mem using that by (intro retired_malloc [OF R(5) R(4) _ fr bnd]) (auto simp: spared_def)
  ultimately show inv': "run_inv i s' ((p - 48) # L) (leak_rec fl ln p sz # P) (spared F p sz)"
    using ok ip s2 by (simp add: run_inv_def)
  show "heap_ok (heap_mem s') i (allocs (base s')) (heap_min_track s') (heap_max_track s') ((p - 48) # L)"
    using run_invD(5) [OF inv'] .
  show "alloc_size (heap_mem s') (p - 48) = sz" using PR(1) s2 by simp
  show "sz < UINT_MAX" by (rule sz)
  show "heap_mem s' x = heap_mem s x" if a: "a \<in> set L" and x: "in_rng (a + 48) (alloc_size (heap_mem s) a) x"
  proof -
    have x': "in_rng (a + 48) (alloc_size ?mi a) x" using x I(4) [OF a] by simp
    have "\<not> in_rng (i + 32) 16 x"
      using links_outside [OF R(5) a, of i] payload_range [OF heap_okD(4) [OF R(5) a] x] by simp
    then show ?thesis
      using place_block_payload [OF fr I(1,2) a x', of fl ln] I(3) mem s2 by simp
  qed
qed

lemma run_inv_fail:
  assumes "run_inv i s L P F" and "heap_mem s' = heap_mem s" "base s' = base s" "inter_ptr s' = inter_ptr s"
    "malloc_counter s' = malloc_counter s" "free_counter s' = free_counter s"
    "active_size_acc s' = active_size_acc s" "freq_tab s' = freq_tab s"
    "heap_min_track s' = heap_min_track s" "heap_max_track s' = heap_max_track s"
  shows "run_inv i s' L P F"
  using assms by (auto simp: run_inv_def m61_ok_def stats_ok_def)

lemma run_inv_write:
  assumes inv: "run_inv i s L P F" and a: "a \<in> set L"
    and w: "\<And>x. \<not> in_rng (a + 48) (alloc_size (heap_mem s) a) x \<Longrightarrow> m' x = heap_mem s x"
  shows "run_inv i (s\<lparr>heap_mem := m'\<rparr>) L P F"
proof -
  note R = run_invD [OF inv] and W = payload_write_ok [OF run_invD(5) [OF inv] a w]
  have "map (alloc_size m') L = map (alloc_size (heap_mem s)) L" using W(2) by simp
  then have "stats_ok (s\<lparr>heap_mem := m'\<rparr>) L" using R(6) by (simp add: stats_ok_def del: map_eq_conv)
  then have "m61_ok allocs base_avoids base_inv (s\<lparr>heap_mem := m'\<rparr>) L"
    using R(2,7,8) W(1) by (simp add: m61_ok_def)
  moreover have "P = map (leak_of m') L" using R(3) W(3) by simp
  moreover have "retired m' i L (heap_min_track s) (heap_max_track s) q" if "q \<in> F" for q
    by (rule retired_write [OF R(5) R(4) [OF that] a w])
  ultimately show ?thesis using R(2) by (simp add: run_inv_def)
qed

lemma run_inv_free:
  assumes inv: "run_inv i s L P F" and a: "a \<in> set L"
  obtains s' where "m61_free base_free s (a + 48) = Some (Inr s')"
    and "run_inv i s' (remove1 a L) (remove1 (leak_of (heap_mem s) a) P) (insert (a + 48) F)"
    and "heap_mem s' = freed_mem (heap_mem s) a"
proof -
  note R = run_invD [OF inv] and D = heap_okD [OF run_invD(5) [OF inv]]
  from ba.m61_free_ok [OF R(1) a]
  obtain s' where s': "m61_free base_free s (a + 48) = Some (Inr s')"
    "m61_ok allocs base_avoids base_inv s' (remove1 a L)" "inter_ptr s' = inter_ptr s"
    "heap_mem s' = freed_mem (heap_mem s) a" "heap_min_track s' = heap_min_track s"
    "heap_max_track s' = heap_max_track s" by metis
  have ch: "node_chain (heap_mem s) i L i" by (rule active_pointer(7) [OF R(5) a])
  have inj: "inj_on (leak_of (heap_mem s)) (set L)"
    by (rule inj_onI) (drule arg_cong [of _ _ lk_ptr], simp)
  have d: "set (remove1 a L) = set L - {a}" using D(2) by (simp add: set_remove1_eq)
  have "map (leak_of (heap_mem s')) (remove1 a L) = map (leak_of (heap_mem s)) (remove1 a L)"
    using freed_mem_ok(3) [OF R(5) ch a] d s'(4) by simp
  also have "\<dots> = remove1 (leak_of (heap_mem s) a) P"
    using R(3) map_remove1_inj [OF inj a] by simp
  finally have "remove1 (leak_of (heap_mem s) a) P = map (leak_of (heap_mem s')) (remove1 a L)" by simp
  moreover have "retired (heap_mem s') i (remove1 a L) (heap_min_track s') (heap_max_track s') q"
    if "q \<in> insert (a + 48) F" for q
    using that retired_new [OF R(5) a] retired_free [OF R(5) R(4) a] s' by auto
  ultimately have "run_inv i s' (remove1 a L) (remove1 (leak_of (heap_mem s) a) P) (insert (a + 48) F)"
    using s' R(2) by (simp add: run_inv_def)
  with that s'(1,4) show thesis by blast
qed


lemma m61_calloc_Inr:
  assumes "m61_calloc bm s n sz fl ln = Inr (p, s')" and "p \<noteq> 0"
  obtains s1 where "m61_malloc bm s (n * sz) fl ln = Inr (p, s1)"
    and "s' = s1\<lparr>heap_mem := mem_fill (heap_mem s1) p 0 (n * sz)\<rparr>"
  using assms by (auto simp: m61_calloc_def split: if_splits sum.splits)

lemma run_inv_calloc:
  assumes inv: "run_inv i s L P F" and cnt: "unat (malloc_counter s) + 1 < 2 ^ 64"
    and res: "m61_calloc base_malloc s n sz fl ln = Inr (p, s')" and p: "p \<noteq> 0"
  shows "run_inv i s' ((p - 48) # L) (leak_rec fl ln p (n * sz) # P) (spared F p (n * sz))"
    and "a \<in> set L \<Longrightarrow> in_rng (a + 48) (alloc_size (heap_mem s) a) x \<Longrightarrow> heap_mem s' x = heap_mem s x"
    and "in_rng p (n * sz) x \<Longrightarrow> heap_mem s' x = 0" and "n * sz < UINT_MAX"
proof -
  from res p obtain s1 where m: "m61_malloc base_malloc s (n * sz) fl ln = Inr (p, s1)"
    and s': "s' = s1\<lparr>heap_mem := mem_fill (heap_mem s1) p 0 (n * sz)\<rparr>" by (rule m61_calloc_Inr)
  note M = run_inv_malloc [OF inv cnt m p]
  show "n * sz < UINT_MAX" by (rule M(4))
  show "run_inv i s' ((p - 48) # L) (leak_rec fl ln p (n * sz) # P) (spared F p (n * sz))"
    unfolding s' by (rule run_inv_write [OF M(1), of "p - 48"]) (simp_all add: M(3) mem_fill_other)
  show "in_rng p (n * sz) x \<Longrightarrow> heap_mem s' x = 0" by (simp add: s' mem_fill_def)
  assume a: "a \<in> set L" and x: "in_rng (a + 48) (alloc_size (heap_mem s) a) x"
  note D = heap_okD [OF M(2)]
  have sa: "alloc_size (heap_mem s1) a = alloc_size (heap_mem s) a"
  proof -
    have "leak_of (heap_mem s1) a = leak_of (heap_mem s) a"
      using run_invD(3) [OF M(1)] run_invD(3) [OF inv] a by simp
    from arg_cong [OF this, of lk_size] show ?thesis by simp
  qed
  have ne: "a \<noteq> p - 48" using D(2) a by auto
  have "disj_rng a (alloc_size (heap_mem s1) a + 57) (p - 48) (n * sz + 57)"
    using nodes_apartD [OF D(5), of a "p - 48"] a ne D(3) M(3) by (auto simp: node_ext_def split: if_splits)
  moreover have "in_rng a (alloc_size (heap_mem s1) a + 57) x"
    using payload_range(1) [OF D(4), of a] a x sa by simp
  ultimately have "\<not> in_rng (p - 48) (n * sz + 57) x" by (rule disj_rngD)
  then have "\<not> in_rng p (n * sz) x"
    using in_rng_sub [of "p - 48" 48 "n * sz" x "n * sz + 57"] M(4) by (simp add: unat_size57) blast
  then show "heap_mem s' x = heap_mem s x" using M(5) [OF a x] by (simp add: s' mem_fill_other)
qed

lemma ld64_zero: "(\<And>x. in_rng a 8 x \<Longrightarrow> m x = 0) \<Longrightarrow> ld64 m a = 0"
  by (simp add: ld64_def in_rng_def)

lemma run_inv_start:
  assumes "base_inv (base_alloc_init rs)" and "base_avoids (base_alloc_init rs) i 48" and "i \<noteq> 0"
  shows "run_inv i (m61_init m (base_alloc_init rs) i) [] [] {}"
proof -
  have "ld64 (mem_fill m i 0 48) (i + 32) = 0" "ld64 (mem_fill m i 0 48) (i + 40) = 0"
    using in_rng_sub [of i 32 8 _ 48] in_rng_sub [of i 40 8 _ 48]
    by (auto intro!: ld64_zero simp: mem_fill_def)
  then show ?thesis
    using assms by (auto simp: run_inv_def m61_ok_def m61_init_def heap_ok_def stats_ok_def
        nodes_apart_def empty_table_inv)
qed

lemma run_inv_reach: "m61_run m0 rs i s P F \<Longrightarrow> \<exists>L. run_inv i s L P F"
proof (induction rule: m61_run.induct)
  case start
  then show ?case using run_inv_start by blast
next
  case (malloc s P F sz fl ln p s')
  then show ?case using run_inv_malloc(1) by blast
next
  case (malloc_null s P F sz fl ln s')
  from m61_malloc_Inr [OF malloc_null.hyps(2)] malloc_null.IH show ?case
  proof (elim disjE exE conjE)
    fix L b' assume inv: "run_inv i s L P F" and b: "base_malloc (base s) (sz + 57) = (0 - 48, b')" and sz: "sz < UINT_MAX"
    note R = run_invD [OF inv]
    have "(0 - 48 :: u64) \<noteq> 0" by simp
    from ba.malloc_nowrap [OF R(7) b this] have "unat (0 - 48 :: u64) + unat (sz + 57) < 2 ^ 64" .
    then have False using unat_size57 [OF sz] by simp
    then show "\<exists>L. run_inv i s' L P F" ..
  next
    fix L assume "run_inv i s L P F" "s' = s\<lparr>fail_counter := fail_counter s + 1, fail_size_acc := fail_size_acc s + sz\<rparr>"
    then show "\<exists>L. run_inv i s' L P F" by (intro exI) (rule run_inv_fail; simp)
  qed
next
  case (calloc s P F n sz fl ln p s')
  then show ?case using run_inv_calloc(1) by blast
next
  case (free s P F x s')
  then obtain L where inv: "run_inv i s L P F" by blast
  with free.hyps(2) obtain a where a: "a \<in> set L" "x = leak_of (heap_mem s) a"
    using run_invD(3) [OF inv] by auto
  from run_inv_free [OF inv a(1)] free.hyps(3) a(2) show ?case by auto
next
  case (store s P F x a v)
  then obtain L where inv: "run_inv i s L P F" by blast
  with store.hyps(2) obtain b where b: "b \<in> set L" "x = leak_of (heap_mem s) b"
    using run_invD(3) [OF inv] by auto
  have "run_inv i (s\<lparr>heap_mem := (heap_mem s)(a := v)\<rparr>) L P F"
    by (rule run_inv_write [OF inv b(1)]) (use store.hyps(3) b(2) in auto)
  then show ?case ..
qed

lemma run_active:
  assumes "run_inv i s L P F" and "x \<in> set P"
  obtains a where "a \<in> set L" and "x = leak_of (heap_mem s) a" and "lk_ptr x = a + 48"
    and "lk_size x = alloc_size (heap_mem s) a"
  using assms run_invD(3) [OF assms(1)] by auto


section \<open>Properties\<close>

lemma payload_contains:
  assumes B: "block_ok m A mn mx a"
  shows "contains m q a \<longleftrightarrow> in_rng (a + 48) (alloc_size m a) q"
proof -
  note D = block_okD [OF B] and u = size_bound [OF block_okD(1) [OF B]]
  have e: "unat (a + 48) = unat a + 48" using D(5) by (subst unat_add_lt) simp_all
  have e2: "unat (a + 48 + alloc_size m a) = unat a + 48 + unat (alloc_size m a)"
    using D(5) e by (subst unat_add_lt) simp_all
  show ?thesis
  proof (cases "a + 48 \<le> q")
    case True
    then have "unat (q - (a + 48)) = unat q - (unat a + 48)" using e by (simp only: unat_sub_le)
    then show ?thesis using True e e2
      by (auto simp: contains_def header_sz in_rng_def word_less_nat_alt word_le_nat_alt)
  next
    case False
    then have "unat q < unat a + 48" using e by (simp add: word_le_nat_alt not_le)
    moreover have "unat (q - (a + 48)) = 2 ^ 64 + unat q - (unat a + 48)"
      using False e by (subst unat_sub_if') (simp add: word_le_nat_alt)
    ultimately have "\<not> in_rng (a + 48) (alloc_size m a) q"
      using D(5) by (simp add: in_rng_def word_less_nat_alt)
    then show ?thesis using False by (simp add: contains_def header_sz)
  qed
qed

text \<open>A payload byte belongs to one block only.\<close>

lemma payload_unique:
  assumes ok: "heap_ok m i A mn mx L" and a: "a \<in> set L" and b: "b \<in> set L"
    and x: "in_rng (a + 48) (alloc_size m a) x" "in_rng (b + 48) (alloc_size m b) x"
  shows "a = b"
proof (rule ccontr)
  assume ne: "a \<noteq> b"
  note D = heap_okD [OF ok]
  have "disj_rng a (alloc_size m a + 57) b (alloc_size m b + 57)"
    using nodes_apartD [OF D(5) _ _ ne] a b D(3) by (auto simp: node_ext_def split: if_splits)
  then show False
    using disj_rngD payload_range(1) [OF D(4) [OF a] x(1)] payload_range(1) [OF D(4) [OF b] x(2)] by blast
qed

text \<open>Fields of the nodes after a write behind the header of block \<open>a\<close>, up to its footer.\<close>

lemma behind_header:
  assumes ok: "heap_ok m i A mn mx L" and a: "a \<in> set L" and b: "b \<in> set (i # L)" and c: "unat c \<le> 40"
    and w: "\<And>x. \<not> in_rng (a + 48) (alloc_size m a + 9) x \<Longrightarrow> m' x = m x"
  shows "ld64 m' (b + c) = ld64 m (b + c)"
proof (rule ld64_cong)
  fix x assume x: "in_rng (b + c) 8 x"
  note D = heap_okD [OF ok]
  have u: "unat (alloc_size m a + 9) = unat (alloc_size m a) + 9"
    using D(6) [OF a] by (subst unat_add_lt) (simp_all add: UINT_MAX_def word_less_nat_alt)
  note v = unat_size57 [OF D(6) [OF a]] size_bound [OF D(6) [OF a]]
  show "m' x = m x"
  proof (cases "b = a")
    case True
    have "unat (x - a) < 48" using x c True by (subst (asm) in_rng_offset) simp_all
    then show ?thesis using u v by (intro w) (simp add: in_rng_offset [of 48 "alloc_size m a + 9" a])
  next
    case False
    have "disj_rng b (node_ext m i b) a (alloc_size m a + 57)"
      using nodes_apartD [OF D(5) b _ False] a D(3) by (auto simp: node_ext_def split: if_splits)
    moreover have "in_rng b (node_ext m i b) x"
      using in_rng_sub [OF x, of "node_ext m i b"] node_ext_ge [of b i m] b c D(6) by auto
    ultimately have "\<not> in_rng a (alloc_size m a + 57) x" by (rule disj_rngD)
    then show ?thesis
      using in_rng_sub [of a 48 "alloc_size m a + 9" x "alloc_size m a + 57"] u v by (intro w) auto
  qed
qed

text \<open>
  C4: Freeing an active pointer never fails. In any state of any run, freeing the pointer of an
  active block returns, leaves the run with exactly that block less, and changes no byte of any
  other active block.
\<close>

theorem m61_free_active:
  assumes "m61_run m0 rs i s P F" and "x \<in> set P"
  shows "\<exists>s'. m61_free base_free s (lk_ptr x) = Some (Inr s')
     \<and> m61_run m0 rs i s' (remove1 x P) (insert (lk_ptr x) F)
     \<and> (\<forall>y \<in> set P. y \<noteq> x \<longrightarrow> (\<forall>a. in_rng (lk_ptr y) (lk_size y) a \<longrightarrow> heap_mem s' a = heap_mem s a))"
proof -
  obtain L where inv: "run_inv i s L P F" using run_inv_reach [OF assms(1)] ..
  from inv assms(2) obtain a where a: "a \<in> set L" "x = leak_of (heap_mem s) a" "lk_ptr x = a + 48"
    by (rule run_active)
  from run_inv_free [OF inv a(1)] obtain s' where s': "m61_free base_free s (lk_ptr x) = Some (Inr s')"
    "heap_mem s' = freed_mem (heap_mem s) a" unfolding a(3) by metis
  note ok = run_invD(5) [OF inv]
  have "heap_mem s' z = heap_mem s z" if y: "y \<in> set P" "y \<noteq> x" "in_rng (lk_ptr y) (lk_size y) z" for y z
  proof -
    from inv y(1) obtain b where "b \<in> set L" "y = leak_of (heap_mem s) b" by (rule run_active)
    with y a s'(2) show ?thesis
      using freed_mem_payload [OF ok active_pointer(7) [OF ok a(1)] a(1), of b z] by auto
  qed
  with s'(1) m61_run.free [OF assms s'(1)] show ?thesis by blast
qed

text \<open>
  C6: Allocation. When the base allocator has a block for a request below \<open>UINT_MAX\<close>, \<open>m61_malloc\<close>
  returns a 16-byte aligned pointer; no byte of the new payload is a byte of an active block, and
  no byte of an active block changes.
\<close>

theorem m61_malloc_fresh:
  assumes run: "m61_run m0 rs i s P F" and sz: "sz < UINT_MAX" and cnt: "unat (malloc_counter s) + 1 < 2 ^ 64"
    and bm: "base_malloc (base s) (sz + 57) = (h, b')" "h \<noteq> 0"
  shows "\<exists>s'. m61_malloc base_malloc s sz fl ln = Inr (h + 48, s') \<and> (h + 48) mod 16 = 0
     \<and> m61_run m0 rs i s' (leak_rec fl ln (h + 48) sz # P) (spared F (h + 48) sz)
     \<and> (\<forall>y \<in> set P. lk_ptr y \<noteq> h + 48 \<and> (\<forall>a. in_rng (lk_ptr y) (lk_size y) a \<longrightarrow>
           \<not> in_rng (h + 48) sz a \<and> heap_mem s' a = heap_mem s a))"
proof -
  obtain L where inv: "run_inv i s L P F" using run_inv_reach [OF run] ..
  from ba.m61_malloc_ok [OF run_invD(1) [OF inv] sz cnt bm, of fl ln]
  obtain s' where res: "m61_malloc base_malloc s sz fl ln = Inr (h + 48, s')" by metis
  have nz: "h + 48 \<noteq> 0"
  proof -
    have "unat (h + 48) = unat h + 48"
      using ba.malloc_nowrap [OF run_invD(7) [OF inv] bm] unat_size57 [OF sz] by (subst unat_add_lt) simp_all
    then show ?thesis by auto
  qed
  note M = run_inv_malloc [OF inv cnt res nz, simplified]
  note ok = M(2) and D = heap_okD [OF M(2)]
  have "lk_ptr y \<noteq> h + 48 \<and> (\<forall>a. in_rng (lk_ptr y) (lk_size y) a \<longrightarrow>
           \<not> in_rng (h + 48) sz a \<and> heap_mem s' a = heap_mem s a)" if y: "y \<in> set P" for y
  proof -
    from inv y obtain b where b: "b \<in> set L" "y = leak_of (heap_mem s) b" by (rule run_active)
    have same: "y = leak_of (heap_mem s') b"
      using run_invD(3) [OF M(1)] run_invD(3) [OF inv] b by simp
    have ne: "b \<noteq> h" using D(2) b(1) by auto
    show ?thesis
    proof (intro conjI allI impI)
      show "lk_ptr y \<noteq> h + 48" using b(2) ne by simp
      fix a assume a: "in_rng (lk_ptr y) (lk_size y) a"
      show "heap_mem s' a = heap_mem s a" using M(5) [OF b(1)] a b(2) by simp
      show "\<not> in_rng (h + 48) sz a"
        using payload_unique [OF ok, of b h a] b(1) ne a same M(3) by auto
    qed
  qed
  then show ?thesis
    using res active_pointer(4) [OF ok] m61_run.malloc [OF run cnt res nz] by (intro exI [of _ s']) simp
qed

text \<open>
  C10: \<open>m61_calloc\<close> returns a zeroed block: a block of the wrapped product \<open>nmemb * sz\<close>, every byte
  of it zero, and no byte of any active block changed.
\<close>

theorem m61_calloc_zero:
  assumes run: "m61_run m0 rs i s P F" and cnt: "unat (malloc_counter s) + 1 < 2 ^ 64"
    and res: "m61_calloc base_malloc s n sz fl ln = Inr (p, s')" "p \<noteq> 0"
  shows "(\<forall>a. in_rng p (n * sz) a \<longrightarrow> heap_mem s' a = 0)
     \<and> m61_print_leak_report s' = Some (leak_rec fl ln p (n * sz) # P)
     \<and> (\<forall>y \<in> set P. \<forall>a. in_rng (lk_ptr y) (lk_size y) a \<longrightarrow> heap_mem s' a = heap_mem s a)"
proof -
  obtain L where inv: "run_inv i s L P F" using run_inv_reach [OF run] ..
  note C = run_inv_calloc [OF inv cnt res] and R = run_invD [OF run_inv_calloc(1) [OF inv cnt res]]
  note D = heap_okD [OF R(5)]
  have "node_chain (heap_mem s') i ((p - 48) # L) i" by (rule active_pointer(7) [OF R(5), of "p - 48"]) simp
  then have "prev_walk (heap_mem s') i (prev_ptr (heap_mem s') i) = Some ((p - 48) # L)"
  proof (rule prev_walk_chain)
    show "0 \<notin> set ((p - 48) # L)" using D(7) by blast
  qed (rule D(3))
  then have "m61_print_leak_report s' = Some (leak_rec fl ln p (n * sz) # P)"
    using R(2,3) by (simp add: m61_print_leak_report_def)
  moreover have "heap_mem s' a = heap_mem s a" if "y \<in> set P" "in_rng (lk_ptr y) (lk_size y) a" for y a
  proof -
    from inv that(1) obtain b where "b \<in> set L" "y = leak_of (heap_mem s) b" by (rule run_active)
    then show ?thesis using C(2) [of b a] that(2) by simp
  qed
  ultimately show ?thesis using C(3) by blast
qed

text \<open>
  C8: The leak report lists exactly the active blocks, each with the location, pointer and size of
  its allocation, the most recent first. In particular the walk along the list ends.
\<close>

theorem m61_leak_report_exact:
  assumes "m61_run m0 rs i s P F"
  shows "m61_print_leak_report s = Some P"
proof -
  obtain L where inv: "run_inv i s L P F" using run_inv_reach [OF assms] ..
  note R = run_invD [OF inv] and D = heap_okD [OF run_invD(5) [OF inv]]
  have "prev_walk (heap_mem s) i (prev_ptr (heap_mem s) i) = Some L"
  proof (cases "node_chain (heap_mem s) i L i")
    case True
    then show ?thesis using D(3,7) by (intro prev_walk_chain) auto
  next
    case False
    then have "L = []" "prev_ptr (heap_mem s) i = 0" using R(5) by (auto simp: heap_ok_def)
    then show ?thesis by (simp add: prev_walk.simps)
  qed
  then show ?thesis using R(2,3) by (simp add: m61_print_leak_report_def)
qed

text \<open>
  C16: The statistics count the active blocks: \<open>nactive\<close> is their number and \<open>active_size\<close> the sum
  of their sizes (both as 64-bit numbers), and every active block lies between \<open>heap_min\<close> and
  \<open>heap_max\<close>.
\<close>

theorem m61_statistics_exact:
  assumes "m61_run m0 rs i s P F"
  shows "nactive (m61_get_statistics s) = of_nat (length P)
     \<and> active_size (m61_get_statistics s) = sum_list (map lk_size P)
     \<and> (\<forall>x \<in> set P. heap_min (m61_get_statistics s) \<le> lk_ptr x
           \<and> lk_ptr x + lk_size x \<le> heap_max (m61_get_statistics s))"
proof -
  obtain L where inv: "run_inv i s L P F" using run_inv_reach [OF assms] ..
  note R = run_invD [OF inv]
  have "map lk_size P = map (alloc_size (heap_mem s)) L" using R(3) by simp
  then have "sum_list (map lk_size P) = active_size_acc s" using R(6) by (simp add: stats_ok_def)
  moreover have "heap_min_track s \<le> lk_ptr x \<and> lk_ptr x + lk_size x \<le> heap_max_track s" if "x \<in> set P" for x
  proof -
    from inv that obtain a where a: "a \<in> set L" "x = leak_of (heap_mem s) a" by (rule run_active)
    from block_okD(8,9) [OF heap_okD(4) [OF R(5) a(1)]] a(2) show ?thesis by simp
  qed
  ultimately show ?thesis using R(3,6) by (simp add: m61_get_statistics_def stats_ok_def)
qed

text \<open>
  C12: A double free is reported as one, however many allocations, frees and writes came in between,
  as long as no later block has taken the freed header's memory.
\<close>

theorem m61_double_free_detected:
  assumes "m61_run m0 rs i s P F" and "q \<in> F"
  shows "m61_free base_free s q = Some (Inl (DoubleFree q))"
proof -
  obtain L where inv: "run_inv i s L P F" using run_inv_reach [OF assms(1)] ..
  have "retired (heap_mem s) (inter_ptr s) L (heap_min_track s) (heap_max_track s) q"
    using run_invD(2,4) [OF inv] assms(2) by simp
  then show ?thesis by (rule retired_double_free)
qed

text \<open>
  C14: A boundary write is reported. When the program has written past the payload of an active
  block, into the nine bytes behind it and so that they no longer hold the footer, freeing that
  block reports a wild write.
\<close>

theorem m61_wild_write_detected:
  assumes run: "m61_run m0 rs i s P F" and x: "x \<in> set P"
    and w: "\<And>a. \<not> in_rng (lk_ptr x) (lk_size x + 9) a \<Longrightarrow> m' a = heap_mem s a"
    and bad: "mem_read m' (lk_ptr x + lk_size x) 9 \<noteq> magic_footer"
  shows "m61_free base_free (s\<lparr>heap_mem := m'\<rparr>) (lk_ptr x) = Some (Inl (WildWrite (lk_ptr x)))"
proof -
  obtain L where inv: "run_inv i s L P F" using run_inv_reach [OF run] ..
  from inv x obtain a where a: "a \<in> set L" "lk_ptr x = a + 48" "lk_size x = alloc_size (heap_mem s) a"
    by (rule run_active)
  note ok = run_invD(5) [OF inv]
  note same = behind_header [OF ok a(1) _ _ w [unfolded a(2,3)]]
  have f: "ld64 m' (a + c) = ld64 (heap_mem s) (a + c)" if "unat c \<le> 40" for c
    using same that a(1) by simp
  have f0: "alloc_size m' a = alloc_size (heap_mem s) a" using f [of 0] by simp
  note P = active_pointer [OF ok a(1)] and E = freed_mem_eq(2,3) [OF ok active_pointer(7) [OF ok a(1)] a(1)]
  have n: "next_ptr m' (prev_ptr (heap_mem s) a) = a" "prev_ptr m' (next_ptr (heap_mem s) a) = a"
    using same [OF E(1), of 40] same [OF E(2), of 32] P(5,6) by simp_all
  have tag: "status_tag (heap_mem s) a = magic_header" "magic_header \<noteq> magic_free"
    using block_okD(6) [OF heap_okD(4) [OF ok a(1)]] by (simp_all add: magic_simps)
  show ?thesis
    using P(1-4) n tag bad a(2,3) by (simp add: m61_free_def header_sz Let_def f f0)
qed

text \<open>
  C18: Freeing a pointer into the middle of an active block is reported as not allocated, and the
  message names that block and no other, unless the 48 bytes before the pointer look like a header.
\<close>

theorem m61_interior_free_detected:
  assumes run: "m61_run m0 rs i s P F" and x: "x \<in> set P" and q: "in_rng (lk_ptr x) (lk_size x) q"
    and bad: "q mod 16 \<noteq> 0 \<or> status_tag (heap_mem s) (q - 48) \<notin> {magic_header, magic_free}"
  shows "m61_free base_free s q = Some (Inl (NotAllocated q [x]))"
proof -
  obtain L where inv: "run_inv i s L P F" using run_inv_reach [OF run] ..
  from inv x obtain a where a: "a \<in> set L" "x = leak_of (heap_mem s) a" "lk_ptr x = a + 48"
    "lk_size x = alloc_size (heap_mem s) a" by (rule run_active)
  let ?m = "heap_mem s"
  note R = run_invD [OF inv] and ok = run_invD(5) [OF inv] and D = heap_okD [OF run_invD(5) [OF inv]]
  note B = block_okD [OF D(4) [OF a(1)]]
  have c: "contains ?m q b \<longleftrightarrow> b = a" if b: "b \<in> set L" for b
    using payload_contains [OF D(4) [OF b]] payload_unique [OF ok a(1) b, of q] q a(3,4) by auto
  then have "a + 48 \<le> q" "q < a + 48 + alloc_size ?m a" using a(1) by (auto simp: contains_def header_sz)
  moreover have "a + 48 \<noteq> 0" by (rule active_pointer(1) [OF ok a(1)])
  ultimately have range: "q \<noteq> 0" "heap_min_track s \<le> q" "q \<le> heap_max_track s"
    using B(8,9) by auto
  have "prev_walk ?m i (prev_ptr ?m i) = Some L"
    using active_pointer(7) [OF ok a(1)] D(3,7) by (intro prev_walk_chain) auto
  moreover have "filter (contains ?m q) L = filter (\<lambda>b. b = a) L" using c by (intro filter_cong) auto
  moreover have "filter (\<lambda>b. b = a) L = [a]"
    using a(1) D(2) by (induction L) (auto simp: filter_empty_conv)
  ultimately show ?thesis
    using range bad R(2) a(2) by (auto simp: m61_free_def header_sz Let_def)
qed


section \<open>A concrete run\<close>

text \<open>One region of 64 kB at 4096, the static node at 64; one allocation of 8 bytes.\<close>

abbreviation ex_rs :: "(u64 \<times> u64) list" where "ex_rs \<equiv> [(4096, 65536)]"
abbreviation ex_start :: "base_alloc m61" where "ex_start \<equiv> m61_init (\<lambda>_. 0) (base_alloc_init ex_rs) 64"
abbreviation ex_leak :: leak where "ex_leak \<equiv> leak_rec 32 7 4144 8"

lemma ex_run_start: "m61_run (\<lambda>_. 0) ex_rs 64 ex_start [] {}"
proof (rule m61_run.start)
  show "base_inv (base_alloc_init ex_rs)" by (rule base_inv_init) (simp_all add: region_ok_def)
  show "base_avoids (base_alloc_init ex_rs) 64 48"
    by (simp add: base_avoids_def base_alloc_init_def disj_rng_def)
qed simp

lemma ex_base: "\<exists>b'. base_malloc (base ex_start) (8 + 57) = (4096, b')"
  by (rule base_malloc_first [where c = 65536 and rs = "[]"]) (simp_all add: m61_init_def base_alloc_init_def)

lemma ex_run_alloc:
  obtains s where "m61_malloc base_malloc ex_start 8 32 7 = Inr (4144, s)"
    and "m61_run (\<lambda>_. 0) ex_rs 64 s [ex_leak] {}"
proof -
  obtain b' where b: "base_malloc (base ex_start) (8 + 57) = (4096, b')" using ex_base by blast
  obtain L where inv: "run_inv 64 ex_start L [] {}" using run_inv_reach [OF ex_run_start] ..
  have "(8 :: u64) < UINT_MAX" "unat (malloc_counter ex_start) + 1 < 2 ^ 64" "(4096 :: u64) \<noteq> 0"
    by (simp_all add: UINT_MAX_def m61_init_def)
  from ba.m61_malloc_ok [OF run_invD(1) [OF inv] this(1,2) b this(3), of 32 7]
  obtain s where s: "m61_malloc base_malloc ex_start 8 32 7 = Inr (4144, s)" by auto
  have "m61_run (\<lambda>_. 0) ex_rs 64 s (leak_rec 32 7 4144 8 # []) (spared {} 4144 8)"
    by (rule m61_run.malloc [OF ex_run_start _ s]) (simp_all add: m61_init_def)
  with that s show thesis by (simp add: spared_def)
qed

lemma ex_run_free:
  obtains s where "m61_run (\<lambda>_. 0) ex_rs 64 s [] {4144}"
proof -
  obtain s where s: "m61_run (\<lambda>_. 0) ex_rs 64 s [ex_leak] {}" using ex_run_alloc by blast
  obtain L where inv: "run_inv 64 s L [ex_leak] {}" using run_inv_reach [OF s] ..
  obtain a where a: "a \<in> set L" "lk_ptr ex_leak = a + 48"
    using run_active [OF inv, of ex_leak] by (metis list.set_intros(1))
  from run_inv_free [OF inv a(1)] obtain s' where "m61_free base_free s (lk_ptr ex_leak) = Some (Inr s')"
    unfolding a(2) by metis
  from m61_run.free [OF s _ this] that show thesis by (simp add: leak_rec_def)
qed

theorem m61_free_active_witness:
  "\<exists>s s'. m61_run (\<lambda>_. 0) ex_rs 64 s [ex_leak] {} \<and> m61_free base_free s 4144 = Some (Inr s')"
proof -
  obtain s where s: "m61_run (\<lambda>_. 0) ex_rs 64 s [ex_leak] {}" using ex_run_alloc by blast
  from m61_free_active [OF s, of ex_leak] s show ?thesis by (auto simp: leak_rec_def)
qed

theorem m61_malloc_fresh_witness:
  "\<exists>s'. m61_malloc base_malloc ex_start 8 32 7 = Inr (4144, s') \<and> m61_run (\<lambda>_. 0) ex_rs 64 s' [ex_leak] {}"
proof -
  obtain b' where b: "base_malloc (base ex_start) (8 + 57) = (4096, b')" using ex_base by blast
  have h: "(8 :: u64) < UINT_MAX" "unat (malloc_counter ex_start) + 1 < 2 ^ 64" "(4096 :: u64) \<noteq> 0"
    by (simp_all add: UINT_MAX_def m61_init_def)
  from m61_malloc_fresh [OF ex_run_start h(1,2) b h(3), of 32 7] show ?thesis by (auto simp: spared_def)
qed

theorem m61_calloc_zero_witness:
  "\<exists>s'. m61_calloc base_malloc ex_start 2 4 32 7 = Inr (4144, s') \<and> heap_mem s' 4151 = 0
     \<and> m61_print_leak_report s' = Some [ex_leak]"
proof -
  obtain s1 where "m61_malloc base_malloc ex_start 8 32 7 = Inr (4144, s1)" using ex_run_alloc by blast
  then obtain s' where s': "m61_calloc base_malloc ex_start 2 4 32 7 = Inr (4144, s')"
    by (simp add: m61_calloc_def UINT_MAX_def)
  have "unat (malloc_counter ex_start) + 1 < 2 ^ 64" "(4144 :: u64) \<noteq> 0" by (simp_all add: m61_init_def)
  from m61_calloc_zero [OF ex_run_start this(1) s' this(2)] s' show ?thesis
    by (auto simp: in_rng_def)
qed

theorem m61_leak_report_exact_witness:
  "\<exists>s. m61_run (\<lambda>_. 0) ex_rs 64 s [ex_leak] {} \<and> m61_print_leak_report s = Some [ex_leak]"
proof -
  obtain s where s: "m61_run (\<lambda>_. 0) ex_rs 64 s [ex_leak] {}" using ex_run_alloc by blast
  from m61_leak_report_exact [OF s] s show ?thesis by blast
qed

theorem m61_statistics_exact_witness:
  "\<exists>s. m61_run (\<lambda>_. 0) ex_rs 64 s [ex_leak] {} \<and> nactive (m61_get_statistics s) = 1
     \<and> active_size (m61_get_statistics s) = 8"
proof -
  obtain s where s: "m61_run (\<lambda>_. 0) ex_rs 64 s [ex_leak] {}" using ex_run_alloc by blast
  from m61_statistics_exact [OF s] s show ?thesis by (auto simp: leak_rec_def)
qed

theorem m61_double_free_detected_witness:
  "\<exists>s. m61_run (\<lambda>_. 0) ex_rs 64 s [] {4144} \<and> m61_free base_free s 4144 = Some (Inl (DoubleFree 4144))"
proof -
  obtain s where s: "m61_run (\<lambda>_. 0) ex_rs 64 s [] {4144}" using ex_run_free by blast
  from m61_double_free_detected [OF s] s show ?thesis by blast
qed

theorem m61_wild_write_detected_witness:
  "\<exists>s. m61_run (\<lambda>_. 0) ex_rs 64 s [ex_leak] {}
     \<and> m61_free base_free (s\<lparr>heap_mem := (heap_mem s)(4152 := 0)\<rparr>) 4144 = Some (Inl (WildWrite 4144))"
proof -
  obtain s where s: "m61_run (\<lambda>_. 0) ex_rs 64 s [ex_leak] {}" using ex_run_alloc by blast
  let ?m = "(heap_mem s)(4152 := 0)"
  have "mem_read ?m 4152 9 ! 0 = 0" by (simp add: mem_read_def)
  then have "mem_read ?m (lk_ptr ex_leak + lk_size ex_leak) 9 \<noteq> magic_footer"
    by (auto simp: leak_rec_def magic_footer_def)
  moreover have "?m a = heap_mem s a" if "\<not> in_rng (lk_ptr ex_leak) (lk_size ex_leak + 9) a" for a
    using that by (auto simp: leak_rec_def in_rng_def)
  ultimately have "m61_free base_free (s\<lparr>heap_mem := ?m\<rparr>) (lk_ptr ex_leak) = Some (Inl (WildWrite (lk_ptr ex_leak)))"
    by (intro m61_wild_write_detected [OF s]) simp_all
  with s show ?thesis by (auto simp: leak_rec_def)
qed

theorem m61_interior_free_detected_witness:
  "\<exists>s. m61_run (\<lambda>_. 0) ex_rs 64 s [ex_leak] {}
     \<and> m61_free base_free s 4145 = Some (Inl (NotAllocated 4145 [ex_leak]))"
proof -
  obtain s where s: "m61_run (\<lambda>_. 0) ex_rs 64 s [ex_leak] {}" using ex_run_alloc by blast
  from m61_interior_free_detected [OF s, of ex_leak 4145] s show ?thesis
    by (auto simp: leak_rec_def in_rng_def)
qed

section \<open>Two gaps in the error handling\<close>

text \<open>
  The product in \<open>m61_calloc\<close> wraps: a request for \<open>2^31\<close> elements of \<open>2^33\<close> bytes is served with
  an empty block instead of being refused.
\<close>

lemma m61_calloc_product_wraps:
  "m61_calloc bm s (2 ^ 31) (2 ^ 33) fl ln
   = (case m61_malloc bm s 0 fl ln of Inl e \<Rightarrow> Inl e
      | Inr (p, s1) \<Rightarrow> Inr (p, if p \<noteq> 0 then s1\<lparr>heap_mem := mem_fill (heap_mem s1) p 0 0\<rparr> else s1))"
proof -
  have "(2 :: u64) ^ 31 * 2 ^ 33 = 0" by (simp only: power_add [symmetric]) simp
  moreover have "(2 :: u64) ^ 31 < UINT_MAX" by (simp add: UINT_MAX_def)
  ultimately show ?thesis by (simp only: m61_calloc_def if_True)
qed

text \<open>When the base allocator has no memory, the result is not tested before it is written to.\<close>

lemma m61_malloc_base_null:
  "sz < UINT_MAX \<Longrightarrow> bm (base s) (sz + 57) = (0, b') \<Longrightarrow> m61_malloc bm s sz fl ln = Inl NullWrite"
  by (simp add: m61_malloc_def header_sz Let_def)

end
