(* ===== verification/ShellParse.thy ===== *)
theory ShellParse
  imports Prelude
begin

text \<open>
  The parser of the shell of pset5 (\<open>helpers.cc\<close>: the tokenizer; \<open>sh61.cc\<close>: \<open>parse_line\<close> and the
  structures it builds). A C string is the list of its characters without the terminator. The
  linked lists \<open>next_cmd\<close>, \<open>next_pipeline\<close> and \<open>next_chain\<close> are lists; \<open>curr_cmd\<close>, \<open>curr_pipeline\<close>
  and \<open>curr_chain\<close> are always their last elements. A write outside \<open>redirs\<close> or a read
  behind the end of the line is the result \<open>None\<close>.
\<close>

section \<open>Tokens\<close>

datatype token_type = TYPE_NORMAL | TYPE_REDIRECTION | TYPE_SEQUENCE | TYPE_BACKGROUND | TYPE_PIPE
  | TYPE_AND | TYPE_OR | TYPE_LPAREN | TYPE_RPAREN | TYPE_OTHER

definition isspace :: "char \<Rightarrow> bool" where
  "isspace c \<longleftrightarrow> c = CHR '' '' \<or> c = CHR 0x09 \<or> c = CHR 0x0A \<or> c = CHR 0x0B \<or> c = CHR 0x0C \<or> c = CHR 0x0D"

definition isdigit :: "char \<Rightarrow> bool" where
  "isdigit c \<longleftrightarrow> c \<in> set ''0123456789''"

definition isshellspecial :: "char \<Rightarrow> bool" where
  "isshellspecial c \<longleftrightarrow> c = CHR ''<'' \<or> c = CHR ''>'' \<or> c = CHR ''&'' \<or> c = CHR ''|'' \<or> c = CHR '';''
     \<or> c = CHR ''('' \<or> c = CHR '')'' \<or> c = CHR ''#''"

abbreviation dquote :: char where "dquote \<equiv> CHR 0x22"
abbreviation squote :: char where "squote \<equiv> CHR 0x27"
abbreviation backslash :: char where "backslash \<equiv> CHR 0x5C"

text \<open>
  The loop that reads a normal word: \<open>q\<close> is the open quote, if any. It gives the characters added
  to the token and the rest of the string.
\<close>

fun normal_word :: "char option \<Rightarrow> string \<Rightarrow> string \<times> string" where
  "normal_word q [] = ([], [])"
| "normal_word q (c # cs) =
     (if q = None \<and> (isspace c \<or> isshellspecial c) then ([], c # cs)
      else if (c = dquote \<or> c = squote) \<and> q = None then normal_word (Some c) cs
      else if q = Some c then normal_word None cs
      else if c = backslash \<and> cs \<noteq> [] \<and> q \<noteq> Some squote then
        (let (w, r) = normal_word q (tl cs) in (hd cs # w, r))
      else (let (w, r) = normal_word q cs in (c # w, r)))"

declare normal_word.simps(2) [simp del]

definition special_type :: "char \<Rightarrow> token_type" where
  "special_type c = (if c = CHR '';'' then TYPE_SEQUENCE
     else if c = CHR ''&'' then TYPE_BACKGROUND
     else if c = CHR ''|'' then TYPE_PIPE
     else if c = CHR ''('' then TYPE_LPAREN
     else if c = CHR '')'' then TYPE_RPAREN
     else TYPE_OTHER)"

text \<open>
  The redirection operator after its digits: the operator's characters and the rest. After the
  digits of \<open>n>&m\<close> the pointer is advanced once more, over whatever character follows; when that
  is the terminator, the pointer has left the string (\<open>None\<close>).
\<close>

definition redirection :: "string \<Rightarrow> string \<times> string option" where
  "redirection s =
     (let c = hd s; cs = tl s in
      if cs \<noteq> [] \<and> hd cs = CHR ''>'' then ([c, hd cs], Some (tl cs))
      else if cs \<noteq> [] \<and> hd cs = CHR ''&'' \<and> tl cs \<noteq> [] \<and> isdigit (hd (tl cs)) then
        (c # hd cs # takeWhile isdigit (tl cs),
         (case dropWhile isdigit (tl cs) of [] \<Rightarrow> None | d # ds \<Rightarrow> Some ds))
      else ([c], Some cs))"

text \<open>
  The token after the spaces: \<open>ds\<close> are the leading digits and \<open>s\<close> what follows them.
\<close>

definition token_at :: "string \<Rightarrow> string \<Rightarrow> token_type \<times> string \<times> string option" where
  "token_at ds s =
     (if s \<noteq> [] \<and> (hd s = CHR ''<'' \<or> hd s = CHR ''>'') then
        (let (w, r) = redirection s in (TYPE_REDIRECTION, ds @ w, r))
      else if ds = [] \<and> s \<noteq> [] \<and> (hd s = CHR ''&'' \<or> hd s = CHR ''|'') \<and> tl s \<noteq> [] \<and> hd (tl s) = hd s then
        (if hd s = CHR ''&'' then TYPE_AND else TYPE_OR, [hd s, hd (tl s)], Some (tl (tl s)))
      else if ds = [] \<and> s \<noteq> [] \<and> isshellspecial (hd s) then (special_type (hd s), [hd s], Some (tl s))
      else (let (w, r) = normal_word None s in (TYPE_NORMAL, ds @ w, Some r)))"

text \<open>The end of the line is \<open>None\<close>: the returned pointer is null.\<close>

definition parse_shell_token :: "string \<Rightarrow> (token_type \<times> string \<times> string option) option" where
  "parse_shell_token str =
     (let s = dropWhile isspace str
      in if s = [] \<or> hd s = CHR ''#'' then None
         else Some (token_at (takeWhile isdigit s) (dropWhile isdigit s)))"

text \<open>Every token takes at least one character off the string.\<close>

lemma normal_word_length: "normal_word q s = (w, r) \<Longrightarrow> length r \<le> length s"
proof -
  have "length (snd (normal_word q s)) \<le> length s" for q
  proof (induction s arbitrary: q rule: length_induct)
    case (1 s)
    show ?case
    proof (cases s)
      case (Cons c cs)
      then have IH: "length (snd (normal_word p t)) \<le> length t" if "length t \<le> length cs" for t p
        using 1 that by simp
      have t: "length (snd (normal_word q (tl cs))) \<le> length cs"
        using IH [of "tl cs" q] by (simp add: le_diff_conv)
      show ?thesis
        using IH [of cs "Some c"] IH [of cs None] IH [of cs q] t
        by (simp add: Cons normal_word.simps(2) [of q c cs] Let_def split_beta le_SucI)
    qed simp
  qed
  then show "normal_word q s = (w, r) \<Longrightarrow> length r \<le> length s" by (metis snd_conv)
qed

lemma normal_word_progress:
  assumes "normal_word None (c # cs) = (w, r)" and "\<not> isspace c" and "\<not> isshellspecial c"
  shows "length r \<le> length cs"
proof -
  have IH: "length (snd (normal_word p t)) \<le> length t" for p t
    using normal_word_length by (metis prod.collapse)
  have "length (snd (normal_word None (tl cs))) \<le> length cs"
    using IH [of None "tl cs"] by (simp add: le_diff_conv)
  then have "length (snd (normal_word None (c # cs))) \<le> length cs"
    using IH [of "Some c" cs] IH [of None cs] assms(2,3)
    by (simp add: normal_word.simps(2) [of None c cs] Let_def split_beta)
  with assms(1) show ?thesis by simp
qed

lemma redirection_length:
  assumes "redirection s = (w, Some r)" and "s \<noteq> []"
  shows "length r < length s"
proof -
  obtain c cs where s: "s = c # cs" using assms(2) by (cases s) auto
  have "length ds \<le> length cs" if "dropWhile isdigit (tl cs) = d # ds" for d ds
    using length_dropWhile_le [of isdigit "tl cs"] that by simp
  then show ?thesis using assms(1) s
    by (auto simp: redirection_def Let_def less_Suc_eq_le split: if_splits list.splits)
qed

lemma token_at_length:
  assumes "token_at ds s = (ty, tok, Some r)"
  shows "length r \<le> length s" and "ds = [] \<Longrightarrow> s \<noteq> [] \<Longrightarrow> \<not> isspace (hd s) \<Longrightarrow> length r < length s"
proof -
  have w: "length r \<le> length s" if "normal_word None s = (w, r)" for w
    using that by (rule normal_word_length)
  have p: "length r < length s"
    if "normal_word None s = (w, r)" "s \<noteq> []" "\<not> isspace (hd s)" "\<not> isshellspecial (hd s)" for w
    using normal_word_progress [of "hd s" "tl s" w r] that by (cases s) (auto simp: less_Suc_eq_le)
  have d: "length r < length s" if "redirection s = (w, Some r)" "s \<noteq> []" for w
    using that by (rule redirection_length)
  show "length r \<le> length s" using assms w d
    by (fastforce simp: token_at_def split: if_splits prod.splits)
  show "ds = [] \<Longrightarrow> s \<noteq> [] \<Longrightarrow> \<not> isspace (hd s) \<Longrightarrow> length r < length s" using assms p d
    by (cases s) (fastforce simp: token_at_def split: if_splits prod.splits)+
qed

lemma parse_shell_token_length:
  assumes "parse_shell_token str = Some (ty, tok, Some r)"
  shows "length r < length str"
proof -
  define s where "s = dropWhile isspace str"
  have ne: "s \<noteq> []" and le: "length s \<le> length str" and tok: "token_at (takeWhile isdigit s) (dropWhile isdigit s) = (ty, tok, Some r)"
    using assms length_dropWhile_le [of isspace str]
    by (auto simp: parse_shell_token_def Let_def s_def split: if_splits)
  show ?thesis
  proof (cases "takeWhile isdigit s = []")
    case True
    then have "dropWhile isdigit s = s" using takeWhile_dropWhile_id [of isdigit s] by simp
    moreover have "\<not> isspace (hd s)" using ne hd_dropWhile unfolding s_def by blast
    ultimately show ?thesis using token_at_length(2) [OF tok True] ne le by simp
  next
    case False
    have "length (takeWhile isdigit s) + length (dropWhile isdigit s) = length s"
      by (metis length_append takeWhile_dropWhile_id)
    moreover have "length (takeWhile isdigit s) > 0" using False by blast
    ultimately show ?thesis using token_at_length(1) [OF tok] le by linarith
  qed
qed

section \<open>The command structures\<close>

record command =
  args :: "string list"
  redirs :: "string list"
  cmd_pid :: int

definition new_command :: command where
  "new_command = \<lparr>args = [], redirs = ['''', '''', ''''], cmd_pid = -1\<rparr>"

record pipeline =
  commands :: "command list"
  is_or :: bool
  is_and :: bool

definition new_pipeline_struct :: pipeline where
  "new_pipeline_struct = \<lparr>commands = [new_command], is_or = False, is_and = False\<rparr>"

record chain =
  pipelines :: "pipeline list"
  is_background :: bool

definition new_chain_struct :: chain where
  "new_chain_struct = \<lparr>pipelines = [new_pipeline_struct], is_background = False\<rparr>"

section \<open>\<open>parse_line\<close>\<close>

record parse_state =
  ps_chains :: "chain list"
  new_chain :: bool
  new_pipeline :: bool
  next_file :: bool
  redir :: int

definition parse_init :: parse_state where
  "parse_init = \<lparr>ps_chains = [], new_chain = False, new_pipeline = False, next_file = False, redir = -1\<rparr>"

text \<open>An update of the last element of a list: the current chain, pipeline or command.\<close>

fun upd_last :: "('a \<Rightarrow> 'a) \<Rightarrow> 'a list \<Rightarrow> 'a list" where
  "upd_last f [] = []"
| "upd_last f [x] = [f x]"
| "upd_last f (x # y # xs) = x # upd_last f (y # xs)"

lemma upd_last_append [simp]: "upd_last f (xs @ [x]) = xs @ [f x]"
proof (induction xs)
  case (Cons a xs)
  then show ?case by (cases xs) simp_all
qed simp

abbreviation upd_chain :: "(chain \<Rightarrow> chain) \<Rightarrow> parse_state \<Rightarrow> parse_state" where
  "upd_chain f st \<equiv> st\<lparr>ps_chains := upd_last f (ps_chains st)\<rparr>"

abbreviation upd_pipeline :: "(pipeline \<Rightarrow> pipeline) \<Rightarrow> parse_state \<Rightarrow> parse_state" where
  "upd_pipeline f st \<equiv> upd_chain (\<lambda>c. c\<lparr>pipelines := upd_last f (pipelines c)\<rparr>) st"

abbreviation upd_command :: "(command \<Rightarrow> command) \<Rightarrow> parse_state \<Rightarrow> parse_state" where
  "upd_command f st \<equiv> upd_pipeline (\<lambda>p. p\<lparr>commands := upd_last f (commands p)\<rparr>) st"

text \<open>The structures that are created when a token arrives, before the token is looked at.\<close>

definition open_structs :: "parse_state \<Rightarrow> parse_state" where
  "open_structs st =
     (let st1 = (if ps_chains st = [] then st\<lparr>ps_chains := [new_chain_struct]\<rparr> else st);
          st2 = (if new_chain st1 then st1\<lparr>ps_chains := ps_chains st1 @ [new_chain_struct], new_chain := False\<rparr> else st1)
      in if new_pipeline st2 then
           upd_chain (\<lambda>c. c\<lparr>pipelines := pipelines c @ [new_pipeline_struct]\<rparr>) (st2\<lparr>new_pipeline := False\<rparr>)
         else st2)"

definition redir_index :: "string \<Rightarrow> int \<Rightarrow> int" where
  "redir_index tok r = (if tok = ''>'' then 1 else if tok = ''<'' then 0 else if tok = ''2>'' then 2 else r)"

definition handle_token :: "token_type \<Rightarrow> string \<Rightarrow> parse_state \<Rightarrow> parse_state option" where
  "handle_token ty tok st =
     (case ty of
        TYPE_NORMAL \<Rightarrow>
          if next_file st then
            if redir st = -1 then None
            else Some ((upd_command (\<lambda>c. c\<lparr>redirs := (redirs c)[nat (redir st) := tok]\<rparr>) st)\<lparr>next_file := False\<rparr>)
          else Some (upd_command (\<lambda>c. c\<lparr>args := args c @ [tok]\<rparr>) st)
      | TYPE_SEQUENCE \<Rightarrow> Some ((upd_chain (\<lambda>c. c\<lparr>is_background := False\<rparr>) st)\<lparr>new_chain := True\<rparr>)
      | TYPE_BACKGROUND \<Rightarrow> Some ((upd_chain (\<lambda>c. c\<lparr>is_background := True\<rparr>) st)\<lparr>new_chain := True\<rparr>)
      | TYPE_OR \<Rightarrow> Some ((upd_pipeline (\<lambda>p. p\<lparr>is_or := True\<rparr>) st)\<lparr>new_pipeline := True\<rparr>)
      | TYPE_AND \<Rightarrow> Some ((upd_pipeline (\<lambda>p. p\<lparr>is_and := True\<rparr>) st)\<lparr>new_pipeline := True\<rparr>)
      | TYPE_PIPE \<Rightarrow> Some (upd_pipeline (\<lambda>p. p\<lparr>commands := commands p @ [new_command]\<rparr>) st)
      | TYPE_REDIRECTION \<Rightarrow> Some (st\<lparr>redir := redir_index tok (redir st), next_file := True\<rparr>)
      | _ \<Rightarrow> Some (upd_command (\<lambda>c. c\<lparr>args := args c @ [tok]\<rparr>) st))"

definition token_step :: "token_type \<times> string \<Rightarrow> parse_state \<Rightarrow> parse_state option" where
  "token_step t st = handle_token (fst t) (snd t) (open_structs st)"

function parse_loop :: "string \<Rightarrow> parse_state \<Rightarrow> chain list option" where
  "parse_loop s st =
     (case parse_shell_token s of
        None \<Rightarrow> Some (ps_chains st)
      | Some (ty, tok, r) \<Rightarrow>
          (case token_step (ty, tok) st of None \<Rightarrow> None
           | Some st' \<Rightarrow> (case r of None \<Rightarrow> None | Some r' \<Rightarrow> parse_loop r' st')))"
  by pat_completeness auto
termination
  by (relation "measure (\<lambda>(s, st). length s)") (auto dest: parse_shell_token_length)

declare parse_loop.simps [simp del]

text \<open>The empty list is the null pointer, the result for a line without tokens.\<close>

definition parse_line :: "string \<Rightarrow> chain list option" where
  "parse_line s = parse_loop s parse_init"

end
