(* ===== verification/ShellPrint.thy ===== *)
theory ShellPrint
  imports ShellParse
begin

text \<open>
  The parser of the shell against its grammar: a printer for the command structures, and the proof
  that \<open>parse_line\<close> reads every printed structure back. Words are printed in double quotes, so they
  may hold any characters.
\<close>

section \<open>Printing\<close>

definition escape :: "char \<Rightarrow> string" where
  "escape c = (if c = dquote \<or> c = backslash then [backslash, c] else [c])"

definition print_word :: "string \<Rightarrow> string" where
  "print_word w = dquote # concat (map escape w) @ [dquote]"

definition print_token :: "token_type \<times> string \<Rightarrow> string" where
  "print_token t = (if fst t = TYPE_NORMAL then print_word (snd t) else snd t)"

definition print_tokens :: "(token_type \<times> string) list \<Rightarrow> string" where
  "print_tokens ts = concat (map (\<lambda>t. print_token t @ '' '') ts)"

definition redir_ops :: "string list" where
  "redir_ops = [''<'', ''>'', ''2>'']"

definition redir_tokens :: "string \<times> string \<Rightarrow> (token_type \<times> string) list" where
  "redir_tokens x = (if snd x = [] then [] else [(TYPE_REDIRECTION, fst x), (TYPE_NORMAL, snd x)])"

definition command_tokens :: "command \<Rightarrow> (token_type \<times> string) list" where
  "command_tokens c = map (Pair TYPE_NORMAL) (args c) @ concat (map redir_tokens (zip redir_ops (redirs c)))"

fun pipeline_tokens :: "command list \<Rightarrow> (token_type \<times> string) list" where
  "pipeline_tokens [] = []"
| "pipeline_tokens [c] = command_tokens c"
| "pipeline_tokens (c # d # cs) = command_tokens c @ (TYPE_PIPE, ''|'') # pipeline_tokens (d # cs)"

fun condition_tokens :: "pipeline list \<Rightarrow> (token_type \<times> string) list" where
  "condition_tokens [] = []"
| "condition_tokens [p] = pipeline_tokens (commands p)"
| "condition_tokens (p # q # ps) = pipeline_tokens (commands p)
     @ (if is_and p then (TYPE_AND, ''&&'') else (TYPE_OR, ''||'')) # condition_tokens (q # ps)"

definition chain_tokens :: "chain \<Rightarrow> (token_type \<times> string) list" where
  "chain_tokens c = condition_tokens (pipelines c)
     @ [if is_background c then (TYPE_BACKGROUND, ''&'') else (TYPE_SEQUENCE, '';'')]"

definition print_line :: "chain list \<Rightarrow> string" where
  "print_line cs = print_tokens (concat (map chain_tokens cs))"

text \<open>The structures the grammar has: exactly one connective on every pipeline but the last.\<close>

definition command_ok :: "command \<Rightarrow> bool" where
  "command_ok c \<longleftrightarrow> length (redirs c) = 3 \<and> cmd_pid c = -1"

fun pipelines_ok :: "pipeline list \<Rightarrow> bool" where
  "pipelines_ok [] \<longleftrightarrow> False"
| "pipelines_ok [p] \<longleftrightarrow> commands p \<noteq> [] \<and> list_all command_ok (commands p) \<and> \<not> is_or p \<and> \<not> is_and p"
| "pipelines_ok (p # q # ps) \<longleftrightarrow> commands p \<noteq> [] \<and> list_all command_ok (commands p)
     \<and> is_or p = (\<not> is_and p) \<and> pipelines_ok (q # ps)"

section \<open>Reading a printed token\<close>

text \<open>The tokens that the printer makes.\<close>

definition printable :: "token_type \<times> string \<Rightarrow> bool" where
  "printable t \<longleftrightarrow> fst t = TYPE_NORMAL \<or> t \<in> {(TYPE_PIPE, ''|''), (TYPE_AND, ''&&''), (TYPE_OR, ''||''),
     (TYPE_BACKGROUND, ''&''), (TYPE_SEQUENCE, '';''), (TYPE_REDIRECTION, ''<''), (TYPE_REDIRECTION, ''>''),
     (TYPE_REDIRECTION, ''2>'')}"

lemma normal_word_quoted:
  "normal_word (Some dquote) (concat (map escape w) @ dquote # r)
     = (let (v, r') = normal_word None r in (w @ v, r'))"
proof (induction w)
  case Nil
  then show ?case by (simp add: normal_word.simps(2) [of "Some dquote"] split: prod.splits)
next
  case (Cons c w)
  then show ?case
    by (cases "c = dquote \<or> c = backslash")
      (auto simp: escape_def normal_word.simps(2) [of "Some dquote"] split: prod.splits)
qed

lemma normal_word_print:
  "normal_word None (print_word w @ CHR '' '' # r) = (w, CHR '' '' # r)"
proof -
  have "normal_word None (print_word w @ CHR '' '' # r)
      = normal_word (Some dquote) (concat (map escape w) @ dquote # CHR '' '' # r)"
    by (simp add: print_word_def normal_word.simps(2) [of None dquote] isspace_def isshellspecial_def)
  then show ?thesis
    by (simp add: normal_word_quoted normal_word.simps(2) [of None "CHR '' ''"] isspace_def)
qed

lemma parse_printed_token:
  assumes "printable t"
  shows "parse_shell_token (print_token t @ CHR '' '' # r) = Some (fst t, snd t, Some (CHR '' '' # r))"
proof (cases "fst t = TYPE_NORMAL")
  case True
  then have p: "print_token t = print_word (snd t)" by (simp add: print_token_def)
  obtain x where x: "print_word (snd t) @ CHR '' '' # r = dquote # x" by (simp add: print_word_def)
  have "token_at [] (dquote # x) = (TYPE_NORMAL, snd t, Some (CHR '' '' # r))"
    unfolding x [symmetric] token_at_def normal_word_print
    by (simp add: print_word_def isshellspecial_def)
  then show ?thesis
    by (simp add: p x parse_shell_token_def isspace_def isdigit_def True)
next
  case False
  with assms show ?thesis
    by (auto simp: printable_def print_token_def parse_shell_token_def token_at_def redirection_def
        special_type_def isshellspecial_def isspace_def isdigit_def)
qed

lemma parse_skip_space: "parse_loop (CHR '' '' # s) st = parse_loop s st"
  by (simp add: parse_loop.simps [of "CHR '' '' # s"] parse_loop.simps [of s] parse_shell_token_def isspace_def)

fun token_steps :: "(token_type \<times> string) list \<Rightarrow> parse_state \<Rightarrow> parse_state option" where
  "token_steps [] st = Some st"
| "token_steps (t # ts) st = Option.bind (token_step t st) (token_steps ts)"

lemma token_steps_append:
  "token_steps (ts @ us) st = Option.bind (token_steps ts st) (token_steps us)"
proof (induction ts arbitrary: st)
  case (Cons t ts)
  then show ?case by (cases "token_step t st") simp_all
qed simp

lemma parse_loop_tokens:
  "list_all printable ts \<Longrightarrow> parse_loop (print_tokens ts) st = map_option ps_chains (token_steps ts st)"
proof (induction ts arbitrary: st)
  case Nil
  then show ?case by (simp add: print_tokens_def parse_loop.simps [of "[]"] parse_shell_token_def)
next
  case (Cons t ts)
  have "print_tokens (t # ts) = print_token t @ CHR '' '' # print_tokens ts"
    by (simp add: print_tokens_def)
  then show ?case using Cons parse_printed_token [of t "print_tokens ts"]
    by (simp add: parse_loop.simps [of "print_token t @ CHR '' '' # print_tokens ts"] parse_skip_space
        split: option.splits)
qed

section \<open>The states of the parser between tokens\<close>

text \<open>
  Inside a command: the chains and pipelines that are complete, the commands of the current
  pipeline, and the last redirection. Before a new chain or pipeline the structures do not exist
  yet; \<open>open_structs\<close> makes them.
\<close>

definition mid :: "chain list \<Rightarrow> pipeline list \<Rightarrow> command list \<Rightarrow> int \<Rightarrow> parse_state" where
  "mid D P cs r = \<lparr>ps_chains = D @ [\<lparr>pipelines = P @ [\<lparr>commands = cs, is_or = False, is_and = False\<rparr>],
       is_background = False\<rparr>], new_chain = False, new_pipeline = False, next_file = False, redir = r\<rparr>"

lemma open_mid [simp]: "open_structs (mid D P cs r) = mid D P cs r"
  by (simp add: open_structs_def mid_def)

text \<open>Only the opened state matters when there is a next token.\<close>

lemma token_steps_open:
  "ts \<noteq> [] \<Longrightarrow> open_structs st = open_structs st' \<Longrightarrow> token_steps ts st = token_steps ts st'"
  by (cases ts) (simp_all add: token_step_def)

lemma steps_args:
  "token_steps (map (Pair TYPE_NORMAL) as) (mid D P (cs @ [c]) r) = Some (mid D P (cs @ [c\<lparr>args := args c @ as\<rparr>]) r)"
proof (induction as arbitrary: c)
  case (Cons a as)
  have "token_step (TYPE_NORMAL, a) (mid D P (cs @ [c]) r) = Some (mid D P (cs @ [c\<lparr>args := args c @ [a]\<rparr>]) r)"
    by (simp add: token_step_def handle_token_def) (simp add: mid_def)
  with Cons show ?case by simp
qed simp

lemma steps_redir:
  assumes "(i, op) \<in> {(0, ''<''), (1, ''>''), (2, ''2>'')}" and "redirs c ! i = []" and "length (redirs c) = 3"
  shows "\<exists>r'. token_steps (redir_tokens (op, f)) (mid D P (cs @ [c]) r)
     = Some (mid D P (cs @ [c\<lparr>redirs := (redirs c)[i := f]\<rparr>]) r')"
proof (cases "f = []")
  case True
  have "(redirs c)[i := f] = redirs c" using assms(2) True by (metis list_update_id)
  with True show ?thesis by (auto simp: redir_tokens_def)
next
  case False
  have "redir_index op r = int i" using assms(1) by (auto simp: redir_index_def)
  with False show ?thesis
    by (intro exI [of _ "int i"]) (simp add: redir_tokens_def token_step_def handle_token_def, simp add: mid_def open_structs_def)
qed

lemma steps_command:
  assumes "command_ok c"
  shows "\<exists>r'. token_steps (command_tokens c) (mid D P (cs @ [new_command]) r) = Some (mid D P (cs @ [c]) r')"
proof -
  obtain f0 f1 f2 where f: "redirs c = [f0, f1, f2]"
    using assms by (auto simp: command_ok_def length_Suc_conv numeral_3_eq_3)
  let ?c0 = "new_command\<lparr>args := args c\<rparr>"
  let ?c1 = "?c0\<lparr>redirs := [f0, [], []]\<rparr>" and ?c2 = "?c0\<lparr>redirs := [f0, f1, []]\<rparr>"
  let ?c3 = "?c0\<lparr>redirs := [f0, f1, f2]\<rparr>"
  have c: "c = ?c3" using assms f by (simp add: new_command_def command_ok_def)
  have s0: "token_steps (map (Pair TYPE_NORMAL) (args c)) (mid D P (cs @ [new_command]) r) = Some (mid D P (cs @ [?c0]) r)"
    by (simp add: steps_args new_command_def)
  obtain r1 where s1: "token_steps (redir_tokens (''<'', f0)) (mid D P (cs @ [?c0]) r) = Some (mid D P (cs @ [?c1]) r1)"
    using steps_redir [of 0 "''<''" ?c0 f0 D P cs r] by (auto simp: new_command_def)
  obtain r2 where s2: "token_steps (redir_tokens (''>'', f1)) (mid D P (cs @ [?c1]) r1) = Some (mid D P (cs @ [?c2]) r2)"
    using steps_redir [of 1 "''>''" ?c1 f1 D P cs r1] by auto
  obtain r3 where s3: "token_steps (redir_tokens (''2>'', f2)) (mid D P (cs @ [?c2]) r2) = Some (mid D P (cs @ [?c3]) r3)"
    using steps_redir [of 2 "''2>''" ?c2 f2 D P cs r2] by (auto simp: numeral_2_eq_2)
  have "command_tokens c = map (Pair TYPE_NORMAL) (args c) @ redir_tokens (''<'', f0) @ redir_tokens (''>'', f1)
      @ redir_tokens (''2>'', f2)"
    by (simp add: command_tokens_def f redir_ops_def)
  then have "token_steps (command_tokens c) (mid D P (cs @ [new_command]) r) = Some (mid D P (cs @ [?c3]) r3)"
    by (simp add: token_steps_append s0 s1 s2 s3)
  then show ?thesis using c by auto
qed

lemma steps_pipeline:
  "cs \<noteq> [] \<Longrightarrow> list_all command_ok cs \<Longrightarrow>
   \<exists>r'. token_steps (pipeline_tokens cs) (mid D P (bs @ [new_command]) r) = Some (mid D P (bs @ cs) r')"
proof (induction cs arbitrary: bs r rule: pipeline_tokens.induct)
  case (2 c)
  then show ?case using steps_command [of c D P bs r] by simp
next
  case (3 c d cs)
  obtain r1 where 1: "token_steps (command_tokens c) (mid D P (bs @ [new_command]) r) = Some (mid D P (bs @ [c]) r1)"
    using steps_command [of c D P bs r] "3.prems" by auto
  have 2: "token_step (TYPE_PIPE, ''|'') (mid D P (bs @ [c]) r1) = Some (mid D P ((bs @ [c]) @ [new_command]) r1)"
    by (simp add: token_step_def handle_token_def) (simp add: mid_def)
  obtain r2 where "token_steps (pipeline_tokens (d # cs)) (mid D P ((bs @ [c]) @ [new_command]) r1)
      = Some (mid D P ((bs @ [c]) @ d # cs) r2)"
    using "3.IH" [of "bs @ [c]" r1] "3.prems" by auto
  then show ?case using 2 by (intro exI [of _ r2]) (simp add: token_steps_append 1)
qed simp

text \<open>Behind a connective, the next token opens a pipeline behind the marked one.\<close>

lemma step_connective:
  assumes "is_or p = (\<not> is_and p)"
  shows "\<exists>st. token_step (if is_and p then (TYPE_AND, ''&&'') else (TYPE_OR, ''||'')) (mid D P (commands p) r) = Some st
     \<and> open_structs st = mid D (P @ [p]) [new_command] r"
proof -
  obtain cs a b where p: "p = \<lparr>commands = cs, is_or = a, is_and = b\<rparr>" by (cases p)
  show ?thesis
    using assms by (cases b)
      (simp add: p token_step_def handle_token_def, simp add: mid_def open_structs_def new_pipeline_struct_def)+
qed

definition terminator :: "bool \<Rightarrow> token_type \<times> string" where
  "terminator bg = (if bg then (TYPE_BACKGROUND, ''&'') else (TYPE_SEQUENCE, '';''))"

lemma steps_conditions:
  "pipelines_ok ps \<Longrightarrow> \<exists>st. token_steps (condition_tokens ps @ [terminator bg]) (mid D P [new_command] r) = Some st
     \<and> ps_chains st = D @ [\<lparr>pipelines = P @ ps, is_background = bg\<rparr>] \<and> (\<exists>r'. open_structs st
       = mid (D @ [\<lparr>pipelines = P @ ps, is_background = bg\<rparr>]) [] [new_command] r')"
proof (induction ps arbitrary: P r rule: condition_tokens.induct)
  case (2 p)
  obtain r1 where 1: "token_steps (pipeline_tokens (commands p)) (mid D P ([] @ [new_command]) r)
      = Some (mid D P ([] @ commands p) r1)"
    using steps_pipeline [of "commands p" D P "[]" r] 2 by auto
  obtain cs where p: "p = \<lparr>commands = cs, is_or = False, is_and = False\<rparr>" using 2 by (cases p) auto
  let ?c = "\<lparr>pipelines = P @ [p], is_background = bg\<rparr>"
  have "\<exists>st. token_step (terminator bg) (mid D P (commands p) r1) = Some st
      \<and> ps_chains st = D @ [?c] \<and> open_structs st = mid (D @ [?c]) [] [new_command] r1"
    by (cases bg) (simp add: p token_step_def handle_token_def terminator_def, simp add: mid_def open_structs_def
        new_chain_struct_def new_pipeline_struct_def)+
  then show ?case using 1 by (auto simp: token_steps_append)
next
  case (3 p q ps)
  obtain r1 where 1: "token_steps (pipeline_tokens (commands p)) (mid D P ([] @ [new_command]) r)
      = Some (mid D P ([] @ commands p) r1)"
    using steps_pipeline [of "commands p" D P "[]" r] "3.prems" by auto
  let ?t = "if is_and p then (TYPE_AND, ''&&'') else (TYPE_OR, ''||'')"
  obtain st where 2: "token_step ?t (mid D P (commands p) r1) = Some st"
    "open_structs st = mid D (P @ [p]) [new_command] r1"
    using step_connective [of p D P r1] "3.prems" by auto
  have "token_steps (condition_tokens (p # q # ps) @ [terminator bg]) (mid D P [new_command] r)
      = token_steps (condition_tokens (q # ps) @ [terminator bg]) st"
    using 1 2(1) by (simp add: token_steps_append)
  also have "\<dots> = token_steps (condition_tokens (q # ps) @ [terminator bg]) (mid D (P @ [p]) [new_command] r1)"
    by (rule token_steps_open) (simp_all add: 2(2))
  finally show ?case using "3.IH" [of "P @ [p]" r1] "3.prems" by simp
qed simp

lemma steps_line:
  "\<forall>c \<in> set cs. pipelines_ok (pipelines c) \<Longrightarrow> cs \<noteq> [] \<Longrightarrow> open_structs st0 = mid D [] [new_command] r \<Longrightarrow>
   \<exists>st. token_steps (concat (map chain_tokens cs)) st0 = Some st \<and> ps_chains st = D @ cs"
proof (induction cs arbitrary: st0 D r)
  case (Cons c cs)
  have t: "chain_tokens c = condition_tokens (pipelines c) @ [terminator (is_background c)]"
    by (simp add: chain_tokens_def terminator_def)
  have c: "\<lparr>pipelines = [] @ pipelines c, is_background = is_background c\<rparr> = c" by simp
  obtain st1 r1 where 1: "token_steps (chain_tokens c) (mid D [] [new_command] r) = Some st1"
    "ps_chains st1 = D @ [c]" "open_structs st1 = mid (D @ [c]) [] [new_command] r1"
    using steps_conditions [of "pipelines c" "is_background c" D "[]" r] Cons.prems(1) unfolding t c by auto
  have "token_steps (chain_tokens c) st0 = token_steps (chain_tokens c) (mid D [] [new_command] r)"
    by (rule token_steps_open) (simp_all add: t Cons.prems(3))
  then have eq: "token_steps (concat (map chain_tokens (c # cs))) st0 = token_steps (concat (map chain_tokens cs)) st1"
    by (simp add: token_steps_append 1(1))
  show ?case
  proof (cases "cs = []")
    case True
    then show ?thesis using eq 1(2) by simp
  next
    case False
    then show ?thesis using Cons.IH [OF _ False 1(3)] Cons.prems(1) eq by auto
  qed
qed simp

lemma printable_redir: "op \<in> set redir_ops \<Longrightarrow> list_all printable (redir_tokens (op, f))"
  by (auto simp: redir_tokens_def printable_def redir_ops_def)

lemma printable_redirs:
  "\<forall>x \<in> set zs. fst x \<in> set redir_ops \<Longrightarrow> list_all printable (concat (map redir_tokens zs))"
proof (induction zs)
  case (Cons z zs)
  then show ?case using printable_redir [of "fst z" "snd z"] by simp
qed simp

lemma printable_command: "list_all printable (command_tokens c)"
proof -
  have "\<forall>x \<in> set (zip redir_ops (redirs c)). fst x \<in> set redir_ops"
    by (metis prod.collapse set_zip_leftD)
  then have "list_all printable (concat (map redir_tokens (zip redir_ops (redirs c))))"
    by (rule printable_redirs)
  moreover have "list_all printable (map (Pair TYPE_NORMAL) (args c))"
    by (simp add: list_all_iff printable_def)
  ultimately show ?thesis by (simp add: command_tokens_def)
qed

lemma printable_pipeline: "list_all printable (pipeline_tokens cs)"
  by (induction cs rule: pipeline_tokens.induct) (simp_all add: printable_command, simp add: printable_def)

lemma printable_conditions: "list_all printable (condition_tokens ps)"
  by (induction ps rule: condition_tokens.induct) (simp_all add: printable_pipeline, simp add: printable_def)

lemma printable_chain: "list_all printable (chain_tokens c)"
  by (simp add: chain_tokens_def printable_conditions) (simp add: printable_def)

lemma printable_line: "list_all printable (concat (map chain_tokens cs))"
  using printable_chain by (induction cs) simp_all

section \<open>Properties\<close>

text \<open>
  C36: The shell parser reads every command list back from its printed form: chains with their
  terminators, pipelines with their connectives, commands with quoted words and redirections.
\<close>

theorem parse_print_line:
  assumes "\<forall>c \<in> set cs. pipelines_ok (pipelines c)"
  shows "parse_line (print_line cs) = Some cs"
proof (cases "cs = []")
  case True
  then show ?thesis by (simp add: print_line_def print_tokens_def parse_line_def parse_loop.simps [of "[]"]
        parse_shell_token_def parse_init_def)
next
  case False
  have "open_structs parse_init = mid [] [] [new_command] (-1)"
    by (simp add: open_structs_def parse_init_def mid_def new_chain_struct_def new_pipeline_struct_def)
  from steps_line [OF assms False this] show ?thesis
    by (auto simp: parse_line_def print_line_def parse_loop_tokens [OF printable_line])
qed

text \<open>The command list \<open>"a b" "c" > "f" && "d" ;\<close>.\<close>

definition ex_chain :: chain where
  "ex_chain = \<lparr>pipelines =
     [\<lparr>commands = [new_command\<lparr>args := [''a b'', ''c''], redirs := [[], ''f'', []]\<rparr>], is_or = False, is_and = True\<rparr>,
      \<lparr>commands = [new_command\<lparr>args := [''d'']\<rparr>], is_or = False, is_and = False\<rparr>], is_background = False\<rparr>"

theorem parse_print_line_witness: "parse_line (print_line [ex_chain]) = Some [ex_chain]"
  by (rule parse_print_line) (simp add: ex_chain_def command_ok_def new_command_def)

end
