(* ===== verification/ShellRun.thy ===== *)
theory ShellRun
  imports ShellParse ShellPrint
begin

text \<open>
  Running the parsed commands (\<open>sh61.cc\<close>): processes, pipes, redirections, conditional chains and
  the read loop of \<open>main\<close>. A process has a table of file descriptors; \<open>fork\<close> copies it. What the
  rest of the system decides is a parameter: whether a file can be opened (\<open>ok\<close>) and how a process
  ends (\<open>ex\<close>).
\<close>

section \<open>File descriptors\<close>

datatype fdesc = Ext nat | PipeR nat | PipeW nat | Opened string nat

type_synonym fdtab = "fdesc option list"

definition fd_get :: "fdtab \<Rightarrow> nat \<Rightarrow> fdesc option" where
  "fd_get t n = (if n < length t then t ! n else None)"

definition fd_set :: "fdtab \<Rightarrow> nat \<Rightarrow> fdesc option \<Rightarrow> fdtab" where
  "fd_set t n d = (if n < length t then t[n := d] else t @ replicate (n - length t) None @ [d])"

text \<open>A new descriptor is the lowest one that is free.\<close>

definition fd_lowest :: "fdtab \<Rightarrow> nat" where
  "fd_lowest t = length (takeWhile (\<lambda>d. d \<noteq> None) t)"

definition fd_close :: "fdtab \<Rightarrow> int \<Rightarrow> fdtab" where
  "fd_close t n = (if 0 \<le> n \<and> nat n < length t then t[nat n := None] else t)"

definition fd_dup2 :: "fdtab \<Rightarrow> int \<Rightarrow> nat \<Rightarrow> fdtab" where
  "fd_dup2 t a b = (if 0 \<le> a \<and> fd_get t (nat a) \<noteq> None then fd_set t b (fd_get t (nat a)) else t)"

lemma fd_get_set [simp]: "fd_get (fd_set t n d) k = (if k = n then d else fd_get t k)"
  by (auto simp: fd_get_def fd_set_def nth_append)

lemma fd_get_close [simp]: "fd_get (fd_close t n) k = (if n = int k then None else fd_get t k)"
  by (auto simp: fd_get_def fd_close_def)

lemma fd_get_dup2: "0 \<le> a \<Longrightarrow> fd_get t (nat a) = Some d \<Longrightarrow> fd_get (fd_dup2 t a b) k = (if k = b then Some d else fd_get t k)"
  by (simp add: fd_dup2_def)

lemma fd_lowest_free: "fd_get t (fd_lowest t) = None"
  using nth_length_takeWhile [of "\<lambda>d. d \<noteq> None" t] by (auto simp: fd_get_def fd_lowest_def)

lemma fd_lowest_above: "(\<And>k. k < n \<Longrightarrow> fd_get t k \<noteq> None) \<Longrightarrow> n \<le> fd_lowest t"
  using fd_lowest_free [of t] by (metis not_le_imp_less)

section \<open>Processes\<close>

datatype child_end = Exec "string list" | ChildExit int | ChildChdir string

record child =
  ch_pid :: int
  ch_pgid :: int
  ch_fds :: fdtab
  ch_end :: child_end

datatype event = Forked child | Foreground int | Chdir string | BackgroundChain int chain | Prompt

record os =
  fds :: fdtab
  next_pipe :: nat
  next_pid :: int
  trace :: "event list"

text \<open>
  What ends the shell itself: \<open>_exit\<close> on a command without words, an index outside \<open>args\<close>, a failed
  \<open>assert\<close>.
\<close>

datatype shell_stop = ShellExit int | BadIndex | AssertFailed

datatype wait_status = Exited nat | Signaled nat

definition emit :: "event \<Rightarrow> os \<Rightarrow> os" where
  "emit e s = s\<lparr>trace := trace s @ [e]\<rparr>"

text \<open>\<open>pipe\<close>: the read end and the write end get the two lowest free descriptors.\<close>

definition sys_pipe :: "os \<Rightarrow> int \<times> int \<times> os" where
  "sys_pipe s =
     (let r = fd_lowest (fds s); t1 = fd_set (fds s) r (Some (PipeR (next_pipe s)));
          w = fd_lowest t1; t2 = fd_set t1 w (Some (PipeW (next_pipe s)))
      in (int r, int w, s\<lparr>fds := t2, next_pipe := next_pipe s + 1\<rparr>))"

text \<open>The redirections of the child, from descriptor \<open>i\<close> on; \<open>None\<close> when a file cannot be opened.\<close>

fun apply_redirs :: "(string \<Rightarrow> nat \<Rightarrow> bool) \<Rightarrow> nat \<Rightarrow> string list \<Rightarrow> fdtab \<Rightarrow> fdtab option" where
  "apply_redirs ok i [] t = Some t"
| "apply_redirs ok i (f # fs) t =
     (if f = [] then apply_redirs ok (Suc i) fs t
      else
        let flags = (if i = 0 then 0 else 1)
        in if \<not> ok f flags then None
           else
             let n = fd_lowest t;
                 t1 = fd_set t n (Some (Opened f flags));
                 t2 = fd_dup2 t1 (int n) i;
                 t3 = fd_close t2 (int n)
             in apply_redirs ok (Suc i) fs t3)"

text \<open>The child's side of \<open>make_child\<close> up to \<open>execvp\<close>.\<close>

definition child_table :: "fdtab \<Rightarrow> int \<Rightarrow> int \<Rightarrow> int \<Rightarrow> fdtab" where
  "child_table t in_fd out_fd close_fd =
     (let t1 = (if close_fd \<noteq> 0 then fd_close t close_fd else t);
          t2 = (if in_fd \<noteq> -1 then fd_close (fd_dup2 t1 in_fd 0) in_fd else t1)
      in if out_fd \<noteq> -1 then fd_close (fd_dup2 t2 out_fd 1) out_fd else t2)"

definition child_run :: "(string \<Rightarrow> nat \<Rightarrow> bool) \<Rightarrow> command \<Rightarrow> fdtab \<Rightarrow> fdtab \<times> child_end" where
  "child_run ok c t =
     (case apply_redirs ok 0 (redirs c) t of
        None \<Rightarrow> (t, ChildExit 1)
      | Some t' \<Rightarrow> (t', if hd (args c) = ''cd'' then ChildChdir (args c ! 1) else Exec (args c)))"

definition make_child :: "(string \<Rightarrow> nat \<Rightarrow> bool) \<Rightarrow> command \<Rightarrow> int \<Rightarrow> int \<Rightarrow> int \<Rightarrow> int \<Rightarrow> os
    \<Rightarrow> shell_stop + (int \<times> os)" where
  "make_child ok c pgid in_fd out_fd close_fd s =
     (if args c = [] then Inl (ShellExit 0)
      else if hd (args c) = ''cd'' \<and> length (args c) < 2 then Inl BadIndex
      else
        let pid = next_pid s;
            (t, e) = child_run ok c (child_table (fds s) in_fd out_fd close_fd);
            ch = \<lparr>ch_pid = pid, ch_pgid = (if pgid = 0 then pid else pgid), ch_fds = t, ch_end = e\<rparr>;
            s1 = emit (Forked ch) (s\<lparr>next_pid := pid + 1\<rparr>);
            s2 = (if hd (args c) = ''cd'' then emit (Chdir (args c ! 1)) s1 else s1)
        in Inr (pid, s2))"

text \<open>\<open>claim_foreground\<close> hands the terminal to a process group; 0 stands for the shell's own.\<close>

definition claim_foreground :: "int \<Rightarrow> os \<Rightarrow> os" where
  "claim_foreground pgid s = emit (Foreground pgid) s"

definition close_if :: "int \<Rightarrow> os \<Rightarrow> os" where
  "close_if n s = (if n \<noteq> -1 then s\<lparr>fds := fd_close (fds s) n\<rparr> else s)"

text \<open>The loop of \<open>pipeline::run_commands\<close>.\<close>

fun run_loop :: "(string \<Rightarrow> nat \<Rightarrow> bool) \<Rightarrow> bool \<Rightarrow> command list \<Rightarrow> int \<Rightarrow> int \<Rightarrow> int \<Rightarrow> os
    \<Rightarrow> shell_stop + (int \<times> os)" where
  "run_loop ok bg [] pgid curr_stdin last_pid s = Inr (last_pid, s)"
| "run_loop ok bg (c # cs) pgid curr_stdin last_pid s =
     (let (pfd0, curr_stdout, s1) = (if cs = [] then (-1, -1, s) else sys_pipe s)
      in case make_child ok c 0 curr_stdin curr_stdout pfd0 s1 of
           Inl e \<Rightarrow> Inl e
         | Inr (pid, s2) \<Rightarrow>
             let s3 = (if pgid = 0 \<and> \<not> bg then claim_foreground pid s2 else s2);
                 s4 = close_if curr_stdin s3;
                 s5 = close_if curr_stdout s4
             in run_loop ok bg cs (if pgid = 0 then pid else pgid) pfd0 pid s5)"

definition run_commands :: "(string \<Rightarrow> nat \<Rightarrow> bool) \<Rightarrow> bool \<Rightarrow> pipeline \<Rightarrow> os \<Rightarrow> shell_stop + (int \<times> os)" where
  "run_commands ok bg p s = run_loop ok bg (commands p) 0 (-1) (-1) s"

text \<open>
  The inner loops of \<open>chain::run_pipelines\<close> with the step to the next pipeline behind them: a
  success passes over pipelines marked \<open>is_or\<close>, a failure over those marked \<open>is_and\<close>.
\<close>

definition skip_to :: "nat \<Rightarrow> pipeline list \<Rightarrow> pipeline list" where
  "skip_to st ps = tl (dropWhile (if st = 0 then is_or else is_and) ps)"

lemma skip_to_length: "length (skip_to st (p # ps)) < length (p # ps)"
proof -
  define d where "d = dropWhile (if st = 0 then is_or else is_and) (p # ps)"
  have "length d \<le> length (p # ps)" unfolding d_def by (rule length_dropWhile_le)
  moreover have "skip_to st (p # ps) = tl d" by (simp only: skip_to_def d_def)
  ultimately show ?thesis by (simp add: less_Suc_eq_le le_diff_conv)
qed

text \<open>
  \<open>chain::run_pipelines\<close>. Waiting for process \<open>-1\<close> would wait for any child; it needs a pipeline
  without commands, which the parser never makes.
\<close>

function run_pipelines :: "(string \<Rightarrow> nat \<Rightarrow> bool) \<Rightarrow> (int \<Rightarrow> wait_status) \<Rightarrow> bool \<Rightarrow> pipeline list \<Rightarrow> os
    \<Rightarrow> shell_stop + os" where
  "run_pipelines ok ex bg [] s = Inr s"
| "run_pipelines ok ex bg (p # ps) s =
     (case run_commands ok bg p s of
        Inl e \<Rightarrow> Inl e
      | Inr (last_pid, s1) \<Rightarrow>
          if last_pid = -1 then Inl AssertFailed
          else case ex last_pid of
              Exited st \<Rightarrow> run_pipelines ok ex bg (skip_to st (p # ps)) s1
            | Signaled _ \<Rightarrow> Inr s1)"
  by pat_completeness auto
termination
  by (relation "measure (\<lambda>(ok, ex, bg, ps, s). length ps)") (simp_all only: in_measure split_conv wf_measure skip_to_length)

text \<open>\<open>run\<close>: a background chain runs in a child of the shell, which ends with \<open>_exit(1)\<close>.\<close>

fun run_chains :: "(string \<Rightarrow> nat \<Rightarrow> bool) \<Rightarrow> (int \<Rightarrow> wait_status) \<Rightarrow> chain list \<Rightarrow> os \<Rightarrow> shell_stop + os" where
  "run_chains ok ex [] s = Inr s"
| "run_chains ok ex (c # cs) s =
     (if is_background c then
        run_chains ok ex cs (emit (BackgroundChain (next_pid s) c) (s\<lparr>next_pid := next_pid s + 1\<rparr>))
      else case run_pipelines ok ex False (pipelines c) s of
          Inl e \<Rightarrow> Inl e
        | Inr s1 \<Rightarrow> run_chains ok ex cs (claim_foreground 0 s1))"

text \<open>What the child of a background chain does, from the state at the fork.\<close>

definition background_child :: "(string \<Rightarrow> nat \<Rightarrow> bool) \<Rightarrow> (int \<Rightarrow> wait_status) \<Rightarrow> chain \<Rightarrow> os \<Rightarrow> shell_stop" where
  "background_child ok ex c s =
     (case run_pipelines ok ex True (pipelines c) s of Inl e \<Rightarrow> e | Inr _ \<Rightarrow> ShellExit 1)"

section \<open>The main loop\<close>

text \<open>What a call of \<open>fgets\<close> gives; the list ends when the end of the file has been met.\<close>

datatype fgets_result = Chunk string | Interrupted | Failed

definition BUFSIZ :: nat where "BUFSIZ = 8192"

fun shell_loop :: "(string \<Rightarrow> nat \<Rightarrow> bool) \<Rightarrow> (int \<Rightarrow> wait_status) \<Rightarrow> bool \<Rightarrow> fgets_result list \<Rightarrow> string \<Rightarrow> bool
    \<Rightarrow> os \<Rightarrow> shell_stop + os" where
  "shell_loop ok ex quiet [] buf needprompt s = Inr s"
| "shell_loop ok ex quiet (i # is) buf needprompt s =
     (let s1 = (if needprompt \<and> \<not> quiet then emit Prompt s else s);
          np = (if needprompt \<and> \<not> quiet then False else needprompt)
      in case i of
           Failed \<Rightarrow> Inr s1
         | _ \<Rightarrow>
             let buf' = (case i of Chunk t \<Rightarrow> buf @ t | _ \<Rightarrow> buf)
             in if length buf' = BUFSIZ - 1 \<or> (buf' \<noteq> [] \<and> last buf' = CHR 0x0A) then
                  (case parse_line buf' of
                     None \<Rightarrow> Inl BadIndex
                   | Some cs \<Rightarrow> (case run_chains ok ex cs s1 of
                         Inl e \<Rightarrow> Inl e
                       | Inr s2 \<Rightarrow> shell_loop ok ex quiet is [] True s2))
                else shell_loop ok ex quiet is buf' np s1)"

text \<open>\<open>main\<close>: the options (quiet, the command file if any), then the loop.\<close>

definition shell_args :: "string list \<Rightarrow> bool \<times> string option" where
  "shell_args argv =
     (let quiet = (length argv > 1 \<and> argv ! 1 = ''-q'');
          rest = (if quiet then tl argv else argv)
      in (quiet, if length rest > 1 then Some (rest ! 1) else None))"

definition shell_main :: "(string \<Rightarrow> nat \<Rightarrow> bool) \<Rightarrow> (int \<Rightarrow> wait_status) \<Rightarrow> (string option \<Rightarrow> fgets_result list option)
    \<Rightarrow> string list \<Rightarrow> os \<Rightarrow> shell_stop + os" where
  "shell_main ok ex command_file argv s =
     (let (quiet, file_arg) = shell_args argv
      in case command_file file_arg of
           None \<Rightarrow> Inl (ShellExit 1)
         | Some inputs \<Rightarrow> shell_loop ok ex quiet inputs [] True (claim_foreground 0 s))"

section \<open>Conditional chains against their reference meaning\<close>

text \<open>
  The reference: with the exit status \<open>st\<close> of the last pipeline that ran, the pipeline behind \<open>p\<close>
  runs after \<open>&&\<close> if \<open>st\<close> is 0 and after \<open>||\<close> if it is not; a pipeline that does not run leaves the
  status as it is.
\<close>

definition status_of :: "wait_status \<Rightarrow> nat" where
  "status_of w = (case w of Exited st \<Rightarrow> st | Signaled n \<Rightarrow> 128 + n)"

fun ref_next :: "(string \<Rightarrow> nat \<Rightarrow> bool) \<Rightarrow> (int \<Rightarrow> wait_status) \<Rightarrow> bool \<Rightarrow> nat \<Rightarrow> pipeline \<Rightarrow> pipeline list \<Rightarrow> os
    \<Rightarrow> shell_stop + os" where
  "ref_next ok ex bg st p [] s = Inr s"
| "ref_next ok ex bg st p (q # qs) s =
     (if is_and p \<and> st = 0 \<or> is_or p \<and> st \<noteq> 0 then
        (case run_commands ok bg q s of
           Inl e \<Rightarrow> Inl e
         | Inr (pid, s1) \<Rightarrow> ref_next ok ex bg (status_of (ex pid)) q qs s1)
      else ref_next ok ex bg st q qs s)"

definition ref_chain :: "(string \<Rightarrow> nat \<Rightarrow> bool) \<Rightarrow> (int \<Rightarrow> wait_status) \<Rightarrow> bool \<Rightarrow> pipeline list \<Rightarrow> os \<Rightarrow> shell_stop + os" where
  "ref_chain ok ex bg ps s =
     (case ps of [] \<Rightarrow> Inr s
      | p # qs \<Rightarrow> (case run_commands ok bg p s of
           Inl e \<Rightarrow> Inl e
         | Inr (pid, s1) \<Rightarrow> ref_next ok ex bg (status_of (ex pid)) p qs s1))"

lemma pipelines_ok_tl: "pipelines_ok (p # q # ps) \<Longrightarrow> pipelines_ok (q # ps)"
  by simp

lemma skip_to_pass: "(if st = 0 then is_or p else is_and p) \<Longrightarrow> skip_to st (p # ps) = skip_to st ps"
  and skip_to_stop: "\<not> (if st = 0 then is_or p else is_and p) \<Longrightarrow> skip_to st (p # ps) = ps"
  by (simp_all add: skip_to_def split: if_splits)

lemma skip_to_ok: "pipelines_ok (p # ps) \<Longrightarrow> skip_to st (p # ps) = [] \<or> pipelines_ok (skip_to st (p # ps))"
proof (induction ps arbitrary: p)
  case Nil
  then show ?case by (simp add: skip_to_def)
next
  case (Cons q qs)
  show ?case
  proof (cases "if st = 0 then is_or p else is_and p")
    case True
    from Cons.IH [OF pipelines_ok_tl [OF Cons.prems]] show ?thesis by (simp only: skip_to_pass [OF True])
  next
    case False
    from pipelines_ok_tl [OF Cons.prems] show ?thesis unfolding skip_to_stop [OF False] by blast
  qed
qed

lemma ref_next_skip: "pipelines_ok (p # ps) \<Longrightarrow> ref_next ok ex bg st p ps s = ref_chain ok ex bg (skip_to st (p # ps)) s"
proof (induction ps arbitrary: p)
  case Nil
  then show ?case by (simp add: ref_chain_def skip_to_def)
next
  case (Cons q qs)
  have x: "is_or p = (\<not> is_and p)" using Cons.prems by simp
  show ?case
  proof (cases "is_and p \<and> st = 0 \<or> is_or p \<and> st \<noteq> 0")
    case True
    then have "\<not> (if st = 0 then is_or p else is_and p)" using x by auto
    from skip_to_stop [OF this] show ?thesis using True by (simp add: ref_chain_def)
  next
    case False
    then have "if st = 0 then is_or p else is_and p" using x by auto
    from skip_to_pass [OF this] show ?thesis
      using False Cons.IH [OF pipelines_ok_tl [OF Cons.prems]] by (simp only: ref_next.simps if_False)
  qed
qed

text \<open>The pid of the last command of a pipeline is a real one.\<close>

lemma make_child_pid: "make_child ok c g i out cl s = Inr (pid, s') \<Longrightarrow> pid = next_pid s \<and> next_pid s' = next_pid s + 1"
  by (auto simp: make_child_def emit_def Let_def split: if_splits prod.splits)

lemma run_loop_pid:
  "run_loop ok bg cs pgid cin l s = Inr (l', s') \<Longrightarrow> 0 < next_pid s \<Longrightarrow>
   0 < next_pid s' \<and> (cs \<noteq> [] \<longrightarrow> 0 < l') \<and> (cs = [] \<longrightarrow> l' = l)"
proof (induction cs arbitrary: pgid cin l s)
  case (Cons c cs)
  obtain pfd0 out s1 where p: "(if cs = [] then (-1, -1, s) else sys_pipe s) = (pfd0, out, s1)"
    by (metis prod_cases3)
  then have n1: "next_pid s1 = next_pid s" by (auto simp: sys_pipe_def Let_def split: if_splits)
  from Cons.prems(1) p obtain pid s2 where m: "make_child ok c 0 cin out pfd0 s1 = Inr (pid, s2)"
    by (auto split: sum.splits prod.splits)
  define s5 where "s5 = close_if out (close_if cin (if pgid = 0 \<and> \<not> bg then claim_foreground pid s2 else s2))"
  have n5: "next_pid s5 = next_pid s + 1" and pid: "pid = next_pid s"
    using make_child_pid [OF m] n1 by (auto simp: s5_def close_if_def claim_foreground_def emit_def)
  have r: "run_loop ok bg cs (if pgid = 0 then pid else pgid) pfd0 pid s5 = Inr (l', s')"
    using Cons.prems(1) by (simp add: p m s5_def Let_def)
  show ?case using Cons.IH [OF r] Cons.prems(2) n5 pid by (cases "cs = []") auto
qed simp

text \<open>
  C35: A chain of pipelines runs as the meaning of \<open>&&\<close> and \<open>||\<close> prescribes (left to right, each
  pipeline run or passed over by the status of the last one that ran), when no process ends by a
  signal.
\<close>

theorem run_pipelines_reference:
  assumes "pipelines_ok ps" and "\<And>pid. \<exists>st. ex pid = Exited st" and "0 < next_pid s"
  shows "run_pipelines ok ex bg ps s = ref_chain ok ex bg ps s"
  using assms(1,3)
proof (induction ps arbitrary: s rule: length_induct)
  case (1 ps)
  then obtain p qs where ps: "ps = p # qs" by (cases ps) auto
  show ?case
  proof (cases "run_commands ok bg p s")
    case (Inl e)
    then show ?thesis by (simp add: ps ref_chain_def)
  next
    case (Inr a)
    obtain pid s1 where a: "a = (pid, s1)" by fastforce
    have "commands p \<noteq> []" using "1.prems"(1) ps by (cases qs) auto
    then have n: "0 < pid" "0 < next_pid s1"
      using run_loop_pid [of ok bg "commands p" 0 "-1" "-1" s pid s1] Inr a "1.prems"(2)
      by (auto simp: run_commands_def)
    obtain st where st: "ex pid = Exited st" using assms(2) by blast
    have sk: "run_pipelines ok ex bg (skip_to st ps) s1 = ref_chain ok ex bg (skip_to st ps) s1"
    proof (cases "skip_to st ps = []")
      case True
      then show ?thesis by (simp add: ref_chain_def)
    next
      case False
      then have "pipelines_ok (skip_to st ps)" using skip_to_ok [of p qs st] "1.prems"(1) ps by auto
      then show ?thesis using "1.IH" skip_to_length [of st p qs] n(2) ps by blast
    qed
    show ?thesis using sk n st ref_next_skip [of p qs ok ex bg st s1] "1.prems"(1)
      by (simp add: ps Inr a ref_chain_def status_of_def)
  qed
qed

theorem run_pipelines_reference_witness:
  "run_pipelines (\<lambda>_ _. True) (\<lambda>_. Exited 0) False (pipelines ex_chain) \<lparr>fds = [], next_pipe = 0, next_pid = 2, trace = []\<rparr>
   = ref_chain (\<lambda>_ _. True) (\<lambda>_. Exited 0) False (pipelines ex_chain) \<lparr>fds = [], next_pipe = 0, next_pid = 2, trace = []\<rparr>"
  by (rule run_pipelines_reference) (simp_all add: ex_chain_def command_ok_def new_command_def)

section \<open>The file descriptors of a pipeline\<close>

fun forked :: "event list \<Rightarrow> child list" where
  "forked [] = []"
| "forked (e # es) = (case e of Forked c \<Rightarrow> [c] | _ \<Rightarrow> []) @ forked es"

lemma forked_append [simp]: "forked (es @ fs) = forked es @ forked fs"
  by (induction es) simp_all

text \<open>A table after the redirections of a command: \<open>g\<close> is the table before.\<close>

definition redir_fd :: "command \<Rightarrow> (nat \<Rightarrow> fdesc option) \<Rightarrow> nat \<Rightarrow> fdesc option" where
  "redir_fd c g f = (if f < 3 \<and> redirs c ! f \<noteq> [] then Some (Opened (redirs c ! f) (if f = 0 then 0 else 1)) else g f)"

definition child_fds_ok :: "(string \<Rightarrow> nat \<Rightarrow> bool) \<Rightarrow> command \<Rightarrow> (nat \<Rightarrow> fdesc option) \<Rightarrow> child \<Rightarrow> bool" where
  "child_fds_ok ok c g ch \<longleftrightarrow> ch_pgid ch = ch_pid ch \<and>
     (ch_end ch = ChildExit 1 \<and> (\<exists>f<3. redirs c ! f \<noteq> [] \<and> \<not> ok (redirs c ! f) (if f = 0 then 0 else 1))
      \<or> (\<forall>f. fd_get (ch_fds ch) f = redir_fd c g f))"

text \<open>
  The children of a pipeline: the first reads \<open>inp\<close>, each other one the pipe behind its predecessor;
  all but the last write the next pipe; every other descriptor is the shell's (\<open>b\<close>).
\<close>

fun stages_ok :: "(string \<Rightarrow> nat \<Rightarrow> bool) \<Rightarrow> (nat \<Rightarrow> fdesc option) \<Rightarrow> fdesc option \<Rightarrow> nat \<Rightarrow> command list \<Rightarrow> child list \<Rightarrow> bool" where
  "stages_ok ok b inp k [] chs \<longleftrightarrow> chs = []"
| "stages_ok ok b inp k (c # cs) [] \<longleftrightarrow> False"
| "stages_ok ok b inp k (c # cs) (ch # chs) \<longleftrightarrow>
     child_fds_ok ok c (\<lambda>f. if f = 0 then inp else if f = 1 \<and> cs \<noteq> [] then Some (PipeW k) else b f) ch
     \<and> stages_ok ok b (Some (PipeR k)) (Suc k) cs chs"

lemma apply_redirs_None:
  "apply_redirs ok i fs t = None \<Longrightarrow> \<exists>f<length fs. fs ! f \<noteq> [] \<and> \<not> ok (fs ! f) (if i + f = 0 then 0 else 1)"
proof (induction fs arbitrary: i t)
  case (Cons g fs)
  show ?case
  proof (cases "g = [] \<or> ok g (if i = 0 then 0 else 1)")
    case False
    then show ?thesis by (intro exI [of _ 0]) auto
  next
    case True
    with Cons.prems obtain t1 where "apply_redirs ok (Suc i) fs t1 = None" by (auto simp: Let_def split: if_splits)
    from Cons.IH [OF this] obtain f where "f < length fs" "fs ! f \<noteq> []" "\<not> ok (fs ! f) (if Suc i + f = 0 then 0 else 1)"
      by blast
    then show ?thesis by (intro exI [of _ "Suc f"]) simp
  qed
qed simp

lemma apply_redirs_Some:
  assumes "apply_redirs ok i fs t = Some t'" and "i + length fs = 3" and "\<And>f. f < 3 \<Longrightarrow> fd_get t f \<noteq> None"
  shows "fd_get t' f = (if i \<le> f \<and> f < 3 \<and> fs ! (f - i) \<noteq> [] then Some (Opened (fs ! (f - i)) (if f = 0 then 0 else 1))
       else fd_get t f)"
  using assms
proof (induction fs arbitrary: i t)
  case (Cons g fs)
  define fl where "fl = (if i = 0 then 0 else 1 :: nat)"
  define n where "n = fd_lowest t"
  define t3 where "t3 = (if g = [] then t else fd_close (fd_dup2 (fd_set t n (Some (Opened g fl))) (int n) i) (int n))"
  have n3: "3 \<le> n" unfolding n_def by (rule fd_lowest_above) (rule Cons.prems(3))
  have fn: "fd_get t n = None" unfolding n_def by (rule fd_lowest_free)
  have t3: "fd_get t3 f = (if f = i \<and> g \<noteq> [] then Some (Opened g fl) else fd_get t f)" for f
    using n3 fn Cons.prems(2) by (auto simp: t3_def fd_get_dup2 [of "int n" _ "Opened g fl"])
  have eq: "apply_redirs ok (Suc i) fs t3 = Some t'"
    using Cons.prems(1) by (cases "i = 0") (simp_all add: t3_def n_def fl_def Let_def split: if_splits)
  have "\<And>f. f < 3 \<Longrightarrow> fd_get t3 f \<noteq> None" using t3 Cons.prems(3) by simp
  from Cons.IH [OF eq _ this] Cons.prems(2)
  have h: "fd_get t' f = (if Suc i \<le> f \<and> f < 3 \<and> fs ! (f - Suc i) \<noteq> []
      then Some (Opened (fs ! (f - Suc i)) (if f = 0 then 0 else 1)) else fd_get t3 f)" by simp
  have i3: "i < 3" using Cons.prems(2) by simp
  consider "f < i" | "f = i" | "i < f" by linarith
  then show ?case
  proof cases
    case 3
    then have "(g # fs) ! (f - i) = fs ! (f - Suc i)" by (simp add: nth_Cons' )
    with 3 h t3 show ?thesis by simp
  qed (use h t3 i3 fl_def in simp_all)
qed auto

text \<open>
  The shell's table before a command: its own descriptors \<open>b\<close>, and the read end of the last pipe at
  \<open>cin\<close> if the command is not the first one.
\<close>

definition table_at :: "(nat \<Rightarrow> fdesc option) \<Rightarrow> int \<Rightarrow> os \<Rightarrow> bool" where
  "table_at b cin s \<longleftrightarrow> (\<forall>f<3. b f \<noteq> None)
     \<and> (cin = -1 \<and> (\<forall>f. fd_get (fds s) f = b f)
        \<or> 3 \<le> cin \<and> b (nat cin) = None
            \<and> (\<forall>f. fd_get (fds s) f = (if f = nat cin then Some (PipeR (next_pipe s - 1)) else b f)))"

definition stdin_at :: "(nat \<Rightarrow> fdesc option) \<Rightarrow> int \<Rightarrow> os \<Rightarrow> fdesc option" where
  "stdin_at b cin s = (if cin = -1 then b 0 else Some (PipeR (next_pipe s - 1)))"

lemma table_at_free: "table_at b cin s \<Longrightarrow> fd_get (fds s) n = None \<Longrightarrow> b n = None"
  unfolding table_at_def by (elim conjE disjE) (metis option.distinct(1))+

lemma table_at_get:
  "table_at b cin s \<Longrightarrow> fd_get (fds s) f = (if cin \<noteq> -1 \<and> f = nat cin then Some (PipeR (next_pipe s - 1)) else b f)"
  "table_at b cin s \<Longrightarrow> cin \<noteq> -1 \<Longrightarrow> 3 \<le> cin \<and> b (nat cin) = None"
  unfolding table_at_def by (elim conjE disjE; simp)+

text \<open>The two ends of a pipe are new descriptors above the standard ones.\<close>

lemma sys_pipe_new:
  assumes "sys_pipe s = (r, w, s1)" and open3: "\<And>f. f < 3 \<Longrightarrow> fd_get (fds s) f \<noteq> None"
  shows "3 \<le> r" "3 \<le> w" "r \<noteq> w" "fd_get (fds s) (nat r) = None" "fd_get (fds s) (nat w) = None"
    "fd_get (fds s1) f = (if f = nat w then Some (PipeW (next_pipe s)) else if f = nat r then Some (PipeR (next_pipe s))
       else fd_get (fds s) f)"
    "next_pipe s1 = next_pipe s + 1" "trace s1 = trace s" "next_pid s1 = next_pid s"
proof -
  define a where "a = fd_lowest (fds s)"
  define t where "t = fd_set (fds s) a (Some (PipeR (next_pipe s)))"
  define c where "c = fd_lowest t"
  have eq: "r = int a" "w = int c" "s1 = s\<lparr>fds := fd_set t c (Some (PipeW (next_pipe s))), next_pipe := next_pipe s + 1\<rparr>"
    using assms(1) by (auto simp: sys_pipe_def a_def t_def c_def Let_def)
  have fa: "fd_get (fds s) a = None" unfolding a_def by (rule fd_lowest_free)
  have a3: "3 \<le> a" unfolding a_def by (rule fd_lowest_above) (rule open3)
  have fc: "fd_get t c = None" unfolding c_def by (rule fd_lowest_free)
  have c3: "3 \<le> c" unfolding c_def by (rule fd_lowest_above) (use open3 in \<open>auto simp: t_def\<close>)
  have ca: "c \<noteq> a" using fc by (auto simp: t_def)
  show "3 \<le> r" "3 \<le> w" "r \<noteq> w" using eq a3 c3 ca by auto
  show "fd_get (fds s) (nat r) = None" using eq fa by simp
  show "fd_get (fds s) (nat w) = None" using eq fc ca by (simp add: t_def)
  show "fd_get (fds s1) f = (if f = nat w then Some (PipeW (next_pipe s)) else if f = nat r then Some (PipeR (next_pipe s))
       else fd_get (fds s) f)"
    using eq by (simp add: t_def)
qed (use assms(1) in \<open>auto simp: sys_pipe_def Let_def\<close>)

text \<open>The child's table before its redirections: its standard input and output, and the shell's rest.\<close>

lemma child_table_first:
  assumes "table_at b cin s"
  shows "fd_get (child_table (fds s) cin (-1) (-1)) f = (if f = 0 then stdin_at b cin s else b f)"
proof (cases "cin = -1")
  case True
  with assms show ?thesis by (auto simp: child_table_def table_at_def stdin_at_def)
next
  case False
  with assms have c: "3 \<le> cin" "b (nat cin) = None"
    and t: "\<And>f. fd_get (fds s) f = (if f = nat cin then Some (PipeR (next_pipe s - 1)) else b f)"
    by (auto simp: table_at_def)
  have "fd_get (fd_close (fds s) (-1)) (nat cin) = Some (PipeR (next_pipe s - 1))" using t by simp
  from fd_get_dup2 [OF _ this] c t False show ?thesis
    by (auto simp: child_table_def stdin_at_def)
qed

lemma child_table_pipe:
  assumes tab: "table_at b cin s" and pipe: "sys_pipe s = (r, w, s1)"
  shows "fd_get (child_table (fds s1) cin w r) f
     = (if f = 0 then stdin_at b cin s else if f = 1 then Some (PipeW (next_pipe s)) else b f)"
proof -
  have o3: "\<And>f. f < 3 \<Longrightarrow> fd_get (fds s) f \<noteq> None" using tab by (auto simp: table_at_def)
  note P = sys_pipe_new [OF pipe o3]
  define t1 where "t1 = fd_close (fds s1) r"
  have g1: "fd_get t1 f = (if f = nat w then Some (PipeW (next_pipe s)) else fd_get (fds s) f)" for f
    using P by (auto simp: t1_def)
  define t2 where "t2 = (if cin \<noteq> -1 then fd_close (fd_dup2 t1 cin 0) cin else t1)"
  have g2: "fd_get t2 f = (if f = nat w then Some (PipeW (next_pipe s)) else if f = 0 then stdin_at b cin s else b f)" for f
  proof (cases "cin = -1")
    case True
    with tab g1 P(2) show ?thesis by (auto simp: t2_def table_at_def stdin_at_def)
  next
    case False
    with tab have c: "3 \<le> cin" "b (nat cin) = None"
      and t: "\<And>f. fd_get (fds s) f = (if f = nat cin then Some (PipeR (next_pipe s - 1)) else b f)"
      by (auto simp: table_at_def)
    have "cin \<noteq> w" using P(5) t by auto
    then have "fd_get t1 (nat cin) = Some (PipeR (next_pipe s - 1))" using g1 t c P(2) by auto
    from fd_get_dup2 [OF _ this] c t g1 False \<open>cin \<noteq> w\<close> P(2) show ?thesis
      by (auto simp: t2_def stdin_at_def)
  qed
  have "fd_get t2 (nat w) = Some (PipeW (next_pipe s))" using g2 by simp
  moreover have "b (nat w) = None" by (rule table_at_free [OF tab P(5)])
  ultimately have "fd_get (fd_close (fd_dup2 t2 w 1) w) f
     = (if f = 0 then stdin_at b cin s else if f = 1 then Some (PipeW (next_pipe s)) else b f)"
    using fd_get_dup2 [of w t2 "PipeW (next_pipe s)"] g2 P(2) by auto
  moreover have "child_table (fds s1) cin w r = fd_close (fd_dup2 t2 w 1) w"
    using P(1,2) by (simp add: child_table_def t1_def t2_def Let_def)
  ultimately show ?thesis by simp
qed

lemma child_run_fds:
  assumes "length (redirs c) = 3" and "\<And>f. f < 3 \<Longrightarrow> fd_get t f \<noteq> None" and "\<And>f. fd_get t f = g f"
    and "child_run ok c t = (t', e)"
  shows "child_fds_ok ok c g \<lparr>ch_pid = p, ch_pgid = p, ch_fds = t', ch_end = e\<rparr>"
proof (cases "apply_redirs ok 0 (redirs c) t")
  case None
  from apply_redirs_None [OF this] assms(1,4) None show ?thesis
    by (auto simp: child_run_def child_fds_ok_def)
next
  case (Some u)
  then have "t' = u" using assms(4) by (auto simp: child_run_def)
  with apply_redirs_Some [OF Some _ assms(2)] assms(1,3) show ?thesis
    by (auto simp: child_fds_ok_def redir_fd_def)
qed

lemma make_child_forks:
  assumes "make_child ok c 0 i out cl s = Inr (pid, s')" and "child_run ok c (child_table (fds s) i out cl) = (t, e)"
  shows "forked (trace s') = forked (trace s) @ [\<lparr>ch_pid = pid, ch_pgid = pid, ch_fds = t, ch_end = e\<rparr>]"
    and "fds s' = fds s" and "next_pipe s' = next_pipe s"
  using assms by (auto simp: make_child_def emit_def Let_def split: if_splits)

lemma run_loop_fds:
  assumes "run_loop ok bg cs pgid cin l s = Inr (l', s')" and "table_at b cin s" and "cs = [] \<longrightarrow> cin = -1"
    and "\<forall>c \<in> set cs. length (redirs c) = 3"
  shows "(\<forall>f. fd_get (fds s') f = b f) \<and> (\<exists>chs. forked (trace s') = forked (trace s) @ chs
     \<and> stages_ok ok b (stdin_at b cin s) (next_pipe s) cs chs)"
  using assms
proof (induction cs arbitrary: pgid cin l s)
  case Nil
  then show ?case by (auto simp: table_at_def)
next
  case (Cons c cs)
  note tab = Cons.prems(2)
  have b3: "\<And>f. f < 3 \<Longrightarrow> b f \<noteq> None" using tab by (auto simp: table_at_def)
  have o3: "\<And>f. f < 3 \<Longrightarrow> fd_get (fds s) f \<noteq> None" using tab by (auto simp: table_at_def)
  obtain r w s1 where p: "(if cs = [] then (-1, -1, s) else sys_pipe s) = (r, w, s1)"
    by (metis prod_cases3)
  from Cons.prems(1) p obtain pid s2 where m: "make_child ok c 0 cin w r s1 = Inr (pid, s2)"
    by (auto split: sum.splits prod.splits)
  obtain t e where cr: "child_run ok c (child_table (fds s1) cin w r) = (t, e)" by fastforce
  note F = make_child_forks [OF m cr]
  let ?g = "\<lambda>f. if f = 0 then stdin_at b cin s else if f = 1 \<and> cs \<noteq> [] then Some (PipeW (next_pipe s)) else b f"
  have g: "fd_get (child_table (fds s1) cin w r) f = ?g f" for f
    using child_table_first [OF tab, of f] child_table_pipe [OF tab, of r w s1 f] p by (auto split: if_splits)
  have "stdin_at b cin s \<noteq> None" using b3 by (simp add: stdin_at_def)
  then have "fd_get (child_table (fds s1) cin w r) f \<noteq> None" if "f < 3" for f using g b3 that by simp
  then have ch: "child_fds_ok ok c ?g \<lparr>ch_pid = pid, ch_pgid = pid, ch_fds = t, ch_end = e\<rparr>"
    using Cons.prems(4) by (intro child_run_fds [OF _ _ g cr]) simp_all
  define s5 where "s5 = close_if w (close_if cin (if pgid = 0 \<and> \<not> bg then claim_foreground pid s2 else s2))"
  have s5: "next_pipe s5 = next_pipe s1" "forked (trace s5) = forked (trace s2)"
    "fd_get (fds s5) f = (if w = int f \<or> cin = int f then None else fd_get (fds s1) f)" for f
    using F(2,3) by (auto simp: s5_def close_if_def claim_foreground_def emit_def)
  have rec: "run_loop ok bg cs (if pgid = 0 then pid else pgid) r pid s5 = Inr (l', s')"
    using Cons.prems(1) by (simp add: p m s5_def Let_def)
  have tab5: "table_at b r s5 \<and> (cs \<noteq> [] \<longrightarrow> stdin_at b r s5 = Some (PipeR (next_pipe s)) \<and> next_pipe s5 = Suc (next_pipe s))
      \<and> (cs = [] \<longrightarrow> r = -1)"
  proof (cases "cs = []")
    case True
    then have e: "r = -1" "w = -1" "s1 = s" using p by simp_all
    from tab s5(3) e True show ?thesis by (fastforce simp: table_at_def)
  next
    case False
    then have pp: "sys_pipe s = (r, w, s1)" using p by simp
    note P = sys_pipe_new [OF pp o3]
    have br: "b (nat r) = None" by (rule table_at_free [OF tab P(4)])
    have cr': "cin \<noteq> r" using tab P(1,4) by (auto simp: table_at_def)
    have "fd_get (fds s5) f = (if f = nat r then Some (PipeR (next_pipe s)) else b f)" for f
    proof -
      consider "f = nat w" | "f = nat r" | "f \<noteq> nat r" "f \<noteq> nat w" by blast
      then show ?thesis
      proof cases
        case 1
        then have "w = int f" "f \<noteq> nat r" using P(1-3) by simp_all
        then show ?thesis using s5(3) [of f] table_at_free [OF tab P(5)] 1 by simp
      next
        case 2
        then have "r = int f" "f \<noteq> nat w" using P(1-3) by auto
        then show ?thesis using s5(3) [of f] P(3) P(6) [of f] cr' by simp
      next
        case 3
        then have "w \<noteq> int f" "r \<noteq> int f" by auto
        then show ?thesis
          using 3 s5(3) [of f] P(6) [of f] table_at_get(1) [OF tab, of f] table_at_get(2) [OF tab]
          by (cases "cin = int f") auto
      qed
    qed
    then show ?thesis using P(1,7) br b3 s5(1) False by (auto simp: table_at_def stdin_at_def)
  qed
  have "forked (trace s1) = forked (trace s)" using p sys_pipe_new(8) [OF _ o3] by (auto split: if_splits)
  moreover from Cons.IH [OF rec] tab5 Cons.prems(4) obtain chs where
    "\<forall>f. fd_get (fds s') f = b f" "forked (trace s') = forked (trace s5) @ chs"
    "stages_ok ok b (stdin_at b r s5) (next_pipe s5) cs chs" by auto
  ultimately show ?case using F(1) s5(2) ch tab5
    by (intro conjI exI [of _ "\<lparr>ch_pid = pid, ch_pgid = pid, ch_fds = t, ch_end = e\<rparr> # chs"])
      (cases cs; auto)+
qed

text \<open>
  C37: The descriptors of a pipeline. Each child has the read end of the pipe behind its predecessor
  as its standard input and the write end of the next pipe as its standard output, redirections
  override them, and of all the pipes it holds no other end; and when all children have been made,
  the shell's own table is what it was before. Each child leads a process group of its own.
\<close>

theorem run_commands_fds:
  assumes "run_commands ok bg p s = Inr (l, s')" and "\<forall>f<3. fd_get (fds s) f \<noteq> None"
    and "\<forall>c \<in> set (commands p). length (redirs c) = 3"
  shows "(\<forall>f. fd_get (fds s') f = fd_get (fds s) f) \<and> (\<exists>chs. forked (trace s') = forked (trace s) @ chs
     \<and> stages_ok ok (fd_get (fds s)) (fd_get (fds s) 0) (next_pipe s) (commands p) chs)"
  using run_loop_fds [of ok bg "commands p" 0 "-1" "-1" s l s' "fd_get (fds s)"] assms
  by (simp add: run_commands_def table_at_def stdin_at_def)

theorem run_commands_fds_witness:
  "\<exists>s' l. run_commands (\<lambda>_ _. True) False \<lparr>commands = [new_command\<lparr>args := [''a'']\<rparr>, new_command\<lparr>args := [''b'']\<rparr>],
         is_or = False, is_and = False\<rparr> \<lparr>fds = [Some (Ext 0), Some (Ext 1), Some (Ext 2)], next_pipe = 0, next_pid = 2, trace = []\<rparr>
       = Inr (l, s') \<and> fd_get (fds s') 3 = None \<and> length (forked (trace s')) = 2"
proof -
  let ?p = "\<lparr>commands = [new_command\<lparr>args := [''a'']\<rparr>, new_command\<lparr>args := [''b'']\<rparr>], is_or = False, is_and = False\<rparr>"
  let ?s = "\<lparr>fds = [Some (Ext 0), Some (Ext 1), Some (Ext 2)], next_pipe = 0, next_pid = 2, trace = []\<rparr>"
  have "case run_commands (\<lambda>_ _. True) False ?p ?s of Inl e \<Rightarrow> False | Inr x \<Rightarrow> True"
    by code_simp
  then obtain l s' where r: "run_commands (\<lambda>_ _. True) False ?p ?s = Inr (l, s')"
    by (auto split: sum.splits)
  have "\<forall>f<3. fd_get (fds ?s) f \<noteq> None" by (auto simp: fd_get_def less_Suc_eq numeral_3_eq_3)
  from run_commands_fds [OF r this] obtain chs where "fd_get (fds s') 3 = None" "forked (trace s') = chs"
    "stages_ok (\<lambda>_ _. True) (fd_get (fds ?s)) (fd_get (fds ?s) 0) 0 (commands ?p) chs"
    by (auto simp: new_command_def fd_get_def)
  then have "fd_get (fds s') 3 = None \<and> length (forked (trace s')) = 2"
    by (cases chs; cases "tl chs") (auto split: list.splits)
  with r show ?thesis by blast
qed

section \<open>The read loop\<close>







section \<open>Lines the shell does not handle\<close>

text \<open>
  Three lines outside what the shell handles. A command without words ends the shell itself
  (\<open>make_child\<close> calls \<open>_exit\<close> before it forks), a redirection operator other than \<open><\<close>, \<open>>\<close> and \<open>2>\<close>
  writes outside \<open>redirs\<close>, and a line that ends in \<open>n>&m\<close> is read behind its terminator.
\<close>

theorem shell_unhandled_lines:
  "(\<exists>cs. parse_line [CHR '';'', CHR 0x0A] = Some cs \<and> run_chains ok ex cs s = Inl (ShellExit 0))
   \<and> parse_line ''a 1> f'' = None \<and> parse_line ''a 2>&1'' = None"
proof -
  have "parse_line [CHR '';'', CHR 0x0A] = Some [new_chain_struct]" by code_simp
  moreover have "run_chains ok ex [new_chain_struct] s = Inl (ShellExit 0)"
    by (simp add: new_chain_struct_def new_pipeline_struct_def new_command_def run_commands_def make_child_def)
  moreover have "parse_line ''a 1> f'' = None" "parse_line ''a 2>&1'' = None" by code_simp+
  ultimately show ?thesis by blast
qed

end
