(* ===== verification/X86.thy ===== *)
theory X86
  imports Prelude
begin

text \<open>
  The parts of \<open>pset3/x86-64.h\<close> the kernel computes with: the constants of paged memory, the
  split of an address into page indexes and an offset, the saved registers, and the segment and
  gate bits. The constants are unfolded by the simplifier. Instructions written in assembly
  (port input and output, control registers) are not modelled here; the components that need
  their effect take it as a parameter or record it as an event.
\<close>

section \<open>Paged memory constants\<close>

definition PAGEOFFBITS :: nat where [simp]: "PAGEOFFBITS = 12"
definition PAGEINDEXBITS :: nat where [simp]: "PAGEINDEXBITS = 9"
definition PAGESIZE :: u64 where [simp]: "PAGESIZE = 4096"
definition PAGEOFFMASK :: u64 where [simp]: "PAGEOFFMASK = 0xFFF"

definition PTE_P :: u64 where [simp]: "PTE_P = 0x1"
definition PTE_W :: u64 where [simp]: "PTE_W = 0x2"
definition PTE_U :: u64 where [simp]: "PTE_U = 0x4"
definition PTE_PS :: u64 where [simp]: "PTE_PS = 0x80"
definition PTE_PAMASK :: u64 where [simp]: "PTE_PAMASK = 0x000FFFFFFFFFF000"

definition VA_LOWMAX :: u64 where [simp]: "VA_LOWMAX = 0x00007FFFFFFFFFFF"
definition VA_LOWEND :: u64 where [simp]: "VA_LOWEND = 0x0000800000000000"
definition VA_HIGHMIN :: u64 where [simp]: "VA_HIGHMIN = 0xFFFF800000000000"
definition VA_NONCANONMAX :: u64 where [simp]: "VA_NONCANONMAX = 0x0000FFFFFFFFFFFF"

text \<open>
  \<open>int\<close> holds the nine index bits without change, so \<open>pageindex\<close> stays at 64 bits; a level is
  0 to 3 (4 for the mask above the top level).
\<close>

definition pageindex :: "u64 \<Rightarrow> nat \<Rightarrow> u64" where
  "pageindex addr level = drop_bit (PAGEOFFBITS + level * PAGEINDEXBITS) addr AND 0x1FF"

definition pageoffmask :: "nat \<Rightarrow> u64" where
  "pageoffmask level = push_bit (PAGEOFFBITS + level * PAGEINDEXBITS) 1 - 1"

definition pageoffset :: "u64 \<Rightarrow> nat \<Rightarrow> u64" where
  "pageoffset addr level = addr AND pageoffmask level"

definition va_is_canonical :: "u64 \<Rightarrow> bool" where
  "va_is_canonical va \<longleftrightarrow> va \<le> VA_LOWMAX \<or> VA_HIGHMIN \<le> va"

section \<open>Page fault errors, interrupts and flags\<close>

definition PFERR_PRESENT :: u64 where [simp]: "PFERR_PRESENT = 0x1"
definition PFERR_WRITE :: u64 where [simp]: "PFERR_WRITE = 0x2"
definition PFERR_USER :: u64 where [simp]: "PFERR_USER = 0x4"
definition INT_PF :: u32 where [simp]: "INT_PF = 14"
definition EFLAGS_IF :: u64 where [simp]: "EFLAGS_IF = 0x200"
definition EFLAGS_IOPL_3 :: u64 where [simp]: "EFLAGS_IOPL_3 = 0x3000"

section \<open>Saved registers\<close>

record regstate =
  reg_rax :: u64
  reg_rcx :: u64
  reg_rdx :: u64
  reg_rbx :: u64
  reg_rbp :: u64
  reg_rsi :: u64
  reg_rdi :: u64
  reg_r8 :: u64
  reg_r9 :: u64
  reg_r10 :: u64
  reg_r11 :: u64
  reg_r12 :: u64
  reg_r13 :: u64
  reg_r14 :: u64
  reg_r15 :: u64
  reg_fs :: u64
  reg_gs :: u64
  reg_intno :: u32
  reg_swapgs :: u32
  reg_errcode :: u64
  reg_rip :: u64
  reg_cs :: u64
  reg_rflags :: u64
  reg_rsp :: u64
  reg_ss :: u64

text \<open>\<open>memset\<close> of the whole structure with zero bytes.\<close>

definition regs_zero :: regstate where
  "regs_zero = \<lparr>reg_rax = 0, reg_rcx = 0, reg_rdx = 0, reg_rbx = 0, reg_rbp = 0, reg_rsi = 0,
     reg_rdi = 0, reg_r8 = 0, reg_r9 = 0, reg_r10 = 0, reg_r11 = 0, reg_r12 = 0, reg_r13 = 0,
     reg_r14 = 0, reg_r15 = 0, reg_fs = 0, reg_gs = 0, reg_intno = 0, reg_swapgs = 0,
     reg_errcode = 0, reg_rip = 0, reg_cs = 0, reg_rflags = 0, reg_rsp = 0, reg_ss = 0\<rparr>"

section \<open>Bits of addresses\<close>

lemma pageoffmask_mask: "pageoffmask l = mask (12 + l * 9)"
  by (simp add: pageoffmask_def mask_eq_exp_minus_1 push_bit_of_1)

lemma bit_pageoffmask: "bit (pageoffmask l) n \<longleftrightarrow> n < 12 + l * 9 \<and> n < 64"
  by (simp add: pageoffmask_mask bit_mask_iff, auto)

lemma bit_1FF: "bit (0x1FF :: u64) n \<longleftrightarrow> n < 9"
proof -
  have "(0x1FF :: u64) = mask 9" by (simp add: mask_eq_exp_minus_1)
  then show ?thesis by (simp only: bit_mask_iff) auto
qed

lemma bit_FFF: "bit (0xFFF :: u64) n \<longleftrightarrow> n < 12"
proof -
  have "(0xFFF :: u64) = mask 12" by (simp add: mask_eq_exp_minus_1)
  then show ?thesis by (simp only: bit_mask_iff) auto
qed

lemma bit_PAMASK: "bit (0x000FFFFFFFFFF000 :: u64) n \<longleftrightarrow> 12 \<le> n \<and> n < 52"
proof -
  have "(0x000FFFFFFFFFF000 :: u64) = push_bit 12 (mask 40)"
    by (simp add: mask_eq_exp_minus_1 push_bit_eq_mult)
  then show ?thesis by (simp only: bit_push_bit_iff bit_mask_iff) auto
qed

lemma bit_pageindex: "bit (pageindex a l) n \<longleftrightarrow> n < 9 \<and> bit a (12 + l * 9 + n)"
  using bit_imp_le_length [of a "12 + l * 9 + n"]
  by (simp only: pageindex_def bit_and_iff bit_drop_bit_eq bit_1FF comp_def PAGEOFFBITS_def
      PAGEINDEXBITS_def conj_commute)

lemma pageindex_lt: "pageindex a l < 512"
proof -
  have "(0x1FF :: u64) = mask 9" by (simp add: mask_eq_exp_minus_1)
  then have "pageindex a l = take_bit 9 (drop_bit (12 + l * 9) a)"
    by (simp only: pageindex_def take_bit_eq_mask PAGEOFFBITS_def PAGEINDEXBITS_def)
  then have "pageindex a l = drop_bit (12 + l * 9) a mod 512"
    by (simp add: take_bit_eq_mod)
  then show ?thesis by (simp add: word_less_nat_alt unat_mod)
qed

lemma pageindex_eqI:
  "(\<And>n. 12 + l * 9 \<le> n \<Longrightarrow> n < 21 + l * 9 \<Longrightarrow> bit a n = bit b n) \<Longrightarrow> pageindex a l = pageindex b l"
  by (rule bit_word_eqI) (auto simp: bit_pageindex)

lemma pageindex_eqD:
  assumes "pageindex a l = pageindex b l" "12 + l * 9 \<le> n" "n < 21 + l * 9"
  shows "bit a n = bit b n"
proof -
  have "bit (pageindex a l) (n - (12 + l * 9)) = bit (pageindex b l) (n - (12 + l * 9))"
    using assms(1) by simp
  moreover have "n - (12 + l * 9) < 9" and "12 + l * 9 + (n - (12 + l * 9)) = n"
    using assms(2,3) by linarith+
  ultimately show ?thesis by (simp only: bit_pageindex simp_thms)
qed

text \<open>The addresses that agree with \<open>v\<close> above the bits a page table of level \<open>l\<close> indexes.\<close>

definition agree :: "nat \<Rightarrow> u64 \<Rightarrow> u64 \<Rightarrow> bool" where
  "agree n v w \<longleftrightarrow> (v XOR w) AND NOT (mask n) = 0"

lemma agree_iff: "agree n v w \<longleftrightarrow> (\<forall>i\<ge>n. bit v i = bit w i)"
proof
  assume a: "agree n v w"
  show "\<forall>i\<ge>n. bit v i = bit w i"
  proof (intro allI impI)
    fix i assume i: "n \<le> i"
    have "\<not> bit ((v XOR w) AND NOT (mask n)) i" using a by (simp add: agree_def)
    then show "bit v i = bit w i"
      using i bit_imp_le_length [of v i] bit_imp_le_length [of w i]
      by (auto simp: bit_simps)
  qed
next
  assume "\<forall>i\<ge>n. bit v i = bit w i"
  then show "agree n v w" unfolding agree_def by (intro bit_word_eqI) (auto simp: bit_simps)
qed

lemma agree_refl [simp]: "agree n v v" by (simp add: agree_iff)
lemma agree_sym: "agree n v w \<Longrightarrow> agree n w v" by (simp add: agree_iff)
lemma agree_trans: "agree n u v \<Longrightarrow> agree n v w \<Longrightarrow> agree n u w" by (simp add: agree_iff)
lemma agree_mono: "agree n v w \<Longrightarrow> n \<le> k \<Longrightarrow> agree k v w" by (simp add: agree_iff)

lemma agree_pageindex: "agree n v w \<Longrightarrow> n \<le> 12 + l * 9 \<Longrightarrow> pageindex v l = pageindex w l"
  by (rule pageindex_eqI) (simp add: agree_iff)

lemma agree_down:
  assumes "agree (21 + l * 9) v w" "pageindex v l = pageindex w l"
  shows "agree (12 + l * 9) v w"
  unfolding agree_iff
proof (intro allI impI)
  fix i assume i: "12 + l * 9 \<le> i"
  show "bit v i = bit w i"
  proof (cases "i < 21 + l * 9")
    case True then show ?thesis using pageindex_eqD [OF assms(2) i] by simp
  next
    case False then show ?thesis using assms(1) by (simp add: agree_iff)
  qed
qed

text \<open>Canonical addresses are those whose bits 47 to 63 are all equal.\<close>

lemma low_drop: "va \<le> VA_LOWMAX \<longleftrightarrow> drop_bit 47 va = 0"
proof -
  have "va \<le> VA_LOWMAX \<longleftrightarrow> unat va div 2 ^ 47 = 0"
    by (simp add: word_le_nat_alt div_eq_0_iff) auto
  then show ?thesis by (simp add: word_unat_eq_iff drop_bit_eq_div unat_div)
qed

lemma canonical_drop: "va_is_canonical va \<longleftrightarrow> drop_bit 47 va = 0 \<or> drop_bit 47 va = 131071"
proof -
  have d: "unat (drop_bit 47 va) = unat va div 2 ^ 47"
    by (simp add: drop_bit_eq_div unat_div)
  have "va \<le> VA_LOWMAX \<longleftrightarrow> unat va div 2 ^ 47 = 0"
    by (simp add: word_le_nat_alt div_eq_0_iff) auto
  moreover have "VA_HIGHMIN \<le> va \<longleftrightarrow> unat va div 2 ^ 47 = 131071"
  proof -
    have "unat va div 2 ^ 47 < 131072"
      using unsigned_less [of va, where 'a = nat] by (simp add: less_mult_imp_div_less)
    then have "unat va div 2 ^ 47 = 131071 \<longleftrightarrow> 131071 \<le> unat va div 2 ^ 47" by linarith
    also have "\<dots> \<longleftrightarrow> 131071 * 2 ^ 47 \<le> unat va" by (simp add: less_eq_div_iff_mult_less_eq)
    finally show ?thesis by (simp add: word_le_nat_alt)
  qed
  ultimately show ?thesis by (simp add: va_is_canonical_def word_unat_eq_iff d)
qed

lemma agree_canonical: "agree n v w \<Longrightarrow> n \<le> 47 \<Longrightarrow> va_is_canonical v = va_is_canonical w"
proof -
  assume "agree n v w" "n \<le> 47"
  then have "drop_bit 47 v = drop_bit 47 w"
    by (intro bit_word_eqI) (simp add: bit_drop_bit_eq agree_iff)
  then show ?thesis by (simp add: canonical_drop)
qed

end
