(* ===== verification/PageAlloc.thy ===== *)
theory PageAlloc
  imports X86
begin

text \<open>
  The physical page allocator of the kernel (\<open>pset3/kernel.cc\<close>: \<open>kalloc\<close>, \<open>kfree\<close>;
  \<open>k-hardware.cc\<close>: \<open>reserved_physical_address\<close>, \<open>allocatable_physical_address\<close>;
  \<open>lib.hh\<close>: \<open>round_down\<close>, \<open>round_up\<close>). Physical memory is identity mapped in the kernel, so a
  kernel pointer is a physical address. The linker symbol \<open>_kernel_end\<close> is the field
  \<open>kernel_end\<close>. The interface the page tables rely on is the locale \<open>page_allocator\<close>, which
  this theory interprets on \<open>kalloc\<close>.
\<close>

section \<open>State and operations\<close>

definition KERNEL_START_ADDR :: u64 where [simp]: "KERNEL_START_ADDR = 0x40000"
definition KERNEL_STACK_TOP :: u64 where [simp]: "KERNEL_STACK_TOP = 0x80000"
definition MEMSIZE_PHYSICAL :: u64 where [simp]: "MEMSIZE_PHYSICAL = 0x200000"
definition NPAGES :: nat where [simp]: "NPAGES = 512"

record kmem =
  phys :: mem
  pages :: "u8 list"          \<comment> \<open>\<open>pages[i].refcount\<close>\<close>
  kernel_end :: u64

definition used :: "u8 \<Rightarrow> bool" where
  "used refcount \<longleftrightarrow> refcount \<noteq> 0"

definition round_down :: "u64 \<Rightarrow> u64 \<Rightarrow> u64" where
  "round_down x multiple = x - x mod multiple"

definition round_up :: "u64 \<Rightarrow> u64 \<Rightarrow> u64" where
  "round_up x multiple = round_down (x + multiple - 1) multiple"

definition reserved_physical_address :: "u64 \<Rightarrow> bool" where
  "reserved_physical_address pa \<longleftrightarrow> pa < PAGESIZE \<or> (0xA0000 \<le> pa \<and> pa < 0x100000)"

definition allocatable_physical_address :: "u64 \<Rightarrow> u64 \<Rightarrow> bool" where
  "allocatable_physical_address kend pa \<longleftrightarrow>
     \<not> reserved_physical_address pa
     \<and> (pa < KERNEL_START_ADDR \<or> round_up kend PAGESIZE \<le> pa)
     \<and> (pa < KERNEL_STACK_TOP - PAGESIZE \<or> KERNEL_STACK_TOP \<le> pa)
     \<and> pa < MEMSIZE_PHYSICAL"

abbreviation page_no :: "u64 \<Rightarrow> nat" where
  "page_no pa \<equiv> unat (pa div PAGESIZE)"

function kalloc_loop :: "u64 \<Rightarrow> kmem \<Rightarrow> u64 \<times> kmem" where
  "kalloc_loop next_alloc_pa s =
     (if next_alloc_pa < MEMSIZE_PHYSICAL then
        let pa = next_alloc_pa
        in if allocatable_physical_address (kernel_end s) pa \<and> \<not> used (pages s ! page_no pa)
           then (pa, s\<lparr>pages := (pages s)[page_no pa := 1],
                       phys := mem_fill (phys s) pa 0xCC PAGESIZE\<rparr>)
           else kalloc_loop (next_alloc_pa + PAGESIZE) s
      else (0, s))"
  by pat_completeness auto
termination
proof (relation "measure (\<lambda>(n, s). 0x200000 - unat n)", goal_cases)
  case 1 show ?case by simp
next
  case (2 n s x)
  then have "unat n < 0x200000" by (simp add: word_less_nat_alt)
  then have "unat (n + 4096) = unat n + 4096" by (subst unat_add_lt) simp_all
  with \<open>unat n < 0x200000\<close> show ?case by simp
qed

declare kalloc_loop.simps [simp del]

definition kalloc :: "u64 \<Rightarrow> kmem \<Rightarrow> u64 \<times> kmem" where
  "kalloc sz s = (if PAGESIZE < sz then (0, s) else kalloc_loop 0 s)"

text \<open>
  \<open>kfree\<close>: the reference count is one byte and wraps at 0. The result \<open>None\<close> is an access
  outside \<open>pages\<close>.
\<close>

definition kfree :: "u64 \<Rightarrow> kmem \<Rightarrow> kmem option" where
  "kfree kptr s =
     (if kptr = 0 then Some s
      else if page_no kptr < length (pages s) then
        let s1 = s\<lparr>pages := (pages s)[page_no kptr := pages s ! page_no kptr - 1]\<rparr>
        in Some (if pages s1 ! page_no kptr = 0
                 then s1\<lparr>phys := mem_fill (phys s1) kptr 0xCC PAGESIZE\<rparr> else s1)
      else None)"

section \<open>The contract of a page allocator\<close>

definition page_aligned :: "u64 \<Rightarrow> bool" where
  "page_aligned p \<longleftrightarrow> p AND PAGEOFFMASK = 0"

definition free_page :: "kmem \<Rightarrow> u64 \<Rightarrow> bool" where
  "free_page s p \<longleftrightarrow> page_aligned p \<and> allocatable_physical_address (kernel_end s) p
     \<and> \<not> used (pages s ! page_no p)"

definition pages_ok :: "kmem \<Rightarrow> bool" where
  "pages_ok s \<longleftrightarrow> length (pages s) = NPAGES"

locale page_allocator =
  fixes alloc :: "kmem \<Rightarrow> u64 \<times> kmem"
    and avail :: "kmem \<Rightarrow> u64 \<Rightarrow> bool"
    and okm :: "kmem \<Rightarrow> bool"
  assumes alloc_fails: "okm s \<Longrightarrow> alloc s = (0, s') \<Longrightarrow> s' = s \<and> \<not> avail s p"
    and alloc_avail: "okm s \<Longrightarrow> alloc s = (p, s') \<Longrightarrow> p \<noteq> 0 \<Longrightarrow> avail s p"
    and alloc_page: "okm s \<Longrightarrow> alloc s = (p, s') \<Longrightarrow> page_aligned p \<and> p < 0x100000000"
    and alloc_keeps: "okm s \<Longrightarrow> alloc s = (p, s') \<Longrightarrow> okm s'"
    and alloc_marks: "okm s \<Longrightarrow> alloc s = (p, s') \<Longrightarrow> p \<noteq> 0 \<Longrightarrow> avail s' q \<longleftrightarrow> avail s q \<and> q \<noteq> p"
    and alloc_frame: "okm s \<Longrightarrow> alloc s = (p, s') \<Longrightarrow> \<not> in_rng p 0x1000 x \<Longrightarrow> phys s' x = phys s x"
    and avail_phys [simp]: "avail (s\<lparr>phys := m\<rparr>) q = avail s q"
    and okm_phys [simp]: "okm (s\<lparr>phys := m\<rparr>) = okm s"

section \<open>\<open>kalloc\<close> meets the contract\<close>

lemma page_aligned_0 [simp]: "page_aligned 0" by (simp add: page_aligned_def)

lemma page_aligned_iff: "page_aligned p \<longleftrightarrow> (\<forall>n<12. \<not> bit p n)"
proof
  assume "page_aligned p"
  then have "p AND 0xFFF = 0" by (simp add: page_aligned_def)
  then show "\<forall>n<12. \<not> bit p n" by (metis bit_0_eq bit_FFF bit_and_iff bot_apply bot_bool_def)
next
  assume "\<forall>n<12. \<not> bit p n"
  then show "page_aligned p" unfolding page_aligned_def PAGEOFFMASK_def
    by (intro bit_word_eqI) (simp only: bit_and_iff bit_FFF bit_0_eq, auto)
qed

lemma page_aligned_dvd: "page_aligned p \<longleftrightarrow> 4096 dvd unat p"
proof -
  have "page_aligned p \<longleftrightarrow> take_bit 12 p = 0"
    unfolding page_aligned_iff by (auto simp: bit_eq_iff bit_take_bit_iff)
  also have "\<dots> \<longleftrightarrow> take_bit 12 (unat p) = 0"
    by (simp add: word_unat_eq_iff unsigned_take_bit_eq)
  also have "\<dots> \<longleftrightarrow> 4096 dvd unat p" by (simp add: take_bit_eq_mod mod_eq_0_iff_dvd)
  finally show ?thesis .
qed

lemma page_aligned_add: "page_aligned p \<Longrightarrow> page_aligned (p + 4096)"
proof -
  assume "page_aligned p"
  then have "4096 dvd unat p + 4096" by (simp add: page_aligned_dvd)
  then have "4096 dvd (unat p + 4096) mod 2 ^ 64" by (simp add: dvd_mod_iff)
  then show ?thesis by (simp add: page_aligned_dvd unat_word_ariths)
qed

lemma page_no_lt: "p < MEMSIZE_PHYSICAL \<Longrightarrow> page_no p < NPAGES"
  by (simp add: unat_div word_less_nat_alt less_mult_imp_div_less)

lemma page_no_inj: "page_aligned p \<Longrightarrow> page_aligned q \<Longrightarrow> page_no p = page_no q \<Longrightarrow> p = q"
  by (auto simp: page_aligned_dvd unat_div word_unat_eq_iff elim!: dvdE)

text \<open>The loop finds the first free page at or after its start, and only marks and fills it.\<close>

lemma kalloc_loop_spec:
  assumes "kalloc_loop n s = (p, s')" "page_aligned n"
  shows "(p = 0 \<and> s' = s \<and> (\<forall>q\<ge>n. \<not> free_page s q))
    \<or> (p \<noteq> 0 \<and> n \<le> p \<and> free_page s p \<and> (\<forall>q. n \<le> q \<and> q < p \<longrightarrow> \<not> free_page s q)
       \<and> s' = s\<lparr>pages := (pages s)[page_no p := 1], phys := mem_fill (phys s) p 0xCC PAGESIZE\<rparr>)"
  using assms
proof (induction n s rule: kalloc_loop.induct)
  case (1 n s)
  show ?case
  proof (cases "n < MEMSIZE_PHYSICAL")
    case False
    then have "\<forall>q\<ge>n. \<not> free_page s q"
      by (auto simp: free_page_def allocatable_physical_address_def)
    then show ?thesis using False 1(2) by (simp add: kalloc_loop.simps [of n s])
  next
    case True
    show ?thesis
    proof (cases "allocatable_physical_address (kernel_end s) n \<and> \<not> used (pages s ! page_no n)")
      case here: True
      then have "n \<noteq> 0" by (auto simp: allocatable_physical_address_def reserved_physical_address_def)
      with here True 1(2,3) show ?thesis
        by (simp add: kalloc_loop.simps [of n s] free_page_def Let_def) (metis not_le)
    next
      case False
      then have not_n: "\<not> free_page s n" by (auto simp: free_page_def)
      have rec: "kalloc_loop (n + PAGESIZE) s = (p, s')"
        using True False 1(2) by (simp add: kalloc_loop.simps [of n s] Let_def split: if_splits)
      have al: "page_aligned (n + PAGESIZE)" using 1(3) by (simp add: page_aligned_add)
      have un: "unat (n + 4096) = unat n + 4096"
        using True by (subst unat_add_lt) (simp_all add: word_less_nat_alt)
      have gap: "\<not> free_page s q" if "n \<le> q" "q < n + PAGESIZE" for q
      proof (cases "q = n")
        case True then show ?thesis using not_n by simp
      next
        case False
        then have "unat n < unat q" "unat q < unat n + 4096"
          using that un by (simp_all add: word_less_nat_alt word_le_nat_alt) (metis le_neq_implies_less word_unat_eq_iff)
        moreover have "4096 dvd unat n" using 1(3) by (simp add: page_aligned_dvd)
        ultimately have "\<not> 4096 dvd unat q" by (auto elim!: dvdE)
        then show ?thesis by (simp add: free_page_def page_aligned_dvd)
      qed
      have lt: "n \<le> n + PAGESIZE" using un by (simp add: word_le_nat_alt)
      have IH: "(p = 0 \<and> s' = s \<and> (\<forall>q\<ge>n + PAGESIZE. \<not> free_page s q))
        \<or> (p \<noteq> 0 \<and> n + PAGESIZE \<le> p \<and> free_page s p
           \<and> (\<forall>q. n + PAGESIZE \<le> q \<and> q < p \<longrightarrow> \<not> free_page s q)
           \<and> s' = s\<lparr>pages := (pages s)[page_no p := 1], phys := mem_fill (phys s) p 0xCC PAGESIZE\<rparr>)"
        by (rule 1(1) [OF True refl _ rec al]) (use False in simp)
      then show ?thesis
      proof (elim disjE conjE)
        assume "p = 0" "s' = s" "\<forall>q\<ge>n + PAGESIZE. \<not> free_page s q"
        then show ?thesis using gap by (meson not_le)
      next
        assume "p \<noteq> 0" "n + PAGESIZE \<le> p" "free_page s p"
          "\<forall>q. n + PAGESIZE \<le> q \<and> q < p \<longrightarrow> \<not> free_page s q"
          "s' = s\<lparr>pages := (pages s)[page_no p := 1], phys := mem_fill (phys s) p 0xCC PAGESIZE\<rparr>"
        then show ?thesis using gap lt by (meson not_le order_trans)
      qed
    qed
  qed
qed

lemma kalloc_cases:
  assumes "kalloc sz s = (p, s')" "sz \<le> PAGESIZE"
  obtains (none) "p = 0" "s' = s" "\<And>q. \<not> free_page s q"
  | (page) "p \<noteq> 0" "free_page s p" "\<And>q. free_page s q \<Longrightarrow> p \<le> q"
      "s' = s\<lparr>pages := (pages s)[page_no p := 1], phys := mem_fill (phys s) p 0xCC PAGESIZE\<rparr>"
proof -
  have "kalloc_loop 0 s = (p, s')" using assms by (simp add: kalloc_def leD)
  from kalloc_loop_spec [OF this page_aligned_0] show ?thesis
  proof (elim disjE conjE)
    assume "p \<noteq> 0" "free_page s p" "\<forall>q. 0 \<le> q \<and> q < p \<longrightarrow> \<not> free_page s q"
      "s' = s\<lparr>pages := (pages s)[page_no p := 1], phys := mem_fill (phys s) p 0xCC PAGESIZE\<rparr>"
    then show ?thesis by (intro page) (auto simp: not_less [symmetric])
  qed (auto intro: none)
qed

lemma free_page_range: "free_page s p \<Longrightarrow> page_aligned p \<and> p < MEMSIZE_PHYSICAL \<and> p \<noteq> 0"
  by (auto simp: free_page_def allocatable_physical_address_def reserved_physical_address_def)

interpretation kpa: page_allocator "kalloc PAGESIZE" free_page pages_ok
proof unfold_locales
  fix s s' p q x
  assume ok: "pages_ok s"
  { assume "kalloc PAGESIZE s = (0, s')"
    then show "s' = s \<and> \<not> free_page s p" by (rule kalloc_cases [OF _ order_refl]) auto }
  assume a: "kalloc PAGESIZE s = (p, s')"
  show "p \<noteq> 0 \<Longrightarrow> free_page s p" by (rule kalloc_cases [OF a order_refl]) auto
  show "page_aligned p \<and> p < 0x100000000"
  proof (cases rule: kalloc_cases [OF a order_refl, case_names none page])
    case page
    have "p < 0x200000" using free_page_range [OF page(2)] by simp
    then have "p < 0x100000000" by (rule less_trans) simp
    then show ?thesis using free_page_range [OF page(2)] by simp
  qed auto
  show "pages_ok s'" by (rule kalloc_cases [OF a order_refl]) (use ok in \<open>auto simp: pages_ok_def\<close>)
  show "\<not> in_rng p 0x1000 x \<Longrightarrow> phys s' x = phys s x"
    by (rule kalloc_cases [OF a order_refl]) (auto simp: mem_simps)
  assume p: "p \<noteq> 0"
  show "free_page s' q \<longleftrightarrow> free_page s q \<and> q \<noteq> p"
  proof (cases rule: kalloc_cases [OF a order_refl, case_names none page])
    case page
    then have r: "page_no p < length (pages s)"
      using ok free_page_range [OF page(2)] by (simp only: pages_ok_def page_no_lt)
    have "page_no q = page_no p \<Longrightarrow> page_aligned q \<Longrightarrow> q = p"
      using page_no_inj free_page_range [OF page(2)] by blast
    then show ?thesis using page(4) r by (auto simp: free_page_def nth_list_update used_def)
  qed (use p in simp_all)
qed (simp_all add: free_page_def pages_ok_def)

section \<open>Properties\<close>

text \<open>
  \<open>kalloc\<close> returns the lowest page that is allocatable and unused, with reference count 1
  and filled with 0xCC, and touches nothing else; it fails, without an effect, only when there
  is no such page. Pages that hold the kernel, its stack, the null page and the I/O hole are
  never returned.
\<close>

theorem kalloc_lowest_free:
  assumes "kalloc sz s = (p, s')" "sz \<le> PAGESIZE" "pages_ok s"
  shows "if p = 0 then s' = s \<and> (\<forall>q. \<not> free_page s q)
    else free_page s p \<and> (\<forall>q. free_page s q \<longrightarrow> p \<le> q)
      \<and> pages s' = (pages s)[page_no p := 1]
      \<and> (\<forall>i < 4096. phys s' (p + of_nat i) = 0xCC)
      \<and> (\<forall>x. \<not> in_rng p 4096 x \<longrightarrow> phys s' x = phys s x)
      \<and> PAGESIZE \<le> p \<and> \<not> (0xA0000 \<le> p \<and> p < 0x100000)
      \<and> \<not> (KERNEL_STACK_TOP - PAGESIZE \<le> p \<and> p < KERNEL_STACK_TOP)
      \<and> \<not> (KERNEL_START_ADDR \<le> p \<and> p < kernel_end s \<and> kernel_end s \<le> MEMSIZE_PHYSICAL)"
proof (cases rule: kalloc_cases [OF assms(1,2), case_names none page])
  case page
  have fill: "\<forall>i < 4096. phys s' (p + of_nat i) = 0xCC"
    using page(4) by (simp add: mem_fill_def in_rng_def word_less_nat_alt unat_of_nat)
  have kend: "kernel_end s \<le> round_up (kernel_end s) PAGESIZE" if "kernel_end s \<le> MEMSIZE_PHYSICAL"
  proof -
    have k: "unat (kernel_end s) \<le> 0x200000" using that by (simp add: word_le_nat_alt)
    then have u: "unat (kernel_end s + 4095) = unat (kernel_end s) + 4095" by (subst unat_add_lt) simp_all
    have "kernel_end s + 4095 - (kernel_end s + 4095) mod 4096 = (kernel_end s + 4095) div 4096 * 4096"
      by (rule minus_mod_eq_div_mult)
    moreover have "unat ((kernel_end s + 4095) div 4096 * 4096) = (unat (kernel_end s) + 4095) div 4096 * 4096"
    proof -
      have "(unat (kernel_end s) + 4095) div 4096 * 4096 < 2 ^ 64" using k by simp
      then show ?thesis using u by (simp add: unat_word_ariths unat_div)
    qed
    ultimately show ?thesis
      using div_mult_mod_eq [of "unat (kernel_end s) + 4095" 4096]
        mod_less_divisor [of 4096 "unat (kernel_end s) + 4095"]
      by (simp add: round_up_def round_down_def word_le_nat_alt add.commute del: minus_mod_eq_div_mult)
  qed
  show ?thesis
    using page fill kend
    by (auto simp: mem_simps free_page_def allocatable_physical_address_def
        reserved_physical_address_def not_less)
qed auto

definition mem0 :: kmem where
  "mem0 = \<lparr>phys = (\<lambda>_. 0), pages = replicate 512 0, kernel_end = 0x47000\<rparr>"

lemma kalloc_mem0:
  "kalloc 0x1000 mem0 = (0x1000, mem0\<lparr>pages := (replicate 512 0)[1 := 1],
     phys := mem_fill (\<lambda>_. 0) 0x1000 0xCC PAGESIZE\<rparr>)"
  by (simp add: kalloc_def kalloc_loop.simps [of 0 mem0] kalloc_loop.simps [of "0x1000" mem0])
    (simp add: mem0_def allocatable_physical_address_def reserved_physical_address_def used_def)

lemma pages_ok_mem0: "pages_ok mem0" by (simp add: pages_ok_def mem0_def)

theorem kalloc_lowest_free_witness:
  "free_page mem0 0x1000 \<and> phys (snd (kalloc 0x1000 mem0)) 0x1007 = 0xCC"
proof -
  have "free_page mem0 0x1000 \<and> (\<forall>i < 4096. phys (snd (kalloc 0x1000 mem0)) (0x1000 + of_nat i) = 0xCC)"
    using kalloc_lowest_free [OF kalloc_mem0 _ pages_ok_mem0] by (simp add: kalloc_mem0)
  then have "free_page mem0 0x1000" and fill: "\<And>i. i < 4096 \<Longrightarrow>
      phys (snd (kalloc 0x1000 mem0)) (0x1000 + of_nat i) = 0xCC" by blast+
  moreover from fill [of 7] have "phys (snd (kalloc 0x1000 mem0)) (0x1000 + of_nat 7) = 0xCC"
    by simp
  moreover have "(0x1000 + of_nat 7 :: u64) = 0x1007" by simp
  ultimately show ?thesis by metis
qed

text \<open>
  \<open>kfree\<close> drops exactly one reference: the page becomes free, and is filled with 0xCC, when
  and only when the last reference is dropped; other pages keep their counts and contents. A
  page that \<open>kalloc\<close> just handed out is free again after \<open>kfree\<close>.
\<close>

theorem kfree_drops_reference:
  assumes "pages_ok s" "page_aligned p" "p < MEMSIZE_PHYSICAL"
    "allocatable_physical_address (kernel_end s) p" "used (pages s ! page_no p)"
  obtains s' where "kfree p s = Some s'"
    and "unat (pages s' ! page_no p) = unat (pages s ! page_no p) - 1"
    and "\<forall>q. free_page s' q \<longleftrightarrow> free_page s q \<or> (q = p \<and> pages s ! page_no p = 1)"
    and "\<forall>i. i \<noteq> page_no p \<longrightarrow> pages s' ! i = pages s ! i"
    and "\<forall>x. pages s ! page_no p \<noteq> 1 \<or> \<not> in_rng p 4096 x \<longrightarrow> phys s' x = phys s x"
proof -
  let ?c = "pages s ! page_no p"
  let ?s1 = "s\<lparr>pages := (pages s)[page_no p := ?c - 1]\<rparr>"
  let ?s' = "if ?c - 1 = 0 then ?s1\<lparr>phys := mem_fill (phys s) p 0xCC PAGESIZE\<rparr> else ?s1"
  have r: "page_no p < length (pages s)" using assms(1,3) by (simp only: pages_ok_def page_no_lt)
  have p0: "p \<noteq> 0"
    using assms(4) by (auto simp: allocatable_physical_address_def reserved_physical_address_def)
  have c0: "?c \<noteq> 0" using assms(5) by (simp add: used_def)
  have one: "?c - 1 = 0 \<longleftrightarrow> ?c = 1" by simp
  have "kfree p s = Some ?s'" using r p0 by (simp add: kfree_def Let_def)
  moreover have "unat (pages ?s' ! page_no p) = unat ?c - 1"
    using r c0 by (simp add: unat_minus_one)
  moreover have "page_no q = page_no p \<Longrightarrow> page_aligned q \<Longrightarrow> q = p" for q
    using page_no_inj assms(2) by blast
  then have "\<forall>q. free_page ?s' q \<longleftrightarrow> free_page s q \<or> (q = p \<and> ?c = 1)"
    using r assms(2,4) c0 by (auto simp: free_page_def nth_list_update used_def)
  moreover have "\<forall>i. i \<noteq> page_no p \<longrightarrow> pages ?s' ! i = pages s ! i" by simp
  moreover have "\<forall>x. ?c \<noteq> 1 \<or> \<not> in_rng p 4096 x \<longrightarrow> phys ?s' x = phys s x"
    by (simp add: mem_simps)
  ultimately show ?thesis by (rule that)
qed

theorem kfree_drops_reference_witness:
  "\<exists>s'. kfree 0x1000 (snd (kalloc 0x1000 mem0)) = Some s' \<and> free_page s' 0x1000"
proof -
  let ?s = "snd (kalloc 0x1000 mem0)"
  have "pages_ok ?s" "page_aligned 0x1000" "(0x1000::u64) < MEMSIZE_PHYSICAL"
    "allocatable_physical_address (kernel_end ?s) 0x1000" "used (pages ?s ! page_no 0x1000)"
    and one: "pages ?s ! page_no 0x1000 = 1"
    by (simp_all add: kalloc_mem0) (simp_all add: pages_ok_def page_aligned_def mem0_def used_def
        allocatable_physical_address_def reserved_physical_address_def round_up_def round_down_def)
  note pre = this
  from pre(1-5) obtain s' where "kfree 0x1000 ?s = Some s'"
    and "\<forall>q. free_page s' q \<longleftrightarrow> free_page ?s q \<or> (q = 0x1000 \<and> pages ?s ! page_no 0x1000 = 1)"
    by (rule kfree_drops_reference) blast
  then show ?thesis using one by simp
qed

end
