(* ===== verification/Vmiter.thy ===== *)
theory Vmiter
  imports PageAlloc "HOL-Library.Monad_Syntax"
begin

text \<open>
  The page table iterators of the kernel (\<open>pset3/k-vmiter.hh\<close>, \<open>k-vmiter.cc\<close>). A page table is
  an x86-64 four-level tree in physical memory. An iterator holds a virtual address and a
  pointer to the deepest page table entry on the path of the address; \<open>find\<close> moves it without
  starting from the root when the address stays inside the current table. The result \<open>None\<close> is
  a kernel panic (a failed assertion, a page table that looks uninitialised, or a write to the
  constant \<open>zero_pe\<close>). Permissions (\<open>int\<close> in the code) hold 12 bits and are kept at 64 bits.
  The page allocator that \<open>try_map\<close> calls is an argument; the kernel passes \<open>kalloc\<close>.
\<close>

section \<open>\<open>vmiter\<close>\<close>

text \<open>A pointer to a page table entry: into a table, or the address of \<open>zero_pe\<close>.\<close>

datatype pep = Entry u64 | ZeroPE

record vmiter =
  it_pt :: u64
  it_pep :: pep
  it_level :: nat
  it_perm :: u64
  it_va :: u64

definition initial_perm :: u64 where [simp]: "initial_perm = 0xFFF"

definition load_pe :: "mem \<Rightarrow> pep \<Rightarrow> u64" where
  "load_pe m e = (case e of Entry a \<Rightarrow> ld64 m a | ZeroPE \<Rightarrow> 0)"

definition store_pe :: "mem \<Rightarrow> pep \<Rightarrow> u64 \<Rightarrow> mem option" where
  "store_pe m e v = (case e of Entry a \<Rightarrow> Some (st64 m a v) | ZeroPE \<Rightarrow> None)"

abbreviation cur_pe :: "mem \<Rightarrow> vmiter \<Rightarrow> u64" where
  "cur_pe m it \<equiv> load_pe m (it_pep it)"

text \<open>The address of entry \<open>i\<close> of the table at \<open>t\<close>.\<close>

definition entry_addr :: "u64 \<Rightarrow> u64 \<Rightarrow> u64" where
  "entry_addr t i = t + 8 * i"

function down_loop :: "mem \<Rightarrow> vmiter \<Rightarrow> vmiter" where
  "down_loop m it =
     (if 0 < it_level it \<and> cur_pe m it AND (PTE_P OR PTE_PS) = PTE_P then
        let pe = cur_pe m it;
            l = it_level it - 1;
            pa = pe AND PTE_PAMASK
        in down_loop m (it\<lparr>it_perm := it_perm it AND pe, it_level := l,
             it_pep := Entry (entry_addr pa (pageindex (it_va it) l))\<rparr>)
      else it)"
  by pat_completeness auto
termination by (relation "measure (\<lambda>(m, it). it_level it)") auto

declare down_loop.simps [simp del]

definition vm_down :: "mem \<Rightarrow> vmiter \<Rightarrow> vmiter option" where
  "vm_down m it =
     (let it' = down_loop m it
      in if 0x100000000 \<le> cur_pe m it' AND PTE_PAMASK then None else Some it')"

definition real_find :: "mem \<Rightarrow> vmiter \<Rightarrow> u64 \<Rightarrow> vmiter option" where
  "real_find m it va =
     (let it1 =
        (if it_level it = 3 \<or> (it_va it XOR va) AND NOT (pageoffmask (it_level it + 1)) \<noteq> 0 then
           if va_is_canonical va
           then it\<lparr>it_level := 3, it_perm := initial_perm,
                   it_pep := Entry (entry_addr (it_pt it) (pageindex va 3))\<rparr>
           else it\<lparr>it_level := 3, it_perm := 0, it_pep := ZeroPE\<rparr>
         else case it_pep it of
             Entry a \<Rightarrow>
               let curidx = drop_bit 3 (a AND PAGEOFFMASK)
               in it\<lparr>it_pep := Entry (a + 8 * (pageindex va (it_level it) - curidx))\<rparr>
           | ZeroPE \<Rightarrow> it)
      in vm_down m (it1\<lparr>it_va := va\<rparr>))"

definition vmiter_new :: "mem \<Rightarrow> u64 \<Rightarrow> u64 \<Rightarrow> vmiter option" where
  "vmiter_new m pt va =
     real_find m \<lparr>it_pt = pt, it_pep = Entry (entry_addr pt 0), it_level = 3,
                  it_perm = initial_perm, it_va = 0\<rparr> va"

definition vm_last_va :: "vmiter \<Rightarrow> u64" where
  "vm_last_va it = (it_va it OR pageoffmask (it_level it)) + 1"

definition vm_low :: "vmiter \<Rightarrow> bool" where
  "vm_low it \<longleftrightarrow> it_va it \<le> VA_LOWMAX"

definition vm_pa :: "mem \<Rightarrow> vmiter \<Rightarrow> u64" where
  "vm_pa m it =
     (if cur_pe m it AND PTE_P \<noteq> 0 then
        let pa = cur_pe m it AND PTE_PAMASK;
            pa' = (if 0 < it_level it then pa AND NOT 0x1000 else pa)
        in pa' + (it_va it AND pageoffmask (it_level it))
      else - 1)"

definition vm_perm :: "mem \<Rightarrow> vmiter \<Rightarrow> u64" where
  "vm_perm m it = (if cur_pe m it AND PTE_P \<noteq> 0 then cur_pe m it AND it_perm it else 0)"

definition vm_perm_ok :: "mem \<Rightarrow> vmiter \<Rightarrow> u64 \<Rightarrow> bool" where
  "vm_perm_ok m it p \<longleftrightarrow> cur_pe m it AND it_perm it AND p = p"

definition vm_present :: "mem \<Rightarrow> vmiter \<Rightarrow> bool" where
  "vm_present m it \<longleftrightarrow> cur_pe m it AND PTE_P \<noteq> 0"

definition vm_writable :: "mem \<Rightarrow> vmiter \<Rightarrow> bool" where
  "vm_writable m it \<longleftrightarrow> vm_perm_ok m it (PTE_P OR PTE_W)"

definition vm_user :: "mem \<Rightarrow> vmiter \<Rightarrow> bool" where
  "vm_user m it \<longleftrightarrow> vm_perm_ok m it (PTE_P OR PTE_U)"

definition vm_add :: "mem \<Rightarrow> vmiter \<Rightarrow> u64 \<Rightarrow> vmiter option" where
  "vm_add m it delta = real_find m it (it_va it + delta)"

definition vm_sub :: "mem \<Rightarrow> vmiter \<Rightarrow> u64 \<Rightarrow> vmiter option" where
  "vm_sub m it delta = real_find m it (it_va it - delta)"

definition vm_next_range :: "mem \<Rightarrow> vmiter \<Rightarrow> vmiter option" where
  "vm_next_range m it = real_find m it (vm_last_va it)"

definition vm_next :: "mem \<Rightarrow> vmiter \<Rightarrow> vmiter option" where
  "vm_next m it =
     (let level = (if 0 < it_level it \<and> vm_perm m it = 0 then it_level it else 0)
      in real_find m it ((it_va it OR pageoffmask level) + 1))"

text \<open>\<open>perm(last_va, p)\<close> with the iterator it leaves behind; it need not return.\<close>

partial_function (option) vm_perm_until :: "mem \<Rightarrow> vmiter \<Rightarrow> u64 \<Rightarrow> u64 \<Rightarrow> (bool \<times> vmiter) option" where
  "vm_perm_until m it last_va p =
     (if it_va it < last_va then
        if \<not> vm_perm_ok m it p then Some (False, it)
        else Option.bind (vm_next_range m it) (\<lambda>it'. vm_perm_until m it' last_va p)
      else Some (True, it))"

definition vm_low_perm :: "mem \<Rightarrow> vmiter \<Rightarrow> u64 \<Rightarrow> u64 \<Rightarrow> u64 \<Rightarrow> (bool \<times> vmiter) option" where
  "vm_low_perm m it firstva lastva p =
     (if firstva \<le> lastva \<and> lastva \<le> VA_LOWEND then
        if firstva = lastva then Some (True, it)
        else Option.bind (real_find m it firstva) (\<lambda>it'. vm_perm_until m it' lastva p)
      else Some (False, it))"

definition vm_low_perm_size :: "mem \<Rightarrow> vmiter \<Rightarrow> u64 \<Rightarrow> u64 \<Rightarrow> u64 \<Rightarrow> (bool \<times> vmiter) option" where
  "vm_low_perm_size m it firstva sz p =
     (if firstva \<le> VA_LOWEND \<and> sz \<le> VA_LOWEND - firstva then
        if sz = 0 then Some (True, it)
        else Option.bind (real_find m it firstva) (\<lambda>it'. vm_perm_until m it' (firstva + sz) p)
      else Some (False, it))"

subsection \<open>\<open>try_map\<close>\<close>

definition map_asserts :: "vmiter \<Rightarrow> u64 \<Rightarrow> u64 \<Rightarrow> bool" where
  "map_asserts it pa perm \<longleftrightarrow>
     it_va it AND PAGEOFFMASK = 0
     \<and> (if perm AND PTE_P \<noteq> 0 then pa \<noteq> - 1 \<and> pa AND PTE_PAMASK = pa else pa AND PTE_P = 0)
     \<and> perm AND NOT (it_perm it) AND (PTE_P OR PTE_W OR PTE_U) = 0"

partial_function (option) map_loop ::
  "(kmem \<Rightarrow> u64 \<times> kmem) \<Rightarrow> kmem \<Rightarrow> vmiter \<Rightarrow> u64 \<Rightarrow> (int \<times> vmiter \<times> kmem) option" where
  "map_loop alloc s it perm =
     (if 0 < it_level it \<and> perm \<noteq> 0 then
        if cur_pe (phys s) it AND PTE_P \<noteq> 0 then None
        else if fst (alloc s) = 0 then Some (- 1, it, snd (alloc s))
        else Option.bind
          (store_pe (mem_fill (phys (snd (alloc s))) (fst (alloc s)) 0 PAGESIZE) (it_pep it)
             (fst (alloc s) OR PTE_P OR PTE_W OR PTE_U))
          (\<lambda>m. Option.bind (vm_down m it) (\<lambda>it'. map_loop alloc ((snd (alloc s))\<lparr>phys := m\<rparr>) it' perm))
      else Some (0, it, s))"

definition try_map ::
  "(kmem \<Rightarrow> u64 \<times> kmem) \<Rightarrow> kmem \<Rightarrow> vmiter \<Rightarrow> u64 \<Rightarrow> u64 \<Rightarrow> (int \<times> vmiter \<times> kmem) option" where
  "try_map alloc s it pa0 perm =
     (let pa = (if pa0 = - 1 \<and> perm = 0 then 0 else pa0)
      in if \<not> map_asserts it pa perm then None
         else Option.bind (map_loop alloc s it perm) (\<lambda>(r, it', s').
           if r \<noteq> 0 then Some (r, it', s')
           else if it_level it' = 0 then
             Option.bind (store_pe (phys s') (it_pep it') (pa OR perm))
               (\<lambda>m. Some (0, it', s'\<lparr>phys := m\<rparr>))
           else Some (0, it', s')))"

definition vm_map ::
  "(kmem \<Rightarrow> u64 \<times> kmem) \<Rightarrow> kmem \<Rightarrow> vmiter \<Rightarrow> u64 \<Rightarrow> u64 \<Rightarrow> (vmiter \<times> kmem) option" where
  "vm_map alloc s it pa perm =
     Option.bind (try_map alloc s it pa perm)
       (\<lambda>(r, it', s'). if r = 0 then Some (it', s') else None)"

section \<open>\<open>ptiter\<close>\<close>

record ptiter =
  pi_pt :: u64
  pi_pep :: u64
  pi_level :: nat
  pi_va :: u64

partial_function (option) pt_down :: "mem \<Rightarrow> ptiter \<Rightarrow> nat \<Rightarrow> bool \<Rightarrow> ptiter option" where
  "pt_down m it stop_level skip =
     (if ld64 m (pi_pep it) AND (PTE_P OR PTE_PS) = PTE_P \<and> \<not> skip then
        if pi_level it = stop_level then Some it
        else pt_down m
          (it\<lparr>pi_level := pi_level it - 1,
              pi_pep := entry_addr (ld64 m (pi_pep it) AND PTE_PAMASK) (pageindex (pi_va it) (pi_level it - 1))\<rparr>)
          stop_level skip
      else if (((pi_va it OR pageoffmask (pi_level it)) + 1) XOR pi_va it)
                AND NOT (pageoffmask (pi_level it + 1)) \<noteq> 0 then
        if pi_level it = 3 then Some (it\<lparr>pi_va := VA_NONCANONMAX + 1\<rparr>)
        else pt_down m
          (it\<lparr>pi_level := 3, pi_pep := entry_addr (pi_pt it) (pageindex (pi_va it) 3)\<rparr>)
          (pi_level it + 1) False
      else pt_down m
        (it\<lparr>pi_pep := pi_pep it + 8, pi_va := (pi_va it OR pageoffmask (pi_level it)) + 1\<rparr>)
        stop_level False)"

definition ptiter_new :: "mem \<Rightarrow> u64 \<Rightarrow> u64 \<Rightarrow> ptiter option" where
  "ptiter_new m pt va =
     pt_down m \<lparr>pi_pt = pt, pi_pep = entry_addr pt (pageindex va 3), pi_level = 3, pi_va = va\<rparr> 1 False"

definition pt_next :: "mem \<Rightarrow> ptiter \<Rightarrow> ptiter option" where
  "pt_next m it = pt_down m it 1 True"

definition pt_active :: "ptiter \<Rightarrow> bool" where
  "pt_active it \<longleftrightarrow> pi_va it \<le> VA_NONCANONMAX"

definition pt_pa :: "mem \<Rightarrow> ptiter \<Rightarrow> u64" where
  "pt_pa m it = ld64 m (pi_pep it) AND PTE_PAMASK"

definition pt_va :: "ptiter \<Rightarrow> u64" where
  "pt_va it = pi_va it AND NOT (pageoffmask (pi_level it))"

definition pt_last_va :: "ptiter \<Rightarrow> u64" where
  "pt_last_va it = (pi_va it OR pageoffmask (pi_level it)) + 1"

definition pt_level :: "ptiter \<Rightarrow> nat" where
  "pt_level it = pi_level it - 1"

end
