(* ===== verification/PageTable.thy ===== *)
theory PageTable
  imports Vmiter
begin

text \<open>
  What the page table iterator computes. The specification is the page walk of the processor
  from the root (\<open>walk\<close>), and the address space it defines: \<open>mapping\<close> gives the physical
  address and the P, W and U permissions of a virtual address. The lemmas show that an iterator
  that stands anywhere on a walk finds the same entry as a walk from the root, that \<open>next\<close>
  skips no mapped page, and that \<open>low_perm\<close> decides the permissions of a whole range.
\<close>

section \<open>The page walk\<close>

abbreviation walk_on :: "u64 \<Rightarrow> bool" where
  "walk_on pe \<equiv> pe AND (PTE_P OR PTE_PS) = PTE_P"

definition entry_at :: "mem \<Rightarrow> u64 \<Rightarrow> u64 \<Rightarrow> nat \<Rightarrow> u64" where
  "entry_at m t va l = ld64 m (entry_addr t (pageindex va l))"

text \<open>The table reached after \<open>d\<close> steps from the root, with the permissions collected so far.\<close>

fun table_at :: "mem \<Rightarrow> u64 \<Rightarrow> u64 \<Rightarrow> nat \<Rightarrow> (u64 \<times> u64) option" where
  "table_at m pt va 0 = Some (pt, initial_perm)"
| "table_at m pt va (Suc d) =
     (case table_at m pt va d of None \<Rightarrow> None
      | Some (t, p) \<Rightarrow>
          let pe = entry_at m t va (3 - d)
          in if walk_on pe then Some (pe AND PTE_PAMASK, p AND pe) else None)"

text \<open>The end of the walk: its level, the entry, and the permissions of the tables above it.\<close>

fun walk :: "mem \<Rightarrow> u64 \<Rightarrow> u64 \<Rightarrow> nat \<Rightarrow> u64 \<Rightarrow> nat \<times> u64 \<times> u64" where
  "walk m t p 0 va = (0, entry_at m t va 0, p)"
| "walk m t p (Suc l) va =
     (let pe = entry_at m t va (Suc l)
      in if walk_on pe then walk m (pe AND PTE_PAMASK) (p AND pe) l va else (Suc l, pe, p))"

definition pt_entry :: "mem \<Rightarrow> u64 \<Rightarrow> u64 \<Rightarrow> nat \<times> u64 \<times> u64" where
  "pt_entry m pt va = (if va_is_canonical va then walk m pt initial_perm 3 va else (3, 0, 0))"

definition frame_addr :: "nat \<Rightarrow> u64 \<Rightarrow> u64 \<Rightarrow> u64" where
  "frame_addr l pe va =
     (if l = 0 then pe AND PTE_PAMASK else pe AND PTE_PAMASK AND NOT 0x1000) + (va AND pageoffmask l)"

definition mapping :: "mem \<Rightarrow> u64 \<Rightarrow> u64 \<Rightarrow> (u64 \<times> u64) option" where
  "mapping m pt va =
     (case pt_entry m pt va of (l, pe, p) \<Rightarrow>
        if pe AND PTE_P \<noteq> 0 then Some (frame_addr l pe va, pe AND p AND (PTE_P OR PTE_W OR PTE_U)) else None)"

lemma walk_on_bits: "walk_on pe \<longleftrightarrow> bit pe 0 \<and> \<not> bit pe 7"
proof -
  have b: "bit (0x81 :: u64) n \<longleftrightarrow> n = 0 \<or> n = 7" for n
  proof -
    have "(0x81 :: u64) = push_bit 0 1 OR push_bit 7 1" by simp
    then show ?thesis by (simp only: bit_or_iff bit_push_bit_iff bit_1_iff) auto
  qed
  have c: "bit (1 :: u64) n \<longleftrightarrow> n = 0" for n by (simp add: bit_1_iff)
  have "pe AND 0x81 = 1 \<longleftrightarrow> bit pe 0 \<and> \<not> bit pe 7"
  proof
    assume a: "pe AND 0x81 = 1"
    then have "bit (pe AND 0x81) 0 = bit (1 :: u64) 0" "bit (pe AND 0x81) 7 = bit (1 :: u64) 7" by simp_all
    then show "bit pe 0 \<and> \<not> bit pe 7" unfolding bit_and_iff b c by simp
  next
    assume "bit pe 0 \<and> \<not> bit pe 7"
    then show "pe AND 0x81 = 1" by (intro bit_word_eqI) (unfold bit_and_iff b c, auto)
  qed
  then show ?thesis by simp
qed

lemma present_bit: "pe AND PTE_P \<noteq> 0 \<longleftrightarrow> bit pe 0"
  by (simp add: and_one_eq odd_iff_mod_2_eq_one [symmetric] bit_0)

lemma page_aligned_PAMASK [simp]: "page_aligned (pe AND PTE_PAMASK)"
  unfolding page_aligned_iff PTE_PAMASK_def by (simp only: bit_and_iff bit_PAMASK) auto

lemma table_at_aligned:
  "page_aligned pt \<Longrightarrow> table_at m pt va d = Some (t, p) \<Longrightarrow> page_aligned t"
  by (cases d) (auto simp: Let_def split: option.splits if_splits simp del: PTE_PAMASK_def)

lemma walk_table_at:
  "table_at m pt va d = Some (t, p) \<Longrightarrow> d \<le> 3 \<Longrightarrow>
   walk m pt initial_perm 3 va = walk m t p (3 - d) va"
proof (induction d arbitrary: t p)
  case (Suc d)
  then obtain t0 p0 where t0: "table_at m pt va d = Some (t0, p0)"
    and w: "walk_on (entry_at m t0 va (3 - d))"
    and t: "t = entry_at m t0 va (3 - d) AND PTE_PAMASK" "p = p0 AND entry_at m t0 va (3 - d)"
    by (auto simp: Let_def split: option.splits if_splits)
  have d: "3 - d = Suc (3 - Suc d)" using Suc.prems(2) by simp
  show ?case using Suc.IH [OF t0] Suc.prems(2) w t by (simp add: d Let_def)
qed simp

text \<open>A walk that stops at level \<open>l\<close> stops in the table reached after \<open>3 - l\<close> steps.\<close>

lemma walk_end:
  assumes "table_at m pt va d = Some (t, p)" "d \<le> 3" "walk m t p (3 - d) va = (l, pe, q)"
  shows "l \<le> 3 - d \<and> (\<exists>t'. table_at m pt va (3 - l) = Some (t', q) \<and> pe = entry_at m t' va l)
    \<and> (l = 0 \<or> \<not> walk_on pe)"
  using assms
proof (induction "3 - d" arbitrary: d t p)
  case 0
  then show ?case by auto
next
  case (Suc k)
  have d: "3 - d = Suc k" "3 - Suc d = k" "Suc d \<le> 3" using Suc.hyps(2) by auto
  let ?pe = "entry_at m t va (Suc k)"
  show ?case
  proof (cases "walk_on ?pe")
    case True
    have "table_at m pt va (Suc d) = Some (?pe AND PTE_PAMASK, p AND ?pe)"
      using Suc.prems(1) True d by (simp add: Let_def)
    moreover have "walk m (?pe AND PTE_PAMASK) (p AND ?pe) (3 - Suc d) va = (l, pe, q)"
      using Suc.prems(3) True d by (simp add: Let_def)
    ultimately show ?thesis using Suc.hyps(1) [of "Suc d"] d by fastforce
  next
    case False
    then show ?thesis using Suc.prems d by (auto simp: Let_def)
  qed
qed

section \<open>The path of an address\<close>

definition same_path :: "nat \<Rightarrow> u64 \<Rightarrow> u64 \<Rightarrow> bool" where
  "same_path d v w \<longleftrightarrow> (\<forall>e<d. pageindex v (3 - e) = pageindex w (3 - e))"

lemma same_path_refl [simp]: "same_path d v v" by (simp add: same_path_def)
lemma same_path_sym: "same_path d v w \<Longrightarrow> same_path d w v" by (simp add: same_path_def)
lemma same_path_mono: "same_path d v w \<Longrightarrow> e \<le> d \<Longrightarrow> same_path e v w" by (auto simp: same_path_def)
lemma same_path_Suc: "same_path (Suc d) v w \<longleftrightarrow> same_path d v w \<and> pageindex v (3 - d) = pageindex w (3 - d)"
  by (auto simp: same_path_def less_Suc_eq)

lemma table_at_cong:
  "same_path d v w \<Longrightarrow> table_at m pt v d = table_at m pt w d"
  by (induction d) (auto simp: same_path_Suc entry_at_def Let_def split: option.split)

lemma walk_cong:
  "same_path 4 v w \<Longrightarrow> l \<le> 3 \<Longrightarrow> walk m t p l v = walk m t p l w"
proof (induction l arbitrary: t p)
  case 0
  then have "\<And>e. e < 4 \<Longrightarrow> pageindex v (3 - e) = pageindex w (3 - e)" by (simp add: same_path_def)
  from this [of 3] show ?case by (simp add: entry_at_def)
next
  case (Suc l)
  have "pageindex v (3 - (3 - Suc l)) = pageindex w (3 - (3 - Suc l))"
    using Suc.prems by (simp only: same_path_def)
  then show ?case using Suc by (simp add: entry_at_def Let_def)
qed

lemma agree_same_path: "agree (12 + l * 9) v w \<Longrightarrow> l \<le> 4 \<Longrightarrow> same_path (4 - l) v w"
  unfolding same_path_def by (auto intro!: agree_pageindex elim: agree_mono)

section \<open>Iterators on a walk\<close>

definition on_walk :: "mem \<Rightarrow> vmiter \<Rightarrow> bool" where
  "on_walk m it \<longleftrightarrow> it_level it \<le> 3 \<and> page_aligned (it_pt it)
     \<and> (if va_is_canonical (it_va it)
        then \<exists>t. table_at m (it_pt it) (it_va it) (3 - it_level it) = Some (t, it_perm it)
               \<and> it_pep it = Entry (entry_addr t (pageindex (it_va it) (it_level it)))
        else it_level it = 3 \<and> it_perm it = 0 \<and> it_pep it = ZeroPE)"

text \<open>An iterator at the end of the walk of its address.\<close>

definition at_leaf :: "mem \<Rightarrow> vmiter \<Rightarrow> bool" where
  "at_leaf m it \<longleftrightarrow> on_walk m it \<and> (it_level it, cur_pe m it, it_perm it) = pt_entry m (it_pt it) (it_va it)
     \<and> cur_pe m it AND PTE_PAMASK < 0x100000000"

lemma down_loop_leaf:
  assumes "on_walk m it"
  shows "on_walk m (down_loop m it) \<and> it_pt (down_loop m it) = it_pt it \<and> it_va (down_loop m it) = it_va it
    \<and> (it_level (down_loop m it), cur_pe m (down_loop m it), it_perm (down_loop m it)) = pt_entry m (it_pt it) (it_va it)"
  using assms
proof (induction m it rule: down_loop.induct)
  case (1 m it)
  show ?case
  proof (cases "va_is_canonical (it_va it)")
    case False
    then show ?thesis using 1(2)
      by (subst (1 2 3 4 5 6) down_loop.simps) (simp add: on_walk_def load_pe_def pt_entry_def)
  next
    case True
    then obtain t where l3: "it_level it \<le> 3" and al: "page_aligned (it_pt it)"
      and t: "table_at m (it_pt it) (it_va it) (3 - it_level it) = Some (t, it_perm it)"
      and pep: "it_pep it = Entry (entry_addr t (pageindex (it_va it) (it_level it)))"
      using 1(2) by (auto simp: on_walk_def)
    have pe: "cur_pe m it = entry_at m t (it_va it) (it_level it)"
      by (simp add: pep load_pe_def entry_at_def)
    have w: "pt_entry m (it_pt it) (it_va it) = walk m t (it_perm it) (it_level it) (it_va it)"
      using walk_table_at [OF t] True l3 by (simp add: pt_entry_def del: initial_perm_def)
    let ?c = "0 < it_level it \<and> walk_on (cur_pe m it)"
    show ?thesis
    proof (cases ?c)
      case False
      then have "down_loop m it = it" by (subst down_loop.simps) (simp only: if_False)
      moreover have "pt_entry m (it_pt it) (it_va it) = (it_level it, cur_pe m it, it_perm it)"
        using False w pe by (cases "it_level it") (auto simp: Let_def)
      ultimately show ?thesis using 1(2) by simp
    next
      case c: True
      let ?it = "it\<lparr>it_perm := it_perm it AND cur_pe m it, it_level := it_level it - 1,
         it_pep := Entry (entry_addr (cur_pe m it AND PTE_PAMASK) (pageindex (it_va it) (it_level it - 1)))\<rparr>"
      have eq: "down_loop m it = down_loop m ?it"
        using c by (subst down_loop.simps) (simp add: Let_def)
      have lv: "3 - (it_level it - 1) = Suc (3 - it_level it)" "3 - (3 - it_level it) = it_level it"
        using c l3 by auto
      have "table_at m (it_pt it) (it_va it) (Suc (3 - it_level it)) = Some (cur_pe m it AND PTE_PAMASK, it_perm it AND cur_pe m it)"
        using t c pe lv by (simp add: Let_def)
      then have "on_walk m ?it" using True l3 al
        by (simp add: on_walk_def lv [simplified] del: table_at.simps)
      from 1(1) [OF c refl refl refl this] show ?thesis unfolding eq by simp
    qed
  qed
qed

lemma vm_down_leaf:
  assumes "on_walk m it"
  shows "vm_down m it =
    (if 0x100000000 \<le> fst (snd (pt_entry m (it_pt it) (it_va it))) AND PTE_PAMASK then None
     else Some (down_loop m it))"
  using down_loop_leaf [OF assms]
  by (cases "pt_entry m (it_pt it) (it_va it)") (simp add: vm_down_def Let_def del: PTE_PAMASK_def)

lemma pt_entry_end:
  assumes "pt_entry m pt va = (l, pe, q)" "va_is_canonical va"
  shows "l \<le> 3 \<and> (\<exists>t. table_at m pt va (3 - l) = Some (t, q) \<and> pe = entry_at m t va l)
    \<and> (l = 0 \<or> \<not> walk_on pe)"
  using walk_end [of m pt va 0 pt initial_perm l pe q] assms
  by (simp add: pt_entry_def del: initial_perm_def)

section \<open>Finding an address from anywhere\<close>

lemma unat_entry_addr:
  assumes "page_aligned t" "i < 512"
  shows "unat (entry_addr t i) = unat t + 8 * unat i"
proof -
  have i: "unat i < 512" using assms(2) by (simp add: word_less_nat_alt)
  then have i8: "unat (8 * i) = 8 * unat i" by (simp add: unat_word_ariths)
  obtain k where k: "unat t = 4096 * k" using assms(1) by (auto simp: page_aligned_dvd elim: dvdE)
  have "unat t < 2 ^ 64" using unsigned_less [of t, where 'a = nat] by simp
  then have "unat t + 8 * unat i < 2 ^ 64" using i k by simp
  then show ?thesis using i8 by (simp add: entry_addr_def unat_add_lt)
qed

lemma entry_index:
  assumes "page_aligned t" "i < 512"
  shows "drop_bit 3 (entry_addr t i AND PAGEOFFMASK) = i"
proof -
  have m: "(0xFFF :: u64) = mask 12" by (simp add: mask_eq_exp_minus_1)
  have "entry_addr t i AND PAGEOFFMASK = take_bit 12 (entry_addr t i)"
    by (simp only: PAGEOFFMASK_def m take_bit_eq_mask)
  then have "unat (entry_addr t i AND PAGEOFFMASK) = (unat t + 8 * unat i) mod 4096"
    by (simp add: take_bit_eq_mod unat_mod unat_entry_addr [OF assms])
  also have "\<dots> = 8 * unat i"
    using assms by (auto simp: page_aligned_dvd word_less_nat_alt elim!: dvdE)
  finally show ?thesis by (simp add: word_unat_eq_iff unat_div drop_bit_eq_div)
qed

lemma entry_addr_inj:
  assumes "page_aligned t" "page_aligned u" "i < 512" "j < 512" "entry_addr t i = entry_addr u j"
  shows "t = u \<and> i = j"
proof -
  have "i = j" using entry_index [OF assms(1,3)] entry_index [OF assms(2,4)] assms(5) by simp
  then show ?thesis using assms(5) by (simp add: entry_addr_def)
qed

lemma on_walk_unique:
  assumes "on_walk m a" "on_walk m b" "it_pt a = it_pt b" "it_va a = it_va b" "it_level a = it_level b"
  shows "a = b"
  using assms by (intro vmiter.equality) (auto simp: on_walk_def split: if_splits)

lemma on_walk_root:
  "page_aligned pt \<Longrightarrow> va_is_canonical va \<Longrightarrow>
   on_walk m \<lparr>it_pt = pt, it_pep = Entry (entry_addr pt (pageindex va 3)), it_level = 3,
     it_perm = initial_perm, it_va = va\<rparr>"
  by (simp add: on_walk_def)

text \<open>The position \<open>find\<close> moves to before it follows the tables down.\<close>

lemma real_find_on_walk:
  assumes "on_walk m it"
  obtains it1 where "real_find m it va = vm_down m it1" "on_walk m it1"
    "it_pt it1 = it_pt it" "it_va it1 = va"
proof -
  have al: "page_aligned (it_pt it)" and l3: "it_level it \<le> 3" using assms by (simp_all add: on_walk_def)
  let ?jump = "it_level it = 3 \<or> (it_va it XOR va) AND NOT (pageoffmask (it_level it + 1)) \<noteq> 0"
  show ?thesis
  proof (cases ?jump)
    case True
    show ?thesis
    proof (cases "va_is_canonical va")
      case canon: True
      show ?thesis
        by (rule that [of "it\<lparr>it_level := 3, it_perm := initial_perm,
               it_pep := Entry (entry_addr (it_pt it) (pageindex va 3)), it_va := va\<rparr>"])
          (use True canon al in \<open>simp_all add: real_find_def on_walk_def\<close>)
    next
      case False
      show ?thesis
        by (rule that [of "it\<lparr>it_level := 3, it_perm := 0, it_pep := ZeroPE, it_va := va\<rparr>"])
          (use True False al in \<open>simp_all add: real_find_def on_walk_def\<close>)
    qed
  next
    case False
    let ?l = "it_level it"
    have ag: "agree (12 + (?l + 1) * 9) (it_va it) va"
      using False by (simp add: agree_def pageoffmask_mask)
    have l2: "?l \<le> 2" using False l3 by simp
    have "12 + (?l + 1) * 9 \<le> 47" using l2 by simp
    then have ca: "va_is_canonical va = va_is_canonical (it_va it)" using agree_canonical [OF ag] by simp
    have can: "va_is_canonical (it_va it)" using assms l2 by (auto simp: on_walk_def split: if_splits)
    obtain t where t: "table_at m (it_pt it) (it_va it) (3 - ?l) = Some (t, it_perm it)"
      and pep: "it_pep it = Entry (entry_addr t (pageindex (it_va it) ?l))"
      using assms can by (auto simp: on_walk_def)
    have "same_path (4 - (?l + 1)) (it_va it) va" using agree_same_path [OF ag] l2 by simp
    then have t': "table_at m (it_pt it) va (3 - ?l) = Some (t, it_perm it)"
      using t table_at_cong [of "3 - ?l" "it_va it" va m "it_pt it"] by simp
    have "page_aligned t" by (rule table_at_aligned [OF al t])
    then have ix: "drop_bit 3 (entry_addr t (pageindex (it_va it) ?l) AND PAGEOFFMASK) = pageindex (it_va it) ?l"
      by (rule entry_index [OF _ pageindex_lt])
    have ad: "entry_addr t i + 8 * (j - i) = entry_addr t j" for i j
      by (simp add: entry_addr_def algebra_simps)
    show ?thesis
      by (rule that [of "it\<lparr>it_pep := Entry (entry_addr t (pageindex va ?l)), it_va := va\<rparr>"])
        (use False pep ix ad t' al l3 can ca in \<open>simp_all add: real_find_def on_walk_def del: PAGEOFFMASK_def\<close>)
  qed
qed

lemma real_find_eq:
  assumes "on_walk m it"
  shows "real_find m it va =
    (if 0x100000000 \<le> fst (snd (pt_entry m (it_pt it) va)) AND PTE_PAMASK then None
     else Some (THE it'. on_walk m it' \<and> it_pt it' = it_pt it \<and> it_va it' = va
                  \<and> it_level it' = fst (pt_entry m (it_pt it) va)))"
proof -
  obtain it1 where r: "real_find m it va = vm_down m it1" and it1: "on_walk m it1"
    "it_pt it1 = it_pt it" "it_va it1 = va"
    by (rule real_find_on_walk [OF assms])
  note leaf = down_loop_leaf [OF it1(1), unfolded it1(2,3)]
  then have lev: "it_level (down_loop m it1) = fst (pt_entry m (it_pt it) va)"
    by (metis fst_conv)
  have "(THE it'. on_walk m it' \<and> it_pt it' = it_pt it \<and> it_va it' = va
          \<and> it_level it' = fst (pt_entry m (it_pt it) va)) = down_loop m it1"
    using leaf lev by (intro the_equality) (auto intro: on_walk_unique)
  then show ?thesis using vm_down_leaf [OF it1(1)] r it1 by simp
qed

lemma on_walk_aligned: "on_walk m it \<Longrightarrow> page_aligned (it_pt it)"
  by (simp add: on_walk_def)

lemma on_walk_new: "page_aligned pt \<Longrightarrow> on_walk m \<lparr>it_pt = pt, it_pep = Entry (entry_addr pt 0), it_level = 3,
                  it_perm = initial_perm, it_va = 0\<rparr>"
  by (simp add: on_walk_def va_is_canonical_def pageindex_def)

lemma vmiter_new_eq_find:
  "on_walk m it \<Longrightarrow> vmiter_new m (it_pt it) va = real_find m it va"
  using real_find_eq [OF on_walk_new [of "it_pt it"]] real_find_eq [of m it va] on_walk_aligned [of m it]
  by (simp add: vmiter_new_def del: initial_perm_def)

lemma real_find_leaf:
  assumes "on_walk m it" "real_find m it va = Some it'"
  shows "at_leaf m it'" "it_va it' = va" "it_pt it' = it_pt it"
proof -
  obtain it1 where r: "real_find m it va = vm_down m it1" and it1: "on_walk m it1"
    "it_pt it1 = it_pt it" "it_va it1 = va"
    by (rule real_find_on_walk [OF assms(1)])
  note leaf = down_loop_leaf [OF it1(1)]
  have it': "it' = down_loop m it1" and b: "\<not> 0x100000000 \<le> fst (snd (pt_entry m (it_pt it) va)) AND PTE_PAMASK"
    using assms(2) r vm_down_leaf [OF it1(1)] it1 by (auto split: if_splits)
  show "it_va it' = va" "it_pt it' = it_pt it" using leaf it' it1 by simp_all
  have "fst (snd (pt_entry m (it_pt it) va)) = cur_pe m it'"
    using leaf it' it1 by (metis fst_conv snd_conv)
  then show "at_leaf m it'" using leaf it' it1 b by (simp add: at_leaf_def)
qed

lemma at_leaf_mapping:
  assumes "at_leaf m it"
  shows "mapping m (it_pt it) (it_va it) =
    (if vm_present m it then Some (vm_pa m it, vm_perm m it AND (PTE_P OR PTE_W OR PTE_U)) else None)"
proof -
  have "pt_entry m (it_pt it) (it_va it) = (it_level it, cur_pe m it, it_perm it)"
    using assms by (simp add: at_leaf_def)
  then show ?thesis
    by (auto simp: mapping_def vm_present_def vm_pa_def vm_perm_def frame_addr_def Let_def and.assoc)
qed

section \<open>Regions covered by one entry\<close>

lemma agree_drop: "agree n v w \<longleftrightarrow> drop_bit n v = drop_bit n w"
proof
  assume "agree n v w"
  then show "drop_bit n v = drop_bit n w"
    by (intro bit_word_eqI) (simp add: bit_drop_bit_eq agree_iff)
next
  assume d: "drop_bit n v = drop_bit n w"
  have "bit v i = bit w i" if "n \<le> i" for i
  proof -
    have "bit (drop_bit n v) (i - n) = bit (drop_bit n w) (i - n)" by (simp add: d)
    then show ?thesis using that by (simp add: bit_drop_bit_eq)
  qed
  then show "agree n v w" by (simp add: agree_iff)
qed

lemma unat_drop_bit: "unat (drop_bit n (v :: u64)) = unat v div 2 ^ n"
proof -
  have "unat v < 2 ^ 64" using unsigned_less [of v, where 'a = nat] by simp
  then have "take_bit 64 (unat v) = unat v" by (rule take_bit_nat_eq_self)
  then show ?thesis unfolding unsigned_drop_bit_eq by (simp add: drop_bit_eq_div)
qed

lemma drop_bit_mono: "v \<le> w \<Longrightarrow> drop_bit n v \<le> drop_bit n (w :: u64)"
  by (simp only: word_le_nat_alt unat_drop_bit div_le_mono)

lemma agree_or_mask: "agree n v (v OR mask n)"
  by (simp add: agree_iff bit_or_iff bit_mask_iff)

lemma agree_between:
  assumes "va \<le> v" "v \<le> va OR mask n"
  shows "agree n va v"
  using drop_bit_mono [OF assms(1), of n] drop_bit_mono [OF assms(2), of n]
    agree_or_mask [of n va]
  by (simp add: agree_drop)

lemma le_or_mask: "va \<le> va OR mask n" for va :: u64
  by (simp add: or_greater_eq word_le_def) (metis le_word_or2 or.commute word_le_def)

lemma pt_entry_region:
  assumes e: "pt_entry m pt va = (l, pe, q)" and a: "agree (12 + l * 9) va v"
  shows "pt_entry m pt v = (l, pe, q)"
proof (cases "va_is_canonical va")
  case False
  then have l: "l = 3" using e by (simp add: pt_entry_def)
  then have "va_is_canonical v = va_is_canonical va" using agree_canonical [OF a] by simp
  then show ?thesis using e False by (simp add: pt_entry_def)
next
  case True
  obtain t where l: "l \<le> 3" and t: "table_at m pt va (3 - l) = Some (t, q)" and pe: "pe = entry_at m t va l"
    and stop: "l = 0 \<or> \<not> walk_on pe"
    using pt_entry_end [OF e True] by blast
  have "12 + l * 9 \<le> 47" using l by simp
  then have can: "va_is_canonical v" using agree_canonical [OF a] True by simp
  have "same_path (4 - l) va v" using agree_same_path [OF a] l by simp
  then have "same_path (3 - l) va v" by (rule same_path_mono) simp
  then have t': "table_at m pt v (3 - l) = Some (t, q)" using t table_at_cong by metis
  have pe': "entry_at m t v l = pe" using agree_pageindex [OF a] pe by (simp add: entry_at_def)
  have "pt_entry m pt v = walk m t q l v"
    using walk_table_at [OF t'] l can by (simp add: pt_entry_def del: initial_perm_def)
  then show ?thesis using stop pe' by (cases l) (auto simp: Let_def)
qed

definition perm_at :: "mem \<Rightarrow> u64 \<Rightarrow> u64 \<Rightarrow> u64" where
  "perm_at m pt v = (case pt_entry m pt v of (l, pe, q) \<Rightarrow> pe AND q)"

text \<open>No entry on any walk points behind the first 4 GiB: the kernel's test for junk.\<close>

definition no_junk :: "mem \<Rightarrow> u64 \<Rightarrow> bool" where
  "no_junk m pt \<longleftrightarrow> (\<forall>v. fst (snd (pt_entry m pt v)) AND PTE_PAMASK < 0x100000000)"

lemma real_find_some:
  assumes "on_walk m it" "no_junk m (it_pt it)"
  obtains it' where "real_find m it va = Some it'" "at_leaf m it'" "it_va it' = va" "it_pt it' = it_pt it"
proof -
  have "fst (snd (pt_entry m (it_pt it) va)) AND PTE_PAMASK < 0x100000000"
    using assms(2) unfolding no_junk_def by blast
  then have "\<not> 0x100000000 \<le> fst (snd (pt_entry m (it_pt it) va)) AND PTE_PAMASK" by (simp only: not_le)
  then obtain it' where "real_find m it va = Some it'"
    using real_find_eq [OF assms(1), of va] by (simp only: if_False)
  then show ?thesis using that real_find_leaf [OF assms(1)] by blast
qed

lemma at_leaf_on_walk: "at_leaf m it \<Longrightarrow> on_walk m it" by (simp add: at_leaf_def)

lemma at_leaf_entry: "at_leaf m it \<Longrightarrow> pt_entry m (it_pt it) (it_va it) = (it_level it, cur_pe m it, it_perm it)"
  by (simp add: at_leaf_def)

lemma at_leaf_region:
  "at_leaf m it \<Longrightarrow> it_va it \<le> v \<Longrightarrow> v \<le> it_va it OR pageoffmask (it_level it) \<Longrightarrow>
   pt_entry m (it_pt it) v = (it_level it, cur_pe m it, it_perm it)"
  by (rule pt_entry_region [OF at_leaf_entry]) (simp_all add: pageoffmask_mask agree_between)

lemma or_pageoffmask_low: "va \<le> VA_LOWMAX \<Longrightarrow> l \<le> 3 \<Longrightarrow> va OR pageoffmask l \<le> VA_LOWMAX"
proof -
  assume v: "va \<le> VA_LOWMAX" and l: "l \<le> 3"
  have "drop_bit 47 (mask (12 + l * 9) :: u64) = 0"
    using l by (intro bit_word_eqI) (auto simp: bit_drop_bit_eq bit_mask_iff)
  then show ?thesis using v unfolding low_drop pageoffmask_mask by (simp only: drop_bit_or or.right_neutral)
qed

text \<open>The permissions collected on a walk always contain the present bit.\<close>

lemma table_at_perm_bit: "table_at m pt va d = Some (t, p) \<Longrightarrow> bit p 0"
proof (induction d arbitrary: t p)
  case 0
  then show ?case using bit_FFF [of 0] by simp
next
  case (Suc d)
  then obtain t0 p0 where "table_at m pt va d = Some (t0, p0)"
    "walk_on (entry_at m t0 va (3 - d))" "p = p0 AND entry_at m t0 va (3 - d)"
    by (auto simp: Let_def split: option.splits if_splits)
  then show ?case using Suc.IH unfolding walk_on_bits by (simp add: bit_and_iff)
qed

lemma on_walk_perm_bit:
  assumes "on_walk m it" "cur_pe m it AND PTE_P \<noteq> 0"
  shows "bit (it_perm it) 0"
proof (cases "va_is_canonical (it_va it)")
  case True
  then obtain t where "table_at m (it_pt it) (it_va it) (3 - it_level it) = Some (t, it_perm it)"
    using assms(1) by (auto simp: on_walk_def)
  then show ?thesis by (rule table_at_perm_bit)
next
  case False
  then have "it_pep it = ZeroPE" using assms(1) by (simp add: on_walk_def)
  then show ?thesis using assms(2) by (simp add: load_pe_def)
qed

text \<open>The loop of \<open>perm\<close> below \<open>VA_LOWEND\<close>.\<close>

lemma vm_perm_until_low:
  assumes "at_leaf m it" "no_junk m (it_pt it)" "last_va \<le> VA_LOWEND"
  shows "\<exists>it'. vm_perm_until m it last_va p =
    Some (\<forall>v. it_va it \<le> v \<and> v < last_va \<longrightarrow> perm_at m (it_pt it) v AND p = p, it')"
  using assms
proof (induction "unat (last_va - it_va it)" arbitrary: it rule: less_induct)
  case less
  let ?va = "it_va it" and ?top = "it_va it OR pageoffmask (it_level it)"
  note leaf = less.prems(1)
  have region: "perm_at m (it_pt it) v = cur_pe m it AND it_perm it" if "?va \<le> v" "v \<le> ?top" for v
    using at_leaf_region [OF leaf that] by (simp add: perm_at_def)
  show ?case
  proof (cases "?va < last_va")
    case False
    then have "vm_perm_until m it last_va p = Some (True, it)" by (subst vm_perm_until.simps) simp
    moreover have "\<not> v < last_va" if "?va \<le> v" for v using that False by (meson le_less_trans)
    ultimately show ?thesis by auto
  next
    case lt: True
    show ?thesis
    proof (cases "vm_perm_ok m it p")
      case False
      then have "vm_perm_until m it last_va p = Some (False, it)" using lt by (subst vm_perm_until.simps) simp
      moreover have "perm_at m (it_pt it) ?va AND p \<noteq> p"
        using region [of ?va] False le_or_mask [of ?va] by (simp add: vm_perm_ok_def pageoffmask_mask and.assoc)
      then have "\<not> (\<forall>v. ?va \<le> v \<and> v < last_va \<longrightarrow> perm_at m (it_pt it) v AND p = p)"
        using lt by (meson order_refl)
      ultimately show ?thesis by auto
    next
      case ok: True
      have low: "?va \<le> VA_LOWMAX"
        using lt less.prems(3) by (simp add: word_le_nat_alt word_less_nat_alt)
      have "it_level it \<le> 3" using leaf by (simp add: at_leaf_def on_walk_def)
      then have e: "?top \<le> VA_LOWMAX" by (rule or_pageoffmask_low [OF low])
      then have un: "unat (?top + 1) = unat ?top + 1"
        by (subst unat_add_lt) (simp_all add: word_le_nat_alt)
      have le: "?va \<le> ?top" using le_or_mask by (simp add: pageoffmask_mask)
      obtain it1 where it1: "vm_next_range m it = Some it1" "at_leaf m it1"
        "it_va it1 = ?top + 1" "it_pt it1 = it_pt it"
        using real_find_some [OF at_leaf_on_walk [OF leaf] less.prems(2), of "vm_last_va it"]
        by (auto simp: vm_next_range_def vm_last_va_def)
      have step: "vm_perm_until m it last_va p = vm_perm_until m it1 last_va p"
        using lt ok it1(1) by (subst vm_perm_until.simps) simp
      have first: "perm_at m (it_pt it) v AND p = p" if "?va \<le> v" "v \<le> ?top" for v
        using region [OF that] ok by (simp add: vm_perm_ok_def and.assoc)
      have all: "(\<forall>v. it_va it1 \<le> v \<and> v < last_va \<longrightarrow> perm_at m (it_pt it1) v AND p = p) \<longleftrightarrow>
        (\<forall>v. ?va \<le> v \<and> v < last_va \<longrightarrow> perm_at m (it_pt it) v AND p = p)"
      proof -
        have nx: "it_va it1 \<le> v \<longleftrightarrow> \<not> v \<le> ?top" for v
          using un by (simp add: word_le_nat_alt it1(3)) linarith
        show ?thesis
        proof (intro iffI allI impI; elim conjE)
          fix v assume a: "\<forall>v. it_va it1 \<le> v \<and> v < last_va \<longrightarrow> perm_at m (it_pt it1) v AND p = p"
            and v: "?va \<le> v" "v < last_va"
          show "perm_at m (it_pt it) v AND p = p"
          proof (cases "v \<le> ?top")
            case True then show ?thesis by (rule first [OF v(1)])
          next
            case False
            then have "it_va it1 \<le> v" by (simp only: nx not_False_eq_True)
            with a v(2) have "perm_at m (it_pt it1) v AND p = p" by blast
            then show ?thesis by (simp only: it1(4))
          qed
        next
          fix v assume a: "\<forall>v. ?va \<le> v \<and> v < last_va \<longrightarrow> perm_at m (it_pt it) v AND p = p"
            and v: "it_va it1 \<le> v" "v < last_va"
          have "?va \<le> v" using v(1) le by (meson nx linear order_trans)
          with a v(2) have "perm_at m (it_pt it) v AND p = p" by blast
          then show "perm_at m (it_pt it1) v AND p = p" by (simp only: it1(4))
        qed
      qed
      show ?thesis
      proof (cases "it_va it1 \<le> last_va")
        case True
        have "unat (last_va - it_va it1) < unat (last_va - ?va)"
          using True lt le un it1(3) by (simp add: unat_sub word_le_nat_alt word_less_nat_alt)
        from less.hyps [OF this it1(2) less.prems(2) [folded it1(4)] less.prems(3)]
        show ?thesis unfolding step all .
      next
        case False
        then have "vm_perm_until m it1 last_va p = Some (True, it1)"
          by (subst vm_perm_until.simps) (simp add: not_le order_less_imp_le leD)
        moreover have "\<not> v < last_va" if "it_va it1 \<le> v" for v using that False by (meson le_less_trans less_imp_le)
        then have "\<forall>v. ?va \<le> v \<and> v < last_va \<longrightarrow> perm_at m (it_pt it) v AND p = p"
          unfolding all [symmetric] by blast
        ultimately show ?thesis unfolding step by simp
      qed
    qed
  qed
qed

section \<open>Entries do not overlap\<close>

lemma dvd_unat_diff:
  fixes a b :: u64
  assumes "8 dvd unat a" "8 dvd unat b" "a \<noteq> b"
  shows "8 \<le> b - a"
proof -
  have "unat (b - a) = (if unat a \<le> unat b then unat b - unat a else unat b + 2 ^ 64 - unat a)"
    by (simp add: unat_sub_if')
  moreover have "(8 :: nat) dvd 2 ^ 64" by simp
  then have "8 dvd unat b + 2 ^ 64" using assms(2) by (rule dvd_add [rotated])
  ultimately have "8 dvd unat (b - a)" using assms(1,2) by (auto simp del: power_numeral intro!: dvd_diff_nat)
  moreover have "unat (b - a) \<noteq> 0" using assms(3) by (simp add: unat_eq_0)
  ultimately have "8 \<le> unat (b - a)" by (simp add: dvd_imp_le)
  then show ?thesis by (simp add: word_le_nat_alt)
qed

lemma entry_addr_dvd: "page_aligned t \<Longrightarrow> i < 512 \<Longrightarrow> 8 dvd unat (entry_addr t i)"
  by (auto simp: unat_entry_addr page_aligned_dvd elim!: dvdE intro!: dvd_add)

lemma slots_disj:
  assumes "page_aligned t" "page_aligned u" "i < 512" "j < 512" "\<not> (t = u \<and> i = j)"
  shows "disj_rng (entry_addr t i) 8 (entry_addr u j) 8"
proof -
  have "entry_addr t i \<noteq> entry_addr u j" using entry_addr_inj [OF assms(1-4)] assms(5) by blast
  then show ?thesis unfolding disj_rng_def
    using dvd_unat_diff [OF entry_addr_dvd [OF assms(1,3)] entry_addr_dvd [OF assms(2,4)]]
      dvd_unat_diff [OF entry_addr_dvd [OF assms(2,4)] entry_addr_dvd [OF assms(1,3)]] by auto
qed

section \<open>Properties\<close>

text \<open>
  C39: An iterator that stands anywhere on a walk of its page table finds the same entry as an
  iterator made from the root: the shortcut in \<open>real_find\<close> (staying in the current table when
  the new address shares its upper bits) is an optimisation only. The result is the page walk
  of the processor: physical address and permissions are those of \<open>mapping\<close>, and the kernel
  panics exactly when the entry found points behind the first 4 GiB.
\<close>

theorem real_find_is_walk:
  assumes "on_walk m it"
  shows "real_find m it va = vmiter_new m (it_pt it) va
    \<and> (case real_find m it va of
         None \<Rightarrow> 0x100000000 \<le> fst (snd (pt_entry m (it_pt it) va)) AND PTE_PAMASK
       | Some it' \<Rightarrow> on_walk m it' \<and> it_pt it' = it_pt it \<and> it_va it' = va
           \<and> mapping m (it_pt it) va =
               (if vm_present m it' then Some (vm_pa m it', vm_perm m it' AND (PTE_P OR PTE_W OR PTE_U)) else None)
           \<and> (\<not> vm_present m it' \<longrightarrow> vm_pa m it' = - 1 \<and> vm_perm m it' = 0))"
proof (cases "real_find m it va")
  case None
  then show ?thesis using vmiter_new_eq_find [OF assms] real_find_eq [OF assms, of va]
    by (simp split: if_splits)
next
  case (Some it')
  note l = real_find_leaf [OF assms Some]
  show ?thesis using vmiter_new_eq_find [OF assms] Some l at_leaf_mapping [OF l(1)] at_leaf_on_walk [OF l(1)]
    by (simp add: vm_present_def vm_pa_def vm_perm_def)
qed

text \<open>
  \<open>next\<close> moves to a later page and never skips a mapped page: no page between the old and
  the new address is mapped. (At the end of the address space the new address wraps to 0.)
\<close>

theorem next_skips_only_unmapped:
  assumes "at_leaf m it" "vm_next m it = Some it'"
    and "page_aligned v" "it_va it < v" "v \<le> it_va it' - 1"
  shows "it_va it \<le> it_va it' - 1 \<and> mapping m (it_pt it) v = None"
proof -
  let ?l = "if 0 < it_level it \<and> vm_perm m it = 0 then it_level it else 0"
  have va': "it_va it' = (it_va it OR pageoffmask ?l) + 1"
    using real_find_leaf(2) [OF at_leaf_on_walk [OF assms(1)]] assms(2) by (simp add: vm_next_def Let_def)
  then have v2: "v \<le> it_va it OR mask (12 + ?l * 9)" using assms(5) by (simp add: pageoffmask_mask)
  have le: "it_va it \<le> it_va it' - 1" using va' le_or_mask by (simp add: pageoffmask_mask)
  show ?thesis
  proof (cases "0 < it_level it \<and> vm_perm m it = 0")
    case True
    then have "pt_entry m (it_pt it) v = (it_level it, cur_pe m it, it_perm it)"
      using at_leaf_region [OF assms(1)] v2 assms(4) by (simp add: pageoffmask_mask)
    moreover have "cur_pe m it AND PTE_P = 0"
    proof (rule ccontr)
      assume p: "cur_pe m it AND PTE_P \<noteq> 0"
      then have z: "cur_pe m it AND it_perm it = 0" using True by (simp add: vm_perm_def)
      have "bit (cur_pe m it) 0" using p by (simp only: present_bit)
      moreover have "bit (it_perm it) 0"
        by (rule on_walk_perm_bit [OF at_leaf_on_walk [OF assms(1)] p])
      ultimately have "bit (cur_pe m it AND it_perm it) 0" by (simp only: bit_and_iff)
      then show False using z by simp
    qed
    ultimately show ?thesis using le by (simp add: mapping_def)
  next
    case False
    then have "?l = 0" by auto
    then have "agree 12 (it_va it) v" using agree_between [of "it_va it" v 12] v2 assms(4) by simp
    then have d: "drop_bit 12 (it_va it) = drop_bit 12 v" by (simp add: agree_drop)
    then have "unat (it_va it) div 4096 = unat v div 4096"
      using unat_drop_bit [of 12 "it_va it"] unat_drop_bit [of 12 v] by simp
    moreover have "unat v div 4096 * 4096 = unat v" using assms(3) by (simp add: page_aligned_dvd)
    ultimately have "unat v \<le> unat (it_va it)" using div_times_less_eq_dividend [of "unat (it_va it)" 4096] by simp
    then show ?thesis using assms(4) by (simp add: word_less_nat_alt)
  qed
qed

text \<open>
  \<open>low_perm(first, last, p)\<close> returns, and answers whether every address of the range is a
  low address that has all permissions \<open>p\<close>: one test per entry, however large the page it
  maps, decides the whole range.
\<close>

theorem low_perm_decides_range:
  assumes "on_walk m it" "no_junk m (it_pt it)"
  shows "\<exists>it'. vm_low_perm m it lo hi p =
    Some (lo \<le> hi \<and> hi \<le> VA_LOWEND
      \<and> (\<forall>v. lo \<le> v \<and> v < hi \<longrightarrow> perm_at m (it_pt it) v AND p = p), it')"
proof (cases "lo \<le> hi \<and> hi \<le> VA_LOWEND \<and> lo \<noteq> hi")
  case True
  then have T: "lo \<le> hi" "hi \<le> VA_LOWEND" "lo \<noteq> hi" by auto
  obtain it1 where f: "real_find m it lo = Some it1" "at_leaf m it1" "it_va it1 = lo" "it_pt it1 = it_pt it"
    by (rule real_find_some [OF assms])
  have nj: "no_junk m (it_pt it1)" using assms(2) f(4) by simp
  have "vm_low_perm m it lo hi p = vm_perm_until m it1 hi p"
    using T f(1) by (simp add: vm_low_perm_def)
  then show ?thesis using vm_perm_until_low [OF f(2) nj T(2), of p] T unfolding f(3,4) by simp
next
  case False
  then show ?thesis by (auto simp: vm_low_perm_def)
qed

subsection \<open>Witnesses\<close>

text \<open>A root table with one entry: a large page that maps the low 512 GiB.\<close>

definition big_mem :: mem where
  "big_mem = st64 (\<lambda>_. 0) 0x1000 0x87"

lemma ld64_zeros [simp]: "ld64 (\<lambda>_. 0) a = 0" by (simp add: ld64_def)

lemma aligned_1000 [simp]: "page_aligned 0x1000" by (simp add: page_aligned_def)

lemma big_mem_entry: "entry_at big_mem 0x1000 v 3 = (if pageindex v 3 = 0 then 0x87 else 0)"
proof (cases "pageindex v 3 = 0")
  case True
  then show ?thesis by (simp add: entry_at_def big_mem_def entry_addr_def mem_simps)
next
  case False
  have "disj_rng (entry_addr 0x1000 0) 8 (entry_addr 0x1000 (pageindex v 3)) 8"
    using False by (intro slots_disj) (simp_all add: pageindex_lt)
  then show ?thesis using False by (simp add: entry_at_def big_mem_def entry_addr_def mem_simps)
qed

lemma big_mem_pt_entry:
  "pt_entry big_mem 0x1000 v =
     (if va_is_canonical v then (3, if pageindex v 3 = 0 then 0x87 else 0, initial_perm) else (3, 0, 0))"
  using big_mem_entry [of v] by (simp add: pt_entry_def numeral_3_eq_3 Let_def)

lemma big_mem_no_junk: "no_junk big_mem 0x1000"
  by (simp add: no_junk_def big_mem_pt_entry)

abbreviation root_iter :: "u64 \<Rightarrow> vmiter" where
  "root_iter pt \<equiv> \<lparr>it_pt = pt, it_pep = Entry (entry_addr pt 0), it_level = 3,
     it_perm = initial_perm, it_va = 0\<rparr>"

lemma root_on_walk: "page_aligned pt \<Longrightarrow> on_walk m (root_iter pt)"
  by (rule on_walk_new)

lemma pageindex_small: "v < 0x8000000000 \<Longrightarrow> pageindex v 3 = 0"
proof -
  assume "v < 0x8000000000"
  then have "unat v div 2 ^ 39 = 0" by (simp add: word_less_nat_alt div_eq_0_iff)
  then have "drop_bit 39 v = 0" by (simp add: word_unat_eq_iff unat_drop_bit)
  then show ?thesis by (simp add: pageindex_def)
qed

theorem real_find_is_walk_witness:
  "real_find big_mem (root_iter 0x1000) 0x123456 = vmiter_new big_mem 0x1000 0x123456
   \<and> mapping big_mem 0x1000 0x123456 = Some (0x123456, 7)"
  using real_find_is_walk [OF root_on_walk [OF aligned_1000], of big_mem "0x123456"]
  by (simp add: mapping_def big_mem_pt_entry va_is_canonical_def pageindex_def frame_addr_def pageoffmask_def)

theorem low_perm_decides_range_witness:
  "\<exists>it'. vm_low_perm big_mem (root_iter 0x1000) 0x1234 0x4000005000 (PTE_P OR PTE_W) = Some (True, it')"
proof -
  have "perm_at big_mem 0x1000 v AND 3 = 3" if "v < 0x4000005000" for v
  proof -
    have "v < 0x8000000000" using that by (rule less_trans) simp
    moreover have "va_is_canonical v" using that by (simp add: va_is_canonical_def word_less_nat_alt word_le_nat_alt)
    ultimately show ?thesis by (simp add: perm_at_def big_mem_pt_entry pageindex_small)
  qed
  then show ?thesis
    using low_perm_decides_range [OF root_on_walk [OF aligned_1000], of big_mem "0x1234" "0x4000005000" "PTE_P OR PTE_W"]
      big_mem_no_junk by simp
qed

theorem next_skips_only_unmapped_witness:
  "\<exists>it it'. at_leaf big_mem it \<and> it_va it = 0x8000000123 \<and> vm_next big_mem it = Some it'
     \<and> mapping big_mem 0x1000 0x8000400000 = None"
proof -
  obtain it where it: "real_find big_mem (root_iter 0x1000) 0x8000000123 = Some it" "at_leaf big_mem it"
    "it_va it = 0x8000000123" "it_pt it = it_pt (root_iter 0x1000)"
    by (rule real_find_some [OF root_on_walk [OF aligned_1000]]) (use big_mem_no_junk in simp_all)
  have e: "(it_level it, cur_pe big_mem it, it_perm it) = (3, 0, initial_perm)"
    using at_leaf_entry [OF it(2)] it(3,4) by (simp add: big_mem_pt_entry va_is_canonical_def pageindex_def)
  obtain it' where it': "vm_next big_mem it = Some it'" "it_va it' = 0x10000000000"
    using real_find_some [OF at_leaf_on_walk [OF it(2)], of "0x10000000000"] big_mem_no_junk it(3,4) e
    by (auto simp: vm_next_def vm_perm_def pageoffmask_def)
  have "mapping big_mem (it_pt it) 0x8000400000 = None"
    by (rule next_skips_only_unmapped [OF it(2) it'(1), THEN conjunct2])
      (simp_all add: it(3) it'(2) page_aligned_def)
  then show ?thesis using it it' by auto
qed

end
