(* ===== verification/PageMap.thy ===== *)
theory PageMap
  imports PageTable
begin

text \<open>
  What \<open>try_map\<close> does to an address space. The tables of an address space form a tree
  (\<open>pt_tree\<close>: no table is reached on two paths) of pages the allocator will not hand out
  (\<open>owned\<close>). Writing an entry then changes exactly the addresses below that entry. The main
  lemma is proved inside the contract of a page allocator: \<open>try_map\<close> maps its page and no other
  address changes, or it reports that memory is exhausted and no address changes.
\<close>

section \<open>The tables of an address space\<close>

definition tables :: "mem \<Rightarrow> u64 \<Rightarrow> u64 set" where
  "tables m pt = {t. \<exists>v d p. d \<le> 3 \<and> table_at m pt v d = Some (t, p)}"

definition pt_tree :: "mem \<Rightarrow> u64 \<Rightarrow> bool" where
  "pt_tree m pt \<longleftrightarrow> page_aligned pt
     \<and> (\<forall>v w d e t p q. d \<le> 3 \<longrightarrow> e \<le> 3 \<longrightarrow> table_at m pt v d = Some (t, p)
          \<longrightarrow> table_at m pt w e = Some (t, q) \<longrightarrow> d = e \<and> same_path d v w)"

lemma pt_tree_aligned: "pt_tree m pt \<Longrightarrow> page_aligned pt" by (simp add: pt_tree_def)

lemma pt_treeD:
  "pt_tree m pt \<Longrightarrow> table_at m pt v d = Some (t, p) \<Longrightarrow> table_at m pt w e = Some (t, q) \<Longrightarrow>
   d \<le> 3 \<Longrightarrow> e \<le> 3 \<Longrightarrow> d = e \<and> same_path d v w"
  unfolding pt_tree_def by blast

lemma tablesI: "table_at m pt v d = Some (t, p) \<Longrightarrow> d \<le> 3 \<Longrightarrow> t \<in> tables m pt"
  unfolding tables_def by blast

lemma tables_aligned: "page_aligned pt \<Longrightarrow> t \<in> tables m pt \<Longrightarrow> page_aligned t"
  unfolding tables_def by (auto intro: table_at_aligned)

lemma root_in_tables: "pt \<in> tables m pt"
  by (rule tablesI [of m pt 0 0]) simp_all

lemma pt_entryI:
  assumes "table_at m pt v d = Some (t, q)" "d \<le> 3" "va_is_canonical v"
    and "d = 3 \<or> \<not> walk_on (entry_at m t v (3 - d))"
  shows "pt_entry m pt v = (3 - d, entry_at m t v (3 - d), q)"
proof -
  have "pt_entry m pt v = walk m t q (3 - d) v"
    using walk_table_at [OF assms(1,2)] assms(3) by (simp add: pt_entry_def del: initial_perm_def)
  then show ?thesis using assms(4) by (cases "3 - d") (auto simp: Let_def)
qed

text \<open>An entry lies in the page of its table.\<close>

lemma entry_in_page:
  assumes "page_aligned t" "i < 512" "in_rng (entry_addr t i) 8 x"
  shows "in_rng t 4096 x"
proof -
  let ?y = "x - entry_addr t i"
  have i: "unat i < 512" using assms(2) by (simp add: word_less_nat_alt)
  have y: "unat ?y < 8" using assms(3) by (simp add: in_rng_def word_less_nat_alt)
  have "unat (8 * i) = 8 * unat i" using i by (simp add: unat_word_ariths)
  then have "unat (8 * i + ?y) = 8 * unat i + unat ?y" using i y by (subst unat_add_lt) simp_all
  then have "8 * i + ?y < 4096" using i y by (simp add: word_less_nat_alt)
  moreover have "8 * i + ?y = x - t" unfolding entry_addr_def by simp
  ultimately show ?thesis unfolding in_rng_def by metis
qed

lemma in_page_unat:
  assumes "page_aligned p" "in_rng p 4096 x"
  shows "unat x div 4096 * 4096 = unat p"
proof -
  obtain k where k: "unat p = 4096 * k" using assms(1) by (auto simp: page_aligned_dvd elim: dvdE)
  have y: "unat (x - p) < 4096" using assms(2) by (simp add: in_rng_def word_less_nat_alt)
  have "unat p < 2 ^ 64" using unsigned_less [of p, where 'a = nat] by simp
  then have "unat p + unat (x - p) < 2 ^ 64" using k y by simp
  then have "unat (p + (x - p)) = unat p + unat (x - p)" by (intro unat_add_lt) simp
  then have "unat x = 4096 * k + unat (x - p)" using k by simp
  then show ?thesis using k y by simp
qed

lemma pages_disjoint:
  assumes "page_aligned t" "page_aligned u" "t \<noteq> u" "in_rng t 4096 x"
  shows "\<not> in_rng u 4096 x"
  using in_page_unat [OF assms(1,4)] in_page_unat [OF assms(2), of x] assms(3)
  by (auto simp: word_unat_eq_iff)

text \<open>The walk depends on the pages of the tables only.\<close>

definition keeps_tables :: "mem \<Rightarrow> mem \<Rightarrow> u64 \<Rightarrow> bool" where
  "keeps_tables m m' pt \<longleftrightarrow> (\<forall>t\<in>tables m pt. \<forall>x. in_rng t 4096 x \<longrightarrow> m' x = m x)"

lemma entry_at_cong:
  assumes "page_aligned t" "\<And>x. in_rng t 4096 x \<Longrightarrow> m' x = m x"
  shows "entry_at m' t v l = entry_at m t v l"
  unfolding entry_at_def using assms by (intro ld64_cong) (auto intro: entry_in_page pageindex_lt)

lemma table_at_frame:
  assumes "page_aligned pt" "keeps_tables m m' pt" "d \<le> 3"
  shows "table_at m' pt v d = table_at m pt v d"
  using assms(3)
proof (induction d)
  case (Suc d)
  show ?case
  proof (cases "table_at m pt v d")
    case (Some tp)
    obtain t p where tp: "tp = (t, p)" by (cases tp)
    have "t \<in> tables m pt" using Some tp Suc.prems by (intro tablesI) auto
    then have "entry_at m' t v (3 - d) = entry_at m t v (3 - d)"
      using assms(1,2) by (intro entry_at_cong) (auto intro: tables_aligned simp: keeps_tables_def)
    then show ?thesis using Suc Some tp by (simp add: Let_def)
  qed (use Suc in simp)
qed simp

lemma tables_frame:
  assumes "page_aligned pt" "keeps_tables m m' pt"
  shows "tables m' pt = tables m pt"
  using table_at_frame [OF assms] unfolding tables_def by (intro Collect_cong) (metis (no_types))

lemma pt_tree_frame:
  assumes "pt_tree m pt" "keeps_tables m m' pt"
  shows "pt_tree m' pt"
  using assms(1) table_at_frame [OF pt_tree_aligned [OF assms(1)] assms(2)]
  unfolding pt_tree_def by auto

lemma pt_entry_frame:
  assumes "page_aligned pt" "keeps_tables m m' pt"
  shows "pt_entry m' pt v = pt_entry m pt v"
proof (cases "va_is_canonical v")
  case False
  then show ?thesis by (simp add: pt_entry_def)
next
  case True
  obtain l pe q where e: "pt_entry m pt v = (l, pe, q)" by (cases "pt_entry m pt v") auto
  obtain t where l: "l \<le> 3" and t: "table_at m pt v (3 - l) = Some (t, q)" and pe: "pe = entry_at m t v l"
    and stop: "l = 0 \<or> \<not> walk_on pe"
    using pt_entry_end [OF e True] by blast
  have d: "3 - (3 - l) = l" using l by simp
  have t': "table_at m' pt v (3 - l) = Some (t, q)" using table_at_frame [OF assms, where d = "3 - l" and v = v] t by simp
  have "t \<in> tables m pt" using t by (rule tablesI) simp
  then have "entry_at m' t v l = pe"
    using assms pe by (subst entry_at_cong [of t m' m]) (auto intro: tables_aligned simp: keeps_tables_def)
  then show ?thesis using pt_entryI [OF t' _ True] stop l e by (auto simp: d)
qed

lemma mapping_frame:
  assumes "page_aligned pt" "keeps_tables m m' pt"
  shows "mapping m' pt v = mapping m pt v"
  using pt_entry_frame [OF assms] by (simp add: mapping_def)

section \<open>Writing one entry\<close>

text \<open>
  The entry on the path of \<open>va\<close> in the table reached after \<open>d\<close> steps is overwritten. Addresses
  whose path does not use the entry keep their walk.
\<close>

lemma entry_store:
  assumes tree: "pt_tree m pt" and t: "table_at m pt va d = Some (t, p)" and d: "d \<le> 3"
    and u: "table_at m pt v k = Some (u, q)" and k: "k \<le> 3"
  shows "entry_at (st64 m (entry_addr t (pageindex va (3 - d))) e) u v (3 - k) =
    (if k = d \<and> same_path (Suc d) va v then e else entry_at m u v (3 - k))"
proof -
  have al: "page_aligned t" "page_aligned u"
    using table_at_aligned [OF pt_tree_aligned [OF tree]] t u by blast+
  show ?thesis
  proof (cases "k = d \<and> same_path (Suc d) va v")
    case True
    then have "u = t" using table_at_cong [of d va v m pt] t u by (simp add: same_path_Suc)
    moreover have "pageindex v (3 - d) = pageindex va (3 - d)" using True by (simp add: same_path_Suc)
    ultimately show ?thesis using True by (simp add: entry_at_def mem_simps)
  next
    case False
    have "\<not> (t = u \<and> pageindex va (3 - d) = pageindex v (3 - k))"
      using pt_treeD [OF tree t, of v k q] u k d False by (auto simp: same_path_Suc)
    then have "disj_rng (entry_addr t (pageindex va (3 - d))) 8 (entry_addr u (pageindex v (3 - k))) 8"
      by (intro slots_disj al pageindex_lt)
    then show ?thesis unfolding if_not_P [OF False] by (simp add: entry_at_def mem_simps)
  qed
qed

lemma table_at_store:
  assumes tree: "pt_tree m pt" and t: "table_at m pt va d = Some (t, p)" and d: "d \<le> 3"
    and n: "\<not> (same_path (Suc d) va v \<and> d < k)" and k: "k \<le> 3"
  shows "table_at (st64 m (entry_addr t (pageindex va (3 - d))) e) pt v k = table_at m pt v k"
  using n k
proof (induction k)
  case (Suc k)
  have IH: "table_at (st64 m (entry_addr t (pageindex va (3 - d))) e) pt v k = table_at m pt v k"
    by (rule Suc.IH) (use Suc.prems in auto)
  show ?case
  proof (cases "table_at m pt v k")
    case (Some up)
    obtain u q where up: "up = (u, q)" by (cases up)
    have "\<not> (k = d \<and> same_path (Suc d) va v)" using Suc.prems(1) by auto
    then have "entry_at (st64 m (entry_addr t (pageindex va (3 - d))) e) u v (3 - k) = entry_at m u v (3 - k)"
      using entry_store [OF tree t d, of v k u q e] Some up Suc.prems(2) by auto
    then show ?thesis using IH Some up by (simp add: Let_def)
  qed (use IH in simp)
qed simp

lemma pt_entry_store_other:
  assumes tree: "pt_tree m pt" and t: "table_at m pt va d = Some (t, p)" and d: "d \<le> 3"
    and n: "\<not> same_path (Suc d) va v"
  shows "pt_entry (st64 m (entry_addr t (pageindex va (3 - d))) e) pt v = pt_entry m pt v"
proof (cases "va_is_canonical v")
  case False
  then show ?thesis by (simp add: pt_entry_def)
next
  case True
  obtain l pe q where e: "pt_entry m pt v = (l, pe, q)" by (cases "pt_entry m pt v") auto
  obtain u where l: "l \<le> 3" and u: "table_at m pt v (3 - l) = Some (u, q)" and pe: "pe = entry_at m u v l"
    and stop: "l = 0 \<or> \<not> walk_on pe"
    using pt_entry_end [OF e True] by blast
  let ?m = "st64 m (entry_addr t (pageindex va (3 - d))) e"
  have dl: "3 - (3 - l) = l" using l by simp
  have u': "table_at (st64 m (entry_addr t (pageindex va (3 - d))) e') pt v (3 - l) = Some (u, q)" for e'
    using table_at_store [OF tree t d, of v "3 - l" e'] n u by simp
  have pe': "entry_at (st64 m (entry_addr t (pageindex va (3 - d))) e') u v l = pe" for e'
    using entry_store [OF tree t d u, of e'] n pe by (simp add: dl)
  show ?thesis using pt_entryI [OF u' _ True] pe' stop e by (auto simp: dl)
qed

text \<open>The same for a path that does use the entry, when the old entry led nowhere.\<close>

lemma path_through:
  assumes tree: "pt_tree m pt" and t: "table_at m pt va d = Some (t, p)" and d: "d \<le> 3"
    and off: "\<not> walk_on (entry_at m t va (3 - d))" and same: "same_path (Suc d) va v"
  shows "table_at m pt v d = Some (t, p) \<and> entry_at m t v (3 - d) = entry_at m t va (3 - d)
    \<and> (\<forall>k. d < k \<longrightarrow> table_at m pt v k = None)"
proof (intro conjI allI impI)
  show v: "table_at m pt v d = Some (t, p)"
    using table_at_cong [of d va v m pt] t same by (simp add: same_path_Suc)
  show e: "entry_at m t v (3 - d) = entry_at m t va (3 - d)"
    using same by (simp add: entry_at_def same_path_Suc)
  fix k assume "d < k"
  then show "table_at m pt v k = None"
  proof (induction k)
    case (Suc k)
    then show ?case using v e off by (cases "k = d") (auto simp: Let_def)
  qed simp
qed

section \<open>Hanging a new table into the tree\<close>

text \<open>
  The address \<open>v\<close> is mapped by 4096-byte pages only, through tables that permit everything, as
  the tables \<open>try_map\<close> makes do.
\<close>

definition small_at :: "mem \<Rightarrow> u64 \<Rightarrow> u64 \<Rightarrow> bool" where
  "small_at m pt v \<longleftrightarrow> (case pt_entry m pt v of (l, pe, q) \<Rightarrow>
     (0 < l \<longrightarrow> pe AND PTE_P = 0) \<and> q AND (PTE_P OR PTE_W OR PTE_U) = (PTE_P OR PTE_W OR PTE_U))"

text \<open>
  The step of \<open>try_map\<close>: the page \<open>n\<close> is zeroed and entered for the path of \<open>va\<close> at depth \<open>d\<close>.
\<close>

definition pte_user :: "u64 \<Rightarrow> u64" where
  "pte_user n = n OR PTE_P OR PTE_W OR PTE_U"

lemma pte_user_bits: "bit (pte_user n) i \<longleftrightarrow> bit n i \<or> i < 3"
proof -
  have "pte_user n = n OR mask 3" by (simp add: pte_user_def or.assoc mask_eq_exp_minus_1)
  then show ?thesis by (auto simp: bit_or_iff bit_mask_iff)
qed

lemma pte_user_walk:
  assumes "page_aligned n" "n < 0x100000000"
  shows "walk_on (pte_user n)" "pte_user n AND PTE_PAMASK = n" "pte_user n AND 7 = 7"
proof -
  have lo: "\<not> bit n i" if "i < 12" for i using assms(1) that by (simp add: page_aligned_iff)
  have hi: "\<not> bit n i" if "52 \<le> i" for i
  proof -
    have "unat n div 2 ^ i = 0"
    proof -
      have "unat n < 2 ^ 32" using assms(2) by (simp add: word_less_nat_alt)
      also have "(2 :: nat) ^ 32 \<le> 2 ^ i" using that by (intro power_increasing) auto
      finally show ?thesis by simp
    qed
    then have "drop_bit i n = 0" by (simp add: word_unat_eq_iff unat_drop_bit)
    then show ?thesis by (simp add: bit_iff_odd_drop_bit)
  qed
  show "walk_on (pte_user n)" unfolding walk_on_bits pte_user_bits using lo [of 7] by simp
  show "pte_user n AND PTE_PAMASK = n"
  proof (rule bit_word_eqI)
    fix i assume "i < LENGTH(64)"
    have "bit n i \<Longrightarrow> 12 \<le> i \<and> i < 52" using lo [of i] hi [of i] by linarith
    then show "bit (pte_user n AND PTE_PAMASK) i = bit n i"
      unfolding bit_and_iff PTE_PAMASK_def bit_PAMASK pte_user_bits by auto
  qed
  have m: "(7 :: u64) = mask 3" by (simp add: mask_eq_exp_minus_1)
  show "pte_user n AND 7 = 7"
  proof (rule bit_word_eqI)
    fix i assume "i < LENGTH(64)"
    show "bit (pte_user n AND 7) i = bit (7 :: u64) i"
      unfolding m bit_and_iff pte_user_bits bit_mask_iff by auto
  qed
qed

definition hang :: "mem \<Rightarrow> u64 \<Rightarrow> u64 \<Rightarrow> mem" where
  "hang m a n = st64 (mem_fill m n 0 PAGESIZE) a (pte_user n)"

definition same_outside :: "u64 \<Rightarrow> mem \<Rightarrow> mem \<Rightarrow> bool" where
  "same_outside n m m' \<longleftrightarrow> (\<forall>x. \<not> in_rng n 4096 x \<longrightarrow> m' x = m x)"

lemma keeps_tables_fresh:
  assumes "page_aligned pt" "page_aligned n" "n \<notin> tables m pt" "same_outside n m m'"
  shows "keeps_tables m m' pt"
  unfolding keeps_tables_def
proof (intro ballI allI impI)
  fix t x assume t: "t \<in> tables m pt" "in_rng t 4096 x"
  then have "\<not> in_rng n 4096 x"
    using assms(2,3) tables_aligned [OF assms(1)] by (intro pages_disjoint) auto
  then show "m' x = m x" using assms(4) by (simp add: same_outside_def)
qed

lemma entry_at_zero_page:
  assumes "page_aligned n"
  shows "entry_at (mem_fill m n 0 PAGESIZE) n v l = 0"
proof -
  have "ld64 (mem_fill m n 0 PAGESIZE) (entry_addr n (pageindex v l)) = ld64 (\<lambda>_. 0) (entry_addr n (pageindex v l))"
    by (rule ld64_cong) (use entry_in_page [OF assms pageindex_lt] in \<open>simp add: mem_fill_def\<close>)
  then show ?thesis by (simp add: entry_at_def)
qed

lemma hang_walk:
  assumes tree: "pt_tree m pt" and t: "table_at m pt va d = Some (t, p)" and d: "d < 3"
    and off: "entry_at m t va (3 - d) AND PTE_P = 0"
    and n: "page_aligned n" "n < 0x100000000" "n \<notin> tables m pt" and out: "same_outside n m m1"
  defines "m' \<equiv> hang m1 (entry_addr t (pageindex va (3 - d))) n"
  shows "k \<le> 3 \<Longrightarrow> \<not> (same_path (Suc d) va v \<and> d < k) \<Longrightarrow> table_at m' pt v k = table_at m pt v k"
    and "same_path (Suc d) va v \<Longrightarrow> table_at m' pt v (Suc d) = Some (n, p AND pte_user n)"
    and "same_path (Suc d) va v \<Longrightarrow> Suc d < k \<Longrightarrow> table_at m' pt v k = None"
    and "entry_at m' n v l = 0"
    and "pt_entry m' pt v =
      (if va_is_canonical v \<and> same_path (Suc d) va v then (2 - d, 0, p AND pte_user n) else pt_entry m pt v)"
proof -
  note al = pt_tree_aligned [OF tree]
  let ?m2 = "mem_fill m1 n 0 PAGESIZE"
  have "same_outside n m ?m2" using out by (simp add: same_outside_def mem_simps)
  then have kt: "keeps_tables m ?m2 pt" by (rule keeps_tables_fresh [OF al n(1,3)])
  have tree2: "pt_tree ?m2 pt" by (rule pt_tree_frame [OF tree kt])
  have d3: "d \<le> 3" using d by simp
  have t2: "table_at ?m2 pt va d = Some (t, p)" using table_at_frame [OF al kt d3] t by simp
  have t_in: "t \<in> tables m pt" by (rule tablesI [OF t d3])
  have al_t: "page_aligned t" by (rule tables_aligned [OF al t_in])
  have m': "m' = st64 ?m2 (entry_addr t (pageindex va (3 - d))) (pte_user n)"
    by (simp add: m'_def hang_def)
  show keep: "table_at m' pt v k = table_at m pt v k"
    if "k \<le> 3" "\<not> (same_path (Suc d) va v \<and> d < k)" for v k
    using table_at_store [OF tree2 t2 d3 that(2,1)] table_at_frame [OF al kt that(1)] by (simp add: m')
  show new: "table_at m' pt v (Suc d) = Some (n, p AND pte_user n)" if s: "same_path (Suc d) va v" for v
  proof -
    have tv: "table_at ?m2 pt v d = Some (t, p)"
      using table_at_cong [of d va v ?m2 pt] t2 s by (simp add: same_path_Suc)
    then have "table_at m' pt v d = Some (t, p)" using keep [of d v] table_at_frame [OF al kt d3] d3 by simp
    moreover have "entry_at m' t v (3 - d) = pte_user n"
      using entry_store [OF tree2 t2 d3 tv d3] s by (simp add: m')
    ultimately show ?thesis using pte_user_walk [OF n(1,2)] by (simp add: Let_def)
  qed
  show zero: "entry_at m' n v l = 0" for v l
  proof -
    have "t \<noteq> n" using t_in n(3) by blast
    then have "disj_rng (entry_addr t (pageindex va (3 - d))) 8 (entry_addr n (pageindex v l)) 8"
      by (intro slots_disj al_t n(1) pageindex_lt) simp
    then have "entry_at m' n v l = entry_at ?m2 n v l" by (simp add: m' entry_at_def mem_simps)
    then show ?thesis using entry_at_zero_page [OF n(1)] by simp
  qed
  have notw: "\<not> walk_on 0" by simp
  show gone: "table_at m' pt v k = None" if "same_path (Suc d) va v" "Suc d < k" for v k
    using that(2)
  proof (induction k)
    case (Suc k)
    then show ?case using new [OF that(1)] zero notw by (cases "k = Suc d") (auto simp: Let_def)
  qed simp
  show "pt_entry m' pt v =
      (if va_is_canonical v \<and> same_path (Suc d) va v then (2 - d, 0, p AND pte_user n) else pt_entry m pt v)" for v
  proof (cases "va_is_canonical v \<and> same_path (Suc d) va v")
    case True
    have "3 - Suc d = 2 - d" by simp
    then show ?thesis using True pt_entryI [OF new, of v] zero [of v "2 - d"] notw d by simp
  next
    case False
    show ?thesis
    proof (cases "va_is_canonical v")
      case True
      then have "\<not> same_path (Suc d) va v" using False by simp
      then have "pt_entry m' pt v = pt_entry ?m2 pt v"
        using pt_entry_store_other [OF tree2 t2 d3] by (simp add: m')
      then show ?thesis using pt_entry_frame [OF al kt] unfolding if_not_P [OF False] by simp
    next
      case False then show ?thesis by (simp add: pt_entry_def)
    qed
  qed
qed

lemma not_present_not_walk: "pe AND PTE_P = 0 \<Longrightarrow> \<not> walk_on pe"
  using present_bit [of pe] unfolding walk_on_bits by blast

lemma hang_tables:
  assumes tree: "pt_tree m pt" and t: "table_at m pt va d = Some (t, p)" and d: "d < 3"
    and off: "entry_at m t va (3 - d) AND PTE_P = 0"
    and n: "page_aligned n" "n < 0x100000000" "n \<notin> tables m pt" and out: "same_outside n m m1"
  defines "m' \<equiv> hang m1 (entry_addr t (pageindex va (3 - d))) n"
  shows "tables m' pt = insert n (tables m pt)"
    and "pt_tree m' pt"
    and "mapping m' pt v = mapping m pt v"
    and "k \<le> 3 \<Longrightarrow> table_at m pt v k = Some x \<Longrightarrow> table_at m' pt v k = Some x"
    and "no_junk m pt \<Longrightarrow> no_junk m' pt"
    and "small_at m pt v \<Longrightarrow> small_at m' pt v"
proof -
  note walk = hang_walk [OF assms(1-8), folded m'_def]
  have d3: "d \<le> 3" using d by simp
  note thr = path_through [OF tree t d3 not_present_not_walk [OF off]]
  show keep: "table_at m' pt v k = Some x" if "k \<le> 3" "table_at m pt v k = Some x" for v k x
  proof -
    have "\<not> (same_path (Suc d) va v \<and> d < k)" using thr [of v] that(2) by auto
    then show ?thesis using walk(1) [OF that(1)] that(2) by simp
  qed
  have inv: "(k = Suc d \<and> same_path (Suc d) va v \<and> u = n) \<or> table_at m pt v k = Some (u, q)"
    if "k \<le> 3" "table_at m' pt v k = Some (u, q)" for v k u q
  proof (cases "same_path (Suc d) va v \<and> d < k")
    case True
    then have "k = Suc d" using walk(3) [of v k] that(2) by (cases "Suc d < k") auto
    then show ?thesis using walk(2) [of v] True that(2) by auto
  next
    case False
    then show ?thesis using walk(1) [OF that(1) False] that(2) by simp
  qed
  show "tables m' pt = insert n (tables m pt)"
  proof (intro equalityI subsetI)
    fix u assume "u \<in> tables m' pt"
    then obtain v k q where "k \<le> 3" "table_at m' pt v k = Some (u, q)" unfolding tables_def by blast
    then show "u \<in> insert n (tables m pt)" using inv tablesI by blast
  next
    fix u assume "u \<in> insert n (tables m pt)"
    then consider "u = n" | v k q where "k \<le> 3" "table_at m pt v k = Some (u, q)" unfolding tables_def by blast
    then show "u \<in> tables m' pt"
    proof cases
      case 1
      have "table_at m' pt va (Suc d) = Some (n, p AND pte_user n)" by (rule walk(2)) simp
      from tablesI [OF this] 1 d show ?thesis by simp
    next
      case 2
      then show ?thesis using keep [of k v] by (blast intro: tablesI)
    qed
  qed
  show "pt_tree m' pt" unfolding pt_tree_def
  proof (intro conjI allI impI)
    show "page_aligned pt" by (rule pt_tree_aligned [OF tree])
  next
    fix v w k e u q r
    assume k: "k \<le> 3" "e \<le> 3" and vw: "table_at m' pt v k = Some (u, q)" "table_at m' pt w e = Some (u, r)"
    have old: "table_at m pt v k = Some (u', q') \<Longrightarrow> k \<le> 3 \<Longrightarrow> u' \<noteq> n" for v k u' q'
      using n(3) tablesI by blast
    from inv [OF k(1) vw(1)] inv [OF k(2) vw(2)]
    have "(k = Suc d \<and> same_path (Suc d) va v \<and> e = Suc d \<and> same_path (Suc d) va w)
       \<or> (table_at m pt v k = Some (u, q) \<and> table_at m pt w e = Some (u, r))"
      using old k by blast
    then have "k = e \<and> same_path k v w"
    proof (elim disjE conjE)
      assume a: "k = Suc d" "same_path (Suc d) va v" "e = Suc d" "same_path (Suc d) va w"
      then show ?thesis unfolding same_path_def by metis
    next
      assume "table_at m pt v k = Some (u, q)" "table_at m pt w e = Some (u, r)"
      from pt_treeD [OF tree this k] show ?thesis .
    qed
    then show "k = e" "same_path k v w" by blast+
  qed
  show "mapping m' pt v = mapping m pt v" for v
  proof (cases "va_is_canonical v \<and> same_path (Suc d) va v")
    case True
    then have "pt_entry m pt v = (3 - d, entry_at m t va (3 - d), p)"
      using pt_entryI [of m pt v d t p] thr [of v] d3 not_present_not_walk [OF off] by auto
    then have "mapping m pt v = None" using off by (simp add: mapping_def)
    then show ?thesis using walk(5) [of v] True by (simp add: mapping_def)
  next
    case False
    have "pt_entry m' pt v = pt_entry m pt v" using walk(5) [of v] unfolding if_not_P [OF False] .
    then show ?thesis by (simp only: mapping_def)
  qed
  show "no_junk m pt \<Longrightarrow> no_junk m' pt" unfolding no_junk_def by (simp add: walk(5))
  show "small_at m' pt v" if sm: "small_at m pt v" for v
  proof (cases "va_is_canonical v \<and> same_path (Suc d) va v")
    case True
    then have "pt_entry m pt v = (3 - d, entry_at m t va (3 - d), p)"
      using pt_entryI [of m pt v d t p] thr [of v] d3 not_present_not_walk [OF off] by auto
    then have "p AND 7 = 7" using sm by (simp add: small_at_def)
    then have "p AND pte_user n AND 7 = 7" using pte_user_walk(3) [OF n(1,2)] by (simp add: and.assoc)
    then show ?thesis using walk(5) [of v] True by (simp add: small_at_def and.assoc)
  next
    case False
    have "pt_entry m' pt v = pt_entry m pt v" using walk(5) [of v] unfolding if_not_P [OF False] .
    then show ?thesis using sm by (simp only: small_at_def)
  qed
qed

section \<open>\<open>try_map\<close> in the contract of a page allocator\<close>

definition owned :: "(kmem \<Rightarrow> u64 \<Rightarrow> bool) \<Rightarrow> kmem \<Rightarrow> u64 \<Rightarrow> bool" where
  "owned avail s pt \<longleftrightarrow> (\<forall>t\<in>tables (phys s) pt. \<not> avail s t)"

definition pt_inv :: "(kmem \<Rightarrow> u64 \<Rightarrow> bool) \<Rightarrow> kmem \<Rightarrow> u64 \<Rightarrow> bool" where
  "pt_inv avail s pt \<longleftrightarrow> pt_tree (phys s) pt \<and> no_junk (phys s) pt \<and> owned avail s pt"

text \<open>
  How an operation on the page table \<open>pt\<close> may change memory: tables stay where they are, new
  tables are pages that were available, nothing else becomes available or unavailable, and
  only pages of tables are written.
\<close>

definition pt_step :: "(kmem \<Rightarrow> u64 \<Rightarrow> bool) \<Rightarrow> kmem \<Rightarrow> kmem \<Rightarrow> u64 \<Rightarrow> bool" where
  "pt_step avail s s' pt \<longleftrightarrow>
     (\<forall>v k x. k \<le> 3 \<longrightarrow> table_at (phys s) pt v k = Some x \<longrightarrow> table_at (phys s') pt v k = Some x)
     \<and> (\<forall>q. avail s' q \<longleftrightarrow> avail s q \<and> q \<notin> tables (phys s') pt)
     \<and> (\<forall>t\<in>tables (phys s') pt. t \<in> tables (phys s) pt \<or> avail s t)
     \<and> (\<forall>x. (\<forall>t\<in>tables (phys s') pt. \<not> in_rng t 4096 x) \<longrightarrow> phys s' x = phys s x)"

lemma pt_step_at: "pt_step avail s s' pt \<Longrightarrow> k \<le> 3 \<Longrightarrow> table_at (phys s) pt v k = Some x \<Longrightarrow>
    table_at (phys s') pt v k = Some x"
  unfolding pt_step_def by blast

lemma pt_step_avail: "pt_step avail s s' pt \<Longrightarrow> avail s' q \<longleftrightarrow> avail s q \<and> q \<notin> tables (phys s') pt"
  by (simp add: pt_step_def)

lemma pt_step_new: "pt_step avail s s' pt \<Longrightarrow> t \<in> tables (phys s') pt \<Longrightarrow> t \<in> tables (phys s) pt \<or> avail s t"
  by (simp add: pt_step_def)

lemma pt_step_frame: "pt_step avail s s' pt \<Longrightarrow> \<forall>t\<in>tables (phys s') pt. \<not> in_rng t 4096 x \<Longrightarrow> phys s' x = phys s x"
  by (simp add: pt_step_def)

lemma pt_step_tables: "pt_step avail s s' pt \<Longrightarrow> t \<in> tables (phys s) pt \<Longrightarrow> t \<in> tables (phys s') pt"
  unfolding tables_def by (auto dest: pt_step_at)

lemma pt_step_refl: "owned avail s pt \<Longrightarrow> pt_step avail s s pt"
  unfolding pt_step_def owned_def by auto

lemma pt_step_trans:
  assumes a: "pt_step avail s s1 pt" and b: "pt_step avail s1 s2 pt"
  shows "pt_step avail s s2 pt"
  unfolding pt_step_def
proof (intro conjI allI ballI impI)
  fix v k x assume k: "k \<le> 3" and x: "table_at (phys s) pt v k = Some x"
  show "table_at (phys s2) pt v k = Some x" by (rule pt_step_at [OF b k pt_step_at [OF a k x]])
next
  fix q
  show "avail s2 q \<longleftrightarrow> avail s q \<and> q \<notin> tables (phys s2) pt"
    using pt_step_avail [OF a, of q] pt_step_avail [OF b, of q] pt_step_tables [OF b, of q] by blast
next
  fix t assume t: "t \<in> tables (phys s2) pt"
  show "t \<in> tables (phys s) pt \<or> avail s t"
    using pt_step_new [OF b t] pt_step_new [OF a, of t] pt_step_avail [OF a, of t] by blast
next
  fix x assume x: "\<forall>t\<in>tables (phys s2) pt. \<not> in_rng t 4096 x"
  then have "\<forall>t\<in>tables (phys s1) pt. \<not> in_rng t 4096 x" using pt_step_tables [OF b] by blast
  then show "phys s2 x = phys s x" using pt_step_frame [OF a] pt_step_frame [OF b x] by simp
qed

definition ready :: "mem \<Rightarrow> vmiter \<Rightarrow> bool" where
  "ready m it \<longleftrightarrow> on_walk m it \<and> va_is_canonical (it_va it)
     \<and> (0 < it_level it \<longrightarrow> cur_pe m it AND PTE_P = 0)"

context page_allocator
begin

lemma hang_step:
  assumes ok: "okm s" and inv: "pt_inv avail s pt"
    and t: "table_at (phys s) pt va d = Some (t, p)" and d: "d < 3"
    and off: "entry_at (phys s) t va (3 - d) AND PTE_P = 0"
    and al: "alloc s = (n, s1)" and n0: "n \<noteq> 0"
  defines "m' \<equiv> hang (phys s1) (entry_addr t (pageindex va (3 - d))) n"
  defines "s2 \<equiv> s1\<lparr>phys := m'\<rparr>"
  shows "okm s2 \<and> pt_inv avail s2 pt \<and> pt_step avail s s2 pt
    \<and> (\<forall>v. mapping m' pt v = mapping (phys s) pt v)
    \<and> (\<forall>v. small_at (phys s) pt v \<longrightarrow> small_at m' pt v)
    \<and> table_at m' pt va d = Some (t, p)
    \<and> (va_is_canonical va \<longrightarrow> pt_entry m' pt va = (2 - d, 0, p AND pte_user n))"
proof -
  have tree: "pt_tree (phys s) pt" and nj: "no_junk (phys s) pt" and own: "owned avail s pt"
    using inv by (simp_all add: pt_inv_def)
  have n: "page_aligned n" "n < 0x100000000" using alloc_page [OF ok al] by auto
  have av: "avail s n" by (rule alloc_avail [OF ok al n0])
  have nt: "n \<notin> tables (phys s) pt" using own av by (auto simp: owned_def)
  have out: "same_outside n (phys s) (phys s1)"
    using alloc_frame [OF ok al] by (simp add: same_outside_def)
  have marks: "avail s2 q \<longleftrightarrow> avail s q \<and> q \<noteq> n" for q
    using alloc_marks [OF ok al n0] by (simp add: s2_def)
  note ht = hang_tables [OF tree t d off n nt out, folded m'_def]
  note hw = hang_walk [OF tree t d off n nt out, folded m'_def]
  have T: "tables (phys s2) pt = insert n (tables (phys s) pt)" by (simp add: s2_def ht(1))
  have inv2: "pt_inv avail s2 pt"
    using own marks nt ht(2) ht(5) [OF nj] T by (auto simp: pt_inv_def owned_def s2_def ht(1))
  have st: "pt_step avail s s2 pt" unfolding pt_step_def
  proof (intro conjI allI ballI impI)
    fix v k x assume "k \<le> 3" "table_at (phys s) pt v k = Some x"
    then show "table_at (phys s2) pt v k = Some x" using ht(4) by (simp add: s2_def)
  next
    fix q show "avail s2 q \<longleftrightarrow> avail s q \<and> q \<notin> tables (phys s2) pt"
      using own unfolding T marks owned_def by auto
  next
    fix u assume "u \<in> tables (phys s2) pt"
    then show "u \<in> tables (phys s) pt \<or> avail s u" using av unfolding T by auto
  next
    fix x assume x: "\<forall>t\<in>tables (phys s2) pt. \<not> in_rng t 4096 x"
    have xn: "\<not> in_rng n 4096 x" using x T by simp
    have "t \<in> tables (phys s) pt" using tablesI [OF t] d by simp
    then have "\<not> in_rng t 4096 x" "page_aligned t"
      using x T tables_aligned [OF pt_tree_aligned [OF tree]] by auto
    then have "\<not> in_rng (entry_addr t (pageindex va (3 - d))) 8 x"
      using entry_in_page [OF _ pageindex_lt] by blast
    then show "phys s2 x = phys s x"
      using xn out by (simp add: s2_def m'_def hang_def mem_simps same_outside_def)
  qed
  have "okm s2" using alloc_keeps [OF ok al] by (simp add: s2_def)
  then show ?thesis using inv2 st ht(3,6) ht(4) [of d va] t d hw(5) [of va] by simp
qed

lemma map_loop_ok:
  assumes "okm s" "pt_inv avail s pt" "ready (phys s) it" "it_pt it = pt" "perm \<noteq> 0"
  shows "\<exists>r it' s'. map_loop alloc s it perm = Some (r, it', s') \<and> okm s' \<and> pt_inv avail s' pt
    \<and> pt_step avail s s' pt \<and> (\<forall>v. mapping (phys s') pt v = mapping (phys s) pt v)
    \<and> (\<forall>v. small_at (phys s) pt v \<longrightarrow> small_at (phys s') pt v)
    \<and> ready (phys s') it' \<and> it_pt it' = pt \<and> it_va it' = it_va it
    \<and> (r = 0 \<and> it_level it' = 0 \<and> it_perm it' AND 7 = it_perm it AND 7 \<or> r = - 1 \<and> (\<forall>q. \<not> avail s' q))"
  using assms(1-4)
proof (induction "it_level it" arbitrary: it s rule: less_induct)
  case less
  have own: "owned avail s pt" using less.prems(2) by (simp add: pt_inv_def)
  show ?case
  proof (cases "it_level it = 0")
    case True
    then have "map_loop alloc s it perm = Some (0, it, s)" by (subst map_loop.simps) simp
    then show ?thesis using less.prems True pt_step_refl [OF own] by auto
  next
    case False
    let ?l = "it_level it" and ?va = "it_va it" and ?d = "3 - it_level it"
    have l3: "?l \<le> 3" and can: "va_is_canonical ?va" and off: "cur_pe (phys s) it AND PTE_P = 0"
      using less.prems(3) False by (auto simp: ready_def on_walk_def)
    obtain t where t: "table_at (phys s) pt ?va ?d = Some (t, it_perm it)"
      and pep: "it_pep it = Entry (entry_addr t (pageindex ?va ?l))"
      using less.prems(3,4) by (auto simp: ready_def on_walk_def)
    have d: "?d < 3" "3 - ?d = ?l" "2 - ?d = ?l - 1" using False l3 by auto
    have off': "entry_at (phys s) t ?va (3 - ?d) AND PTE_P = 0"
      using off by (simp add: d pep load_pe_def entry_at_def)
    obtain n s1 where al: "alloc s = (n, s1)" by (cases "alloc s")
    show ?thesis
    proof (cases "n = 0")
      case True
      have e: "s1 = s" "\<And>q. \<not> avail s q" using alloc_fails [OF less.prems(1)] al True by auto
      have "map_loop alloc s it perm = Some (- 1, it, s)"
        using False off al True e assms(5) by (subst map_loop.simps) simp
      then show ?thesis using less.prems e pt_step_refl [OF own] by auto
    next
      case n0: False
      let ?m = "hang (phys s1) (entry_addr t (pageindex ?va (3 - ?d))) n"
      let ?s2 = "s1\<lparr>phys := ?m\<rparr>"
      note hs = hang_step [OF less.prems(1,2) t d(1) off' al n0]
      have ow: "on_walk ?m it"
        using hs less.prems(3,4) can by (auto simp: ready_def on_walk_def pep d)
      let ?it = "down_loop ?m it"
      note leaf = down_loop_leaf [OF ow]
      have e: "pt_entry ?m (it_pt it) ?va = (?l - 1, 0, it_perm it AND pte_user n)"
        using hs can less.prems(4) d by simp
      then have dn: "vm_down ?m it = Some ?it" using vm_down_leaf [OF ow] by simp
      have it1: "it_level ?it = ?l - 1" "cur_pe ?m ?it = 0" "it_perm ?it = it_perm it AND pte_user n"
        "it_pt ?it = pt" "it_va ?it = ?va"
        using leaf e less.prems(4) by auto
      have step: "map_loop alloc s it perm = map_loop alloc ?s2 ?it perm"
        using False off al n0 assms(5) dn
        by (subst map_loop.simps)
          (simp add: pep store_pe_def hang_def pte_user_def d [simplified])
      have r: "ready (phys ?s2) ?it" using leaf it1 can by (simp add: ready_def)
      have perm: "it_perm ?it AND 7 = it_perm it AND 7"
        using pte_user_walk(3) alloc_page [OF less.prems(1) al] it1(3) by (simp add: and.assoc)
      have lt: "it_level ?it < ?l" using it1(1) False by simp
      have "\<exists>r it' s'. map_loop alloc ?s2 ?it perm = Some (r, it', s') \<and> okm s' \<and> pt_inv avail s' pt
        \<and> pt_step avail ?s2 s' pt \<and> (\<forall>v. mapping (phys s') pt v = mapping (phys ?s2) pt v)
        \<and> (\<forall>v. small_at (phys ?s2) pt v \<longrightarrow> small_at (phys s') pt v)
        \<and> ready (phys s') it' \<and> it_pt it' = pt \<and> it_va it' = it_va ?it
        \<and> (r = 0 \<and> it_level it' = 0 \<and> it_perm it' AND 7 = it_perm ?it AND 7 \<or> r = - 1 \<and> (\<forall>q. \<not> avail s' q))"
        by (rule less.hyps [OF lt _ _ r it1(4)]) (use hs in auto)
      then obtain r it' s' where res: "map_loop alloc ?s2 ?it perm = Some (r, it', s')" "okm s'" "pt_inv avail s' pt"
        "pt_step avail ?s2 s' pt" "\<forall>v. mapping (phys s') pt v = mapping (phys ?s2) pt v"
        "\<forall>v. small_at (phys ?s2) pt v \<longrightarrow> small_at (phys s') pt v"
        "ready (phys s') it'" "it_pt it' = pt" "it_va it' = it_va ?it"
        "r = 0 \<and> it_level it' = 0 \<and> it_perm it' AND 7 = it_perm ?it AND 7 \<or> r = - 1 \<and> (\<forall>q. \<not> avail s' q)"
        by blast
      have "pt_step avail s s' pt" using pt_step_trans [OF _ res(4)] hs by blast
      moreover have "\<forall>v. mapping (phys s') pt v = mapping (phys s) pt v" using res(5) hs by simp
      moreover have "\<forall>v. small_at (phys s) pt v \<longrightarrow> small_at (phys s') pt v" using res(6) hs by simp
      ultimately show ?thesis using res step perm it1(5)
        by (intro exI [of _ r] exI [of _ it'] exI [of _ s']) simp
    qed
  qed
qed

end

section \<open>The final entry\<close>

lemma same_path_agree:
  assumes "va_is_canonical v" "va_is_canonical w" "same_path 4 v w"
  shows "agree 12 v w"
proof -
  have ix: "pageindex v l = pageindex w l" if "l \<le> 3" for l
  proof -
    have "3 - l < 4" "3 - (3 - l) = l" using that by auto
    then show ?thesis using assms(3) unfolding same_path_def by metis
  qed
  have "bit v 47 = bit w 47" by (rule pageindex_eqD [OF ix [of 3]]) simp_all
  moreover have "bit v 47 \<longleftrightarrow> drop_bit 47 v \<noteq> 0" if "va_is_canonical v" for v
  proof -
    have "bit v 47 \<longleftrightarrow> bit (drop_bit 47 v) 0" by (simp add: bit_drop_bit_eq)
    moreover have "bit (131071 :: u64) 0" by (simp add: bit_0)
    moreover have "\<not> bit (0 :: u64) 0" by simp
    ultimately show ?thesis using that unfolding canonical_drop by metis
  qed
  ultimately have "drop_bit 47 v = drop_bit 47 w" using assms(1,2) unfolding canonical_drop by metis
  then have a47: "agree (21 + 3 * 9) v w" by (auto simp: agree_drop [symmetric] elim: agree_mono)
  have a39: "agree (12 + 3 * 9) v w" using agree_down [OF a47] ix by simp
  have a30: "agree (12 + 2 * 9) v w" using agree_down [of 2] a39 ix [of 2] by simp
  have a21: "agree (12 + 1 * 9) v w" using agree_down [of 1] a30 ix [of 1] by simp
  show ?thesis using agree_down [of 0] a21 ix [of 0] by simp
qed

lemma agree_same_path4: "agree 12 v w \<Longrightarrow> same_path 4 v w"
  using agree_same_path [of 0 v w] by simp

text \<open>Writing the level-0 entry of \<open>va\<close>.\<close>

lemma leaf_store:
  fixes e :: u64
  assumes tree: "pt_tree m pt" and t: "table_at m pt va 3 = Some (t, p)" and can: "va_is_canonical va"
  defines "m' \<equiv> st64 m (entry_addr t (pageindex va 0)) e"
  shows "k \<le> 3 \<Longrightarrow> table_at m' pt v k = table_at m pt v k"
    and "pt_entry m' pt v = (if agree 12 va v then (0, e, p) else pt_entry m pt v)"
proof -
  have keep: "table_at m' pt v k = table_at m pt v k" if "k \<le> 3" for v k
    using table_at_store [OF tree t, of v k e] that by (simp add: m'_def)
  then show "k \<le> 3 \<Longrightarrow> table_at m' pt v k = table_at m pt v k" .
  show "pt_entry m' pt v = (if agree 12 va v then (0, e, p) else pt_entry m pt v)"
  proof (cases "agree 12 va v")
    case True
    then have s: "same_path (Suc 3) va v" using agree_same_path4 by simp
    have cv: "va_is_canonical v" using agree_canonical [OF True] can by simp
    have tv: "table_at m pt v 3 = Some (t, p)"
      using table_at_cong [OF same_path_mono [OF s, of 3]] t by simp
    have "entry_at m' t v (3 - 3) = e"
      using entry_store [OF tree t _ tv, of e] s by (simp add: m'_def)
    then show ?thesis using pt_entryI [of m' pt v 3 t p] keep [of 3 v] tv cv True by simp
  next
    case False
    show ?thesis
    proof (cases "va_is_canonical v")
      case True
      have "\<not> same_path (Suc 3) va v"
        using False same_path_agree [OF can True] by auto
      then show ?thesis
        using pt_entry_store_other [OF tree t, of v e] False by (simp add: m'_def)
    next
      case cv: False
      then show ?thesis using False by (simp add: pt_entry_def)
    qed
  qed
qed

lemma or_lt_2_32: "a < 0x100000000 \<Longrightarrow> b < 0x100000000 \<Longrightarrow> a OR b < (0x100000000 :: u64)"
proof -
  have small: "x < 0x100000000 \<longleftrightarrow> drop_bit 32 x = 0" for x :: u64
    by (simp only: word_unat_eq_iff unat_drop_bit) (simp add: word_less_nat_alt div_eq_0_iff)
  show "a < 0x100000000 \<Longrightarrow> b < 0x100000000 \<Longrightarrow> a OR b < (0x100000000 :: u64)"
    unfolding small by (simp add: drop_bit_or)
qed

text \<open>The entry \<open>pa | perm\<close>.\<close>

lemma leaf_entry_bits:
  assumes "pa AND PTE_PAMASK = pa" "perm < 4096"
  shows "(pa OR perm) AND PTE_PAMASK = pa" "(pa OR perm) AND 7 = perm AND 7"
proof -
  have pa: "bit pa i \<Longrightarrow> 12 \<le> i \<and> i < 52" for i
    using assms(1) by (metis bit_and_iff bit_PAMASK PTE_PAMASK_def)
  have perm: "bit perm i \<Longrightarrow> i < 12" for i
  proof (rule ccontr)
    assume b: "bit perm i" "\<not> i < 12"
    have "drop_bit 12 perm = 0"
      using assms(2) by (simp only: word_unat_eq_iff unat_drop_bit) (simp add: word_less_nat_alt div_eq_0_iff)
    then have "\<not> bit (drop_bit 12 perm) (i - 12)" by simp
    then show False using b by (simp add: bit_drop_bit_eq)
  qed
  show "(pa OR perm) AND PTE_PAMASK = pa"
  proof (rule bit_word_eqI)
    fix i assume "i < LENGTH(64)"
    show "bit ((pa OR perm) AND PTE_PAMASK) i = bit pa i"
      unfolding bit_and_iff bit_or_iff PTE_PAMASK_def bit_PAMASK using pa [of i] perm [of i] by auto
  qed
  have m: "(7 :: u64) = mask 3" by (simp add: mask_eq_exp_minus_1)
  show "(pa OR perm) AND 7 = perm AND 7"
  proof (rule bit_word_eqI)
    fix i assume "i < LENGTH(64)"
    show "bit ((pa OR perm) AND 7) i = bit (perm AND 7) i"
      unfolding m bit_and_iff bit_or_iff bit_mask_iff using pa [of i] by auto
  qed
qed

definition mapped_page :: "u64 \<Rightarrow> u64 \<Rightarrow> u64 \<Rightarrow> (u64 \<times> u64) option" where
  "mapped_page pa perm v =
     (if perm AND PTE_P \<noteq> 0 then Some (pa + (v AND PAGEOFFMASK), perm AND (PTE_P OR PTE_W OR PTE_U)) else None)"

lemma leaf_mapping:
  assumes e: "pt_entry m pt v = (0, pa OR perm, q)"
    and pa: "if perm AND PTE_P \<noteq> 0 then pa AND PTE_PAMASK = pa else pa AND PTE_P = 0"
    and perm: "perm < 4096" "perm AND NOT q AND (PTE_P OR PTE_W OR PTE_U) = 0"
  shows "mapping m pt v = mapped_page pa perm v"
proof (cases "perm AND PTE_P \<noteq> 0")
  case True
  have pam: "pa AND PTE_PAMASK = pa" using pa unfolding if_P [OF True] .
  note b = leaf_entry_bits [OF pam perm(1)]
  have "bit perm 0" using True by (simp only: present_bit)
  then have p: "(pa OR perm) AND PTE_P \<noteq> 0" by (simp only: present_bit bit_or_iff simp_thms)
  have pom: "pageoffmask 0 = PAGEOFFMASK" by (simp add: pageoffmask_def)
  have q: "(pa OR perm) AND q AND 7 = perm AND 7"
  proof -
    have "(pa OR perm) AND q AND 7 = ((pa OR perm) AND 7) AND q" by (simp add: ac_simps)
    also have "\<dots> = perm AND q AND 7" by (simp add: b(2) ac_simps)
    also have "\<dots> = perm AND 7"
    proof (rule bit_word_eqI)
      fix i assume "i < LENGTH(64)"
      have "\<not> bit (perm AND NOT q AND 7) i" using perm(2) by simp
      then show "bit (perm AND q AND 7) i = bit (perm AND 7) i"
        using \<open>i < LENGTH(64)\<close> by (auto simp only: bit_and_iff bit_not_iff, simp_all)
    qed
    finally show ?thesis .
  qed
  then show ?thesis using e p True b(1) pom
    by (simp add: mapping_def mapped_page_def frame_addr_def)
next
  case False
  then have z: "perm AND PTE_P = 0" by blast
  then have pa0: "pa AND PTE_P = 0" using pa by (simp only: simp_thms if_False)
  have "(pa OR perm) AND PTE_P = 0" using z pa0 by (simp add: bit.conj_disj_distrib2)
  then show ?thesis using e z by (simp add: mapping_def mapped_page_def)
qed

text \<open>
  The outcome of \<open>try_map\<close> on the iterator \<open>it\<close>: the address space afterwards, and what else may
  have changed. Result -1 leaves the address space as it was.
\<close>

definition map_result ::
  "(kmem \<Rightarrow> u64 \<Rightarrow> bool) \<Rightarrow> kmem \<Rightarrow> vmiter \<Rightarrow> u64 \<Rightarrow> u64 \<Rightarrow> int \<Rightarrow> kmem \<Rightarrow> bool" where
  "map_result avail s it pa perm r s' \<longleftrightarrow>
     pt_inv avail s' (it_pt it) \<and> pt_step avail s s' (it_pt it)
     \<and> (\<forall>v. small_at (phys s) (it_pt it) v \<longrightarrow> small_at (phys s') (it_pt it) v)
     \<and> (r = 0 \<and> (\<forall>v. mapping (phys s') (it_pt it) v =
           (if agree 12 (it_va it) v then mapped_page pa perm v else mapping (phys s) (it_pt it) v))
        \<or> r = - 1 \<and> perm \<noteq> 0 \<and> (\<forall>q. \<not> avail s' q)
          \<and> (\<forall>v. mapping (phys s') (it_pt it) v = mapping (phys s) (it_pt it) v))"

context page_allocator
begin

lemma leaf_store_step:
  assumes inv: "pt_inv avail s pt" and it: "ready (phys s) it" "it_pt it = pt" "it_level it = 0"
    and pa: "if perm AND PTE_P \<noteq> 0 then pa AND PTE_PAMASK = pa else pa AND PTE_P = 0"
    and sm: "pa < 0x100000000" "perm < 4096"
    and sub: "perm AND NOT (it_perm it) AND (PTE_P OR PTE_W OR PTE_U) = 0"
  shows "\<exists>m. store_pe (phys s) (it_pep it) (pa OR perm) = Some m
    \<and> map_result avail s it pa perm 0 (s\<lparr>phys := m\<rparr>)"
proof -
  have tree: "pt_tree (phys s) pt" and nj: "no_junk (phys s) pt" and own: "owned avail s pt"
    using inv by (simp_all add: pt_inv_def)
  let ?va = "it_va it"
  have can: "va_is_canonical ?va" using it(1) by (simp add: ready_def)
  obtain t where t: "table_at (phys s) pt ?va 3 = Some (t, it_perm it)"
    and pep: "it_pep it = Entry (entry_addr t (pageindex ?va 0))"
    using it by (auto simp: ready_def on_walk_def)
  let ?m = "st64 (phys s) (entry_addr t (pageindex ?va 0)) (pa OR perm)"
  let ?s = "s\<lparr>phys := ?m\<rparr>"
  note keep = leaf_store(1) [OF tree t can] and entry = leaf_store(2) [OF tree t can]
  have T: "tables ?m pt = tables (phys s) pt" unfolding tables_def
    by (intro Collect_cong) (metis (no_types) keep)
  have al: "page_aligned pt" by (rule pt_tree_aligned [OF tree])
  have tree': "pt_tree ?m pt" using tree keep unfolding pt_tree_def by (metis (no_types))
  have lt: "pa OR perm < 0x100000000" using sm by (intro or_lt_2_32) (auto elim: less_trans)
  have nj': "no_junk ?m pt" unfolding no_junk_def
  proof
    fix v
    have "(pa OR perm) AND PTE_PAMASK < 0x100000000"
      by (rule le_less_trans [OF word_and_le2 lt])
    then show "fst (snd (pt_entry ?m pt v)) AND PTE_PAMASK < 0x100000000"
      using nj unfolding no_junk_def entry by (cases "agree 12 ?va v") auto
  qed
  have "pt_inv avail ?s pt" using tree' nj' own T by (simp add: pt_inv_def owned_def)
  moreover have "pt_step avail s ?s pt" unfolding pt_step_def
  proof (intro conjI allI ballI impI)
    fix v k x assume "k \<le> 3" "table_at (phys s) pt v k = Some x"
    then show "table_at (phys ?s) pt v k = Some x" by (simp add: keep)
  next
    fix q show "avail ?s q \<longleftrightarrow> avail s q \<and> q \<notin> tables (phys ?s) pt"
      using own T by (auto simp: owned_def)
  next
    fix u assume "u \<in> tables (phys ?s) pt"
    then show "u \<in> tables (phys s) pt \<or> avail s u" by (simp add: T)
  next
    fix x assume x: "\<forall>t\<in>tables (phys ?s) pt. \<not> in_rng t 4096 x"
    have tt: "t \<in> tables (phys s) pt" using tablesI [OF t] by simp
    then have "\<not> in_rng t 4096 x" using x T by simp
    then have "\<not> in_rng (entry_addr t (pageindex ?va 0)) 8 x"
      using entry_in_page [OF tables_aligned [OF al tt] pageindex_lt] by blast
    then show "phys ?s x = phys s x" by (simp add: mem_simps)
  qed
  moreover have "mapping ?m pt v = (if agree 12 ?va v then mapped_page pa perm v else mapping (phys s) pt v)" for v
  proof (cases "agree 12 ?va v")
    case True
    then have "pt_entry ?m pt v = (0, pa OR perm, it_perm it)" using entry by simp
    then show ?thesis using True leaf_mapping [OF _ pa sm(2) sub] by simp
  next
    case False
    then have "pt_entry ?m pt v = pt_entry (phys s) pt v" using entry by simp
    then show ?thesis using False by (simp only: mapping_def if_False)
  qed
  moreover have "small_at ?m pt v" if sm: "small_at (phys s) pt v" for v
  proof (cases "agree 12 ?va v")
    case True
    then have e: "pt_entry ?m pt v = (0, pa OR perm, it_perm it)" using entry by simp
    have "\<exists>pe. pt_entry (phys s) pt ?va = (0, pe, it_perm it)"
      using pt_entryI [OF t _ can] by auto
    then obtain pe where "pt_entry (phys s) pt ?va = (0, pe, it_perm it)" by blast
    then have "pt_entry (phys s) pt v = (0, pe, it_perm it)" by (rule pt_entry_region) (simp add: True)
    then show ?thesis using sm e by (simp add: small_at_def)
  next
    case False
    then have "pt_entry ?m pt v = pt_entry (phys s) pt v" using entry by simp
    then show ?thesis using sm by (simp only: small_at_def)
  qed
  ultimately show ?thesis using it(2) by (auto simp: pep store_pe_def map_result_def)
qed

lemma try_map_ok:
  fixes pa0 perm :: u64
  assumes ok: "okm s" and inv: "pt_inv avail s (it_pt it)" and rd: "ready (phys s) it"
  defines "pa \<equiv> if pa0 = - 1 \<and> perm = 0 then 0 else pa0"
  assumes as: "map_asserts it pa perm" and sm: "pa < 0x100000000" "perm < 4096"
  shows "\<exists>r it' s'. try_map alloc s it pa0 perm = Some (r, it', s') \<and> okm s' \<and> map_result avail s it pa perm r s'"
proof (cases "perm = 0 \<and> it_level it \<noteq> 0")
  case True
  then have lv: "it_level it \<noteq> 0" and p0: "perm = 0" by auto
  have own: "owned avail s (it_pt it)" using inv by (simp add: pt_inv_def)
  have "map_loop alloc s it perm = Some (0, it, s)" using p0 by (subst map_loop.simps) simp
  then have tm: "try_map alloc s it pa0 perm = Some (0, it, s)"
    using as lv by (simp add: try_map_def pa_def [symmetric] Let_def)
  have "mapping (phys s) (it_pt it) v = mapped_page pa perm v" if a: "agree 12 (it_va it) v" for v
  proof -
    have can: "va_is_canonical (it_va it)" and off: "cur_pe (phys s) it AND PTE_P = 0" and l3: "it_level it \<le> 3"
      using rd lv by (auto simp: ready_def on_walk_def)
    obtain t where t: "table_at (phys s) (it_pt it) (it_va it) (3 - it_level it) = Some (t, it_perm it)"
      and pep: "it_pep it = Entry (entry_addr t (pageindex (it_va it) (it_level it)))"
      using rd by (auto simp: ready_def on_walk_def)
    have pe: "cur_pe (phys s) it = entry_at (phys s) t (it_va it) (it_level it)"
      by (simp add: pep load_pe_def entry_at_def)
    have "3 - (3 - it_level it) = it_level it" using l3 by simp
    then have e: "pt_entry (phys s) (it_pt it) (it_va it) = (it_level it, cur_pe (phys s) it, it_perm it)"
      using pt_entryI [OF t _ can] not_present_not_walk [OF off] pe by simp
    have "agree (12 + it_level it * 9) (it_va it) v" using a by (rule agree_mono) simp
    from pt_entry_region [OF e this] have "mapping (phys s) (it_pt it) v = None"
      using off by (simp add: mapping_def)
    then show ?thesis using p0 by (simp add: mapped_page_def)
  qed
  then have "map_result avail s it pa perm 0 s"
    using inv pt_step_refl [OF own] by (simp add: map_result_def)
  then show ?thesis using tm ok by blast
next
  case False
  have sub: "perm AND NOT (it_perm it) AND (PTE_P OR PTE_W OR PTE_U) = 0"
    and pa_ok: "if perm AND PTE_P \<noteq> 0 then pa AND PTE_PAMASK = pa else pa AND PTE_P = 0"
    using as by (auto simp: map_asserts_def split: if_splits)
  obtain r it' s' where res: "map_loop alloc s it perm = Some (r, it', s')" "okm s'" "pt_inv avail s' (it_pt it)"
    "pt_step avail s s' (it_pt it)" "\<forall>v. mapping (phys s') (it_pt it) v = mapping (phys s) (it_pt it) v"
    "\<forall>v. small_at (phys s) (it_pt it) v \<longrightarrow> small_at (phys s') (it_pt it) v"
    "ready (phys s') it'" "it_pt it' = it_pt it" "it_va it' = it_va it"
    and r: "r = 0 \<and> it_level it' = 0 \<and> it_perm it' AND 7 = it_perm it AND 7 \<or> r = - 1 \<and> (\<forall>q. \<not> avail s' q) \<and> perm \<noteq> 0"
  proof (cases "perm = 0")
    case True
    then have "map_loop alloc s it perm = Some (0, it, s)" by (subst map_loop.simps) simp
    then show ?thesis using that [of 0 it s] False True ok inv rd pt_step_refl [of avail s "it_pt it"]
      by (simp add: pt_inv_def)
  next
    case False
    then show ?thesis using map_loop_ok [OF ok inv rd refl False] that by blast
  qed
  show ?thesis
  proof (cases "r = 0")
    case True
    then have lv: "it_level it' = 0" and p7: "it_perm it' AND 7 = it_perm it AND 7" using r by auto
    have sub': "perm AND NOT (it_perm it') AND (PTE_P OR PTE_W OR PTE_U) = 0"
    proof -
      have "perm AND NOT (it_perm it') AND 7 = perm AND NOT (it_perm it) AND 7"
      proof (rule bit_word_eqI)
        fix i assume i: "i < LENGTH(64)"
        have "bit (it_perm it' AND 7) i = bit (it_perm it AND 7) i" by (simp only: p7)
        then show "bit (perm AND NOT (it_perm it') AND 7) i = bit (perm AND NOT (it_perm it) AND 7) i"
          using i unfolding bit_and_iff bit_not_iff by auto
      qed
      then show ?thesis using sub by simp
    qed
    obtain m where m: "store_pe (phys s') (it_pep it') (pa OR perm) = Some m"
      "map_result avail s' it' pa perm 0 (s'\<lparr>phys := m\<rparr>)"
      using leaf_store_step [OF res(3,7,8) lv pa_ok sm sub'] by blast
    have "try_map alloc s it pa0 perm = Some (0, it', s'\<lparr>phys := m\<rparr>)"
      using as res(1) True lv m(1) by (simp add: try_map_def pa_def [symmetric] Let_def)
    moreover have "map_result avail s it pa perm 0 (s'\<lparr>phys := m\<rparr>)"
      using m(2) res(5,6,8,9) pt_step_trans [OF res(4)] by (simp add: map_result_def)
    moreover have "okm (s'\<lparr>phys := m\<rparr>)" using res(2) by simp
    ultimately show ?thesis by blast
  next
    case rn: False
    then have "r = - 1" "\<forall>q. \<not> avail s' q" "perm \<noteq> 0" using r by auto
    moreover have "try_map alloc s it pa0 perm = Some (r, it', s')"
      using as res(1) rn by (simp add: try_map_def pa_def [symmetric] Let_def)
    ultimately show ?thesis using res by (auto simp: map_result_def)
  qed
qed

end

section \<open>Properties\<close>

text \<open>
  C24: \<open>try_map\<close> with the kernel's allocator always returns when its assertions hold. On success
  exactly the page of the iterator's address is mapped, to \<open>pa\<close> with the permissions \<open>perm\<close>,
  and every other virtual address keeps its mapping, although up to three table pages are
  allocated on the way. It fails only when no page is free, and then no mapping has changed.
  The page table stays a tree of pages that are in use, other memory is not written, and
  exactly the new table pages leave the pool of free pages.
\<close>

theorem try_map_exact:
  assumes "pages_ok s" "pt_inv free_page s (it_pt it)" "ready (phys s) it"
    and "pa = (if pa0 = - 1 \<and> perm = 0 then 0 else pa0)"
    and "map_asserts it pa perm" "pa < 0x100000000" "perm < 4096"
  shows "\<exists>r it' s'. try_map (kalloc PAGESIZE) s it pa0 perm = Some (r, it', s') \<and> pages_ok s'
    \<and> map_result free_page s it pa perm r s'"
  using kpa.try_map_ok [OF assms(1-3), of pa0 perm] assms(4-7) by simp

text \<open>An empty page table in the page 0x1000.\<close>

definition kmem1 :: kmem where
  "kmem1 = \<lparr>phys = (\<lambda>_. 0), pages = (replicate 512 0)[1 := 1], kernel_end = 0x47000\<rparr>"

definition iter1 :: vmiter where
  "iter1 = \<lparr>it_pt = 0x1000, it_pep = Entry (entry_addr 0x1000 0), it_level = 3,
     it_perm = initial_perm, it_va = 0x100000\<rparr>"

lemma entry_at_zero [simp]: "entry_at (\<lambda>_. 0) t v l = 0" by (simp add: entry_at_def)

lemma table_at_zero: "table_at (\<lambda>_. 0) pt v d = (if d = 0 then Some (pt, initial_perm) else None)"
proof (induction d)
  case (Suc d)
  then show ?case by (cases d) (simp_all add: Let_def)
qed simp

lemma pt_inv_zero:
  assumes "page_aligned pt" "\<not> avail s pt" "phys s = (\<lambda>_. 0)"
  shows "pt_inv avail s pt"
proof -
  have "pt_entry (\<lambda>_. 0) pt v = (3, 0, if va_is_canonical v then initial_perm else 0)" for v
    by (simp add: pt_entry_def numeral_3_eq_3 Let_def)
  then show ?thesis
    using assms by (auto simp: pt_inv_def pt_tree_def no_junk_def owned_def tables_def table_at_zero
        same_path_def split: if_splits)
qed

lemma kmem1_inv: "pages_ok kmem1" "pt_inv free_page kmem1 0x1000" "ready (phys kmem1) iter1" "it_pt iter1 = 0x1000"
proof -
  have "\<not> free_page kmem1 0x1000" by (simp add: free_page_def used_def kmem1_def)
  then show "pt_inv free_page kmem1 0x1000" by (intro pt_inv_zero) (simp_all add: kmem1_def)
qed (simp_all add: pages_ok_def kmem1_def ready_def iter1_def on_walk_def load_pe_def
    va_is_canonical_def pageindex_def)

theorem try_map_exact_witness:
  "\<exists>r it' s'. try_map (kalloc PAGESIZE) kmem1 iter1 0x5000 7 = Some (r, it', s') \<and> pages_ok s'
    \<and> map_result free_page kmem1 iter1 0x5000 7 r s'"
  by (rule try_map_exact) (use kmem1_inv in \<open>simp_all add: map_asserts_def iter1_def\<close>)

end
