(* ===== verification/PtIter.thy ===== *)
theory PtIter
  imports PageMap
begin

text \<open>
  What the page table page iterator \<open>ptiter\<close> visits: \<open>postorder\<close> lists the tables below the root
  of a page table in depth-first order, each table after the tables below it. The iterator
  visits exactly this list. It reads only tables it has still to visit, so the loop of the
  documentation (\<open>kfree\<close> each page, then \<open>next\<close>) may overwrite each page once it was visited:
  the lemmas compare the memory \<open>m\<close> at the start with a memory \<open>m'\<close> that agrees with it on the
  pages still to come.
\<close>

section \<open>The list of tables\<close>

fun ent :: "mem \<Rightarrow> nat \<Rightarrow> u64 \<Rightarrow> u64 list" where
  "ent m 0 pe = []"
| "ent m (Suc l) pe =
     (if walk_on pe
      then concat (map (\<lambda>j. ent m l (ld64 m (entry_addr (pe AND PTE_PAMASK) (of_nat j)))) [0..<512])
             @ [pe AND PTE_PAMASK]
      else [])"

definition rows :: "mem \<Rightarrow> nat \<Rightarrow> u64 \<Rightarrow> nat \<Rightarrow> u64 list" where
  "rows m l t j = concat (map (\<lambda>i. ent m l (ld64 m (entry_addr t (of_nat i)))) [j..<512])"

definition postorder :: "mem \<Rightarrow> u64 \<Rightarrow> u64 list" where
  "postorder m pt = rows m 3 pt 0"

abbreviation idx :: "u64 \<Rightarrow> nat \<Rightarrow> nat" where
  "idx va l \<equiv> unat (pageindex va l)"

definition tb :: "mem \<Rightarrow> u64 \<Rightarrow> u64 \<Rightarrow> nat \<Rightarrow> u64" where
  "tb m pt va d = fst (the (table_at m pt va d))"

text \<open>The visits still to come after those in the table at depth \<open>d\<close> on the path of \<open>va\<close>.\<close>

fun up :: "mem \<Rightarrow> u64 \<Rightarrow> u64 \<Rightarrow> nat \<Rightarrow> u64 list" where
  "up m pt va 0 = []"
| "up m pt va (Suc d) =
     tb m pt va (Suc d) # rows m (3 - d) (tb m pt va d) (Suc (idx va (3 - d))) @ up m pt va d"

definition visits_from :: "mem \<Rightarrow> u64 \<Rightarrow> u64 \<Rightarrow> nat \<Rightarrow> u64 list" where
  "visits_from m pt va d = rows m (3 - d) (tb m pt va d) (idx va (3 - d)) @ up m pt va d"

definition visits_after :: "mem \<Rightarrow> u64 \<Rightarrow> u64 \<Rightarrow> nat \<Rightarrow> u64 list" where
  "visits_after m pt va d = rows m (3 - d) (tb m pt va d) (Suc (idx va (3 - d))) @ up m pt va d"

lemma up_Suc: "up m pt va (Suc d) = tb m pt va (Suc d) # visits_after m pt va d"
  by (simp add: visits_after_def)

lemma idx_lt: "idx va l < 512"
  using pageindex_lt [of va l] by (simp add: word_less_nat_alt)

lemma rows_Cons: "j < 512 \<Longrightarrow> rows m l t j = ent m l (ld64 m (entry_addr t (of_nat j))) @ rows m l t (Suc j)"
  by (simp add: rows_def upt_conv_Cons)

lemma rows_0 [simp]: "rows m 0 t j = []"
  by (simp add: rows_def)

lemma rows_end [simp]: "rows m l t 512 = []"
  by (simp add: rows_def)

lemma ent_rows: "ent m (Suc l) pe = (if walk_on pe then rows m l (pe AND PTE_PAMASK) 0 @ [pe AND PTE_PAMASK] else [])"
  by (simp add: rows_def)

lemma visits_from_step:
  "visits_from m pt va d = ent m (3 - d) (entry_at m (tb m pt va d) va (3 - d)) @ visits_after m pt va d"
  using rows_Cons [OF idx_lt, of m "3 - d" "tb m pt va d" va "3 - d"]
  by (simp add: visits_from_def visits_after_def entry_at_def)

section \<open>Moving to the next entry\<close>

lemma unat_pageindex: "idx va l = unat va div 2 ^ (12 + l * 9) mod 512"
proof -
  have "(0x1FF :: u64) = mask 9" by (simp add: mask_eq_exp_minus_1)
  then have "pageindex va l = take_bit 9 (drop_bit (12 + l * 9) va)"
    by (simp only: pageindex_def take_bit_eq_mask PAGEOFFBITS_def PAGEINDEXBITS_def)
  then have "idx va l = take_bit 9 (unat (drop_bit (12 + l * 9) va))"
    by (simp only: unsigned_take_bit_eq)
  then show ?thesis by (simp only: unat_drop_bit) (simp add: take_bit_eq_mod)
qed

lemma unat_or_mask:
  assumes "n \<le> 63"
  shows "unat (va OR mask n :: u64) = unat va div 2 ^ n * 2 ^ n + (2 ^ n - 1)"
proof -
  have "unat (va OR mask n) = unat va OR mask n"
    using assms by (intro bit_eqI) (auto simp: bit_unsigned_iff bit_or_iff bit_mask_iff dest: bit_imp_le_length)
  also have "\<dots> = push_bit n (drop_bit n (unat va)) OR mask n"
    by (rule bit_eqI) (auto simp: bit_simps)
  also have "\<dots> = push_bit n (drop_bit n (unat va)) + mask n"
    by (rule disjunctive_add_eq_or [symmetric]) (auto simp: bit_simps bit_eq_iff)
  finally show ?thesis by (simp add: push_bit_eq_mult drop_bit_eq_div mask_eq_exp_minus_1)
qed

definition nxt :: "u64 \<Rightarrow> nat \<Rightarrow> u64" where
  "nxt va l = (va OR pageoffmask l) + 1"

definition aligned_to :: "u64 \<Rightarrow> nat \<Rightarrow> bool" where
  "aligned_to va l \<longleftrightarrow> 2 ^ (12 + l * 9) dvd unat va"

lemma unat_nxt:
  assumes "l \<le> 3" "unat va < 2 ^ 48"
  shows "unat (nxt va l) = (unat va div 2 ^ (12 + l * 9) + 1) * 2 ^ (12 + l * 9)"
proof -
  let ?n = "12 + l * 9"
  have n: "?n \<le> 39" using assms(1) by simp
  have pos: "(1 :: nat) \<le> 2 ^ ?n" by simp
  have le: "unat va div 2 ^ ?n * 2 ^ ?n \<le> unat va" by simp
  have pw: "(2 :: nat) ^ ?n \<le> 2 ^ 39" using n by (intro power_increasing) auto
  have "unat va + 2 ^ 39 < 2 ^ 64" using assms(2) by simp
  then have small: "unat va div 2 ^ ?n * 2 ^ ?n + 2 ^ ?n < 2 ^ 64" by (rule le_less_trans [OF add_le_mono [OF le pw]])
  have o: "unat (va OR pageoffmask l) = unat va div 2 ^ ?n * 2 ^ ?n + (2 ^ ?n - 1)"
    unfolding pageoffmask_mask by (rule unat_or_mask) (use n in simp)
  then have "unat (nxt va l) = unat (va OR pageoffmask l) + 1"
    unfolding nxt_def using small pos by (subst unat_add_lt) simp_all
  then show ?thesis using o pos by (simp add: algebra_simps)
qed

lemma div_Suc_512: "(q + 1) div 512 = q div 512 \<longleftrightarrow> q mod 512 \<noteq> 511" for q :: nat
  by (simp add: div_Suc mod_Suc)

lemma nxt_div:
  assumes "l \<le> 3" "unat va < 2 ^ 48"
  shows "unat (nxt va l) div 2 ^ (21 + l * 9) = (unat va div 2 ^ (12 + l * 9) + 1) div 512"
    and "unat va div 2 ^ (21 + l * 9) = unat va div 2 ^ (12 + l * 9) div 512"
proof -
  have p: "(2 :: nat) ^ (21 + l * 9) = 2 ^ (12 + l * 9) * 512" by (simp add: power_add)
  show "unat (nxt va l) div 2 ^ (21 + l * 9) = (unat va div 2 ^ (12 + l * 9) + 1) div 512"
    by (simp only: p div_mult2_eq unat_nxt [OF assms]) simp
  show "unat va div 2 ^ (21 + l * 9) = unat va div 2 ^ (12 + l * 9) div 512"
    by (simp only: p div_mult2_eq)
qed

lemma nxt_agree:
  assumes "l \<le> 3" "unat va < 2 ^ 48"
  shows "agree (21 + l * 9) va (nxt va l) \<longleftrightarrow> idx va l \<noteq> 511"
  unfolding agree_drop word_unat_eq_iff unat_drop_bit nxt_div [OF assms] unat_pageindex
  using div_Suc_512 by (metis (no_types))

lemma nxt_up:
  assumes "l \<le> 3" "unat va < 2 ^ 48"
  shows "(nxt va l XOR va) AND NOT (pageoffmask (l + 1)) \<noteq> 0 \<longleftrightarrow> idx va l = 511"
proof -
  have "12 + (l + 1) * 9 = 21 + l * 9" by simp
  then have "(nxt va l XOR va) AND NOT (pageoffmask (l + 1)) = 0 \<longleftrightarrow> agree (21 + l * 9) (nxt va l) va"
    by (simp only: agree_def pageoffmask_mask)
  then show ?thesis using nxt_agree [OF assms] agree_sym by blast
qed

lemma nxt_next:
  assumes "l \<le> 3" "unat va < 2 ^ 48" "idx va l \<noteq> 511"
  shows "idx (nxt va l) l = Suc (idx va l)"
    and "l < k \<Longrightarrow> pageindex (nxt va l) k = pageindex va k"
    and "unat (nxt va l) < 2 ^ 48" and "unat va < unat (nxt va l)"
    and "aligned_to (nxt va l) l"
proof -
  let ?q = "unat va div 2 ^ (12 + l * 9)"
  have ag: "agree (21 + l * 9) va (nxt va l)" using nxt_agree assms by blast
  have "(?q + 1) mod 512 = Suc (?q mod 512)"
    using assms(3) unfolding unat_pageindex by (simp add: mod_Suc)
  then show "idx (nxt va l) l = Suc (idx va l)"
    by (simp only: unat_pageindex unat_nxt [OF assms(1,2)]) simp
  show "l < k \<Longrightarrow> pageindex (nxt va l) k = pageindex va k"
    using agree_pageindex [OF agree_sym [OF ag]] by simp
  have d: "unat (nxt va l) div 2 ^ (21 + l * 9) = unat va div 2 ^ (21 + l * 9)"
    using ag by (simp only: agree_drop word_unat_eq_iff unat_drop_bit)
  have p: "(2 :: nat) ^ 48 = 2 ^ (21 + l * 9) * 2 ^ (27 - l * 9)"
    using assms(1) by (simp only: power_add [symmetric]) simp
  have "unat (nxt va l) div 2 ^ 48 = unat va div 2 ^ 48" by (simp only: p div_mult2_eq d)
  moreover have "unat va div 2 ^ 48 = 0" by (rule div_less [OF assms(2)])
  ultimately have "unat (nxt va l) div 2 ^ 48 = 0" by (rule trans)
  then show "unat (nxt va l) < 2 ^ 48" by (metis div_eq_0_iff zero_neq_numeral power_eq_0_iff)
  show "unat va < unat (nxt va l)"
    unfolding unat_nxt [OF assms(1,2)] using dividend_less_div_times [of "2 ^ (12 + l * 9)" "unat va"]
    by (simp add: algebra_simps)
  show "aligned_to (nxt va l) l" unfolding aligned_to_def unat_nxt [OF assms(1,2)] by (rule dvd_triv_right)
qed

lemma aligned_idx:
  assumes "aligned_to va (Suc l)"
  shows "idx va l = 0" "aligned_to va l"
proof -
  have p: "(2 :: nat) ^ (12 + Suc l * 9) = 2 ^ (12 + l * 9) * 512" by (simp add: power_add)
  obtain k where "unat va = 2 ^ (12 + l * 9) * 512 * k" using assms unfolding aligned_to_def p by (elim dvdE)
  then have k: "unat va = 2 ^ (12 + l * 9) * (512 * k)" by (simp only: mult.assoc)
  show "idx va l = 0" unfolding unat_pageindex k by simp
  show "aligned_to va l" unfolding aligned_to_def k by (rule dvd_triv_left)
qed

section \<open>Positions\<close>

definition keeps_pages :: "mem \<Rightarrow> mem \<Rightarrow> u64 set \<Rightarrow> bool" where
  "keeps_pages m m' S \<longleftrightarrow> (\<forall>t\<in>S. \<forall>x. in_rng t 4096 x \<longrightarrow> m' x = m x)"

definition at_pos :: "mem \<Rightarrow> u64 \<Rightarrow> u64 \<Rightarrow> nat \<Rightarrow> ptiter" where
  "at_pos m pt va d = \<lparr>pi_pt = pt, pi_pep = entry_addr (tb m pt va d) (pageindex va (3 - d)),
     pi_level = 3 - d, pi_va = va\<rparr>"

definition valid_pos :: "mem \<Rightarrow> u64 \<Rightarrow> u64 \<Rightarrow> nat \<Rightarrow> bool" where
  "valid_pos m pt va d \<longleftrightarrow> d \<le> 2 \<and> unat va < 2 ^ 48 \<and> table_at m pt va d \<noteq> None"

lemma keeps_pages_mono: "keeps_pages m m' S \<Longrightarrow> R \<subseteq> S \<Longrightarrow> keeps_pages m m' R"
  unfolding keeps_pages_def by blast

lemma tb_0 [simp]: "tb m pt va 0 = pt" by (simp add: tb_def)

lemma table_at_tb: "table_at m pt va d \<noteq> None \<Longrightarrow> \<exists>p. table_at m pt va d = Some (tb m pt va d, p)"
  by (auto simp: tb_def)

lemma table_at_Suc_iff:
  "table_at m pt va (Suc d) \<noteq> None \<longleftrightarrow>
     table_at m pt va d \<noteq> None \<and> walk_on (entry_at m (tb m pt va d) va (3 - d))"
  by (auto simp: tb_def Let_def split: option.splits)

lemma tb_Suc:
  "table_at m pt va (Suc d) \<noteq> None \<Longrightarrow> tb m pt va (Suc d) = entry_at m (tb m pt va d) va (3 - d) AND PTE_PAMASK"
  by (auto simp: tb_def Let_def split: option.splits if_splits)

lemma tb_aligned:
  "page_aligned pt \<Longrightarrow> table_at m pt va d \<noteq> None \<Longrightarrow> page_aligned (tb m pt va d)"
  using table_at_tb table_at_aligned by blast

lemma entry_keeps:
  assumes "page_aligned pt" "table_at m pt va d \<noteq> None" "keeps_pages m m' S" "tb m pt va d \<in> S"
  shows "ld64 m' (pi_pep (at_pos m pt va d)) = entry_at m (tb m pt va d) va (3 - d)"
proof -
  have "entry_at m' (tb m pt va d) va (3 - d) = entry_at m (tb m pt va d) va (3 - d)"
    using assms by (intro entry_at_cong tb_aligned) (auto simp: keeps_pages_def)
  then show ?thesis by (simp add: at_pos_def entry_at_def)
qed

lemma up_tables: "e \<le> d \<Longrightarrow> tb m pt va e \<in> insert pt (set (up m pt va d))"
proof (induction d)
  case (Suc d)
  then show ?case by (cases "e = Suc d") auto
qed simp

lemma up_cong: "same_path d v w \<Longrightarrow> up m pt v d = up m pt w d"
proof (induction d)
  case (Suc d)
  then have "same_path d v w" and ix: "pageindex v (3 - d) = pageindex w (3 - d)" by (simp_all add: same_path_Suc)
  then show ?case using Suc.IH table_at_cong [OF Suc.prems] table_at_cong [of d v w] by (simp add: tb_def)
qed simp

lemma tb_cong: "same_path d v w \<Longrightarrow> tb m pt v d = tb m pt w d"
  by (simp add: tb_def table_at_cong)

text \<open>From the root along the path of \<open>va\<close> to the entry whose table was just finished.\<close>

lemma descend:
  assumes "page_aligned pt" "table_at m pt va (Suc d) \<noteq> None" "d \<le> 2"
    and "keeps_pages m m' (insert pt (set (up m pt va d)))" "e \<le> d"
  shows "pt_down m' (at_pos m pt va e) (3 - d) False = Some (at_pos m pt va d)"
  using assms(5)
proof (induction "d - e" arbitrary: e)
  case 0
  then have "e = d" by simp
  moreover have "table_at m pt va d \<noteq> None" "walk_on (entry_at m (tb m pt va d) va (3 - d))"
    using assms(2) unfolding table_at_Suc_iff by auto
  ultimately show ?case
    using entry_keeps [OF assms(1) _ assms(4) up_tables, of d]
    by (subst pt_down.simps) (simp add: at_pos_def)
next
  case (Suc k)
  then have e: "e < d" by simp
  have some: "table_at m pt va (Suc e) \<noteq> None" if "Suc e \<le> Suc d" for e
    using that assms(2)
  proof (induction rule: inc_induct)
    case (step n) then show ?case using table_at_Suc_iff by blast
  qed
  have te: "table_at m pt va e \<noteq> None" "walk_on (entry_at m (tb m pt va e) va (3 - e))"
    using some [of e] e unfolding table_at_Suc_iff by auto
  have rd: "ld64 m' (pi_pep (at_pos m pt va e)) = entry_at m (tb m pt va e) va (3 - e)"
    using e by (intro entry_keeps [OF assms(1) te(1) assms(4) up_tables]) simp
  have lv: "3 - e \<noteq> 3 - d" using e assms(3) by simp
  have nx: "(at_pos m pt va e)\<lparr>pi_level := 3 - e - 1,
      pi_pep := entry_addr (entry_at m (tb m pt va e) va (3 - e) AND PTE_PAMASK) (pageindex va (3 - e - 1))\<rparr>
    = at_pos m pt va (Suc e)"
    using some [of e] e by (simp add: at_pos_def tb_Suc)
  have "pt_down m' (at_pos m pt va e) (3 - d) False = pt_down m' (at_pos m pt va (Suc e)) (3 - d) False"
    using te(2) rd lv nx by (subst pt_down.simps) (simp add: at_pos_def)
  also have "\<dots> = Some (at_pos m pt va d)" using Suc.hyps(1) [of "Suc e"] Suc.hyps(2) e by simp
  finally show ?case .
qed

definition outcome :: "mem \<Rightarrow> u64 \<Rightarrow> ptiter option \<Rightarrow> u64 list \<Rightarrow> bool" where
  "outcome m pt r vs \<longleftrightarrow> (case vs of
       [] \<Rightarrow> \<exists>it. r = Some it \<and> \<not> pt_active it
     | x # xs \<Rightarrow> \<exists>va d. r = Some (at_pos m pt va d) \<and> valid_pos m pt va d
         \<and> table_at m pt va (Suc d) \<noteq> None \<and> tb m pt va (Suc d) = x \<and> visits_after m pt va d = xs)"

lemma pt_down_leave:
  assumes "\<not> (walk_on (ld64 m (pi_pep it)) \<and> \<not> skip)"
  shows "pt_down m it stop_level skip =
    (if (nxt (pi_va it) (pi_level it) XOR pi_va it) AND NOT (pageoffmask (pi_level it + 1)) \<noteq> 0 then
       if pi_level it = 3 then Some (it\<lparr>pi_va := VA_NONCANONMAX + 1\<rparr>)
       else pt_down m (it\<lparr>pi_level := 3, pi_pep := entry_addr (pi_pt it) (pageindex (pi_va it) 3)\<rparr>)
              (pi_level it + 1) False
     else pt_down m (it\<lparr>pi_pep := pi_pep it + 8, pi_va := nxt (pi_va it) (pi_level it)\<rparr>) stop_level False)"
  unfolding pt_down.simps [of m it stop_level skip] if_not_P [OF assms] nxt_def ..

text \<open>Leaving the entry of a position: to its neighbour, or up to the parent's entry.\<close>

lemma advance:
  assumes al: "page_aligned pt" and v: "valid_pos m pt va d"
    and keep: "keeps_pages m m' (insert pt (set (visits_after m pt va d)))"
    and skip: "skip \<or> \<not> walk_on (entry_at m (tb m pt va d) va (3 - d))"
    and IH: "idx va (3 - d) \<noteq> 511 \<Longrightarrow> outcome m pt (pt_down m' (at_pos m pt (nxt va (3 - d)) d) 1 False)
      (visits_from m pt (nxt va (3 - d)) d)"
  shows "outcome m pt (pt_down m' (at_pos m pt va d) 1 skip) (visits_after m pt va d)"
proof -
  have d2: "d \<le> 2" and lt: "unat va < 2 ^ 48" and t: "table_at m pt va d \<noteq> None"
    using v by (simp_all add: valid_pos_def)
  have l3: "3 - d \<le> 3" by simp
  have kup: "keeps_pages m m' (insert pt (set (up m pt va d)))"
    using keep by (rule keeps_pages_mono) (auto simp: visits_after_def)
  have "ld64 m' (pi_pep (at_pos m pt va d)) = entry_at m (tb m pt va d) va (3 - d)"
    by (rule entry_keeps [OF al t kup up_tables]) simp
  then have c: "\<not> (walk_on (ld64 m' (pi_pep (at_pos m pt va d))) \<and> \<not> skip)" using skip by auto
  show ?thesis
  proof (cases "idx va (3 - d) = 511")
    case True
    have x: "(nxt va (3 - d) XOR va) AND NOT (pageoffmask (3 - d + 1)) \<noteq> 0"
      using nxt_up [OF l3 lt] True by blast
    have va: "visits_after m pt va d = up m pt va d" using True by (simp add: visits_after_def)
    show ?thesis
    proof (cases d)
      case 0
      have "pt_down m' (at_pos m pt va d) 1 skip = Some ((at_pos m pt va d)\<lparr>pi_va := VA_NONCANONMAX + 1\<rparr>)"
        unfolding pt_down_leave [OF c] using x 0 by (simp add: at_pos_def)
      then show ?thesis using va 0 by (simp add: outcome_def pt_active_def)
    next
      case (Suc e)
      have lv: "3 - d + 1 = 3 - e" "3 - d \<noteq> 3" using Suc d2 by auto
      have top: "(at_pos m pt va d)\<lparr>pi_level := 3, pi_pep := entry_addr pt (pageindex va 3)\<rparr> = at_pos m pt va 0"
        by (simp add: at_pos_def)
      have "pt_down m' (at_pos m pt va d) 1 skip = pt_down m' (at_pos m pt va 0) (3 - e) False"
        unfolding pt_down_leave [OF c] using x lv top by (simp add: at_pos_def)
      also have "\<dots> = Some (at_pos m pt va e)"
      proof (rule descend [OF al])
        show "table_at m pt va (Suc e) \<noteq> None" using t Suc by simp
        show "keeps_pages m m' (insert pt (set (up m pt va e)))"
          using kup by (rule keeps_pages_mono) (auto simp: Suc)
      qed (use Suc d2 in simp_all)
      finally have r: "pt_down m' (at_pos m pt va d) 1 skip = Some (at_pos m pt va e)" .
      have "valid_pos m pt va e" using v Suc table_at_Suc_iff [of m pt va e] by (auto simp: valid_pos_def simp del: table_at.simps)
      moreover have va': "visits_after m pt va d = tb m pt va (Suc e) # visits_after m pt va e"
        using va unfolding Suc up_Suc by (rule trans) (rule refl)
      ultimately show ?thesis using r t Suc unfolding outcome_def va' list.case
        by (intro exI [of _ va] exI [of _ e]) (simp del: table_at.simps)
    qed
  next
    case False
    let ?w = "nxt va (3 - d)"
    note nn = nxt_next [OF l3 lt False]
    have x: "\<not> ((?w XOR va) AND NOT (pageoffmask (3 - d + 1)) \<noteq> 0)"
      using nxt_up [OF l3 lt] False by blast
    have sp: "same_path d va ?w" unfolding same_path_def using nn(2) d2 by auto
    have "(of_nat (idx ?w (3 - d)) :: u64) = of_nat (Suc (idx va (3 - d)))" by (simp only: nn(1))
    then have "pageindex ?w (3 - d) = pageindex va (3 - d) + 1" by (simp add: add.commute)
    then have nx: "(at_pos m pt va d)\<lparr>pi_pep := pi_pep (at_pos m pt va d) + 8, pi_va := ?w\<rparr> = at_pos m pt ?w d"
      using tb_cong [OF sp] by (simp add: at_pos_def entry_addr_def algebra_simps)
    have "pt_down m' (at_pos m pt va d) 1 skip = pt_down m' (at_pos m pt ?w d) 1 False"
      unfolding pt_down_leave [OF c] using x nx by (simp add: at_pos_def)
    moreover have "visits_after m pt va d = visits_from m pt ?w d"
      using nn(1) tb_cong [OF sp] up_cong [OF sp] by (simp add: visits_after_def visits_from_def)
    ultimately show ?thesis using IH [OF False] by simp
  qed
qed

section \<open>The iterator visits the list\<close>

lemma visit_from:
  assumes "page_aligned pt" "valid_pos m pt va d" "aligned_to va (3 - d)"
    and "keeps_pages m m' (insert pt (set (visits_from m pt va d)))"
  shows "outcome m pt (pt_down m' (at_pos m pt va d) 1 False) (visits_from m pt va d)"
  using assms(2-4)
proof (induction "(2 ^ 48 - unat va) * 4 + (3 - d)" arbitrary: va d rule: less_induct)
  case (less va d)
  note al = assms(1) and v = less.prems(1) and ali = less.prems(2) and keep = less.prems(3)
  have d2: "d \<le> 2" and lt: "unat va < 2 ^ 48" and t: "table_at m pt va d \<noteq> None"
    using v by (simp_all add: valid_pos_def)
  let ?pe = "entry_at m (tb m pt va d) va (3 - d)"
  have kafter: "keeps_pages m m' (insert pt (set (visits_after m pt va d)))"
    using keep by (rule keeps_pages_mono) (auto simp: visits_from_step)
  have kup: "keeps_pages m m' (insert pt (set (up m pt va d)))"
    using kafter by (rule keeps_pages_mono) (auto simp: visits_after_def)
  have rd: "ld64 m' (pi_pep (at_pos m pt va d)) = ?pe"
    by (rule entry_keeps [OF al t kup up_tables]) simp
  have d3: "3 - d = Suc (2 - d)" using d2 by simp
  show ?case
  proof (cases "walk_on ?pe")
    case False
    have e: "visits_from m pt va d = visits_after m pt va d"
      using False by (simp only: visits_from_step d3 ent.simps if_False append_Nil)
    show ?thesis unfolding e
    proof (rule advance [OF al v kafter])
      show "False \<or> \<not> walk_on ?pe" using False by blast
      assume ix: "idx va (3 - d) \<noteq> 511"
      have l3: "3 - d \<le> 3" by simp
      note nn = nxt_next [OF l3 lt ix]
      let ?w = "nxt va (3 - d)"
      have sp: "same_path d va ?w" unfolding same_path_def using nn(2) d2 by auto
      have tw: "table_at m pt ?w d \<noteq> None" using table_at_cong [OF sp] t by simp
      have vw: "visits_after m pt va d = visits_from m pt ?w d"
        using nn(1) tb_cong [OF sp] up_cong [OF sp] by (simp add: visits_after_def visits_from_def)
      show "outcome m pt (pt_down m' (at_pos m pt ?w d) 1 False) (visits_from m pt ?w d)"
      proof (rule less.hyps)
        show "(2 ^ 48 - unat ?w) * 4 + (3 - d) < (2 ^ 48 - unat va) * 4 + (3 - d)"
          using nn(3,4) by linarith
        show "valid_pos m pt ?w d" using d2 nn(3) tw by (simp add: valid_pos_def)
        show "aligned_to ?w (3 - d)" by (rule nn(5))
        show "keeps_pages m m' (insert pt (set (visits_from m pt ?w d)))" using kafter unfolding vw .
      qed
    qed
  next
    case True
    have tS: "table_at m pt va (Suc d) \<noteq> None" using t True table_at_Suc_iff by blast
    have tbS: "tb m pt va (Suc d) = ?pe AND PTE_PAMASK" by (rule tb_Suc [OF tS])
    have vs: "visits_from m pt va d = rows m (2 - d) (tb m pt va (Suc d)) 0 @ tb m pt va (Suc d) # visits_after m pt va d"
      unfolding visits_from_step d3 ent_rows tbS using True d3 by simp
    show ?thesis
    proof (cases "d = 2")
      case two: True
      then have "pt_down m' (at_pos m pt va d) 1 False = Some (at_pos m pt va d)"
        using True rd by (subst pt_down.simps) (simp add: at_pos_def)
      moreover have "visits_from m pt va d = tb m pt va (Suc d) # visits_after m pt va d"
        using vs two by simp
      ultimately show ?thesis using v tS unfolding outcome_def
        by (simp only: list.case) blast
    next
      case False
      then have d1: "Suc d \<le> 2" "2 - d = 3 - Suc d" "3 - d = Suc (3 - Suc d)" using d2 by auto
      note ai = aligned_idx [OF ali [unfolded d1(3)]]
      have lv: "3 - d \<noteq> 1" using d1(1) by simp
      have vs': "visits_from m pt va d = visits_from m pt va (Suc d)"
        unfolding vs by (simp only: visits_from_def ai(1) d1(2) up_Suc)
      have nx: "(at_pos m pt va d)\<lparr>pi_level := 3 - d - 1, pi_pep := entry_addr (?pe AND PTE_PAMASK) (pageindex va (3 - d - 1))\<rparr>
        = at_pos m pt va (Suc d)"
        by (simp add: at_pos_def tbS)
      have "pt_down m' (at_pos m pt va d) 1 False = pt_down m' (at_pos m pt va (Suc d)) 1 False"
        using True rd nx lv by (subst pt_down.simps) (simp add: at_pos_def)
      moreover have "outcome m pt (pt_down m' (at_pos m pt va (Suc d)) 1 False) (visits_from m pt va (Suc d))"
      proof (rule less.hyps)
        show "(2 ^ 48 - unat va) * 4 + (3 - Suc d) < (2 ^ 48 - unat va) * 4 + (3 - d)" using d1 by simp
        show "valid_pos m pt va (Suc d)" using d1 lt tS by (simp add: valid_pos_def del: table_at.simps)
        show "keeps_pages m m' (insert pt (set (visits_from m pt va (Suc d))))" using keep unfolding vs' .
      qed (rule ai(2))
      ultimately show ?thesis unfolding vs' by simp
    qed
  qed
qed

lemma visit_next:
  assumes al: "page_aligned pt" and v: "valid_pos m pt va d"
    and keep: "keeps_pages m m' (insert pt (set (visits_after m pt va d)))"
  shows "outcome m pt (pt_next m' (at_pos m pt va d)) (visits_after m pt va d)"
  unfolding pt_next_def
proof (rule advance [OF al v keep])
  have d2: "d \<le> 2" and lt: "unat va < 2 ^ 48" and t: "table_at m pt va d \<noteq> None"
    using v by (simp_all add: valid_pos_def)
  have l3: "3 - d \<le> 3" by simp
  assume ix: "idx va (3 - d) \<noteq> 511"
  note nn = nxt_next [OF l3 lt ix]
  let ?w = "nxt va (3 - d)"
  have sp: "same_path d va ?w" unfolding same_path_def using nn(2) d2 by auto
  have vw: "visits_after m pt va d = visits_from m pt ?w d"
    using nn(1) tb_cong [OF sp] up_cong [OF sp] by (simp add: visits_after_def visits_from_def)
  show "outcome m pt (pt_down m' (at_pos m pt ?w d) 1 False) (visits_from m pt ?w d)"
    using visit_from [OF al _ nn(5)] d2 nn(3) table_at_cong [OF sp] t keep vw
    by (simp add: valid_pos_def)
qed simp

lemma visit_new:
  assumes "page_aligned pt" "keeps_pages m m' (insert pt (set (postorder m pt)))"
  shows "outcome m pt (ptiter_new m' pt 0) (postorder m pt)"
proof -
  have e: "visits_from m pt 0 0 = postorder m pt"
    by (simp add: visits_from_def postorder_def pageindex_def)
  have "outcome m pt (pt_down m' (at_pos m pt 0 0) 1 False) (visits_from m pt 0 0)"
    using assms by (intro visit_from) (simp_all add: valid_pos_def aligned_to_def e)
  then show ?thesis by (simp add: e ptiter_new_def at_pos_def)
qed

section \<open>The list is the set of tables\<close>

lemma path_choice:
  assumes "i < 512" "d \<le> 3"
  obtains w where "same_path d v w" "pageindex w (3 - d) = i"
proof -
  let ?n = "12 + (3 - d) * 9"
  let ?w = "(v AND NOT (push_bit ?n 0x1FF)) OR push_bit ?n i"
  have i9: "bit i b \<Longrightarrow> b < 9" for b
  proof (rule ccontr)
    assume b: "bit i b" "\<not> b < 9"
    have "drop_bit 9 i = 0"
      using assms(1) by (simp only: word_unat_eq_iff unat_drop_bit) (simp add: word_less_nat_alt div_eq_0_iff)
    then have "\<not> bit (drop_bit 9 i) (b - 9)" by simp
    then show False using b by (simp add: bit_drop_bit_eq)
  qed
  have w: "bit ?w b = (if ?n \<le> b \<and> b < ?n + 9 then bit i (b - ?n) else bit v b)" if "b < 64" for b
    unfolding bit_or_iff bit_and_iff bit_not_iff bit_push_bit_iff bit_1FF
    using that i9 [of "b - ?n"] by auto
  have "same_path d v ?w" unfolding same_path_def
  proof (intro allI impI pageindex_eqI)
    fix e b assume e: "e < d" and b: "12 + (3 - e) * 9 \<le> b" "b < 21 + (3 - e) * 9"
    have "3 - d + 1 \<le> 3 - e" using e assms(2) by simp
    then have "?n + 9 \<le> b" using b(1) by linarith
    moreover have "b < 64" using b(2) by simp
    ultimately show "bit v b = bit ?w b" using w [of b] by simp
  qed
  moreover have "pageindex ?w (3 - d) = i"
  proof (rule bit_word_eqI)
    fix b assume "b < LENGTH(64)"
    have n: "?n \<le> 39" by simp
    show "bit (pageindex ?w (3 - d)) b = bit i b"
    proof (cases "b < 9")
      case True
      then have "?n + b < 64" using n by linarith
      from w [OF this] show ?thesis using True by (simp add: bit_pageindex)
    next
      case False
      then show ?thesis using i9 by (auto simp: bit_pageindex)
    qed
  qed
  ultimately show ?thesis by (rule that)
qed

lemma rows_elem:
  "x \<in> set (rows m (Suc l) t 0) \<longleftrightarrow>
     (\<exists>i < 512. walk_on (ld64 m (entry_addr t i))
        \<and> (x \<in> set (rows m l (ld64 m (entry_addr t i) AND PTE_PAMASK) 0) \<or> x = ld64 m (entry_addr t i) AND PTE_PAMASK))"
  (is "_ \<longleftrightarrow> (\<exists>i < 512. ?P i)")
proof -
  have "x \<in> set (rows m (Suc l) t 0) \<longleftrightarrow> (\<exists>j \<in> {0..<512}. x \<in> set (ent m (Suc l) (ld64 m (entry_addr t (of_nat j)))))"
    by (simp add: rows_def del: ent.simps)
  also have "\<dots> \<longleftrightarrow> (\<exists>j \<in> {0..<512 :: nat}. ?P (of_nat j))"
    unfolding ent_rows by (intro bex_cong refl) auto
  also have "\<dots> \<longleftrightarrow> (\<exists>i < 512. ?P i)"
  proof
    assume "\<exists>j \<in> {0..<512 :: nat}. ?P (of_nat j)"
    then obtain j :: nat where "j < 512" "?P (of_nat j)" by auto
    then show "\<exists>i < 512. ?P i" by (intro exI [of _ "of_nat j"]) (simp add: word_less_nat_alt unat_of_nat)
  next
    assume "\<exists>i < 512. ?P i"
    then obtain i where "i < 512" "?P i" by blast
    then show "\<exists>j \<in> {0..<512 :: nat}. ?P (of_nat j)"
      by (intro bexI [of _ "unat i"]) (simp_all add: word_less_nat_alt)
  qed
  finally show ?thesis .
qed

lemma table_at_prefix:
  "table_at m pt w k = Some y \<Longrightarrow> d \<le> k \<Longrightarrow> \<exists>z. table_at m pt w d = Some z"
proof (induction k arbitrary: y)
  case (Suc k)
  then show ?case using table_at_Suc_iff [of m pt w k] by (cases "d = Suc k") (auto simp del: table_at.simps)
qed auto

lemma rows_tables:
  assumes "table_at m pt v d = Some (t, p)" "d \<le> 3"
  shows "x \<in> set (rows m (3 - d) t 0) \<longleftrightarrow>
    (\<exists>w k q. d < k \<and> k \<le> 3 \<and> same_path d v w \<and> table_at m pt w k = Some (x, q))"
  using assms
proof (induction "3 - d" arbitrary: d v t p)
  case 0
  then show ?case by auto
next
  case (Suc l)
  then have d: "3 - d = Suc l" "3 - Suc d = l" "Suc d \<le> 3" by auto
  have new: "table_at m pt w (Suc d) = Some (ld64 m (entry_addr t i) AND PTE_PAMASK, p AND ld64 m (entry_addr t i))"
    if "same_path d v w" "pageindex w (3 - d) = i" "walk_on (ld64 m (entry_addr t i))" for w i
    using Suc.prems(1) table_at_cong [OF that(1)] that(2,3) d by (simp add: entry_at_def Let_def)
  show ?case unfolding d(1) rows_elem
  proof
    assume "\<exists>i<512. walk_on (ld64 m (entry_addr t i)) \<and>
      (x \<in> set (rows m l (ld64 m (entry_addr t i) AND PTE_PAMASK) 0) \<or> x = ld64 m (entry_addr t i) AND PTE_PAMASK)"
    then obtain i where i: "i < 512" "walk_on (ld64 m (entry_addr t i))"
      and x: "x \<in> set (rows m l (ld64 m (entry_addr t i) AND PTE_PAMASK) 0) \<or> x = ld64 m (entry_addr t i) AND PTE_PAMASK" by blast
    obtain w where w: "same_path d v w" "pageindex w (3 - d) = i" by (rule path_choice [OF i(1)]) (use Suc.prems in auto)
    note nw = new [OF w i(2)]
    show "\<exists>w k q. d < k \<and> k \<le> 3 \<and> same_path d v w \<and> table_at m pt w k = Some (x, q)"
      using x
    proof
      assume "x = ld64 m (entry_addr t i) AND PTE_PAMASK"
      then show ?thesis using nw w d(3) by blast
    next
      assume "x \<in> set (rows m l (ld64 m (entry_addr t i) AND PTE_PAMASK) 0)"
      then obtain w' k q where w': "Suc d < k" "k \<le> 3" "same_path (Suc d) w w'" "table_at m pt w' k = Some (x, q)"
        using Suc.hyps(1) [OF d(2) [symmetric] nw d(3)] unfolding d(2) by blast
      have "same_path d v w'" using w(1) w'(3) by (simp add: same_path_def)
      then show ?thesis using w' Suc_lessD by blast
    qed
  next
    assume "\<exists>w k q. d < k \<and> k \<le> 3 \<and> same_path d v w \<and> table_at m pt w k = Some (x, q)"
    then obtain w k q where k: "d < k" "k \<le> 3" "same_path d v w" "table_at m pt w k = Some (x, q)" by blast
    let ?i = "pageindex w (3 - d)"
    obtain z where z: "table_at m pt w (Suc d) = Some z" using table_at_prefix [OF k(4), of "Suc d"] k(1) by auto
    have tw: "table_at m pt w d = Some (t, p)" using table_at_cong [OF k(3)] Suc.prems(1) by simp
    have on: "walk_on (ld64 m (entry_addr t ?i))" and pe: "z = (ld64 m (entry_addr t ?i) AND PTE_PAMASK, p AND ld64 m (entry_addr t ?i))"
      using z tw by (auto simp: entry_at_def Let_def split: if_splits)
    show "\<exists>i<512. walk_on (ld64 m (entry_addr t i)) \<and>
      (x \<in> set (rows m l (ld64 m (entry_addr t i) AND PTE_PAMASK) 0) \<or> x = ld64 m (entry_addr t i) AND PTE_PAMASK)"
    proof (intro exI conjI)
      show "?i < 512" by (rule pageindex_lt)
      show "walk_on (ld64 m (entry_addr t ?i))" by (rule on)
      show "x \<in> set (rows m l (ld64 m (entry_addr t ?i) AND PTE_PAMASK) 0) \<or> x = ld64 m (entry_addr t ?i) AND PTE_PAMASK"
      proof (cases "k = Suc d")
        case True
        then show ?thesis using k(4) z pe by simp
      next
        case False
        then have "Suc d < k" using k(1) by simp
        then show ?thesis using Suc.hyps(1) [OF d(2) [symmetric] z [unfolded pe] d(3)] k unfolding d(2)
          by (meson same_path_refl)
      qed
    qed
  qed
qed

lemma distinct_concat_upt:
  assumes "\<And>i. i < n \<Longrightarrow> distinct (f i)"
    and "\<And>i j x. i < j \<Longrightarrow> j < n \<Longrightarrow> x \<in> set (f i) \<Longrightarrow> x \<notin> set (f j)"
  shows "distinct (concat (map f [0..<n]))"
  using assms
proof (induction n)
  case (Suc n)
  have "distinct (concat (map f [0..<n]))" using Suc.prems by (intro Suc.IH) auto
  then show ?case using Suc.prems by auto
qed simp

lemma rows_distinct:
  assumes "pt_tree m pt" "table_at m pt v d = Some (t, p)" "d \<le> 3"
  shows "distinct (rows m (3 - d) t 0)"
  using assms(2,3)
proof (induction "3 - d" arbitrary: d v t p)
  case 0
  then show ?case by simp
next
  case (Suc l)
  then have d: "3 - d = Suc l" "3 - Suc d = l" "Suc d \<le> 3" by auto
  let ?pe = "\<lambda>j. ld64 m (entry_addr t (of_nat j))"
  have new: "\<exists>w p'. pageindex w (3 - d) = of_nat j \<and> table_at m pt w (Suc d) = Some (?pe j AND PTE_PAMASK, p')"
    if j: "j < 512" "walk_on (?pe j)" for j :: nat
  proof -
    have "of_nat j < (512 :: u64)" using j(1) by (simp add: word_less_nat_alt unat_of_nat)
    then obtain w where w: "same_path d v w" "pageindex w (3 - d) = of_nat j"
      by (rule path_choice) (use Suc.prems in auto)
    then show ?thesis using Suc.prems(1) table_at_cong [OF w(1)] j(2) d by (auto simp: entry_at_def Let_def)
  qed
  have at: "\<exists>w k q. d < k \<and> k \<le> 3 \<and> pageindex w (3 - d) = of_nat j \<and> table_at m pt w k = Some (x, q)"
    if j: "j < 512" "x \<in> set (ent m (Suc l) (?pe j))" for j x
  proof -
    have on: "walk_on (?pe j)" and x: "x \<in> set (rows m l (?pe j AND PTE_PAMASK) 0) \<or> x = ?pe j AND PTE_PAMASK"
      using j(2) unfolding ent_rows by (auto split: if_splits)
    obtain w p' where w: "pageindex w (3 - d) = of_nat j" "table_at m pt w (Suc d) = Some (?pe j AND PTE_PAMASK, p')"
      using new [OF j(1) on] by blast
    show ?thesis using x
    proof
      assume "x = ?pe j AND PTE_PAMASK" then show ?thesis using w d(3) by blast
    next
      assume "x \<in> set (rows m l (?pe j AND PTE_PAMASK) 0)"
      then obtain w' k q where "Suc d < k" "k \<le> 3" "same_path (Suc d) w w'" "table_at m pt w' k = Some (x, q)"
        using rows_tables [OF w(2) d(3)] unfolding d(2) by blast
      then show ?thesis using w(1) by (metis Suc_lessD same_path_Suc)
    qed
  qed
  show ?case unfolding d(1) rows_def
  proof (rule distinct_concat_upt)
    fix j :: nat assume j: "j < 512"
    show "distinct (ent m (Suc l) (?pe j))"
    proof (cases "walk_on (?pe j)")
      case True
      obtain w p' where w: "pageindex w (3 - d) = of_nat j" "table_at m pt w (Suc d) = Some (?pe j AND PTE_PAMASK, p')"
        using new [OF j True] by blast
      have "distinct (rows m l (?pe j AND PTE_PAMASK) 0)" using Suc.hyps(1) [OF d(2) [symmetric] w(2) d(3)] unfolding d(2) .
      moreover have "?pe j AND PTE_PAMASK \<notin> set (rows m l (?pe j AND PTE_PAMASK) 0)"
        using rows_tables [OF w(2) d(3)] pt_treeD [OF assms(1) w(2) _ d(3)] unfolding d(2) by fastforce
      ultimately show ?thesis unfolding ent_rows by simp
    qed (simp add: ent_rows del: ent.simps)
  next
    fix i j :: nat and x assume ij: "i < j" "j < 512" and x: "x \<in> set (ent m (Suc l) (?pe i))"
    show "x \<notin> set (ent m (Suc l) (?pe j))"
    proof
      assume "x \<in> set (ent m (Suc l) (?pe j))"
      then obtain w k q where w: "d < k" "k \<le> 3" "pageindex w (3 - d) = of_nat j" "table_at m pt w k = Some (x, q)"
        using at [OF ij(2)] by blast
      obtain w' k' q' where w': "d < k'" "k' \<le> 3" "pageindex w' (3 - d) = of_nat i" "table_at m pt w' k' = Some (x, q')"
        using at [OF _ x] ij by auto
      have "k = k' \<and> same_path k w w'" by (rule pt_treeD [OF assms(1) w(4) w'(4) w(2) w'(2)])
      then have "pageindex w (3 - d) = pageindex w' (3 - d)" using w(1) by (simp add: same_path_def)
      then have "(of_nat j :: u64) = of_nat i" using w(3) w'(3) by simp
      then have "unat (of_nat j :: u64) = unat (of_nat i :: u64)" by simp
      then show False using ij by (simp add: unat_of_nat)
    qed
  qed
qed

section \<open>Properties\<close>

text \<open>The loop \<open>for (ptiter it(pt); it.active(); it.next())\<close> as the list of the pages it visits.\<close>

partial_function (option) pt_collect :: "mem \<Rightarrow> ptiter \<Rightarrow> u64 list option" where
  "pt_collect m it =
     (if pt_active it then
        Option.bind (pt_next m it) (\<lambda>it'. Option.bind (pt_collect m it') (\<lambda>xs. Some (pt_pa m it # xs)))
      else Some [])"

lemma pos_active: "valid_pos m pt va d \<Longrightarrow> pt_active (at_pos m pt va d)"
  by (simp add: pt_active_def at_pos_def valid_pos_def word_le_nat_alt)

lemma pos_pa:
  assumes "page_aligned pt" "table_at m pt va (Suc d) \<noteq> None"
    "keeps_pages m m' (insert pt (set (visits_after m pt va d)))"
  shows "pt_pa m' (at_pos m pt va d) = tb m pt va (Suc d)"
proof -
  have t: "table_at m pt va d \<noteq> None" using assms(2) unfolding table_at_Suc_iff by blast
  have "keeps_pages m m' (insert pt (set (up m pt va d)))"
    using assms(3) by (rule keeps_pages_mono) (auto simp: visits_after_def)
  from entry_keeps [OF assms(1) t this up_tables] have "ld64 m' (pi_pep (at_pos m pt va d)) = entry_at m (tb m pt va d) va (3 - d)"
    by simp
  then show ?thesis by (simp add: pt_pa_def tb_Suc [OF assms(2)])
qed

lemma keeps_pages_refl [simp]: "keeps_pages m m S" by (simp add: keeps_pages_def)

lemma pt_collect_outcome:
  assumes "page_aligned pt" "outcome m pt r vs"
  shows "\<exists>it. r = Some it \<and> pt_collect m it = Some vs"
  using assms(2)
proof (induction vs arbitrary: r)
  case Nil
  then show ?case by (auto simp: outcome_def pt_collect.simps)
next
  case (Cons x xs)
  then obtain va d where r: "r = Some (at_pos m pt va d)" and v: "valid_pos m pt va d"
    and t: "table_at m pt va (Suc d) \<noteq> None" and x: "tb m pt va (Suc d) = x" and xs: "visits_after m pt va d = xs"
    unfolding outcome_def list.case by blast
  have "outcome m pt (pt_next m (at_pos m pt va d)) xs"
    using visit_next [OF assms(1) v, of m] xs by simp
  from Cons.IH [OF this] obtain it' where "pt_next m (at_pos m pt va d) = Some it'" "pt_collect m it' = Some xs"
    by blast
  then have "pt_collect m (at_pos m pt va d) = Some (x # xs)"
    using pos_active [OF v] pos_pa [OF assms(1) t, of m] x by (subst pt_collect.simps) simp
  then show ?case using r by blast
qed

lemma postorder_tables:
  assumes "pt_tree m pt"
  shows "distinct (postorder m pt)" "set (postorder m pt) = tables m pt - {pt}"
proof -
  have al: "page_aligned pt" by (rule pt_tree_aligned [OF assms])
  have t0: "table_at m pt 0 0 = Some (pt, initial_perm)" by simp
  show "distinct (postorder m pt)"
    using rows_distinct [OF assms t0] by (simp add: postorder_def)
  have "x \<in> set (postorder m pt) \<longleftrightarrow> x \<in> tables m pt - {pt}" for x
  proof -
    have "x \<in> set (postorder m pt) \<longleftrightarrow> (\<exists>w k q. 0 < k \<and> k \<le> 3 \<and> table_at m pt w k = Some (x, q))"
      using rows_tables [OF t0, of x] by (simp add: postorder_def same_path_def)
    also have "\<dots> \<longleftrightarrow> x \<in> tables m pt - {pt}"
    proof
      assume "\<exists>w k q. 0 < k \<and> k \<le> 3 \<and> table_at m pt w k = Some (x, q)"
      then obtain w k q where k: "0 < k" "k \<le> 3" "table_at m pt w k = Some (x, q)" by blast
      then have "x \<noteq> pt" using pt_treeD [OF assms k(3), of 0 0 initial_perm] by auto
      then show "x \<in> tables m pt - {pt}" using tablesI [OF k(3,2)] by simp
    next
      assume "x \<in> tables m pt - {pt}"
      then obtain w k q where k: "k \<le> 3" "table_at m pt w k = Some (x, q)" "x \<noteq> pt" unfolding tables_def by blast
      then show "\<exists>w k q. 0 < k \<and> k \<le> 3 \<and> table_at m pt w k = Some (x, q)" by (cases "k = 0") auto
    qed
    finally show ?thesis .
  qed
  then show "set (postorder m pt) = tables m pt - {pt}" by blast
qed

text \<open>
  C26: The page table page iterator terminates and visits every table below the root of a page
  table exactly once, and no other page.
\<close>

theorem ptiter_visits_tables:
  assumes "pt_tree m pt"
  shows "\<exists>it vs. ptiter_new m pt 0 = Some it \<and> pt_collect m it = Some vs
    \<and> distinct vs \<and> set vs = tables m pt - {pt}"
  using pt_collect_outcome [OF pt_tree_aligned [OF assms] visit_new [OF pt_tree_aligned [OF assms], of m m]]
    postorder_tables [OF assms] by (metis (no_types) keeps_pages_refl)

theorem ptiter_visits_tables_witness:
  "\<exists>it vs. ptiter_new (phys kmem1) 0x1000 0 = Some it \<and> pt_collect (phys kmem1) it = Some vs
    \<and> distinct vs \<and> set vs = tables (phys kmem1) 0x1000 - {0x1000}"
  by (rule ptiter_visits_tables) (use kmem1_inv(2) in \<open>simp add: pt_inv_def\<close>)

end
