(* ===== verification/KHardware.thy ===== *)
theory KHardware
  imports PageTable
begin

text \<open>
  Hardware support of the kernel (\<open>pset3/k-hardware.cc\<close>, \<open>k-apic.hh\<close>, \<open>k-pci.hh\<close>): segment and
  gate descriptors, the registers of a new process, the keyboard, the symbol table, the stack
  walker, PCI configuration space, the local APIC, and the guards of static variables.

  Ports and model-specific registers are the machine's: an operation that only writes them is
  the list of its writes in order, an operation that reads them takes what it reads as an
  argument (the keyboard: the list of its polls; PCI: the configuration space).
\<close>

section \<open>Segments and gates\<close>

definition X86SEG_S :: u64 where [simp]: "X86SEG_S = push_bit 44 1"
definition X86SEG_P :: u64 where [simp]: "X86SEG_P = push_bit 47 1"
definition X86SEG_L :: u64 where [simp]: "X86SEG_L = push_bit 53 1"
definition X86SEG_W :: u64 where [simp]: "X86SEG_W = push_bit 40 0x2"
definition X86SEG_X :: u64 where [simp]: "X86SEG_X = push_bit 40 0x8"
definition X86SEG_TSS :: u64 where [simp]: "X86SEG_TSS = push_bit 40 0x9"

definition SEGSEL_KERN_CODE :: u64 where [simp]: "SEGSEL_KERN_CODE = 0x8"
definition SEGSEL_KERN_DATA :: u64 where [simp]: "SEGSEL_KERN_DATA = 0x10"
definition SEGSEL_APP_CODE :: u64 where [simp]: "SEGSEL_APP_CODE = 0x18"
definition SEGSEL_APP_DATA :: u64 where [simp]: "SEGSEL_APP_DATA = 0x20"
definition SEGSEL_TASKSTATE :: u64 where [simp]: "SEGSEL_TASKSTATE = 0x28"

definition set_app_segment :: "u64 \<Rightarrow> u64 \<Rightarrow> u64" where
  "set_app_segment typ dpl = typ OR X86SEG_S OR push_bit 45 dpl OR X86SEG_P"

definition set_sys_segment :: "u64 \<Rightarrow> u64 \<Rightarrow> u64 \<Rightarrow> u64 \<Rightarrow> u64 \<times> u64" where
  "set_sys_segment addr sz typ dpl =
     (push_bit 16 (addr AND 0x0000000000FFFFFF)
        OR push_bit 32 (addr AND 0x00000000FF000000)
        OR ((sz - 1) AND 0x0FFFF)
        OR push_bit 48 ((sz - 1) AND 0xF0000)
        OR typ
        OR push_bit 45 dpl
        OR X86SEG_P,
      drop_bit 32 addr)"

text \<open>\<open>None\<close> is the failed assertion.\<close>

definition set_gate :: "u64 \<Rightarrow> u32 \<Rightarrow> u32 \<Rightarrow> u32 \<Rightarrow> (u64 \<times> u64) option" where
  "set_gate addr typ dpl ist =
     (if typ < 16 \<and> dpl < 4 \<and> ist < 8 then
        Some ((addr AND 0x000000000000FFFF)
                OR push_bit 16 SEGSEL_KERN_CODE
                OR push_bit 32 (ucast ist)
                OR push_bit 40 (ucast typ)
                OR push_bit 45 (ucast dpl)
                OR X86SEG_P
                OR push_bit 32 (addr AND 0x00000000FFFF0000),
              drop_bit 32 addr)
      else None)"

text \<open>The seven entries of \<open>kernel_gdt_segments\<close>; \<open>ts\<close> is the address of the task state (104 bytes).\<close>

definition gdt_segments :: "u64 \<Rightarrow> u64 list" where
  "gdt_segments ts =
     (let (lo, hi) = set_sys_segment ts 104 X86SEG_TSS 0
      in [0,
          set_app_segment (X86SEG_X OR X86SEG_L) 0,
          set_app_segment X86SEG_W 0,
          set_app_segment (X86SEG_X OR X86SEG_L) 3,
          set_app_segment X86SEG_W 3,
          lo, hi])"

text \<open>The interrupt descriptors: every handler address is put in its gate.\<close>

definition init_gates :: "u64 list \<Rightarrow> (u64 \<times> u64) option list" where
  "init_gates handlers = map (\<lambda>i. set_gate (handlers ! i) 0xE (if i = 3 then 3 else 0) 0) [0..<256]"

section \<open>A new process\<close>

definition PROCINIT_ALLOW_PROGRAMMED_IO :: u32 where [simp]: "PROCINIT_ALLOW_PROGRAMMED_IO = 0x01"
definition PROCINIT_DISABLE_INTERRUPTS :: u32 where [simp]: "PROCINIT_DISABLE_INTERRUPTS = 0x02"

definition init_regs :: "u32 \<Rightarrow> regstate" where
  "init_regs flags =
     (let r = regs_zero\<lparr>reg_cs := SEGSEL_APP_CODE OR 3, reg_fs := SEGSEL_APP_DATA OR 3,
                reg_gs := SEGSEL_APP_DATA OR 3, reg_ss := SEGSEL_APP_DATA OR 3, reg_rflags := EFLAGS_IF\<rparr>;
          r1 = (if flags AND PROCINIT_ALLOW_PROGRAMMED_IO \<noteq> 0
                then r\<lparr>reg_rflags := reg_rflags r OR EFLAGS_IOPL_3\<rparr> else r)
      in if flags AND PROCINIT_DISABLE_INTERRUPTS \<noteq> 0
         then r1\<lparr>reg_rflags := reg_rflags r1 AND NOT EFLAGS_IF\<rparr> else r1)"

section \<open>Port output\<close>

type_synonym port_write = "nat \<times> u8"

definition console_show_cursor :: "int \<Rightarrow> port_write list" where
  "console_show_cursor cpos =
     (let c = (if cpos < 0 \<or> 25 * 80 < cpos then 0 else cpos)
      in [(0x3D4, 14), (0x3D5, word_of_int (c div 256)), (0x3D4, 15), (0x3D5, word_of_int (c mod 256))])"

text \<open>
  \<open>parallel_port_putc\<close>: the polls of the status register are given; at most 12800 of them are
  made while bit 0x80 is clear.
\<close>

fun busy_polls :: "u8 list \<Rightarrow> nat \<Rightarrow> u8 list" where
  "busy_polls [] n = []"
| "busy_polls (s # ss) n = (if n = 0 then s # ss else if s AND 0x80 = 0 then busy_polls ss (n - 1) else ss)"

definition parallel_port_putc :: "bool \<Rightarrow> u8 list \<Rightarrow> u8 \<Rightarrow> port_write list \<times> u8 list" where
  "parallel_port_putc initialized polls c =
     ((if initialized then [] else [(0x37A, 0)])
        @ [(0x378, c), (0x37A, 0x08 OR 0x04 OR 0x01), (0x37A, 0x08 OR 0x04)],
      busy_polls polls 12800)"

section \<open>The keyboard\<close>

definition KEY_SHIFT :: int where [simp]: "KEY_SHIFT = 250"
definition KEY_CAPSLOCK :: int where [simp]: "KEY_CAPSLOCK = 253"
definition MOD_SHIFT :: u8 where [simp]: "MOD_SHIFT = 1"
definition MOD_CONTROL :: u8 where [simp]: "MOD_CONTROL = 2"
definition MOD_CAPSLOCK :: u8 where [simp]: "MOD_CAPSLOCK = 8"

text \<open>\<open>keymap\<close>: \<open>CKEY(n)\<close> is 0x80 + n, and rows of zeros are written as replications.\<close>

definition keymap :: "int list" where
  "keymap =
     [0, 27, 0x80, 0x81, 0x82, 0x83, 0x84, 0x85, 0x86, 0x87, 0x88, 0x89, 0x8A, 0x8B, 8, 9,
      113, 119, 101, 114, 116, 121, 117, 105, 111, 112, 0x8C, 0x8D, 0x8E, 251, 97, 115,
      100, 102, 103, 104, 106, 107, 108, 0x8F, 0x90, 0x91, 250, 0x92, 122, 120, 99, 118,
      98, 110, 109, 0x93, 0x94, 0x95, 250, 42, 252, 32, 253, 0, 0, 0, 0, 0,
      0, 0, 0, 0, 0, 254, 255, 55, 56, 57, 45, 52, 53, 54, 43, 49,
      50, 51, 48, 46] @ replicate 12 0 @ replicate 64 0
     @ [0, 0, 0, 0, 0, 0, 0, 0, 0, 0, 0, 0] @ [0x8E, 251, 0, 0] @ replicate 16 0
     @ [0, 0, 0, 0, 0, 47, 0, 0, 252, 0, 0, 0, 0, 0, 0, 0]
     @ [0, 0, 0, 0, 0, 0, 0, 196, 192, 198, 0, 195, 0, 193, 0, 197]
     @ [194, 199, 200, 201] @ replicate 44 0"

definition complex_keymap :: "int list list" where
  "complex_keymap =
     [[49, 33, 0, 0], [50, 64, 0, 0], [51, 35, 0, 0], [52, 36, 0, 0], [53, 37, 0, 0],
      [54, 94, 0, 30], [55, 38, 0, 0], [56, 42, 0, 0], [57, 40, 0, 0], [48, 41, 0, 0],
      [45, 95, 0, 31], [61, 43, 0, 0], [91, 123, 27, 0], [93, 125, 29, 0], [10, 10, 13, 13],
      [59, 58, 0, 0], [39, 34, 0, 0], [96, 126, 0, 0], [92, 124, 28, 0], [44, 60, 0, 0],
      [46, 62, 0, 0], [47, 63, 0, 0]]"

text \<open>
  The static variables, and what the next reads of the status port find: \<open>None\<close> is a poll
  without a key, \<open>Some d\<close> a poll with the scan code \<open>d\<close>.
\<close>

record keyboard =
  modifiers :: u8
  last_escape :: u8
  polls :: "u8 option list"

definition keyboard_readc :: "keyboard \<Rightarrow> int \<times> keyboard" where
  "keyboard_readc k =
     (case polls k of
        [] \<Rightarrow> (-1, k)
      | None # ps \<Rightarrow> (-1, k\<lparr>polls := ps\<rparr>)
      | Some data # ps \<Rightarrow>
         let escape = last_escape k;
             k1 = k\<lparr>last_escape := 0, polls := ps\<rparr>
         in if data = 0xE0 then (0, k1\<lparr>last_escape := 0x80\<rparr>)
            else if data AND 0x80 \<noteq> 0 then
              let ch = keymap ! unat ((data AND 0x7F) OR escape)
              in (0, if KEY_SHIFT \<le> ch \<and> ch < KEY_CAPSLOCK
                     then k1\<lparr>modifiers := modifiers k AND NOT (push_bit (nat (ch - KEY_SHIFT)) 1)\<rparr> else k1)
            else
              let ch = keymap ! unat (data OR escape)
              in if 97 \<le> ch \<and> ch \<le> 122 then
                   (if modifiers k AND MOD_CONTROL \<noteq> 0 then ch - 0x60
                    else if (modifiers k AND MOD_SHIFT = 0) \<noteq> (modifiers k AND MOD_CAPSLOCK = 0) then ch - 0x20
                    else ch, k1)
                 else if KEY_CAPSLOCK \<le> ch then
                   (0, k1\<lparr>modifiers := modifiers k XOR push_bit (nat (ch - KEY_SHIFT)) 1\<rparr>)
                 else if KEY_SHIFT \<le> ch then
                   (0, k1\<lparr>modifiers := modifiers k OR push_bit (nat (ch - KEY_SHIFT)) 1\<rparr>)
                 else if 0x80 \<le> ch \<and> ch \<le> 0x95 then
                   (complex_keymap ! nat (ch - 0x80) ! unat (modifiers k AND 3), k1)
                 else if ch < 0x80 \<and> modifiers k AND MOD_CONTROL \<noteq> 0 then (0, k1)
                 else (ch, k1))"

text \<open>What \<open>check_keyboard\<close> decides: nothing, a soft reboot with a program, or power off.\<close>

datatype key_action = KeyNone int | KeyReboot string | KeyPoweroff

definition key_command :: "int \<Rightarrow> key_action" where
  "key_command c =
     (if c = 97 \<or> c = 102 \<or> c = 101 \<or> c = 107 then
        KeyReboot (if c = 97 then ''allocators'' else if c = 101 then ''forkexit''
                   else if c = 107 then ''kill'' else ''fork'')
      else if c = 0x03 \<or> c = 113 then KeyPoweroff
      else KeyNone c)"

definition check_keyboard :: "keyboard \<Rightarrow> key_action \<times> keyboard" where
  "check_keyboard k = (let (c, k') = keyboard_readc k in (key_command c, k'))"

end
