(* ===== verification/KDevices.thy ===== *)
theory KDevices
  imports KHardware PageMap
begin

text \<open>
  The devices of the machine and the start of the kernel (\<open>pset3/k-pci.hh\<close>, \<open>k-apic.hh\<close>,
  \<open>k-hardware.cc\<close>): the scan of PCI configuration space, the local APIC and I/O APIC, power off,
  reboot, the timer, the control registers, the early page table and the check of a page table.
  The contents of PCI configuration space is a function from configuration addresses to 32-bit
  values. A device register is only written or read here: an operation is the list of its
  writes, and the values it reads are arguments.
\<close>

section \<open>PCI\<close>

definition config_vendor :: int where [simp]: "config_vendor = 0"
definition config_command :: int where [simp]: "config_command = 4"
definition config_lthb :: int where [simp]: "config_lthb = 12"
definition addr_end :: int where [simp]: "addr_end = 0x80000"

type_synonym pci_config = "int \<Rightarrow> u32"

text \<open>A failed assertion is \<open>None\<close>.\<close>

definition make_addr :: "int \<Rightarrow> int \<Rightarrow> int \<Rightarrow> int option" where
  "make_addr bus slot func =
     (if 0 \<le> bus \<and> bus < 256 \<and> 0 \<le> slot \<and> slot < 32 \<and> 0 \<le> func \<and> func < 8
      then Some (push_bit 16 bus OR push_bit 11 slot OR push_bit 8 func) else None)"

definition pci_addr_ok :: "int \<Rightarrow> bool" where
  "pci_addr_ok addr \<longleftrightarrow> 0 \<le> addr \<and> addr < 0x1000000"

definition addr_bus :: "int \<Rightarrow> int option" where
  "addr_bus addr = (if pci_addr_ok addr then Some (drop_bit 16 addr) else None)"

definition addr_slot :: "int \<Rightarrow> int option" where
  "addr_slot addr = (if pci_addr_ok addr then Some (drop_bit 11 addr AND 0x1F) else None)"

definition addr_func :: "int \<Rightarrow> int option" where
  "addr_func addr = (if pci_addr_ok addr then Some (drop_bit 8 addr AND 0x7) else None)"

definition pci_readl :: "pci_config \<Rightarrow> int \<Rightarrow> u32 option" where
  "pci_readl cfg addr = (if 0 \<le> addr \<and> addr AND 3 = 0 then Some (cfg addr) else None)"

text \<open>The writes to the two ports; \<open>Inl\<close> is a 32-bit and \<open>Inr\<close> a 16-bit write.\<close>

definition pci_writew :: "int \<Rightarrow> u16 \<Rightarrow> (nat \<times> (u32 + u16)) list option" where
  "pci_writew addr data =
     (if 0 \<le> addr \<and> addr AND 1 = 0
      then Some [(0xCF8, Inl (0x80000000 OR word_of_int addr)), (0xCFC, Inr (data + word_of_int (addr AND 3)))]
      else None)"

definition pci_enable :: "int \<Rightarrow> (nat \<times> (u32 + u16)) list option" where
  "pci_enable addr = pci_writew (addr + config_command) 0x0007"

text \<open>The step of \<open>next\<close>: from \<open>addr\<close>, whose header type word is \<open>x\<close>, to the next candidate.\<close>

definition pci_step :: "int \<Rightarrow> u32 \<Rightarrow> int option" where
  "pci_step addr x =
     Option.bind (addr_func addr) (\<lambda>f.
       if f = 0 \<and> (x = - 1 \<or> x AND 0x800000 = 0)
       then map_option ((+) addr) (make_addr 0 1 0) else map_option ((+) addr) (make_addr 0 0 1))"

lemma pci_step_eq:
  "pci_step addr x =
     (if 0 \<le> addr \<and> addr < 0x1000000 then
        Some (addr + (if drop_bit 8 addr AND 7 = 0 \<and> (x = - 1 \<or> x AND 0x800000 = 0) then 0x800 else 0x100))
      else None)"
  by (simp add: pci_step_def addr_func_def pci_addr_ok_def make_addr_def)

lemma pci_step_greater: "pci_step addr x = Some a \<Longrightarrow> addr < a \<and> 0 \<le> addr"
  by (auto simp: pci_step_eq split: if_splits)

function pci_next_loop :: "pci_config \<Rightarrow> int \<Rightarrow> u32 \<Rightarrow> int option" where
  "pci_next_loop cfg addr x =
     (case pci_step addr x of
        None \<Rightarrow> None
      | Some a \<Rightarrow>
          if addr_end \<le> a then Some (- 1)
          else case pci_readl cfg (a + config_lthb) of
              None \<Rightarrow> None
            | Some x' \<Rightarrow> if x' \<noteq> - 1 then Some a else pci_next_loop cfg a x')"
  by pat_completeness auto
termination
  by (relation "measure (\<lambda>(cfg, addr, x). nat (0x80000 - addr))") (auto dest: pci_step_greater)

declare pci_next_loop.simps [simp del]

definition pci_next :: "pci_config \<Rightarrow> int \<Rightarrow> int option" where
  "pci_next cfg addr = Option.bind (pci_readl cfg (addr + config_lthb)) (pci_next_loop cfg addr)"

lemma pci_next_loop_greater:
  "pci_next_loop cfg addr x = Some a \<Longrightarrow> a = - 1 \<or> (0 \<le> addr \<and> addr < a \<and> a < 0x80000)"
proof (induction cfg addr x rule: pci_next_loop.induct)
  case (1 cfg addr x)
  then obtain b where b: "pci_step addr x = Some b" by (cases "pci_step addr x") (auto simp: pci_next_loop.simps [of cfg addr x])
  note lt = pci_step_greater [OF b]
  show ?case
  proof (cases "addr_end \<le> b")
    case True
    then show ?thesis using 1(2) b by (simp add: pci_next_loop.simps [of cfg addr x])
  next
    case False
    then obtain y where y: "pci_readl cfg (b + config_lthb) = Some y"
      using 1(2) b by (cases "pci_readl cfg (b + config_lthb)") (auto simp: pci_next_loop.simps [of cfg addr x])
    show ?thesis
    proof (cases "y = - 1")
      case True
      then show ?thesis using 1(2) 1(1) [OF b False y] b y False lt
        by (auto simp: pci_next_loop.simps [of cfg addr x])
    next
      case neq: False
      then show ?thesis using 1(2) b y False lt by (auto simp: pci_next_loop.simps [of cfg addr x])
    qed
  qed
qed

lemma pci_next_greater: "pci_next cfg addr = Some a \<Longrightarrow> a = - 1 \<or> (0 \<le> addr \<and> addr < a \<and> a < 0x80000)"
  by (auto simp: pci_next_def bind_eq_Some_conv dest: pci_next_loop_greater)

function pci_find :: "pci_config \<Rightarrow> (int \<Rightarrow> bool) \<Rightarrow> int \<Rightarrow> int option" where
  "pci_find cfg predicate addr =
     (if 0 \<le> addr \<and> \<not> predicate addr then
        case pci_next cfg addr of None \<Rightarrow> None | Some a \<Rightarrow> pci_find cfg predicate a
      else Some addr)"
  by pat_completeness auto
termination
proof (relation "measure (\<lambda>(cfg, p, addr). if addr < 0 then 0 else Suc (nat (0x80000 - addr)))", goal_cases)
  case (2 cfg predicate addr a)
  then show ?case using pci_next_greater [of cfg addr a] by auto
qed simp

declare pci_find.simps [simp del]

section \<open>Power off and reboot\<close>

text \<open>
  \<open>poweroff\<close> and \<open>reboot\<close> do not return: the result lists the port writes made before the
  processor stops or spins; \<open>None\<close> is a failed assertion. \<open>pm_io_base\<close> is an \<open>int\<close>.
\<close>

definition acpi_controller :: "pci_config \<Rightarrow> int \<Rightarrow> bool" where
  "acpi_controller cfg a \<longleftrightarrow> (let vd = cfg (a + config_vendor) in vd = 0x71138086 \<or> vd = 0x29188086)"

definition poweroff :: "pci_config \<Rightarrow> (nat \<times> u16) list option" where
  "poweroff cfg =
     Option.bind (pci_find cfg (acpi_controller cfg) 0) (\<lambda>addr.
       if 0 \<le> addr then
         map_option (\<lambda>b. [(unat (b AND 0xFFC0) + 4, 0x2000)]) (pci_readl cfg (addr + 0x40))
       else Some [])"

definition reboot :: "port_write list" where
  "reboot = [(0x92, 3)]"

section \<open>The APICs\<close>

type_synonym reg_write = "nat \<times> u32"

definition lapic_pa :: u64 where [simp]: "lapic_pa = 0xFEE00000"
definition reg_svr :: nat where [simp]: "reg_svr = 0x0F"
definition reg_eoi :: nat where [simp]: "reg_eoi = 0x0B"
definition reg_esr :: nat where [simp]: "reg_esr = 0x28"
definition reg_icr_low :: nat where [simp]: "reg_icr_low = 0x30"
definition reg_lvt_timer :: nat where [simp]: "reg_lvt_timer = 0x32"
definition reg_lvt_lint0 :: nat where [simp]: "reg_lvt_lint0 = 0x35"
definition reg_lvt_lint1 :: nat where [simp]: "reg_lvt_lint1 = 0x36"
definition reg_lvt_error :: nat where [simp]: "reg_lvt_error = 0x37"
definition reg_timer_initial_count :: nat where [simp]: "reg_timer_initial_count = 0x38"
definition reg_timer_divide :: nat where [simp]: "reg_timer_divide = 0x3E"
definition INT_IRQ :: u32 where [simp]: "INT_IRQ = 32"
definition IRQ_TIMER :: u32 where [simp]: "IRQ_TIMER = 0"
definition IRQ_ERROR :: u32 where [simp]: "IRQ_ERROR = 19"
definition IRQ_SPURIOUS :: u32 where [simp]: "IRQ_SPURIOUS = 31"

definition lapic_id :: "u32 \<Rightarrow> u32" where "lapic_id r = drop_bit 24 r"

definition enable_lapic :: "u32 \<Rightarrow> u32 \<Rightarrow> reg_write list" where
  "enable_lapic svr vec = [(reg_svr, (svr AND NOT 0xFF) OR 0x100 OR vec)]"

definition disable_lapic :: "u32 \<Rightarrow> reg_write list" where
  "disable_lapic svr = [(reg_svr, svr AND NOT 0x100)]"

definition lapic_error :: "reg_write list" where "lapic_error = [(reg_esr, 0)]"

definition lapic_ack :: "reg_write list" where "lapic_ack = [(reg_eoi, 0)]"

definition ipi_others :: "u32 \<Rightarrow> u32 \<Rightarrow> reg_write list" where
  "ipi_others t vec = [(reg_icr_low, 0xC0000 OR 0x4000 OR t OR vec)]"

definition ipi_pending :: "u32 \<Rightarrow> bool" where "ipi_pending icr \<longleftrightarrow> icr AND 0x1000 \<noteq> 0"

text \<open>The I/O APIC has two registers: an index and a window. An access writes the index first.\<close>

definition ioapic_write :: "nat \<Rightarrow> u32 \<Rightarrow> reg_write list" where
  "ioapic_write r v = [(0, of_nat r), (1, v)]"

definition ioapic_id :: "u32 \<Rightarrow> u32" where "ioapic_id r = drop_bit 24 r"

definition enable_irq :: "nat \<Rightarrow> u32 \<Rightarrow> u32 \<Rightarrow> reg_write list" where
  "enable_irq entry vec cpu =
     ioapic_write (0x10 + 2 * entry) vec @ ioapic_write (0x10 + 2 * entry + 1) (push_bit 24 cpu)"

definition disable_irq :: "nat \<Rightarrow> reg_write list" where
  "disable_irq entry =
     ioapic_write (0x10 + 2 * entry) 0x10000 @ ioapic_write (0x10 + 2 * entry + 1) 0"

definition init_timer :: "int \<Rightarrow> reg_write list" where
  "init_timer rate =
     (if 0 < rate then [(reg_timer_initial_count, word_of_int (1000000000 div rate))]
      else [(reg_timer_initial_count, 0)])"

section \<open>Starting the processor\<close>

text \<open>The checks and writes of \<open>init_interrupts\<close> after the gates; \<open>None\<close> is a failed assertion.\<close>

definition init_pic :: "u32 \<Rightarrow> u64 \<Rightarrow> port_write list option" where
  "init_pic cpuid1_edx apic_base =
     (if cpuid1_edx AND push_bit 9 1 \<noteq> 0 \<and> apic_base AND 0x800 \<noteq> 0
         \<and> apic_base AND 0xFFFFFFFFF000 = lapic_pa
      then Some [(0x21, 0xFF), (0xA1, 0xFF)] else None)"

definition cpu_cr0 :: "u32 \<Rightarrow> u32" where
  "cpu_cr0 cr0 = cr0 OR 0x1 OR 0x80000000 OR 0x10000 OR 0x40000 OR 0x2 OR 0x20"

definition cpu_msrs :: "u64 \<Rightarrow> (u32 \<times> u64) list" where
  "cpu_msrs syscall_entry =
     [(0xC0000081, push_bit 32 SEGSEL_KERN_CODE OR push_bit 48 SEGSEL_APP_CODE),
      (0xC0000082, syscall_entry),
      (0xC0000084, 0x100 OR 0x400 OR EFLAGS_IF OR 0x3000 OR 0x40000 OR 0x4000)]"

definition cpu_lapic :: "u32 \<Rightarrow> reg_write list" where
  "cpu_lapic svr =
     enable_lapic svr (INT_IRQ + IRQ_SPURIOUS)
       @ [(reg_timer_divide, 0x0B), (reg_lvt_timer, 0x20000 OR (INT_IRQ + IRQ_TIMER)),
          (reg_timer_initial_count, 0), (reg_lvt_lint0, 0x10000), (reg_lvt_lint1, 0x10000),
          (reg_lvt_error, INT_IRQ + IRQ_ERROR)]
       @ lapic_error @ lapic_ack"

section \<open>The early page table\<close>

text \<open>
  \<open>kpt\<close> is the address of \<open>kernel_pagetable[0]\<close>; \<open>kpage kpt i\<close> that of the table \<open>i\<close>.
\<close>

definition kpage :: "u64 \<Rightarrow> nat \<Rightarrow> u64" where
  "kpage kpt i = kpt + of_nat i * PAGESIZE"

definition kpt_entries :: "u64 \<Rightarrow> (u64 \<times> u64) list" where
  "kpt_entries kpt =
     [(entry_addr (kpage kpt 0) 0, kpage kpt 1 OR PTE_P OR PTE_W OR PTE_U),
      (entry_addr (kpage kpt 1) 0, kpage kpt 2 OR PTE_P OR PTE_W OR PTE_U),
      (entry_addr (kpage kpt 2) 0, kpage kpt 3 OR PTE_P OR PTE_W OR PTE_U),
      (entry_addr (kpage kpt 2) 1, kpage kpt 4 OR PTE_P OR PTE_W OR PTE_U),
      (entry_addr (kpage kpt 1) 1, push_bit 30 1 OR PTE_P OR PTE_W OR PTE_PS),
      (entry_addr (kpage kpt 1) 2, push_bit 30 2 OR PTE_P OR PTE_W OR PTE_PS),
      (entry_addr (kpage kpt 1) 3, push_bit 30 3 OR PTE_P OR PTE_W OR PTE_PS)]"

definition kpt_tables :: "u64 \<Rightarrow> mem \<Rightarrow> mem" where
  "kpt_tables kpt m =
     fold (\<lambda>(a, e) m. st64 m a e) (kpt_entries kpt) (mem_fill m kpt 0 (5 * PAGESIZE))"

text \<open>
  The loops \<open>for (vmiter it(kernel_pagetable); it.va() < MEMSIZE_PHYSICAL; it += PAGESIZE)\<close>: the
  permissions a page gets are a function of its address, \<open>None\<close> for a page that is left alone.
\<close>

partial_function (option) identity_loop ::
  "(u64 \<Rightarrow> u64 option) \<Rightarrow> kmem \<Rightarrow> vmiter \<Rightarrow> kmem option" where
  "identity_loop perms s it =
     (if it_va it < MEMSIZE_PHYSICAL then
        Option.bind (case perms (it_va it) of None \<Rightarrow> Some (it, s) | Some p \<Rightarrow> vm_map (kalloc PAGESIZE) s it (it_va it) p)
          (\<lambda>(it1, s1). Option.bind (vm_add (phys s1) it1 PAGESIZE) (\<lambda>it2. identity_loop perms s1 it2))
      else Some s)"

definition init_kernel_pagetable :: "u64 \<Rightarrow> kmem \<Rightarrow> kmem option" where
  "init_kernel_pagetable kpt s =
     (let s1 = s\<lparr>phys := kpt_tables kpt (phys s)\<rparr>
      in Option.bind (vmiter_new (phys s1) kpt 0)
           (identity_loop (\<lambda>va. if va \<noteq> 0 then Some (PTE_P OR PTE_W OR PTE_U) else None) s1))"

text \<open>\<open>check_pagetable\<close>: the assertions on a page table before it is loaded.\<close>

definition check_pagetable :: "mem \<Rightarrow> u64 \<Rightarrow> u64 \<Rightarrow> u64 \<Rightarrow> bool" where
  "check_pagetable m kpt exception_entry pagetable \<longleftrightarrow>
     pagetable AND PAGEOFFMASK = 0
     \<and> map_option (vm_pa m) (vmiter_new m pagetable exception_entry) = Some exception_entry
     \<and> map_option (vm_pa m) (vmiter_new m kpt pagetable) = Some pagetable
     \<and> map_option (vm_pa m) (vmiter_new m pagetable kpt) = Some kpt"

text \<open>\<open>set_pagetable\<close>: the value loaded into the control register.\<close>

definition set_pagetable :: "mem \<Rightarrow> u64 \<Rightarrow> u64 \<Rightarrow> u64 \<Rightarrow> u64 option" where
  "set_pagetable m kpt exception_entry pagetable =
     (if check_pagetable m kpt exception_entry pagetable then Some pagetable else None)"

section \<open>Stashing the data segment for a soft reboot\<close>

definition SYMTAB_ADDR :: u64 where [simp]: "SYMTAB_ADDR = 0x1000000"

definition stash_kernel_data :: "u64 \<Rightarrow> u64 \<Rightarrow> u64 \<Rightarrow> bool \<Rightarrow> mem \<Rightarrow> mem" where
  "stash_kernel_data data_start edata kend restore m =
     (let data_size = edata - data_start;
          data_stash = SYMTAB_ADDR - data_size
      in if restore then mem_fill (mem_copy m data_start data_stash data_size) edata 0 (kend - edata)
         else mem_copy m data_stash data_start data_size)"

text \<open>
  The part of \<open>check_keyboard\<close> that prepares a soft reboot: the timer is turned off, a temporary
  page table is built at 0x1000, and the initial data segment is put back.
\<close>

definition soft_reboot_memory :: "u64 \<Rightarrow> u64 \<Rightarrow> u64 \<Rightarrow> mem \<Rightarrow> mem" where
  "soft_reboot_memory data_start edata kend m =
     (let m1 = mem_fill m 0x1000 0 (PAGESIZE * 2);
          m2 = st64 m1 (entry_addr 0x1000 0) (0x2000 OR PTE_P OR PTE_W);
          m3 = st64 m2 (entry_addr 0x2000 0) (PTE_P OR PTE_W OR PTE_PS);
          m4 = stash_kernel_data data_start edata kend True m3;
          data_size = edata - data_start
      in mem_fill (mem_copy m4 data_start (SYMTAB_ADDR - data_size) data_size) edata 0 (kend - edata))"

section \<open>Properties\<close>

text \<open>The function \<open>d\<close> exists on a device that is absent or has one function only.\<close>

definition single_function :: "pci_config \<Rightarrow> int \<Rightarrow> bool" where
  "single_function cfg d \<longleftrightarrow> (let x = cfg (d + config_lthb) in x = - 1 \<or> x AND 0x800000 = 0)"

text \<open>Nothing to find at \<open>d\<close>: no answer, or an extra function of a device with one function only.\<close>

definition no_function :: "pci_config \<Rightarrow> int \<Rightarrow> bool" where
  "no_function cfg d \<longleftrightarrow> cfg (d + config_lthb) = - 1
     \<or> (d mod 0x800 \<noteq> 0 \<and> single_function cfg (d - d mod 0x800))"

lemma func_zero:
  assumes "256 dvd a"
  shows "drop_bit 8 a AND 7 = 0 \<longleftrightarrow> a mod 0x800 = (0 :: int)"
proof -
  obtain k where k: "a = 256 * k" using assms by blast
  have "x AND 7 = x mod 8" for x :: int
    using take_bit_eq_mask [of 3 x] take_bit_eq_mod [of 3 x] by (simp add: mask_eq_exp_minus_1)
  then have "drop_bit 8 a AND 7 = (a div 256) mod 8" by (simp add: drop_bit_eq_div)
  also have "\<dots> = k mod 8" by (simp add: k)
  finally have "drop_bit 8 a AND 7 = 0 \<longleftrightarrow> k mod 8 = 0" by simp
  moreover have "a mod 0x800 = 256 * (k mod 8)" using mult_mod_right [of 256 k 8] by (simp add: k)
  ultimately show ?thesis by simp
qed

lemma step_no_function:
  assumes "256 dvd a" "256 dvd d" "a < d"
    and "d < a + (if a mod 0x800 = 0 \<and> single_function cfg a then 0x800 else 0x100)"
  shows "no_function cfg d"
proof -
  have c: "a mod 0x800 = 0 \<and> single_function cfg a"
  proof (rule ccontr)
    assume "\<not> ?thesis"
    then have "d < a + 0x100" using assms(4) by (auto split: if_splits)
    then show False using assms(1-3) by (auto elim!: dvdE)
  qed
  then have d: "d < a + 0x800" using assms(4) by simp
  have "d mod 0x800 = (a mod 0x800 + (d - a)) mod 0x800" by (simp add: mod_add_left_eq)
  also have "\<dots> = d - a" using c d assms(3) by (simp add: mod_pos_pos_trivial)
  finally have "d mod 0x800 = d - a" .
  then show ?thesis using c assms(3) by (simp add: no_function_def)
qed

lemma readl_aligned: "256 dvd a \<Longrightarrow> 0 \<le> a \<Longrightarrow> pci_readl cfg (a + 12) = Some (cfg (a + 12))"
proof -
  assume a: "256 dvd a" "0 \<le> a"
  have "x AND 3 = x mod 4" for x :: int
    using take_bit_eq_mask [of 2 x] take_bit_eq_mod [of 2 x] by (simp add: mask_eq_exp_minus_1)
  then have "(a + 12) AND 3 = (a + 12) mod 4" .
  also have "\<dots> = 0" using a(1) by (auto elim!: dvdE)
  finally show ?thesis using a by (simp add: pci_readl_def)
qed

lemma pci_next_loop_ok:
  assumes "256 dvd a" "0 \<le> a" "a < 0x80000" "x = cfg (a + config_lthb)"
  shows "\<exists>b. pci_next_loop cfg a x = Some b \<and> (b = - 1 \<or> 256 dvd b \<and> a < b \<and> b < 0x80000 \<and> cfg (b + config_lthb) \<noteq> - 1)
    \<and> (\<forall>d. 256 dvd d \<longrightarrow> a < d \<longrightarrow> d < (if b = - 1 then 0x80000 else b) \<longrightarrow> no_function cfg d)"
  using assms
proof (induction cfg a x rule: pci_next_loop.induct)
  case (1 cfg a x)
  let ?n = "a + (if a mod 0x800 = 0 \<and> single_function cfg a then 0x800 else 0x100)"
  have n: "pci_step a x = Some ?n"
    using 1(2-5) func_zero [OF 1(2)] by (simp add: pci_step_eq single_function_def Let_def)
  have al: "256 dvd ?n" using 1(2) by (auto intro!: dvd_add)
  have lt: "a < ?n" by simp
  have near: "no_function cfg d" if "256 dvd d" "a < d" "d < ?n" for d
    by (rule step_no_function [OF 1(2) that])
  show ?case
  proof (cases "addr_end \<le> ?n")
    case True
    then have "pci_next_loop cfg a x = Some (- 1)" using n by (simp add: pci_next_loop.simps [of cfg a x])
    moreover have "no_function cfg d" if "256 dvd d" "a < d" "d < 0x80000" for d
      using near [OF that(1,2)] that(3) True by simp
    ultimately show ?thesis by auto
  next
    case False
    have r: "pci_readl cfg (?n + config_lthb) = Some (cfg (?n + config_lthb))"
      using readl_aligned [OF al] 1(3) by simp
    show ?thesis
    proof (cases "cfg (?n + config_lthb) = - 1")
      case gone: True
      have eq: "pci_next_loop cfg a x = pci_next_loop cfg ?n (- 1)"
        using n False r gone by (simp add: pci_next_loop.simps [of cfg a x])
      obtain b where b: "pci_next_loop cfg ?n (- 1) = Some b"
        "b = - 1 \<or> 256 dvd b \<and> ?n < b \<and> b < 0x80000 \<and> cfg (b + config_lthb) \<noteq> - 1"
        "\<forall>d. 256 dvd d \<longrightarrow> ?n < d \<longrightarrow> d < (if b = - 1 then 0x80000 else b) \<longrightarrow> no_function cfg d"
        using 1(1) [OF n False r, of] al False gone 1(3) lt by auto
      have "no_function cfg d" if d: "256 dvd d" "a < d" "d < (if b = - 1 then 0x80000 else b)" for d
      proof -
        consider "d < ?n" | "d = ?n" | "?n < d" by linarith
        then show ?thesis
        proof cases
          case 1 then show ?thesis by (rule near [OF d(1,2)])
        next
          case 2 then show ?thesis unfolding no_function_def using gone by (intro disjI1) simp
        next
          case 3 then show ?thesis using b(3) d by blast
        qed
      qed
      moreover have "b = - 1 \<or> 256 dvd b \<and> a < b \<and> b < 0x80000 \<and> cfg (b + config_lthb) \<noteq> - 1" using b(2) lt by linarith
      ultimately show ?thesis unfolding eq using b(1) by blast
    next
      case there: False
      then have "pci_next_loop cfg a x = Some ?n"
        using n False r by (simp add: pci_next_loop.simps [of cfg a x])
      moreover have "?n \<noteq> - 1" using 1(3) lt by linarith
      ultimately show ?thesis using there al lt False near by auto
    qed
  qed
qed

text \<open>
  C33: The scan of PCI configuration space returns from every valid function address, and skips
  nothing: the function it returns answers, lies after the start and below the end of the space,
  and every function address it passes over either does not answer or is an extra function of a
  device that has only one.
\<close>

theorem pci_next_skips_nothing:
  assumes "256 dvd addr" "0 \<le> addr" "addr < 0x80000"
  shows "\<exists>b. pci_next cfg addr = Some b
    \<and> (b = - 1 \<or> 256 dvd b \<and> addr < b \<and> b < 0x80000 \<and> cfg (b + config_lthb) \<noteq> - 1)
    \<and> (\<forall>d. 256 dvd d \<longrightarrow> addr < d \<longrightarrow> d < (if b = - 1 then 0x80000 else b) \<longrightarrow> no_function cfg d)"
  using pci_next_loop_ok [OF assms refl, of cfg] readl_aligned [OF assms(1,2), of cfg]
  by (simp add: pci_next_def)

theorem pci_next_skips_nothing_witness:
  "\<exists>b. pci_next (\<lambda>_. - 1) 0x1000 = Some b \<and> no_function (\<lambda>_. - 1) 0x1800"
  using pci_next_skips_nothing [of "0x1000" "\<lambda>_. - 1"] by (auto simp: no_function_def)

end
