(* ===== verification/KLoader.thy ===== *)
theory KLoader
  imports KDevices
begin

text \<open>
  The symbol table, the stack walker and the program loader of the kernel
  (\<open>pset3/k-hardware.cc\<close>, with the structures of \<open>pset3/elf.h\<close>), and the guards of static
  variables. The symbol table is the list of its entries; program images are in memory, and the
  addresses of the images, which the linker sets, are arguments.
\<close>

section \<open>The symbol table\<close>

record elf_symbol =
  st_name :: u32
  st_value :: u64
  st_size :: u64

text \<open>The test of \<open>lookup_symbol\<close>: the symbol \<open>m\<close> covers the address.\<close>

definition sym_covers :: "elf_symbol list \<Rightarrow> nat \<Rightarrow> u64 \<Rightarrow> bool" where
  "sym_covers syms m addr \<longleftrightarrow> st_value (syms ! m) \<le> addr
     \<and> (if st_size (syms ! m) \<noteq> 0 then addr < st_value (syms ! m) + st_size (syms ! m)
        else m + 1 = length syms \<or> addr < st_value (syms ! (m + 1)))"

function lookup_loop :: "elf_symbol list \<Rightarrow> u64 \<Rightarrow> nat \<Rightarrow> nat \<Rightarrow> nat option" where
  "lookup_loop syms addr l r =
     (if l < r then
        let m = l + (r - l) div 2
        in if sym_covers syms m addr then Some m
           else if st_value (syms ! m) < addr then lookup_loop syms addr (m + 1) r
           else lookup_loop syms addr l m
      else None)"
  by pat_completeness auto
termination by (relation "measure (\<lambda>(syms, addr, l, r). r - l)") auto

declare lookup_loop.simps [simp del]

text \<open>The name (an offset in the string table) and the start of the symbol found.\<close>

definition lookup_symbol :: "elf_symbol list \<Rightarrow> u64 \<Rightarrow> (u32 \<times> u64) option" where
  "lookup_symbol syms addr =
     map_option (\<lambda>m. (st_name (syms ! m), st_value (syms ! m))) (lookup_loop syms addr 0 (length syms))"

text \<open>Its side effect: the symbol table's large page is mapped on first use.\<close>

definition map_symtab :: "u64 \<Rightarrow> mem \<Rightarrow> mem" where
  "map_symtab kpt m =
     (let a = entry_addr (kpage kpt 2) (SYMTAB_ADDR div 0x200000)
      in if ld64 m a = 0 then st64 m a (SYMTAB_ADDR OR PTE_P OR PTE_W OR PTE_PS) else m)"

section \<open>Backtraces\<close>

record backtracer =
  bt_rbp :: u64
  bt_rsp :: u64
  bt_top :: u64

definition bt_ok :: "backtracer \<Rightarrow> bool" where
  "bt_ok b \<longleftrightarrow> bt_rsp b \<le> bt_rbp b \<and> 16 \<le> bt_top b - bt_rbp b"

definition bt_ret_rip :: "mem \<Rightarrow> backtracer \<Rightarrow> u64" where
  "bt_ret_rip m b = ld64 m (bt_rbp b + 8)"

definition bt_step :: "mem \<Rightarrow> backtracer \<Rightarrow> backtracer" where
  "bt_step m b = b\<lparr>bt_rsp := bt_rbp b + 16, bt_rbp := ld64 m (bt_rbp b)\<rparr>"

text \<open>A line of the log: a warning, a frame with the symbol's name, or a frame without one.\<close>

datatype bt_line = Overflow u64 u64 | Frame_sym nat u64 u32 | Frame nat u64

definition frame_line :: "elf_symbol list \<Rightarrow> nat \<Rightarrow> u64 \<Rightarrow> bt_line list" where
  "frame_line syms frame ret_rip =
     (case lookup_symbol syms ret_rip of
        Some (name, _) \<Rightarrow> [Frame_sym frame ret_rip name]
      | None \<Rightarrow> if ret_rip \<noteq> 0 then [Frame frame ret_rip] else [])"

text \<open>The loop of \<open>log_backtrace\<close> and \<open>assert_fail\<close>; \<open>None\<close>: it does not end.\<close>

partial_function (option) backtrace_loop ::
  "mem \<Rightarrow> elf_symbol list \<Rightarrow> backtracer \<Rightarrow> nat \<Rightarrow> bt_line list option" where
  "backtrace_loop m syms b frame =
     (if bt_ok b then
        Option.bind (backtrace_loop m syms (bt_step m b) (frame + 1))
          (\<lambda>ls. Some (frame_line syms frame (bt_ret_rip m b) @ ls))
      else Some [])"

definition stack_overflow :: "u64 \<Rightarrow> u64 \<Rightarrow> bool" where
  "stack_overflow rsp rbp \<longleftrightarrow> rsp \<noteq> rbp \<and> round_up rsp PAGESIZE = round_down rbp PAGESIZE"

definition log_backtrace :: "mem \<Rightarrow> elf_symbol list \<Rightarrow> u64 \<Rightarrow> u64 \<Rightarrow> bt_line list option" where
  "log_backtrace m syms rsp rbp =
     map_option (\<lambda>ls. (if stack_overflow rsp rbp then [Overflow rsp rbp] else []) @ ls)
       (backtrace_loop m syms \<lparr>bt_rbp = rbp, bt_rsp = rsp, bt_top = round_up rsp PAGESIZE\<rparr> 1)"

section \<open>The program loader\<close>

definition ld16 :: "mem \<Rightarrow> u64 \<Rightarrow> u16" where
  "ld16 m a = ucast (m a) OR push_bit 8 (ucast (m (a + 1)))"

definition ld32 :: "mem \<Rightarrow> u64 \<Rightarrow> u32" where
  "ld32 m a = ucast (m a) OR push_bit 8 (ucast (m (a + 1)))
     OR push_bit 16 (ucast (m (a + 2))) OR push_bit 24 (ucast (m (a + 3)))"

definition ELF_MAGIC :: u32 where [simp]: "ELF_MAGIC = 0x464C457F"
definition ELF_PTYPE_LOAD :: u32 where [simp]: "ELF_PTYPE_LOAD = 1"
definition ELF_PFLAG_WRITE :: u32 where [simp]: "ELF_PFLAG_WRITE = 2"

text \<open>The members of the executable header at \<open>e\<close> and of a program header at \<open>p\<close> (56 bytes).\<close>

definition e_magic :: "mem \<Rightarrow> u64 \<Rightarrow> u32" where "e_magic m e = ld32 m e"
definition e_entry :: "mem \<Rightarrow> u64 \<Rightarrow> u64" where "e_entry m e = ld64 m (e + 0x18)"
definition e_phoff :: "mem \<Rightarrow> u64 \<Rightarrow> u64" where "e_phoff m e = ld64 m (e + 0x20)"
definition e_phnum :: "mem \<Rightarrow> u64 \<Rightarrow> u16" where "e_phnum m e = ld16 m (e + 0x38)"
definition p_type :: "mem \<Rightarrow> u64 \<Rightarrow> u32" where "p_type m p = ld32 m p"
definition p_flags :: "mem \<Rightarrow> u64 \<Rightarrow> u32" where "p_flags m p = ld32 m (p + 0x04)"
definition p_offset :: "mem \<Rightarrow> u64 \<Rightarrow> u64" where "p_offset m p = ld64 m (p + 0x08)"
definition p_va :: "mem \<Rightarrow> u64 \<Rightarrow> u64" where "p_va m p = ld64 m (p + 0x10)"
definition p_filesz :: "mem \<Rightarrow> u64 \<Rightarrow> u64" where "p_filesz m p = ld64 m (p + 0x20)"
definition p_memsz :: "mem \<Rightarrow> u64 \<Rightarrow> u64" where "p_memsz m p = ld64 m (p + 0x28)"

definition phdr_size :: u64 where [simp]: "phdr_size = 56"

record program_loader =
  pl_elf :: u64
  pl_ph :: u64
  pl_endph :: u64

partial_function (option) loader_fix :: "mem \<Rightarrow> program_loader \<Rightarrow> program_loader option" where
  "loader_fix m L =
     (if pl_ph L \<noteq> 0 \<and> pl_ph L \<noteq> pl_endph L \<and> p_type m (pl_ph L) \<noteq> ELF_PTYPE_LOAD
      then loader_fix m (L\<lparr>pl_ph := pl_ph L + phdr_size\<rparr>) else Some L)"

text \<open>\<open>None\<close> is the failed assertion on the magic number, or a walk that does not end.\<close>

definition loader_reset :: "mem \<Rightarrow> program_loader \<Rightarrow> program_loader option" where
  "loader_reset m L =
     (if pl_elf L \<noteq> 0 then
        if e_magic m (pl_elf L) = ELF_MAGIC then
          let ph = pl_elf L + e_phoff m (pl_elf L)
          in loader_fix m (L\<lparr>pl_ph := ph, pl_endph := ph + phdr_size * ucast (e_phnum m (pl_elf L))\<rparr>)
        else None
      else Some (L\<lparr>pl_ph := 0, pl_endph := 0\<rparr>))"

definition loader_present :: "program_loader \<Rightarrow> bool" where
  "loader_present L \<longleftrightarrow> pl_ph L \<noteq> pl_endph L"

definition loader_va :: "mem \<Rightarrow> program_loader \<Rightarrow> u64" where
  "loader_va m L = (if pl_ph L \<noteq> pl_endph L then p_va m (pl_ph L) else 0)"

definition loader_size :: "mem \<Rightarrow> program_loader \<Rightarrow> u64" where
  "loader_size m L = (if pl_ph L \<noteq> pl_endph L then p_memsz m (pl_ph L) else 0)"

definition loader_data :: "mem \<Rightarrow> program_loader \<Rightarrow> u64" where
  "loader_data m L = (if pl_ph L \<noteq> pl_endph L then pl_elf L + p_offset m (pl_ph L) else 0)"

definition loader_data_size :: "mem \<Rightarrow> program_loader \<Rightarrow> u64" where
  "loader_data_size m L = (if pl_ph L \<noteq> pl_endph L then p_filesz m (pl_ph L) else 0)"

definition loader_writable :: "mem \<Rightarrow> program_loader \<Rightarrow> bool" where
  "loader_writable m L \<longleftrightarrow> pl_ph L \<noteq> pl_endph L \<and> p_flags m (pl_ph L) AND ELF_PFLAG_WRITE \<noteq> 0"

definition loader_entry :: "mem \<Rightarrow> program_loader \<Rightarrow> u64" where
  "loader_entry m L = (if pl_elf L \<noteq> 0 then e_entry m (pl_elf L) else 0)"

definition loader_next :: "mem \<Rightarrow> program_loader \<Rightarrow> program_loader option" where
  "loader_next m L =
     (if pl_ph L \<noteq> pl_endph L then loader_fix m (L\<lparr>pl_ph := pl_ph L + phdr_size\<rparr>) else Some L)"

definition ramimage_names :: "string list" where
  "ramimage_names =
     [''allocator'', ''allocator2'', ''allocator3'', ''allocator4'', ''fork'', ''forkexit'', ''kill'']"

fun program_number_from :: "string list \<Rightarrow> int \<Rightarrow> string \<Rightarrow> int" where
  "program_number_from [] i name = - 1"
| "program_number_from (n # ns) i name = (if name = n then i else program_number_from ns (i + 1) name)"

definition program_number :: "string \<Rightarrow> int" where
  "program_number name = program_number_from ramimage_names 0 name"

text \<open>The constructor from a program number; \<open>img i\<close> is \<open>ramimages[i].begin\<close>.\<close>

definition loader_new :: "(nat \<Rightarrow> u64) \<Rightarrow> mem \<Rightarrow> int \<Rightarrow> program_loader option" where
  "loader_new img m n =
     loader_reset m
       \<lparr>pl_elf = (if 0 \<le> n \<and> nat n < length ramimage_names then img (nat n) else 0), pl_ph = 0, pl_endph = 0\<rparr>"

definition loader_named :: "(nat \<Rightarrow> u64) \<Rightarrow> mem \<Rightarrow> string \<Rightarrow> program_loader option" where
  "loader_named img m name = loader_new img m (program_number name)"

section \<open>Guards of static variables\<close>

text \<open>The loop of exchanges: with one processor and no interrupts nobody else changes the guard.\<close>

partial_function (option) guard_loop :: "u8 \<Rightarrow> (int \<times> u8) option" where
  "guard_loop guard =
     (if guard = 2 then Some (0, 2) else if guard = 1 then guard_loop 1 else Some (1, 1))"

definition cxa_guard_acquire :: "u8 \<Rightarrow> (int \<times> u8) option" where
  "cxa_guard_acquire guard = (if guard = 2 then Some (0, guard) else guard_loop guard)"

definition cxa_guard_release :: "u8 \<Rightarrow> u8" where
  "cxa_guard_release guard = 2"

section \<open>Looking up a symbol\<close>

text \<open>
  The table is sorted and its symbols do not overlap: a symbol ends, without wrapping, at or
  before the start of the later ones, and one without a size starts before them.
\<close>

definition symtab_ok :: "elf_symbol list \<Rightarrow> bool" where
  "symtab_ok syms \<longleftrightarrow>
     (\<forall>i < length syms. st_value (syms ! i) \<le> st_value (syms ! i) + st_size (syms ! i))
     \<and> (\<forall>i j. i < j \<longrightarrow> j < length syms \<longrightarrow>
          st_value (syms ! i) < st_value (syms ! j)
          \<and> st_value (syms ! i) + st_size (syms ! i) \<le> st_value (syms ! j))"

lemma covers_before:
  assumes "symtab_ok syms" "i < j" "j < length syms" "sym_covers syms i addr"
  shows "addr < st_value (syms ! j)"
proof (cases "st_size (syms ! i) = 0")
  case True
  then have "addr < st_value (syms ! (i + 1))" using assms by (simp add: sym_covers_def)
  moreover have "st_value (syms ! (i + 1)) \<le> st_value (syms ! j)"
    using assms(1-3) by (cases "j = i + 1") (auto simp: symtab_ok_def less_imp_le)
  ultimately show ?thesis by (rule less_le_trans)
next
  case False
  then have "addr < st_value (syms ! i) + st_size (syms ! i)" using assms(4) by (simp add: sym_covers_def)
  also have "\<dots> \<le> st_value (syms ! j)" using assms(1-3) by (simp add: symtab_ok_def)
  finally show ?thesis .
qed

lemma lookup_loop_ok:
  assumes "symtab_ok syms" "r \<le> length syms"
    and "\<And>k. k < length syms \<Longrightarrow> sym_covers syms k addr \<Longrightarrow> l \<le> k \<and> k < r"
  shows "case lookup_loop syms addr l r of
      Some m \<Rightarrow> m < length syms \<and> sym_covers syms m addr
    | None \<Rightarrow> \<forall>k < length syms. \<not> sym_covers syms k addr"
  using assms
proof (induction syms addr l r rule: lookup_loop.induct)
  case (1 syms addr l r)
  let ?m = "l + (r - l) div 2"
  show ?case
  proof (cases "l < r")
    case False
    then show ?thesis using "1.prems"(3) by (subst lookup_loop.simps) fastforce
  next
    case lr: True
    then have m: "?m < length syms" "?m < r" "l \<le> ?m" using "1.prems"(2) by auto
    consider "sym_covers syms ?m addr"
      | (lower) "\<not> sym_covers syms ?m addr" "st_value (syms ! ?m) < addr"
      | (upper) "\<not> sym_covers syms ?m addr" "addr \<le> st_value (syms ! ?m)" by fastforce
    then show ?thesis
    proof cases
      case 1
      then show ?thesis using lr m by (subst lookup_loop.simps) simp
    next
      case lower
      have "Suc ?m \<le> k \<and> k < r" if "k < length syms" "sym_covers syms k addr" for k
      proof -
        have "\<not> k < ?m" using covers_before [OF "1.prems"(1) _ m(1) that(2)] lower(2) by auto
        moreover have "k \<noteq> ?m" using lower(1) that(2) by auto
        ultimately show ?thesis using "1.prems"(3) [OF that] by simp
      qed
      then show ?thesis using "1.IH"(1) [OF lr refl lower "1.prems"(1,2)] lr lower
        by (subst lookup_loop.simps) (simp add: Let_def)
    next
      case upper
      have "l \<le> k \<and> k < ?m" if "k < length syms" "sym_covers syms k addr" for k
      proof -
        have "\<not> ?m < k"
        proof
          assume "?m < k"
          then have "st_value (syms ! ?m) < st_value (syms ! k)"
            using "1.prems"(1) that(1) by (simp add: symtab_ok_def)
          also have "st_value (syms ! k) \<le> addr" using that(2) by (simp add: sym_covers_def)
          finally show False using upper(2) by simp
        qed
        moreover have "k \<noteq> ?m" using upper(1) that(2) by auto
        ultimately show ?thesis using "1.prems"(3) [OF that] by simp
      qed
      moreover have "?m \<le> length syms" using m by simp
      moreover have "\<not> st_value (syms ! ?m) < addr" using upper(2) by simp
      ultimately show ?thesis using "1.IH"(2) [OF lr refl upper(1) _ "1.prems"(1)] lr upper(1)
        by (subst lookup_loop.simps) (simp add: Let_def)
    qed
  qed
qed

text \<open>
  The binary search of the symbol table agrees with a search of the whole table: it finds the
  one symbol that covers the address, and finds nothing exactly when no symbol covers it.
\<close>

theorem lookup_symbol_correct:
  assumes "symtab_ok syms"
  shows "lookup_symbol syms addr = Some (n, v) \<longleftrightarrow>
      (\<exists>m < length syms. sym_covers syms m addr \<and> n = st_name (syms ! m) \<and> v = st_value (syms ! m))"
    (is "_ \<longleftrightarrow> ?R")
proof -
  have r: "case lookup_loop syms addr 0 (length syms) of
      Some m \<Rightarrow> m < length syms \<and> sym_covers syms m addr
    | None \<Rightarrow> \<forall>k < length syms. \<not> sym_covers syms k addr"
    by (rule lookup_loop_ok [OF assms]) auto
  have uniq: "i = j" if "i < length syms" "j < length syms" "sym_covers syms i addr" "sym_covers syms j addr" for i j
  proof -
    have "\<not> a < b" if "b < length syms" "sym_covers syms a addr" "sym_covers syms b addr" for a b
      using covers_before [OF assms _ that(1,2)] that(3) by (auto simp: sym_covers_def)
    then show ?thesis using that by (meson nat_neq_iff)
  qed
  show ?thesis
  proof (cases "lookup_loop syms addr 0 (length syms)")
    case None then show ?thesis using r by (auto simp: lookup_symbol_def)
  next
    case (Some m) then show ?thesis using r uniq by (auto simp: lookup_symbol_def)
  qed
qed

definition syms_ex :: "elf_symbol list" where
  "syms_ex = [\<lparr>st_name = 1, st_value = 0x40000, st_size = 0x100\<rparr>, \<lparr>st_name = 7, st_value = 0x40200, st_size = 0\<rparr>,
     \<lparr>st_name = 9, st_value = 0x41000, st_size = 0x10\<rparr>]"

theorem lookup_symbol_correct_witness:
  "lookup_symbol syms_ex 0x40ABC = Some (7, 0x40200) \<and> lookup_symbol syms_ex 0x40150 = None"
proof -
  have ok: "symtab_ok syms_ex"
    unfolding symtab_ok_def
  proof (intro conjI allI impI)
    fix i assume "i < length syms_ex"
    then have "i = 0 \<or> i = 1 \<or> i = 2" unfolding syms_ex_def by simp linarith
    then show "st_value (syms_ex ! i) \<le> st_value (syms_ex ! i) + st_size (syms_ex ! i)"
      by (auto simp: syms_ex_def)
  next
    fix i j assume "i < j" "j < length syms_ex"
    then have "(i = 0 \<and> j = 1) \<or> (i = 0 \<and> j = 2) \<or> (i = 1 \<and> j = 2)" unfolding syms_ex_def by simp linarith
    then show "st_value (syms_ex ! i) < st_value (syms_ex ! j)"
      "st_value (syms_ex ! i) + st_size (syms_ex ! i) \<le> st_value (syms_ex ! j)"
      by (auto simp: syms_ex_def)
  qed
  have "lookup_symbol syms_ex 0x40ABC = Some (7, 0x40200)"
    by (subst lookup_symbol_correct [OF ok]) (auto simp: syms_ex_def sym_covers_def intro!: exI [of _ 1])
  moreover have "lookup_symbol syms_ex 0x40150 = None"
    by (simp add: lookup_symbol_def lookup_loop.simps syms_ex_def sym_covers_def)
  ultimately show ?thesis by simp
qed

section \<open>The segments a loader visits\<close>

text \<open>The loadable program headers among the next \<open>n\<close>.\<close>

fun load_headers :: "mem \<Rightarrow> u64 \<Rightarrow> nat \<Rightarrow> u64 list" where
  "load_headers m p 0 = []"
| "load_headers m p (Suc n) =
     (if p_type m p = ELF_PTYPE_LOAD then [p] else []) @ load_headers m (p + phdr_size) n"

text \<open>The loop \<open>for (loader.reset(); loader.present(); ++loader)\<close> as the list of headers it stops at.\<close>

partial_function (option) loader_visits :: "mem \<Rightarrow> program_loader \<Rightarrow> u64 list option" where
  "loader_visits m L =
     (if loader_present L then
        Option.bind (loader_next m L) (\<lambda>L'. Option.bind (loader_visits m L') (\<lambda>ps. Some (pl_ph L # ps)))
      else Some [])"

lemma fix_visits:
  assumes "pl_endph L = pl_ph L + phdr_size * of_nat n" "unat (pl_ph L) + 56 * n < 2 ^ 64" "pl_ph L \<noteq> 0"
  shows "\<exists>L'. loader_fix m L = Some L' \<and> loader_visits m L' = Some (load_headers m (pl_ph L) n)
    \<and> pl_elf L' = pl_elf L"
  using assms
proof (induction n arbitrary: L)
  case 0
  then have "loader_fix m L = Some L" by (subst loader_fix.simps) simp
  moreover have "loader_visits m L = Some []" using 0 by (subst loader_visits.simps) (simp add: loader_present_def)
  ultimately show ?case by simp
next
  case (Suc n)
  let ?L = "L\<lparr>pl_ph := pl_ph L + phdr_size\<rparr>"
  have "unat (pl_ph L) + unat (56 :: u64) < 2 ^ 64" using Suc.prems(2) by simp
  then have u: "unat (pl_ph L + 56) = unat (pl_ph L) + 56" by (subst unat_add_lt) simp_all
  have nz: "pl_ph ?L \<noteq> 0"
  proof
    assume "pl_ph ?L = 0"
    then have "unat (pl_ph L + 56) = 0" by simp
    then show False using u by simp
  qed
  obtain L' where L': "loader_fix m ?L = Some L'"
    "loader_visits m L' = Some (load_headers m (pl_ph L + 56) n)" "pl_elf L' = pl_elf L"
    using Suc.IH [of ?L] Suc.prems u nz by (auto simp: algebra_simps)
  have "unat (phdr_size * of_nat (Suc n)) = 56 * Suc n"
    using Suc.prems(2) by (simp add: unat_word_ariths unat_of_nat take_bit_nat_eq_self del: of_nat_Suc)
  then have "phdr_size * of_nat (Suc n) \<noteq> 0" by (metis mult_is_0 nat.distinct(1) numeral_eq_Suc unat_0)
  then have ne: "pl_ph L \<noteq> pl_endph L" unfolding Suc.prems(1) by (simp del: of_nat_Suc phdr_size_def)
  show ?case
  proof (cases "p_type m (pl_ph L) = ELF_PTYPE_LOAD")
    case True
    then have "loader_fix m L = Some L" by (subst loader_fix.simps) simp
    moreover have "loader_next m L = Some L'" using ne L'(1) by (simp add: loader_next_def)
    then have "loader_visits m L = Some (load_headers m (pl_ph L) (Suc n))"
      using ne L'(2) True by (subst loader_visits.simps) (simp add: loader_present_def)
    ultimately show ?thesis by simp
  next
    case False
    then have "loader_fix m L = Some L'" using ne L'(1) Suc.prems(3) by (subst loader_fix.simps) simp
    then show ?thesis using L'(2,3) False by simp
  qed
qed

text \<open>
  C34: A program loader iterates over exactly the loadable segments of the image, each once and in
  the order of the program headers, and the iteration ends, when the header table lies inside
  the address space.
\<close>

theorem loader_visits_load_segments:
  fixes e :: u64 and m :: mem
  defines "p \<equiv> e + e_phoff m e"
  assumes "pl_elf L = e" "e \<noteq> 0" "e_magic m e = ELF_MAGIC" "p \<noteq> 0"
    and "unat p + 56 * unat (e_phnum m e) < 2 ^ 64"
  shows "\<exists>L'. loader_reset m L = Some L' \<and> loader_visits m L' = Some (load_headers m p (unat (e_phnum m e)))"
proof -
  let ?L = "L\<lparr>pl_ph := p, pl_endph := p + phdr_size * ucast (e_phnum m e)\<rparr>"
  have 1: "pl_endph ?L = pl_ph ?L + phdr_size * of_nat (unat (e_phnum m e))" by simp
  have 2: "unat (pl_ph ?L) + 56 * unat (e_phnum m e) < 2 ^ 64" using assms(6) by simp
  have 3: "pl_ph ?L \<noteq> 0" using assms(5) by simp
  obtain L' where "loader_fix m ?L = Some L'" "loader_visits m L' = Some (load_headers m p (unat (e_phnum m e)))"
    using fix_visits [OF 1 2 3, of m] by auto
  moreover have "loader_reset m L = loader_fix m ?L" using assms(2-4) unfolding loader_reset_def p_def by (simp only: if_True not_False_eq_True Let_def simp_thms)
  ultimately show ?thesis by (intro exI conjI) (simp_all only:)
qed

text \<open>An image whose header table starts at offset 0x40: a note segment, then a loadable one.\<close>

definition elf_ex :: mem where
  "elf_ex = mem_write (mem_write (mem_write (mem_write (mem_write (\<lambda>_. 0)
     0x1000 [0x7F, 0x45, 0x4C, 0x46]) 0x1020 [0x40]) 0x1038 [2]) 0x1040 [4]) 0x1078 [1]"

theorem loader_visits_load_segments_witness:
  "\<exists>L'. loader_reset elf_ex \<lparr>pl_elf = 0x1000, pl_ph = 0, pl_endph = 0\<rparr> = Some L'
    \<and> loader_visits elf_ex L' = Some [0x1078]"
proof -
  have m: "e_magic elf_ex 0x1000 = ELF_MAGIC" by (simp add: e_magic_def ld32_def elf_ex_def mem_write_def)
  have o: "e_phoff elf_ex 0x1000 = 0x40" by (simp add: e_phoff_def ld64_def elf_ex_def mem_write_def)
  have n: "e_phnum elf_ex 0x1000 = 2" by (simp add: e_phnum_def ld16_def elf_ex_def mem_write_def)
  have t: "p_type elf_ex 0x1040 = 4" "p_type elf_ex 0x1078 = 1"
    by (simp_all add: p_type_def ld32_def elf_ex_def mem_write_def)
  have "load_headers elf_ex 0x1040 (Suc (Suc 0)) = [0x1078]" using t by simp
  then have h: "load_headers elf_ex 0x1040 2 = [0x1078]" by (simp only: numeral_2_eq_2)
  show ?thesis
    using loader_visits_load_segments [of "\<lparr>pl_elf = 0x1000, pl_ph = 0, pl_endph = 0\<rparr>" "0x1000" elf_ex] m o n h
    by simp
qed

end
