(* ===== verification/KLib.thy ===== *)
theory KLib
  imports X86
begin

text \<open>
  The C library subset of the kernel and its programs (\<open>pset3/lib.cc\<close>, \<open>lib.hh\<close>): memory blocks,
  strings in memory, character classes, numbers in strings, powers of two, and pseudorandom
  numbers. A loop that only ends at a NUL byte is a partial function: \<open>None\<close> means that it does
  not end. \<open>strtoul\<close> and \<open>strtol\<close> take the string as the list of its characters, the end of the
  list being the NUL.
\<close>

section \<open>Blocks of memory\<close>

fun memcpy_loop :: "mem \<Rightarrow> u64 \<Rightarrow> u64 \<Rightarrow> nat \<Rightarrow> mem" where
  "memcpy_loop m d s 0 = m"
| "memcpy_loop m d s (Suc n) = memcpy_loop (m(d := m s)) (d + 1) (s + 1) n"

definition memcpy :: "mem \<Rightarrow> u64 \<Rightarrow> u64 \<Rightarrow> u64 \<Rightarrow> mem" where
  "memcpy m dst src n = memcpy_loop m dst src (unat n)"

fun memmove_back :: "mem \<Rightarrow> u64 \<Rightarrow> u64 \<Rightarrow> nat \<Rightarrow> mem" where
  "memmove_back m d s 0 = m"
| "memmove_back m d s (Suc n) = memmove_back (m(d - 1 := m (s - 1))) (d - 1) (s - 1) n"

definition memmove :: "mem \<Rightarrow> u64 \<Rightarrow> u64 \<Rightarrow> u64 \<Rightarrow> mem" where
  "memmove m dst src n =
     (if src < dst \<and> dst < src + n then memmove_back m (dst + n) (src + n) (unat n)
      else memcpy_loop m dst src (unat n))"

fun memset_loop :: "mem \<Rightarrow> u64 \<Rightarrow> u8 \<Rightarrow> nat \<Rightarrow> mem" where
  "memset_loop m p c 0 = m"
| "memset_loop m p c (Suc n) = memset_loop (m(p := c)) (p + 1) c n"

definition memset :: "mem \<Rightarrow> u64 \<Rightarrow> u8 \<Rightarrow> u64 \<Rightarrow> mem" where
  "memset m v c n = memset_loop m v c (unat n)"

definition compare_bytes :: "u8 \<Rightarrow> u8 \<Rightarrow> int" where
  "compare_bytes a b = (if b < a then 1 else 0) - (if a < b then 1 else 0)"

fun memcmp_loop :: "mem \<Rightarrow> u64 \<Rightarrow> u64 \<Rightarrow> nat \<Rightarrow> int" where
  "memcmp_loop m a b 0 = 0"
| "memcmp_loop m a b (Suc n) =
     (if m a \<noteq> m b then compare_bytes (m a) (m b) else memcmp_loop m (a + 1) (b + 1) n)"

definition memcmp :: "mem \<Rightarrow> u64 \<Rightarrow> u64 \<Rightarrow> u64 \<Rightarrow> int" where
  "memcmp m a b n = memcmp_loop m a b (unat n)"

fun memchr_loop :: "mem \<Rightarrow> u64 \<Rightarrow> u8 \<Rightarrow> nat \<Rightarrow> u64" where
  "memchr_loop m s c 0 = 0"
| "memchr_loop m s c (Suc n) = (if m s = c then s else memchr_loop m (s + 1) c n)"

definition memchr :: "mem \<Rightarrow> u64 \<Rightarrow> u8 \<Rightarrow> u64 \<Rightarrow> u64" where
  "memchr m s c n = memchr_loop m s c (unat n)"

section \<open>Strings in memory\<close>

partial_function (option) strlen_loop :: "mem \<Rightarrow> u64 \<Rightarrow> u64 \<Rightarrow> u64 option" where
  "strlen_loop m s n = (if m s \<noteq> 0 then strlen_loop m (s + 1) (n + 1) else Some n)"

definition strlen :: "mem \<Rightarrow> u64 \<Rightarrow> u64 option" where
  "strlen m s = strlen_loop m s 0"

fun strnlen_loop :: "mem \<Rightarrow> u64 \<Rightarrow> u64 \<Rightarrow> nat \<Rightarrow> u64" where
  "strnlen_loop m s n 0 = n"
| "strnlen_loop m s n (Suc k) = (if m s \<noteq> 0 then strnlen_loop m (s + 1) (n + 1) k else n)"

definition strnlen :: "mem \<Rightarrow> u64 \<Rightarrow> u64 \<Rightarrow> u64" where
  "strnlen m s maxlen = strnlen_loop m s 0 (unat maxlen)"

partial_function (option) strcpy :: "mem \<Rightarrow> u64 \<Rightarrow> u64 \<Rightarrow> mem option" where
  "strcpy m d s =
     (let m' = m(d := m s) in if m' d \<noteq> 0 then strcpy m' (d + 1) (s + 1) else Some m')"

partial_function (option) strcmp :: "mem \<Rightarrow> u64 \<Rightarrow> u64 \<Rightarrow> int option" where
  "strcmp m a b =
     (let ac = m a; bc = m b
      in if ac = 0 \<or> bc = 0 \<or> ac \<noteq> bc then Some (compare_bytes ac bc) else strcmp m (a + 1) (b + 1))"

fun strncmp_loop :: "mem \<Rightarrow> u64 \<Rightarrow> u64 \<Rightarrow> nat \<Rightarrow> int" where
  "strncmp_loop m a b 0 = compare_bytes 0 0"
| "strncmp_loop m a b (Suc n) =
     (let ac = m a; bc = m b
      in if ac = 0 \<or> bc = 0 \<or> ac \<noteq> bc then compare_bytes ac bc else strncmp_loop m (a + 1) (b + 1) n)"

definition strncmp :: "mem \<Rightarrow> u64 \<Rightarrow> u64 \<Rightarrow> u64 \<Rightarrow> int" where
  "strncmp m a b n = strncmp_loop m a b (unat n)"

text \<open>Character classes on \<open>int\<close>; the tests of \<open>lib.hh\<close> subtract unsigned and compare.\<close>

definition lib_isspace :: "int \<Rightarrow> bool" where
  "lib_isspace c \<longleftrightarrow> (9 \<le> c \<and> c \<le> 13) \<or> c = 32"

definition lib_isdigit :: "int \<Rightarrow> bool" where
  "lib_isdigit c \<longleftrightarrow> (word_of_int c - 48 :: u32) < 10"

definition lib_islower :: "int \<Rightarrow> bool" where
  "lib_islower c \<longleftrightarrow> (word_of_int c - 97 :: u32) < 26"

definition lib_isupper :: "int \<Rightarrow> bool" where
  "lib_isupper c \<longleftrightarrow> (word_of_int c - 65 :: u32) < 26"

definition lib_isalpha :: "int \<Rightarrow> bool" where
  "lib_isalpha c \<longleftrightarrow> ((word_of_int c OR 0x20) - 97 :: u32) < 26"

definition lib_isalnum :: "int \<Rightarrow> bool" where
  "lib_isalnum c \<longleftrightarrow> lib_isalpha c \<or> lib_isdigit c"

definition lib_tolower :: "int \<Rightarrow> int" where
  "lib_tolower c = (if lib_isupper c then c + 97 - 65 else c)"

definition lib_toupper :: "int \<Rightarrow> int" where
  "lib_toupper c = (if lib_islower c then c + 65 - 97 else c)"

definition lower_byte :: "u8 \<Rightarrow> u8" where
  "lower_byte b = word_of_int (lib_tolower (uint b))"

partial_function (option) strcasecmp :: "mem \<Rightarrow> u64 \<Rightarrow> u64 \<Rightarrow> int option" where
  "strcasecmp m a b =
     (let ac = lower_byte (m a); bc = lower_byte (m b)
      in if ac = 0 \<or> bc = 0 \<or> ac \<noteq> bc then Some (compare_bytes ac bc) else strcasecmp m (a + 1) (b + 1))"

fun strncasecmp_loop :: "mem \<Rightarrow> u64 \<Rightarrow> u64 \<Rightarrow> nat \<Rightarrow> int" where
  "strncasecmp_loop m a b 0 = compare_bytes 0 0"
| "strncasecmp_loop m a b (Suc n) =
     (let ac = lower_byte (m a); bc = lower_byte (m b)
      in if ac = 0 \<or> bc = 0 \<or> ac \<noteq> bc then compare_bytes ac bc else strncasecmp_loop m (a + 1) (b + 1) n)"

definition strncasecmp :: "mem \<Rightarrow> u64 \<Rightarrow> u64 \<Rightarrow> u64 \<Rightarrow> int" where
  "strncasecmp m a b n = strncasecmp_loop m a b (unat n)"

text \<open>The result is a pointer, 0 for \<open>nullptr\<close>.\<close>

partial_function (option) strchr :: "mem \<Rightarrow> u64 \<Rightarrow> u8 \<Rightarrow> u64 option" where
  "strchr m s c =
     (if m s \<noteq> 0 \<and> m s \<noteq> c then strchr m (s + 1) c else Some (if m s = c then s else 0))"

section \<open>Numbers in strings\<close>

text \<open>A character is its code. \<open>peek\<close> reads the string at an offset: past its end there is the NUL.\<close>

definition peek :: "int list \<Rightarrow> nat \<Rightarrow> int" where
  "peek s i = (if i < length s then s ! i else 0)"

definition strip_0x :: "int list \<Rightarrow> bool" where
  "strip_0x s \<longleftrightarrow> peek s 0 = 48 \<and> (peek s 1 = 120 \<or> peek s 1 = 88)"

definition strtoul_base :: "int list \<Rightarrow> int \<Rightarrow> int \<times> int list" where
  "strtoul_base s base =
     (if base = 0 then
        if strip_0x s then (16, drop 2 s) else if peek s 0 = 48 then (8, s) else (10, s)
      else if base = 16 \<and> strip_0x s then (base, drop 2 s) else (base, s))"

definition digit_of :: "int \<Rightarrow> int \<Rightarrow> u64 option" where
  "digit_of base c =
     (if 48 \<le> c \<and> c < 48 + base then Some (word_of_int (c - 48))
      else if 10 < base \<and> 97 \<le> c \<and> c < 97 + base - 10 then Some (word_of_int (c - 97 + 10))
      else if 10 < base \<and> 65 \<le> c \<and> c < 65 + base - 10 then Some (word_of_int (c - 65 + 10))
      else None)"

fun strtoul_loop :: "int list \<Rightarrow> int \<Rightarrow> u64 \<Rightarrow> bool \<Rightarrow> u64 \<times> bool \<times> int list" where
  "strtoul_loop [] base x overflow = (x, overflow, [])"
| "strtoul_loop (c # cs) base x overflow =
     (case digit_of base c of
        None \<Rightarrow> (x, overflow, c # cs)
      | Some digit \<Rightarrow>
          if (- 1 - digit) div word_of_int base < x then strtoul_loop cs base x True
          else strtoul_loop cs base (x * word_of_int base + digit) overflow)"

text \<open>The value and the rest of the string (\<open>endptr\<close>).\<close>

definition strtoul :: "int list \<Rightarrow> int \<Rightarrow> u64 \<times> int list" where
  "strtoul str base0 =
     (let s0 = dropWhile lib_isspace str;
          negative = (peek s0 0 = 45);
          s1 = (if negative \<or> peek s0 0 = 43 then tl s0 else s0);
          (base, s2) = strtoul_base s1 base0;
          (x, overflow, s3) = strtoul_loop s2 base 0 False;
          x1 = (if overflow then - 1 else x)
      in (if negative then - x1 else x1, s3))"

definition strtol :: "int list \<Rightarrow> int \<Rightarrow> u64 \<times> int list" where
  "strtol str base =
     (let s0 = dropWhile lib_isspace str;
          negative = (peek s0 0 = 45);
          s1 = (if negative then tl s0 else s0);
          (u, s2) = strtoul s1 base;
          bound = push_bit 63 1 - (if negative then 0 else 1);
          u1 = (if bound < u then bound else u)
      in (if negative then - u1 else u1, s2))"

section \<open>Pseudorandom numbers\<close>

definition RAND_MAX :: u32 where [simp]: "RAND_MAX = 0x7FFFFFFF"

record rand_state =
  rand_seed_set :: bool
  rand_seed :: u64

definition srand :: "u32 \<Rightarrow> rand_state" where
  "srand seed = \<lparr>rand_seed_set = True, rand_seed = push_bit 32 (ucast seed) OR ucast seed\<rparr>"

definition rand :: "rand_state \<Rightarrow> u32 \<times> rand_state" where
  "rand g =
     (let g1 = (if \<not> rand_seed_set g then srand 819234718 else g);
          seed = rand_seed g1 * 6364136223846793005 + 1
      in (ucast (drop_bit 32 seed) AND RAND_MAX, g1\<lparr>rand_seed := seed\<rparr>))"

text \<open>
  \<open>rand(min, max)\<close>: the arithmetic on \<open>int\<close> is that of 32-bit words, then converted to 64 bits
  by sign extension. \<open>None\<close> is a failed assertion.
\<close>

definition rand_between :: "u32 \<Rightarrow> u32 \<Rightarrow> rand_state \<Rightarrow> (u32 \<times> rand_state) option" where
  "rand_between lo hi g =
     (if sint lo \<le> sint hi \<and> sint (hi - lo) \<le> sint RAND_MAX then
        let (r, g') = rand g
        in Some (ucast (scast lo + (ucast r * scast (hi - lo + 1)) div (0x80000000 :: u64)), g')
      else None)"

section \<open>Bits and powers of two\<close>

text \<open>\<open>msb\<close> and \<open>lsb\<close> count bits from one and are zero for zero.\<close>

function lib_msb :: "'a::len word \<Rightarrow> nat" where
  "lib_msb x = (if x = 0 then 0 else Suc (lib_msb (x div 2)))"
  by pat_completeness auto

lemma word_half_less: "x \<noteq> 0 \<Longrightarrow> unat (x div 2) < unat (x :: 'a::len word)"
proof -
  assume "x \<noteq> 0"
  then have "0 < unat x" by (simp add: unat_gt_0)
  moreover have "unat (x div 2) = unat x div 2" by (metis drop_bit_eq_div drop_bit_Suc drop_bit_0 One_nat_def id_apply power_one_right unsigned_drop_bit_eq take_bit_length_eq)
  ultimately show ?thesis by simp
qed

termination lib_msb by (relation "measure unat") (auto intro: word_half_less)

declare lib_msb.simps [simp del]

function lib_lsb :: "'a::len word \<Rightarrow> nat" where
  "lib_lsb x = (if x = 0 then 0 else if bit x 0 then 1 else Suc (lib_lsb (x div 2)))"
  by pat_completeness auto
termination by (relation "measure unat") (auto intro: word_half_less)

declare lib_lsb.simps [simp del]

definition round_down_pow2 :: "'a::len word \<Rightarrow> 'a word" where
  "round_down_pow2 x = (if x \<noteq> 0 then push_bit (lib_msb x - 1) 1 else 0)"

text \<open>The shift by \<open>msb(x - 1)\<close> is defined when that is less than the width.\<close>

definition round_up_pow2 :: "'a::len word \<Rightarrow> 'a word option" where
  "round_up_pow2 x =
     (if x = 0 then Some 0
      else if lib_msb (x - 1) < LENGTH('a) then Some (push_bit (lib_msb (x - 1)) 1) else None)"

section \<open>Properties\<close>

lemma Suc_in_rng: "n < 2 ^ 64 - 1 \<Longrightarrow> unat (x - d) < Suc n \<longleftrightarrow> x = d \<or> (x \<noteq> d \<and> unat (x - (d + 1)) < n)"
  for x d :: u64
proof (cases "x = d")
  case False
  then have "0 < unat (x - d)" by (simp add: unat_gt_0)
  moreover have "unat (x - (d + 1)) = unat (x - d) - 1"
  proof -
    have e: "x - (d + 1) = (x - d) - 1" by simp
    show ?thesis unfolding e by (rule unat_minus_one) (use False in simp)
  qed
  ultimately show ?thesis using False by auto
qed simp

lemma memcpy_loop_eq:
  assumes "n < 2 ^ 64" "d = s \<or> n \<le> unat (d - s)"
  shows "memcpy_loop m d s n x = (if unat (x - d) < n then m (s + (x - d)) else m x)"
  using assms
proof (induction n arbitrary: m d s)
  case (Suc n)
  let ?m = "m(d := m s)"
  have IH: "memcpy_loop ?m (d + 1) (s + 1) n x = (if unat (x - (d + 1)) < n then ?m (s + 1 + (x - (d + 1))) else ?m x)"
    by (rule Suc.IH) (use Suc.prems in auto)
  have e: "s + 1 + (x - (d + 1)) = s + (x - d)" by simp
  have same: "?m (s + (x - d)) = m (s + (x - d))" if "x \<noteq> d" "unat (x - d) < Suc n"
  proof (cases "d = s")
    case False
    then have "unat (x - d) \<noteq> unat (d - s)" using Suc.prems(2) that by auto
    then have "x - d \<noteq> d - s" by auto
    then have "s + (x - d) \<noteq> d" by (metis add_diff_cancel_left')
    then show ?thesis by simp
  qed (use that in auto)
  have n: "n < 2 ^ 64 - 1" using Suc.prems(1) by simp
  show ?case using IH same Suc_in_rng [OF n, of x d] unfolding e by auto
qed simp

lemma unat_add_mod: "(unat a + unat b) mod 2 ^ 64 = unat (a + b :: u64)"
  by (simp add: unat_word_ariths)

lemma memmove_back_eq:
  assumes "n < 2 ^ 64" "d = s \<or> n \<le> unat (s - d)"
  shows "memmove_back m (d + of_nat n) (s + of_nat n) n x = (if unat (x - d) < n then m (s + (x - d)) else m x)"
  using assms
proof (induction n arbitrary: m)
  case (Suc n)
  let ?m = "m(d + of_nat n := m (s + of_nat n))"
  have n: "unat (of_nat n :: u64) = n" using Suc.prems(1) by simp
  have IH: "memmove_back ?m (d + of_nat n) (s + of_nat n) n x =
      (if unat (x - d) < n then ?m (s + (x - d)) else ?m x)"
    by (rule Suc.IH) (use Suc.prems in auto)
  have eq: "unat (x - d) = n \<longleftrightarrow> x = d + of_nat n"
  proof
    assume u: "unat (x - d) = n"
    have "x - d = of_nat n" by (simp flip: u)
    then show "x = d + of_nat n" by (simp add: algebra_simps)
  qed (simp add: n)
  have same: "s + (x - d) \<noteq> d + of_nat n" if "unat (x - d) < n"
  proof
    assume "s + (x - d) = d + of_nat n"
    then have e: "(x - d) + (s - d) = of_nat n" by (simp add: algebra_simps)
    then have u: "(unat (x - d) + unat (s - d)) mod 2 ^ 64 = n" by (simp only: unat_add_mod n)
    show False
    proof (cases "d = s")
      case True then show ?thesis using e n that by simp
    next
      case False
      then have "Suc n \<le> unat (s - d)" using Suc.prems(2) by simp
      moreover have "unat (s - d) < 2 ^ 64" using unsigned_less [of "s - d", where 'a = nat] by simp
      ultimately have big: "Suc n \<le> unat (s - d)" "unat (s - d) < 2 ^ 64" by simp_all
      show ?thesis
      proof (cases "unat (x - d) + unat (s - d) < 2 ^ 64")
        case True
        then show ?thesis using u big that by simp
      next
        case wrap: False
        then have "(unat (x - d) + unat (s - d)) mod 2 ^ 64 = (unat (x - d) + unat (s - d) - 2 ^ 64) mod 2 ^ 64"
          by (intro le_mod_geq) simp
        also have "\<dots> = unat (x - d) + unat (s - d) - 2 ^ 64"
          using big that Suc.prems(1) by (intro mod_less) simp
        finally show ?thesis using u big that wrap by simp
      qed
    qed
  qed
  have "memmove_back m (d + of_nat (Suc n)) (s + of_nat (Suc n)) (Suc n) x =
      memmove_back ?m (d + of_nat n) (s + of_nat n) n x" by (simp add: algebra_simps)
  then show ?case using IH same eq by (auto simp: less_Suc_eq)
qed simp

lemma unat_diff_wrap: "a < b \<Longrightarrow> unat (a - b) = 2 ^ 64 - unat (b - a)" for a b :: u64
  using unsigned_less [of b, where 'a = nat] by (simp add: unat_sub_if' word_less_nat_alt)

text \<open>
  \<open>memmove\<close> copies the block correctly even when source and destination overlap: whichever
  direction it copies in, each byte of the destination is the byte the source held before, and
  no other byte changes. The blocks may not wrap around the address space.
\<close>

theorem memmove_correct:
  assumes "unat dst + unat n < 2 ^ 64" "unat src + unat n < 2 ^ 64"
  shows "memmove m dst src n = mem_copy m dst src n"
proof (rule ext)
  fix x
  show "memmove m dst src n x = mem_copy m dst src n x"
  proof (cases "src < dst \<and> dst < src + n")
    case True
    have le: "n \<le> dst + n" using assms(1) by (simp add: word_le_nat_alt unat_add_lt)
    have d: "unat (dst - src) = unat dst - unat src" using True by (simp add: unat_sub_le word_less_nat_alt word_le_nat_alt)
    have "unat n \<le> unat (src - dst)"
    proof -
      have "unat (src - dst) = 2 ^ 64 - unat (dst - src)" using True by (intro unat_diff_wrap) simp
      then show ?thesis using assms d by simp
    qed
    moreover have "unat n < 2 ^ 64" using unsigned_less [of n, where 'a = nat] by simp
    ultimately have "memmove_back m (dst + of_nat (unat n)) (src + of_nat (unat n)) (unat n) x =
        (if unat (x - dst) < unat n then m (src + (x - dst)) else m x)"
      by (intro memmove_back_eq) auto
    then show ?thesis using True by (simp add: memmove_def mem_copy_def in_rng_def word_less_nat_alt)
  next
    case False
    have "dst = src \<or> unat n \<le> unat (dst - src)"
    proof (cases "dst < src")
      case True
      then have "unat (dst - src) = 2 ^ 64 - unat (src - dst)" by (rule unat_diff_wrap)
      moreover have "unat (src - dst) = unat src - unat dst" using True by (simp add: unat_sub_le)
      moreover have "unat dst < unat src" using True by (simp add: word_less_nat_alt)
      ultimately have "unat n \<le> unat (dst - src)" using assms(2) by linarith
      then show ?thesis ..
    next
      case ge: False
      have "unat (src + n) = unat src + unat n" using assms(2) by (intro unat_add_lt) simp
      moreover have "src < dst \<Longrightarrow> src + n \<le> dst" using False by simp
      moreover have "src \<le> dst \<Longrightarrow> unat (dst - src) = unat dst - unat src" by (rule unat_sub_le)
      moreover have "dst \<noteq> src \<Longrightarrow> src < dst" using ge by simp
      ultimately show ?thesis by (cases "dst = src") (auto simp: word_le_nat_alt)
    qed
    moreover have "unat n < 2 ^ 64" using unsigned_less [of n, where 'a = nat] by simp
    ultimately show ?thesis unfolding memmove_def if_not_P [OF False]
      by (simp add: memcpy_loop_eq mem_copy_def in_rng_def word_less_nat_alt)
  qed
qed

theorem memmove_correct_witness:
  "memmove (\<lambda>a. ucast a) 0x1004 0x1000 0x10 = mem_copy (\<lambda>a. ucast a) 0x1004 0x1000 0x10"
  by (rule memmove_correct) simp_all

lemma len64: "LENGTH(64) = 64" by simp

lemma sint_in_range: "- (2 ^ 31) \<le> i \<Longrightarrow> i < 2 ^ 31 \<Longrightarrow> sint (word_of_int i :: u32) = i"
  using signed_take_bit_int_eq_self [of 31 i] by (simp add: sint_sbintrunc')

lemma word_of_sint: "word_of_int (sint w) = (w :: 'a::len word)"
  using scast_eq [of w] by (metis scast_id)

lemma ucast_of_int: "ucast (word_of_int i :: u64) = (word_of_int i :: u32)"
  by (rule bit_word_eqI) (simp add: bit_ucast_iff bit_word_of_int_iff)

lemma rand_small: "uint (fst (rand g)) < 2 ^ 31"
proof -
  have m: "RAND_MAX = (mask 31 :: u32)" by (simp add: mask_eq_exp_minus_1)
  have "fst (rand g) = take_bit 31 (ucast (drop_bit 32 (rand_seed (if \<not> rand_seed_set g then srand 819234718 else g) * 6364136223846793005 + 1)))"
    by (simp only: rand_def Let_def fst_conv m take_bit_eq_mask)
  then have "uint (fst (rand g)) = take_bit 31 (uint (fst (rand g)))"
    by (simp add: unsigned_take_bit_eq)
  then show ?thesis using take_bit_int_less_exp [of 31 "uint (fst (rand g))"] by simp
qed

lemma uint_80000000: "uint (0x80000000 :: u64) = 2 ^ 31" by simp

text \<open>
  \<open>rand(min, max)\<close> returns a number between its bounds, when the range has fewer than
  \<open>RAND_MAX\<close> + 1 values (with exactly that many, \<open>max - min + 1\<close> overflows).
\<close>

theorem rand_between_bounds:
  assumes "sint lo \<le> sint hi" "sint hi - sint lo < sint RAND_MAX"
  shows "\<exists>r g'. rand_between lo hi g = Some (r, g') \<and> sint lo \<le> sint r \<and> sint r \<le> sint hi"
proof -
  obtain K L R where Kd: "K = sint hi - sint lo" and Ld: "L = sint lo" and Rd: "R = uint (fst (rand g))" by blast
  let ?q = "R * (K + 1) div 2 ^ 31"
  have K: "0 \<le> K" "K < 0x7FFFFFFF" using assms unfolding Kd by simp_all
  have L: "- (2 ^ 31) \<le> L" "sint hi < 2 ^ 31"
    using sint_greater_eq [of lo] sint_less [of hi] unfolding Ld by simp_all
  have diff: "hi - lo = word_of_int K" by (simp only: Kd wi_hom_sub [symmetric] word_of_sint)
  have d: "sint (hi - lo) = K" unfolding diff using K by (intro sint_in_range) simp_all
  have d1: "sint (hi - lo + 1) = K + 1"
  proof -
    have "hi - lo + 1 = word_of_int (K + 1)" by (simp add: diff)
    then show ?thesis using sint_in_range [of "K + 1"] K by simp
  qed
  have R: "0 \<le> R" "R < 2 ^ 31" using rand_small [of g] unfolding Rd by simp_all
  have prod: "0 \<le> R * (K + 1)" "R * (K + 1) < 2 ^ 31 * (K + 1)"
    using R K mult_strict_right_mono [of R "2 ^ 31" "K + 1"] by simp_all
  have q: "0 \<le> ?q" "?q \<le> K"
  proof -
    show "0 \<le> ?q" using prod(1) by (simp add: pos_imp_zdiv_nonneg_iff)
    have "2 ^ 31 * ?q + R * (K + 1) mod 2 ^ 31 = R * (K + 1)" by (rule mult_div_mod_eq)
    moreover have "0 \<le> R * (K + 1) mod 2 ^ 31" by simp
    ultimately have "2 ^ 31 * ?q < 2 ^ 31 * (K + 1)" using prod(2) by linarith
    then have "?q < K + 1" by simp
    then show "?q \<le> K" by simp
  qed
  have p64: "R * (K + 1) < 2 ^ 64"
  proof -
    have "2 ^ 31 * (K + 1) \<le> 2 ^ 31 * (2 ^ 31 :: int)" using K by simp
    with prod(2) show ?thesis by simp
  qed
  let ?p = "ucast (fst (rand g)) * scast (hi - lo + 1) :: u64"
  have "?p = word_of_int (R * (K + 1))"
    by (simp only: d1 scast_eq Rd wi_hom_mult [symmetric] ucast_eq)
  then have "uint ?p = uint (word_of_int (R * (K + 1)) :: u64)" by (simp only:)
  also have "\<dots> = take_bit 64 (R * (K + 1))" by (simp only: uint_word_of_int_eq len64)
  also have "\<dots> = R * (K + 1)" using prod(1) p64 by (rule take_bit_int_eq_self)
  finally have "uint ?p = R * (K + 1)" .
  then have pq: "uint (?p div 0x80000000) = ?q"
    unfolding uint_div_distrib by (simp only: uint_80000000)
  have "scast lo + ?p div 0x80000000 = (word_of_int (L + ?q) :: u64)"
    by (simp only: Ld wi_hom_add [symmetric] scast_eq pq [symmetric] word_of_int_uint)
  then have "ucast (scast lo + ?p div 0x80000000) = (ucast (word_of_int (L + ?q) :: u64) :: u32)" by (rule arg_cong)
  also have "\<dots> = word_of_int (L + ?q)" by (rule ucast_of_int)
  finally have "ucast (scast lo + ?p div 0x80000000) = (word_of_int (L + ?q) :: u32)" .
  then have "sint (ucast (scast lo + ?p div 0x80000000) :: u32) = L + ?q"
    using L q Kd Ld by (simp only:) (rule sint_in_range, simp_all)
  then show ?thesis using q assms(1) d K Kd Ld
    by (cases "rand g") (simp add: rand_between_def)
qed

theorem rand_between_bounds_witness:
  "\<exists>r g'. rand_between 3 17 (srand 42) = Some (r, g') \<and> 3 \<le> sint r \<and> sint r \<le> 17"
  using rand_between_bounds [of 3 17 "srand 42"] by simp

end
