(* ===== verification/KPrint.thy ===== *)
theory KPrint
  imports KLib
begin

text \<open>
  Formatted output (\<open>pset3/lib.cc\<close>: \<open>fill_numbuf\<close>, \<open>printer::vprintf\<close>, \<open>vsnprintf\<close>, the
  console printer). A character is its code, a string the list of its characters up to the NUL.
  A printer is the list of the characters (with their colours) it is given: \<open>vprintf\<close> returns
  that list, and the string printer and the console printer consume it. The variable arguments
  are a list of machine words and strings; \<open>None\<close> is a missing argument or one of the wrong kind.
\<close>

section \<open>Digits\<close>

definition upper_digits :: "int list" where
  "upper_digits = [48, 49, 50, 51, 52, 53, 54, 55, 56, 57, 65, 66, 67, 68, 69, 70]"

definition lower_digits :: "int list" where
  "lower_digits = [48, 49, 50, 51, 52, 53, 54, 55, 56, 57, 97, 98, 99, 100, 101, 102]"

text \<open>The digits of a number, last one first; the recursion is the \<open>do\<close> loop.\<close>

function fill_digits :: "int list \<Rightarrow> u64 \<Rightarrow> u64 \<Rightarrow> int list" where
  "fill_digits digits val base =
     (let d = digits ! unat (val mod base); val' = val div base
      in if val' \<noteq> 0 \<and> 2 \<le> base then d # fill_digits digits val' base else [d])"
  by pat_completeness auto
termination
proof (relation "measure (\<lambda>(d, v, b). unat v)", goal_cases)
  case (2 digits val base d val')
  then have "unat val \<noteq> 0" "2 \<le> unat base" by (auto simp: word_le_nat_alt unat_eq_0)
  then have "unat val div unat base < unat val" by (intro div_less_dividend) auto
  then show ?case using 2 by (simp add: unat_div_distrib)
qed simp

declare fill_digits.simps [simp del]

definition fill_numbuf :: "u64 \<Rightarrow> int \<Rightarrow> int list" where
  "fill_numbuf val base =
     (if base < 0 then rev (fill_digits lower_digits val (word_of_int (- base)))
      else rev (fill_digits upper_digits val (word_of_int base)))"

section \<open>Conversion specifications\<close>

datatype vararg = Arg_word u64 | Arg_string "int list"

definition FLAG_ALT :: u32 where [simp]: "FLAG_ALT = 1"
definition FLAG_ZERO :: u32 where [simp]: "FLAG_ZERO = 2"
definition FLAG_LEFTJUSTIFY :: u32 where [simp]: "FLAG_LEFTJUSTIFY = 4"
definition FLAG_SPACEPOSITIVE :: u32 where [simp]: "FLAG_SPACEPOSITIVE = 8"
definition FLAG_PLUSPOSITIVE :: u32 where [simp]: "FLAG_PLUSPOSITIVE = 16"
definition FLAG_NUMERIC :: u32 where [simp]: "FLAG_NUMERIC = 32"
definition FLAG_SIGNED :: u32 where [simp]: "FLAG_SIGNED = 64"
definition FLAG_NEGATIVE :: u32 where [simp]: "FLAG_NEGATIVE = 128"
definition FLAG_ALT2 :: u32 where [simp]: "FLAG_ALT2 = 256"

text \<open>The position of a character in \<open>flag_chars\<close>, the string \<open>#0- +\<close>.\<close>

definition flag_index :: "int \<Rightarrow> nat option" where
  "flag_index c =
     (if c = 35 then Some 0 else if c = 48 then Some 1 else if c = 45 then Some 2
      else if c = 32 then Some 3 else if c = 43 then Some 4 else None)"

fun parse_flags :: "int list \<Rightarrow> u32 \<Rightarrow> u32 \<times> int list" where
  "parse_flags [] flags = (flags, [])"
| "parse_flags (c # cs) flags =
     (case flag_index c of None \<Rightarrow> (flags, c # cs) | Some i \<Rightarrow> parse_flags cs (flags OR push_bit i 1))"

definition is_digit :: "int \<Rightarrow> bool" where
  "is_digit c \<longleftrightarrow> 48 \<le> c \<and> c \<le> 57"

fun parse_number :: "int list \<Rightarrow> int \<Rightarrow> int \<times> int list" where
  "parse_number [] n = (n, [])"
| "parse_number (c # cs) n = (if is_digit c then parse_number cs (10 * n + c - 48) else (n, c # cs))"

text \<open>\<open>va_arg\<close>: an \<open>int\<close> or \<open>unsigned\<close> argument is the low half of its slot.\<close>

fun arg_word :: "vararg list \<Rightarrow> (u64 \<times> vararg list) option" where
  "arg_word (Arg_word w # args) = Some (w, args)"
| "arg_word args = None"

fun arg_string :: "vararg list \<Rightarrow> (int list \<times> vararg list) option" where
  "arg_string (Arg_string s # args) = Some (s, args)"
| "arg_string args = None"

definition as_int :: "u64 \<Rightarrow> int" where
  "as_int w = sint (ucast w :: u32)"

definition parse_width :: "int list \<Rightarrow> vararg list \<Rightarrow> (int \<times> int list \<times> vararg list) option" where
  "parse_width f args =
     (if f \<noteq> [] \<and> 49 \<le> hd f \<and> hd f \<le> 57 then let (w, f') = parse_number f 0 in Some (w, f', args)
      else if f \<noteq> [] \<and> hd f = 42 then map_option (\<lambda>(w, args'). (as_int w, tl f, args')) (arg_word args)
      else Some (- 1, f, args))"

definition parse_precision :: "int list \<Rightarrow> vararg list \<Rightarrow> (int \<times> int list \<times> vararg list) option" where
  "parse_precision f args =
     (if f \<noteq> [] \<and> hd f = 46 then
        let f1 = tl f
        in map_option (\<lambda>(p, f2, args'). (if p < 0 then 0 else p, f2, args'))
             (if f1 \<noteq> [] \<and> is_digit (hd f1) then let (p, f2) = parse_number f1 0 in Some (p, f2, args)
              else if f1 \<noteq> [] \<and> hd f1 = 42 then map_option (\<lambda>(w, args'). (as_int w, tl f1, args')) (arg_word args)
              else Some (- 1, f1, args))
      else Some (- 1, f, args))"

definition parse_length :: "int list \<Rightarrow> bool \<times> int list" where
  "parse_length f =
     (if f \<noteq> [] \<and> (hd f = 108 \<or> hd f = 116 \<or> hd f = 122) then (True, tl f)
      else if f \<noteq> [] \<and> hd f = 104 then (False, tl f)
      else (False, f))"

text \<open>
  The main conversion: a number with its base, or text; \<open>Color\<close> is \<open>%C\<close>, which prints nothing.
  A format that ends inside a specification prints a percent sign and stays at its end.
\<close>

datatype conv = Num u64 int u32 | Text "int list" | Color u64

definition long_arg :: "bool \<Rightarrow> u64 \<Rightarrow> u64" where
  "long_arg long w = (if long then w else scast (ucast w :: u32))"

definition unsigned_arg :: "bool \<Rightarrow> u64 \<Rightarrow> u64" where
  "unsigned_arg long w = (if long then w else ucast (ucast w :: u32))"

definition char_text :: "int \<Rightarrow> int list" where
  "char_text c = (if c = 0 then [] else [c])"

definition conversion :: "bool \<Rightarrow> u32 \<Rightarrow> int list \<Rightarrow> vararg list \<Rightarrow> (conv \<times> int list \<times> vararg list) option" where
  "conversion long flags f args =
     (case f of
        [] \<Rightarrow> Some (Text [37], [], args)
      | c # cs \<Rightarrow>
          if c = 100 \<or> c = 105 then
            map_option (\<lambda>(w, args').
              let x = long_arg long w; neg = (sint x < 0)
              in (Num (if neg then - x else x) 10 (flags OR FLAG_NUMERIC OR FLAG_SIGNED OR (if neg then FLAG_NEGATIVE else 0)),
                  cs, args')) (arg_word args)
          else if c = 117 \<or> c = 120 \<or> c = 88 then
            map_option (\<lambda>(w, args').
              (Num (unsigned_arg long w) (if c = 120 then - 16 else if c = 88 then 16 else 10) (flags OR FLAG_NUMERIC),
               cs, args')) (arg_word args)
          else if c = 112 then
            map_option (\<lambda>(w, args'). (Num w (- 16) (flags OR FLAG_ALT OR FLAG_ALT2 OR FLAG_NUMERIC), cs, args')) (arg_word args)
          else if c = 115 then map_option (\<lambda>(s, args'). (Text s, cs, args')) (arg_string args)
          else if c = 67 then map_option (\<lambda>(w, args'). (Color w, cs, args')) (arg_word args)
          else if c = 99 then map_option (\<lambda>(w, args'). (Text (char_text (uint (ucast w :: u8))), cs, args')) (arg_word args)
          else Some (Text [c], cs, args))"

section \<open>Output of one conversion\<close>

definition num_prefix :: "u64 \<Rightarrow> int \<Rightarrow> u32 \<Rightarrow> int list" where
  "num_prefix num base flags =
     (if flags AND FLAG_SIGNED \<noteq> 0 then
        if flags AND FLAG_NEGATIVE \<noteq> 0 then [45]
        else if flags AND FLAG_PLUSPOSITIVE \<noteq> 0 then [43]
        else if flags AND FLAG_SPACEPOSITIVE \<noteq> 0 then [32] else []
      else if flags AND FLAG_ALT \<noteq> 0 \<and> (base = 16 \<or> base = - 16) \<and> (num \<noteq> 0 \<or> flags AND FLAG_ALT2 \<noteq> 0) then
        if base = - 16 then [48, 120] else [48, 88]
      else [])"

text \<open>
  Padding: \<open>data\<close> is cut to the precision by the caller; \<open>numeric\<close> tells a number from text.
  The order is spaces, prefix, zeros, data, spaces.
\<close>

definition pad_zeros :: "bool \<Rightarrow> u32 \<Rightarrow> int \<Rightarrow> int \<Rightarrow> nat \<Rightarrow> nat \<Rightarrow> nat" where
  "pad_zeros numeric flags width precision datalen prefixlen =
     (if numeric \<and> 0 \<le> precision then nat (precision - int datalen)
      else if numeric \<and> flags AND FLAG_ZERO \<noteq> 0 \<and> flags AND FLAG_LEFTJUSTIFY = 0
              \<and> int datalen + int prefixlen < width
        then nat (width - int datalen - int prefixlen)
      else 0)"

definition emit_field :: "bool \<Rightarrow> u32 \<Rightarrow> int \<Rightarrow> int \<Rightarrow> int list \<Rightarrow> int list \<Rightarrow> int list" where
  "emit_field numeric flags width precision prefix data =
     (let zeros = pad_zeros numeric flags width precision (length data) (length prefix);
          w = nat (width - int (length data + zeros + length prefix));
          spaces = replicate w 32
      in (if flags AND FLAG_LEFTJUSTIFY = 0 then spaces else [])
           @ prefix @ replicate zeros 48 @ data
           @ (if flags AND FLAG_LEFTJUSTIFY = 0 then [] else spaces))"

text \<open>One specification, after the percent sign: the output, the new colour, and what is left.\<close>

definition format_spec ::
  "int list \<Rightarrow> vararg list \<Rightarrow> u16 \<Rightarrow> ((int \<times> u16) list \<times> u16 \<times> int list \<times> vararg list) option" where
  "format_spec f args color =
     (let (flags, f1) = parse_flags f 0
      in Option.bind (parse_width f1 args) (\<lambda>(width, f2, args2).
         Option.bind (parse_precision f2 args2) (\<lambda>(precision, f3, args3).
           let (long, f4) = parse_length f3
           in map_option (\<lambda>(cv, f5, args5).
                case cv of
                  Color w \<Rightarrow> ([], ucast w, f5, args5)
                | Text s \<Rightarrow>
                    let data = (if 0 \<le> precision then take (nat precision) s else s)
                    in (map (\<lambda>c. (c, color)) (emit_field False flags width precision [] data), color, f5, args5)
                | Num num base fl \<Rightarrow>
                    (map (\<lambda>c. (c, color))
                       (emit_field True fl width precision (num_prefix num base fl) (fill_numbuf num base)),
                     color, f5, args5))
              (conversion long flags f4 args3))))"

lemma parse_flags_length: "length (snd (parse_flags f flags)) \<le> length f"
  by (induction f arbitrary: flags) (auto split: option.split intro: le_SucI)

lemma parse_number_length: "length (snd (parse_number f n)) \<le> length f"
  by (induction f arbitrary: n) (auto intro: le_SucI)

lemma parse_width_length: "parse_width f args = Some (w, f', args') \<Longrightarrow> length f' \<le> length f"
  using parse_number_length [of f 0] by (auto simp: parse_width_def split: if_splits prod.splits)

lemma parse_precision_length: "parse_precision f args = Some (w, f', args') \<Longrightarrow> length f' \<le> length f"
  using parse_number_length [of "tl f" 0]
  by (auto simp: parse_precision_def Let_def split: if_splits prod.splits)

lemma parse_length_length: "length (snd (parse_length f)) \<le> length f"
  by (auto simp: parse_length_def)

lemma conversion_length: "conversion long flags f args = Some (cv, f', args') \<Longrightarrow> length f' \<le> length f"
  by (auto simp: conversion_def Let_def split: list.splits if_splits)

lemma format_spec_length:
  assumes "format_spec f args color = Some (out, color', f', args')"
  shows "length f' \<le> length f"
proof -
  obtain flags f1 where 1: "parse_flags f 0 = (flags, f1)" by fastforce
  obtain w f2 a2 where 2: "parse_width f1 args = Some (w, f2, a2)"
    using assms 1 by (auto simp: format_spec_def bind_eq_Some_conv)
  obtain p f3 a3 where 3: "parse_precision f2 a2 = Some (p, f3, a3)"
    using assms 1 2 by (auto simp: format_spec_def bind_eq_Some_conv)
  obtain long f4 where 4: "parse_length f3 = (long, f4)" by fastforce
  obtain cv f5 a5 where 5: "conversion long flags f4 a3 = Some (cv, f5, a5)"
    using assms 1 2 3 4 by (auto simp: format_spec_def Let_def)
  then have "f5 = f'" using assms 1 2 3 4 by (cases cv) (auto simp: format_spec_def Let_def)
  note 5 = 5 [unfolded this]
  show ?thesis
    using parse_flags_length [of f 0] parse_width_length [OF 2] parse_precision_length [OF 3]
      parse_length_length [of f3] conversion_length [OF 5] 1 4 by simp
qed

function vprintf :: "u16 \<Rightarrow> int list \<Rightarrow> vararg list \<Rightarrow> (int \<times> u16) list option" where
  "vprintf color [] args = Some []"
| "vprintf color (c # f) args =
     (if c \<noteq> 37 then map_option ((#) (c, color)) (vprintf color f args)
      else case format_spec f args color of
          None \<Rightarrow> None
        | Some (out, color', f', args') \<Rightarrow> map_option ((@) out) (vprintf color' f' args'))"
  by pat_completeness auto
termination
  by (relation "measure (\<lambda>(c, f, a). length f)") (auto dest: format_spec_length)

section \<open>Printing to a buffer\<close>

text \<open>The buffer of \<open>sz\<close> bytes after the call, as a list, and the length of the whole output.\<close>

definition string_putc :: "nat \<Rightarrow> int list \<Rightarrow> int \<Rightarrow> int list" where
  "string_putc sz buf c = (if length buf < sz then buf @ [c] else buf)"

definition vsnprintf :: "nat \<Rightarrow> int list \<Rightarrow> vararg list \<Rightarrow> (int list \<times> nat) option" where
  "vsnprintf sz format args =
     map_option (\<lambda>out.
       let buf = foldl (string_putc sz) [] (map fst out)
       in (if sz = 0 then []
           else if length buf < sz then buf @ [0]
           else butlast buf @ [0], length out))
       (vprintf 0 format args)"

section \<open>The console\<close>

text \<open>
  The 25 rows of 80 character cells, and the cursor. A printer writes at a cell, and scrolls (or
  goes back to the first cell) when it is past the last one.
\<close>

definition CONSOLE_COLUMNS :: nat where [simp]: "CONSOLE_COLUMNS = 80"
definition CONSOLE_ROWS :: nat where [simp]: "CONSOLE_ROWS = 25"

record console =
  cells :: "u16 list"
  cursorpos :: int

definition console_clear :: "console \<Rightarrow> console" where
  "console_clear con = con\<lparr>cells := replicate (CONSOLE_ROWS * CONSOLE_COLUMNS) (32 OR 0x0700), cursorpos := 0\<rparr>"

record console_printer =
  cp_cells :: "u16 list"
  cp_cell :: nat
  cp_scroll :: bool

definition console_printer_new :: "console \<Rightarrow> int \<Rightarrow> bool \<Rightarrow> console_printer" where
  "console_printer_new con cpos scroll =
     \<lparr>cp_cells = cells con,
      cp_cell = (if cpos < 0 then nat (cursorpos con)
                 else if cpos \<le> int (CONSOLE_ROWS * CONSOLE_COLUMNS) then nat cpos else 0),
      cp_scroll = scroll\<rparr>"

definition cp_do_scroll :: "console_printer \<Rightarrow> console_printer" where
  "cp_do_scroll cp =
     (if cp_scroll cp then
        cp\<lparr>cp_cells := drop CONSOLE_COLUMNS (cp_cells cp) @ replicate CONSOLE_COLUMNS 0,
           cp_cell := cp_cell cp - CONSOLE_COLUMNS\<rparr>
      else cp\<lparr>cp_cell := 0\<rparr>)"

function cp_room :: "console_printer \<Rightarrow> console_printer" where
  "cp_room cp = (if CONSOLE_ROWS * CONSOLE_COLUMNS \<le> cp_cell cp then cp_room (cp_do_scroll cp) else cp)"
  by pat_completeness auto
termination by (relation "measure cp_cell") (auto simp: cp_do_scroll_def)

declare cp_room.simps [simp del]

definition cp_put :: "u16 \<Rightarrow> console_printer \<Rightarrow> console_printer" where
  "cp_put w cp = cp\<lparr>cp_cells := (cp_cells cp)[cp_cell cp := w], cp_cell := cp_cell cp + 1\<rparr>"

definition cp_putc :: "int \<times> u16 \<Rightarrow> console_printer \<Rightarrow> console_printer" where
  "cp_putc ch cp =
     (let (c, color) = ch;
          cp1 = cp_room cp
      in if c = 10 then (cp_put (32 OR color) ^^ (80 - cp_cell cp1 mod 80)) cp1
         else cp_put (word_of_int c OR color) cp1)"

text \<open>\<open>console_puts\<close> and \<open>console_vprintf\<close>: the final position, and the cursor moved if \<open>cpos < 0\<close>.\<close>

definition console_out :: "int \<Rightarrow> (int \<times> u16) list \<Rightarrow> console \<Rightarrow> nat \<times> console" where
  "console_out cpos out con =
     (let cp = fold cp_putc out (console_printer_new con cpos (cpos < 0))
      in (cp_cell cp, con\<lparr>cells := cp_cells cp, cursorpos := (if cpos < 0 then int (cp_cell cp) else cursorpos con)\<rparr>))"

definition console_puts :: "int \<Rightarrow> u16 \<Rightarrow> int list \<Rightarrow> console \<Rightarrow> nat \<times> console" where
  "console_puts cpos color s con = console_out cpos (map (\<lambda>c. (c, color)) s) con"

definition console_vprintf :: "int \<Rightarrow> u16 \<Rightarrow> int list \<Rightarrow> vararg list \<Rightarrow> console \<Rightarrow> (nat \<times> console) option" where
  "console_vprintf cpos color format args con =
     map_option (\<lambda>out. console_out cpos out con) (vprintf color format args)"

section \<open>The digits of a number\<close>

text \<open>The value of digits, the last one first.\<close>

fun value_of :: "nat \<Rightarrow> nat list \<Rightarrow> nat" where
  "value_of b [] = 0"
| "value_of b (d # ds) = d + b * value_of b ds"

text \<open>The digits as numbers, last one first.\<close>

function digit_values :: "nat \<Rightarrow> nat \<Rightarrow> nat list" where
  "digit_values v b = (if v div b \<noteq> 0 \<and> 2 \<le> b then v mod b # digit_values (v div b) b else [v mod b])"
  by pat_completeness auto
termination
proof (relation "measure fst", goal_cases)
  case (2 v b)
  then have "0 < v" by (cases v) auto
  then show ?case using 2 by (simp add: div_less_dividend)
qed simp

declare digit_values.simps [simp del]

lemma value_digit_values: "2 \<le> b \<Longrightarrow> value_of b (digit_values v b) = v"
proof (induction v b rule: digit_values.induct)
  case (1 v b)
  have "v mod b + b * (v div b) = v" by simp
  then show ?case using 1 by (cases "v div b = 0") (simp_all add: digit_values.simps [of v b])
qed

lemma digit_values_less: "2 \<le> b \<Longrightarrow> \<forall>d\<in>set (digit_values v b). d < b"
proof (induction v b rule: digit_values.induct)
  case (1 v b)
  then show ?case by (cases "v div b = 0") (simp_all add: digit_values.simps [of v b])
qed

lemma fill_digits_eq:
  assumes "2 \<le> base"
  shows "fill_digits digits val base = map (\<lambda>d. digits ! d) (digit_values (unat val) (unat base))"
  using assms
proof (induction digits val base rule: fill_digits.induct)
  case (1 digits val base)
  have u: "unat (val div base) = unat val div unat base" "unat (val mod base) = unat val mod unat base"
    by (simp_all add: unat_div_distrib unat_mod_distrib)
  have b: "2 \<le> unat base" using 1(2) by (simp add: word_le_nat_alt)
  show ?case
  proof (cases "val div base = 0")
    case True
    then have "unat val div unat base = 0" using u(1) by simp
    then show ?thesis using True u(2)
      by (subst fill_digits.simps, subst digit_values.simps) (simp add: Let_def)
  next
    case False
    then have "unat val div unat base \<noteq> 0" using u(1) by (simp add: unat_eq_0 flip: u(1))
    then show ?thesis using 1(1) [OF refl refl] False 1(2) u b
      by (subst fill_digits.simps, subst digit_values.simps) (simp add: Let_def)
  qed
qed

section \<open>Reading a printed number\<close>

abbreviation horner :: "nat \<Rightarrow> nat \<Rightarrow> nat list \<Rightarrow> nat" where
  "horner b n ds \<equiv> foldl (\<lambda>x d. x * b + d) n ds"

lemma horner_ge: "1 \<le> b \<Longrightarrow> n \<le> horner b n ds"
proof (induction ds arbitrary: n)
  case (Cons d ds)
  then have "n * b + d \<le> horner b (n * b + d) ds" by blast
  moreover have "n \<le> n * b" using Cons.prems by simp
  ultimately have "n \<le> horner b (n * b + d) ds" by linarith
  then show ?case by simp
qed simp

lemma horner_value: "horner b 0 (rev ds) = value_of b ds"
  by (induction ds) (simp_all add: mult.commute)

lemma overflow_check:
  fixes x b d :: u64
  assumes "2 \<le> unat b" "unat x * unat b + unat d < 2 ^ 64"
  shows "\<not> (- 1 - d) div b < x" "unat (x * b + d) = unat x * unat b + unat d"
proof -
  have "unat (- 1 :: u64) = 2 ^ 64 - 1" by (simp add: unsigned_minus_1_eq_mask mask_eq_exp_minus_1)
  moreover have "d \<le> - 1" by simp
  ultimately have u: "unat (- 1 - d) = 2 ^ 64 - 1 - unat d" by (simp only: unat_sub_le)
  have "unat x * unat b \<le> 2 ^ 64 - 1 - unat d" using assms(2) by linarith
  then have "unat x \<le> (2 ^ 64 - 1 - unat d) div unat b" using assms(1) by (simp add: less_eq_div_iff_mult_less_eq)
  then show "\<not> (- 1 - d) div b < x" by (simp only: not_less word_le_nat_alt unat_div_distrib u)
  show "unat (x * b + d) = unat x * unat b + unat d" using assms(2) by (simp add: unat_word_ariths)
qed

text \<open>The printed digits: \<open>digits\<close> at \<open>d\<close> reads back as \<open>d\<close>.\<close>

definition reads_back :: "int list \<Rightarrow> int \<Rightarrow> bool" where
  "reads_back digits base \<longleftrightarrow> (\<forall>d < nat base. digit_of base (digits ! d) = Some (of_nat d)
     \<and> 48 \<le> digits ! d \<and> digits ! d \<noteq> 120 \<and> digits ! d \<noteq> 88)"

lemma all_below: "(\<forall>d < n. P d) \<longleftrightarrow> list_all P [0..<n]"
  by (auto simp: list_all_iff)

lemma reads_back_digits [simp]:
  "reads_back upper_digits 10" "reads_back upper_digits 16" "reads_back lower_digits 16"
  unfolding reads_back_def all_below
  by (simp_all add: upt_conv_Cons_Cons upt_rec digit_of_def upper_digits_def lower_digits_def)

lemma strtoul_loop_digits:
  assumes "reads_back digits base" "2 \<le> base" "base < 2 ^ 32" "\<forall>d\<in>set ds. d < nat base"
    and "horner (nat base) (unat x) ds < 2 ^ 64"
  shows "strtoul_loop (map ((!) digits) ds) base x False = (of_nat (horner (nat base) (unat x) ds), False, [])"
  using assms(4,5)
proof (induction ds arbitrary: x)
  case (Cons d ds)
  have b: "unat (word_of_int base :: u64) = nat base"
    using assms(2,3) by (simp add: unsigned_of_int take_bit_int_eq_self nat_take_bit_eq)
  have "nat base < 2 ^ 32" using assms(2,3) by simp
  then have d: "unat (of_nat d :: u64) = d" using Cons.prems(1) by (intro unat_of_nat_small) simp
  have le: "unat x * nat base + d \<le> horner (nat base) (unat x) (d # ds)"
    using horner_ge [of "nat base" "unat x * nat base + d" ds] assms(2) by simp
  have ov: "unat x * unat (word_of_int base :: u64) + unat (of_nat d :: u64) < 2 ^ 64"
    using le Cons.prems(2) unfolding b d by linarith
  have b2: "2 \<le> unat (word_of_int base :: u64)" unfolding b using assms(2) by simp
  note o = overflow_check [OF b2 ov]
  have "digit_of base (digits ! d) = Some (of_nat d)" using assms(1) Cons.prems(1) by (simp add: reads_back_def)
  then have "strtoul_loop (map ((!) digits) (d # ds)) base x False =
      strtoul_loop (map ((!) digits) ds) base (x * word_of_int base + of_nat d) False"
    using o(1) by simp
  also have "\<dots> = (of_nat (horner (nat base) (unat x) (d # ds)), False, [])"
    using Cons.IH [of "x * word_of_int base + of_nat d"] Cons.prems o(2) by (simp add: b d)
  finally show ?case .
qed simp

lemma strtoul_digits:
  assumes "reads_back digits base" "base = 10 \<or> base = 16" "b = word_of_int base"
  shows "strtoul_loop (rev (fill_digits digits v b)) base 0 False = (v, False, [])"
    and "\<exists>d ds. rev (fill_digits digits v b) = map ((!) digits) (d # ds) \<and> (\<forall>e\<in>set (d # ds). e < nat base)
      \<and> (v = 0 \<longrightarrow> d = 0 \<and> ds = [])"
proof -
  have b: "unat b = nat base" "2 \<le> b" using assms(2,3) by (auto simp: word_le_nat_alt)
  have f: "rev (fill_digits digits v b) = map ((!) digits) (rev (digit_values (unat v) (nat base)))"
    using fill_digits_eq [OF b(2)] b(1) by (simp add: rev_map)
  have small: "\<forall>d\<in>set (rev (digit_values (unat v) (nat base))). d < nat base"
    using digit_values_less [of "nat base" "unat v"] assms(2) by auto
  have val: "horner (nat base) (unat (0 :: u64)) (rev (digit_values (unat v) (nat base))) = unat v"
    using value_digit_values [of "nat base" "unat v"] assms(2) by (auto simp: horner_value)
  have "unat v < 2 ^ 64" using unsigned_less [of v, where 'a = nat] by simp
  then show "strtoul_loop (rev (fill_digits digits v b)) base 0 False = (v, False, [])"
    unfolding f using strtoul_loop_digits [OF assms(1) _ _ small, of 0] assms(2) val by auto
  obtain d ds where r: "rev (digit_values (unat v) (nat base)) = d # ds"
    by (cases "rev (digit_values (unat v) (nat base))") (simp_all add: digit_values.simps [of "unat v" "nat base"] split: if_splits)
  have "v = 0 \<longrightarrow> d = 0 \<and> ds = []" using r by (auto simp: digit_values.simps [of 0])
  then show "\<exists>d ds. rev (fill_digits digits v b) = map ((!) digits) (d # ds) \<and> (\<forall>e\<in>set (d # ds). e < nat base)
      \<and> (v = 0 \<longrightarrow> d = 0 \<and> ds = [])"
    using f small r by metis
qed

lemma print_reads_back:
  "\<exists>out. vprintf color [37, 108, 117] [Arg_word v] = Some out \<and> strtoul (map fst out) 10 = (v, [])"
  "\<exists>out. vprintf color [37, 35, 108, 120] [Arg_word v] = Some out \<and> strtoul (map fst out) 0 = (v, [])"
proof -
  let ?d = "rev (fill_digits upper_digits v 10)" and ?x = "rev (fill_digits lower_digits v 16)"
  have lead: "\<not> lib_isspace c \<and> c \<noteq> 45 \<and> c \<noteq> 43" if "48 \<le> c" for c using that by (auto simp: lib_isspace_def)
  have "vprintf color [37, 108, 117] [Arg_word v] = Some (map (\<lambda>c. (c, color)) ?d)"
    by (simp add: format_spec_def flag_index_def parse_width_def parse_precision_def parse_length_def is_digit_def
        conversion_def unsigned_arg_def emit_field_def pad_zeros_def num_prefix_def fill_numbuf_def)
  moreover have "strtoul ?d 10 = (v, [])"
  proof -
    obtain d ds where "?d = upper_digits ! d # map ((!) upper_digits) ds" "d < 10"
      using strtoul_digits(2) [of upper_digits 10 10 v] by auto
    moreover have "48 \<le> upper_digits ! d" using \<open>d < 10\<close> reads_back_digits(1) by (simp add: reads_back_def del: reads_back_digits)
    ultimately show ?thesis using strtoul_digits(1) [of upper_digits 10 10 v] lead
      by (simp add: strtoul_def strtoul_base_def peek_def Let_def)
  qed
  ultimately show "\<exists>out. vprintf color [37, 108, 117] [Arg_word v] = Some out \<and> strtoul (map fst out) 10 = (v, [])"
    by (simp add: comp_def)
  have "vprintf color [37, 35, 108, 120] [Arg_word v] =
      Some (map (\<lambda>c. (c, color)) ((if v = 0 then [] else [48, 120]) @ ?x))"
    by (simp add: format_spec_def flag_index_def parse_width_def parse_precision_def parse_length_def is_digit_def
        conversion_def unsigned_arg_def emit_field_def pad_zeros_def num_prefix_def fill_numbuf_def)
  moreover have "strtoul ((if v = 0 then [] else [48, 120]) @ ?x) 0 = (v, [])"
  proof (cases "v = 0")
    case True
    have "?x = [48]" unfolding True by (simp add: fill_digits.simps lower_digits_def)
    then show ?thesis unfolding True
      by (simp add: strtoul_def strtoul_base_def strip_0x_def peek_def digit_of_def lib_isspace_def)
  next
    case False
    have "strtoul_base (48 # 120 # ?x) 0 = (16, ?x)"
      by (simp add: strtoul_base_def strip_0x_def peek_def)
    then show ?thesis using False strtoul_digits(1) [of lower_digits 16 16 v] lead [of 48]
      by (simp add: strtoul_def peek_def)
  qed
  ultimately show "\<exists>out. vprintf color [37, 35, 108, 120] [Arg_word v] = Some out \<and> strtoul (map fst out) 0 = (v, [])"
    by (simp add: comp_def)
qed

text \<open>
  C29: Printing a number and reading it back gives the number: \<open>strtoul\<close> in base 10 reads what
  \<open>%lu\<close> prints, and \<open>strtoul\<close> with the base left open reads what \<open>%#lx\<close> prints, for every 64-bit
  value, and both consume the whole text.
\<close>

theorem print_strtoul:
  "(\<exists>out. vprintf color [37, 108, 117] [Arg_word v] = Some out \<and> strtoul (map fst out) 10 = (v, [])) \<and>
   (\<exists>out. vprintf color [37, 35, 108, 120] [Arg_word v] = Some out \<and> strtoul (map fst out) 0 = (v, []))"
  using print_reads_back [of color v] by blast

section \<open>The console stays in bounds\<close>

definition console_ok :: "console \<Rightarrow> bool" where
  "console_ok con \<longleftrightarrow> length (cells con) = 2000 \<and> 0 \<le> cursorpos con \<and> cursorpos con \<le> 2000"

definition cp_ok :: "console_printer \<Rightarrow> bool" where
  "cp_ok cp \<longleftrightarrow> length (cp_cells cp) = 2000 \<and> cp_cell cp \<le> 2000"

lemma cp_room_ok: "cp_ok cp \<Longrightarrow> cp_ok (cp_room cp) \<and> cp_cell (cp_room cp) < 2000"
proof (induction cp rule: cp_room.induct)
  case (1 cp)
  show ?case
  proof (cases "CONSOLE_ROWS * CONSOLE_COLUMNS \<le> cp_cell cp")
    case True
    then have "cp_ok (cp_do_scroll cp)" using 1(2) by (simp add: cp_ok_def cp_do_scroll_def)
    then show ?thesis using 1(1) [OF True] True by (simp add: cp_room.simps [of cp])
  next
    case False then show ?thesis using 1(2) by (simp add: cp_room.simps [of cp])
  qed
qed

lemma cp_puts_ok:
  "length (cp_cells cp) = 2000 \<Longrightarrow> length (cp_cells ((cp_put w ^^ k) cp)) = 2000 \<and> cp_cell ((cp_put w ^^ k) cp) = cp_cell cp + k"
  by (induction k) (simp_all add: cp_put_def)

lemma cp_putc_ok: "cp_ok cp \<Longrightarrow> cp_ok (cp_putc ch cp)"
proof -
  assume "cp_ok cp"
  note r = cp_room_ok [OF this]
  obtain c color where ch: "ch = (c, color)" by (cases ch)
  have "cp_cell (cp_room cp) + (80 - cp_cell (cp_room cp) mod 80) \<le> 2000"
  proof -
    obtain q where q: "cp_cell (cp_room cp) = 80 * q + cp_cell (cp_room cp) mod 80"
      by (metis mult_div_mod_eq)
    moreover have "cp_cell (cp_room cp) mod 80 < 80" by simp
    moreover have "q < 25" using q r by linarith
    ultimately show ?thesis by linarith
  qed
  then show ?thesis using r cp_puts_ok [of "cp_room cp" "80 - cp_cell (cp_room cp) mod 80" "32 OR color"]
    by (simp add: ch cp_putc_def cp_ok_def Let_def cp_put_def)
qed

text \<open>
  Printing never leaves the console: whatever is printed and wherever it starts, the cells
  keep their number and the final position and the cursor stay within the 25 rows, since every
  character first makes room by scrolling or by going back to the top.
\<close>

theorem console_out_ok:
  assumes "console_ok con" "console_out cpos out con = (pos, con')"
  shows "console_ok con' \<and> pos \<le> 2000"
proof -
  have start: "cp_ok (console_printer_new con cpos s)" for s
    using assms(1) by (auto simp: console_ok_def cp_ok_def console_printer_new_def)
  have "cp_ok (fold cp_putc xs cp)" if "cp_ok cp" for xs cp
    using that by (induction xs arbitrary: cp) (simp_all add: cp_putc_ok)
  then have "cp_ok (fold cp_putc out (console_printer_new con cpos (cpos < 0)))" using start by blast
  then show ?thesis using assms by (auto simp: console_out_def console_ok_def cp_ok_def Let_def)
qed

theorem console_out_ok_witness:
  "\<exists>pos con'. console_out (- 1) [(65, 0x0700), (10, 0x0700)] \<lparr>cells = replicate 2000 0, cursorpos = 2000\<rparr> = (pos, con')
     \<and> console_ok con' \<and> pos \<le> 2000"
proof -
  obtain pos con' where c: "console_out (- 1) [(65, 0x0700), (10, 0x0700)] \<lparr>cells = replicate 2000 0, cursorpos = 2000\<rparr> = (pos, con')"
    by fastforce
  show ?thesis using c console_out_ok [OF _ c] by (simp add: console_ok_def)
qed

end
