(* ===== verification/KProc.thy ===== *)
theory KProc
  imports KLoader KPrint
begin

text \<open>
  The state of the kernel (\<open>pset3/kernel.hh\<close>, the globals and function statics of \<open>kernel.cc\<close> and
  \<open>k-memviewer.cc\<close>): process descriptors, the current process, the clock, the memory viewer's
  variables, the console and the keyboard. Process descriptors are kernel data, which the page
  allocator never hands out, so they are kept beside the memory. Output-only devices (the
  parallel port log, the hardware cursor, interrupt controllers) have no state here.
\<close>

definition P_FREE :: nat where [simp]: "P_FREE = 0"
definition P_RUNNABLE :: nat where [simp]: "P_RUNNABLE = 1"
definition P_BLOCKED :: nat where [simp]: "P_BLOCKED = 2"
definition P_BROKEN :: nat where [simp]: "P_BROKEN = 3"
definition NPROC :: nat where [simp]: "NPROC = 16"
definition PROC_START_ADDR :: u64 where [simp]: "PROC_START_ADDR = 0x100000"
definition MEMSIZE_VIRTUAL :: u64 where [simp]: "MEMSIZE_VIRTUAL = 0x300000"
definition CONSOLE_ADDR :: u64 where [simp]: "CONSOLE_ADDR = 0xB8000"
definition HZ :: u64 where [simp]: "HZ = 100"

definition SYSCALL_GETPID :: u64 where [simp]: "SYSCALL_GETPID = 1"
definition SYSCALL_YIELD :: u64 where [simp]: "SYSCALL_YIELD = 2"
definition SYSCALL_PANIC :: u64 where [simp]: "SYSCALL_PANIC = 3"
definition SYSCALL_PAGE_ALLOC :: u64 where [simp]: "SYSCALL_PAGE_ALLOC = 4"
definition SYSCALL_FORK :: u64 where [simp]: "SYSCALL_FORK = 5"
definition SYSCALL_EXIT :: u64 where [simp]: "SYSCALL_EXIT = 6"
definition SYSCALL_KILL :: u64 where [simp]: "SYSCALL_KILL = 7"

record proc =
  p_pagetable :: u64
  p_pid :: int
  p_state :: nat
  p_regs :: regstate

text \<open>The constants of the link: addresses of kernel objects.\<close>

record kernel =
  km :: kmem
  ptable :: "proc list"
  current :: nat
  ticks :: u64
  last_ticks :: u32
  showing :: nat
  mu_v :: u64
  con :: console
  kbd :: keyboard
  kernel_pagetable :: u64
  exception_entry :: u64

abbreviation upd_proc :: "nat \<Rightarrow> (proc \<Rightarrow> proc) \<Rightarrow> kernel \<Rightarrow> kernel" where
  "upd_proc pid f k \<equiv> k\<lparr>ptable := (ptable k)[pid := f (ptable k ! pid)]\<rparr>"

abbreviation kphys :: "kernel \<Rightarrow> mem" where
  "kphys k \<equiv> phys (km k)"

abbreviation upd_phys :: "(mem \<Rightarrow> mem) \<Rightarrow> kernel \<Rightarrow> kernel" where
  "upd_phys f k \<equiv> k\<lparr>km := (km k)\<lparr>phys := f (kphys k)\<rparr>\<rparr>"

definition init_process :: "nat \<Rightarrow> u32 \<Rightarrow> kernel \<Rightarrow> kernel" where
  "init_process pid flags k = upd_proc pid (\<lambda>p. p\<lparr>p_regs := init_regs flags\<rparr>) k"

text \<open>
  What becomes of a call that does not return to its caller: a process runs (\<open>exception_return\<close>),
  a value is returned to the current process, the machine reboots or is switched off, or the
  kernel panics.
\<close>

datatype kresult = Run kernel | Return u64 kernel | SoftReboot string | PowerOff | Panic

definition or_panic :: "kresult option \<Rightarrow> kresult" where
  "or_panic r = (case r of None \<Rightarrow> Panic | Some x \<Rightarrow> x)"

end
