(* ===== verification/MemView.thy ===== *)
theory MemView
  imports KProc
begin

text \<open>
  The memory viewer (\<open>pset3/k-memviewer.cc\<close>). It keeps one page of 1024 words, one per physical
  page, with the owners of the page as flag bits; \<open>refresh\<close> recomputes them by walking every page
  table, and the pictures of physical and virtual memory are drawn from them.
\<close>

section \<open>The usage map\<close>

definition maxpa :: u64 where [simp]: "maxpa = 0x400000"
definition max_view_pa :: u64 where [simp]: "max_view_pa = 0x200000"
definition max_view_va :: u64 where [simp]: "max_view_va = 0x300000"
definition f_kernel :: u32 where [simp]: "f_kernel = 1"
definition f_user :: u32 where [simp]: "f_user = 2"

definition f_process :: "int \<Rightarrow> u32" where
  "f_process pid = (if 30 \<le> pid then push_bit 31 2 else if 1 \<le> pid then push_bit (nat pid) 2 else 0)"

definition st32 :: "mem \<Rightarrow> u64 \<Rightarrow> u32 \<Rightarrow> mem" where
  "st32 m a v = (\<lambda>x. if in_rng a 4 x then ucast (drop_bit (8 * unat (x - a)) v) else m x)"

definition usage_addr :: "u64 \<Rightarrow> u64 \<Rightarrow> u64" where
  "usage_addr v pa = v + 4 * (pa div PAGESIZE)"

definition mark :: "u64 \<Rightarrow> u64 \<Rightarrow> u32 \<Rightarrow> mem \<Rightarrow> mem" where
  "mark v pa flags m =
     (if pa < maxpa then st32 m (usage_addr v pa) (ld32 m (usage_addr v pa) OR flags) else m)"

definition marked_pid :: "u32 \<Rightarrow> nat" where
  "marked_pid v = lib_lsb (drop_bit 2 v)"

text \<open>The page tables of one tree, then the pages its user can reach.\<close>

partial_function (option) mark_tables :: "u64 \<Rightarrow> u32 \<Rightarrow> mem \<Rightarrow> ptiter \<Rightarrow> mem option" where
  "mark_tables v flags m it =
     (if pt_active it then
        let m1 = mark v (pt_pa m it) flags m
        in Option.bind (pt_next m1 it) (\<lambda>it1. mark_tables v flags m1 it1)
      else Some m)"

partial_function (option) mark_user :: "u64 \<Rightarrow> u32 \<Rightarrow> mem \<Rightarrow> vmiter \<Rightarrow> mem option" where
  "mark_user v flags m it =
     (if vm_low it then
        if vm_user m it then
          let m1 = mark v (vm_pa m it) flags m
          in Option.bind (vm_next m1 it) (\<lambda>it1. mark_user v flags m1 it1)
        else Option.bind (vm_next_range m it) (\<lambda>it1. mark_user v flags m it1)
      else Some m)"

definition visible_proc :: "kernel \<Rightarrow> nat \<Rightarrow> bool" where
  "visible_proc k pid \<longleftrightarrow> p_state (ptable k ! pid) \<noteq> P_FREE \<and> p_pagetable (ptable k ! pid) \<noteq> 0
     \<and> p_pagetable (ptable k ! pid) \<noteq> kernel_pagetable k"

definition mark_proc :: "kernel \<Rightarrow> u64 \<Rightarrow> nat \<Rightarrow> mem \<Rightarrow> mem option" where
  "mark_proc k v pid m =
     (let pt = p_pagetable (ptable k ! pid)
      in Option.bind (ptiter_new m pt 0) (\<lambda>pit.
         Option.bind (mark_tables v (f_kernel OR f_process (int pid)) m pit) (\<lambda>m1.
         let m2 = mark v pt (f_kernel OR f_process (int pid)) m1
         in Option.bind (vmiter_new m2 pt 0) (\<lambda>vit. mark_user v (f_user OR f_process (int pid)) m2 vit))))"

fun mark_procs :: "kernel \<Rightarrow> u64 \<Rightarrow> nat list \<Rightarrow> bool \<Rightarrow> mem \<Rightarrow> (bool \<times> mem) option" where
  "mark_procs k v [] found m = Some (found, m)"
| "mark_procs k v (pid # pids) found m =
     (if visible_proc k pid then Option.bind (mark_proc k v pid m) (mark_procs k v pids True)
      else mark_procs k v pids found m)"

text \<open>Without a process page table, the owner of a page is guessed from its address.\<close>

partial_function (option) mark_physical :: "u8 list \<Rightarrow> u64 \<Rightarrow> mem \<Rightarrow> vmiter \<Rightarrow> mem option" where
  "mark_physical pgs v m it =
     (if vm_low it then
        if vm_user m it \<and> vm_pa m it < MEMSIZE_PHYSICAL \<and> used (pgs ! page_no (vm_pa m it)) then
          let owner = (ucast ((vm_pa m it - PROC_START_ADDR) div 0x40000) :: u32);
              m1 = mark v (vm_pa m it) (f_user OR f_process (sint (owner + 1))) m
          in Option.bind (vm_next m1 it) (\<lambda>it1. mark_physical pgs v m1 it1)
        else Option.bind (vm_next_range m it) (\<lambda>it1. mark_physical pgs v m it1)
      else Some m)"

definition refresh_map :: "kernel \<Rightarrow> u64 \<Rightarrow> mem \<Rightarrow> mem option" where
  "refresh_map k v m =
     (let m0 = mem_fill m v 0 4096; kp = kernel_pagetable k
      in Option.bind (ptiter_new m0 kp 0) (\<lambda>pit.
         Option.bind (mark_tables v f_kernel m0 pit) (\<lambda>m1.
         Option.bind (mark_procs k v [1..<NPROC] False (mark v kp f_kernel m1)) (\<lambda>(found, m2).
         if found then Some (mark v v f_kernel m2)
         else Option.bind (vmiter_new m2 kp 0) (mark_physical (pages (km k)) v m2)))))"

definition refresh :: "kernel \<Rightarrow> kernel option" where
  "refresh k =
     (let (v, s) = (if mu_v k = 0 then kalloc PAGESIZE (km k) else (mu_v k, km k))
      in if v = 0 then None
         else let k1 = k\<lparr>mu_v := v, km := s\<rparr>
              in map_option (\<lambda>m. k1\<lparr>km := s\<lparr>phys := m\<rparr>\<rparr>) (refresh_map k1 v (phys s)))"

section \<open>Symbols\<close>

text \<open>A page error that \<open>symbol_at\<close> reports: its address, description and process.\<close>

datatype page_report = Page_error u64 string nat

definition owner_names :: string where
  "owner_names = ''K123456789ABCDEFGHIJKLMNOPQRST??''"

definition owner_colors :: "u16 list" where
  "owner_colors = [0xF, 0xC, 0xA, 0x9, 0xE]"

abbreviation chr16 :: "char \<Rightarrow> u16" where
  "chr16 c \<equiv> of_char c"

definition owner_symbol :: "u32 \<Rightarrow> u16" where
  "owner_symbol v =
     (let pid = marked_pid v;
          ch = push_bit 8 (owner_colors ! (pid mod 5));
          ch1 = (if v AND f_kernel \<noteq> 0 then ch OR 0x4000 else ch)
      in if f_process (int pid) OR f_kernel OR f_user < v then 0x0F00 OR chr16 (CHR ''S'')
         else ch1 OR chr16 (owner_names ! pid))"

definition symbol_at :: "u64 \<Rightarrow> mem \<Rightarrow> u64 \<Rightarrow> u64 \<Rightarrow> u16 \<times> page_report option" where
  "symbol_at kend m vpage pa =
     (let is_reserved = reserved_physical_address pa;
          is_kernel = (\<not> is_reserved \<and> \<not> allocatable_physical_address kend pa)
      in if maxpa \<le> pa then
           (if is_kernel then chr16 (CHR ''K'') OR 0x4000
            else if is_reserved then chr16 (CHR ''?'') OR 0x4000
            else chr16 (CHR ''?'') OR 0xF000, None)
         else
           let v = ld32 m (usage_addr vpage pa)
           in if CONSOLE_ADDR \<le> pa \<and> pa < CONSOLE_ADDR + PAGESIZE then (chr16 (CHR ''C'') OR 0x0700, None)
              else if is_reserved \<and> f_kernel OR f_user < v then
                (chr16 (CHR ''R'') OR 0x0C00, Some (Page_error pa ''reserved page mapped for user'' (marked_pid v)))
              else if is_reserved then (chr16 (CHR ''R'') OR 0x0700, None)
              else if is_kernel \<and> f_kernel OR f_user < v then
                (chr16 (CHR ''K'') OR 0xCD00, Some (Page_error pa ''kernel data page mapped for user'' (marked_pid v)))
              else if is_kernel then (chr16 (CHR ''K'') OR 0x0D00, None)
              else if MEMSIZE_PHYSICAL \<le> pa then (chr16 (CHR '' '') OR 0x0700, None)
              else if v = 0 then (chr16 (CHR ''.'') OR 0x0700, None)
              else if v = f_kernel then (chr16 (CHR ''K'') OR 0x0D00, None)
              else if v = f_user then (chr16 (CHR ''.'') OR 0x0700, None)
              else if v AND f_kernel \<noteq> 0 \<and> v AND f_user \<noteq> 0 then
                (chr16 (CHR ''*'') OR 0xF400,
                 Some (Page_error pa ''kernel allocated page mapped for user'' (marked_pid v)))
              else (owner_symbol v, None))"

section \<open>Drawing\<close>

definition codes :: "string \<Rightarrow> int list" where
  "codes s = map of_char s"

definition CPOS :: "nat \<Rightarrow> nat \<Rightarrow> nat" where
  "CPOS row col = row * 80 + col"

definition console_printf :: "nat \<Rightarrow> u16 \<Rightarrow> string \<Rightarrow> vararg list \<Rightarrow> console \<Rightarrow> console option" where
  "console_printf cpos color format args c =
     map_option snd (console_vprintf (int cpos) color (codes format) args c)"

definition set_cell :: "nat \<Rightarrow> u16 \<Rightarrow> console \<Rightarrow> console" where
  "set_cell i ch c = c\<lparr>cells := (cells c)[i := ch]\<rparr>"

text \<open>The process number is never negative, so the message names it.\<close>

definition page_error :: "page_report option \<Rightarrow> console \<Rightarrow> console option" where
  "page_error e c =
     (case e of None \<Rightarrow> Some c
      | Some (Page_error pa desc pid) \<Rightarrow>
          console_printf (CPOS 22 0) 0xC000 (''PAGE TABLE ERROR: %lx: %s (pid %d)'' @ [CHR 0x0A])
            [Arg_word pa, Arg_string (codes desc), Arg_word (of_nat pid)] c)"

text \<open>The cell of a mapped page: foreground and background are swapped for user pages.\<close>

definition swap_colors :: "u16 \<Rightarrow> u16" where
  "swap_colors ch = (let z = (ch AND 0x0F00) XOR drop_bit 4 (ch AND 0xF000) in ch XOR (z OR push_bit 4 z))"

partial_function (option) draw_virtual :: "u64 \<Rightarrow> mem \<Rightarrow> u64 \<Rightarrow> vmiter \<Rightarrow> console \<Rightarrow> console option" where
  "draw_virtual kend m v it c =
     (if it_va it < max_view_va then
        let pn = unat (it_va it div PAGESIZE);
            sym = (if vm_present m it then symbol_at kend m v (vm_pa m it) else (chr16 (CHR '' ''), None));
            ch = (if vm_present m it \<and> vm_user m it then swap_colors (fst sym) else fst sym)
        in Option.bind (if pn mod 64 = 0
                        then console_printf (CPOS (11 + pn div 64) 3) 0x0F00 ''0x%06X '' [Arg_word (it_va it)] c
                        else Some c) (\<lambda>c1.
           Option.bind (page_error (snd sym) c1) (\<lambda>c2.
           Option.bind (vm_add m it PAGESIZE) (\<lambda>it1.
             draw_virtual kend m v it1 (set_cell (CPOS (11 + pn div 64) (12 + pn mod 64)) ch c2))))
      else Some c)"

fun draw_physical :: "u64 \<Rightarrow> mem \<Rightarrow> u64 \<Rightarrow> nat list \<Rightarrow> console \<Rightarrow> console option" where
  "draw_physical kend m v [] c = Some c"
| "draw_physical kend m v (pn # pns) c =
     (let (ch, err) = symbol_at kend m v (of_nat pn * PAGESIZE)
      in Option.bind (if pn mod 64 = 0
                      then console_printf (CPOS (1 + pn div 64) 3) 0x0F00 ''0x%06X '' [Arg_word (push_bit 12 (of_nat pn))] c
                      else Some c) (\<lambda>c1.
         Option.bind (page_error err c1) (\<lambda>c2.
           draw_physical kend m v pns (set_cell (CPOS (1 + pn div 64) (12 + pn mod 64)) ch c2))))"

definition console_memviewer_virtual :: "kernel \<Rightarrow> nat \<Rightarrow> console \<Rightarrow> console option" where
  "console_memviewer_virtual k pid c =
     Option.bind (console_printf (CPOS 10 26) 0x0F00 (''VIRTUAL ADDRESS SPACE FOR %d'' @ [CHR 0x0A])
                    [Arg_word (word_of_int (p_pid (ptable k ! pid)))] c) (\<lambda>c1.
     Option.bind (vmiter_new (kphys k) (p_pagetable (ptable k ! pid)) 0) (\<lambda>it.
       draw_virtual (kernel_end (km k)) (kphys k) (mu_v k) it c1))"

definition console_memviewer :: "kernel \<Rightarrow> nat option \<Rightarrow> kernel option" where
  "console_memviewer k vmp =
     (if p_state (ptable k ! 0) \<noteq> P_FREE then None
      else Option.bind (refresh k) (\<lambda>k1.
        Option.bind (console_printf (CPOS 0 32) 0x0F00 (''PHYSICAL MEMORY'' @ [CHR 0x0A]) [] (con k1)) (\<lambda>c1.
        Option.bind (draw_physical (kernel_end (km k1)) (kphys k1) (mu_v k1) [0..<512] c1) (\<lambda>c2.
        map_option (\<lambda>c3. k1\<lparr>con := c3\<rparr>)
          (case vmp of
             Some pid \<Rightarrow>
               if p_pagetable (ptable k1 ! pid) \<noteq> 0 then console_memviewer_virtual k1 pid c2
               else console_printf (CPOS 10 0) 0x0F00 (replicate 13 (CHR 0x0A)) [] c2
           | None \<Rightarrow> console_printf (CPOS 10 0) 0x0F00 (replicate 13 (CHR 0x0A)) [] c2)))))"

section \<open>\<open>memshow\<close> of \<open>kernel.cc\<close>\<close>

fun find_shown :: "kernel \<Rightarrow> nat \<Rightarrow> nat \<Rightarrow> nat \<times> nat option" where
  "find_shown k s 0 = (s, None)"
| "find_shown k s (Suc n) =
     (if p_state (ptable k ! s) \<noteq> P_FREE \<and> p_pagetable (ptable k ! s) \<noteq> 0 then (s, Some s)
      else find_shown k ((s + 1) mod NPROC) n)"

definition memshow :: "kernel \<Rightarrow> kernel option" where
  "memshow k =
     (let k1 = (if last_ticks k = 0 \<or> HZ div 2 \<le> ticks k - ucast (last_ticks k)
                then k\<lparr>last_ticks := ucast (ticks k), showing := (showing k + 1) mod NPROC\<rparr> else k);
          (s, p) = find_shown k1 (showing k1) NPROC
      in console_memviewer (k1\<lparr>showing := s\<rparr>) p)"

end
