(* ===== verification/Kernel.thy ===== *)
theory Kernel
  imports MemView PtIter
begin

text \<open>
  The kernel proper (\<open>pset3/kernel.cc\<close>): starting processes, \<open>fork\<close>, \<open>exit\<close>, \<open>kill\<close>, page
  allocation, exceptions, system calls and the scheduler. In the operations \<open>None\<close> is a panic or
  a failed assertion, as in the page table iterators they use; the handlers, which do not return
  to their caller, give a \<open>kresult\<close>. The scheduler spins while nothing is runnable: there, \<open>None\<close>
  means that it spins forever.
\<close>

abbreviation pid_ok :: "int \<Rightarrow> bool" where
  "pid_ok pid \<equiv> 0 < pid \<and> pid < int NPROC"

definition kfree_page :: "u64 \<Rightarrow> kernel \<Rightarrow> kernel option" where
  "kfree_page pa k = map_option (\<lambda>s. k\<lparr>km := s\<rparr>) (kfree pa (km k))"

section \<open>Exit\<close>

partial_function (option) exit_pages :: "kmem \<Rightarrow> vmiter \<Rightarrow> kmem option" where
  "exit_pages s it =
     (if it_va it \<le> MEMSIZE_VIRTUAL then
        Option.bind (if vm_present (phys s) it then kfree (vm_pa (phys s) it) s else Some s) (\<lambda>s1.
        Option.bind (vm_add (phys s1) it PAGESIZE) (\<lambda>it1. exit_pages s1 it1))
      else Some s)"

partial_function (option) exit_tables :: "kmem \<Rightarrow> ptiter \<Rightarrow> kmem option" where
  "exit_tables s it =
     (if pt_active it then
        Option.bind (kfree (pt_pa (phys s) it) s) (\<lambda>s1.
        Option.bind (pt_next (phys s1) it) (\<lambda>it1. exit_tables s1 it1))
      else Some s)"

text \<open>The memory of an address space: its pages, its tables, its root.\<close>

definition exit_memory :: "u64 \<Rightarrow> kmem \<Rightarrow> kmem option" where
  "exit_memory pt s =
     Option.bind (vmiter_new (phys s) pt PROC_START_ADDR) (\<lambda>it.
     Option.bind (exit_pages s it) (\<lambda>s1.
     Option.bind (ptiter_new (phys s1) pt 0) (\<lambda>pit.
     Option.bind (exit_tables s1 pit) (kfree pt))))"

definition exit_proc :: "int \<Rightarrow> kernel \<Rightarrow> kernel option" where
  "exit_proc pid k =
     (if \<not> pid_ok pid then Some k
      else let pt = p_pagetable (ptable k ! nat pid)
           in map_option (\<lambda>s. upd_proc (nat pid) (\<lambda>p. p\<lparr>p_state := P_FREE\<rparr>) (k\<lparr>km := s\<rparr>))
                (if pt \<noteq> 0 then exit_memory pt (km k) else Some (km k)))"

definition sys_exit :: "kernel \<Rightarrow> kernel option" where
  "sys_exit k = exit_proc (p_pid (ptable k ! current k)) k"

text \<open>The argument register is converted to a 32-bit \<open>pid_t\<close>.\<close>

definition sys_kill :: "u64 \<Rightarrow> kernel \<Rightarrow> kernel option" where
  "sys_kill rdi k = exit_proc (sint (ucast rdi :: u32)) k"

section \<open>Page allocation\<close>

definition syscall_page_alloc :: "u64 \<Rightarrow> kernel \<Rightarrow> (int \<times> kernel) option" where
  "syscall_page_alloc addr k =
     (if addr < PROC_START_ADDR \<or> MEMSIZE_VIRTUAL \<le> addr \<or> addr mod PAGESIZE \<noteq> 0 then Some (- 1, k)
      else let (pa, s) = kalloc PAGESIZE (km k)
           in if pa = 0 then Some (- 1, k\<lparr>km := s\<rparr>)
              else let s1 = s\<lparr>phys := mem_fill (phys s) pa 0 PAGESIZE\<rparr>;
                       pt = p_pagetable (ptable k ! nat (p_pid (ptable k ! current k)))
                   in Option.bind (vmiter_new (phys s1) pt addr) (\<lambda>it.
                      map_option (\<lambda>(_, s2). (0, k\<lparr>km := s2\<rparr>))
                        (vm_map (kalloc PAGESIZE) s1 it pa (PTE_P OR PTE_W OR PTE_U))))"

section \<open>Fork\<close>

text \<open>\<open>map_check\<close>: the iterator is passed by value, so the caller's does not move.\<close>

definition map_check :: "vmiter \<Rightarrow> u64 \<Rightarrow> u64 \<Rightarrow> int \<Rightarrow> kernel \<Rightarrow> (int \<times> kernel) option" where
  "map_check it pa perm pid k =
     Option.bind (try_map (kalloc PAGESIZE) (km k) it pa perm) (\<lambda>(res, _, s).
       if res = - 1 then map_option (Pair res) (exit_proc pid (k\<lparr>km := s\<rparr>)) else Some (res, k\<lparr>km := s\<rparr>))"

text \<open>The two copy loops: 0 when the copy is complete, -1 when it gave up.\<close>

partial_function (option) fork_kernel_loop ::
  "int \<Rightarrow> vmiter \<Rightarrow> vmiter \<Rightarrow> kernel \<Rightarrow> (int \<times> kernel) option" where
  "fork_kernel_loop pid k_it child_it k =
     (if it_va k_it < PROC_START_ADDR then
        Option.bind (map_check child_it (vm_pa (kphys k) k_it) (vm_perm (kphys k) k_it) pid k) (\<lambda>(res, k1).
          if res \<noteq> 0 then Some (- 1, k1)
          else Option.bind (vm_add (kphys k1) child_it PAGESIZE) (\<lambda>child_it1.
               Option.bind (vm_add (kphys k1) k_it PAGESIZE) (\<lambda>k_it1.
                 fork_kernel_loop pid k_it1 child_it1 k1)))
      else Some (0, k))"

definition fork_page :: "int \<Rightarrow> vmiter \<Rightarrow> vmiter \<Rightarrow> kernel \<Rightarrow> (int \<times> kernel) option" where
  "fork_page pid parent_it child_it k =
     (let m = kphys k
      in if vm_writable m parent_it \<and> vm_user m parent_it then
           let (child_pa, s) = kalloc PAGESIZE (km k)
           in if child_pa = 0 then map_option (Pair (- 1)) (exit_proc pid (k\<lparr>km := s\<rparr>))
              else let s1 = s\<lparr>phys := mem_copy (phys s) child_pa (vm_pa (phys s) parent_it) PAGESIZE\<rparr>
                   in Option.bind (map_check child_it child_pa (vm_perm (phys s1) parent_it) pid (k\<lparr>km := s1\<rparr>)) (\<lambda>(res, k1).
                        if res \<noteq> 0 then map_option (Pair (- 1)) (kfree_page child_pa k1) else Some (0, k1))
         else if vm_present m parent_it then
           Option.bind (map_check child_it (vm_pa m parent_it) (vm_perm m parent_it) pid k) (\<lambda>(res, k1).
             if res \<noteq> 0 then Some (- 1, k1)
             else let n = page_no (vm_pa (kphys k1) parent_it); s = km k1
                  in if n < length (pages s)
                     then Some (0, k1\<lparr>km := s\<lparr>pages := (pages s)[n := pages s ! n + 1]\<rparr>\<rparr>) else None)
         else Some (0, k))"

partial_function (option) fork_user_loop ::
  "int \<Rightarrow> vmiter \<Rightarrow> vmiter \<Rightarrow> kernel \<Rightarrow> (int \<times> kernel) option" where
  "fork_user_loop pid parent_it child_it k =
     (if it_va parent_it < MEMSIZE_VIRTUAL then
        Option.bind (fork_page pid parent_it child_it k) (\<lambda>(res, k1).
          if res \<noteq> 0 then Some (- 1, k1)
          else Option.bind (vm_add (kphys k1) parent_it PAGESIZE) (\<lambda>parent_it1.
               Option.bind (vm_add (kphys k1) child_it PAGESIZE) (\<lambda>child_it1.
                 fork_user_loop pid parent_it1 child_it1 k1)))
      else Some (0, k))"

fun free_pid :: "proc list \<Rightarrow> nat \<Rightarrow> nat" where
  "free_pid [] pid = pid"
| "free_pid (p # ps) pid = (if p_state p \<noteq> P_FREE then free_pid ps (pid + 1) else pid)"

text \<open>The copy of the address space of \<open>parent_pt\<close> into the new table at \<open>child_pt\<close>.\<close>

definition fork_copy :: "int \<Rightarrow> u64 \<Rightarrow> u64 \<Rightarrow> kernel \<Rightarrow> (int \<times> kernel) option" where
  "fork_copy pid parent_pt child_pt k =
     Option.bind (vmiter_new (kphys k) child_pt 0) (\<lambda>child_it.
     Option.bind (vmiter_new (kphys k) (kernel_pagetable k) 0) (\<lambda>k_it.
     Option.bind (fork_kernel_loop pid k_it child_it k) (\<lambda>(res, k1).
       if res \<noteq> 0 then Some (- 1, k1)
       else Option.bind (vmiter_new (kphys k1) child_pt PROC_START_ADDR) (\<lambda>child_it1.
            Option.bind (vmiter_new (kphys k1) parent_pt PROC_START_ADDR) (\<lambda>parent_it.
              fork_user_loop pid parent_it child_it1 k1)))))"

definition sys_fork :: "kernel \<Rightarrow> (int \<times> kernel) option" where
  "sys_fork k =
     (let pid = free_pid (tl (ptable k)) 1
      in if pid = NPROC then Some (- 1, k)
         else let k1 = init_process pid 0 k;
                  (child_pt, s) = kalloc PAGESIZE (km k1);
                  parent_pt = p_pagetable (ptable k1 ! current k1);
                  k2 = upd_proc pid (\<lambda>p. p\<lparr>p_pagetable := child_pt\<rparr>) (k1\<lparr>km := s\<rparr>)
              in if child_pt = 0 then Some (- 1, k2)
                 else Option.bind (fork_copy (int pid) parent_pt child_pt
                                     (upd_phys (\<lambda>m. mem_fill m child_pt 0 PAGESIZE) k2)) (\<lambda>(res, k3).
                        if res \<noteq> 0 then Some (- 1, k3)
                        else Some (int pid, upd_proc pid (\<lambda>p. p\<lparr>p_regs := (p_regs (ptable k3 ! current k3))\<lparr>reg_rax := 0\<rparr>,
                                                              p_state := P_RUNNABLE\<rparr>) k3)))"

section \<open>Running and scheduling\<close>

definition run :: "nat \<Rightarrow> kernel \<Rightarrow> kresult" where
  "run p k =
     (if p_state (ptable k ! p) = P_RUNNABLE
         \<and> check_pagetable (kphys k) (kernel_pagetable k) (exception_entry k) (p_pagetable (ptable k ! p))
      then Run (k\<lparr>current := p\<rparr>) else Panic)"

text \<open>\<open>check_keyboard\<close> in the kernel: a key that ends this run of the kernel, or the new state.\<close>

definition poll_keyboard :: "kernel \<Rightarrow> kresult + kernel" where
  "poll_keyboard k =
     (case check_keyboard (kbd k) of
        (KeyNone _, b) \<Rightarrow> Inr (k\<lparr>kbd := b\<rparr>)
      | (KeyReboot argument, b) \<Rightarrow> Inl (SoftReboot argument)
      | (KeyPoweroff, b) \<Rightarrow> Inl PowerOff)"

partial_function (option) schedule_loop :: "nat \<Rightarrow> u32 \<Rightarrow> kernel \<Rightarrow> kresult option" where
  "schedule_loop pid spins k =
     (let pid1 = (pid + 1) mod NPROC
      in if p_state (ptable k ! pid1) = P_RUNNABLE then Some (run pid1 k)
         else case poll_keyboard k of
             Inl r \<Rightarrow> Some r
           | Inr k1 \<Rightarrow>
               if spins mod 4096 = 0 then
                 case memshow k1 of None \<Rightarrow> Some Panic | Some k2 \<Rightarrow> schedule_loop pid1 (spins + 1) k2
               else schedule_loop pid1 (spins + 1) k1)"

definition schedule :: "kernel \<Rightarrow> kresult option" where
  "schedule k = schedule_loop (nat (p_pid (ptable k ! current k))) 1 k"

section \<open>Exceptions\<close>

text \<open>
  The first part of both handlers: the registers are saved, memory is shown, the keyboard is
  polled. A kernel page fault does not show memory.
\<close>

definition enter_kernel :: "bool \<Rightarrow> regstate \<Rightarrow> kernel \<Rightarrow> kresult + kernel" where
  "enter_kernel show regs k =
     (let k1 = upd_proc (current k) (\<lambda>p. p\<lparr>p_regs := regs\<rparr>) k
      in case (if show then memshow k1 else Some k1) of None \<Rightarrow> Inl Panic | Some k2 \<Rightarrow> poll_keyboard k2)"

definition INT_IRQ_TIMER :: u32 where [simp]: "INT_IRQ_TIMER = INT_IRQ + IRQ_TIMER"

definition page_fault_message :: "u64 \<Rightarrow> regstate \<Rightarrow> proc \<Rightarrow> console \<Rightarrow> console option" where
  "page_fault_message addr regs p =
     console_printf (CPOS 24 0) 0x0C00 (''Process %d page fault for %p (%s %s, rip=%p)!'' @ [CHR 0x0A])
       [Arg_word (word_of_int (p_pid p)), Arg_word addr,
        Arg_string (codes (if reg_errcode regs AND PFERR_WRITE \<noteq> 0 then ''write'' else ''read'')),
        Arg_string (codes (if reg_errcode regs AND PFERR_PRESENT \<noteq> 0 then ''protection problem'' else ''missing page'')),
        Arg_word (reg_rip regs)]"

definition exception :: "u64 \<Rightarrow> regstate \<Rightarrow> kernel \<Rightarrow> kresult option" where
  "exception cr2 regs k =
     (case enter_kernel (reg_intno regs \<noteq> INT_PF \<or> reg_errcode regs AND PFERR_USER \<noteq> 0) regs k of
        Inl r \<Rightarrow> Some r
      | Inr k1 \<Rightarrow>
          if reg_intno regs = INT_IRQ_TIMER then schedule (k1\<lparr>ticks := ticks k1 + 1\<rparr>)
          else if reg_intno regs = INT_PF then
            if reg_errcode regs AND PFERR_USER = 0 then Some Panic
            else case page_fault_message cr2 regs (ptable k1 ! current k1) (con k1) of
                None \<Rightarrow> Some Panic
              | Some c \<Rightarrow> schedule (upd_proc (current k1) (\<lambda>p. p\<lparr>p_state := P_BROKEN\<rparr>) (k1\<lparr>con := c\<rparr>))
          else Some Panic)"

section \<open>System calls\<close>

definition return_int :: "(int \<times> kernel) option \<Rightarrow> kresult" where
  "return_int r = or_panic (map_option (\<lambda>(i, k). Return (word_of_int i) k) r)"

definition then_schedule :: "kernel option \<Rightarrow> kresult option" where
  "then_schedule r = (case r of None \<Rightarrow> Some Panic | Some k \<Rightarrow> schedule k)"

definition syscall :: "regstate \<Rightarrow> kernel \<Rightarrow> kresult option" where
  "syscall regs k =
     (case enter_kernel True regs k of
        Inl r \<Rightarrow> Some r
      | Inr k1 \<Rightarrow>
          let n = reg_rax regs; arg = reg_rdi regs
          in if n = SYSCALL_PANIC then Some Panic
             else if n = SYSCALL_GETPID then Some (Return (word_of_int (p_pid (ptable k1 ! current k1))) k1)
             else if n = SYSCALL_YIELD then
               schedule (upd_proc (current k1) (\<lambda>p. p\<lparr>p_regs := (p_regs p)\<lparr>reg_rax := 0\<rparr>\<rparr>) k1)
             else if n = SYSCALL_PAGE_ALLOC then Some (return_int (syscall_page_alloc arg k1))
             else if n = SYSCALL_FORK then Some (return_int (sys_fork k1))
             else if n = SYSCALL_EXIT then then_schedule (sys_exit k1)
             else if n = SYSCALL_KILL then then_schedule (sys_kill arg k1)
             else Some Panic)"

section \<open>Starting a process\<close>

partial_function (option) copy_kernel_loop :: "kmem \<Rightarrow> vmiter \<Rightarrow> vmiter \<Rightarrow> (vmiter \<times> kmem) option" where
  "copy_kernel_loop s k_it proc_it =
     (if it_va k_it < PROC_START_ADDR then
        Option.bind (vm_map (kalloc PAGESIZE) s proc_it (vm_pa (phys s) k_it) (vm_perm (phys s) k_it)) (\<lambda>(proc_it1, s1).
        Option.bind (vm_add (phys s1) proc_it1 PAGESIZE) (\<lambda>proc_it2.
        Option.bind (vm_add (phys s1) k_it PAGESIZE) (\<lambda>k_it1. copy_kernel_loop s1 k_it1 proc_it2)))
      else Some (proc_it, s))"

text \<open>The pages of one segment; a write through the null pointer \<open>kalloc\<close> may give is a fault.\<close>

partial_function (option) segment_loop :: "u64 \<Rightarrow> u64 \<Rightarrow> kmem \<Rightarrow> vmiter \<Rightarrow> (vmiter \<times> kmem) option" where
  "segment_loop seg_top perm s proc_it =
     (if it_va proc_it < seg_top then
        let (pa, s1) = kalloc PAGESIZE s
        in if pa = 0 then None
           else Option.bind (vm_map (kalloc PAGESIZE) (s1\<lparr>phys := mem_fill (phys s1) pa 0 PAGESIZE\<rparr>) proc_it pa perm)
                  (\<lambda>(proc_it1, s2).
                Option.bind (vm_add (phys s2) proc_it1 PAGESIZE) (\<lambda>proc_it2. segment_loop seg_top perm s2 proc_it2))
      else Some (proc_it, s))"

partial_function (option) map_segments :: "kmem \<Rightarrow> program_loader \<Rightarrow> vmiter \<Rightarrow> (vmiter \<times> kmem) option" where
  "map_segments s L proc_it =
     (if loader_present L then
        Option.bind (real_find (phys s) proc_it (round_down (loader_va (phys s) L) PAGESIZE)) (\<lambda>proc_it1.
        Option.bind (segment_loop (loader_va (phys s) L + loader_size (phys s) L)
                       (if loader_writable (phys s) L then PTE_P OR PTE_W OR PTE_U else PTE_P OR PTE_U) s proc_it1)
          (\<lambda>(proc_it2, s1).
        Option.bind (loader_next (phys s1) L) (\<lambda>L1. map_segments s1 L1 proc_it2)))
      else Some (proc_it, s))"

partial_function (option) copy_segments :: "kmem \<Rightarrow> program_loader \<Rightarrow> vmiter \<Rightarrow> (vmiter \<times> kmem) option" where
  "copy_segments s L proc_it =
     (if loader_present L then
        Option.bind (real_find (phys s) proc_it (loader_va (phys s) L)) (\<lambda>proc_it1.
          let m1 = memset (phys s) (vm_pa (phys s) proc_it1) 0 (loader_size (phys s) L);
              m2 = memcpy m1 (vm_pa m1 proc_it1) (loader_data m1 L) (loader_data_size m1 L)
          in Option.bind (loader_next m2 L) (\<lambda>L1. copy_segments (s\<lparr>phys := m2\<rparr>) L1 proc_it1))
      else Some (proc_it, s))"

text \<open>The program is loaded into the address space of the table \<open>pt\<close>; the result is its entry point.\<close>

definition load_program :: "(nat \<Rightarrow> u64) \<Rightarrow> string \<Rightarrow> u64 \<Rightarrow> u64 \<Rightarrow> kmem \<Rightarrow> (u64 \<times> kmem) option" where
  "load_program img name kp pt s =
     Option.bind (vmiter_new (phys s) pt 0) (\<lambda>proc_it.
     Option.bind (vmiter_new (phys s) kp 0) (\<lambda>k_it.
     Option.bind (copy_kernel_loop s k_it proc_it) (\<lambda>(proc_it1, s1).
     Option.bind (loader_named img (phys s1) name) (\<lambda>L.
     Option.bind (loader_reset (phys s1) L) (\<lambda>L1.
     Option.bind (map_segments s1 L1 proc_it1) (\<lambda>(proc_it2, s2).
     Option.bind (loader_reset (phys s2) L1) (\<lambda>L2.
     Option.bind (copy_segments s2 L2 proc_it2) (\<lambda>(proc_it3, s3).
     Option.bind (real_find (phys s3) proc_it3 (MEMSIZE_VIRTUAL - PAGESIZE)) (\<lambda>proc_it4.
       let (stack_pa, s4) = kalloc PAGESIZE s3
       in if stack_pa = 0 then None
          else map_option (\<lambda>(_, s5). (loader_entry (phys s3) L2, s5))
                 (vm_map (kalloc PAGESIZE) (s4\<lparr>phys := mem_fill (phys s4) stack_pa 0 PAGESIZE\<rparr>) proc_it4 stack_pa
                    (PTE_P OR PTE_W OR PTE_U)))))))))))"

definition process_setup :: "(nat \<Rightarrow> u64) \<Rightarrow> nat \<Rightarrow> string \<Rightarrow> kernel \<Rightarrow> kernel option" where
  "process_setup img pid name k =
     (let k1 = init_process pid 0 k;
          (proc_pt, s) = kalloc PAGESIZE (km k1)
      in if proc_pt = 0 then None
         else let k2 = upd_proc pid (\<lambda>p. p\<lparr>p_pagetable := proc_pt\<rparr>) k1
              in map_option (\<lambda>(entry, s').
                   upd_proc pid (\<lambda>p. p\<lparr>p_regs := (p_regs p)\<lparr>reg_rip := entry, reg_rsp := MEMSIZE_VIRTUAL - PAGESIZE + PAGESIZE\<rparr>,
                                        p_state := P_RUNNABLE\<rparr>) (k2\<lparr>km := s'\<rparr>))
                 (load_program img name (kernel_pagetable k) proc_pt
                    (s\<lparr>phys := mem_fill (phys s) proc_pt 0 PAGESIZE\<rparr>)))"

section \<open>Starting the kernel\<close>

definition kernel_perms :: "u64 \<Rightarrow> u64 option" where
  "kernel_perms va =
     Some (if PROC_START_ADDR \<le> va \<or> va = CONSOLE_ADDR then PTE_P OR PTE_W OR PTE_U
           else if va \<noteq> 0 then PTE_P OR PTE_W else 0)"

definition init_ptable :: "proc list \<Rightarrow> proc list" where
  "init_ptable ps = map (\<lambda>i. (ps ! i)\<lparr>p_pid := int i, p_state := P_FREE\<rparr>) [0..<NPROC]"

fun setup_all :: "(nat \<Rightarrow> u64) \<Rightarrow> (nat \<times> string) list \<Rightarrow> kernel \<Rightarrow> kernel option" where
  "setup_all img [] k = Some k"
| "setup_all img ((pid, name) # rest) k = Option.bind (process_setup img pid name k) (setup_all img rest)"

text \<open>\<open>kernel(command)\<close>: \<open>None\<close> is the null pointer for the command.\<close>

definition kernel_main :: "(nat \<Rightarrow> u64) \<Rightarrow> string option \<Rightarrow> kernel \<Rightarrow> kresult" where
  "kernel_main img command k =
     or_panic (map_option (\<lambda>k'. run 1 k')
       (Option.bind (init_kernel_pagetable (kernel_pagetable k) (km k)) (\<lambda>s.
        Option.bind (vmiter_new (phys s) (kernel_pagetable k) 0) (\<lambda>it.
        Option.bind (identity_loop kernel_perms s it) (\<lambda>s1.
          let k1 = k\<lparr>km := s1, ticks := 1, con := console_clear (con k), ptable := init_ptable (ptable k)\<rparr>;
              named = (case command of None \<Rightarrow> Some False
                       | Some c \<Rightarrow> map_option loader_present (loader_named img (phys s1) c))
          in Option.bind named (\<lambda>present.
               setup_all img
                 (if present then [(1, the command)]
                  else [(1, ''allocator''), (2, ''allocator2''), (3, ''allocator3''), (4, ''allocator4'')]) k1))))))"

end
