(* ===== verification/KernelProps.thy ===== *)
theory KernelProps
  imports Kernel
begin

text \<open>
  Properties of the kernel: the scheduler runs the next runnable process in turn, \<open>page_alloc\<close>
  maps a zeroed page or refuses, \<open>exit\<close> and \<open>kill\<close>.
\<close>

section \<open>The scheduler\<close>

definition kbd_idle :: "keyboard \<Rightarrow> bool" where
  "kbd_idle b \<longleftrightarrow> (\<forall>p\<in>set (polls b). p = None)"

lemma poll_idle:
  "kbd_idle (kbd k) \<Longrightarrow> poll_keyboard k = Inr (k\<lparr>kbd := (kbd k)\<lparr>polls := drop 1 (polls (kbd k))\<rparr>\<rparr>)"
  by (cases "polls (kbd k)")
    (auto simp: kbd_idle_def poll_keyboard_def check_keyboard_def keyboard_readc_def key_command_def)

lemma kbd_idle_drop: "kbd_idle b \<Longrightarrow> kbd_idle (b\<lparr>polls := drop n (polls b)\<rparr>)"
  by (auto simp: kbd_idle_def dest: in_set_dropD)

abbreviation skip_polls :: "nat \<Rightarrow> kernel \<Rightarrow> kernel" where
  "skip_polls n k \<equiv> k\<lparr>kbd := (kbd k)\<lparr>polls := drop n (polls (kbd k))\<rparr>\<rparr>"

lemma schedule_loop_next:
  assumes "kbd_idle (kbd k)" "p_state (ptable k ! ((pid + Suc d) mod NPROC)) = P_RUNNABLE"
    and "\<forall>e\<le>d. 0 < e \<longrightarrow> p_state (ptable k ! ((pid + e) mod NPROC)) \<noteq> P_RUNNABLE"
    and "0 < unat spins" "unat spins + d < 4096"
  shows "schedule_loop pid spins k = Some (run ((pid + Suc d) mod NPROC) (skip_polls d k))"
  using assms
proof (induction d arbitrary: pid spins k)
  case 0
  then show ?case by (subst schedule_loop.simps) simp
next
  case (Suc d)
  let ?k = "skip_polls 1 k"
  have no: "p_state (ptable k ! ((pid + 1) mod NPROC)) \<noteq> P_RUNNABLE" using Suc.prems(3) by auto
  have u: "unat (spins + 1) = unat spins + 1" using Suc.prems(5) by (subst unat_add_lt) simp_all
  have m: "((pid + 1) mod NPROC + e) mod NPROC = (pid + Suc e) mod NPROC" for e
    by (simp add: mod_add_left_eq)
  have nz: "spins mod 4096 \<noteq> 0"
  proof
    assume z: "spins mod 4096 = 0"
    have "unat (spins mod 4096) = unat spins" using Suc.prems(5) by (simp add: unat_mod)
    then show False using Suc.prems(4) unfolding z by simp
  qed
  have "schedule_loop pid spins k = schedule_loop ((pid + 1) mod NPROC) (spins + 1) ?k"
    using no nz poll_idle [OF Suc.prems(1)] by (subst schedule_loop.simps) simp
  also have "\<dots> = Some (run (((pid + 1) mod NPROC + Suc d) mod NPROC) (skip_polls d ?k))"
  proof (rule Suc.IH)
    show "kbd_idle (kbd ?k)" using kbd_idle_drop [OF Suc.prems(1), of 1] by simp
    show "p_state (ptable ?k ! (((pid + 1) mod NPROC + Suc d) mod NPROC)) = P_RUNNABLE"
      using Suc.prems(2) unfolding m by simp
    show "\<forall>e\<le>d. 0 < e \<longrightarrow> p_state (ptable ?k ! (((pid + 1) mod NPROC + e) mod NPROC)) \<noteq> P_RUNNABLE"
      using Suc.prems(3) unfolding m by auto
  qed (use Suc.prems(4,5) u in auto)
  finally show ?case unfolding m by (simp add: add.commute)
qed

text \<open>
  C9: The scheduler is round robin and does not starve: when some process is runnable it runs,
  within sixteen spins, the first runnable one after the current process in the cyclic order of
  the process table (the current process itself comes last), and changes nothing else, provided
  no key is pressed meanwhile.
\<close>

theorem schedule_round_robin:
  assumes "kbd_idle (kbd k)" "p_pid (ptable k ! current k) = int c"
    and "p < NPROC" "p_state (ptable k ! p) = P_RUNNABLE"
  shows "\<exists>d. 0 < d \<and> d \<le> NPROC \<and> p_state (ptable k ! ((c + d) mod NPROC)) = P_RUNNABLE
    \<and> (\<forall>e<d. 0 < e \<longrightarrow> p_state (ptable k ! ((c + e) mod NPROC)) \<noteq> P_RUNNABLE)
    \<and> schedule k = Some (run ((c + d) mod NPROC) (skip_polls (d - 1) k))"
proof -
  let ?P = "\<lambda>d. 0 < d \<and> p_state (ptable k ! ((c + d) mod NPROC)) = P_RUNNABLE"
  have "\<exists>d. ?P d \<and> d \<le> NPROC"
  proof -
    let ?d = "if c mod 16 < p then p - c mod 16 else p + 16 - c mod 16"
    have c: "c mod 16 < 16" by simp
    have "(c + ?d) mod 16 = (c mod 16 + ?d) mod 16" by (simp only: mod_add_left_eq)
    also have "\<dots> = p" using assms(3) c by (cases "c mod 16 < p") auto
    finally have "(c + ?d) mod NPROC = p" by simp
    moreover have "0 < ?d" "?d \<le> NPROC" using assms(3) c by auto
    ultimately show ?thesis using assms(4) by metis
  qed
  then obtain d0 where d0: "?P d0" "d0 \<le> NPROC" by blast
  define d where "d = (LEAST d. ?P d)"
  have d: "?P d" unfolding d_def by (rule LeastI [of ?P, OF d0(1)])
  have le: "d \<le> NPROC" using Least_le [of ?P, OF d0(1)] d0(2) unfolding d_def by simp
  have least: "\<not> ?P e" if "e < d" for e using not_less_Least [of e ?P] that unfolding d_def by blast
  obtain d' where d': "d = Suc d'" using d by (cases d) auto
  have "schedule_loop c 1 k = Some (run ((c + Suc d') mod NPROC) (skip_polls d' k))"
  proof (rule schedule_loop_next [OF assms(1)])
    show "p_state (ptable k ! ((c + Suc d') mod NPROC)) = P_RUNNABLE" using d unfolding d' by simp
    show "\<forall>e\<le>d'. 0 < e \<longrightarrow> p_state (ptable k ! ((c + e) mod NPROC)) \<noteq> P_RUNNABLE"
    proof (intro allI impI)
      fix e assume "e \<le> d'" "0 < e"
      then show "p_state (ptable k ! ((c + e) mod NPROC)) \<noteq> P_RUNNABLE"
        using least [of e] unfolding d' by (simp only: less_Suc_eq_le simp_thms)
    qed
    show "unat (1 :: u32) + d' < 4096" using le unfolding d' by simp
  qed simp
  then show ?thesis using d le least d' assms(2) by (intro exI [of _ d]) (auto simp: schedule_def)
qed

definition proc_ex :: "nat \<Rightarrow> proc" where
  "proc_ex i = \<lparr>p_pagetable = 0, p_pid = int i, p_state = (if i = 1 \<or> i = 3 then P_RUNNABLE else P_FREE), p_regs = regs_zero\<rparr>"

definition kernel_ex :: kernel where
  "kernel_ex = \<lparr>km = mem0, ptable = map proc_ex [0..<16], current = 1, ticks = 1, last_ticks = 1, showing = 1,
     mu_v = 0, con = \<lparr>cells = replicate 2000 0, cursorpos = 0\<rparr>,
     kbd = \<lparr>modifiers = 0, last_escape = 0, polls = [None, None]\<rparr>, kernel_pagetable = 0x45000, exception_entry = 0x40100\<rparr>"

theorem schedule_round_robin_witness:
  "schedule kernel_ex = Some (run 3 (skip_polls 1 kernel_ex))"
proof -
  have "kbd_idle (kbd kernel_ex)" "p_pid (ptable kernel_ex ! current kernel_ex) = int 1"
    "p_state (ptable kernel_ex ! 3) = P_RUNNABLE"
    by (simp_all add: kernel_ex_def kbd_idle_def proc_ex_def)
  then obtain d where d: "0 < d" "d \<le> 16" "p_state (ptable kernel_ex ! ((1 + d) mod 16)) = 1"
    "\<forall>e<d. 0 < e \<longrightarrow> p_state (ptable kernel_ex ! ((1 + e) mod 16)) \<noteq> 1"
    "schedule kernel_ex = Some (run ((1 + d) mod 16) (skip_polls (d - 1) kernel_ex))"
    using schedule_round_robin [of kernel_ex 1 3] by auto
  have st: "p_state (ptable kernel_ex ! i) = (if i = 1 \<or> i = 3 then 1 else 0)" if "i < 16" for i
    using that by (simp add: kernel_ex_def proc_ex_def)
  have "\<not> 2 < d" using d(4) st [of 3] by auto
  moreover have "d \<noteq> 1" using d(3) st [of 2] by (auto simp: numeral_2_eq_2)
  ultimately have "d = 2" using d(1) by linarith
  then show ?thesis using d(5) by simp
qed

section \<open>Address spaces and new pages\<close>

lemma no_junk_frame: "page_aligned pt \<Longrightarrow> keeps_tables m m' pt \<Longrightarrow> no_junk m pt \<Longrightarrow> no_junk m' pt"
  using pt_entry_frame by (simp add: no_junk_def)

lemma small_at_frame: "page_aligned pt \<Longrightarrow> keeps_tables m m' pt \<Longrightarrow> small_at m' pt v = small_at m pt v"
  using pt_entry_frame by (simp add: small_at_def)

context page_allocator
begin

text \<open>Taking a page from the allocator and writing to that page only does not touch an address space.\<close>

lemma alloc_pt_inv:
  assumes ok: "okm s" and inv: "pt_inv avail s pt" and al: "alloc s = (n, s1)" and n0: "n \<noteq> 0"
    and out: "same_outside n (phys s) m"
  shows "pt_inv avail (s1\<lparr>phys := m\<rparr>) pt" and "keeps_tables (phys s) m pt" and "n \<notin> tables (phys s) pt"
    and "page_aligned pt"
proof -
  show al_pt: "page_aligned pt" using inv pt_tree_aligned by (auto simp: pt_inv_def)
  have n: "page_aligned n" using alloc_page [OF ok al] by simp
  show nt: "n \<notin> tables (phys s) pt" using inv alloc_avail [OF ok al n0] by (auto simp: pt_inv_def owned_def)
  show k: "keeps_tables (phys s) m pt" by (rule keeps_tables_fresh [OF al_pt n nt out])
  show "pt_inv avail (s1\<lparr>phys := m\<rparr>) pt"
    using inv pt_tree_frame [OF _ k] no_junk_frame [OF al_pt k] tables_frame [OF al_pt k] alloc_marks [OF ok al n0]
    by (auto simp: pt_inv_def owned_def)
qed

end

lemma iter_ready:
  assumes "pt_inv avail s pt" "va_is_canonical va" "small_at (phys s) pt va"
  shows "\<exists>it. vmiter_new (phys s) pt va = Some it \<and> ready (phys s) it \<and> it_pt it = pt \<and> it_va it = va
    \<and> it_perm it AND 7 = 7 \<and> it_level it = fst (pt_entry (phys s) pt va)"
proof -
  have al: "page_aligned pt" and nj: "no_junk (phys s) pt" using assms(1) pt_tree_aligned by (auto simp: pt_inv_def)
  obtain it where it: "real_find (phys s) (root_iter pt) va = Some it" "at_leaf (phys s) it" "it_va it = va" "it_pt it = pt"
    using real_find_some [OF root_on_walk [OF al], of "phys s" va] nj by auto
  have "vmiter_new (phys s) pt va = Some it" using it(1) by (simp add: vmiter_new_def)
  moreover have "pt_entry (phys s) pt va = (it_level it, cur_pe (phys s) it, it_perm it)"
    using at_leaf_entry [OF it(2)] it(3,4) by simp
  ultimately show ?thesis using assms(2,3) it(2,3,4) by (auto simp: small_at_def ready_def at_leaf_on_walk)
qed

section \<open>\<open>page_alloc\<close>\<close>

definition valid_page_addr :: "u64 \<Rightarrow> bool" where
  "valid_page_addr addr \<longleftrightarrow> PROC_START_ADDR \<le> addr \<and> addr < MEMSIZE_VIRTUAL \<and> addr mod PAGESIZE = 0"

lemma user_canonical: "v < MEMSIZE_VIRTUAL \<Longrightarrow> va_is_canonical v"
proof -
  assume "v < MEMSIZE_VIRTUAL"
  then have "v \<le> VA_LOWMAX" by (simp add: word_less_nat_alt word_le_nat_alt)
  then show ?thesis by (simp add: va_is_canonical_def)
qed

lemma page_aligned_mod: "page_aligned p \<longleftrightarrow> p mod PAGESIZE = 0"
proof -
  have "p mod PAGESIZE = 0 \<longleftrightarrow> unat (p mod PAGESIZE) = 0" by (simp only: unat_eq_0)
  also have "\<dots> \<longleftrightarrow> 4096 dvd unat p" by (simp add: unat_mod mod_eq_0_iff_dvd)
  finally show ?thesis by (simp add: page_aligned_dvd)
qed

lemma user_map_asserts:
  assumes "page_aligned (it_va it)" "it_perm it AND 7 = 7" "page_aligned pa" "pa < 0x100000000"
    and "perm AND PTE_P \<noteq> 0"
  shows "map_asserts it pa perm"
proof -
  have pam: "pa AND PTE_PAMASK = pa"
  proof (rule bit_word_eqI)
    fix i assume "i < LENGTH(64)"
    have "\<not> bit pa i" if "52 \<le> i"
    proof -
      have "unat pa < 2 ^ 52" using assms(4) by (simp add: word_less_nat_alt)
      also have "(2 :: nat) ^ 52 \<le> 2 ^ i" using that by (intro power_increasing) auto
      finally have "drop_bit i pa = 0" by (simp add: word_unat_eq_iff unat_drop_bit)
      then show ?thesis by (simp add: bit_iff_odd_drop_bit)
    qed
    then show "bit (pa AND PTE_PAMASK) i = bit pa i" using assms(3)
      unfolding bit_and_iff PTE_PAMASK_def bit_PAMASK page_aligned_iff by (meson not_le)
  qed
  have "pa \<noteq> - 1" using assms(4) by auto
  moreover have "perm AND NOT (it_perm it) AND 7 = 0"
  proof (rule bit_word_eqI)
    fix i assume i: "i < LENGTH(64)"
    have "bit (it_perm it AND 7) i = bit (7 :: u64) i" by (simp only: assms(2))
    then show "bit (perm AND NOT (it_perm it) AND 7) i = bit (0 :: u64) i"
      using i unfolding bit_and_iff bit_not_iff by auto
  qed
  ultimately show ?thesis using assms(1,5) pam by (simp add: map_asserts_def page_aligned_def)
qed

text \<open>
  A walk that stops at level \<open>l\<close> lacks \<open>l\<close> page tables: \<open>try_map\<close> succeeds exactly when so many
  pages are available.
\<close>

context page_allocator
begin

lemma map_loop_enough:
  assumes "okm s" "pt_inv avail s pt" "ready (phys s) it" "it_pt it = pt" "perm \<noteq> 0" "finite {q. avail s q}"
  shows "\<exists>r it' s'. map_loop alloc s it perm = Some (r, it', s') \<and> (r = 0 \<longleftrightarrow> it_level it \<le> card {q. avail s q})"
  using assms(1-4,6)
proof (induction "it_level it" arbitrary: it s rule: less_induct)
  case less
  show ?case
  proof (cases "it_level it = 0")
    case True
    then have "map_loop alloc s it perm = Some (0, it, s)" by (subst map_loop.simps) simp
    then show ?thesis using True by simp
  next
    case False
    let ?l = "it_level it" and ?va = "it_va it" and ?d = "3 - it_level it"
    have l3: "?l \<le> 3" and can: "va_is_canonical ?va" and off: "cur_pe (phys s) it AND PTE_P = 0"
      using less.prems(3) False by (auto simp: ready_def on_walk_def)
    obtain t where t: "table_at (phys s) pt ?va ?d = Some (t, it_perm it)"
      and pep: "it_pep it = Entry (entry_addr t (pageindex ?va ?l))"
      using less.prems(3,4) by (auto simp: ready_def on_walk_def)
    have d: "?d < 3" "3 - ?d = ?l" "2 - ?d = ?l - 1" using False l3 by auto
    have off': "entry_at (phys s) t ?va (3 - ?d) AND PTE_P = 0"
      using off by (simp add: d pep load_pe_def entry_at_def)
    obtain n s1 where al: "alloc s = (n, s1)" by (cases "alloc s")
    show ?thesis
    proof (cases "n = 0")
      case True
      have e: "s1 = s" "\<And>q. \<not> avail s q" using alloc_fails [OF less.prems(1)] al True by auto
      have "map_loop alloc s it perm = Some (- 1, it, s)"
        using False off al True e assms(5) by (subst map_loop.simps) simp
      moreover have "{q. avail s q} = {}" using e(2) by simp
      ultimately show ?thesis using False by (simp del: Collect_empty_eq)
    next
      case n0: False
      let ?m = "hang (phys s1) (entry_addr t (pageindex ?va (3 - ?d))) n"
      let ?s2 = "s1\<lparr>phys := ?m\<rparr>"
      note hs = hang_step [OF less.prems(1,2) t d(1) off' al n0]
      have ow: "on_walk ?m it"
        using hs less.prems(3,4) can by (auto simp: ready_def on_walk_def pep d)
      let ?it = "down_loop ?m it"
      note leaf = down_loop_leaf [OF ow]
      have e: "pt_entry ?m (it_pt it) ?va = (?l - 1, 0, it_perm it AND pte_user n)"
        using hs can less.prems(4) d by simp
      then have dn: "vm_down ?m it = Some ?it" using vm_down_leaf [OF ow] by simp
      have it1: "it_level ?it = ?l - 1" "cur_pe ?m ?it = 0" "it_pt ?it = pt"
        using leaf e less.prems(4) by auto
      have step: "map_loop alloc s it perm = map_loop alloc ?s2 ?it perm"
        using False off al n0 assms(5) dn
        by (subst map_loop.simps)
          (simp add: pep store_pe_def hang_def pte_user_def d [simplified])
      have r: "ready (phys ?s2) ?it" using leaf it1 can by (simp add: ready_def)
      have av: "{q. avail ?s2 q} = {q. avail s q} - {n}" using alloc_marks [OF less.prems(1) al n0] by auto
      have n: "n \<in> {q. avail s q}" using alloc_avail [OF less.prems(1) al n0] by simp
      have lt: "it_level ?it < ?l" using it1(1) False by simp
      have "\<exists>r it' s'. map_loop alloc ?s2 ?it perm = Some (r, it', s') \<and> (r = 0 \<longleftrightarrow> it_level ?it \<le> card {q. avail ?s2 q})"
        by (rule less.hyps [OF lt _ _ r it1(3)]) (use hs less.prems(5) in \<open>simp_all add: av\<close>)
      moreover have "card {q. avail s q} = Suc (card {q. avail ?s2 q})"
        unfolding av by (rule card.remove [OF less.prems(5) n])
      ultimately show ?thesis using False unfolding step it1(1) by fastforce
    qed
  qed
qed

end

lemma finite_free [simp]: "finite {q. free_page s q}"
proof (rule finite_imageD)
  have "page_no ` {q. free_page s q} \<subseteq> {..<NPAGES}"
    using page_no_lt free_page_range by blast
  then show "finite (page_no ` {q. free_page s q})" by (rule finite_subset) simp
  show "inj_on page_no {q. free_page s q}"
    by (rule inj_onI) (use page_no_inj free_page_range in blast)
qed

text \<open>
  C7: \<open>page_alloc\<close> refuses an address that is unaligned or outside the process's region, and fails
  when memory is exhausted, without an effect. For every other address let \<open>l\<close> be the number of
  page tables missing on the way to its entry, as an independent walk counts them. When more than
  \<open>l\<close> pages are free the call succeeds: it takes a free page, fills it with zeros, and maps exactly
  the page of the address to it for the user, every other address keeping its mapping, and the page
  table stays well formed. When one to \<open>l\<close> pages are free, and only then, it panics.
\<close>

theorem page_alloc_correct:
  assumes "pages_ok (km k)" "pt_inv free_page (km k) pt" "small_at (kphys k) pt addr"
    and "pt = p_pagetable (ptable k ! nat (p_pid (ptable k ! current k)))"
    and "l = fst (pt_entry (kphys k) pt addr)" "f = card {pa. free_page (km k) pa}"
  shows "if \<not> valid_page_addr addr \<or> f = 0 then syscall_page_alloc addr k = Some (- 1, k)
    else if f \<le> l then syscall_page_alloc addr k = None
    else \<exists>k'. syscall_page_alloc addr k = Some (0, k') \<and> k' = k\<lparr>km := km k'\<rparr> \<and> pt_inv free_page (km k') pt
          \<and> (\<exists>pa. free_page (km k) pa \<and> \<not> free_page (km k') pa
              \<and> (\<forall>x. in_rng pa 4096 x \<longrightarrow> kphys k' x = 0)
              \<and> (\<forall>v. mapping (kphys k') pt v =
                    (if agree 12 addr v then Some (pa + (v AND PAGEOFFMASK), 7) else mapping (kphys k) pt v)))"
proof (cases "valid_page_addr addr")
  case False
  then have "syscall_page_alloc addr k = Some (- 1, k)"
    by (auto simp: syscall_page_alloc_def valid_page_addr_def not_le not_less)
  then show ?thesis using False by simp
next
  case True
  obtain pa s where al: "kalloc PAGESIZE (km k) = (pa, s)" by fastforce
  show ?thesis
  proof (cases "pa = 0")
    case z: True
    note f = kpa.alloc_fails [OF assms(1) al [unfolded z]]
    have "syscall_page_alloc addr k = Some (- 1, k)"
      using True al z f by (auto simp: syscall_page_alloc_def valid_page_addr_def)
    moreover have "{pa. free_page (km k) pa} = {}" using f by auto
    ultimately show ?thesis using assms(6) by simp
  next
    case nz: False
    let ?m = "mem_fill (phys s) pa 0 PAGESIZE"
    let ?s = "s\<lparr>phys := ?m\<rparr>"
    note fp = kpa.alloc_avail [OF assms(1) al nz] and pg = kpa.alloc_page [OF assms(1) al]
    have out: "same_outside pa (kphys k) ?m"
      using kpa.alloc_frame [OF assms(1) al] by (simp add: same_outside_def mem_simps)
    note inv = kpa.alloc_pt_inv [OF assms(1,2) al nz out]
    have sm: "small_at ?m pt addr" using assms(3) small_at_frame [OF inv(4,2)] by simp
    have can: "va_is_canonical addr" using True user_canonical by (simp add: valid_page_addr_def)
    obtain it where it: "vmiter_new ?m pt addr = Some it" "ready ?m it" "it_pt it = pt" "it_va it = addr" "it_perm it AND 7 = 7"
      and lv: "it_level it = fst (pt_entry ?m pt addr)"
      using iter_ready [OF inv(1) can] sm by auto
    have as: "map_asserts it pa 7"
      by (rule user_map_asserts) (use it pg True page_aligned_mod in \<open>auto simp: valid_page_addr_def\<close>)
    have ok: "pages_ok ?s" using kpa.alloc_keeps [OF assms(1) al] by simp
    obtain r it' s' where tm: "try_map (kalloc PAGESIZE) ?s it pa 7 = Some (r, it', s')"
      and mr: "map_result free_page ?s it pa 7 r s'"
      using kpa.try_map_ok [OF ok, of it pa 7] inv(1) it as pg by auto
    have call: "syscall_page_alloc addr k = (if r = 0 then Some (0, k\<lparr>km := s'\<rparr>) else None)"
      using True al nz it(1) tm assms(4) by (auto simp: syscall_page_alloc_def valid_page_addr_def vm_map_def)
    have fr: "{q. free_page ?s q} = {q. free_page (km k) q} - {pa}"
      using kpa.alloc_marks [OF assms(1) al nz] by auto
    have f1: "f = Suc (card {q. free_page ?s q})"
      using card.remove [OF finite_free, of pa "km k"] fp unfolding assms(6) fr by simp
    have "it_level it = l" using lv pt_entry_frame [OF inv(4,2)] assms(5) by simp
    moreover have "r = 0 \<longleftrightarrow> it_level it \<le> card {q. free_page ?s q}"
    proof -
      obtain r1 it1 s1 where m: "map_loop (kalloc PAGESIZE) ?s it 7 = Some (r1, it1, s1)"
        "r1 = 0 \<longleftrightarrow> it_level it \<le> card {q. free_page ?s q}"
        using kpa.map_loop_enough [OF ok inv(1) _ it(3), of 7] it(2) by auto
      then have "r = r1" using tm as by (auto simp: try_map_def Let_def split: if_splits bind_splits)
      then show ?thesis using m(2) by simp
    qed
    ultimately have rl: "r = 0 \<longleftrightarrow> \<not> f \<le> l" using f1 by auto
    show ?thesis
    proof (cases "r = 0")
      case False
      then show ?thesis using call True f1 rl by simp
    next
      case r0: True
      have st: "pt_step free_page ?s s' pt" and inv': "pt_inv free_page s' pt"
        and mp: "\<forall>v. mapping (phys s') pt v = (if agree 12 addr v then mapped_page pa 7 v else mapping ?m pt v)"
        using mr r0 it(3,4) by (simp_all add: map_result_def)
      have nf: "\<not> free_page ?s pa" using kpa.alloc_marks [OF assms(1) al nz] by simp
      then have nt: "pa \<notin> tables (phys s') pt"
        using pt_step_new [OF st, of pa] inv(3) tables_frame [OF inv(4,2)] by auto
      have zero: "phys s' x = 0" if x: "in_rng pa 4096 x" for x
      proof -
        have "\<not> in_rng t 4096 x" if "t \<in> tables (phys s') pt" for t
          using pages_disjoint [OF _ _ _ x] pg nt that tables_aligned [OF inv(4)] by metis
        then have "phys s' x = ?m x" using pt_step_frame [OF st] by simp
        then show ?thesis using x by (simp add: mem_fill_def)
      qed
      have "mapping ?m pt v = mapping (kphys k) pt v" for v by (rule mapping_frame [OF inv(4,2)])
      then have "k\<lparr>km := s'\<rparr> = k\<lparr>km := km (k\<lparr>km := s'\<rparr>)\<rparr> \<and> pt_inv free_page (km (k\<lparr>km := s'\<rparr>)) pt
          \<and> (\<exists>pa. free_page (km k) pa \<and> \<not> free_page (km (k\<lparr>km := s'\<rparr>)) pa
              \<and> (\<forall>x. in_rng pa 4096 x \<longrightarrow> kphys (k\<lparr>km := s'\<rparr>) x = 0)
              \<and> (\<forall>v. mapping (kphys (k\<lparr>km := s'\<rparr>)) pt v =
                    (if agree 12 addr v then Some (pa + (v AND PAGEOFFMASK), 7) else mapping (kphys k) pt v)))"
        using fp nf pt_step_avail [OF st, of pa] inv' zero mp
        by (auto simp: mapped_page_def intro!: exI [of _ pa])
      then show ?thesis using call r0 True f1 rl by auto
    qed
  qed
qed

definition kernel_pa :: kernel where
  "kernel_pa = kernel_ex\<lparr>km := kmem1, ptable := (ptable kernel_ex)[1 := (proc_ex 1)\<lparr>p_pagetable := 0x1000\<rparr>]\<rparr>"

lemma pt_entry_zeros: "pt_entry (\<lambda>_. 0) pt v = (3, 0, if va_is_canonical v then initial_perm else 0)"
  by (simp add: pt_entry_def numeral_3_eq_3 Let_def)

lemma kernel_pa_inv:
  "pages_ok (km kernel_pa)" "pt_inv free_page (km kernel_pa) 0x1000" "small_at (kphys kernel_pa) 0x1000 0x100000"
  "0x1000 = p_pagetable (ptable kernel_pa ! nat (p_pid (ptable kernel_pa ! current kernel_pa)))"
proof -
  have c: "va_is_canonical 0x100000" by (simp add: va_is_canonical_def)
  then show "small_at (kphys kernel_pa) 0x1000 0x100000"
    by (simp add: small_at_def kernel_pa_def kmem1_def pt_entry_zeros)
qed (use kmem1_inv in \<open>simp_all add: kernel_pa_def kernel_ex_def proc_ex_def\<close>)

theorem page_alloc_correct_witness:
  "\<exists>k'. syscall_page_alloc 0x100000 kernel_pa = Some (0, k') \<and> mapping (kphys k') 0x1000 0x100000 \<noteq> None"
proof -
  let ?F = "{pa. free_page (km kernel_pa) pa}"
  have "{0x2000, 0x3000, 0x4000, 0x5000} \<subseteq> ?F"
    by (simp add: free_page_def kernel_pa_def kmem1_def page_aligned_def allocatable_physical_address_def
      reserved_physical_address_def used_def)
  then have "4 \<le> card ?F" using card_mono [OF finite_free [of "km kernel_pa"], of "{0x2000, 0x3000, 0x4000, 0x5000}"] by simp
  moreover have "fst (pt_entry (kphys kernel_pa) 0x1000 0x100000) = 3" by (simp add: kernel_pa_def kmem1_def pt_entry_zeros)
  moreover have "valid_page_addr 0x100000" by (simp add: valid_page_addr_def)
  ultimately show ?thesis
    using page_alloc_correct [OF kernel_pa_inv refl refl] by (fastforce split: if_splits)
qed

end
