(* ===== verification/KernelExit.thy ===== *)
theory KernelExit
  imports KernelProps
begin

text \<open>
  What \<open>exit\<close> and \<open>kill\<close> release: one reference for every page mapped in the process's region, and
  one for every page of its page table. The two loops are first shown to free a list of pages in
  sequence, although freeing a page overwrites it while the loops still read page tables.
\<close>

section \<open>Freeing a list of pages\<close>

fun kfree_all :: "u64 list \<Rightarrow> kmem \<Rightarrow> kmem option" where
  "kfree_all [] s = Some s"
| "kfree_all (p # ps) s = Option.bind (kfree p s) (kfree_all ps)"

definition ram_page :: "u64 \<Rightarrow> bool" where
  "ram_page p \<longleftrightarrow> page_aligned p \<and> p \<noteq> 0 \<and> p < MEMSIZE_PHYSICAL"

definition refs :: "u64 list \<Rightarrow> nat \<Rightarrow> nat" where
  "refs ps i = length (filter (\<lambda>p. page_no p = i) ps)"

lemma refs_Cons [simp]: "refs (p # ps) i = (if page_no p = i then 1 else 0) + refs ps i"
  by (simp add: refs_def)

lemma refs_append [simp]: "refs (ps @ qs) i = refs ps i + refs qs i"
  by (simp add: refs_def)

lemma refs_Nil [simp]: "refs [] i = 0" by (simp add: refs_def)

lemma kfree_all_append: "kfree_all (ps @ qs) s = Option.bind (kfree_all ps s) (kfree_all qs)"
  by (induction ps arbitrary: s) (auto split: bind_split)

text \<open>One \<open>kfree\<close>, then many: counts go down by the number of references, other pages keep their contents.\<close>

definition released :: "u64 list \<Rightarrow> kmem \<Rightarrow> kmem \<Rightarrow> bool" where
  "released ps s s' \<longleftrightarrow> length (pages s') = length (pages s) \<and> kernel_end s' = kernel_end s
     \<and> (\<forall>i < length (pages s). pages s' ! i = pages s ! i - of_nat (refs ps i))
     \<and> (\<forall>x. (\<forall>p\<in>set ps. \<not> in_rng p 4096 x) \<longrightarrow> phys s' x = phys s x)"

lemma kfree_released:
  assumes "pages_ok s" "ram_page p"
  shows "\<exists>s'. kfree p s = Some s' \<and> released [p] s s'"
proof -
  have r: "page_no p < length (pages s)" using assms by (simp only: pages_ok_def page_no_lt ram_page_def)
  have p0: "p \<noteq> 0" using assms(2) by (simp add: ram_page_def)
  show ?thesis using r p0
    by (auto simp: kfree_def Let_def released_def nth_list_update mem_simps)
qed

lemma released_trans: "released ps s s1 \<Longrightarrow> released qs s1 s2 \<Longrightarrow> released (ps @ qs) s s2"
  unfolding released_def by (simp add: diff_diff_eq)

lemma kfree_all_released:
  assumes "pages_ok s" "\<forall>p\<in>set ps. ram_page p"
  shows "\<exists>s'. kfree_all ps s = Some s' \<and> released ps s s'"
  using assms
proof (induction ps arbitrary: s)
  case (Cons p ps)
  obtain s1 where s1: "kfree p s = Some s1" "released [p] s s1" using kfree_released [OF Cons.prems(1)] Cons.prems(2) by auto
  have "pages_ok s1" using s1(2) Cons.prems(1) by (simp add: released_def pages_ok_def)
  then obtain s2 where s2: "kfree_all ps s1 = Some s2" "released ps s1 s2" using Cons.IH Cons.prems(2) by auto
  show ?case using s1(1) s2(1) released_trans [OF s1(2) s2(2)] by simp
qed (simp add: released_def)

lemma released_ok: "released ps s s' \<Longrightarrow> pages_ok s \<Longrightarrow> pages_ok s'"
  by (simp add: released_def pages_ok_def)

lemma released_keeps_tables:
  assumes "released ps s s'" "page_aligned pt" "\<forall>p\<in>set ps. page_aligned p \<and> p \<notin> tables (phys s) pt"
  shows "keeps_tables (phys s) (phys s') pt"
  unfolding keeps_tables_def
proof (intro ballI allI impI)
  fix t x assume t: "t \<in> tables (phys s) pt" "in_rng t 4096 x"
  have "\<not> in_rng p 4096 x" if "p \<in> set ps" for p
    using pages_disjoint [of t p x] t assms(3) that tables_aligned [OF assms(2) t(1)] by blast
  then show "phys s' x = phys s x" using assms(1) by (simp add: released_def)
qed

lemma on_walk_frame:
  assumes "keeps_tables m m' (it_pt it)"
  shows "on_walk m' it = on_walk m it"
proof (cases "page_aligned (it_pt it)")
  case True
  then show ?thesis using table_at_frame [OF True assms, of "3 - it_level it"] by (simp add: on_walk_def)
qed (simp add: on_walk_def)

section \<open>The pages\<close>

text \<open>The page addresses the first loop visits, and the physical pages it frees.\<close>

fun page_range :: "u64 \<Rightarrow> nat \<Rightarrow> u64 list" where
  "page_range va 0 = []"
| "page_range va (Suc n) = va # page_range (va + PAGESIZE) n"

fun mapped_pages :: "mem \<Rightarrow> u64 \<Rightarrow> u64 list \<Rightarrow> u64 list" where
  "mapped_pages m pt [] = []"
| "mapped_pages m pt (v # vs) =
     (case mapping m pt v of None \<Rightarrow> mapped_pages m pt vs | Some (pa, _) \<Rightarrow> pa # mapped_pages m pt vs)"

lemma mapped_pages_frame:
  "page_aligned pt \<Longrightarrow> keeps_tables m m' pt \<Longrightarrow> mapped_pages m' pt vs = mapped_pages m pt vs"
  by (induction vs) (simp_all add: mapping_frame cong: option.case_cong)

lemma exit_pages_frees:
  assumes "at_leaf (phys s) it" "it_pt it = pt" "no_junk (phys s) pt" "pages_ok s"
    and "unat (it_va it) + 4096 * n = 0x301000"
    and "\<forall>p\<in>set (mapped_pages (phys s) pt (page_range (it_va it) n)). ram_page p \<and> p \<notin> tables (phys s) pt"
  shows "exit_pages s it = kfree_all (mapped_pages (phys s) pt (page_range (it_va it) n)) s"
  using assms
proof (induction n arbitrary: s it)
  case 0
  then have "\<not> it_va it \<le> MEMSIZE_VIRTUAL" by (simp add: word_le_nat_alt)
  then show ?case by (subst exit_pages.simps) simp
next
  case (Suc n)
  let ?va = "it_va it" and ?m = "phys s"
  have al: "page_aligned pt" using Suc.prems(1,2) by (auto simp: at_leaf_def on_walk_def)
  have le: "?va \<le> MEMSIZE_VIRTUAL" using Suc.prems(5) by (simp add: word_le_nat_alt)
  have u: "unat (?va + PAGESIZE) = unat ?va + 4096" using Suc.prems(5) by (subst PAGESIZE_def, subst unat_add_lt) simp_all
  note mp = at_leaf_mapping [OF Suc.prems(1), unfolded Suc.prems(2)]
  let ?ps = "if vm_present ?m it then [vm_pa ?m it] else []"
  have ps: "mapped_pages ?m pt (page_range ?va (Suc n)) = ?ps @ mapped_pages ?m pt (page_range (?va + PAGESIZE) n)"
    using mp by simp
  have ram: "\<forall>p\<in>set ?ps. ram_page p \<and> p \<notin> tables ?m pt" using Suc.prems(6) unfolding ps by simp
  have first: "(if vm_present ?m it then kfree (vm_pa ?m it) s else Some s) = kfree_all ?ps s"
    by (cases "kfree (vm_pa ?m it) s") simp_all
  obtain s1 where s1: "kfree_all ?ps s = Some s1" "released ?ps s s1"
    using kfree_all_released [OF Suc.prems(4), of ?ps] ram by blast
  have k: "keeps_tables ?m (phys s1) pt"
    using released_keeps_tables [OF s1(2) al] ram by (auto simp: ram_page_def)
  have w: "on_walk (phys s1) it" using on_walk_frame [of ?m "phys s1" it] k Suc.prems(1,2) at_leaf_on_walk by simp
  have nj: "no_junk (phys s1) pt" by (rule no_junk_frame [OF al k Suc.prems(3)])
  obtain it1 where it1: "vm_add (phys s1) it PAGESIZE = Some it1" "at_leaf (phys s1) it1"
    "it_va it1 = ?va + PAGESIZE" "it_pt it1 = pt"
    using real_find_some [OF w, of "?va + PAGESIZE"] nj Suc.prems(2) by (auto simp: vm_add_def)
  have "exit_pages s1 it1 = kfree_all (mapped_pages (phys s1) pt (page_range (it_va it1) n)) s1"
  proof (rule Suc.IH [OF it1(2,4) nj released_ok [OF s1(2) Suc.prems(4)]])
    show "unat (it_va it1) + 4096 * n = 0x301000" using u Suc.prems(5) it1(3) by simp
    show "\<forall>p\<in>set (mapped_pages (phys s1) pt (page_range (it_va it1) n)). ram_page p \<and> p \<notin> tables (phys s1) pt"
      using Suc.prems(6) unfolding mapped_pages_frame [OF al k] tables_frame [OF al k] it1(3) ps by simp
  qed
  then have "exit_pages s1 it1 = kfree_all (mapped_pages ?m pt (page_range (?va + PAGESIZE) n)) s1"
    unfolding mapped_pages_frame [OF al k] it1(3) .
  then have "exit_pages s it = kfree_all (?ps @ mapped_pages ?m pt (page_range (?va + PAGESIZE) n)) s"
    unfolding kfree_all_append s1(1) using le it1(1) by (subst exit_pages.simps) (simp only: first s1(1) if_True Option.bind.simps)
  then show ?case unfolding ps .
qed

section \<open>The tables\<close>

lemma exit_tables_frees:
  assumes "page_aligned pt" "outcome m pt (Some it) vs" "pages_ok s"
    and "keeps_pages m (phys s) (insert pt (set vs))" "distinct vs" "pt \<notin> set vs" "\<forall>p\<in>set vs. ram_page p"
  shows "exit_tables s it = kfree_all vs s"
  using assms(2-)
proof (induction vs arbitrary: s it)
  case Nil
  then show ?case by (subst exit_tables.simps) (simp add: outcome_def)
next
  case (Cons x xs)
  obtain va d where it: "it = at_pos m pt va d" and v: "valid_pos m pt va d"
    and t: "table_at m pt va (Suc d) \<noteq> None" and x: "tb m pt va (Suc d) = x" and xs: "visits_after m pt va d = xs"
    using Cons.prems(1) by (auto simp: outcome_def)
  have keep: "keeps_pages m (phys s) (insert pt (set (visits_after m pt va d)))"
    unfolding xs by (rule keeps_pages_mono [OF Cons.prems(3)]) auto
  have pa: "pt_pa (phys s) it = x" unfolding it x [symmetric] by (rule pos_pa [OF assms(1) t keep])
  obtain s1 where s1: "kfree x s = Some s1" "released [x] s s1"
    using kfree_released [OF Cons.prems(2)] Cons.prems(6) by auto
  have keep1: "keeps_pages m (phys s1) (insert pt (set xs))"
    unfolding keeps_pages_def
  proof (intro ballI allI impI)
    fix p y assume p: "p \<in> insert pt (set xs)" "in_rng p 4096 y"
    have "page_aligned p" using p(1) assms(1) Cons.prems(6) by (auto simp: ram_page_def)
    moreover have "page_aligned x" using Cons.prems(6) by (simp add: ram_page_def)
    moreover have "p \<noteq> x" using p(1) Cons.prems(4,5) by auto
    ultimately have "\<not> in_rng x 4096 y" using pages_disjoint p(2) by blast
    then have "phys s1 y = phys s y" using s1(2) by (simp add: released_def)
    also have "\<dots> = m y" using Cons.prems(3) p by (auto simp: keeps_pages_def)
    finally show "phys s1 y = m y" .
  qed
  have "outcome m pt (pt_next (phys s1) it) xs"
    unfolding it using visit_next [OF assms(1) v, of "phys s1"] keep1 unfolding xs .
  moreover from this obtain it1 where it1: "pt_next (phys s1) it = Some it1" unfolding outcome_def by (auto split: list.splits)
  ultimately have "exit_tables s1 it1 = kfree_all xs s1"
    using Cons.IH [of it1 s1] keep1 Cons.prems released_ok [OF s1(2)] by simp
  then show ?case using pos_active [OF v] pa s1(1) it1 it by (subst exit_tables.simps) simp
qed

section \<open>Properties\<close>

abbreviation user_pages :: "u64 list" where
  "user_pages \<equiv> page_range PROC_START_ADDR 513"

definition exit_ok :: "kmem \<Rightarrow> u64 \<Rightarrow> bool" where
  "exit_ok s pt \<longleftrightarrow> pages_ok s \<and> pt_tree (phys s) pt \<and> no_junk (phys s) pt
     \<and> (\<forall>t\<in>tables (phys s) pt. ram_page t)
     \<and> (\<forall>p\<in>set (mapped_pages (phys s) pt user_pages). ram_page p \<and> p \<notin> tables (phys s) pt)"

lemma keeps_tables_pages:
  "keeps_tables m m' pt \<Longrightarrow> S \<subseteq> tables m pt \<Longrightarrow> keeps_pages m m' S"
  by (auto simp: keeps_tables_def keeps_pages_def)

lemma exit_memory_frees:
  assumes "exit_ok s pt"
  shows "exit_memory pt s = kfree_all (mapped_pages (phys s) pt user_pages @ postorder (phys s) pt @ [pt]) s"
proof -
  let ?m = "phys s" and ?us = "mapped_pages (phys s) pt user_pages"
  have ok: "pages_ok s" and tree: "pt_tree ?m pt" and nj: "no_junk ?m pt"
    and tr: "\<forall>t\<in>tables ?m pt. ram_page t" and ur: "\<forall>p\<in>set ?us. ram_page p \<and> p \<notin> tables ?m pt"
    using assms by (simp_all add: exit_ok_def)
  have al: "page_aligned pt" by (rule pt_tree_aligned [OF tree])
  obtain it where it: "real_find ?m (root_iter pt) PROC_START_ADDR = Some it" "at_leaf ?m it" "it_va it = PROC_START_ADDR" "it_pt it = pt"
    using real_find_some [OF root_on_walk [OF al], of ?m] nj by auto
  have new: "vmiter_new ?m pt PROC_START_ADDR = Some it" using it(1) by (simp add: vmiter_new_def)
  have ex: "exit_pages s it = kfree_all ?us s"
    using exit_pages_frees [OF it(2,4) nj ok, of 513] ur it(3) by simp
  obtain s1 where s1: "kfree_all ?us s = Some s1" "released ?us s s1" using kfree_all_released [OF ok] ur by blast
  have k: "keeps_tables ?m (phys s1) pt" using released_keeps_tables [OF s1(2) al] ur by (auto simp: ram_page_def)
  note po = postorder_tables [OF tree]
  have kp: "keeps_pages ?m (phys s1) (insert pt (set (postorder ?m pt)))"
    by (rule keeps_tables_pages [OF k]) (use po(2) root_in_tables in auto)
  have out: "outcome ?m pt (ptiter_new (phys s1) pt 0) (postorder ?m pt)" by (rule visit_new [OF al kp])
  obtain pit where pit: "ptiter_new (phys s1) pt 0 = Some pit"
    using out unfolding outcome_def by (auto split: list.splits)
  have et: "exit_tables s1 pit = kfree_all (postorder ?m pt) s1"
    by (rule exit_tables_frees [OF al out [unfolded pit] released_ok [OF s1(2) ok] kp po(1)])
      (use po(2) tr in auto)
  have one: "kfree_all [pt] x = kfree pt x" for x by (cases "kfree pt x") simp_all
  have "exit_memory pt s = Option.bind (kfree_all (postorder ?m pt) s1) (kfree pt)"
    by (simp only: exit_memory_def new ex s1(1) pit et Option.bind.simps)
  then show ?thesis
    unfolding kfree_all_append s1(1) by (cases "kfree_all (postorder ?m pt) s1") (simp_all add: one del: kfree_all.simps)
qed

text \<open>
  C5: \<open>exit\<close> (and \<open>kill\<close>) of a process returns and releases exactly what the process holds: one
  reference of the physical page behind every page mapped in its region, and one of each page
  of its page table, each table once although the tables are overwritten while the walk reads
  them. No other reference count and no other memory changes, and the slot is free.
\<close>

theorem exit_releases:
  assumes "exit_ok (km k) pt" "pid_ok pid" "p_pagetable (ptable k ! nat pid) = pt" "length (ptable k) = NPROC"
  shows "\<exists>k' ts. exit_proc pid k = Some k' \<and> distinct ts \<and> set ts = tables (kphys k) pt
    \<and> released (mapped_pages (kphys k) pt user_pages @ ts) (km k) (km k')
    \<and> k' = k\<lparr>km := km k', ptable := (ptable k)[nat pid := (ptable k ! nat pid)\<lparr>p_state := P_FREE\<rparr>]\<rparr>"
proof -
  let ?m = "kphys k" and ?ts = "postorder (kphys k) pt @ [pt]"
  have tree: "pt_tree ?m pt" and ok: "pages_ok (km k)" using assms(1) by (simp_all add: exit_ok_def)
  note po = postorder_tables [OF tree]
  have ts: "distinct ?ts" "set ?ts = tables ?m pt" using po root_in_tables [of pt ?m] by auto
  have ram: "\<forall>p\<in>set (mapped_pages ?m pt user_pages @ ?ts). ram_page p"
    using assms(1) ts(2) by (auto simp: exit_ok_def)
  obtain s where s: "kfree_all (mapped_pages ?m pt user_pages @ ?ts) (km k) = Some s"
    "released (mapped_pages ?m pt user_pages @ ?ts) (km k) s"
    using kfree_all_released [OF ok ram] by blast
  have pt0: "pt \<noteq> 0" using ram by (simp add: ram_page_def)
  have "exit_proc pid k = Some (upd_proc (nat pid) (\<lambda>p. p\<lparr>p_state := P_FREE\<rparr>) (k\<lparr>km := s\<rparr>))"
    using assms(2,3) pt0 exit_memory_frees [OF assms(1)] s(1) by (simp add: exit_proc_def)
  then show ?thesis using ts s(2) by (intro exI [of _ "upd_proc (nat pid) (\<lambda>p. p\<lparr>p_state := P_FREE\<rparr>) (k\<lparr>km := s\<rparr>)"] exI [of _ ?ts]) simp
qed

lemma mapped_pages_none: "(\<And>v. mapping m pt v = None) \<Longrightarrow> mapped_pages m pt vs = []"
  by (induction vs) simp_all

lemma tables_zeros: "tables (\<lambda>_. 0) pt = {pt}"
  by (auto simp: tables_def table_at_zero split: if_splits intro: exI [of _ 0])

lemma kernel_pa_exit:
  "exit_ok (km kernel_pa) 0x1000" "mapped_pages (kphys kernel_pa) 0x1000 user_pages = []"
  "tables (kphys kernel_pa) 0x1000 = {0x1000}"
proof -
  have m: "kphys kernel_pa = (\<lambda>_. 0)" by (simp add: kernel_pa_def kmem1_def)
  show n: "mapped_pages (kphys kernel_pa) 0x1000 user_pages = []"
    unfolding m by (rule mapped_pages_none) (simp add: mapping_def pt_entry_zeros)
  show t: "tables (kphys kernel_pa) 0x1000 = {0x1000}" unfolding m by (rule tables_zeros)
  have r: "ram_page 0x1000" by (simp add: ram_page_def)
  show "exit_ok (km kernel_pa) 0x1000"
    using kernel_pa_inv(1,2) n t r by (auto simp: exit_ok_def pt_inv_def)
qed

lemma kernel_pa_slot: "p_pagetable (ptable kernel_pa ! nat 1) = 0x1000" "length (ptable kernel_pa) = NPROC"
  by (simp_all add: kernel_pa_def kernel_ex_def)

theorem exit_releases_witness:
  "\<exists>k'. exit_proc 1 kernel_pa = Some k' \<and> pages (km k') ! 1 = 0"
proof -
  obtain k' ts where k': "exit_proc 1 kernel_pa = Some k'" "distinct ts" "set ts = {0x1000}"
    "released ts (km kernel_pa) (km k')"
    using exit_releases [OF kernel_pa_exit(1) _ kernel_pa_slot] kernel_pa_exit(2,3) by auto
  have "length ts = 1" using distinct_card [OF k'(2)] k'(3) by simp
  then have "ts = [0x1000]" using k'(3) by (cases ts) auto
  then have "pages (km k') ! 1 = 0" using k'(4) by (simp add: released_def kernel_pa_def kmem1_def)
  then show ?thesis using k'(1) by blast
qed

section \<open>Killing a dead process\<close>







end
