(* ===== verification/KernelCopy.thy ===== *)
theory KernelCopy
  imports KernelExit
begin

text \<open>
  The steps \<open>fork\<close> is made of: reading a page of the parent, mapping a page in the child, giving up,
  and the loop over the kernel's part of the address space. The invariant \<open>fork_inv\<close> accounts for
  every reference count: since the start of the call it has grown by the references the child
  holds, so that giving up restores all of them.
\<close>

section \<open>Reference counts\<close>

definition page_at :: "nat \<Rightarrow> u64" where
  "page_at i = of_nat (4096 * i)"

lemma page_at_no:
  assumes "page_aligned p" "p < MEMSIZE_PHYSICAL"
  shows "page_at (page_no p) = p" "page_no p < 512"
proof -
  obtain n where n: "unat p = 4096 * n" using assms(1) by (auto simp: page_aligned_dvd elim: dvdE)
  have "page_no p = n" using n by (simp add: unat_div)
  then show "page_at (page_no p) = p" using n unfolding page_at_def by (metis of_nat_unat ucast_id)
  show "page_no p < 512" using page_no_lt [OF assms(2)] by simp
qed

lemma page_at_ram:
  assumes "i < 512"
  shows "page_aligned (page_at i)" "page_no (page_at i) = i" "page_at i < MEMSIZE_PHYSICAL"
proof -
  have u: "unat (page_at i) = 4096 * i" unfolding page_at_def using assms by (subst unat_of_nat) simp
  show "page_aligned (page_at i)" by (simp add: page_aligned_dvd u)
  show "page_no (page_at i) = i" by (simp add: unat_div u)
  show "page_at i < MEMSIZE_PHYSICAL" using assms by (simp add: word_less_nat_alt u)
qed

text \<open>Taking pages from \<open>kalloc\<close> changes the counts of free pages from 0 to 1, and nothing else.\<close>

definition took_pages :: "kmem \<Rightarrow> kmem \<Rightarrow> bool" where
  "took_pages s s' \<longleftrightarrow> length (pages s') = length (pages s) \<and> kernel_end s' = kernel_end s
     \<and> (\<forall>i<512. pages s' ! i = pages s ! i \<or> pages s ! i = 0 \<and> pages s' ! i = 1 \<and> free_page s (page_at i))"

lemma took_refl: "took_pages s s" by (simp add: took_pages_def)

lemma free_used: "kernel_end s' = kernel_end s \<Longrightarrow> pages s' ! page_no p = pages s ! page_no p \<Longrightarrow>
  free_page s' p = free_page s p"
  by (simp add: free_page_def)

lemma took_free:
  assumes "took_pages s s'" "free_page s' p"
  shows "free_page s p"
proof -
  have i: "page_no p < 512" "page_at (page_no p) = p" using page_at_no [of p] free_page_range [OF assms(2)] by auto
  have "pages s' ! page_no p = 0" using assms(2) by (simp add: free_page_def used_def)
  then have "pages s' ! page_no p = pages s ! page_no p" using assms(1) i(1) by (force simp: took_pages_def)
  then show ?thesis using free_used [of s' s p] assms by (simp add: took_pages_def)
qed

lemma took_trans:
  assumes a: "took_pages s s1" and b: "took_pages s1 s2"
  shows "took_pages s s2"
  unfolding took_pages_def
proof (intro conjI allI impI)
  fix i :: nat assume i: "i < 512"
  have A: "pages s1 ! i = pages s ! i \<or> pages s ! i = 0 \<and> pages s1 ! i = 1 \<and> free_page s (page_at i)"
    using a i by (simp add: took_pages_def)
  have B: "pages s2 ! i = pages s1 ! i \<or> pages s1 ! i = 0 \<and> pages s2 ! i = 1 \<and> free_page s (page_at i)"
    using b i took_free [OF a] by (auto simp: took_pages_def)
  show "pages s2 ! i = pages s ! i \<or> pages s ! i = 0 \<and> pages s2 ! i = 1 \<and> free_page s (page_at i)"
    using A B by auto
qed (use a b in \<open>simp_all add: took_pages_def\<close>)

lemma took_phys: "took_pages s s' \<Longrightarrow> took_pages s (s'\<lparr>phys := m\<rparr>)"
  by (simp add: took_pages_def)

lemma took_kalloc: "pages_ok s \<Longrightarrow> took_pages s (snd (kalloc PAGESIZE s))"
proof -
  assume ok: "pages_ok s"
  obtain p s' where a: "kalloc PAGESIZE s = (p, s')" by fastforce
  show "took_pages s (snd (kalloc PAGESIZE s))"
  proof (cases rule: kalloc_cases [OF a order_refl, case_names none page])
    case page
    note r = free_page_range [OF page(2)]
    have "page_at i = p" "pages s ! i = 0" if "i < 512" "i = page_no p" for i
      using page_at_no [of p] r that page(2) by (auto simp: free_page_def used_def)
    moreover have "page_no p < length (pages s)" using page_at_no(2) r ok by (simp add: pages_ok_def)
    ultimately show ?thesis using page a by (auto simp: took_pages_def nth_list_update)
  qed (use a took_refl in auto)
qed

lemma kalloc_counts:
  assumes ok: "pages_ok s" and al: "kalloc PAGESIZE s = (p, s1)" "p \<noteq> 0" and i: "i < 512"
  shows "pages s1 ! i = pages s ! i + (if page_at i = p then 1 else 0)"
proof (cases rule: kalloc_cases [OF al(1) order_refl, case_names none page])
  case page
  note r = free_page_range [OF page(2)]
  have len: "page_no p < length (pages s)" using page_at_no(2) [of p] r ok by (simp add: pages_ok_def)
  have at: "page_at (page_no p) = p" using page_at_no(1) r by blast
  have p1: "pages s1 = (pages s)[page_no p := 1]" using page(4) by simp
  have free: "pages s ! page_no p = 0" using page(2) unfolding free_page_def used_def by blast
  show ?thesis
  proof (cases "page_at i = p")
    case True
    have "page_no (page_at i) = i" by (rule page_at_ram(2) [OF i])
    then have "page_no p = i" unfolding True .
    then show ?thesis using True len free by (simp only: p1 nth_list_update_eq if_True add_0 refl)
  next
    case False
    have "page_no p \<noteq> i"
    proof
      assume "page_no p = i"
      then have "page_at i = p" using at by (simp only:)
      then show False using False by blast
    qed
    then show ?thesis using False by (simp only: p1 nth_list_update_neq if_False add_0_right not_False_eq_True)
  qed
qed (use al(2) in simp)

lemma took_map_loop:
  assumes "map_loop (kalloc PAGESIZE) s it perm = Some x" "pages_ok s"
  shows "took_pages s (snd (snd x))"
proof -
  have "alloc = kalloc PAGESIZE \<Longrightarrow> pages_ok s \<Longrightarrow> took_pages s (snd (snd x))"
    if "map_loop alloc s it perm = Some x" for alloc s it perm x
  proof (rule map_loop.raw_induct [OF _ that, where P = "\<lambda>alloc s it perm x. alloc = kalloc PAGESIZE \<longrightarrow> pages_ok s \<longrightarrow> took_pages s (snd (snd x))", THEN mp, THEN mp], intro impI)
    fix ml :: "(kmem \<Rightarrow> u64 \<times> kmem) \<Rightarrow> kmem \<Rightarrow> vmiter \<Rightarrow> u64 \<Rightarrow> (int \<times> vmiter \<times> kmem) option"
      and alloc s it perm x
    assume IH: "\<And>alloc s it perm x. ml alloc s it perm = Some x \<Longrightarrow>
        alloc = kalloc PAGESIZE \<longrightarrow> pages_ok s \<longrightarrow> took_pages s (snd (snd x))"
      and e: "(if 0 < it_level it \<and> perm \<noteq> 0 then
        if cur_pe (phys s) it AND PTE_P \<noteq> 0 then None
        else if fst (alloc s) = 0 then Some (- 1, it, snd (alloc s))
        else Option.bind
          (store_pe (mem_fill (phys (snd (alloc s))) (fst (alloc s)) 0 PAGESIZE) (it_pep it)
             (fst (alloc s) OR PTE_P OR PTE_W OR PTE_U))
          (\<lambda>m. Option.bind (vm_down m it) (\<lambda>it'. ml alloc ((snd (alloc s))\<lparr>phys := m\<rparr>) it' perm))
      else Some (0, it, s)) = Some x"
      and al: "alloc = kalloc PAGESIZE" and ok: "pages_ok s"
    let ?s1 = "snd (kalloc PAGESIZE s)"
    have t1: "took_pages s ?s1" by (rule took_kalloc [OF ok])
    have ok1: "pages_ok (?s1\<lparr>phys := m\<rparr>)" for m using t1 ok by (simp add: took_pages_def pages_ok_def)
    have ih: "ml (kalloc PAGESIZE) (?s1\<lparr>phys := m\<rparr>) it' perm = Some x \<Longrightarrow> took_pages s (snd (snd x))" for m it'
      using IH al ok1 took_trans [OF took_phys [OF t1]] by blast
    show "took_pages s (snd (snd x))"
      using e t1 took_refl ih unfolding al
      by (auto split: if_splits bind_splits)
  qed
  then show ?thesis using assms by blast
qed

section \<open>The invariant of the copy\<close>

definition counted :: "kmem \<Rightarrow> u64 \<Rightarrow> u64 list \<Rightarrow> kmem \<Rightarrow> bool" where
  "counted s0 C hold s \<longleftrightarrow> (\<forall>i<512. pages s ! i =
     pages s0 ! i + of_nat (refs hold i) + (if page_at i \<in> tables (phys s) C then 1 else 0))"

definition fork_inv :: "kmem \<Rightarrow> u64 \<Rightarrow> u64 list \<Rightarrow> kmem \<Rightarrow> bool" where
  "fork_inv s0 C hold s \<longleftrightarrow> pages_ok s \<and> kernel_end s = kernel_end s0 \<and> pt_inv free_page s C
     \<and> (\<forall>v. va_is_canonical v \<longrightarrow> small_at (phys s) C v)
     \<and> (\<forall>t\<in>tables (phys s) C. free_page s0 t)
     \<and> (\<forall>q. free_page s q \<longrightarrow> free_page s0 q)
     \<and> (\<forall>x. (\<forall>q. free_page s0 q \<longrightarrow> \<not> in_rng q 4096 x) \<longrightarrow> phys s x = phys s0 x)
     \<and> counted s0 C hold s"

text \<open>What a step of the copy leaves alone: pages in use that are not tables of the child.\<close>

definition copy_step :: "u64 \<Rightarrow> kmem \<Rightarrow> kmem \<Rightarrow> bool" where
  "copy_step C s s' \<longleftrightarrow> (\<forall>q. free_page s' q \<longrightarrow> free_page s q)
     \<and> (\<forall>t\<in>tables (phys s') C. t \<in> tables (phys s) C \<or> free_page s t)
     \<and> (\<forall>p x. page_aligned p \<longrightarrow> p \<notin> tables (phys s) C \<longrightarrow> \<not> free_page s p \<longrightarrow> in_rng p 4096 x \<longrightarrow> phys s' x = phys s x)"

lemma copy_refl: "copy_step C s s" by (simp add: copy_step_def)

lemma copy_trans:
  assumes a: "copy_step C s s1" and b: "copy_step C s1 s2"
  shows "copy_step C s s2"
  unfolding copy_step_def
proof (intro conjI allI ballI impI)
  fix p x assume p: "page_aligned p" "p \<notin> tables (phys s) C" "\<not> free_page s p" "in_rng p 4096 x"
  then have "p \<notin> tables (phys s1) C" "\<not> free_page s1 p" using a unfolding copy_step_def by blast+
  then have "phys s2 x = phys s1 x" using b p unfolding copy_step_def by blast
  then show "phys s2 x = phys s x" using a p unfolding copy_step_def by metis
qed (use a b in \<open>unfold copy_step_def, blast+\<close>)

lemma took_counts:
  assumes tk: "took_pages s s'" and st: "pt_step free_page s s' C" and ow: "owned free_page s C"
    and al: "page_aligned C" and ok: "pages_ok s" and i: "i < 512"
  shows "pages s' ! i = pages s ! i + (if page_at i \<in> tables (phys s') C then 1 else 0)
    - (if page_at i \<in> tables (phys s) C then 1 else 0)"
proof -
  let ?p = "page_at i"
  note pg = page_at_ram [OF i] page_at_ram(2) [OF i, unfolded PAGESIZE_def]
  have fr: "free_page s' ?p \<longleftrightarrow> free_page s ?p \<and> ?p \<notin> tables (phys s') C" by (rule pt_step_avail [OF st])
  have new: "?p \<in> tables (phys s') C \<longleftrightarrow> ?p \<in> tables (phys s) C \<or> free_page s ?p \<and> \<not> free_page s' ?p"
    using fr pt_step_new [OF st, of ?p] pt_step_tables [OF st, of ?p] by blast
  have old: "?p \<in> tables (phys s) C \<Longrightarrow> \<not> free_page s ?p" using ow by (simp add: owned_def)
  have cases: "pages s' ! i = pages s ! i \<or> pages s ! i = 0 \<and> pages s' ! i = 1 \<and> free_page s ?p"
    using tk i by (simp add: took_pages_def)
  have ke: "kernel_end s' = kernel_end s" using tk by (simp add: took_pages_def)
  have f0: "free_page s ?p \<Longrightarrow> pages s ! i = 0" by (simp add: free_page_def used_def pg(2,4))
  have f1: "free_page s ?p \<Longrightarrow> \<not> free_page s' ?p \<Longrightarrow> pages s' ! i \<noteq> 0"
    using ke by (simp add: free_page_def used_def pg(2,4))
  have f2: "free_page s' ?p \<Longrightarrow> pages s' ! i = 0" by (simp add: free_page_def used_def pg(2,4))
  show ?thesis
  proof (cases "free_page s ?p \<and> \<not> free_page s' ?p")
    case True
    then have "pages s ! i = 0" "pages s' ! i = 1" "?p \<in> tables (phys s') C" "?p \<notin> tables (phys s) C"
      using f0 f1 cases new old by auto
    then show ?thesis by simp
  next
    case False
    then have "pages s' ! i = pages s ! i" using cases f2 by auto
    moreover have "?p \<in> tables (phys s') C \<longleftrightarrow> ?p \<in> tables (phys s) C" using new False by blast
    ultimately show ?thesis by simp
  qed
qed

text \<open>
  \<open>try_map\<close> in any well-formed address space: it writes only tables of that space, and every page
  whose count changes has become one of them.
\<close>

lemma map_any:
  assumes ok: "pages_ok s" and pinv: "pt_inv free_page s C" and rd: "ready (phys s) it" "it_pt it = C"
    and pa: "pa = (if pa0 = - 1 \<and> perm = 0 then 0 else pa0)"
    and as: "map_asserts it pa perm" "pa < 0x100000000" "perm < 4096"
  obtains r it' s' where "try_map (kalloc PAGESIZE) s it pa0 perm = Some (r, it', s')"
    and "pages_ok s'" "kernel_end s' = kernel_end s" "map_result free_page s it pa perm r s'" "pt_step free_page s s' C"
    and "copy_step C s s'" "on_walk (phys s') it"
    and "\<forall>i<512. pages s ! i \<noteq> 0 \<longrightarrow> pages s' ! i = pages s ! i"
    and "\<forall>i<512. pages s' ! i = pages s ! i + (if page_at i \<in> tables (phys s') C then 1 else 0)
      - (if page_at i \<in> tables (phys s) C then 1 else 0)"
proof -
  have al: "page_aligned C" using pinv pt_tree_aligned by (auto simp: pt_inv_def)
  have ow: "owned free_page s C" using pinv by (simp add: pt_inv_def)
  obtain r it' s' where tm: "try_map (kalloc PAGESIZE) s it pa0 perm = Some (r, it', s')"
    and ok': "pages_ok s'" and mr: "map_result free_page s it pa perm r s'"
    using try_map_exact [OF ok pinv [folded rd(2)] rd(1) pa as] by blast
  have st: "pt_step free_page s s' C" using mr rd(2) by (simp add: map_result_def)
  have tk: "took_pages s s'"
    using tm took_map_loop [OF _ ok] took_phys
    by (fastforce simp: try_map_def Let_def split: if_splits bind_splits)
  note tab = pt_step_new [OF st] and av = pt_step_avail [OF st]
  have cs: "copy_step C s s'"
    unfolding copy_step_def
  proof (intro conjI allI ballI impI)
    fix p x assume p: "page_aligned p" "p \<notin> tables (phys s) C" "\<not> free_page s p" "in_rng p 4096 x"
    have al': "page_aligned C" by (rule al)
    have "\<not> in_rng t 4096 x" if t: "t \<in> tables (phys s') C" for t
      using pages_disjoint [OF p(1) tables_aligned [OF al' t] _ p(4)] tab [OF t] p(2,3) by blast
    then show "phys s' x = phys s x" using pt_step_frame [OF st] by blast
  qed (use tab av in blast)+
  have ow': "on_walk (phys s') it"
    using rd pt_step_at [OF st, of "3 - it_level it" "it_va it"] by (auto simp: ready_def on_walk_def)
  have ke: "kernel_end s' = kernel_end s" using tk by (simp add: took_pages_def)
  have "\<forall>i<512. pages s ! i \<noteq> 0 \<longrightarrow> pages s' ! i = pages s ! i" using tk by (auto simp: took_pages_def)
  then show ?thesis using that [OF tm ok' ke mr st cs ow'] took_counts [OF tk st ow al ok] by blast
qed

text \<open>A page table entry of the child is written, or memory runs out: the invariant is kept.\<close>

lemma map_step:
  assumes inv: "fork_inv s0 C hold s" and rd: "ready (phys s) it" "it_pt it = C"
    and pa: "pa = (if pa0 = - 1 \<and> perm = 0 then 0 else pa0)"
    and as: "map_asserts it pa perm" "pa < 0x100000000" "perm < 4096"
  obtains r it' s' where "try_map (kalloc PAGESIZE) s it pa0 perm = Some (r, it', s')"
    and "fork_inv s0 C hold s'" "copy_step C s s'" "on_walk (phys s') it"
    and "\<forall>i<512. pages s ! i \<noteq> 0 \<longrightarrow> pages s' ! i = pages s ! i"
    and "r = 0 \<and> (\<forall>v. mapping (phys s') C v = (if agree 12 (it_va it) v then mapped_page pa perm v else mapping (phys s) C v))
      \<or> r = - 1 \<and> (\<forall>v. mapping (phys s') C v = mapping (phys s) C v)"
proof -
  have ok: "pages_ok s" and pinv: "pt_inv free_page s C" using inv by (simp_all add: fork_inv_def)
  obtain r it' s' where tm: "try_map (kalloc PAGESIZE) s it pa0 perm = Some (r, it', s')"
    and ok': "pages_ok s'" and ke: "kernel_end s' = kernel_end s" and mr: "map_result free_page s it pa perm r s'"
    and st: "pt_step free_page s s' C" and cs: "copy_step C s s'" and ow': "on_walk (phys s') it"
    and old: "\<forall>i<512. pages s ! i \<noteq> 0 \<longrightarrow> pages s' ! i = pages s ! i"
    and cnt: "\<forall>i<512. pages s' ! i = pages s ! i + (if page_at i \<in> tables (phys s') C then 1 else 0)
      - (if page_at i \<in> tables (phys s) C then 1 else 0)"
    by (rule map_any [OF ok pinv rd pa as])
  have pinv': "pt_inv free_page s' C" and sm: "\<And>v. small_at (phys s) C v \<Longrightarrow> small_at (phys s') C v"
    using mr rd(2) by (simp_all add: map_result_def)
  note tab = pt_step_new [OF st] and av = pt_step_avail [OF st]
  have "counted s0 C hold s'"
    using inv cnt by (simp add: fork_inv_def counted_def)
  moreover have "phys s' x = phys s0 x" if x: "\<forall>q. free_page s0 q \<longrightarrow> \<not> in_rng q 4096 x" for x
  proof -
    have "\<not> in_rng t 4096 x" if "t \<in> tables (phys s') C" for t
      using tab [OF that] inv x unfolding fork_inv_def by blast
    then have "phys s' x = phys s x" using pt_step_frame [OF st] by blast
    then show ?thesis using inv x by (simp add: fork_inv_def)
  qed
  moreover have "\<forall>t\<in>tables (phys s') C. free_page s0 t" using tab inv unfolding fork_inv_def by blast
  moreover have "kernel_end s' = kernel_end s0" using ke inv by (simp add: fork_inv_def)
  ultimately have inv': "fork_inv s0 C hold s'"
    using inv ok' pinv' sm av by (simp add: fork_inv_def)
  have "r = 0 \<and> (\<forall>v. mapping (phys s') C v = (if agree 12 (it_va it) v then mapped_page pa perm v else mapping (phys s) C v))
      \<or> r = - 1 \<and> (\<forall>v. mapping (phys s') C v = mapping (phys s) C v)"
    using mr rd(2) by (auto simp: map_result_def)
  then show ?thesis using that tm inv' cs ow' old by blast
qed

text \<open>The child's iterator moves to the next page and can map there.\<close>

lemma child_iter:
  assumes "fork_inv s0 C hold s" "on_walk (phys s) it" "it_pt it = C" "va_is_canonical va"
  obtains it' where "real_find (phys s) it va = Some it'" "ready (phys s) it'" "it_pt it' = C" "it_va it' = va"
    "it_perm it' AND 7 = 7"
proof -
  have nj: "no_junk (phys s) (it_pt it)" using assms(1,3) by (simp add: fork_inv_def pt_inv_def)
  obtain it' where it': "real_find (phys s) it va = Some it'" "at_leaf (phys s) it'" "it_va it' = va" "it_pt it' = C"
    using real_find_some [OF assms(2) nj] assms(3) by metis
  have "pt_entry (phys s) C va = (it_level it', cur_pe (phys s) it', it_perm it')"
    using at_leaf_entry [OF it'(2)] it'(3,4) by simp
  moreover have "small_at (phys s) C va" using assms(1,4) by (simp add: fork_inv_def)
  ultimately show ?thesis
    using that it' assms(4) by (auto simp: small_at_def ready_def at_leaf_on_walk)
qed

section \<open>Reading the parent's pages\<close>

lemma table_at_perm_low: "table_at m pt va d = Some (t, p) \<Longrightarrow> bit p i \<Longrightarrow> i < 12"
proof (induction d arbitrary: t p)
  case 0
  then show ?case using bit_FFF [of i] by simp
next
  case (Suc d)
  then show ?case by (auto simp: Let_def bit_and_iff split: option.splits if_splits)
qed

lemma low_bits_lt: "(\<And>i. bit p i \<Longrightarrow> i < 12) \<Longrightarrow> p < (4096 :: u64)"
proof -
  assume a: "\<And>i. bit p i \<Longrightarrow> i < 12"
  have "take_bit 12 p = p" by (intro bit_word_eqI) (auto simp: bit_take_bit_iff dest: a)
  then have "unat p = unat p mod 4096" by (simp add: take_bit_eq_mod word_unat_eq_iff unat_mod)
  then have "unat p < 4096" by (metis mod_less_divisor zero_less_numeral)
  then show ?thesis by (simp add: word_less_nat_alt)
qed

text \<open>
  What the loops read at a page-aligned address: the page behind it, or nothing. \<open>read_pa\<close> is the
  address that \<open>try_map\<close> ends up using.
\<close>

definition read_pa :: "mem \<Rightarrow> vmiter \<Rightarrow> u64" where
  "read_pa m it = (if vm_pa m it = - 1 \<and> vm_perm m it = 0 then 0 else vm_pa m it)"

lemma source_read:
  assumes "at_leaf m it" "page_aligned (it_va it)"
  shows "vm_present m it \<Longrightarrow> page_aligned (vm_pa m it)"
    and "vm_present m it \<Longrightarrow> vm_perm m it AND PTE_P \<noteq> 0"
    and "\<not> vm_present m it \<Longrightarrow> vm_perm m it = 0 \<and> read_pa m it = 0"
    and "vm_perm m it < 4096"
proof -
  have ow: "on_walk m it" by (rule at_leaf_on_walk [OF assms(1)])
  have lo: "\<not> bit (it_va it) i" if "i < 12" for i using assms(2) that by (simp add: page_aligned_iff)
  show "page_aligned (vm_pa m it)" if p: "vm_present m it"
  proof -
    let ?b = "if 0 < it_level it then (cur_pe m it AND PTE_PAMASK) AND NOT 0x1000 else cur_pe m it AND PTE_PAMASK"
    let ?o = "it_va it AND pageoffmask (it_level it)"
    have e: "vm_pa m it = ?b + ?o" using p unfolding vm_pa_def vm_present_def by (simp only: Let_def if_True simp_thms not_False_eq_True)
    have "4096 dvd unat ?b" "4096 dvd unat ?o"
      using page_aligned_PAMASK [of "cur_pe m it"] lo
      unfolding page_aligned_dvd [symmetric] page_aligned_iff by (auto simp: bit_and_iff)
    then have "4096 dvd (unat ?b + unat ?o) mod 2 ^ 64" by (simp add: dvd_mod_iff)
    then show ?thesis unfolding e by (simp add: page_aligned_dvd unat_word_ariths)
  qed
  show "vm_perm m it AND PTE_P \<noteq> 0" if p: "vm_present m it"
    using p on_walk_perm_bit [OF ow] present_bit [of "vm_perm m it"] present_bit [of "cur_pe m it"]
    by (auto simp: vm_perm_def vm_present_def bit_and_iff)
  show "vm_perm m it = 0 \<and> read_pa m it = 0" if "\<not> vm_present m it"
    using that by (simp add: vm_perm_def vm_present_def read_pa_def vm_pa_def)
  have "bit (it_perm it) i \<Longrightarrow> i < 12" for i
    using ow table_at_perm_low by (auto simp: on_walk_def split: if_splits)
  then show "vm_perm m it < 4096"
    by (intro low_bits_lt) (auto simp: vm_perm_def bit_and_iff split: if_splits)
qed

lemma aligned_offset: "page_aligned v \<Longrightarrow> v AND PAGEOFFMASK = 0" by (simp add: page_aligned_def)

lemma source_map:
  assumes "at_leaf m it" "page_aligned (it_va it)" "it_va c = it_va it" "it_perm c AND 7 = 7"
    and "vm_present m it \<Longrightarrow> vm_pa m it < 0x100000000"
  shows "map_asserts c (read_pa m it) (vm_perm m it)" and "read_pa m it < 0x100000000"
    and "mapped_page (read_pa m it) (vm_perm m it) (it_va it) = mapping m (it_pt it) (it_va it)"
proof -
  note r = source_read [OF assms(1,2)] and mp = at_leaf_mapping [OF assms(1)]
  have "map_asserts c (read_pa m it) (vm_perm m it) \<and> read_pa m it < 0x100000000
    \<and> mapped_page (read_pa m it) (vm_perm m it) (it_va it) = mapping m (it_pt it) (it_va it)"
  proof (cases "vm_present m it")
    case True
    then have pa: "read_pa m it = vm_pa m it" using r(2) by (auto simp: read_pa_def)
    have "map_asserts c (vm_pa m it) (vm_perm m it)"
      by (rule user_map_asserts) (use assms True r(1,2) in auto)
    then show ?thesis
      using True mp r(2) assms(2,5) unfolding pa by (simp add: mapped_page_def aligned_offset del: PTE_P_def PAGEOFFMASK_def)
  next
    case False
    then show ?thesis using r(3) mp assms(2,3) by (simp add: map_asserts_def mapped_page_def page_aligned_def)
  qed
  then show "map_asserts c (read_pa m it) (vm_perm m it)" "read_pa m it < 0x100000000"
    "mapped_page (read_pa m it) (vm_perm m it) (it_va it) = mapping m (it_pt it) (it_va it)" by blast+
qed

section \<open>Giving up\<close>

lemma kfree_all_keeps:
  assumes "pages_ok s" "\<forall>p\<in>set ps. ram_page p" "page_aligned q" "q < MEMSIZE_PHYSICAL" "in_rng q 4096 x"
    and "refs ps (page_no q) < unat (pages s ! page_no q)" "kfree_all ps s = Some s'"
  shows "phys s' x = phys s x"
  using assms(1,2,6,7)
proof (induction ps arbitrary: s)
  case (Cons p ps)
  obtain s1 where s1: "kfree p s = Some s1" "released [p] s s1"
    using kfree_released [OF Cons.prems(1)] Cons.prems(2) by auto
  have q: "page_no q < length (pages s)" using page_at_no(2) [OF assms(3,4)] Cons.prems(1) by (simp add: pages_ok_def)
  have c: "pages s1 ! page_no q = pages s ! page_no q - (if page_no p = page_no q then 1 else 0)"
    using s1(2) q by (auto simp: released_def)
  have n: "0 < unat (pages s ! page_no q)" using Cons.prems(3) by linarith
  have u: "unat (pages s1 ! page_no q) = unat (pages s ! page_no q) - (if page_no p = page_no q then 1 else 0)"
    unfolding c using n by (auto simp: unat_minus_one unat_gt_0)
  have "phys s1 x = phys s x"
  proof (cases "page_no p = page_no q")
    case True
    have "pages s ! page_no q - 1 \<noteq> 0" using u c True Cons.prems(3) by auto
    then show ?thesis using s1(1) True q by (auto simp: kfree_def Let_def split: if_splits)
  next
    case False
    have "p \<noteq> q" "page_aligned p" using False Cons.prems(2) by (auto simp: ram_page_def)
    then have "\<not> in_rng p 4096 x" using pages_disjoint [OF assms(3) _ _ assms(5), of p] by metis
    then show ?thesis using s1(2) by (simp add: released_def)
  qed
  moreover have "phys s' x = phys s1 x"
    by (rule Cons.IH [OF released_ok [OF s1(2) Cons.prems(1)]]) (use Cons.prems s1(1) u in \<open>auto split: if_splits\<close>)
  ultimately show ?case by simp
qed simp

lemma refs_distinct:
  assumes "distinct ts" "\<forall>t\<in>set ts. ram_page t" "i < 512"
  shows "refs ts i = (if page_at i \<in> set ts then 1 else 0)"
  using assms(1,2)
proof (induction ts)
  case (Cons t ts)
  have "page_no t = i \<longleftrightarrow> t = page_at i"
    using page_at_no(1) [of t] page_at_ram(2) [OF assms(3)] Cons.prems(2) by (auto simp: ram_page_def)
  then show ?case using Cons by auto
qed simp

lemma fork_inv_tables:
  assumes "fork_inv s0 C hold s"
  shows "page_aligned C" "\<And>t. t \<in> tables (phys s) C \<Longrightarrow> ram_page t" "\<And>t. t \<in> tables (phys s) C \<Longrightarrow> free_page s0 t"
    "\<And>t. t \<in> tables (phys s) C \<Longrightarrow> \<not> free_page s t"
proof -
  show "page_aligned C" using assms pt_tree_aligned by (auto simp: fork_inv_def pt_inv_def)
  show f: "\<And>t. t \<in> tables (phys s) C \<Longrightarrow> free_page s0 t" using assms by (simp add: fork_inv_def)
  show "\<And>t. t \<in> tables (phys s) C \<Longrightarrow> ram_page t" using f free_page_range unfolding ram_page_def by blast
  show "\<And>t. t \<in> tables (phys s) C \<Longrightarrow> \<not> free_page s t" using assms by (simp add: fork_inv_def pt_inv_def owned_def)
qed

text \<open>
  The pages a child may hold: pages that were free, and pages of the parent, whose counts have room
  for all references.
\<close>

definition may_hold :: "kmem \<Rightarrow> u64 list \<Rightarrow> u64 \<Rightarrow> bool" where
  "may_hold s0 hold p \<longleftrightarrow> ram_page p \<and> (free_page s0 p
     \<or> used (pages s0 ! page_no p) \<and> unat (pages s0 ! page_no p) + refs hold (page_no p) < 256)"

definition unchanged :: "kmem \<Rightarrow> kmem \<Rightarrow> bool" where
  "unchanged s0 s \<longleftrightarrow> (\<forall>x. (\<forall>q. free_page s0 q \<longrightarrow> \<not> in_rng q 4096 x) \<longrightarrow> phys s x = phys s0 x)"

abbreviation freed_slot :: "int \<Rightarrow> kernel \<Rightarrow> kmem \<Rightarrow> kernel" where
  "freed_slot pid k s \<equiv> upd_proc (nat pid) (\<lambda>p. p\<lparr>p_state := P_FREE\<rparr>) (k\<lparr>km := s\<rparr>)"

lemma fork_exit:
  assumes inv: "fork_inv s0 C hold (km k)" and ok0: "pages_ok s0"
    and mp: "mapped_pages (kphys k) C user_pages = mp"
    and hold: "\<forall>p\<in>set mp. may_hold s0 hold p \<and> p \<notin> tables (kphys k) C" "\<forall>i. refs mp i \<le> refs hold i"
    and pid: "pid_ok pid" "p_pagetable (ptable k ! nat pid) = C"
  shows "\<exists>s. exit_proc pid k = Some (freed_slot pid k s) \<and> pages_ok s \<and> kernel_end s = kernel_end s0 \<and> unchanged s0 s
    \<and> (\<forall>i<512. pages s ! i = pages s0 ! i + of_nat (refs hold i) - of_nat (refs mp i))"
proof -
  let ?m = "kphys k" and ?ts = "postorder (kphys k) C @ [C]"
  note t = fork_inv_tables [OF inv]
  have ok: "pages_ok (km k)" and tree: "pt_tree ?m C" and nj: "no_junk ?m C" and ke: "kernel_end (km k) = kernel_end s0"
    and un: "unchanged s0 (km k)" and cnt: "counted s0 C hold (km k)"
    using inv by (simp_all add: fork_inv_def pt_inv_def unchanged_def)
  have ex: "exit_ok (km k) C"
    using ok tree nj t(2) hold(1) mp by (simp add: exit_ok_def may_hold_def)
  note po = postorder_tables [OF tree]
  have ts: "distinct ?ts" "set ?ts = tables ?m C" using po root_in_tables [of C ?m] by auto
  have ram: "\<forall>p\<in>set (mp @ ?ts). ram_page p" using hold(1) t(2) ts(2) by (auto simp: may_hold_def)
  obtain s where s: "kfree_all (mp @ ?ts) (km k) = Some s" "released (mp @ ?ts) (km k) s"
    using kfree_all_released [OF ok ram] by blast
  have "C \<noteq> 0" using t(2) [OF root_in_tables] by (simp add: ram_page_def)
  then have call: "exit_proc pid k = Some (freed_slot pid k s)"
    using pid exit_memory_frees [OF ex] s(1) mp by (simp add: exit_proc_def)
  have tr: "refs ?ts i = (if page_at i \<in> tables ?m C then 1 else 0)" if "i < 512" for i
    using refs_distinct [OF ts(1) _ that] t(2) unfolding ts(2) by blast
  have len: "length (pages (km k)) = 512" using ok by (simp add: pages_ok_def)
  have counts: "pages s ! i = pages s0 ! i + of_nat (refs hold i) - of_nat (refs mp i)" if i: "i < 512" for i
  proof -
    have "pages s ! i = pages (km k) ! i - of_nat (refs mp i + refs ?ts i)"
      using s(2) i len by (simp add: released_def)
    moreover have "pages (km k) ! i = pages s0 ! i + of_nat (refs hold i) + (if page_at i \<in> tables ?m C then 1 else 0)"
      using cnt i by (simp add: counted_def)
    ultimately show ?thesis unfolding tr [OF i] by simp
  qed
  have keep: "unchanged s0 s"
    unfolding unchanged_def
  proof (intro allI impI)
    fix x assume x: "\<forall>q. free_page s0 q \<longrightarrow> \<not> in_rng q 4096 x"
    have old: "phys (km k) x = phys s0 x" using un x by (simp add: unchanged_def)
    show "phys s x = phys s0 x"
    proof (cases "\<exists>q\<in>set mp. in_rng q 4096 x")
      case True
      then obtain q where q: "q \<in> set mp" "in_rng q 4096 x" by blast
      then have nf: "\<not> free_page s0 q" and mh: "may_hold s0 hold q" using x hold(1) by blast+
      let ?i = "page_no q"
      have qa: "page_aligned q" "q < MEMSIZE_PHYSICAL" using mh by (simp_all add: may_hold_def ram_page_def)
      note pq = page_at_no [OF qa]
      have nt: "page_at ?i \<notin> tables ?m C" using t(3) nf pq(1) by metis
      have us: "pages s0 ! ?i \<noteq> 0" "unat (pages s0 ! ?i) + refs hold ?i < 256"
        using mh nf by (auto simp: may_hold_def used_def)
      have "pages (km k) ! ?i = pages s0 ! ?i + of_nat (refs hold ?i)"
        using cnt pq(2) nt by (simp add: counted_def)
      then have "unat (pages (km k) ! ?i) = unat (pages s0 ! ?i) + refs hold ?i"
        using us(2) by (simp add: unat_word_ariths unat_of_nat)
      moreover have "0 < unat (pages s0 ! ?i)" using us(1) unat_gt_0 by blast
      moreover have "refs (mp @ ?ts) ?i = refs mp ?i" using tr [OF pq(2)] nt by simp
      moreover have "refs mp ?i \<le> refs hold ?i" using hold(2) by blast
      ultimately have "refs (mp @ ?ts) ?i < unat (pages (km k) ! ?i)" by linarith
      then have "phys s x = phys (km k) x" using kfree_all_keeps [OF ok ram qa q(2) _ s(1)] by simp
      then show ?thesis using old by simp
    next
      case False
      then have "\<forall>p\<in>set (mp @ ?ts). \<not> in_rng p 4096 x" using x t(3) ts(2) by auto
      then show ?thesis using s(2) old by (simp add: released_def)
    qed
  qed
  show ?thesis using call counts keep s(2) ok ke by (intro exI [of _ s]) (simp add: released_def pages_ok_def)
qed

section \<open>One page\<close>

text \<open>What the child's pages need to be given back: they are in use and are not tables.\<close>

definition held :: "kmem \<Rightarrow> u64 \<Rightarrow> u64 list \<Rightarrow> u64 list \<Rightarrow> kmem \<Rightarrow> bool" where
  "held s0 C hold mp s \<longleftrightarrow> (\<forall>p\<in>set mp. may_hold s0 hold p \<and> p \<notin> tables (phys s) C \<and> \<not> free_page s p)
     \<and> (\<forall>i. refs mp i \<le> refs hold i)"

lemma copy_step_held: "copy_step C s s' \<Longrightarrow> held s0 C hold mp s \<Longrightarrow> held s0 C hold mp s'"
  unfolding copy_step_def held_def by blast

definition gave_up :: "kmem \<Rightarrow> u64 list \<Rightarrow> u64 list \<Rightarrow> int \<Rightarrow> kernel \<Rightarrow> kernel \<Rightarrow> bool" where
  "gave_up s0 hold mp pid k k' \<longleftrightarrow> (\<exists>s. k' = freed_slot pid k s \<and> pages_ok s \<and> kernel_end s = kernel_end s0 \<and> unchanged s0 s
     \<and> (\<forall>i<512. pages s ! i = pages s0 ! i + of_nat (refs hold i) - of_nat (refs mp i)))"

definition child_slot :: "int \<Rightarrow> u64 \<Rightarrow> kernel \<Rightarrow> bool" where
  "child_slot pid C k \<longleftrightarrow> pid_ok pid \<and> p_pagetable (ptable k ! nat pid) = C"

lemma child_slot_km [simp]: "child_slot pid C (k\<lparr>km := s\<rparr>) = child_slot pid C k"
  by (simp add: child_slot_def)

lemma gave_up_km [simp]: "gave_up s0 hold mp pid (k\<lparr>km := s\<rparr>) k' = gave_up s0 hold mp pid k k'"
  by (simp add: gave_up_def)

lemma exit_gives_up:
  assumes "fork_inv s0 C hold (km k)" "pages_ok s0" "child_slot pid C k"
    and "mapped_pages (kphys k) C user_pages = mp" "held s0 C hold mp (km k)"
  shows "\<exists>k'. exit_proc pid k = Some k' \<and> gave_up s0 hold mp pid k k'"
proof -
  have "\<forall>p\<in>set mp. may_hold s0 hold p \<and> p \<notin> tables (kphys k) C" "\<forall>i. refs mp i \<le> refs hold i"
    using assms(5) by (simp_all add: held_def)
  moreover have "pid_ok pid" "p_pagetable (ptable k ! nat pid) = C" using assms(3) by (simp_all add: child_slot_def)
  ultimately show ?thesis using fork_exit [OF assms(1,2,4)] unfolding gave_up_def by blast
qed

lemma map_check_step:
  assumes inv: "fork_inv s0 C hold (km k)" and ok0: "pages_ok s0" and sl: "child_slot pid C k"
    and mp: "mapped_pages (kphys k) C user_pages = mp" "held s0 C hold mp (km k)"
    and rd: "ready (kphys k) it" "it_pt it = C"
    and pa: "pa = (if pa0 = - 1 \<and> perm = 0 then 0 else pa0)"
    and as: "map_asserts it pa perm" "pa < 0x100000000" "perm < 4096"
  shows "(\<exists>s. map_check it pa0 perm pid k = Some (0, k\<lparr>km := s\<rparr>) \<and> fork_inv s0 C hold s \<and> copy_step C (km k) s
      \<and> on_walk (phys s) it \<and> (\<forall>i<512. pages (km k) ! i \<noteq> 0 \<longrightarrow> pages s ! i = pages (km k) ! i)
      \<and> (\<forall>v. mapping (phys s) C v = (if agree 12 (it_va it) v then mapped_page pa perm v else mapping (kphys k) C v)))
    \<or> (\<exists>k'. map_check it pa0 perm pid k = Some (- 1, k') \<and> gave_up s0 hold mp pid k k')"
proof -
  obtain r it' s where tm: "try_map (kalloc PAGESIZE) (km k) it pa0 perm = Some (r, it', s)"
    and inv': "fork_inv s0 C hold s" and cs: "copy_step C (km k) s" and ow: "on_walk (phys s) it"
    and cnt: "\<forall>i<512. pages (km k) ! i \<noteq> 0 \<longrightarrow> pages s ! i = pages (km k) ! i"
    and res: "r = 0 \<and> (\<forall>v. mapping (phys s) C v = (if agree 12 (it_va it) v then mapped_page pa perm v else mapping (kphys k) C v))
      \<or> r = - 1 \<and> (\<forall>v. mapping (phys s) C v = mapping (kphys k) C v)"
    by (rule map_step [OF inv rd pa as])
  show ?thesis
  proof (cases "r = 0")
    case True
    then show ?thesis using tm inv' cs ow cnt res by (intro disjI1 exI [of _ s]) (simp add: map_check_def)
  next
    case False
    then have r: "r = - 1" and same: "\<And>v. mapping (phys s) C v = mapping (kphys k) C v" using res by auto
    have "mapped_pages (phys s) C vs = mapped_pages (kphys k) C vs" for vs
      by (induction vs) (simp_all add: same cong: option.case_cong)
    then have "\<exists>k'. exit_proc pid (k\<lparr>km := s\<rparr>) = Some k' \<and> gave_up s0 hold mp pid (k\<lparr>km := s\<rparr>) k'"
      using exit_gives_up [of s0 C hold "k\<lparr>km := s\<rparr>"] inv' ok0 sl mp copy_step_held [OF cs mp(2)] by simp
    then show ?thesis using tm r by (auto simp: map_check_def)
  qed
qed

section \<open>The source of the copy\<close>

definition src_ok :: "kmem \<Rightarrow> u64 \<Rightarrow> bool" where
  "src_ok s0 pt \<longleftrightarrow> page_aligned pt \<and> no_junk (phys s0) pt \<and> owned free_page s0 pt"

lemma src_keep:
  assumes "src_ok s0 pt" "unchanged s0 s"
  shows "keeps_tables (phys s0) (phys s) pt"
  unfolding keeps_tables_def
proof (intro ballI allI impI)
  fix t x assume t: "t \<in> tables (phys s0) pt" "in_rng t 4096 x"
  have "\<not> in_rng q 4096 x" if q: "free_page s0 q" for q
  proof -
    have "t \<noteq> q" using q t(1) assms(1) by (auto simp: src_ok_def owned_def)
    moreover have "page_aligned t" "page_aligned q"
      using tables_aligned t(1) assms(1) free_page_range [OF q] by (auto simp: src_ok_def)
    ultimately show ?thesis using pages_disjoint t(2) by metis
  qed
  then show "phys s x = phys s0 x" using assms(2) by (simp add: unchanged_def)
qed

lemma src_mapping: "src_ok s0 pt \<Longrightarrow> unchanged s0 s \<Longrightarrow> mapping (phys s) pt v = mapping (phys s0) pt v"
  using mapping_frame src_keep by (metis src_ok_def)

lemma src_on_walk:
  assumes "src_ok s0 (it_pt it)" "unchanged s0 s" "unchanged s0 s1"
  shows "on_walk (phys s1) it = on_walk (phys s) it"
  using on_walk_frame [OF src_keep [OF assms(1,2)]] on_walk_frame [OF src_keep [OF assms(1,3)]] by simp

lemma src_iter:
  assumes "src_ok s0 pt" "unchanged s0 s" "on_walk (phys s) it" "it_pt it = pt"
  obtains it' where "real_find (phys s) it va = Some it'" "at_leaf (phys s) it'" "it_va it' = va" "it_pt it' = pt"
proof -
  have "no_junk (phys s) (it_pt it)"
    using no_junk_frame [OF _ src_keep [OF assms(1,2)]] assms(1,4) by (simp add: src_ok_def)
  then show ?thesis using real_find_some [OF assms(3)] that assms(4) by metis
qed

lemma fork_unchanged: "fork_inv s0 C hold s \<Longrightarrow> unchanged s0 s"
  by (simp add: fork_inv_def unchanged_def)

section \<open>The kernel's part\<close>

lemma agree_page:
  assumes "page_aligned va" "page_aligned v"
  shows "agree 12 va v \<longleftrightarrow> v = va"
proof
  assume a: "agree 12 va v"
  have "unat va div 4096 = unat v div 4096"
    using a unat_drop_bit [of 12 va] unat_drop_bit [of 12 v] by (simp add: agree_drop)
  then have "unat va = unat v" using assms by (auto simp: page_aligned_dvd elim!: dvdE)
  then show "v = va" by (simp add: word_unat_eq_iff)
qed (simp add: agree_iff)

lemma page_succ:
  assumes "unat va + 4096 * Suc n = e" "e < 2 ^ 64"
  shows "unat (va + PAGESIZE) + 4096 * n = e" "unat (va + PAGESIZE) = unat va + 4096"
proof -
  show "unat (va + PAGESIZE) = unat va + 4096"
    by (subst PAGESIZE_def, subst unat_add_lt) (use assms in simp_all)
  then show "unat (va + PAGESIZE) + 4096 * n = e" using assms by simp
qed

definition region_empty :: "mem \<Rightarrow> u64 \<Rightarrow> u64 \<Rightarrow> bool" where
  "region_empty m C va \<longleftrightarrow> (\<forall>v. va \<le> v \<longrightarrow> mapping m C v = None)"

lemma page_range_ge: "v \<in> set (page_range va n) \<Longrightarrow> unat va + 4096 * n < 2 ^ 64 \<Longrightarrow> va \<le> v"
proof (induction n arbitrary: va)
  case (Suc n)
  have u: "unat (va + PAGESIZE) = unat va + 4096" by (subst PAGESIZE_def, subst unat_add_lt) (use Suc.prems(2) in simp_all)
  show ?case using Suc.IH [of "va + PAGESIZE"] Suc.prems u by (auto simp: word_le_nat_alt)
qed simp

lemma empty_pages:
  assumes "region_empty m C va" "unat va + 4096 * n < 2 ^ 64"
  shows "mapped_pages m C (page_range va n) = []"
proof -
  have "\<forall>v\<in>set vs. mapping m C v = None \<Longrightarrow> mapped_pages m C vs = []" for vs by (induction vs) simp_all
  then show ?thesis using assms page_range_ge unfolding region_empty_def by blast
qed

lemma agree_div: "agree 12 va (v :: u64) \<Longrightarrow> unat va div 4096 = unat v div 4096"
  using unat_drop_bit [of 12 va] unat_drop_bit [of 12 v] by (simp add: agree_drop)

lemma region_empty_map:
  assumes "region_empty m C hi" "va < (hi :: u64)" "page_aligned hi"
    and "\<forall>v. mapping m' C v = (if agree 12 va v then x v else mapping m C v)"
  shows "region_empty m' C hi"
  unfolding region_empty_def
proof (intro allI impI)
  fix v :: u64 assume v: "hi \<le> v"
  have "\<not> agree 12 va v"
  proof
    assume "agree 12 va v"
    then have e: "unat va div 4096 = unat v div 4096" by (rule agree_div)
    obtain n where n: "unat hi = 4096 * n" using assms(3) by (auto simp: page_aligned_dvd elim: dvdE)
    have "unat va div 4096 < n" using assms(2) n by (simp add: word_less_nat_alt less_mult_imp_div_less mult.commute)
    moreover have "n \<le> unat v div 4096" using v n by (simp add: word_le_nat_alt less_eq_div_iff_mult_less_eq mult.commute)
    ultimately show False using e by simp
  qed
  then show "mapping m' C v = None" using assms(1,4) v by (simp add: region_empty_def)
qed

lemma held_nil [simp]: "held s0 C hold [] s" by (simp add: held_def)

definition kernel_small :: "kmem \<Rightarrow> u64 \<Rightarrow> bool" where
  "kernel_small s0 K \<longleftrightarrow> (\<forall>v pa p. page_aligned v \<longrightarrow> v < PROC_START_ADDR \<longrightarrow> mapping (phys s0) K v = Some (pa, p) \<longrightarrow> pa < 0x100000000)"

lemma fork_kernel_loop_ok:
  assumes "src_ok s0 K" "pages_ok s0" "kernel_small s0 K"
    and "fork_inv s0 C [] (km k)" "child_slot pid C k" "region_empty (kphys k) C PROC_START_ADDR"
    and "at_leaf (kphys k) k_it" "it_pt k_it = K" "ready (kphys k) c" "it_pt c = C" "it_perm c AND 7 = 7"
    and "it_va c = it_va k_it" "page_aligned (it_va k_it)" "unat (it_va k_it) + 4096 * n = 0x100000"
  shows "(\<exists>s. fork_kernel_loop pid k_it c k = Some (0, k\<lparr>km := s\<rparr>) \<and> fork_inv s0 C [] s
      \<and> region_empty (phys s) C PROC_START_ADDR
      \<and> (\<forall>v. page_aligned v \<longrightarrow> v < PROC_START_ADDR \<longrightarrow> mapping (phys s) C v =
            (if it_va k_it \<le> v then mapping (phys s0) K v else mapping (kphys k) C v)))
    \<or> (\<exists>k'. fork_kernel_loop pid k_it c k = Some (- 1, k') \<and> gave_up s0 [] [] pid k k')"
  using assms(4-)
proof (induction n arbitrary: k k_it c)
  case 0
  then have "\<not> it_va k_it < PROC_START_ADDR" by (simp add: word_less_nat_alt)
  moreover from this have "v < PROC_START_ADDR \<Longrightarrow> \<not> it_va k_it \<le> v" for v using le_less_trans by blast
  ultimately show ?case using 0 by (subst fork_kernel_loop.simps) (intro disjI1 exI [of _ "km k"], simp)
next
  case (Suc n)
  let ?va = "it_va k_it" and ?m = "kphys k"
  note src = assms(1) and un = fork_unchanged [OF Suc.prems(1)]
  have lt: "?va < PROC_START_ADDR" using Suc.prems(11) by (simp add: word_less_nat_alt)
  note sc = page_succ [OF Suc.prems(11), simplified]
  have K: "mapping ?m K ?va = mapping (phys s0) K ?va" by (rule src_mapping [OF src un])
  have sm: "vm_present ?m k_it \<Longrightarrow> vm_pa ?m k_it < 0x100000000"
    using at_leaf_mapping [OF Suc.prems(4)] Suc.prems(5,10) lt assms(3) K unfolding kernel_small_def by auto
  note rd = source_read [OF Suc.prems(4,10)] and mp = source_map [OF Suc.prems(4,10) Suc.prems(9,8) sm]
  have none: "mapped_pages ?m C user_pages = []" by (rule empty_pages [OF Suc.prems(3)]) simp
  have step: "fork_kernel_loop pid k_it c k =
      Option.bind (map_check c (vm_pa ?m k_it) (vm_perm ?m k_it) pid k) (\<lambda>(res, k1).
          if res \<noteq> 0 then Some (- 1, k1)
          else Option.bind (vm_add (kphys k1) c PAGESIZE) (\<lambda>child_it1.
               Option.bind (vm_add (kphys k1) k_it PAGESIZE) (\<lambda>k_it1.
                 fork_kernel_loop pid k_it1 child_it1 k1)))"
    using lt by (subst fork_kernel_loop.simps) simp
  show ?case
  proof (cases "\<exists>k'. map_check c (vm_pa ?m k_it) (vm_perm ?m k_it) pid k = Some (- 1, k') \<and> gave_up s0 [] [] pid k k'")
    case True
    then show ?thesis unfolding step by auto
  next
    case False
    then obtain s where mc: "map_check c (vm_pa ?m k_it) (vm_perm ?m k_it) pid k = Some (0, k\<lparr>km := s\<rparr>)"
      and inv: "fork_inv s0 C [] s" and ow: "on_walk (phys s) c"
      and mm: "\<forall>v. mapping (phys s) C v = (if agree 12 (it_va c) v then mapped_page (read_pa ?m k_it) (vm_perm ?m k_it) v else mapping ?m C v)"
      using map_check_step [OF Suc.prems(1) assms(2) Suc.prems(2) none held_nil Suc.prems(6,7) read_pa_def mp(1,2) rd(4)]
      by blast
    have can: "va_is_canonical (?va + PAGESIZE)"
      by (rule user_canonical) (use sc lt in \<open>simp add: word_less_nat_alt\<close>)
    obtain c1 where c1: "real_find (phys s) c (?va + PAGESIZE) = Some c1" "ready (phys s) c1" "it_pt c1 = C"
      "it_va c1 = ?va + PAGESIZE" "it_perm c1 AND 7 = 7"
      by (rule child_iter [OF inv ow Suc.prems(7) can])
    have ow1: "on_walk (phys s) k_it"
      using src_on_walk [of s0 k_it "km k" s] src un fork_unchanged [OF inv] Suc.prems(4,5) at_leaf_on_walk by simp
    obtain k1 where k1: "real_find (phys s) k_it (?va + PAGESIZE) = Some k1" "at_leaf (phys s) k1"
      "it_va k1 = ?va + PAGESIZE" "it_pt k1 = K"
      by (rule src_iter [OF src fork_unchanged [OF inv] ow1 Suc.prems(5)])
    have re: "region_empty (phys s) C PROC_START_ADDR"
      by (rule region_empty_map [OF Suc.prems(3) _ _ mm]) (use lt Suc.prems(9) in \<open>simp_all add: page_aligned_def\<close>)
    have al: "page_aligned (it_va k1)" unfolding k1(3) using page_aligned_add [OF Suc.prems(10)] by simp
    have here: "mapping (phys s) C v = (if v = ?va then mapping (phys s0) K v else mapping ?m C v)" if v: "page_aligned v" for v
      using mm Suc.prems(9) agree_page [OF Suc.prems(10) v] mp(3) K Suc.prems(5) by simp
    have next_le: "v \<noteq> ?va \<Longrightarrow> ?va + PAGESIZE \<le> v \<longleftrightarrow> ?va \<le> v" if v: "page_aligned v" for v
      using v Suc.prems(10) sc(2) by (auto simp: word_le_nat_alt page_aligned_dvd word_unat_eq_iff elim!: dvdE)
    have not_le: "\<not> ?va + PAGESIZE \<le> ?va" using sc(2) by (simp add: word_le_nat_alt)
    have rec: "fork_kernel_loop pid k_it c k = fork_kernel_loop pid k1 c1 (k\<lparr>km := s\<rparr>)"
      unfolding step using mc c1(1) k1(1) Suc.prems(9) by (simp add: vm_add_def)
    have "(\<exists>s'. fork_kernel_loop pid k1 c1 (k\<lparr>km := s\<rparr>) = Some (0, k\<lparr>km := s\<rparr>\<lparr>km := s'\<rparr>) \<and> fork_inv s0 C [] s'
      \<and> region_empty (phys s') C PROC_START_ADDR
      \<and> (\<forall>v. page_aligned v \<longrightarrow> v < PROC_START_ADDR \<longrightarrow> mapping (phys s') C v =
            (if it_va k1 \<le> v then mapping (phys s0) K v else mapping (kphys (k\<lparr>km := s\<rparr>)) C v)))
      \<or> (\<exists>k'. fork_kernel_loop pid k1 c1 (k\<lparr>km := s\<rparr>) = Some (- 1, k') \<and> gave_up s0 [] [] pid (k\<lparr>km := s\<rparr>) k')"
      by (rule Suc.IH) (use inv Suc.prems(2) re k1 c1 al sc in simp_all)
    then show ?thesis
    proof (elim disjE exE conjE)
      fix s' assume e: "fork_kernel_loop pid k1 c1 (k\<lparr>km := s\<rparr>) = Some (0, k\<lparr>km := s\<rparr>\<lparr>km := s'\<rparr>)"
        and i: "fork_inv s0 C [] s'" "region_empty (phys s') C PROC_START_ADDR"
        and m: "\<forall>v. page_aligned v \<longrightarrow> v < PROC_START_ADDR \<longrightarrow> mapping (phys s') C v =
            (if it_va k1 \<le> v then mapping (phys s0) K v else mapping (kphys (k\<lparr>km := s\<rparr>)) C v)"
      have "mapping (phys s') C v = (if ?va \<le> v then mapping (phys s0) K v else mapping ?m C v)"
        if v: "page_aligned v" "v < PROC_START_ADDR" for v
        using m v here [OF v(1)] next_le [OF v(1)] not_le k1(3) by (cases "v = ?va") simp_all
      then show ?thesis using rec e i by (intro disjI1 exI [of _ s']) simp
    next
      fix k' assume "fork_kernel_loop pid k1 c1 (k\<lparr>km := s\<rparr>) = Some (- 1, k')" "gave_up s0 [] [] pid (k\<lparr>km := s\<rparr>) k'"
      then show ?thesis using rec by simp
    qed
  qed
qed

end
