(* ===== verification/KernelFork.thy ===== *)
theory KernelFork
  imports KernelCopy
begin

text \<open>
  What \<open>fork\<close> does: the child gets an address space of its own, with the kernel's mappings below
  the process region, fresh copies of the parent's writable pages and shared references to its
  read-only pages; when memory runs out half way, every page is given back.
\<close>

section \<open>The process's part\<close>

text \<open>
  One page of the child, against the parent's page at the same address: a writable page is a copy
  that nothing else refers to, a read-only one is shared.
\<close>

definition page_copied :: "kmem \<Rightarrow> kmem \<Rightarrow> u64 \<Rightarrow> u64 \<Rightarrow> u64 \<Rightarrow> bool" where
  "page_copied s0 s P C v \<longleftrightarrow> (case mapping (phys s0) P v of
       None \<Rightarrow> mapping (phys s) C v = None
     | Some (pa, perm) \<Rightarrow>
         if perm = 7 then \<exists>ca. mapping (phys s) C v = Some (ca, 7) \<and> free_page s0 ca \<and> \<not> free_page s ca
           \<and> ca \<notin> tables (phys s) C \<and> pages s ! page_no ca = 1
           \<and> (\<forall>i. i < 4096 \<longrightarrow> phys s (ca + i) = phys s0 (pa + i))
         else mapping (phys s) C v = Some (pa, perm))"

lemma mapped_pages_append: "mapped_pages m pt (vs @ ws) = mapped_pages m pt vs @ mapped_pages m pt ws"
  by (induction vs) (simp_all split: option.split)

lemma mapped_pages_cong: "(\<And>v. v \<in> set vs \<Longrightarrow> mapping m' pt' v = mapping m pt v) \<Longrightarrow> mapped_pages m' pt' vs = mapped_pages m pt vs"
  by (induction vs) (simp_all cong: option.case_cong)

definition user_inv :: "kmem \<Rightarrow> u64 \<Rightarrow> u64 \<Rightarrow> u64 \<Rightarrow> u64 list \<Rightarrow> u64 \<Rightarrow> u64 list \<Rightarrow> kmem \<Rightarrow> bool" where
  "user_inv s0 K P C vs va hold s \<longleftrightarrow> fork_inv s0 C hold s \<and> region_empty (phys s) C va
     \<and> page_aligned va \<and> PROC_START_ADDR \<le> va \<and> (\<forall>v\<in>set vs. page_aligned v \<and> v < va)
     \<and> (\<forall>p\<in>set hold. ram_page p \<and> (free_page s0 p \<or> used (pages s0 ! page_no p)) \<and> p \<notin> tables (phys s) C \<and> \<not> free_page s p)
     \<and> (\<forall>i. pages s0 ! i \<noteq> 0 \<longrightarrow> refs hold i \<le> refs (mapped_pages (phys s0) P vs) i)
     \<and> (\<forall>i. pages s0 ! i = 0 \<longrightarrow> refs hold i \<le> 1)
     \<and> mapped_pages (phys s) C vs = hold
     \<and> (\<forall>v\<in>set vs. page_copied s0 s P C v)
     \<and> (\<forall>v. page_aligned v \<longrightarrow> v < PROC_START_ADDR \<longrightarrow> mapping (phys s) C v = mapping (phys s0) K v)"

lemma page_copied_step:
  assumes pc: "page_copied s0 s P C v" and cs: "copy_step C s s'"
    and same: "mapping (phys s') C v = mapping (phys s) C v"
    and cnt: "\<forall>i<512. pages s0 ! i = 0 \<and> pages s ! i \<noteq> 0 \<longrightarrow> pages s' ! i = pages s ! i"
  shows "page_copied s0 s' P C v"
proof (cases "\<exists>pa. mapping (phys s0) P v = Some (pa, 7)")
  case True
  then obtain pa where pa: "mapping (phys s0) P v = Some (pa, 7)" by blast
  then obtain ca where ca: "mapping (phys s) C v = Some (ca, 7)" "free_page s0 ca" "\<not> free_page s ca"
    "ca \<notin> tables (phys s) C" "pages s ! page_no ca = 1" "\<forall>i. i < 4096 \<longrightarrow> phys s (ca + i) = phys s0 (pa + i)"
    using pc by (auto simp: page_copied_def)
  have al: "page_aligned ca" "page_no ca < 512" using free_page_range [OF ca(2)] page_at_no(2) by auto
  have "phys s' (ca + i) = phys s (ca + i)" if "i < 4096" for i
  proof -
    have "in_rng ca 4096 (ca + i)" using that by (simp add: in_rng_def)
    then show ?thesis using cs al(1) ca(3,4) unfolding copy_step_def by blast
  qed
  moreover have "pages s' ! page_no ca = 1"
    using cnt al(2) ca(2,5) by (simp add: free_page_def used_def)
  moreover have "\<not> free_page s' ca" "ca \<notin> tables (phys s') C" using cs ca(3,4) unfolding copy_step_def by blast+
  ultimately show ?thesis using pa ca same by (auto simp: page_copied_def)
next
  case False
  then show ?thesis using pc same by (auto simp: page_copied_def split: option.splits)
qed

lemma region_empty_mono: "region_empty m C va \<Longrightarrow> va \<le> hi \<Longrightarrow> region_empty m C hi"
  unfolding region_empty_def by (meson order_trans)

lemma user_inv_next:
  assumes ui: "user_inv s0 K P C vs va hold s" and sc: "unat (va + PAGESIZE) = unat va + 4096"
    and fi: "fork_inv s0 C (hold @ ps) s'" and cs: "copy_step C s s'"
    and cnt: "\<forall>i<512. pages s0 ! i = 0 \<and> pages s ! i \<noteq> 0 \<longrightarrow> pages s' ! i = pages s ! i"
    and mp: "\<forall>v. mapping (phys s') C v = (if agree 12 va v then x v else mapping (phys s) C v)"
    and ps: "ps = (case x va of None \<Rightarrow> [] | Some (pa, _) \<Rightarrow> [pa])" and pc: "page_copied s0 s' P C va"
    and new: "\<forall>p\<in>set ps. ram_page p \<and> (free_page s0 p \<or> used (pages s0 ! page_no p)) \<and> p \<notin> tables (phys s') C \<and> \<not> free_page s' p"
    and le: "\<forall>i. pages s0 ! i \<noteq> 0 \<longrightarrow> refs ps i \<le> refs (mapped_pages (phys s0) P [va]) i"
    and one: "\<forall>i. pages s0 ! i = 0 \<longrightarrow> refs (hold @ ps) i \<le> 1"
  shows "user_inv s0 K P C (vs @ [va]) (va + PAGESIZE) (hold @ ps) s'"
proof -
  have al: "page_aligned va" and ge: "PROC_START_ADDR \<le> va" and vs: "\<forall>v\<in>set vs. page_aligned v \<and> v < va"
    and re: "region_empty (phys s) C va" and mh: "mapped_pages (phys s) C vs = hold"
    using ui by (simp_all add: user_inv_def)
  have lt: "va < va + PAGESIZE" using sc by (simp add: word_less_nat_alt)
  have same: "mapping (phys s') C v = mapping (phys s) C v" if "page_aligned v" "v \<noteq> va" for v
    using mp agree_page [OF al that(1)] that(2) by simp
  have al': "page_aligned (va + PAGESIZE)" using page_aligned_add [OF al] by simp
  have "region_empty (phys s') C (va + PAGESIZE)"
    by (rule region_empty_map [OF region_empty_mono [OF re less_imp_le [OF lt]] lt al' mp])
  moreover have "mapped_pages (phys s') C (vs @ [va]) = hold @ ps"
  proof -
    have "mapped_pages (phys s') C vs = hold"
      unfolding mh [symmetric] by (rule mapped_pages_cong) (use same vs in auto)
    moreover have "mapping (phys s') C va = x va" using mp by (simp add: agree_iff)
    ultimately show ?thesis unfolding mapped_pages_append ps by (simp split: option.split)
  qed
  moreover have "\<forall>v\<in>set (vs @ [va]). page_copied s0 s' P C v"
  proof
    fix v assume v: "v \<in> set (vs @ [va])"
    show "page_copied s0 s' P C v"
    proof (cases "v = va")
      case False
      then have "v \<in> set vs" using v by simp
      then have "page_copied s0 s P C v" "page_aligned v" using ui by (simp_all add: user_inv_def)
      then show ?thesis using page_copied_step [OF _ cs same cnt] False by blast
    qed (use pc in simp)
  qed
  moreover have "\<forall>p\<in>set (hold @ ps). ram_page p \<and> (free_page s0 p \<or> used (pages s0 ! page_no p)) \<and> p \<notin> tables (phys s') C \<and> \<not> free_page s' p"
  proof -
    have h: "\<forall>p\<in>set hold. ram_page p \<and> (free_page s0 p \<or> used (pages s0 ! page_no p)) \<and> p \<notin> tables (phys s) C \<and> \<not> free_page s p"
      using ui by (simp add: user_inv_def)
    then have "\<forall>p\<in>set hold. p \<notin> tables (phys s') C \<and> \<not> free_page s' p" using cs unfolding copy_step_def by blast
    then show ?thesis using h new by auto
  qed
  moreover have "\<forall>i. pages s0 ! i \<noteq> 0 \<longrightarrow> refs (hold @ ps) i \<le> refs (mapped_pages (phys s0) P (vs @ [va])) i"
  proof (intro allI impI)
    fix i assume i: "pages s0 ! i \<noteq> 0"
    have "refs hold i \<le> refs (mapped_pages (phys s0) P vs) i" using ui i by (simp add: user_inv_def)
    then show "refs (hold @ ps) i \<le> refs (mapped_pages (phys s0) P (vs @ [va])) i"
      unfolding mapped_pages_append refs_append using le i add_mono by blast
  qed
  moreover have "mapping (phys s') C v = mapping (phys s0) K v" if v: "page_aligned v" "v < PROC_START_ADDR" for v
  proof -
    have "v \<noteq> va" using v(2) ge by auto
    then show ?thesis using same [OF v(1)] ui v by (simp add: user_inv_def)
  qed
  moreover have "\<forall>v\<in>set (vs @ [va]). page_aligned v \<and> v < va + PAGESIZE" using vs al lt less_trans by auto
  moreover have "PROC_START_ADDR \<le> va + PAGESIZE" using ge lt by (meson less_imp_le order_trans)
  ultimately show ?thesis using fi al' one unfolding user_inv_def by blast
qed

text \<open>A free page is taken, and written: the child holds it before it is mapped.\<close>

lemma take_page:
  assumes inv: "fork_inv s0 C hold s" and al: "kalloc PAGESIZE s = (p, s1)" "p \<noteq> 0"
    and out: "same_outside p (phys s) m"
  shows "fork_inv s0 C (hold @ [p]) (s1\<lparr>phys := m\<rparr>)" "copy_step C s (s1\<lparr>phys := m\<rparr>)"
    and "tables m C = tables (phys s) C" "\<And>v. mapping m C v = mapping (phys s) C v"
    and "free_page s p" "free_page s0 p" "ram_page p" "\<not> free_page s1 p" "p \<notin> tables (phys s) C" "pages s1 ! page_no p = 1"
    and "\<forall>i<512. pages s ! i \<noteq> 0 \<longrightarrow> pages s1 ! i = pages s ! i"
proof -
  have ok: "pages_ok s" and pinv: "pt_inv free_page s C" and ke: "kernel_end s = kernel_end s0"
    and sm: "\<And>v. va_is_canonical v \<Longrightarrow> small_at (phys s) C v" and un: "unchanged s0 s" and cnt: "counted s0 C hold s"
    and fr: "\<And>q. free_page s q \<Longrightarrow> free_page s0 q" and tf: "\<And>t. t \<in> tables (phys s) C \<Longrightarrow> free_page s0 t"
    using inv by (simp_all add: fork_inv_def unchanged_def)
  note pt = kpa.alloc_pt_inv [OF ok pinv al out]
  show fp: "free_page s p" by (rule kpa.alloc_avail [OF ok al])
  show fp0: "free_page s0 p" by (rule fr [OF fp])
  show nt: "p \<notin> tables (phys s) C" by (rule pt(3))
  show rp: "ram_page p" using free_page_range [OF fp] by (simp add: ram_page_def)
  have pg: "page_aligned p" "p < MEMSIZE_PHYSICAL" using rp by (simp_all add: ram_page_def)
  note pn = page_at_no [OF pg]
  show tab: "tables m C = tables (phys s) C" by (rule tables_frame [OF pt(4,2)])
  show "\<And>v. mapping m C v = mapping (phys s) C v" by (rule mapping_frame [OF pt(4,2)])
  have mk: "free_page s1 q \<longleftrightarrow> free_page s q \<and> q \<noteq> p" for q using kpa.alloc_marks [OF ok al] by simp
  then show nf: "\<not> free_page s1 p" by simp
  have tk: "took_pages s s1" using took_kalloc [OF ok] al by simp
  then show "\<forall>i<512. pages s ! i \<noteq> 0 \<longrightarrow> pages s1 ! i = pages s ! i" by (auto simp: took_pages_def)
  have p0: "pages s ! page_no p = 0" using fp by (simp add: free_page_def used_def)
  show p1: "pages s1 ! page_no p = 1" using kalloc_counts [OF ok al pn(2)] p0 pn(1) by simp
  have "counted s0 C (hold @ [p]) (s1\<lparr>phys := m\<rparr>)"
    unfolding counted_def
  proof (intro allI impI)
    fix i :: nat assume i: "i < 512"
    have c: "pages s ! i = pages s0 ! i + of_nat (refs hold i) + (if page_at i \<in> tables (phys s) C then 1 else 0)"
      using cnt i by (simp add: counted_def)
    have "page_at i = p \<longleftrightarrow> page_no p = i" using page_at_ram(2) [OF i] pn(1) by metis
    then show "pages (s1\<lparr>phys := m\<rparr>) ! i = pages s0 ! i + of_nat (refs (hold @ [p]) i)
        + (if page_at i \<in> tables (phys (s1\<lparr>phys := m\<rparr>)) C then 1 else 0)"
      using c tab kalloc_counts [OF ok al i] by simp
  qed
  moreover have "phys (s1\<lparr>phys := m\<rparr>) x = phys s0 x" if x: "\<forall>q. free_page s0 q \<longrightarrow> \<not> in_rng q 4096 x" for x
    using out un x fp0 by (simp add: same_outside_def unchanged_def)
  moreover have "small_at m C v" if "va_is_canonical v" for v using sm [OF that] small_at_frame [OF pt(4,2)] by simp
  moreover have "pages_ok s1" by (rule kpa.alloc_keeps [OF ok al(1)])
  moreover have "kernel_end s1 = kernel_end s0" using tk ke by (simp add: took_pages_def)
  ultimately show "fork_inv s0 C (hold @ [p]) (s1\<lparr>phys := m\<rparr>)"
    using pt(1) tab tf mk fr unfolding fork_inv_def by (simp add: kpa.avail_phys kpa.okm_phys)
  show "copy_step C s (s1\<lparr>phys := m\<rparr>)"
    unfolding copy_step_def
  proof (intro conjI allI ballI impI)
    fix q x assume q: "page_aligned q" "\<not> free_page s q" "in_rng q 4096 x"
    then have "q \<noteq> p" using fp by blast
    then have "\<not> in_rng p 4096 x" using pages_disjoint [OF q(1) pg(1) _ q(3)] by blast
    then show "phys (s1\<lparr>phys := m\<rparr>) x = phys s x" using out by (simp add: same_outside_def)
  qed (use mk tab in simp_all)
qed

text \<open>A page of the parent gets one more reference.\<close>

lemma share_page:
  assumes inv: "fork_inv s0 C hold s" and p: "ram_page p" "used (pages s0 ! page_no p)"
    and room: "unat (pages s0 ! page_no p) + refs hold (page_no p) + 1 < 256"
  defines "s' \<equiv> s\<lparr>pages := (pages s)[page_no p := pages s ! page_no p + 1]\<rparr>"
  shows "fork_inv s0 C (hold @ [p]) s'" "copy_step C s s'" "p \<notin> tables (phys s) C" "\<not> free_page s' p"
    and "page_no p < length (pages s)" "\<forall>i<512. pages s0 ! i = 0 \<longrightarrow> pages s' ! i = pages s ! i"
proof -
  have pg: "page_aligned p" "p < MEMSIZE_PHYSICAL" using p by (simp_all add: ram_page_def)
  note pn = page_at_no [OF pg]
  have nf0: "\<not> free_page s0 p" using p(2) by (simp add: free_page_def)
  have ok: "pages_ok s" and ke: "kernel_end s = kernel_end s0" and cnt: "counted s0 C hold s"
    and tf: "\<And>t. t \<in> tables (phys s) C \<Longrightarrow> free_page s0 t" and ow: "owned free_page s C"
    using inv by (simp_all add: fork_inv_def pt_inv_def)
  show nt: "p \<notin> tables (phys s) C" using tf nf0 by blast
  show len: "page_no p < length (pages s)" using pn(2) ok by (simp add: pages_ok_def)
  have new: "pages s' ! page_no p = pages s0 ! page_no p + of_nat (refs hold (page_no p) + 1)"
    using cnt pn nt len by (simp add: s'_def counted_def)
  then have "unat (pages s' ! page_no p) = unat (pages s0 ! page_no p) + (refs hold (page_no p) + 1)"
    using room by (simp add: unat_word_ariths unat_of_nat del: of_nat_add of_nat_Suc)
  then have n0: "pages s' ! page_no p \<noteq> 0" by auto
  then show nf: "\<not> free_page s' p" by (simp add: free_page_def used_def)
  have fr: "free_page s q" if q: "free_page s' q" for q
  proof -
    have "q \<noteq> p" using q nf by blast
    then have "page_no q \<noteq> page_no p" using page_no_inj pg(1) free_page_range [OF q] by blast
    then show ?thesis using q by (simp add: free_page_def s'_def)
  qed
  have "owned free_page s' C" using ow fr by (auto simp: owned_def s'_def)
  moreover have "counted s0 C (hold @ [p]) s'"
    using cnt len by (auto simp: counted_def s'_def nth_list_update)
  ultimately show "fork_inv s0 C (hold @ [p]) s'"
    using inv fr ok by (simp add: fork_inv_def pt_inv_def s'_def pages_ok_def)
  show "copy_step C s s'" using fr by (simp add: copy_step_def s'_def)
  show "\<forall>i<512. pages s0 ! i = 0 \<longrightarrow> pages s' ! i = pages s ! i"
    using p(2) by (auto simp: s'_def used_def) (metis nth_list_update_neq)
qed

definition user_src :: "kmem \<Rightarrow> u64 \<Rightarrow> bool" where
  "user_src s0 P \<longleftrightarrow> (\<forall>v pa p. page_aligned v \<longrightarrow> PROC_START_ADDR \<le> v \<longrightarrow> v < MEMSIZE_VIRTUAL \<longrightarrow>
       mapping (phys s0) P v = Some (pa, p) \<longrightarrow> ram_page pa \<and> used (pages s0 ! page_no pa))
     \<and> (\<forall>i<512. unat (pages s0 ! i) + refs (mapped_pages (phys s0) P user_pages) i < 256)"

lemma user_held:
  assumes ui: "user_inv s0 K P C vs va hold s" and us: "user_src s0 P"
    and le: "\<forall>i. pages s0 ! i \<noteq> 0 \<longrightarrow> refs hold i \<le> refs hold' i \<and> refs hold' i \<le> refs (mapped_pages (phys s0) P user_pages) i"
    and sub: "\<forall>i. refs hold i \<le> refs hold' i"
  shows "held s0 C hold' hold s"
proof -
  have "may_hold s0 hold' p" if "p \<in> set hold" for p
  proof (cases "free_page s0 p")
    case False
    have p: "ram_page p" "used (pages s0 ! page_no p)" using ui that False by (auto simp: user_inv_def)
    have i: "page_no p < 512" using page_at_no(2) p(1) by (simp add: ram_page_def)
    have "unat (pages s0 ! page_no p) + refs (mapped_pages (phys s0) P user_pages) (page_no p) < 256"
      using us i by (simp add: user_src_def)
    moreover have "refs hold' (page_no p) \<le> refs (mapped_pages (phys s0) P user_pages) (page_no p)"
      using le p(2) by (simp add: used_def)
    ultimately show ?thesis using p by (simp add: may_hold_def)
  next
    case True
    then show ?thesis using ui that by (simp add: may_hold_def user_inv_def)
  qed
  then show ?thesis using ui sub by (simp add: held_def user_inv_def)
qed

lemma user_refs:
  assumes ui: "user_inv s0 K P C vs va hold s" and vs: "vs @ va # ws = user_pages"
    and le: "\<forall>i. pages s0 ! i \<noteq> 0 \<longrightarrow> refs ps i \<le> refs (mapped_pages (phys s0) P [va]) i"
  shows "\<forall>i. pages s0 ! i \<noteq> 0 \<longrightarrow> refs (hold @ ps) i \<le> refs (mapped_pages (phys s0) P user_pages) i"
proof (intro allI impI)
  fix i assume i: "pages s0 ! i \<noteq> 0"
  have "refs hold i \<le> refs (mapped_pages (phys s0) P vs) i" using ui i by (simp add: user_inv_def)
  moreover have "user_pages = vs @ [va] @ ws" using vs by simp
  then have "refs (mapped_pages (phys s0) P user_pages) i = refs (mapped_pages (phys s0) P vs) i
      + refs (mapped_pages (phys s0) P [va]) i + refs (mapped_pages (phys s0) P ws) i"
    by (simp only: mapped_pages_append refs_append)
  ultimately show "refs (hold @ ps) i \<le> refs (mapped_pages (phys s0) P user_pages) i"
    using le i by (simp only: refs_append) (meson add_mono trans_le_add1)
qed

lemma user_mapped:
  assumes ui: "user_inv s0 K P C vs va hold s" and vs: "vs @ va # ws = user_pages" and ws: "ws = page_range (va + PAGESIZE) n"
    and lim: "unat va + 4096 * Suc n < 2 ^ 64"
  shows "mapped_pages (phys s) C user_pages = hold"
proof -
  have "mapped_pages (phys s) C (page_range va (Suc n)) = []"
    by (rule empty_pages) (use ui lim in \<open>simp_all add: user_inv_def\<close>)
  then have "mapped_pages (phys s) C (va # ws) = []" unfolding ws by simp
  moreover have "mapped_pages (phys s) C vs = hold" using ui by (simp add: user_inv_def)
  ultimately show ?thesis unfolding vs [symmetric] mapped_pages_append by simp
qed

lemma gave_up_all: "gave_up s0 hold hold pid k k' \<Longrightarrow> gave_up s0 [] [] pid k k'"
  by (auto simp: gave_up_def)

lemma gave_up_free:
  assumes "gave_up s0 (hold @ [p]) hold pid k k'" "free_page s0 p"
  shows "\<exists>k''. kfree_page p k' = Some k'' \<and> gave_up s0 [] [] pid k k''"
proof -
  obtain s where k': "k' = freed_slot pid k s" and ok: "pages_ok s" and ke: "kernel_end s = kernel_end s0" and un: "unchanged s0 s"
    and cnt: "\<forall>i<512. pages s ! i = pages s0 ! i + of_nat (refs (hold @ [p]) i) - of_nat (refs hold i)"
    using assms(1) by (auto simp: gave_up_def)
  have p: "ram_page p" using free_page_range [OF assms(2)] by (simp add: ram_page_def)
  obtain s1 where s1: "kfree p s = Some s1" "released [p] s s1" using kfree_released [OF ok p] by blast
  have "pages s1 ! i = pages s0 ! i" if "i < 512" for i
    using s1(2) cnt that ok by (auto simp: released_def pages_ok_def)
  moreover have "unchanged s0 s1" using s1(2) un assms(2) by (simp add: released_def unchanged_def)
  moreover have "kernel_end s1 = kernel_end s0" using s1(2) ke by (simp add: released_def)
  ultimately have "gave_up s0 [] [] pid k (freed_slot pid k s1)"
    using released_ok [OF s1(2) ok] unfolding gave_up_def by (intro exI [of _ s1]) simp
  moreover have "kfree_page p k' = Some (freed_slot pid k s1)" using s1(1) by (simp add: k' kfree_page_def)
  ultimately show ?thesis by blast
qed

lemma cur_pe_frame:
  assumes "on_walk m it" "keeps_tables m m' (it_pt it)"
  shows "cur_pe m' it = cur_pe m it"
proof (cases "va_is_canonical (it_va it)")
  case True
  then obtain t where t: "table_at m (it_pt it) (it_va it) (3 - it_level it) = Some (t, it_perm it)"
    "it_pep it = Entry (entry_addr t (pageindex (it_va it) (it_level it)))"
    using assms(1) by (auto simp: on_walk_def)
  have "t \<in> tables m (it_pt it)" by (rule tablesI [OF t(1)]) simp
  then have "entry_at m' t (it_va it) (it_level it) = entry_at m t (it_va it) (it_level it)"
    using assms tables_aligned by (intro entry_at_cong) (auto simp: on_walk_def keeps_tables_def)
  then show ?thesis by (simp add: load_pe_def t(2) entry_at_def)
next
  case False
  then show ?thesis using assms(1) by (simp add: on_walk_def load_pe_def)
qed

lemma ready_frame: "ready m it \<Longrightarrow> keeps_tables m m' (it_pt it) \<Longrightarrow> ready m' it"
  using cur_pe_frame [of m it m'] on_walk_frame [of m m' it] by (simp add: ready_def)

lemma src_cur_pe:
  assumes "src_ok s0 (it_pt it)" "unchanged s0 s" "unchanged s0 s1" "on_walk (phys s) it"
  shows "cur_pe (phys s1) it = cur_pe (phys s) it"
proof -
  have "on_walk (phys s0) it" using on_walk_frame [OF src_keep [OF assms(1,2)]] assms(4) by simp
  then show ?thesis
    using cur_pe_frame [OF _ src_keep [OF assms(1,2)]] cur_pe_frame [OF _ src_keep [OF assms(1,3)]] by simp
qed

lemma perm_bits: "(x AND 3 = 3 \<and> x AND 5 = 5) \<longleftrightarrow> x AND 7 = (7 :: u64)"
proof
  assume a: "x AND 3 = 3 \<and> x AND 5 = 5"
  have "x AND (3 OR 5) = (x AND 3) OR (x AND 5)" by (rule bit.conj_disj_distrib)
  then show "x AND 7 = 7" using a by simp
next
  assume a: "x AND 7 = 7"
  have "x AND (7 AND 3) = (x AND 7) AND 3" "x AND (7 AND 5) = (x AND 7) AND 5" by (simp_all only: and.assoc)
  then show "x AND 3 = 3 \<and> x AND 5 = 5" using a by simp
qed

lemma writable_user:
  "vm_writable m it \<and> vm_user m it \<longleftrightarrow> vm_present m it \<and> vm_perm m it AND 7 = 7"
proof -
  let ?x = "cur_pe m it AND it_perm it"
  have "vm_writable m it \<and> vm_user m it \<longleftrightarrow> ?x AND 7 = 7"
    using perm_bits [of ?x] by (simp add: vm_writable_def vm_user_def vm_perm_ok_def and.assoc)
  moreover have "?x AND 7 = 7 \<Longrightarrow> cur_pe m it AND PTE_P \<noteq> 0"
  proof -
    assume "?x AND 7 = 7"
    then have "bit ?x 0" using bit_and_iff [of ?x 7 0] by simp
    then show ?thesis using present_bit [of "cur_pe m it"] by (simp only: bit_and_iff)
  qed
  ultimately show ?thesis by (auto simp: vm_present_def vm_perm_def)
qed

definition fork_src :: "kmem \<Rightarrow> u64 \<Rightarrow> u64 \<Rightarrow> bool" where
  "fork_src s0 K P \<longleftrightarrow> pages_ok s0 \<and> src_ok s0 K \<and> kernel_small s0 K \<and> src_ok s0 P \<and> user_src s0 P"

definition at_page :: "kmem \<Rightarrow> u64 \<Rightarrow> u64 \<Rightarrow> u64 \<Rightarrow> vmiter \<Rightarrow> vmiter \<Rightarrow> bool" where
  "at_page s P C va pit c \<longleftrightarrow> at_leaf (phys s) pit \<and> it_pt pit = P \<and> it_va pit = va
     \<and> ready (phys s) c \<and> it_pt c = C \<and> it_va c = va \<and> it_perm c AND 7 = 7"

definition page_done ::
  "kmem \<Rightarrow> u64 \<Rightarrow> u64 \<Rightarrow> u64 \<Rightarrow> int \<Rightarrow> u64 list \<Rightarrow> u64 \<Rightarrow> vmiter \<Rightarrow> kernel \<Rightarrow> (int \<times> kernel) option \<Rightarrow> bool" where
  "page_done s0 K P C pid vs va c k res \<longleftrightarrow>
     (\<exists>hold s. res = Some (0, k\<lparr>km := s\<rparr>) \<and> user_inv s0 K P C (vs @ [va]) (va + PAGESIZE) hold s \<and> on_walk (phys s) c)
     \<or> (\<exists>r k'. res = Some (r, k') \<and> r \<noteq> 0 \<and> gave_up s0 [] [] pid k k')"

lemma read_page:
  assumes src: "fork_src s0 K P" and ui: "user_inv s0 K P C vs va hold s" and it: "at_page s P C va pit c"
    and va: "va < MEMSIZE_VIRTUAL" and pr: "vm_present (phys s) pit"
  shows "mapping (phys s0) P va = Some (vm_pa (phys s) pit, vm_perm (phys s) pit AND 7)"
    and "ram_page (vm_pa (phys s) pit)" "used (pages s0 ! page_no (vm_pa (phys s) pit))" "vm_pa (phys s) pit < 0x100000000"
    and "vm_perm (phys s) pit AND PTE_P \<noteq> 0" "vm_perm (phys s) pit < 4096"
proof -
  have un: "unchanged s0 s" using ui fork_unchanged by (auto simp: user_inv_def)
  have al: "page_aligned va" "PROC_START_ADDR \<le> va" using ui by (simp_all add: user_inv_def)
  have lf: "at_leaf (phys s) pit" "it_pt pit = P" "it_va pit = va" using it by (simp_all add: at_page_def)
  have sP: "src_ok s0 P" and us: "user_src s0 P" using src by (simp_all add: fork_src_def)
  show mp: "mapping (phys s0) P va = Some (vm_pa (phys s) pit, vm_perm (phys s) pit AND 7)"
    using at_leaf_mapping [OF lf(1)] src_mapping [OF sP un, of va] lf pr by simp
  then show "ram_page (vm_pa (phys s) pit)" "used (pages s0 ! page_no (vm_pa (phys s) pit))"
    using us al va unfolding user_src_def by blast+
  then show "vm_pa (phys s) pit < 0x100000000" by (auto simp: ram_page_def intro: less_trans)
  show "vm_perm (phys s) pit AND PTE_P \<noteq> 0" "vm_perm (phys s) pit < 4096"
    using source_read [OF lf(1)] lf(3) al(1) pr by simp_all
qed

lemma share_ok:
  assumes src: "fork_src s0 K P" and ui: "user_inv s0 K P C vs va hold (km k)" and sl: "child_slot pid C k"
    and it: "at_page (km k) P C va pit c"
    and va: "va < MEMSIZE_VIRTUAL" "vs @ va # ws = user_pages" "ws = page_range (va + PAGESIZE) n" "unat va + 4096 * Suc n < 2 ^ 64"
    and pr: "vm_present (kphys k) pit" "\<not> (vm_writable (kphys k) pit \<and> vm_user (kphys k) pit)"
  shows "page_done s0 K P C pid vs va c k (fork_page pid pit c k)"
proof -
  let ?m = "kphys k" and ?s = "km k"
  let ?pa = "vm_pa ?m pit" and ?perm = "vm_perm ?m pit"
  have inv: "fork_inv s0 C hold ?s" and al: "page_aligned va" using ui by (simp_all add: user_inv_def)
  have ok0: "pages_ok s0" and sP: "src_ok s0 P" and us: "user_src s0 P" using src by (simp_all add: fork_src_def)
  note rd = read_page [OF src ui it va(1) pr(1)]
  have lf: "at_leaf ?m pit" "it_pt pit = P" "it_va pit = va" and c: "ready ?m c" "it_pt c = C" "it_va c = va" "it_perm c AND 7 = 7"
    using it by (simp_all add: at_page_def)
  have pa: "page_aligned ?pa" using rd(2) by (simp add: ram_page_def)
  have n7: "?perm AND 7 \<noteq> 7" using pr writable_user by blast
  have refs1: "\<forall>i. pages s0 ! i \<noteq> 0 \<longrightarrow> refs [?pa] i \<le> refs (mapped_pages (phys s0) P [va]) i" using rd(1) by simp
  note bound = user_refs [OF ui va(2), of "[]"] user_refs [OF ui va(2) refs1]
  have hd: "held s0 C hold hold ?s" using user_held [OF ui us, of hold] bound(1) by simp
  have as: "map_asserts c ?pa ?perm" by (rule user_map_asserts) (use c rd pa al in auto)
  have eq: "?pa = (if ?pa = - 1 \<and> ?perm = 0 then 0 else ?pa)" using rd(5) by auto
  let ?F = "\<lambda>(res, k1). if res \<noteq> 0 then Some (- 1, k1)
      else let n = page_no (vm_pa (kphys k1) pit); s = km k1
           in if n < length (pages s) then Some (0, k1\<lparr>km := s\<lparr>pages := (pages s)[n := pages s ! n + 1]\<rparr>\<rparr>) else None"
  have call: "fork_page pid pit c k = Option.bind (map_check c ?pa ?perm pid k) ?F"
    unfolding fork_page_def Let_def if_not_P [OF pr(2)] if_P [OF pr(1)] ..
  show ?thesis
  proof (cases "\<exists>k'. map_check c ?pa ?perm pid k = Some (- 1, k') \<and> gave_up s0 hold hold pid k k'")
    case True
    then show ?thesis unfolding call page_done_def using gave_up_all by auto
  next
    case False
    then obtain s where mc: "map_check c ?pa ?perm pid k = Some (0, k\<lparr>km := s\<rparr>)" and inv1: "fork_inv s0 C hold s"
      and cs: "copy_step C ?s s" and ow: "on_walk (phys s) c" and cnt: "\<forall>i<512. pages ?s ! i \<noteq> 0 \<longrightarrow> pages s ! i = pages ?s ! i"
      and mm: "\<forall>v. mapping (phys s) C v = (if agree 12 (it_va c) v then mapped_page ?pa ?perm v else mapping ?m C v)"
      using map_check_step [OF inv ok0 sl user_mapped [OF ui va(2,3,4)] hd c(1,2) eq as rd(4,6)] by blast
    have i: "page_no ?pa < 512" using page_at_no(2) [OF pa] rd(2) by (simp add: ram_page_def)
    have room: "unat (pages s0 ! page_no ?pa) + refs hold (page_no ?pa) + 1 < 256"
    proof -
      have "pages s0 ! page_no ?pa \<noteq> 0" using rd(3) by (simp add: used_def)
      then have "refs (hold @ [?pa]) (page_no ?pa) \<le> refs (mapped_pages (phys s0) P user_pages) (page_no ?pa)"
        using bound(2) by blast
      moreover have "unat (pages s0 ! page_no ?pa) + refs (mapped_pages (phys s0) P user_pages) (page_no ?pa) < 256"
        using us i by (simp add: user_src_def)
      moreover have "refs (hold @ [?pa]) (page_no ?pa) = refs hold (page_no ?pa) + 1" by simp
      ultimately show ?thesis by linarith
    qed
    let ?s2 = "s\<lparr>pages := (pages s)[page_no ?pa := pages s ! page_no ?pa + 1]\<rparr>"
    note sh = share_page [OF inv1 rd(2,3) room]
    have pe: "vm_pa (phys s) pit = ?pa"
      using src_cur_pe [of s0 pit ?s s] sP lf fork_unchanged [OF inv] fork_unchanged [OF inv1] at_leaf_on_walk [OF lf(1)]
      by (simp add: vm_pa_def)
    have res: "fork_page pid pit c k = Some (0, k\<lparr>km := ?s2\<rparr>)"
      unfolding call mc using sh(5) by (simp add: pe)
    have sc: "unat (va + PAGESIZE) = unat va + 4096" by (rule page_succ(2) [OF refl]) (use va(4) in simp)
    have mpa: "mapped_page ?pa ?perm va = Some (?pa, ?perm AND 7)"
      using rd(5) al by (simp add: mapped_page_def page_aligned_def)
    have one: "\<forall>i. pages s0 ! i = 0 \<longrightarrow> refs (hold @ [?pa]) i \<le> 1"
      using ui rd(3) by (auto simp: user_inv_def used_def)
    have "user_inv s0 K P C (vs @ [va]) (va + PAGESIZE) (hold @ [?pa]) ?s2"
    proof (rule user_inv_next [OF ui sc sh(1) copy_trans [OF cs sh(2)] _ _ _ _ _ refs1 one])
      show "\<forall>i<512. pages s0 ! i = 0 \<and> pages ?s ! i \<noteq> 0 \<longrightarrow> pages ?s2 ! i = pages ?s ! i" using sh(6) cnt by simp
      show "\<forall>v. mapping (phys ?s2) C v = (if agree 12 va v then mapped_page ?pa ?perm v else mapping ?m C v)" using mm c(3) by simp
      show "[?pa] = (case mapped_page ?pa ?perm va of None \<Rightarrow> [] | Some (pa, _) \<Rightarrow> [pa])" by (simp add: mpa)
      have "mapping (phys s) C va = Some (?pa, ?perm AND 7)" using mm c(3) mpa by (simp add: agree_iff)
      then show "page_copied s0 ?s2 P C va" using rd(1) n7 by (simp add: page_copied_def)
      show "\<forall>p\<in>set [?pa]. ram_page p \<and> (free_page s0 p \<or> used (pages s0 ! page_no p)) \<and> p \<notin> tables (phys ?s2) C \<and> \<not> free_page ?s2 p"
        using rd(2,3) sh(3,4) by simp
    qed
    then show ?thesis using res ow unfolding page_done_def by (intro disjI1 exI [of _ "hold @ [?pa]"] exI [of _ ?s2]) simp
  qed
qed

lemma copy_ok:
  assumes src: "fork_src s0 K P" and ui: "user_inv s0 K P C vs va hold (km k)" and sl: "child_slot pid C k"
    and it: "at_page (km k) P C va pit c"
    and va: "va < MEMSIZE_VIRTUAL" "vs @ va # ws = user_pages" "ws = page_range (va + PAGESIZE) n" "unat va + 4096 * Suc n < 2 ^ 64"
    and wu: "vm_writable (kphys k) pit \<and> vm_user (kphys k) pit"
  shows "page_done s0 K P C pid vs va c k (fork_page pid pit c k)"
proof -
  let ?m = "kphys k" and ?s = "km k"
  let ?pa = "vm_pa ?m pit" and ?perm = "vm_perm ?m pit"
  have pr: "vm_present ?m pit" and p7: "?perm AND 7 = 7" using wu writable_user by blast+
  have inv: "fork_inv s0 C hold ?s" and al: "page_aligned va" using ui by (simp_all add: user_inv_def)
  have ok: "pages_ok ?s" and pinv: "pt_inv free_page ?s C" using inv by (simp_all add: fork_inv_def)
  have ok0: "pages_ok s0" and sP: "src_ok s0 P" and us: "user_src s0 P" using src by (simp_all add: fork_src_def)
  note rd = read_page [OF src ui it va(1) pr] and un = fork_unchanged [OF inv]
  have lf: "at_leaf ?m pit" "it_pt pit = P" "it_va pit = va" and c: "ready ?m c" "it_pt c = C" "it_va c = va" "it_perm c AND 7 = 7"
    using it by (simp_all add: at_page_def)
  obtain p s1 where ka: "kalloc PAGESIZE ?s = (p, s1)" by fastforce
  note bound = user_refs [OF ui va(2), of "[]"]
  have mp: "mapped_pages ?m C user_pages = hold" by (rule user_mapped [OF ui va(2,3,4)])
  show ?thesis
  proof (cases "p = 0")
    case True
    have s1: "s1 = ?s" using kpa.alloc_fails [OF ok ka [unfolded True]] by simp
    have hd: "held s0 C hold hold ?s" using user_held [OF ui us, of hold] bound by simp
    obtain k' where "exit_proc pid k = Some k'" "gave_up s0 hold hold pid k k'" using exit_gives_up [OF inv ok0 sl mp hd] by blast
    then show ?thesis using wu ka True s1 gave_up_all unfolding page_done_def fork_page_def by auto
  next
    case p0: False
    have o1: "same_outside p ?m (phys s1)" using kpa.alloc_frame [OF ok ka] by (simp add: same_outside_def)
    have un1: "unchanged s0 s1" using fork_unchanged [OF take_page(1) [OF inv ka p0 o1]] by simp
    have keep_pe: "cur_pe (phys s1) pit = cur_pe ?m pit"
      by (rule src_cur_pe) (use sP lf un un1 at_leaf_on_walk in auto)
    have pe: "vm_pa (phys s1) pit = ?pa" using keep_pe by (simp add: vm_pa_def)
    let ?m2 = "mem_copy (phys s1) p ?pa PAGESIZE"
    let ?s2 = "s1\<lparr>phys := ?m2\<rparr>"
    have out: "same_outside p ?m ?m2" using o1 by (simp add: same_outside_def mem_simps)
    note tp = take_page [OF inv ka p0 out] and kt = kpa.alloc_pt_inv(2) [OF ok pinv ka p0 out]
    have cur2: "cur_pe ?m2 pit = cur_pe ?m pit"
      using src_cur_pe [of s0 pit ?s ?s2] sP lf un fork_unchanged [OF tp(1)] at_leaf_on_walk by simp
    have pm: "vm_perm ?m2 pit = ?perm" using cur2 by (simp add: vm_perm_def)
    have refs1: "\<forall>i. pages s0 ! i \<noteq> 0 \<longrightarrow> refs [p] i \<le> refs (mapped_pages (phys s0) P [va]) i"
      using tp(6) by (auto simp: free_page_def used_def)
    have refs2: "\<forall>i. pages s0 ! i \<noteq> 0 \<longrightarrow> refs [p] i \<le> 0" using tp(6) by (auto simp: free_page_def used_def)
    have hd0: "held s0 C (hold @ [p]) hold ?s"
      by (rule user_held [OF ui us]) (use user_refs [OF ui va(2) refs1] in auto)
    have hd: "held s0 C (hold @ [p]) hold ?s2" by (rule copy_step_held [OF tp(2) hd0])
    have mp2: "mapped_pages (phys ?s2) C user_pages = hold"
      unfolding mp [symmetric] kmem.select_convs kmem.update_convs using tp(4) by (intro mapped_pages_cong) simp
    have pg: "page_aligned p" "p < 0x100000000" using tp(7) by (auto simp: ram_page_def intro: less_trans)
    have rdy: "ready (phys ?s2) c" using ready_frame [OF c(1)] kt c(2) by simp
    have as: "map_asserts c p ?perm" by (rule user_map_asserts) (use c rd pg al in auto)
    have eq: "p = (if p = - 1 \<and> ?perm = 0 then 0 else p)" using rd(5) by auto
    have call: "fork_page pid pit c k = Option.bind (map_check c p ?perm pid (k\<lparr>km := ?s2\<rparr>))
        (\<lambda>(res, k1). if res \<noteq> 0 then map_option (Pair (- 1)) (kfree_page p k1) else Some (0, k1))"
      unfolding fork_page_def Let_def if_P [OF wu] ka using p0 by (simp add: pe pm [unfolded PAGESIZE_def])
    show ?thesis
    proof (cases "\<exists>k'. map_check c p ?perm pid (k\<lparr>km := ?s2\<rparr>) = Some (- 1, k') \<and> gave_up s0 (hold @ [p]) hold pid (k\<lparr>km := ?s2\<rparr>) k'")
      case True
      then obtain k' where k': "map_check c p ?perm pid (k\<lparr>km := ?s2\<rparr>) = Some (- 1, k')" "gave_up s0 (hold @ [p]) hold pid k k'"
        by auto
      obtain k'' where "kfree_page p k' = Some k''" "gave_up s0 [] [] pid k k''" using gave_up_free [OF k'(2) tp(6)] by blast
      then show ?thesis unfolding call page_done_def k'(1) by auto
    next
      case False
      then obtain s where mc: "map_check c p ?perm pid (k\<lparr>km := ?s2\<rparr>) = Some (0, k\<lparr>km := s\<rparr>)" and inv3: "fork_inv s0 C (hold @ [p]) s"
        and cs: "copy_step C ?s2 s" and ow: "on_walk (phys s) c" and cnt: "\<forall>i<512. pages ?s2 ! i \<noteq> 0 \<longrightarrow> pages s ! i = pages ?s2 ! i"
        and mm: "\<forall>v. mapping (phys s) C v = (if agree 12 (it_va c) v then mapped_page p ?perm v else mapping (phys ?s2) C v)"
        using map_check_step [of s0 C "hold @ [p]" "k\<lparr>km := ?s2\<rparr>" pid hold c p p ?perm] tp(1) ok0 sl mp2 hd rdy c(2) eq as pg(2) rd(6)
        by auto
      have sc: "unat (va + PAGESIZE) = unat va + 4096" by (rule page_succ(2) [OF refl]) (use va(4) in simp)
      have mpa: "mapped_page p ?perm va = Some (p, 7)"
        using rd(5) al p7 by (simp add: mapped_page_def page_aligned_def)
      have nf2: "\<not> free_page ?s2 p" and nt2: "p \<notin> tables (phys ?s2) C" using tp(8,9,3) by simp_all
      have nf: "\<not> free_page s p" and nt: "p \<notin> tables (phys s) C" using cs nf2 nt2 unfolding copy_step_def by blast+
      have i: "page_no p < 512" using page_at_no(2) [OF pg(1)] tp(7) by (simp add: ram_page_def)
      have cp: "phys s (p + i) = phys s0 (?pa + i)" if i: "i < 4096" for i
      proof -
        have rp: "in_rng p 4096 (p + i)" "in_rng ?pa 4096 (?pa + i)" using i by (simp_all add: in_rng_def)
        have "phys s (p + i) = phys ?s2 (p + i)"
          using cs pg(1) nf2 nt2 rp(1) unfolding copy_step_def by blast
        also have "\<dots> = ?m2 (p + i)" by simp
        also have "\<dots> = phys s1 (?pa + i)" using rp(1) by (simp add: mem_copy_def)
        also have "\<dots> = phys s0 (?pa + i)"
        proof -
          have "\<not> in_rng q 4096 (?pa + i)" if q: "free_page s0 q" for q
          proof -
            have "?pa \<noteq> q" using q rd(3) by (auto simp: free_page_def)
            then show ?thesis using pages_disjoint [OF _ _ _ rp(2)] rd(2) free_page_range [OF q] by (auto simp: ram_page_def)
          qed
          then show ?thesis using un1 by (simp add: unchanged_def)
        qed
        finally show ?thesis .
      qed
      have new0: "refs hold (page_no p) = 0"
      proof -
        have "page_no q \<noteq> page_no p" if "q \<in> set hold" for q
          using ui that tp(5) page_no_inj [OF _ pg(1), of q] by (auto simp: user_inv_def ram_page_def)
        then show ?thesis unfolding refs_def by (simp only: length_0_conv filter_empty_conv) blast
      qed
      have one: "\<forall>i. pages s0 ! i = 0 \<longrightarrow> refs (hold @ [p]) i \<le> 1"
        using ui new0 by (auto simp: user_inv_def)
      have "user_inv s0 K P C (vs @ [va]) (va + PAGESIZE) (hold @ [p]) s"
      proof (rule user_inv_next [OF ui sc inv3 copy_trans [OF tp(2) cs] _ _ _ _ _ refs1 one])
        show "\<forall>i<512. pages s0 ! i = 0 \<and> pages ?s ! i \<noteq> 0 \<longrightarrow> pages s ! i = pages ?s ! i" using tp(11) cnt by simp
        show "\<forall>v. mapping (phys s) C v = (if agree 12 va v then mapped_page p ?perm v else mapping ?m C v)"
          using mm c(3) tp(4) by simp
        show "[p] = (case mapped_page p ?perm va of None \<Rightarrow> [] | Some (pa, _) \<Rightarrow> [pa])" by (simp add: mpa)
        have "mapping (phys s) C va = Some (p, 7)" using mm c(3) mpa by (simp add: agree_iff)
        moreover have "pages s ! page_no p = 1" using cnt i tp(10) by simp
        ultimately show "page_copied s0 s P C va"
          using rd(1) p7 tp(6) nf nt cp by (simp add: page_copied_def)
        show "\<forall>q\<in>set [p]. ram_page q \<and> (free_page s0 q \<or> used (pages s0 ! page_no q)) \<and> q \<notin> tables (phys s) C \<and> \<not> free_page s q"
          using tp(6,7) nf nt by simp
      qed
      moreover have "fork_page pid pit c k = Some (0, k\<lparr>km := s\<rparr>)" unfolding call mc by simp
      ultimately show ?thesis using ow unfolding page_done_def by auto
    qed
  qed
qed

lemma fork_page_ok:
  assumes "fork_src s0 K P" "user_inv s0 K P C vs va hold (km k)" "child_slot pid C k" "at_page (km k) P C va pit c"
    and "va < MEMSIZE_VIRTUAL" "vs @ va # ws = user_pages" "ws = page_range (va + PAGESIZE) n" "unat va + 4096 * Suc n < 2 ^ 64"
  shows "page_done s0 K P C pid vs va c k (fork_page pid pit c k)"
proof (cases "vm_writable (kphys k) pit \<and> vm_user (kphys k) pit")
  case True
  then show ?thesis by (rule copy_ok [OF assms])
next
  case nwu: False
  show ?thesis
  proof (cases "vm_present (kphys k) pit")
    case True
    then show ?thesis by (rule share_ok [OF assms _ nwu])
  next
    case False
    let ?s = "km k"
    have ui: "user_inv s0 K P C vs va hold ?s" and inv: "fork_inv s0 C hold ?s" and al: "page_aligned va"
      and re: "region_empty (phys ?s) C va" using assms(2) by (simp_all add: user_inv_def)
    have lf: "at_leaf (phys ?s) pit" "it_pt pit = P" "it_va pit = va" and c: "ready (phys ?s) c"
      using assms(4) by (simp_all add: at_page_def)
    have none: "mapping (phys s0) P va = None"
      using at_leaf_mapping [OF lf(1)] lf src_mapping [of s0 P ?s va] fork_unchanged [OF inv] assms(1) False
      by (simp add: fork_src_def)
    have cn: "mapping (phys ?s) C va = None" using re by (simp add: region_empty_def)
    have sc: "unat (va + PAGESIZE) = unat va + 4096" by (rule page_succ(2) [OF refl]) (use assms(8) in simp)
    have "user_inv s0 K P C (vs @ [va]) (va + PAGESIZE) (hold @ []) ?s"
    proof (rule user_inv_next [OF ui sc _ copy_refl])
      show "\<forall>v. mapping (phys ?s) C v = (if agree 12 va v then mapping (phys ?s) C v else mapping (phys ?s) C v)" by simp
      show "\<forall>i. pages s0 ! i = 0 \<longrightarrow> refs (hold @ []) i \<le> 1" using ui by (simp add: user_inv_def)
    qed (use inv cn none in \<open>simp_all add: page_copied_def\<close>)
    moreover have "fork_page pid pit c k = Some (0, k\<lparr>km := ?s\<rparr>)"
      unfolding fork_page_def Let_def if_not_P [OF nwu] if_not_P [OF False] by simp
    ultimately show ?thesis
      using c unfolding page_done_def ready_def by (intro disjI1 exI [of _ hold] exI [of _ ?s]) simp
  qed
qed

lemma fork_user_loop_ok:
  assumes "fork_src s0 K P" "user_inv s0 K P C vs va hold (km k)" "child_slot pid C k" "at_page (km k) P C va pit c"
    and "vs @ page_range va (Suc n) = user_pages" "unat va + 4096 * n = 0x300000"
  shows "(\<exists>hold vs s. fork_user_loop pid pit c k = Some (0, k\<lparr>km := s\<rparr>)
      \<and> user_inv s0 K P C vs MEMSIZE_VIRTUAL hold s \<and> vs @ [MEMSIZE_VIRTUAL] = user_pages)
    \<or> (\<exists>k'. fork_user_loop pid pit c k = Some (- 1, k') \<and> gave_up s0 [] [] pid k k')"
  using assms(2-)
proof (induction n arbitrary: vs va hold k pit c)
  case 0
  have va: "it_va pit = va" "va = MEMSIZE_VIRTUAL" using 0(3,5) by (simp_all add: at_page_def word_unat_eq_iff)
  then have "\<not> it_va pit < MEMSIZE_VIRTUAL" by simp
  then have "fork_user_loop pid pit c k = Some (0, k\<lparr>km := km k\<rparr>)" by (subst fork_user_loop.simps) simp
  moreover have "vs @ [MEMSIZE_VIRTUAL] = user_pages" using 0(4) va(2) by (simp del: MEMSIZE_VIRTUAL_def)
  ultimately show ?case using 0(1) va(2) by blast
next
  case (Suc n)
  have lt: "va < MEMSIZE_VIRTUAL" using Suc.prems(5) by (simp add: word_less_nat_alt)
  have pv: "it_va pit = va" "it_pt pit = P" "at_leaf (kphys k) pit" "it_va c = va" "it_pt c = C" using Suc.prems(3) by (simp_all add: at_page_def)
  note sc = page_succ [OF Suc.prems(5), simplified]
  have ws: "vs @ va # page_range (va + PAGESIZE) (Suc n) = user_pages" using Suc.prems(4) by simp
  have done1: "page_done s0 K P C pid vs va c k (fork_page pid pit c k)"
    by (rule fork_page_ok [OF assms(1) Suc.prems(1-3) lt ws refl]) (use Suc.prems(5) in simp)
  have step: "fork_user_loop pid pit c k = Option.bind (fork_page pid pit c k) (\<lambda>(res, k1).
          if res \<noteq> 0 then Some (- 1, k1)
          else Option.bind (vm_add (kphys k1) pit PAGESIZE) (\<lambda>parent_it1.
               Option.bind (vm_add (kphys k1) c PAGESIZE) (\<lambda>child_it1.
                 fork_user_loop pid parent_it1 child_it1 k1)))"
    using lt pv(1) by (subst fork_user_loop.simps) simp
  show ?case
  proof (cases "\<exists>r k'. fork_page pid pit c k = Some (r, k') \<and> r \<noteq> 0 \<and> gave_up s0 [] [] pid k k'")
    case True
    then show ?thesis unfolding step by auto
  next
    case False
    then obtain hold1 s where fp: "fork_page pid pit c k = Some (0, k\<lparr>km := s\<rparr>)"
      and ui: "user_inv s0 K P C (vs @ [va]) (va + PAGESIZE) hold1 s" and ow: "on_walk (phys s) c"
      using done1 unfolding page_done_def by blast
    have inv0: "fork_inv s0 C hold (km k)" and inv: "fork_inv s0 C hold1 s" using Suc.prems(1) ui by (simp_all add: user_inv_def)
    have can: "va_is_canonical (va + PAGESIZE)"
    proof -
      have "va + PAGESIZE \<le> VA_LOWMAX" using sc lt by (simp add: word_le_nat_alt word_less_nat_alt)
      then show ?thesis by (simp add: va_is_canonical_def)
    qed
    obtain c1 where c1: "real_find (phys s) c (va + PAGESIZE) = Some c1" "ready (phys s) c1" "it_pt c1 = C"
      "it_va c1 = va + PAGESIZE" "it_perm c1 AND 7 = 7"
      by (rule child_iter [OF inv ow pv(5) can])
    have sP: "src_ok s0 P" using assms(1) by (simp add: fork_src_def)
    have ow1: "on_walk (phys s) pit"
      using src_on_walk [of s0 pit "km k" s] sP fork_unchanged [OF inv0] fork_unchanged [OF inv] pv(2,3) at_leaf_on_walk by simp
    obtain p1 where p1: "real_find (phys s) pit (va + PAGESIZE) = Some p1" "at_leaf (phys s) p1"
      "it_va p1 = va + PAGESIZE" "it_pt p1 = P"
      by (rule src_iter [OF sP fork_unchanged [OF inv] ow1 pv(2)])
    have rec: "fork_user_loop pid pit c k = fork_user_loop pid p1 c1 (k\<lparr>km := s\<rparr>)"
      unfolding step fp using p1(1) c1(1) pv by (simp add: vm_add_def)
    have "(\<exists>hold vs s'. fork_user_loop pid p1 c1 (k\<lparr>km := s\<rparr>) = Some (0, k\<lparr>km := s\<rparr>\<lparr>km := s'\<rparr>)
        \<and> user_inv s0 K P C vs MEMSIZE_VIRTUAL hold s' \<and> vs @ [MEMSIZE_VIRTUAL] = user_pages)
      \<or> (\<exists>k'. fork_user_loop pid p1 c1 (k\<lparr>km := s\<rparr>) = Some (- 1, k') \<and> gave_up s0 [] [] pid (k\<lparr>km := s\<rparr>) k')"
    proof (rule Suc.IH)
      show "user_inv s0 K P C (vs @ [va]) (va + PAGESIZE) hold1 (km (k\<lparr>km := s\<rparr>))" using ui by simp
      show "at_page (km (k\<lparr>km := s\<rparr>)) P C (va + PAGESIZE) p1 c1" using p1 c1 by (simp add: at_page_def)
      show "(vs @ [va]) @ page_range (va + PAGESIZE) (Suc n) = user_pages" using ws by simp
    qed (use Suc.prems(2) sc in simp_all)
    then show ?thesis unfolding rec by simp
  qed
qed

section \<open>A new page table\<close>

lemma zero_root:
  fixes mm :: mem
  assumes "page_aligned C"
  defines "m \<equiv> mem_fill mm C 0 PAGESIZE"
  shows "tables m C = {C}" "pt_entry m C v = (3, 0, if va_is_canonical v then initial_perm else 0)"
    and "\<not> avail s C \<Longrightarrow> phys s = m \<Longrightarrow> pt_inv avail s C"
proof -
  have e: "entry_at m C v l = 0" for v l unfolding m_def by (rule entry_at_zero_page [OF assms(1)])
  have t: "table_at m C v d = (if d = 0 then Some (C, initial_perm) else None)" for v d
  proof (induction d)
    case (Suc d)
    then show ?case by (cases d) (simp_all add: Let_def e)
  qed simp
  show tab: "tables m C = {C}" by (auto simp: tables_def t split: if_splits intro: exI [of _ 0])
  show pe: "pt_entry m C v = (3, 0, if va_is_canonical v then initial_perm else 0)" for v
    by (simp add: pt_entry_def numeral_3_eq_3 Let_def e)
  assume a: "\<not> avail s C" and p: "phys s = m"
  have "pt_tree m C" using assms(1) t by (auto simp: pt_tree_def same_path_def split: if_splits)
  moreover have "no_junk m C" using pe by (simp add: no_junk_def)
  ultimately show "pt_inv avail s C" using a p tab by (simp add: pt_inv_def owned_def)
qed

lemma new_table:
  assumes ok: "pages_ok s0" and al: "kalloc PAGESIZE s0 = (C, s1)" "C \<noteq> 0"
  defines "s2 \<equiv> s1\<lparr>phys := mem_fill (phys s1) C 0 PAGESIZE\<rparr>"
  shows "fork_inv s0 C [] s2" "region_empty (phys s2) C 0"
proof -
  have fp: "free_page s0 C" by (rule kpa.alloc_avail [OF ok al])
  have C: "page_aligned C" "C < MEMSIZE_PHYSICAL" using free_page_range [OF fp] by simp_all
  note pn = page_at_no [OF C] and zr = zero_root [OF C(1), where mm = "phys s1"]
  have mk: "free_page s1 q \<longleftrightarrow> free_page s0 q \<and> q \<noteq> C" for q using kpa.alloc_marks [OF ok al] by simp
  have tk: "took_pages s0 s1" using took_kalloc [OF ok] al by simp
  note cnt = kalloc_counts [OF ok al]
  have tab: "tables (phys s2) C = {C}" using zr(1) by (simp add: s2_def)
  have sm: "small_at (phys s2) C v" if "va_is_canonical v" for v
    using zr(2) [of v] that by (simp add: s2_def small_at_def)
  have "pt_inv free_page s2 C" by (rule zr(3)) (use mk in \<open>simp_all add: s2_def kpa.avail_phys\<close>)
  moreover have "phys s2 x = phys s0 x" if x: "\<forall>q. free_page s0 q \<longrightarrow> \<not> in_rng q 4096 x" for x
    using x fp kpa.alloc_frame [OF ok al(1), of x] by (simp add: s2_def mem_simps)
  moreover have "pages_ok s2" using kpa.alloc_keeps [OF ok al(1)] by (simp add: s2_def)
  moreover have "counted s0 C [] s2" using cnt tab by (simp add: counted_def s2_def)
  moreover have "kernel_end s2 = kernel_end s0" using tk by (simp add: took_pages_def s2_def)
  ultimately show "fork_inv s0 C [] s2"
    using tab fp mk sm by (simp add: fork_inv_def s2_def kpa.avail_phys)
  show "region_empty (phys s2) C 0"
    using zr(2) by (simp add: region_empty_def mapping_def s2_def)
qed

lemma page_range_mem:
  assumes "page_aligned v" "page_aligned va" "va \<le> v" "unat v < unat va + 4096 * n" "unat va + 4096 * n < 2 ^ 64"
  shows "v \<in> set (page_range va n)"
  using assms(2-)
proof (induction n arbitrary: va)
  case (Suc n)
  show ?case
  proof (cases "v = va")
    case False
    have u: "unat (va + PAGESIZE) = unat va + 4096" by (subst PAGESIZE_def, subst unat_add_lt) (use Suc.prems in simp_all)
    have "unat va + 4096 \<le> unat v"
      using False Suc.prems(1,2) assms(1) by (auto simp: page_aligned_dvd word_le_nat_alt word_unat_eq_iff elim!: dvdE)
    then have "v \<in> set (page_range (va + PAGESIZE) n)"
      by (intro Suc.IH) (use u Suc.prems page_aligned_add [of va] in \<open>simp_all add: word_le_nat_alt\<close>)
    then show ?thesis by simp
  qed simp
qed (simp add: word_le_nat_alt)

section \<open>\<open>fork\<close>\<close>

text \<open>The address space of the child and the reference counts after a successful fork.\<close>

definition forked :: "kmem \<Rightarrow> u64 \<Rightarrow> u64 \<Rightarrow> u64 \<Rightarrow> kmem \<Rightarrow> bool" where
  "forked s0 K P C s \<longleftrightarrow> pages_ok s \<and> kernel_end s = kernel_end s0 \<and> pt_inv free_page s C
     \<and> (\<forall>v. page_aligned v \<longrightarrow> v < PROC_START_ADDR \<longrightarrow> mapping (phys s) C v = mapping (phys s0) K v)
     \<and> (\<forall>v. page_aligned v \<longrightarrow> PROC_START_ADDR \<le> v \<longrightarrow> v < MEMSIZE_VIRTUAL \<longrightarrow> page_copied s0 s P C v)
     \<and> (\<forall>v\<ge>MEMSIZE_VIRTUAL. mapping (phys s) C v = None)
     \<and> counted s0 C (mapped_pages (phys s) C user_pages) s
     \<and> (\<forall>v. va_is_canonical v \<longrightarrow> small_at (phys s) C v) \<and> (\<forall>t\<in>tables (phys s) C. free_page s0 t)
     \<and> (\<forall>i. refs (mapped_pages (phys s) C user_pages) i \<le>
          (if pages s0 ! i = 0 then 1 else refs (mapped_pages (phys s0) P user_pages) i))"

lemma user_inv_forked:
  assumes "user_inv s0 K P C vs MEMSIZE_VIRTUAL hold s" "vs @ [MEMSIZE_VIRTUAL] = user_pages"
  shows "forked s0 K P C s" "unchanged s0 s"
proof -
  have fi: "fork_inv s0 C hold s" and re: "region_empty (phys s) C MEMSIZE_VIRTUAL"
    and vs: "\<forall>v\<in>set vs. page_aligned v \<and> v < MEMSIZE_VIRTUAL" and mp: "mapped_pages (phys s) C vs = hold"
    and pc: "\<forall>v\<in>set vs. page_copied s0 s P C v"
    and lo: "\<forall>v. page_aligned v \<longrightarrow> v < PROC_START_ADDR \<longrightarrow> mapping (phys s) C v = mapping (phys s0) K v"
    and le: "\<forall>i. pages s0 ! i \<noteq> 0 \<longrightarrow> refs hold i \<le> refs (mapped_pages (phys s0) P vs) i"
    and one: "\<forall>i. pages s0 ! i = 0 \<longrightarrow> refs hold i \<le> 1"
    using assms(1) unfolding user_inv_def by blast+
  show "unchanged s0 s" by (rule fork_unchanged [OF fi])
  have "mapping (phys s) C MEMSIZE_VIRTUAL = None" using re by (simp add: region_empty_def)
  then have mu: "mapped_pages (phys s) C user_pages = hold"
    unfolding assms(2) [symmetric] mapped_pages_append mp by simp
  have "v \<in> set vs" if v: "page_aligned v" "PROC_START_ADDR \<le> v" "v < MEMSIZE_VIRTUAL" for v
  proof -
    have "v \<in> set user_pages"
    proof (rule page_range_mem [OF v(1) _ v(2)])
      show "page_aligned PROC_START_ADDR" by (simp add: page_aligned_def)
      show "unat v < unat PROC_START_ADDR + 4096 * 513" using v(3) by (simp add: word_less_nat_alt)
    qed simp
    moreover have "v \<noteq> MEMSIZE_VIRTUAL" using v(3) by simp
    ultimately show ?thesis unfolding assms(2) [symmetric] by simp
  qed
  moreover have "refs hold i \<le> (if pages s0 ! i = 0 then 1 else refs (mapped_pages (phys s0) P user_pages) i)" for i
    using le one unfolding assms(2) [symmetric] mapped_pages_append refs_append by (simp add: trans_le_add1)
  ultimately show "forked s0 K P C s"
    using fi re pc lo unfolding forked_def mu by (simp add: fork_inv_def region_empty_def)
qed

lemma src_new:
  assumes "src_ok s0 pt" "unchanged s0 s"
  obtains it where "vmiter_new (phys s) pt va = Some it" "at_leaf (phys s) it" "it_va it = va" "it_pt it = pt"
proof -
  have al: "page_aligned pt" using assms(1) by (simp add: src_ok_def)
  obtain it where "real_find (phys s) (root_iter pt) va = Some it" "at_leaf (phys s) it" "it_va it = va" "it_pt it = pt"
    by (rule src_iter [OF assms root_on_walk [OF al]]) simp_all
  then show ?thesis using that by (simp add: vmiter_new_def)
qed

lemma fork_copy_ok:
  assumes src: "fork_src s0 K P" and inv: "fork_inv s0 C [] (km k)" and re: "region_empty (kphys k) C 0"
    and sl: "child_slot pid C k" and K: "kernel_pagetable k = K"
  shows "(\<exists>s. fork_copy pid P C k = Some (0, k\<lparr>km := s\<rparr>) \<and> forked s0 K P C s \<and> unchanged s0 s)
    \<or> (\<exists>k'. fork_copy pid P C k = Some (- 1, k') \<and> gave_up s0 [] [] pid k k')"
proof -
  have ok0: "pages_ok s0" and sK: "src_ok s0 K" and sP: "src_ok s0 P" and ks: "kernel_small s0 K"
    using src by (simp_all add: fork_src_def)
  have child: "\<exists>c. vmiter_new (phys s) C va = Some c \<and> ready (phys s) c \<and> it_pt c = C \<and> it_va c = va \<and> it_perm c AND 7 = 7"
    if "fork_inv s0 C [] s" "va_is_canonical va" for s va
    using iter_ready [of free_page s C va] that by (auto simp: fork_inv_def)
  have can: "va_is_canonical 0" "va_is_canonical PROC_START_ADDR" by (simp_all add: va_is_canonical_def)
  obtain c where c: "vmiter_new (kphys k) C 0 = Some c" "ready (kphys k) c" "it_pt c = C" "it_va c = 0" "it_perm c AND 7 = 7"
    using child [OF inv can(1)] by blast
  obtain kit where kit: "vmiter_new (kphys k) K 0 = Some kit" "at_leaf (kphys k) kit" "it_va kit = 0" "it_pt kit = K"
    by (rule src_new [OF sK fork_unchanged [OF inv]])
  have re1: "region_empty (kphys k) C PROC_START_ADDR" by (rule region_empty_mono [OF re]) simp
  have kl: "(\<exists>s. fork_kernel_loop pid kit c k = Some (0, k\<lparr>km := s\<rparr>) \<and> fork_inv s0 C [] s
      \<and> region_empty (phys s) C PROC_START_ADDR
      \<and> (\<forall>v. page_aligned v \<longrightarrow> v < PROC_START_ADDR \<longrightarrow> mapping (phys s) C v =
            (if it_va kit \<le> v then mapping (phys s0) K v else mapping (kphys k) C v)))
    \<or> (\<exists>k'. fork_kernel_loop pid kit c k = Some (- 1, k') \<and> gave_up s0 [] [] pid k k')"
    by (rule fork_kernel_loop_ok [OF sK ok0 ks inv sl re1 kit(2,4) c(2,3,5), of 256]) (simp_all add: kit(3) c(4))
  have call: "fork_copy pid P C k = Option.bind (fork_kernel_loop pid kit c k) (\<lambda>(res, k1).
       if res \<noteq> 0 then Some (- 1, k1)
       else Option.bind (vmiter_new (kphys k1) C PROC_START_ADDR) (\<lambda>child_it1.
            Option.bind (vmiter_new (kphys k1) P PROC_START_ADDR) (\<lambda>parent_it.
              fork_user_loop pid parent_it child_it1 k1)))"
    unfolding fork_copy_def K c(1) kit(1) by simp
  show ?thesis
  proof (cases "\<exists>k'. fork_kernel_loop pid kit c k = Some (- 1, k') \<and> gave_up s0 [] [] pid k k'")
    case True
    then show ?thesis unfolding call by auto
  next
    case False
    then obtain s where s: "fork_kernel_loop pid kit c k = Some (0, k\<lparr>km := s\<rparr>)" and inv1: "fork_inv s0 C [] s"
      and re2: "region_empty (phys s) C PROC_START_ADDR"
      and lo: "\<forall>v. page_aligned v \<longrightarrow> v < PROC_START_ADDR \<longrightarrow> mapping (phys s) C v =
            (if it_va kit \<le> v then mapping (phys s0) K v else mapping (kphys k) C v)"
      using kl by blast
    obtain c1 where c1: "vmiter_new (phys s) C PROC_START_ADDR = Some c1" "ready (phys s) c1" "it_pt c1 = C"
      "it_va c1 = PROC_START_ADDR" "it_perm c1 AND 7 = 7"
      using child [OF inv1 can(2)] by blast
    obtain pit where pit: "vmiter_new (phys s) P PROC_START_ADDR = Some pit" "at_leaf (phys s) pit"
      "it_va pit = PROC_START_ADDR" "it_pt pit = P"
      by (rule src_new [OF sP fork_unchanged [OF inv1]])
    have ui: "user_inv s0 K P C [] PROC_START_ADDR [] s"
      using inv1 re2 lo kit(3) by (simp add: user_inv_def page_aligned_def)
    have "(\<exists>hold vs s'. fork_user_loop pid pit c1 (k\<lparr>km := s\<rparr>) = Some (0, k\<lparr>km := s\<rparr>\<lparr>km := s'\<rparr>)
        \<and> user_inv s0 K P C vs MEMSIZE_VIRTUAL hold s' \<and> vs @ [MEMSIZE_VIRTUAL] = user_pages)
      \<or> (\<exists>k'. fork_user_loop pid pit c1 (k\<lparr>km := s\<rparr>) = Some (- 1, k') \<and> gave_up s0 [] [] pid (k\<lparr>km := s\<rparr>) k')"
    proof (rule fork_user_loop_ok [OF src, where vs = "[]" and n = 512])
      show "user_inv s0 K P C [] PROC_START_ADDR [] (km (k\<lparr>km := s\<rparr>))" using ui by simp
      show "at_page (km (k\<lparr>km := s\<rparr>)) P C PROC_START_ADDR pit c1" using pit c1 by (simp add: at_page_def)
      have "Suc 512 = (513 :: nat)" by simp
      then show "[] @ page_range PROC_START_ADDR (Suc 512) = user_pages" by (simp only: append_Nil)
    qed (use sl in simp_all)
    moreover have "fork_copy pid P C k = fork_user_loop pid pit c1 (k\<lparr>km := s\<rparr>)"
      unfolding call s using c1(1) pit(1) by simp
    ultimately show ?thesis using user_inv_forked by fastforce
  qed
qed

definition fork_ok :: "kernel \<Rightarrow> bool" where
  "fork_ok k \<longleftrightarrow> fork_src (km k) (kernel_pagetable k) (p_pagetable (ptable k ! current k))
     \<and> length (ptable k) = NPROC \<and> p_state (ptable k ! current k) \<noteq> P_FREE"

lemma free_pid_spec:
  "n \<le> free_pid ps n \<and> free_pid ps n \<le> n + length ps
    \<and> (free_pid ps n < n + length ps \<longrightarrow> p_state (ps ! (free_pid ps n - n)) = P_FREE)"
proof (induction ps n rule: free_pid.induct)
  case (2 p ps pid)
  then show ?case by (cases "p_state p = 0") (auto simp: nth_Cons' Suc_diff_le)
qed simp

text \<open>A failed fork has given back everything: all reference counts and all used memory are as before.\<close>

definition fork_failed :: "kernel \<Rightarrow> kernel \<Rightarrow> bool" where
  "fork_failed k k' \<longleftrightarrow> pages_ok (km k') \<and> kernel_end (km k') = kernel_end (km k) \<and> (\<forall>i<512. pages (km k') ! i = pages (km k) ! i) \<and> unchanged (km k) (km k')
     \<and> k' = k\<lparr>km := km k', ptable := ptable k'\<rparr> \<and> length (ptable k') = NPROC
     \<and> (\<forall>i<NPROC. p_state (ptable k ! i) \<noteq> P_FREE \<longrightarrow> ptable k' ! i = ptable k ! i)
     \<and> (\<forall>i<NPROC. p_state (ptable k' ! i) = p_state (ptable k ! i) \<and> p_pid (ptable k' ! i) = p_pid (ptable k ! i))"

text \<open>The process that a successful fork starts in slot \<open>pid\<close> with the page table \<open>C\<close>.\<close>

definition child_proc :: "kernel \<Rightarrow> nat \<Rightarrow> u64 \<Rightarrow> proc" where
  "child_proc k pid C = (ptable k ! pid)\<lparr>p_pagetable := C,
     p_regs := (p_regs (ptable k ! current k))\<lparr>reg_rax := 0\<rparr>, p_state := P_RUNNABLE\<rparr>"

lemma fork_failed_slot:
  assumes "length (ptable k) = 16" "pid < 16" "p_state (ptable k ! pid) = P_FREE" "p_state p = P_FREE" "p_pid p = p_pid (ptable k ! pid)"
    and "\<forall>i<512. pages s ! i = pages (km k) ! i" "unchanged (km k) s" "pages_ok s" "kernel_end s = kernel_end (km k)"
  shows "fork_failed k (k\<lparr>km := s, ptable := (ptable k)[pid := p]\<rparr>)"
  using assms by (auto simp: fork_failed_def nth_list_update)

lemma sys_fork_cases:
  assumes "fork_ok k"
  shows "\<exists>r k'. sys_fork k = Some (r, k') \<and> (r = - 1 \<and> fork_failed k k'
    \<or> (\<exists>pid C. r = int pid \<and> 0 < pid \<and> pid < NPROC \<and> p_state (ptable k ! pid) = P_FREE
        \<and> k' = k\<lparr>km := km k', ptable := (ptable k)[pid := child_proc k pid C]\<rparr>
        \<and> forked (km k) (kernel_pagetable k) (p_pagetable (ptable k ! current k)) C (km k') \<and> unchanged (km k) (km k')))"
proof -
  let ?s0 = "km k" and ?K = "kernel_pagetable k" and ?P = "p_pagetable (ptable k ! current k)"
  have src: "fork_src ?s0 ?K ?P" and len: "length (ptable k) = 16" and cur: "p_state (ptable k ! current k) \<noteq> P_FREE"
    using assms by (simp_all add: fork_ok_def)
  have ok: "pages_ok ?s0" using src by (simp add: fork_src_def)
  have fail: "fork_failed k k" using len ok by (simp add: fork_failed_def unchanged_def)
  define pid where "pid = free_pid (tl (ptable k)) 1"
  show ?thesis
  proof (cases "pid = NPROC")
    case True
    then show ?thesis using fail by (simp add: sys_fork_def pid_def)
  next
    case False
    note fs = free_pid_spec [of 1 "tl (ptable k)", folded pid_def]
    have fp: "1 \<le> pid" "pid \<le> 16" using fs len by simp_all
    then have lt: "pid < 16" using False by simp
    have st: "p_state (ptable k ! pid) = P_FREE"
      using fs lt len nth_tl [of "pid - 1" "ptable k"] fp(1) by simp
    have pc: "pid \<noteq> current k" using st cur by metis
    obtain C s where ka: "kalloc PAGESIZE ?s0 = (C, s)" by fastforce
    let ?k1 = "init_process pid 0 k"
    let ?k2 = "upd_proc pid (\<lambda>p. p\<lparr>p_pagetable := C\<rparr>) (?k1\<lparr>km := s\<rparr>)"
    let ?k3 = "upd_phys (\<lambda>m. mem_fill m C 0 PAGESIZE) ?k2"
    have k1: "km ?k1 = ?s0" "p_pagetable (ptable ?k1 ! current ?k1) = ?P" "kernel_pagetable ?k3 = ?K"
      using pc by (simp_all add: init_process_def)
    have call: "sys_fork k = (if C = 0 then Some (- 1, ?k2)
        else Option.bind (fork_copy (int pid) ?P C ?k3) (\<lambda>(res, k3).
               if res \<noteq> 0 then Some (- 1, k3)
               else Some (int pid, upd_proc pid (\<lambda>p. p\<lparr>p_regs := (p_regs (ptable k3 ! current k3))\<lparr>reg_rax := 0\<rparr>,
                                                     p_state := P_RUNNABLE\<rparr>) k3)))"
      unfolding sys_fork_def Let_def pid_def [symmetric] if_not_P [OF False] k1 ka by simp
    show ?thesis
    proof (cases "C = 0")
      case True
      have "s = ?s0" using kpa.alloc_fails [OF ok ka [unfolded True]] by simp
      then have "fork_failed k ?k2"
        using fork_failed_slot [OF len lt st, of "(ptable k ! pid)\<lparr>p_regs := init_regs 0, p_pagetable := C\<rparr>" ?s0] st len lt ok
        by (simp add: unchanged_def init_process_def)
      then show ?thesis using call True by simp
    next
      case C0: False
      note nt = new_table [OF ok ka C0]
      have sl: "child_slot (int pid) C ?k3" using lt fp(1) len by (simp add: child_slot_def init_process_def)
      have km3: "km ?k3 = s\<lparr>phys := mem_fill (phys s) C 0 PAGESIZE\<rparr>" by simp
      have "(\<exists>s. fork_copy (int pid) ?P C ?k3 = Some (0, ?k3\<lparr>km := s\<rparr>) \<and> forked ?s0 ?K ?P C s \<and> unchanged ?s0 s)
          \<or> (\<exists>k'. fork_copy (int pid) ?P C ?k3 = Some (- 1, k') \<and> gave_up ?s0 [] [] (int pid) ?k3 k')"
        by (rule fork_copy_ok [OF src _ _ sl k1(3)]) (use nt in \<open>simp_all only: km3\<close>)
      then show ?thesis
      proof (elim disjE exE conjE)
        fix s' assume fc: "fork_copy (int pid) ?P C ?k3 = Some (0, ?k3\<lparr>km := s'\<rparr>)" and f: "forked ?s0 ?K ?P C s'" "unchanged ?s0 s'"
        let ?k' = "k\<lparr>km := s', ptable := (ptable k)[pid := child_proc k pid C]\<rparr>"
        have "sys_fork k = Some (int pid, ?k')"
          unfolding call fc using C0 lt len pc by (simp add: init_process_def child_proc_def)
        then show ?thesis using f st lt fp(1) by (intro exI [of _ "int pid"] exI [of _ ?k']) auto
      next
        fix k' assume fc: "fork_copy (int pid) ?P C ?k3 = Some (- 1, k')" and g: "gave_up ?s0 [] [] (int pid) ?k3 k'"
        have "fork_failed k k'"
          using g fork_failed_slot [OF len lt st] st len lt by (auto simp: gave_up_def init_process_def)
        then show ?thesis unfolding call fc using C0 by simp
      qed
    qed
  qed
qed

section \<open>Properties\<close>

text \<open>
  C3: \<open>fork\<close> never panics and is all or nothing. Either it returns the number of a slot that was
  free, which then holds a runnable process with the parent's registers and 0 as its result, and an
  address space of its own: the kernel's mappings below the process region, a private copy of each
  of the parent's writable pages (a page that was free, with a reference count of 1 and the same
  contents), a shared mapping of each read-only page, and nothing else; every reference count has
  grown by exactly what the child holds. Or it returns -1, and every reference count, every page
  in use and every live process is as before, even when memory ran out half way through.
\<close>

theorem fork_all_or_nothing:
  assumes "fork_ok k"
  shows "case sys_fork k of None \<Rightarrow> False
    | Some (r, k') \<Rightarrow> unchanged (km k) (km k') \<and>
       (if r = - 1 then fork_failed k k'
        else \<exists>C. 0 < r \<and> r < int NPROC \<and> p_state (ptable k ! nat r) = P_FREE
          \<and> k' = k\<lparr>km := km k', ptable := (ptable k)[nat r := child_proc k (nat r) C]\<rparr>
          \<and> forked (km k) (kernel_pagetable k) (p_pagetable (ptable k ! current k)) C (km k'))"
proof -
  obtain r k' where f: "sys_fork k = Some (r, k')" and c: "r = - 1 \<and> fork_failed k k'
    \<or> (\<exists>pid C. r = int pid \<and> 0 < pid \<and> pid < NPROC \<and> p_state (ptable k ! pid) = P_FREE
        \<and> k' = k\<lparr>km := km k', ptable := (ptable k)[pid := child_proc k pid C]\<rparr>
        \<and> forked (km k) (kernel_pagetable k) (p_pagetable (ptable k ! current k)) C (km k') \<and> unchanged (km k) (km k'))"
    using sys_fork_cases [OF assms] by blast
  show ?thesis
  proof (cases "r = - 1")
    case True
    then show ?thesis using f c by (auto simp: fork_failed_def)
  next
    case False
    then obtain pid C where "r = int pid" "0 < pid" "pid < NPROC" "p_state (ptable k ! pid) = P_FREE"
      "k' = k\<lparr>km := km k', ptable := (ptable k)[pid := child_proc k pid C]\<rparr>"
      "forked (km k) (kernel_pagetable k) (p_pagetable (ptable k ! current k)) C (km k')" "unchanged (km k) (km k')"
      using c by auto
    then show ?thesis using f by (simp; metis)
  qed
qed

lemma kernel_pa_fork: "fork_ok kernel_pa"
proof -
  have m: "kphys kernel_pa = (\<lambda>_. 0)" by (simp add: kernel_pa_def kmem1_def)
  have none: "mapping (\<lambda>_. 0) pt v = None" for pt v by (simp add: mapping_def pt_entry_zeros)
  have nf: "\<not> free_page (km kernel_pa) 0x45000" "\<not> free_page (km kernel_pa) 0x1000"
    using free_page_range by (auto simp: free_page_def used_def kernel_pa_def kmem1_def
        allocatable_physical_address_def reserved_physical_address_def round_up_def round_down_def)
  have so: "src_ok (km kernel_pa) pt" if "pt = 0x45000 \<or> pt = 0x1000" for pt
    using that nf m by (auto simp: src_ok_def page_aligned_def no_junk_def pt_entry_zeros owned_def tables_zeros)
  have "user_src (km kernel_pa) 0x1000"
    using m none mapped_pages_none [OF none, of "0x1000"]
    by (auto simp: user_src_def) (auto simp: kernel_pa_def kmem1_def nth_list_update)
  then have "fork_src (km kernel_pa) 0x45000 0x1000"
    using so kernel_pa_inv(1) none by (simp add: fork_src_def kernel_small_def m)
  then show ?thesis by (simp add: fork_ok_def kernel_pa_def kernel_ex_def proc_ex_def)
qed

theorem fork_all_or_nothing_witness:
  "\<exists>r k'. sys_fork kernel_pa = Some (r, k') \<and> (r = - 1 \<longrightarrow> pages (km k') ! 1 = 1)"
  using fork_all_or_nothing [OF kernel_pa_fork]
  by (auto simp: fork_failed_def kernel_pa_def kmem1_def split: option.splits)

end
