(* ===== verification/KernelInv.thy ===== *)
theory KernelInv
  imports KernelFork
begin

text \<open>
  The invariant of the kernel between system calls: every live process has an address space of its
  own, tables and pages of processes do not overlap, and the reference count of every page the
  kernel hands out is the number of references the live processes hold. The lemmas show that every
  system call, and every write a process makes to its own memory, keeps the invariant.
\<close>

section \<open>Pages of processes\<close>

definition pool_page :: "kmem \<Rightarrow> u64 \<Rightarrow> bool" where
  "pool_page s p \<longleftrightarrow> page_aligned p \<and> allocatable_physical_address (kernel_end s) p"

abbreviation space :: "kernel \<Rightarrow> nat \<Rightarrow> u64" where
  "space k i \<equiv> p_pagetable (ptable k ! i)"

definition live :: "kernel \<Rightarrow> nat \<Rightarrow> bool" where
  "live k i \<longleftrightarrow> i < NPROC \<and> p_state (ptable k ! i) \<noteq> P_FREE"

abbreviation umap :: "mem \<Rightarrow> u64 \<Rightarrow> u64 list" where
  "umap m pt \<equiv> mapped_pages m pt user_pages"

text \<open>The references to page \<open>n\<close> that an address space holds.\<close>

definition holds :: "mem \<Rightarrow> u64 \<Rightarrow> nat \<Rightarrow> nat" where
  "holds m pt n = refs (umap m pt) n + (if page_at n \<in> tables m pt then 1 else 0)"

definition space_ok :: "kmem \<Rightarrow> u64 \<Rightarrow> u64 \<Rightarrow> bool" where
  "space_ok s K pt \<longleftrightarrow> pt_tree (phys s) pt \<and> no_junk (phys s) pt
     \<and> (\<forall>v. va_is_canonical v \<longrightarrow> small_at (phys s) pt v)
     \<and> (\<forall>p\<in>tables (phys s) pt \<union> set (umap (phys s) pt). pool_page s p)
     \<and> (\<forall>n. refs (umap (phys s) pt) n \<le> 1)
     \<and> (\<forall>v. page_aligned v \<longrightarrow> v < PROC_START_ADDR \<longrightarrow> mapping (phys s) pt v = mapping (phys s) K v)
     \<and> (\<forall>v\<ge>MEMSIZE_VIRTUAL. mapping (phys s) pt v = None)
     \<and> (\<forall>v pa. page_aligned v \<longrightarrow> PROC_START_ADDR \<le> v \<longrightarrow> mapping (phys s) pt v = Some (pa, 7) \<longrightarrow> pages s ! page_no pa = 1)"

lemma space_okD:
  assumes "space_ok s K pt"
  shows "pt_tree (phys s) pt" "no_junk (phys s) pt" "\<And>v. va_is_canonical v \<Longrightarrow> small_at (phys s) pt v"
    and "\<And>p. p \<in> tables (phys s) pt \<Longrightarrow> pool_page s p" "\<And>p. p \<in> set (umap (phys s) pt) \<Longrightarrow> pool_page s p"
    and "\<And>n. refs (umap (phys s) pt) n \<le> 1"
    and "\<And>v. page_aligned v \<Longrightarrow> v < PROC_START_ADDR \<Longrightarrow> mapping (phys s) pt v = mapping (phys s) K v"
    and "\<And>v. MEMSIZE_VIRTUAL \<le> v \<Longrightarrow> mapping (phys s) pt v = None"
    and "\<And>v pa. page_aligned v \<Longrightarrow> PROC_START_ADDR \<le> v \<Longrightarrow> mapping (phys s) pt v = Some (pa, 7) \<Longrightarrow> pages s ! page_no pa = 1"
  using assms unfolding space_ok_def by blast+

text \<open>The kernel's own page table lies in kernel memory, and users can only write the console through it.\<close>

definition kernel_space_ok :: "kmem \<Rightarrow> u64 \<Rightarrow> bool" where
  "kernel_space_ok s K \<longleftrightarrow> page_aligned K \<and> no_junk (phys s) K \<and> (\<forall>t\<in>tables (phys s) K. \<not> pool_page s t) \<and> kernel_small s K
     \<and> (\<forall>v pa. page_aligned v \<longrightarrow> v < PROC_START_ADDR \<longrightarrow> mapping (phys s) K v = Some (pa, 7) \<longrightarrow>
          page_aligned pa \<and> \<not> pool_page s pa \<and> pa \<notin> tables (phys s) K)"

definition has_page :: "kernel \<Rightarrow> nat \<Rightarrow> u64 \<Rightarrow> bool" where
  "has_page k i p \<longleftrightarrow> p \<in> tables (kphys k) (space k i) \<or> p \<in> set (umap (kphys k) (space k i))"

text \<open>
  The reference count of a page: one for each live process that holds it, and one if it is the
  memory viewer's page of flags.
\<close>

definition expected :: "kernel \<Rightarrow> nat \<Rightarrow> nat" where
  "expected k n = (\<Sum>i | live k i. holds (kphys k) (space k i) n) + (if page_at n = mu_v k then 1 else 0)"

definition kinv :: "kernel \<Rightarrow> bool" where
  "kinv k \<longleftrightarrow> pages_ok (km k) \<and> length (ptable k) = NPROC \<and> \<not> live k 0 \<and> (\<forall>i<NPROC. p_pid (ptable k ! i) = int i)
     \<and> kernel_space_ok (km k) (kernel_pagetable k)
     \<and> (\<forall>i. live k i \<longrightarrow> space_ok (km k) (kernel_pagetable k) (space k i))
     \<and> (\<forall>i j p. live k i \<longrightarrow> live k j \<longrightarrow> p \<in> tables (kphys k) (space k i) \<longrightarrow>
          p \<notin> set (umap (kphys k) (space k j)) \<and> (p \<in> tables (kphys k) (space k j) \<longrightarrow> i = j))
     \<and> (\<forall>n<512. pool_page (km k) (page_at n) \<longrightarrow> unat (pages (km k) ! n) = expected k n)
     \<and> (mu_v k \<noteq> 0 \<longrightarrow> pool_page (km k) (mu_v k)) \<and> (\<forall>i. live k i \<longrightarrow> \<not> has_page k i (mu_v k))"

lemma finite_live [simp]: "finite {i. live k i}"
  by (rule finite_subset [of _ "{..<NPROC}"]) (auto simp: live_def)

lemma card_live: "card {i. live k i} \<le> 16"
proof -
  have "card {i. live k i} \<le> card {..<NPROC}" by (rule card_mono) (auto simp: live_def)
  then show ?thesis by simp
qed

lemma kpage_ram: "pool_page s p \<Longrightarrow> ram_page p"
  by (auto simp: pool_page_def ram_page_def allocatable_physical_address_def reserved_physical_address_def)

lemma kpage_at: "pool_page s p \<Longrightarrow> page_at (page_no p) = p \<and> page_no p < 512"
  using page_at_no [of p] kpage_ram [of s p] by (simp add: ram_page_def)

lemma free_kpage: "free_page s p \<longleftrightarrow> pool_page s p \<and> \<not> used (pages s ! page_no p)"
  by (auto simp: free_page_def pool_page_def)

lemma refs_pos: "0 < refs ps n \<longleftrightarrow> (\<exists>p\<in>set ps. page_no p = n)"
  by (induction ps) auto

lemma mem_mapped_pages: "p \<in> set (mapped_pages m pt vs) \<longleftrightarrow> (\<exists>v\<in>set vs. \<exists>q. mapping m pt v = Some (p, q))"
  by (induction vs) (auto split: option.split)

lemma page_range_iff:
  assumes "page_aligned va" "unat va + 4096 * n < 2 ^ 64"
  shows "v \<in> set (page_range va n) \<longleftrightarrow> page_aligned v \<and> va \<le> v \<and> unat v < unat va + 4096 * n"
proof
  show "v \<in> set (page_range va n) \<Longrightarrow> page_aligned v \<and> va \<le> v \<and> unat v < unat va + 4096 * n"
    using assms
  proof (induction n arbitrary: va)
    case (Suc n)
    have u: "unat (va + PAGESIZE) = unat va + 4096" by (subst PAGESIZE_def, subst unat_add_lt) (use Suc.prems in simp_all)
    have "page_aligned (va + PAGESIZE)" using page_aligned_add [OF Suc.prems(2)] by simp
    then show ?case using Suc u by (force simp: word_le_nat_alt)
  qed simp
qed (use page_range_mem assms in blast)

lemma user_pages_iff: "v \<in> set user_pages \<longleftrightarrow> page_aligned v \<and> PROC_START_ADDR \<le> v \<and> v \<le> MEMSIZE_VIRTUAL"
proof -
  have "unat v < unat PROC_START_ADDR + 4096 * 513 \<longleftrightarrow> v \<le> MEMSIZE_VIRTUAL" if "page_aligned v"
    using that by (auto simp: page_aligned_dvd word_le_nat_alt elim!: dvdE)
  then show ?thesis by (subst page_range_iff) (auto simp: page_aligned_def)
qed

lemma user_pageI: "page_aligned v \<Longrightarrow> PROC_START_ADDR \<le> v \<Longrightarrow> v < MEMSIZE_VIRTUAL \<Longrightarrow> v \<in> set user_pages"
  using user_pages_iff [of v] less_imp_le [of v MEMSIZE_VIRTUAL] by blast

section \<open>What the invariant gives\<close>

lemma kinvD:
  assumes "kinv k"
  shows "pages_ok (km k)" "length (ptable k) = 16" "kernel_space_ok (km k) (kernel_pagetable k)"
    and "\<And>i. i < 16 \<Longrightarrow> p_pid (ptable k ! i) = int i"
    and "\<And>i. live k i \<Longrightarrow> space_ok (km k) (kernel_pagetable k) (space k i)"
    and "\<And>i j p. live k i \<Longrightarrow> live k j \<Longrightarrow> p \<in> tables (kphys k) (space k i) \<Longrightarrow> p \<notin> set (umap (kphys k) (space k j))"
    and "\<And>i j p. live k i \<Longrightarrow> live k j \<Longrightarrow> p \<in> tables (kphys k) (space k i) \<Longrightarrow> p \<in> tables (kphys k) (space k j) \<Longrightarrow> i = j"
    and "\<And>n. n < 512 \<Longrightarrow> pool_page (km k) (page_at n) \<Longrightarrow> unat (pages (km k) ! n) = expected k n"
    and "mu_v k \<noteq> 0 \<Longrightarrow> pool_page (km k) (mu_v k)" and "\<And>i. live k i \<Longrightarrow> \<not> has_page k i (mu_v k)"
  using assms unfolding kinv_def by (simp, simp, simp, simp, simp, blast, blast, simp, simp, blast)

lemma live_pos: "kinv k \<Longrightarrow> live k i \<Longrightarrow> 0 < i"
  unfolding kinv_def by (metis neq0_conv)

lemma has_page_kpage: "kinv k \<Longrightarrow> live k i \<Longrightarrow> has_page k i p \<Longrightarrow> pool_page (km k) p"
  using kinvD(5) [of k i] by (auto simp: has_page_def space_ok_def)

lemma holds_pos: "has_page k i p \<Longrightarrow> pool_page (km k) p \<Longrightarrow> 0 < holds (kphys k) (space k i) (page_no p)"
  using kpage_at [of "km k" p] refs_pos [of "umap (kphys k) (space k i)" "page_no p"] by (auto simp: has_page_def holds_def)

lemma holds_le:
  assumes "kinv k" "live k i" "n < 512"
  shows "holds (kphys k) (space k i) n \<le> 1"
proof (cases "page_at n \<in> tables (kphys k) (space k i)")
  case True
  have "refs (umap (kphys k) (space k i)) n = 0"
  proof (rule ccontr)
    assume "refs (umap (kphys k) (space k i)) n \<noteq> 0"
    then obtain p where p: "p \<in> set (umap (kphys k) (space k i))" "page_no p = n" using refs_pos by (metis neq0_conv)
    then have "pool_page (km k) p" using has_page_kpage [OF assms(1,2)] by (simp add: has_page_def)
    then have "page_at n = p" using kpage_at p(2) by blast
    then show False using kinvD(6) [OF assms(1,2,2) True] p(1) by simp
  qed
  then show ?thesis by (simp add: holds_def)
next
  case False
  then show ?thesis using kinvD(5) [OF assms(1,2)] by (simp add: holds_def space_ok_def)
qed

lemma holds_sum: "live k i \<Longrightarrow> holds (kphys k) (space k i) n \<le> expected k n"
  unfolding expected_def by (rule trans_le_add1, rule member_le_sum) simp_all

lemma has_page_used:
  assumes "kinv k" "live k i" "has_page k i p"
  shows "used (pages (km k) ! page_no p)"
proof -
  note kp = has_page_kpage [OF assms]
  have n: "page_no p < 512" "pool_page (km k) (page_at (page_no p))" using kpage_at [OF kp] kp by simp_all
  have "0 < unat (pages (km k) ! page_no p)"
    using kinvD(8) [OF assms(1) n] holds_pos [OF assms(3) kp] holds_sum [OF assms(2), of "page_no p"] by linarith
  then show ?thesis by (auto simp: used_def)
qed

lemma mu_used:
  assumes "kinv k" "mu_v k \<noteq> 0"
  shows "used (pages (km k) ! page_no (mu_v k))"
proof -
  note kp = kinvD(9) [OF assms]
  have "0 < unat (pages (km k) ! page_no (mu_v k))"
    using kinvD(8) [OF assms(1), of "page_no (mu_v k)"] kpage_at [OF kp] kp by (simp add: expected_def)
  then show ?thesis by (auto simp: used_def)
qed

lemma count_le:
  assumes "kinv k" "n < 512" "pool_page (km k) (page_at n)"
  shows "unat (pages (km k) ! n) \<le> 17"
proof -
  have "(\<Sum>i | live k i. holds (kphys k) (space k i) n) \<le> (\<Sum>i | live k i. 1)"
    by (rule sum_mono) (use holds_le assms in auto)
  then show ?thesis using kinvD(8) [OF assms] card_live [of k] by (simp add: expected_def)
qed

lemma kinv_fork_ok:
  assumes inv: "kinv k" and cur: "live k (current k)"
  shows "fork_ok k"
proof -
  let ?s = "km k" and ?P = "space k (current k)" and ?K = "kernel_pagetable k"
  note D = kinvD [OF inv] and sp = kinvD(5) [OF inv cur]
  have ks: "kernel_space_ok ?s ?K" by (rule D(3))
  have sK: "src_ok ?s ?K" using ks by (auto simp: src_ok_def kernel_space_ok_def owned_def free_kpage)
  have "\<not> free_page ?s t" if "t \<in> tables (phys ?s) ?P" for t
    using has_page_used [OF inv cur] that by (simp add: has_page_def free_kpage)
  then have sP: "src_ok ?s ?P"
    using sp pt_tree_aligned by (auto simp: src_ok_def space_ok_def owned_def)
  have "user_src ?s ?P"
    unfolding user_src_def
  proof (intro conjI allI impI)
    fix v pa p assume v: "page_aligned v" "PROC_START_ADDR \<le> v" "v < MEMSIZE_VIRTUAL" "mapping (phys ?s) ?P v = Some (pa, p)"
    have "v \<in> set user_pages" by (rule user_pageI [OF v(1-3)])
    then have "pa \<in> set (umap (phys ?s) ?P)" using v(4) mem_mapped_pages by blast
    then have "has_page k (current k) pa" by (simp add: has_page_def)
    then show "ram_page pa" "used (pages ?s ! page_no pa)"
      using has_page_used [OF inv cur] has_page_kpage [OF inv cur] kpage_ram by blast+
  next
    fix n :: nat assume n: "n < 512"
    show "unat (pages ?s ! n) + refs (umap (phys ?s) ?P) n < 256"
    proof (cases "pool_page ?s (page_at n)")
      case True
      have "refs (umap (phys ?s) ?P) n \<le> 1" using sp by (simp add: space_ok_def)
      then show ?thesis using count_le [OF inv n True] by linarith
    next
      case False
      have "refs (umap (phys ?s) ?P) n = 0"
      proof (rule ccontr)
        assume "refs (umap (phys ?s) ?P) n \<noteq> 0"
        then obtain p where p: "p \<in> set (umap (phys ?s) ?P)" "page_no p = n" using refs_pos by (metis neq0_conv)
        then have "pool_page ?s p" using has_page_kpage [OF inv cur] by (simp add: has_page_def)
        then show False using kpage_at [of ?s p] p(2) False by simp
      qed
      moreover have "unat (pages ?s ! n) < 2 ^ 8" using unsigned_less [of "pages ?s ! n", where 'a = nat] by simp
      ultimately show ?thesis by simp
    qed
  qed
  moreover have "kernel_small ?s ?K" using ks by (simp add: kernel_space_ok_def)
  ultimately show ?thesis
    using sK sP D(1,2) cur by (simp add: fork_ok_def fork_src_def live_def)
qed

section \<open>Framing\<close>

lemma space_aligned: "space_ok s K pt \<Longrightarrow> page_aligned pt"
  unfolding space_ok_def by (blast dest: pt_tree_aligned)

lemma space_frame:
  assumes sp: "space_ok s K pt" and ke: "kernel_end s' = kernel_end s"
    and kt: "keeps_tables (phys s) (phys s') pt" and kK: "keeps_tables (phys s) (phys s') K" and K: "page_aligned K"
    and priv: "\<And>v pa. page_aligned v \<Longrightarrow> PROC_START_ADDR \<le> v \<Longrightarrow> mapping (phys s) pt v = Some (pa, 7) \<Longrightarrow> pages s' ! page_no pa = 1"
  shows "space_ok s' K pt" "tables (phys s') pt = tables (phys s) pt" "umap (phys s') pt = umap (phys s) pt"
    and "mapping (phys s') pt v = mapping (phys s) pt v" "holds (phys s') pt n = holds (phys s) pt n"
proof -
  note al = space_aligned [OF sp]
  have mp: "mapping (phys s') pt v = mapping (phys s) pt v" for v by (rule mapping_frame [OF al kt])
  have mK: "mapping (phys s') K v = mapping (phys s) K v" for v by (rule mapping_frame [OF K kK])
  have tb: "tables (phys s') pt = tables (phys s) pt" by (rule tables_frame [OF al kt])
  have um: "umap (phys s') pt = umap (phys s) pt" by (rule mapped_pages_frame [OF al kt])
  have kp: "pool_page s' p = pool_page s p" for p by (simp add: pool_page_def ke)
  show "space_ok s' K pt"
    using sp pt_tree_frame [OF _ kt] no_junk_frame [OF al kt] small_at_frame [OF al kt] priv
    unfolding space_ok_def tb um mp mK kp by blast
  show "tables (phys s') pt = tables (phys s) pt" "umap (phys s') pt = umap (phys s) pt"
    "mapping (phys s') pt v = mapping (phys s) pt v" "holds (phys s') pt n = holds (phys s) pt n"
    using tb um mp by (simp_all add: holds_def)
qed

lemma kernel_space_frame:
  assumes "kernel_space_ok s K" "kernel_end s' = kernel_end s" "keeps_tables (phys s) (phys s') K"
  shows "kernel_space_ok s' K"
proof -
  have al: "page_aligned K" using assms(1) by (simp add: kernel_space_ok_def)
  have kp: "pool_page s' p = pool_page s p" for p by (simp add: pool_page_def assms(2))
  show ?thesis
    using assms(1) no_junk_frame [OF al assms(3)] mapping_frame [OF al assms(3)] tables_frame [OF al assms(3)]
    unfolding kernel_space_ok_def kernel_small_def kp by simp
qed

text \<open>Operations that write only free pages keep all address spaces.\<close>

lemma kinv_src:
  assumes "kinv k" "live k i"
  shows "src_ok (km k) (space k i)"
proof -
  have "\<not> free_page (km k) t" if "t \<in> tables (kphys k) (space k i)" for t
    using has_page_used [OF assms] that by (simp add: has_page_def free_kpage)
  then show ?thesis
    using space_okD(2) [OF kinvD(5) [OF assms]] space_aligned [OF kinvD(5) [OF assms]] by (simp add: src_ok_def owned_def)
qed

lemma kinv_kernel_src: "kinv k \<Longrightarrow> src_ok (km k) (kernel_pagetable k)"
  using kinvD(3) [of k] by (auto simp: src_ok_def kernel_space_ok_def owned_def free_kpage)

lemma space_priv: "space_ok s K pt \<Longrightarrow> page_aligned v \<Longrightarrow> PROC_START_ADDR \<le> v \<Longrightarrow> mapping (phys s) pt v = Some (pa, 7) \<Longrightarrow>
    pages s ! page_no pa = 1 \<and> pa \<in> set (umap (phys s) pt)"
proof -
  assume a: "space_ok s K pt" "page_aligned v" "PROC_START_ADDR \<le> v" "mapping (phys s) pt v = Some (pa, 7)"
  have "\<not> MEMSIZE_VIRTUAL \<le> v" using a(4) space_okD(8) [OF a(1), of v] by auto
  then have "v < MEMSIZE_VIRTUAL" by simp
  then have "v \<in> set user_pages" by (rule user_pageI [OF a(2,3)])
  then have "pa \<in> set (umap (phys s) pt)" using a(4) mem_mapped_pages by blast
  moreover have "pages s ! page_no pa = 1" by (rule space_okD(9) [OF a])
  ultimately show ?thesis by blast
qed

lemma unchanged_spaces:
  assumes inv: "kinv k" and un: "unchanged (km k) s" and ke: "kernel_end s = kernel_end (km k)" and li: "live k i"
    and priv: "\<And>v pa. page_aligned v \<Longrightarrow> PROC_START_ADDR \<le> v \<Longrightarrow> mapping (kphys k) (space k i) v = Some (pa, 7) \<Longrightarrow>
      pages s ! page_no pa = 1"
  shows "space_ok s (kernel_pagetable k) (space k i)" "tables (phys s) (space k i) = tables (kphys k) (space k i)"
    and "umap (phys s) (space k i) = umap (kphys k) (space k i)"
    and "mapping (phys s) (space k i) v = mapping (kphys k) (space k i) v"
    and "holds (phys s) (space k i) n = holds (kphys k) (space k i) n"
proof -
  have K: "page_aligned (kernel_pagetable k)" using kinvD(3) [OF inv] by (simp add: kernel_space_ok_def)
  note f = space_frame [OF kinvD(5) [OF inv li] ke src_keep [OF kinv_src [OF inv li] un] src_keep [OF kinv_kernel_src [OF inv] un] K priv]
  show "space_ok s (kernel_pagetable k) (space k i)" by (rule f(1))
  show "tables (phys s) (space k i) = tables (kphys k) (space k i)" by (rule f(2))
  show "umap (phys s) (space k i) = umap (kphys k) (space k i)" by (rule f(3))
  show "mapping (phys s) (space k i) v = mapping (kphys k) (space k i) v" by (rule f(4))
  show "holds (phys s) (space k i) n = holds (kphys k) (space k i) n" by (rule f(5))
qed

lemma unchanged_kernel:
  "kinv k \<Longrightarrow> unchanged (km k) s \<Longrightarrow> kernel_end s = kernel_end (km k) \<Longrightarrow> kernel_space_ok s (kernel_pagetable k)"
  using kernel_space_frame [OF kinvD(3)] src_keep [OF kinv_kernel_src] by blast

text \<open>A failed fork, and every operation that only changes free pages and dead slots.\<close>

lemma kinv_same:
  assumes inv: "kinv k" and un: "unchanged (km k) (km k')" and ke: "kernel_end (km k') = kernel_end (km k)" and ok: "pages_ok (km k')"
    and cnt: "\<forall>i<512. pages (km k') ! i = pages (km k) ! i" and K: "kernel_pagetable k' = kernel_pagetable k"
    and len: "length (ptable k') = 16" and pid: "\<forall>i<16. p_pid (ptable k' ! i) = p_pid (ptable k ! i)"
    and mu: "mu_v k' = mu_v k" and st: "\<forall>i. live k' i = live k i" and sp: "\<forall>i. live k i \<longrightarrow> space k' i = space k i"
  shows "kinv k'"
proof -
  have priv: "pages (km k') ! page_no pa = 1"
    if "live k i" "page_aligned v" "PROC_START_ADDR \<le> v" "mapping (kphys k) (space k i) v = Some (pa, 7)" for i v pa
  proof -
    have "pages (km k) ! page_no pa = 1" "has_page k i pa"
      using space_priv [OF kinvD(5) [OF inv that(1)] that(2-4)] by (simp_all add: has_page_def)
    then show ?thesis using cnt kpage_at [OF has_page_kpage [OF inv that(1)]] by auto
  qed
  note f = unchanged_spaces [OF inv un ke _ priv]
  have kp: "pool_page (km k') p = pool_page (km k) p" for p by (simp add: pool_page_def ke)
  have "(\<Sum>i | live k' i. holds (kphys k') (space k' i) n) = (\<Sum>i | live k i. holds (kphys k) (space k i) n)" for n
    by (rule sum.cong) (use st sp f(5) in auto)
  then have sum: "expected k' n = expected k n" for n by (simp add: expected_def mu)
  show ?thesis
    unfolding kinv_def
  proof (intro conjI allI impI)
    show "kernel_space_ok (km k') (kernel_pagetable k')" using unchanged_kernel [OF inv un ke] K by simp
    show "p_pid (ptable k' ! i) = int i" if "i < NPROC" for i using kinvD(4) [OF inv] pid that by simp
    show "space_ok (km k') (kernel_pagetable k') (space k' i)" if "live k' i" for i using f(1) st sp K that by simp
    show "p \<notin> set (umap (kphys k') (space k' j))" "p \<in> tables (kphys k') (space k' j) \<Longrightarrow> i = j"
      if "live k' i" "live k' j" "p \<in> tables (kphys k') (space k' i)" for i j p
      using kinvD(6,7) [OF inv, of i j p] f(2,3) st sp that by simp_all
    show "unat (pages (km k') ! n) = expected k' n" if "n < 512" "pool_page (km k') (page_at n)" for n
      using kinvD(8) [OF inv that(1)] that kp sum cnt by simp
    show "pool_page (km k') (mu_v k')" if "mu_v k' \<noteq> 0" using kinvD(9) [OF inv] that kp mu by simp
    show "\<not> has_page k' i (mu_v k')" if "live k' i" for i
      using kinvD(10) [OF inv, of i] f(2,3) [of i] st sp mu that by (simp add: has_page_def)
  qed (use ok len st live_pos [OF inv] in auto)
qed

section \<open>\<open>fork\<close>\<close>

lemma mapped_below: "(\<And>v. hi \<le> v \<Longrightarrow> mapping m pt v = None) \<Longrightarrow> mapping m pt v = Some x \<Longrightarrow> v < (hi :: u64)"
  by (rule ccontr) (simp add: not_less)

lemma refs_two:
  "v \<in> set vs \<Longrightarrow> w \<in> set vs \<Longrightarrow> v \<noteq> w \<Longrightarrow> mapping m pt v = Some (p, a) \<Longrightarrow> mapping m pt w = Some (p, b) \<Longrightarrow>
   2 \<le> refs (mapped_pages m pt vs) (page_no p)"
proof (induction vs)
  case (Cons u vs)
  have one: "x \<in> set vs \<Longrightarrow> mapping m pt x = Some (p, c) \<Longrightarrow> 0 < refs (mapped_pages m pt vs) (page_no p)" for x c
    using refs_pos mem_mapped_pages by blast
  show ?case
  proof (cases "v = u \<or> w = u")
    case True
    then have "0 < refs (mapped_pages m pt vs) (page_no p)" "\<exists>c. mapping m pt u = Some (p, c)" using Cons.prems one by auto
    then show ?thesis by auto
  next
    case False
    then have "2 \<le> refs (mapped_pages m pt vs) (page_no p)" using Cons by simp
    then show ?thesis by (auto split: option.split)
  qed
qed simp

lemma holds_two:
  assumes "live k i" "live k j" "i \<noteq> j"
  shows "holds (kphys k) (space k i) n + holds (kphys k) (space k j) n \<le> expected k n"
proof -
  have "(\<Sum>i\<in>{i, j}. holds (kphys k) (space k i) n) \<le> (\<Sum>i | live k i. holds (kphys k) (space k i) n)"
    by (rule sum_mono2) (use assms in auto)
  then show ?thesis using assms(3) by (simp add: expected_def)
qed

text \<open>A page with one reference belongs to one process.\<close>

lemma private_page:
  assumes inv: "kinv k" and i: "live k i" "has_page k i p" and j: "live k j" "has_page k j p" and one: "pages (km k) ! page_no p = 1"
  shows "i = j"
proof (rule ccontr)
  assume ne: "i \<noteq> j"
  note kp = has_page_kpage [OF inv i]
  have n: "page_no p < 512" "pool_page (km k) (page_at (page_no p))" using kpage_at [OF kp] kp by simp_all
  have "2 \<le> unat (pages (km k) ! page_no p)"
    using holds_two [OF i(1) j(1) ne, of "page_no p"] holds_pos [OF i(2) kp] holds_pos [OF j(2) kp] kinvD(8) [OF inv n] by linarith
  then show False using one by simp
qed

lemma forked_pages:
  assumes fk: "forked s0 K P C s" and p: "p \<in> set (umap (phys s) C)"
  shows "free_page s0 p \<and> p \<notin> tables (phys s) C
    \<or> (\<exists>v perm. v \<in> set user_pages \<and> mapping (phys s0) P v = Some (p, perm) \<and> perm \<noteq> 7)"
proof -
  obtain v q where v: "v \<in> set user_pages" "mapping (phys s) C v = Some (p, q)" using p mem_mapped_pages by blast
  have va: "page_aligned v" "PROC_START_ADDR \<le> v" using v(1) user_pages_iff by blast+
  have hi: "\<And>v. MEMSIZE_VIRTUAL \<le> v \<Longrightarrow> mapping (phys s) C v = None"
    and pcs: "\<forall>v. page_aligned v \<longrightarrow> PROC_START_ADDR \<le> v \<longrightarrow> v < MEMSIZE_VIRTUAL \<longrightarrow> page_copied s0 s P C v"
    using fk unfolding forked_def by blast+
  have "v < MEMSIZE_VIRTUAL" by (rule mapped_below [OF hi v(2)])
  then have pc: "page_copied s0 s P C v" using pcs va by blast
  show ?thesis
  proof (cases "mapping (phys s0) P v")
    case None
    then show ?thesis using pc v(2) by (simp add: page_copied_def)
  next
    case (Some x)
    then obtain pa perm where x: "mapping (phys s0) P v = Some (pa, perm)" by (cases x) auto
    show ?thesis
    proof (cases "perm = 7")
      case True
      then show ?thesis using pc v(2) x by (auto simp: page_copied_def)
    next
      case False
      then have "pa = p" using pc v(2) x by (simp add: page_copied_def)
      then show ?thesis using v(1) x False by blast
    qed
  qed
qed

lemma kinv_forked:
  assumes inv: "kinv k" and cur: "live k (current k)" and pid: "pid < 16" "\<not> live k pid" "0 < pid"
    and un: "unchanged (km k) s" and fk: "forked (km k) (kernel_pagetable k) (space k (current k)) C s"
  defines "k' \<equiv> k\<lparr>km := s, ptable := (ptable k)[pid := child_proc k pid C]\<rparr>"
  shows "kinv k'"
proof -
  let ?s0 = "km k" and ?K = "kernel_pagetable k" and ?c = "current k" and ?P = "space k (current k)"
  note D = kinvD [OF inv]
  have len: "length (ptable k) = 16" by (rule D(2))
  have ke: "kernel_end s = kernel_end ?s0" and ok: "pages_ok s" and pinv: "pt_inv free_page s C"
    and lo: "\<And>v. page_aligned v \<Longrightarrow> v < PROC_START_ADDR \<Longrightarrow> mapping (phys s) C v = mapping (phys ?s0) ?K v"
    and hi: "\<And>v. MEMSIZE_VIRTUAL \<le> v \<Longrightarrow> mapping (phys s) C v = None"
    and pc: "\<And>v. page_aligned v \<Longrightarrow> PROC_START_ADDR \<le> v \<Longrightarrow> v < MEMSIZE_VIRTUAL \<Longrightarrow> page_copied ?s0 s ?P C v"
    and sm: "\<And>v. va_is_canonical v \<Longrightarrow> small_at (phys s) C v" and tf: "\<And>t. t \<in> tables (phys s) C \<Longrightarrow> free_page ?s0 t"
    and rf: "\<And>n. refs (umap (phys s) C) n \<le> (if pages ?s0 ! n = 0 then 1 else refs (umap (phys ?s0) ?P) n)"
    and cnt: "counted ?s0 C (umap (phys s) C) s"
    using fk unfolding forked_def by blast+
  note Psp = D(5) [OF cur] and up = forked_pages [OF fk]
  have kp: "pool_page s p = pool_page ?s0 p" for p by (simp add: pool_page_def ke)
  have shared: "has_page k ?c p" if "v \<in> set user_pages" "mapping (phys ?s0) ?P v = Some (p, q)" for v p q
    using that mem_mapped_pages [of p "phys ?s0" ?P user_pages] by (auto simp: has_page_def)
  have used_not_free: "\<not> free_page ?s0 p" if "live k i" "has_page k i p" for i p
    using has_page_used [OF inv that] by (simp add: free_kpage)
  have Hk: "pool_page ?s0 p" if "p \<in> set (umap (phys s) C)" for p
    using up [OF that] shared has_page_kpage [OF inv cur] free_kpage by blast
  have priv: "pages s ! page_no pa = 1"
    if i: "live k i" and v: "page_aligned v" "PROC_START_ADDR \<le> v" "mapping (phys ?s0) (space k i) v = Some (pa, 7)" for i v pa
  proof -
    have one: "pages ?s0 ! page_no pa = 1" and hp: "has_page k i pa"
      using space_priv [OF D(5) [OF i] v] by (simp_all add: has_page_def)
    note at = kpage_at [OF has_page_kpage [OF inv i hp]]
    have nt: "pa \<notin> tables (phys s) C" using tf used_not_free [OF i hp] by blast
    have "refs (umap (phys s) C) (page_no pa) = 0"
    proof (rule ccontr)
      assume "refs (umap (phys s) C) (page_no pa) \<noteq> 0"
      then obtain p where p: "p \<in> set (umap (phys s) C)" "page_no p = page_no pa" using refs_pos by (metis neq0_conv)
      have "page_at (page_no p) = p" using kpage_at [OF Hk [OF p(1)]] by blast
      then have pp: "p = pa" using conjunct1 [OF at] unfolding p(2) by (rule subst)
      then obtain w perm where w: "w \<in> set user_pages" "mapping (phys ?s0) ?P w = Some (pa, perm)" "perm \<noteq> 7"
        using up [OF p(1)] used_not_free [OF i hp] by blast
      have "i = ?c" by (rule private_page [OF inv i hp cur shared [OF w(1,2)] one])
      then have vP: "mapping (phys ?s0) ?P v = Some (pa, 7)" using v(3) by simp
      have "v < MEMSIZE_VIRTUAL" by (rule mapped_below [OF space_okD(8) [OF Psp] vP])
      then have "v \<in> set user_pages" by (rule user_pageI [OF v(1,2)])
      moreover have "v \<noteq> w" using vP w(2,3) by auto
      ultimately have "2 \<le> refs (umap (phys ?s0) ?P) (page_no pa)" using refs_two w(1,2) vP by blast
      then show False using space_okD(6) [OF Psp, of "page_no pa"] by linarith
    qed
    then show ?thesis using cnt at nt one by (simp add: counted_def)
  qed
  have f: "space_ok s ?K (space k i)" "tables (phys s) (space k i) = tables (kphys k) (space k i)"
    "umap (phys s) (space k i) = umap (kphys k) (space k i)" "mapping (phys s) (space k i) v = mapping (kphys k) (space k i) v"
    "holds (phys s) (space k i) n = holds (kphys k) (space k i) n" if i: "live k i" for i v n
  proof -
    note g = unchanged_spaces [OF inv un ke i priv [OF i]]
    show "space_ok s ?K (space k i)" by (rule g(1))
    show "tables (phys s) (space k i) = tables (kphys k) (space k i)" by (rule g(2))
    show "umap (phys s) (space k i) = umap (kphys k) (space k i)" by (rule g(3))
    show "mapping (phys s) (space k i) v = mapping (kphys k) (space k i) v" by (rule g(4))
    show "holds (phys s) (space k i) n = holds (kphys k) (space k i) n" by (rule g(5))
  qed
  have Csp: "space_ok s ?K C"
    unfolding space_ok_def
  proof (intro conjI allI impI ballI)
    show "pt_tree (phys s) C" "no_junk (phys s) C" using pinv by (simp_all add: pt_inv_def)
    show "pool_page s p" if "p \<in> tables (phys s) C \<union> set (umap (phys s) C)" for p
      using that Hk tf free_kpage unfolding kp by blast
    show "refs (umap (phys s) C) n \<le> 1" for n
      using rf [of n] space_okD(6) [OF Psp, of n] by (auto split: if_splits)
    show "mapping (phys s) C v = mapping (phys s) ?K v" if "page_aligned v" "v < PROC_START_ADDR" for v
      using lo [OF that] src_mapping [OF kinv_kernel_src [OF inv] un] by simp
    show "pages s ! page_no pa = 1" if v: "page_aligned v" "PROC_START_ADDR \<le> v" "mapping (phys s) C v = Some (pa, 7)" for v pa
    proof -
      have "v < MEMSIZE_VIRTUAL" by (rule mapped_below [OF hi v(3)])
      then show ?thesis using pc [OF v(1,2)] v(3) by (auto simp: page_copied_def split: option.splits if_splits)
    qed
  qed (use sm hi in blast)+
  have lv: "live k' i \<longleftrightarrow> live k i \<or> i = pid" for i
    using pid len by (auto simp: live_def k'_def child_proc_def nth_list_update)
  have spc: "space k' i = (if i = pid then C else space k i)" if "live k' i" for i
    using that pid len by (auto simp: k'_def child_proc_def)
  have old: "i \<noteq> pid" if "live k i" for i using that pid(2) by auto
  have tabC: "p \<notin> tables (phys s) C" if "live k i" "has_page k i p" for i p
    using used_not_free [OF that] tf by blast
  have mu: "mu_v k' = mu_v k" by (simp add: k'_def)
  have sumk: "expected k' n = expected k n + holds (phys s) C n" for n
  proof -
    have "{i. live k' i} = insert pid {i. live k i}" using lv by auto
    moreover have "(\<Sum>i | live k i. holds (phys s) (space k' i) n) = (\<Sum>i | live k i. holds (kphys k) (space k i) n)"
      by (rule sum.cong) (use spc lv old f(5) in auto)
    ultimately have "(\<Sum>i | live k' i. holds (phys s) (space k' i) n) = (\<Sum>i | live k i. holds (kphys k) (space k i) n) + holds (phys s) C n"
      using pid(2) spc [of pid] lv by simp
    then show ?thesis by (simp add: expected_def mu) (simp add: k'_def)
  qed
  show ?thesis
    unfolding kinv_def
  proof (intro conjI allI impI)
    show "kernel_space_ok (km k') (kernel_pagetable k')" using unchanged_kernel [OF inv un ke] by (simp add: k'_def)
    show "p_pid (ptable k' ! i) = int i" if "i < NPROC" for i
      using D(4) that pid len by (auto simp: k'_def child_proc_def nth_list_update)
    show "space_ok (km k') (kernel_pagetable k') (space k' i)" if "live k' i" for i
    proof -
      have "space_ok s ?K (if i = pid then C else space k i)"
      proof (cases "i = pid")
        case False
        then have "live k i" using lv that by blast
        then show ?thesis using f(1) False by simp
      qed (use Csp in simp)
      then have "space_ok s ?K (space k' i)" using spc [OF that] by simp
      then show ?thesis by (simp add: k'_def)
    qed
    show "p \<notin> set (umap (kphys k') (space k' j))" if a: "live k' i" "live k' j" "p \<in> tables (kphys k') (space k' i)" for i j p
    proof -
      have s: "kphys k' = phys s" by (simp add: k'_def)
      show ?thesis
      proof (cases "i = pid")
        case True
        then have pC: "p \<in> tables (phys s) C" using a spc s by simp
        show ?thesis
        proof (cases "j = pid")
          case True
          then show ?thesis using up [of p] tabC [OF cur shared] pC spc [OF a(2)] s by auto
        next
          case False
          then have j: "live k j" using a(2) lv by simp
          then show ?thesis using tabC [OF j] pC f(3) [OF j] spc [OF a(2)] s False by (auto simp: has_page_def)
        qed
      next
        case False
        then have i: "live k i" and pt: "p \<in> tables (kphys k) (space k i)" using a lv spc [OF a(1)] f(2) s by auto
        show ?thesis
        proof (cases "j = pid")
          case True
          have "p \<notin> set (umap (phys s) C)"
          proof
            assume "p \<in> set (umap (phys s) C)"
            moreover have "\<not> free_page ?s0 p" using used_not_free [OF i] pt by (simp add: has_page_def)
            ultimately obtain v perm where "v \<in> set user_pages" "mapping (phys ?s0) ?P v = Some (p, perm)" using up by blast
            then have "p \<in> set (umap (kphys k) ?P)" using mem_mapped_pages by blast
            then show False using D(6) [OF i cur pt] by simp
          qed
          then show ?thesis using True spc [OF a(2)] s by simp
        next
          case jn: False
          then have j: "live k j" using a(2) lv by simp
          then show ?thesis using D(6) [OF i j pt] f(3) [OF j] spc [OF a(2)] s jn by simp
        qed
      qed
    qed
    show "i = j" if a: "live k' i" "live k' j" "p \<in> tables (kphys k') (space k' i)" "p \<in> tables (kphys k') (space k' j)" for i j p
    proof (rule ccontr)
      assume ne: "i \<noteq> j"
      have t: "p \<in> tables (kphys k) (space k i)" if "live k' i" "p \<in> tables (kphys k') (space k' i)" "i \<noteq> pid" for i
        using that lv spc [OF that(1)] f(2) by (auto simp: k'_def)
      have tC: "i \<noteq> pid \<or> p \<in> tables (phys s) C" if "live k' i" "p \<in> tables (kphys k') (space k' i)" for i
        using that spc [OF that(1)] by (auto simp: k'_def)
      show False using D(7) [of i j p] t [of i] t [of j] tC [of i] tC [of j] tabC [of i p] tabC [of j p] a lv ne
        by (auto simp: has_page_def)
    qed
    show "pool_page (km k') (mu_v k')" if "mu_v k' \<noteq> 0" using D(9) that kp mu by (simp add: k'_def)
    show "\<not> has_page k' i (mu_v k')" if i: "live k' i" for i
    proof
      assume "has_page k' i (mu_v k')"
      then have h: "mu_v k \<in> tables (phys s) (space k' i) \<or> mu_v k \<in> set (umap (phys s) (space k' i))"
        by (simp add: has_page_def mu) (simp add: k'_def)
      show False
      proof (cases "i = pid")
        case True
        then have h': "mu_v k \<in> tables (phys s) C \<or> mu_v k \<in> set (umap (phys s) C)" using h spc [OF i] by simp
        then have "mu_v k \<noteq> 0" using tf Hk kpage_ram free_kpage unfolding ram_page_def by blast
        then have "used (pages ?s0 ! page_no (mu_v k))" by (rule mu_used [OF inv])
        then have "\<not> free_page ?s0 (mu_v k)" by (simp add: free_page_def)
        then show False using h' tf up [of "mu_v k"] shared D(10) [OF cur] by blast
      next
        case False
        then have "live k i" using i lv by simp
        then show False using h f(2,3) [OF \<open>live k i\<close>] D(10) [OF \<open>live k i\<close>] spc [OF i] False by (simp add: has_page_def)
      qed
    qed
    show "unat (pages (km k') ! n) = expected k' n"
      if n: "n < 512" "pool_page (km k') (page_at n)" for n
    proof -
      have kn: "pool_page ?s0 (page_at n)" using n(2) kp by (simp add: k'_def)
      let ?t = "if page_at n \<in> tables (phys s) C then 1 else 0 :: nat"
      have "pages s ! n = pages ?s0 ! n + of_nat (refs (umap (phys s) C) n + ?t)"
        using cnt n(1) by (simp add: counted_def)
      moreover have "unat (pages ?s0 ! n) \<le> 17" by (rule count_le [OF inv n(1) kn])
      moreover have "refs (umap (phys s) C) n \<le> 1" by (rule space_okD(6) [OF Csp])
      ultimately have "unat (pages s ! n) = unat (pages ?s0 ! n) + holds (phys s) C n"
        by (simp add: unat_word_ariths unat_of_nat holds_def del: of_nat_add)
      then show ?thesis using D(8) [OF n(1) kn] sumk by (simp add: k'_def)
    qed
    show "\<not> live k' 0" using lv live_pos [OF inv] pid(3) by auto
  qed (use ok len in \<open>simp_all add: k'_def\<close>)
qed

lemma kinv_fork:
  assumes inv: "kinv k" and cur: "live k (current k)" and f: "sys_fork k = Some (r, k')"
  shows "kinv k'" "unchanged (km k) (km k')" "\<And>i. live k i \<Longrightarrow> ptable k' ! i = ptable k ! i"
    and "kernel_end (km k') = kernel_end (km k)" "current k' = current k" "kernel_pagetable k' = kernel_pagetable k" "mu_v k' = mu_v k"
proof -
  let ?K = "kernel_pagetable k"
  have len: "length (ptable k) = 16" by (rule kinvD(2) [OF inv])
  have "kinv k' \<and> unchanged (km k) (km k') \<and> (\<forall>i. live k i \<longrightarrow> ptable k' ! i = ptable k ! i)
    \<and> kernel_end (km k') = kernel_end (km k) \<and> current k' = current k \<and> kernel_pagetable k' = ?K \<and> mu_v k' = mu_v k"
  proof (cases "r = - 1")
    case True
    then have ff: "fork_failed k k'" using sys_fork_cases [OF kinv_fork_ok [OF inv cur]] f by auto
    have e: "k' = k\<lparr>km := km k', ptable := ptable k'\<rparr>" using ff unfolding fork_failed_def by blast
    have p: "current k' = current k" "kernel_pagetable k' = ?K" "mu_v k' = mu_v k" by (subst e, simp)+
    have st: "\<forall>i<16. p_state (ptable k' ! i) = p_state (ptable k ! i) \<and> p_pid (ptable k' ! i) = p_pid (ptable k ! i)"
      "\<forall>i<16. p_state (ptable k ! i) \<noteq> P_FREE \<longrightarrow> ptable k' ! i = ptable k ! i"
      and un: "unchanged (km k) (km k')" and ke: "kernel_end (km k') = kernel_end (km k)" and ok: "pages_ok (km k')"
      and cnt: "\<forall>i<512. pages (km k') ! i = pages (km k) ! i" and len': "length (ptable k') = 16"
      using ff unfolding fork_failed_def by simp_all
    have pt: "\<forall>i. live k i \<longrightarrow> ptable k' ! i = ptable k ! i" using st(2) by (simp add: live_def)
    have "kinv k'" by (rule kinv_same [OF inv un ke ok cnt p(2) len' _ p(3)]) (use st pt in \<open>auto simp: live_def\<close>)
    then show ?thesis using un pt ke p by blast
  next
    case False
    then obtain pid C where pid: "pid < NPROC" "p_state (ptable k ! pid) = P_FREE" "0 < pid"
      and k': "k' = k\<lparr>km := km k', ptable := (ptable k)[pid := child_proc k pid C]\<rparr>"
      and fk: "forked (km k) ?K (space k (current k)) C (km k')" and un: "unchanged (km k) (km k')"
      using sys_fork_cases [OF kinv_fork_ok [OF inv cur]] f by auto
    have nl: "\<not> live k pid" using pid(2) by (simp add: live_def)
    have "kinv k'" by (subst k', rule kinv_forked [OF inv cur _ nl pid(3) un fk]) (use pid(1) in simp)
    moreover have "\<forall>i. live k i \<longrightarrow> ptable k' ! i = ptable k ! i"
    proof (intro allI impI)
      fix i assume "live k i"
      then have "pid \<noteq> i" using nl by auto
      then show "ptable k' ! i = ptable k ! i" by (subst k') simp
    qed
    moreover have "current k' = current k" "kernel_pagetable k' = ?K" "mu_v k' = mu_v k" by (subst k', simp)+
    moreover have "kernel_end (km k') = kernel_end (km k)" using fk unfolding forked_def by blast
    ultimately show ?thesis using un by blast
  qed
  then show "kinv k'" "unchanged (km k) (km k')" "\<And>i. live k i \<Longrightarrow> ptable k' ! i = ptable k ! i"
    "kernel_end (km k') = kernel_end (km k)" "current k' = current k" "kernel_pagetable k' = ?K" "mu_v k' = mu_v k" by blast+
qed

section \<open>\<open>exit\<close> and \<open>kill\<close>\<close>

lemma kinv_exit_ok:
  assumes "kinv k" "live k i"
  shows "exit_ok (km k) (space k i)"
proof -
  note sp = space_okD [OF kinvD(5) [OF assms]]
  have "p \<notin> tables (kphys k) (space k i)" if "p \<in> set (umap (kphys k) (space k i))" for p
    using kinvD(6) [OF assms(1,2,2)] that by blast
  then show ?thesis using sp(1,2,4,5) kinvD(1) [OF assms(1)] kpage_ram unfolding exit_ok_def by blast
qed

text \<open>What the other processes keep when process \<open>i\<close> exits.\<close>

lemma exit_frees:
  assumes inv: "kinv k" and li: "live k i"
  shows "\<exists>s. exit_proc (int i) k = Some (freed_slot (int i) k s) \<and> pages_ok s \<and> kernel_end s = kernel_end (km k)
    \<and> (\<forall>n<512. pool_page (km k) (page_at n) \<longrightarrow> unat (pages s ! n) = unat (pages (km k) ! n) - holds (kphys k) (space k i) n)
    \<and> (\<forall>x. (\<forall>p. pool_page (km k) p \<longrightarrow> \<not> in_rng p 4096 x) \<longrightarrow> phys s x = kphys k x)
    \<and> (\<forall>j p x. live k j \<longrightarrow> j \<noteq> i \<longrightarrow> has_page k j p \<longrightarrow> in_rng p 4096 x \<longrightarrow> phys s x = kphys k x)"
proof -
  let ?m = "kphys k" and ?pt = "space k i"
  let ?ps = "umap ?m ?pt @ postorder ?m ?pt @ [?pt]"
  note sp = space_okD [OF kinvD(5) [OF inv li]] and ok = kinvD(1) [OF inv]
  note po = postorder_tables [OF sp(1)]
  have ts: "distinct (postorder ?m ?pt @ [?pt])" "set (postorder ?m ?pt @ [?pt]) = tables ?m ?pt"
    using po root_in_tables [of ?pt ?m] by auto
  have kp: "pool_page (km k) p" if p: "p \<in> set ?ps" for p
  proof -
    have "p \<in> set (umap ?m ?pt) \<or> p \<in> tables ?m ?pt" using p ts(2) by (simp only: set_append Un_iff) blast
    then show ?thesis using sp(4,5) by blast
  qed
  have ram: "\<forall>p\<in>set ?ps. ram_page p" using kp kpage_ram by blast
  obtain s where s: "kfree_all ?ps (km k) = Some s" "released ?ps (km k) s" using kfree_all_released [OF ok ram] by blast
  have pt0: "?pt \<noteq> 0" using kpage_ram [OF sp(4) [OF root_in_tables]] by (simp add: ram_page_def)
  have pid: "pid_ok (int i)" using live_pos [OF inv li] li by (simp add: live_def)
  have rf: "refs ?ps n = holds ?m ?pt n" if n: "n < 512" for n
  proof -
    have "\<forall>t\<in>set (postorder ?m ?pt @ [?pt]). ram_page t" unfolding ts(2) using sp(4) kpage_ram by blast
    then have "refs (postorder ?m ?pt @ [?pt]) n = (if page_at n \<in> tables ?m ?pt then 1 else 0)"
      using refs_distinct [OF ts(1) _ n] unfolding ts(2) by blast
    then show ?thesis by (simp only: refs_append holds_def)
  qed
  have len: "length (pages (km k)) = 512" using ok by (simp add: pages_ok_def)
  have cnt: "unat (pages s ! n) = unat (pages (km k) ! n) - holds ?m ?pt n" if n: "n < 512" "pool_page (km k) (page_at n)" for n
  proof -
    have le: "holds ?m ?pt n \<le> unat (pages (km k) ! n)" using kinvD(8) [OF inv n] holds_sum [OF li] by simp
    have "pages s ! n = pages (km k) ! n - of_nat (holds ?m ?pt n)"
    proof -
      have "\<forall>i<length (pages (km k)). pages s ! i = pages (km k) ! i - of_nat (refs ?ps i)"
        using s(2) unfolding released_def by blast
      then have "pages s ! n = pages (km k) ! n - of_nat (refs ?ps n)" using n(1) len by (simp only:)
      then show ?thesis unfolding rf [OF n(1)] .
    qed
    moreover have "unat (of_nat (holds ?m ?pt n) :: u8) = holds ?m ?pt n"
      using holds_le [OF inv li n(1)] by (subst unat_of_nat) simp
    ultimately show ?thesis using le by (simp add: unat_sub word_le_nat_alt)
  qed
  have out: "phys s x = ?m x" if x: "\<forall>p. pool_page (km k) p \<longrightarrow> \<not> in_rng p 4096 x" for x
    using s(2) kp x unfolding released_def by blast
  have oth: "phys s x = ?m x" if j: "live k j" "j \<noteq> i" "has_page k j p" "in_rng p 4096 x" for j p x
  proof -
    note kpj = has_page_kpage [OF inv j(1,3)]
    have n: "page_no p < 512" "pool_page (km k) (page_at (page_no p))" using kpage_at [OF kpj] kpj by simp_all
    have "refs ?ps (page_no p) < unat (pages (km k) ! page_no p)"
      using rf [OF n(1)] kinvD(8) [OF inv n] holds_two [OF j(1) li j(2), of "page_no p"] holds_pos [OF j(3) kpj] by linarith
    moreover have "page_aligned p" "p < MEMSIZE_PHYSICAL" using kpage_ram [OF kpj] by (simp_all add: ram_page_def)
    ultimately show ?thesis using kfree_all_keeps [OF ok ram _ _ j(4) _ s(1)] by blast
  qed
  have "exit_proc (int i) k = Some (freed_slot (int i) k s)"
    using pid pt0 exit_memory_frees [OF kinv_exit_ok [OF inv li]] s(1) by (simp add: exit_proc_def)
  moreover have "kernel_end s = kernel_end (km k)" using s(2) by (simp add: released_def)
  ultimately show ?thesis using cnt out oth released_ok [OF s(2) ok] by blast
qed

lemma has_page_keeps:
  "(\<And>p x. has_page k j p \<Longrightarrow> in_rng p 4096 x \<Longrightarrow> phys s x = kphys k x) \<Longrightarrow> keeps_tables (kphys k) (phys s) (space k j)"
  unfolding keeps_tables_def has_page_def by blast

lemma kernel_keeps:
  assumes inv: "kinv k" and out: "\<And>x. (\<And>p. pool_page (km k) p \<Longrightarrow> \<not> in_rng p 4096 x) \<Longrightarrow> phys s x = kphys k x"
  shows "keeps_tables (kphys k) (phys s) (kernel_pagetable k)"
  unfolding keeps_tables_def
proof (intro ballI allI impI)
  fix t x assume t: "t \<in> tables (kphys k) (kernel_pagetable k)" "in_rng t 4096 x"
  have K: "page_aligned (kernel_pagetable k)" and nk: "\<not> pool_page (km k) t"
    using kinvD(3) [OF inv] t(1) unfolding kernel_space_ok_def by blast+
  have al: "page_aligned t" by (rule tables_aligned [OF K t(1)])
  show "phys s x = kphys k x"
  proof (rule out)
    fix p assume p: "pool_page (km k) p"
    then have "t \<noteq> p" using nk by auto
    then show "\<not> in_rng p 4096 x" using pages_disjoint [OF al _ _ t(2)] p by (simp add: pool_page_def)
  qed
qed

lemma kinv_exit:
  assumes inv: "kinv k" and li: "live k i"
  shows "\<exists>s. exit_proc (int i) k = Some (freed_slot (int i) k s) \<and> kinv (freed_slot (int i) k s)
    \<and> (\<forall>j p x. live k j \<longrightarrow> j \<noteq> i \<longrightarrow> has_page k j p \<longrightarrow> in_rng p 4096 x \<longrightarrow> phys s x = kphys k x)"
proof -
  note D = kinvD [OF inv]
  obtain s where call: "exit_proc (int i) k = Some (freed_slot (int i) k s)" and ok: "pages_ok s" and ke: "kernel_end s = kernel_end (km k)"
    and cnt: "\<forall>n<512. pool_page (km k) (page_at n) \<longrightarrow> unat (pages s ! n) = unat (pages (km k) ! n) - holds (kphys k) (space k i) n"
    and out: "\<forall>x. (\<forall>p. pool_page (km k) p \<longrightarrow> \<not> in_rng p 4096 x) \<longrightarrow> phys s x = kphys k x"
    and oth: "\<forall>j p x. live k j \<longrightarrow> j \<noteq> i \<longrightarrow> has_page k j p \<longrightarrow> in_rng p 4096 x \<longrightarrow> phys s x = kphys k x"
    using exit_frees [OF inv li] by blast
  let ?k = "freed_slot (int i) k s" and ?K = "kernel_pagetable k"
  have len: "length (ptable k) = 16" by (rule D(2))
  have i16: "i < 16" using li by (simp add: live_def)
  have kK: "keeps_tables (kphys k) (phys s) ?K" using kernel_keeps [OF inv] out by blast
  have K: "page_aligned ?K" using D(3) by (simp add: kernel_space_ok_def)
  have kp: "pool_page s p = pool_page (km k) p" for p by (simp add: pool_page_def ke)
  have priv: "pages s ! page_no pa = 1"
    if j: "live k j" "j \<noteq> i" and v: "page_aligned v" "PROC_START_ADDR \<le> v" "mapping (kphys k) (space k j) v = Some (pa, 7)" for j v pa
  proof -
    have one: "pages (km k) ! page_no pa = 1" and hp: "has_page k j pa"
      using space_priv [OF D(5) [OF j(1)] v] by (simp_all add: has_page_def)
    note kpa = has_page_kpage [OF inv j(1) hp]
    have n: "page_no pa < 512" "pool_page (km k) (page_at (page_no pa))" using kpage_at [OF kpa] kpa by simp_all
    have "holds (kphys k) (space k i) (page_no pa) = 0"
      using holds_two [OF li j(1) j(2) [symmetric], of "page_no pa"] holds_pos [OF hp kpa] D(8) [OF n] one by simp
    then have "unat (pages s ! page_no pa) = 1" using cnt n one by simp
    then show ?thesis by (simp add: word_unat_eq_iff)
  qed
  have kt: "keeps_tables (kphys k) (phys s) (space k j)" if "live k j" "j \<noteq> i" for j
    using has_page_keeps [of k j s] oth that by blast
  have f: "space_ok s ?K (space k j)" "tables (phys s) (space k j) = tables (kphys k) (space k j)"
    "umap (phys s) (space k j) = umap (kphys k) (space k j)" "holds (phys s) (space k j) n = holds (kphys k) (space k j) n"
    if j: "live k j" "j \<noteq> i" for j n
  proof -
    note g = space_frame [OF D(5) [OF j(1)] ke kt [OF j] kK K priv [OF j]]
    show "space_ok s ?K (space k j)" by (rule g(1))
    show "tables (phys s) (space k j) = tables (kphys k) (space k j)" by (rule g(2))
    show "umap (phys s) (space k j) = umap (kphys k) (space k j)" by (rule g(3))
    show "holds (phys s) (space k j) n = holds (kphys k) (space k j) n" by (rule g(5))
  qed
  have lv: "live ?k j \<longleftrightarrow> live k j \<and> j \<noteq> i" for j
    using i16 len by (auto simp: live_def nth_list_update)
  have spc: "space ?k j = space k j" if "j \<noteq> i" for j using that by simp
  have "kinv ?k"
    unfolding kinv_def
  proof (intro conjI allI impI)
    show "kernel_space_ok (km ?k) (kernel_pagetable ?k)" using kernel_space_frame [OF D(3) ke kK] by simp
    show "p_pid (ptable ?k ! j) = int j" if "j < NPROC" for j
      using D(4) that i16 len by (auto simp: nth_list_update)
    show "space_ok (km ?k) (kernel_pagetable ?k) (space ?k j)" if "live ?k j" for j
      using f(1) that unfolding lv by simp
    show "\<not> live ?k 0" using live_pos [OF inv] lv by auto
    show "pool_page (km ?k) (mu_v ?k)" if "mu_v ?k \<noteq> 0" using D(9) that kp by simp
    show "\<not> has_page ?k j (mu_v ?k)" if "live ?k j" for j
    proof -
      have j: "live k j" "j \<noteq> i" using that lv by blast+
      show ?thesis using D(10) [OF j(1)] f(2,3) [OF j] spc [OF j(2)] by (simp add: has_page_def)
    qed
    fix j l p assume a: "live ?k j" "live ?k l" "p \<in> tables (kphys ?k) (space ?k j)"
    have j: "live k j" "j \<noteq> i" and l: "live k l" "l \<noteq> i" using a(1,2) lv by blast+
    have pt: "p \<in> tables (kphys k) (space k j)" using a(3) f(2) [OF j] spc [OF j(2)] by simp
    show "p \<notin> set (umap (kphys ?k) (space ?k l))"
      using D(6) [OF j(1) l(1) pt] f(3) [OF l] spc [OF l(2)] by simp
    show "p \<in> tables (kphys ?k) (space ?k l) \<Longrightarrow> j = l"
      using D(7) [OF j(1) l(1) pt] f(2) [OF l] spc [OF l(2)] by simp
  next
    fix n assume n: "n < 512" "pool_page (km ?k) (page_at n)"
    have kn: "pool_page (km k) (page_at n)" using n(2) kp by simp
    have "{j. live ?k j} = {j. live k j} - {i}" using lv by auto
    then have "(\<Sum>j | live k j. holds (kphys k) (space k j) n) = holds (kphys k) (space k i) n + (\<Sum>j | live ?k j. holds (kphys k) (space k j) n)"
      using sum.remove [OF finite_live, of i k "\<lambda>j. holds (kphys k) (space k j) n"] li by simp
    moreover have "(\<Sum>j | live ?k j. holds (kphys k) (space k j) n) = (\<Sum>j | live ?k j. holds (kphys ?k) (space ?k j) n)"
    proof (rule sum.cong [OF refl])
      fix j assume "j \<in> {j. live ?k j}"
      then have j: "live k j" "j \<noteq> i" using lv by blast+
      show "holds (kphys k) (space k j) n = holds (kphys ?k) (space ?k j) n" using f(4) [OF j] spc [OF j(2)] by simp
    qed
    ultimately have "expected k n = holds (kphys k) (space k i) n + expected ?k n" by (simp add: expected_def)
    then show "unat (pages (km ?k) ! n) = expected ?k n" using cnt n(1) kn D(8) [OF n(1) kn] by simp
  qed (use ok len in simp_all)
  then show ?thesis using call oth by blast
qed

section \<open>Changes of one address space\<close>

text \<open>
  Process \<open>i\<close> changes memory, its own tables or its mappings, using pages that are its own or were
  free: the invariant is kept when the counts follow, and the other processes keep their mappings.
\<close>

lemma holds_has: "0 < holds m pt n \<Longrightarrow> n < 512 \<Longrightarrow> (\<And>p. p \<in> set (umap m pt) \<Longrightarrow> pool_page s p) \<Longrightarrow>
    page_at n \<in> tables m pt \<or> page_at n \<in> set (umap m pt)"
proof (rule ccontr)
  assume a: "0 < holds m pt n" "n < 512" "\<And>p. p \<in> set (umap m pt) \<Longrightarrow> pool_page s p"
    and no: "\<not> (page_at n \<in> tables m pt \<or> page_at n \<in> set (umap m pt))"
  then have "0 < refs (umap m pt) n" by (simp add: holds_def)
  then obtain p where p: "p \<in> set (umap m pt)" "page_no p = n" using refs_pos by blast
  have "page_at (page_no p) = p" using kpage_at [OF a(3) [OF p(1)]] by blast
  then have "page_at n = p" unfolding p(2) .
  then show False using no p(1) by blast
qed

lemma kinv_update:
  assumes inv: "kinv k" and li: "live k i" and ok: "pages_ok s" and ke: "kernel_end s = kernel_end (km k)"
    and kK: "keeps_tables (kphys k) (phys s) (kernel_pagetable k)"
    and oth: "\<And>j p x. live k j \<Longrightarrow> j \<noteq> i \<Longrightarrow> has_page k j p \<Longrightarrow> in_rng p 4096 x \<Longrightarrow> phys s x = kphys k x"
    and sp: "space_ok s (kernel_pagetable k) (space k i)"
    and tab: "\<And>p. p \<in> tables (phys s) (space k i) \<Longrightarrow> p \<in> tables (kphys k) (space k i) \<or> free_page (km k) p"
    and um: "\<And>p. p \<in> set (umap (phys s) (space k i)) \<Longrightarrow> p \<in> set (umap (kphys k) (space k i)) \<or> free_page (km k) p"
    and dis: "\<And>p. p \<in> tables (phys s) (space k i) \<Longrightarrow> p \<notin> set (umap (phys s) (space k i))"
    and cnt: "\<And>n. n < 512 \<Longrightarrow> pool_page (km k) (page_at n) \<Longrightarrow>
      unat (pages s ! n) + holds (kphys k) (space k i) n = unat (pages (km k) ! n) + holds (phys s) (space k i) n"
  shows "kinv (k\<lparr>km := s\<rparr>)"
    and "live k j \<Longrightarrow> j \<noteq> i \<Longrightarrow> mapping (phys s) (space k j) v = mapping (kphys k) (space k j) v"
    and "live k j \<Longrightarrow> j \<noteq> i \<Longrightarrow> umap (phys s) (space k j) = umap (kphys k) (space k j)"
proof -
  let ?K = "kernel_pagetable k" and ?P = "space k i"
  note D = kinvD [OF inv]
  have K: "page_aligned ?K" using D(3) by (simp add: kernel_space_ok_def)
  have kp: "pool_page s p = pool_page (km k) p" for p by (simp add: pool_page_def ke)
  have own: "p = p' \<Longrightarrow> has_page k i p \<or> free_page (km k) p"
    if "p' \<in> tables (phys s) ?P \<or> p' \<in> set (umap (phys s) ?P)" for p p'
    using that tab um unfolding has_page_def by blast
  have nofree: "\<not> free_page (km k) p" if "live k j" "has_page k j p" for j p
    using has_page_used [OF inv that] by (simp add: free_kpage)
  have priv: "pages s ! page_no pa = 1"
    if j: "live k j" "j \<noteq> i" and v: "page_aligned v" "PROC_START_ADDR \<le> v" "mapping (kphys k) (space k j) v = Some (pa, 7)" for j v pa
  proof -
    have one: "pages (km k) ! page_no pa = 1" and hp: "has_page k j pa"
      using space_priv [OF D(5) [OF j(1)] v] by (simp_all add: has_page_def)
    note kpa = has_page_kpage [OF inv j(1) hp]
    have at: "page_at (page_no pa) = pa" using kpage_at [OF kpa] by blast
    have n: "page_no pa < 512" "pool_page (km k) (page_at (page_no pa))" using kpage_at [OF kpa] kpa by simp_all
    have h0: "holds (kphys k) ?P (page_no pa) = 0"
      using holds_two [OF li j(1) j(2) [symmetric], of "page_no pa"] holds_pos [OF hp kpa] D(8) [OF n] one by simp
    have h1: "holds (phys s) ?P (page_no pa) = 0"
    proof (rule ccontr)
      assume "holds (phys s) ?P (page_no pa) \<noteq> 0"
      then have "page_at (page_no pa) \<in> tables (phys s) ?P \<or> page_at (page_no pa) \<in> set (umap (phys s) ?P)"
        using holds_has [of "phys s" ?P "page_no pa" s] n(1) space_okD(5) [OF sp] by blast
      then have "has_page k i pa" using own [OF _ at [symmetric]] nofree [OF j(1) hp] by blast
      then show False using private_page [OF inv li _ j(1) hp one] j(2) by blast
    qed
    have "unat (pages s ! page_no pa) = 1" using cnt [OF n] one h0 h1 by simp
    then show ?thesis by (simp add: word_unat_eq_iff)
  qed
  have kt: "keeps_tables (kphys k) (phys s) (space k j)" if "live k j" "j \<noteq> i" for j
    by (rule has_page_keeps) (rule oth [OF that])
  have f: "space_ok s ?K (space k j)" "tables (phys s) (space k j) = tables (kphys k) (space k j)"
    "umap (phys s) (space k j) = umap (kphys k) (space k j)" "mapping (phys s) (space k j) v = mapping (kphys k) (space k j) v"
    "holds (phys s) (space k j) n = holds (kphys k) (space k j) n"
    if j: "live k j" "j \<noteq> i" for j n v
  proof -
    note g = space_frame [OF D(5) [OF j(1)] ke kt [OF j] kK K priv [OF j]]
    show "space_ok s ?K (space k j)" by (rule g(1))
    show "tables (phys s) (space k j) = tables (kphys k) (space k j)" by (rule g(2))
    show "umap (phys s) (space k j) = umap (kphys k) (space k j)" by (rule g(3))
    show "mapping (phys s) (space k j) v = mapping (kphys k) (space k j) v" by (rule g(4))
    show "holds (phys s) (space k j) n = holds (kphys k) (space k j) n" by (rule g(5))
  qed
  show "live k j \<Longrightarrow> j \<noteq> i \<Longrightarrow> mapping (phys s) (space k j) v = mapping (kphys k) (space k j) v" by (rule f(4))
  show "live k j \<Longrightarrow> j \<noteq> i \<Longrightarrow> umap (phys s) (space k j) = umap (kphys k) (space k j)" by (rule f(3))
  have lv: "live (k\<lparr>km := s\<rparr>) j = live k j" for j by (simp add: live_def)
  have sum: "unat (pages s ! n) = expected (k\<lparr>km := s\<rparr>) n" if n: "n < 512" "pool_page (km k) (page_at n)" for n
  proof -
    have "(\<Sum>j | live k j. h j) = h i + (\<Sum>j\<in>{j. live k j} - {i}. h j)" for h :: "nat \<Rightarrow> nat"
      using sum.remove [OF finite_live, of i k h] li by simp
    moreover have "(\<Sum>j\<in>{j. live k j} - {i}. holds (phys s) (space k j) n) = (\<Sum>j\<in>{j. live k j} - {i}. holds (kphys k) (space k j) n)"
      by (rule sum.cong [OF refl]) (simp add: f(5))
    ultimately have "(\<Sum>j | live k j. holds (phys s) (space k j) n) + holds (kphys k) ?P n
        = (\<Sum>j | live k j. holds (kphys k) (space k j) n) + holds (phys s) ?P n" by simp
    then show ?thesis using cnt [OF n] D(8) [OF n] by (simp add: expected_def lv)
  qed
  have t: "p \<in> tables (kphys k) (space k j) \<or> j = i \<and> free_page (km k) p" if "live k j" "p \<in> tables (phys s) (space k j)" for j p
    using that f(2) tab by (cases "j = i") auto
  have u: "p \<in> set (umap (kphys k) (space k j)) \<or> j = i \<and> free_page (km k) p" if "live k j" "p \<in> set (umap (phys s) (space k j))" for j p
    using that f(3) um by (cases "j = i") auto
  show "kinv (k\<lparr>km := s\<rparr>)"
    unfolding kinv_def lv
  proof (intro conjI allI impI)
    show "kernel_space_ok (km (k\<lparr>km := s\<rparr>)) (kernel_pagetable (k\<lparr>km := s\<rparr>))" using kernel_space_frame [OF D(3) ke kK] by simp
    show "p_pid (ptable (k\<lparr>km := s\<rparr>) ! j) = int j" if "j < NPROC" for j using D(4) that by simp
    show "space_ok (km (k\<lparr>km := s\<rparr>)) (kernel_pagetable (k\<lparr>km := s\<rparr>)) (space (k\<lparr>km := s\<rparr>) j)" if "live k j" for j
      using f(1) that sp by (cases "j = i") simp_all
    fix j l p assume a: "live k j" "live k l" "p \<in> tables (kphys (k\<lparr>km := s\<rparr>)) (space (k\<lparr>km := s\<rparr>) j)"
    have tj: "p \<in> tables (phys s) (space k j)" using a(3) by simp
    have "p \<notin> set (umap (phys s) (space k l))"
    proof
      assume ul: "p \<in> set (umap (phys s) (space k l))"
      show False
        using t [OF a(1) tj] u [OF a(2) ul] D(6) [OF a(1,2), of p] dis [of p] tj ul nofree [OF a(1), of p] nofree [OF a(2), of p]
        unfolding has_page_def by blast
    qed
    then show "p \<notin> set (umap (kphys (k\<lparr>km := s\<rparr>)) (space (k\<lparr>km := s\<rparr>) l))" by simp
    assume "p \<in> tables (kphys (k\<lparr>km := s\<rparr>)) (space (k\<lparr>km := s\<rparr>) l)"
    then have "p \<in> tables (phys s) (space k l)" by simp
    then show "j = l"
      using t [OF a(1) tj] t [OF a(2), of p] D(7) [OF a(1,2), of p] nofree [OF a(1), of p] nofree [OF a(2), of p]
      unfolding has_page_def by blast
  next
    show "pool_page (km (k\<lparr>km := s\<rparr>)) (mu_v (k\<lparr>km := s\<rparr>))" if "mu_v (k\<lparr>km := s\<rparr>) \<noteq> 0" using D(9) that kp by simp
    show "\<not> has_page (k\<lparr>km := s\<rparr>) j (mu_v (k\<lparr>km := s\<rparr>))" if j: "live k j" for j
    proof
      assume "has_page (k\<lparr>km := s\<rparr>) j (mu_v (k\<lparr>km := s\<rparr>))"
      then have h: "mu_v k \<in> tables (phys s) (space k j) \<or> mu_v k \<in> set (umap (phys s) (space k j))" by (simp add: has_page_def)
      then have fr: "free_page (km k) (mu_v k)" using t [OF j] u [OF j] D(10) [OF j] unfolding has_page_def by blast
      then have "mu_v k \<noteq> 0" using kpage_ram free_kpage unfolding ram_page_def by blast
      then show False using mu_used [OF inv] fr by (simp add: free_page_def)
    qed
    show "unat (pages (km (k\<lparr>km := s\<rparr>)) ! n) = expected (k\<lparr>km := s\<rparr>) n"
      if "n < 512" "pool_page (km (k\<lparr>km := s\<rparr>)) (page_at n)" for n
      using sum that kp by simp
    show "\<not> live k 0" using live_pos [OF inv] by auto
  qed (use ok D(2) in simp_all)
qed

section \<open>\<open>page_alloc\<close>\<close>

lemma refs_new:
  assumes "distinct vs" "v \<in> set vs" "mapping m pt v = None" "mapping m' pt v = Some (pa, q)"
    and "\<And>w. w \<in> set vs \<Longrightarrow> w \<noteq> v \<Longrightarrow> mapping m' pt w = mapping m pt w"
  shows "refs (mapped_pages m' pt vs) n = refs (mapped_pages m pt vs) n + (if page_no pa = n then 1 else 0)"
  using assms
proof (induction vs)
  case (Cons u vs)
  show ?case
  proof (cases "u = v")
    case True
    have "w \<noteq> v" if "w \<in> set vs" for w using that Cons.prems(1) True by auto
    then have "mapped_pages m' pt vs = mapped_pages m pt vs" by (intro mapped_pages_cong) (use Cons.prems(5) in auto)
    then show ?thesis using True Cons.prems(3,4) by simp
  next
    case False
    have "mapping m' pt u = mapping m pt u" using Cons.prems(5) False by simp
    moreover have "refs (mapped_pages m' pt vs) n = refs (mapped_pages m pt vs) n + (if page_no pa = n then 1 else 0)"
      using Cons False by simp
    ultimately show ?thesis by (simp split: option.split)
  qed
qed simp

lemma count_shift: "x + of_nat a = y + of_nat b \<Longrightarrow> a \<le> unat y + b \<Longrightarrow> unat y + b < 256 \<Longrightarrow> unat (x :: u8) + a = unat y + b"
proof -
  assume e: "x + of_nat a = y + of_nat b" and le: "a \<le> unat y + b" and lt: "unat y + b < 256"
  have "x = of_nat (unat y + b) - of_nat a" using e by (simp add: algebra_simps)
  also have "\<dots> = of_nat (unat y + b - a)" by (rule of_nat_diff [OF le, symmetric])
  finally have "unat x = unat y + b - a" using lt by (simp add: unat_of_nat del: of_nat_add)
  then show ?thesis using le by simp
qed

lemma distinct_range: "unat va + 4096 * n < 2 ^ 64 \<Longrightarrow> page_aligned va \<Longrightarrow> distinct (page_range va n)"
proof (induction n arbitrary: va)
  case (Suc n)
  have u: "unat (va + PAGESIZE) = unat va + 4096" by (subst PAGESIZE_def, subst unat_add_lt) (use Suc.prems in simp_all)
  have al: "page_aligned (va + PAGESIZE)" using page_aligned_add [OF Suc.prems(2)] by simp
  have b: "unat (va + PAGESIZE) + 4096 * n < 2 ^ 64" using u Suc.prems(1) by simp
  have "va \<notin> set (page_range (va + PAGESIZE) n)"
    using page_range_iff [OF al b, of va] u by (auto simp: word_le_nat_alt)
  then show ?case using Suc.IH [OF b al] by simp
qed simp

lemma distinct_user_pages: "distinct user_pages"
  by (rule distinct_range) (simp_all add: page_aligned_def)

lemma kinv_pt_inv:
  assumes "kinv k" "live k i"
  shows "pt_inv free_page (km k) (space k i)"
  using kinv_src [OF assms] space_okD(1,2) [OF kinvD(5) [OF assms]] by (simp add: pt_inv_def src_ok_def)

text \<open>A page that was free becomes a page of the process, at one new address.\<close>

lemma space_grow:
  assumes inv: "kinv k" and li: "live k i" and v: "page_aligned va" "PROC_START_ADDR \<le> va" "va < MEMSIZE_VIRTUAL"
    and none: "mapping (kphys k) (space k i) va = None" and fp: "free_page (km k) pa"
    and pinv: "pt_inv free_page s (space k i)" and sm: "\<And>w. va_is_canonical w \<Longrightarrow> small_at (phys s) (space k i) w"
    and ke: "kernel_end s = kernel_end (km k)" and ok: "pages_ok s"
    and kK: "keeps_tables (kphys k) (phys s) (kernel_pagetable k)"
    and oth: "\<And>j p x. live k j \<Longrightarrow> j \<noteq> i \<Longrightarrow> has_page k j p \<Longrightarrow> in_rng p 4096 x \<Longrightarrow> phys s x = kphys k x"
    and tab: "\<And>p. p \<in> tables (phys s) (space k i) \<Longrightarrow> p \<in> tables (kphys k) (space k i) \<or> free_page (km k) p \<and> p \<noteq> pa"
    and mp: "\<And>w. mapping (phys s) (space k i) w = (if agree 12 va w then mapped_page pa 7 w else mapping (kphys k) (space k i) w)"
    and old: "\<And>n. n < 512 \<Longrightarrow> used (pages (km k) ! n) \<Longrightarrow> pages s ! n = pages (km k) ! n" and one: "pages s ! page_no pa = 1"
    and cnt: "\<And>n. n < 512 \<Longrightarrow> pool_page (km k) (page_at n) \<Longrightarrow> pages s ! n + (if page_at n \<in> tables (kphys k) (space k i) then 1 else 0)
      = pages (km k) ! n + (if page_at n \<in> tables (phys s) (space k i) then 1 else 0) + (if page_at n = pa then 1 else 0)"
  shows "kinv (k\<lparr>km := s\<rparr>)"
    and "live k j \<Longrightarrow> j \<noteq> i \<Longrightarrow> mapping (phys s) (space k j) w = mapping (kphys k) (space k j) w"
proof -
  let ?P = "space k i" and ?K = "kernel_pagetable k"
  note D = kinvD [OF inv] and Psp = kinvD(5) [OF inv li]
  have K: "page_aligned ?K" using D(3) by (simp add: kernel_space_ok_def)
  have kp: "pool_page s p = pool_page (km k) p" for p by (simp add: pool_page_def ke)
  have nofree: "\<not> free_page (km k) p" if "live k j" "has_page k j p" for j p
    using has_page_used [OF inv that] by (simp add: free_kpage)
  have vu: "va \<in> set user_pages" by (rule user_pageI [OF v])
  have at: "page_at (page_no pa) = pa" "page_no pa < 512" using kpage_at free_kpage fp by blast+
  have mva: "mapping (phys s) ?P va = Some (pa, 7)"
    using mp [of va] v(1) by (simp add: agree_iff mapped_page_def page_aligned_def)
  have same: "mapping (phys s) ?P w = mapping (kphys k) ?P w" if "page_aligned w" "w \<noteq> va" for w
    using mp [of w] agree_page [OF v(1) that(1)] that(2) by simp
  have al: "page_aligned w" if "w \<in> set user_pages" for w using that user_pages_iff by blast
  have rf: "refs (umap (phys s) ?P) n = refs (umap (kphys k) ?P) n + (if page_no pa = n then 1 else 0)" for n
    by (rule refs_new [OF distinct_user_pages vu none mva]) (rule same [OF al])
  have um: "p \<in> set (umap (kphys k) ?P) \<or> p = pa" if p: "p \<in> set (umap (phys s) ?P)" for p
  proof -
    obtain w q where w: "w \<in> set user_pages" "mapping (phys s) ?P w = Some (p, q)" using p mem_mapped_pages by blast
    then show ?thesis using same [OF al] mva mem_mapped_pages by (cases "w = va") auto
  qed
  have upos: "used (pages (km k) ! page_no p) \<and> page_no p < 512" if "has_page k i p" for p
    using has_page_used [OF inv li that] kpage_at [OF has_page_kpage [OF inv li that]] by blast
  have npa: "\<not> has_page k i pa" using nofree [OF li] fp by blast
  have r0: "refs (umap (kphys k) ?P) (page_no pa) = 0"
  proof (rule ccontr)
    assume "refs (umap (kphys k) ?P) (page_no pa) \<noteq> 0"
    then obtain p where p: "p \<in> set (umap (kphys k) ?P)" "page_no p = page_no pa" using refs_pos by (metis neq0_conv)
    have "page_at (page_no p) = p" using kpage_at [OF space_okD(5) [OF Psp p(1)]] by blast
    then have "p = pa" using at(1) unfolding p(2) by (rule subst)
    then show False using npa p(1) by (simp add: has_page_def)
  qed
  have sp: "space_ok s ?K ?P"
    unfolding space_ok_def
  proof (intro conjI allI impI ballI)
    show "pt_tree (phys s) ?P" "no_junk (phys s) ?P" using pinv by (simp_all add: pt_inv_def)
    show "pool_page s p" if "p \<in> tables (phys s) ?P \<union> set (umap (phys s) ?P)" for p
      using that tab [of p] um [of p] space_okD(4,5) [OF Psp] fp free_kpage unfolding kp by blast
    show "refs (umap (phys s) ?P) n \<le> 1" for n
      using rf [of n] r0 space_okD(6) [OF Psp, of n] by (auto split: if_splits)
    show "mapping (phys s) ?P w = mapping (phys s) ?K w" if w: "page_aligned w" "w < PROC_START_ADDR" for w
    proof -
      have "w \<noteq> va" using w(2) v(2) by auto
      then show ?thesis using same [OF w(1)] space_okD(7) [OF Psp w] mapping_frame [OF K kK] by simp
    qed
    show "mapping (phys s) ?P w = None" if w: "MEMSIZE_VIRTUAL \<le> w" for w
    proof -
      have e: "region_empty (kphys k) ?P MEMSIZE_VIRTUAL" using space_okD(8) [OF Psp] by (simp add: region_empty_def)
      have "region_empty (phys s) ?P MEMSIZE_VIRTUAL"
        using region_empty_map [OF e v(3), of "phys s" "mapped_page pa 7"] mp by (simp add: page_aligned_def)
      then show ?thesis using w by (simp add: region_empty_def)
    qed
    show "pages s ! page_no p = 1" if w: "page_aligned w" "PROC_START_ADDR \<le> w" "mapping (phys s) ?P w = Some (p, 7)" for w p
    proof (cases "w = va")
      case True
      then show ?thesis using w(3) mva one by simp
    next
      case False
      have mw: "mapping (kphys k) ?P w = Some (p, 7)" using same [OF w(1) False] w(3) by simp
      have pr: "pages (km k) ! page_no p = 1" "has_page k i p" using space_priv [OF Psp w(1,2) mw] by (simp_all add: has_page_def)
      show ?thesis using old upos [OF pr(2)] pr(1) by simp
    qed
  qed (use sm in blast)
  have tab': "p \<in> tables (kphys k) ?P \<or> free_page (km k) p" if "p \<in> tables (phys s) ?P" for p using tab that by blast
  have um': "p \<in> set (umap (kphys k) ?P) \<or> free_page (km k) p" if "p \<in> set (umap (phys s) ?P)" for p using um that fp by blast
  have dis: "p \<notin> set (umap (phys s) ?P)" if p: "p \<in> tables (phys s) ?P" for p
  proof
    assume u: "p \<in> set (umap (phys s) ?P)"
    show False
      using tab [OF p] um [OF u] kinvD(6) [OF inv li li, of p] nofree [OF li, of p] npa unfolding has_page_def by blast
  qed
  have cn: "unat (pages s ! n) + holds (kphys k) ?P n = unat (pages (km k) ! n) + holds (phys s) ?P n"
    if n: "n < 512" "pool_page (km k) (page_at n)" for n
  proof -
    have "page_no pa = n \<longleftrightarrow> page_at n = pa" using at(1) page_at_ram(2) [OF n(1)] by metis
    then have h: "holds (phys s) ?P n + (if page_at n \<in> tables (kphys k) ?P then 1 else 0)
        = holds (kphys k) ?P n + (if page_at n \<in> tables (phys s) ?P then 1 else 0) + (if page_at n = pa then 1 else 0)"
      using rf [of n] by (simp add: holds_def)
    have c: "unat (pages (km k) ! n) \<le> 17" by (rule count_le [OF inv n])
    let ?a = "if page_at n \<in> tables (kphys k) ?P then 1 else 0 :: nat"
    let ?b = "(if page_at n \<in> tables (phys s) ?P then 1 else 0) + (if page_at n = pa then 1 else 0) :: nat"
    have "of_nat ?a = (if page_at n \<in> tables (kphys k) ?P then 1 else (0 :: u8))"
      "of_nat ?b = (if page_at n \<in> tables (phys s) ?P then 1 else 0) + (if page_at n = pa then 1 else (0 :: u8))"
      by simp_all
    then have e: "pages s ! n + of_nat ?a = pages (km k) ! n + of_nat ?b" using cnt [OF n] by (simp only: add.assoc)
    have ab: "?a \<le> unat (pages (km k) ! n) + ?b"
      using D(8) [OF n] holds_sum [OF li, of n] by (simp add: holds_def)
    have "unat (pages s ! n) + ?a = unat (pages (km k) ! n) + ?b"
      by (rule count_shift [OF e ab]) (use c in simp)
    then show ?thesis using h ab by simp
  qed
  show "kinv (k\<lparr>km := s\<rparr>)" by (rule kinv_update(1) [OF inv li ok ke kK oth sp tab' um' dis cn])
  show "live k j \<Longrightarrow> j \<noteq> i \<Longrightarrow> mapping (phys s) (space k j) w = mapping (kphys k) (space k j) w"
    by (rule kinv_update(2) [OF inv li ok ke kK oth sp tab' um' dis cn])
qed

lemma kinv_page_alloc:
  assumes inv: "kinv k" and cur: "live k (current k)" and f: "syscall_page_alloc addr k = Some (r, k')"
  shows "(valid_page_addr addr \<Longrightarrow> mapping (kphys k) (space k (current k)) addr = None) \<Longrightarrow> kinv k'" "ptable k' = ptable k" "current k' = current k" "mu_v k' = mu_v k"
    and "live k j \<Longrightarrow> j \<noteq> current k \<Longrightarrow> mapping (kphys k') (space k j) w = mapping (kphys k) (space k j) w"
    and "live k j \<Longrightarrow> j \<noteq> current k \<Longrightarrow> has_page k j p \<Longrightarrow> in_rng p 4096 x \<Longrightarrow> kphys k' x = kphys k x"
    and "r = 0 \<Longrightarrow> \<exists>pa. mapping (kphys k') (space k (current k)) addr = Some (pa, 7)"
proof -
  let ?c = "current k" and ?P = "space k (current k)" and ?K = "kernel_pagetable k"
  note D = kinvD [OF inv]
  have pid: "nat (p_pid (ptable k ! ?c)) = ?c" using D(4) cur by (simp add: live_def)
  have ok: "pages_ok (km k)" by (rule D(1))
  obtain pa s where al: "kalloc PAGESIZE (km k) = (pa, s)" by fastforce
  have "r \<noteq> 0 \<and> k' = k \<or> (\<exists>s'. (\<exists>pa. mapping (phys s') ?P addr = Some (pa, 7)) \<and> k' = k\<lparr>km := s'\<rparr>
      \<and> (mapping (kphys k) ?P addr = None \<or> \<not> valid_page_addr addr \<longrightarrow> kinv k') \<and> (\<forall>j. live k j \<longrightarrow> j \<noteq> ?c \<longrightarrow>
      (\<forall>w. mapping (phys s') (space k j) w = mapping (kphys k) (space k j) w)
      \<and> (\<forall>p x. has_page k j p \<longrightarrow> in_rng p 4096 x \<longrightarrow> phys s' x = kphys k x)))"
  proof (cases "valid_page_addr addr \<and> pa \<noteq> 0")
    case False
    then show ?thesis
      using f al kpa.alloc_fails [OF ok, of s]
      by (auto simp: syscall_page_alloc_def valid_page_addr_def not_le not_less split: if_splits)
  next
    case True
    then have v: "page_aligned addr" "PROC_START_ADDR \<le> addr" "addr < MEMSIZE_VIRTUAL" and nz: "pa \<noteq> 0"
      by (simp_all add: valid_page_addr_def page_aligned_mod del: PROC_START_ADDR_def MEMSIZE_VIRTUAL_def)
    let ?m = "mem_fill (phys s) pa 0 PAGESIZE"
    let ?s = "s\<lparr>phys := ?m\<rparr>"
    note fp = kpa.alloc_avail [OF ok al nz] and pg = kpa.alloc_page [OF ok al]
    have out: "same_outside pa (kphys k) ?m" using kpa.alloc_frame [OF ok al] by (simp add: same_outside_def mem_simps)
    note pt = kpa.alloc_pt_inv [OF ok kinv_pt_inv [OF inv cur] al nz out]
    have mp0: "mapping ?m ?P w = mapping (kphys k) ?P w" for w by (rule mapping_frame [OF pt(4,2)])
    have tb0: "tables ?m ?P = tables (kphys k) ?P" by (rule tables_frame [OF pt(4,2)])
    have mk: "free_page s q \<longleftrightarrow> free_page (km k) q \<and> q \<noteq> pa" for q using kpa.alloc_marks [OF ok al nz] by simp
    have tk: "took_pages (km k) s" using took_kalloc [OF ok] al by simp
    have can: "va_is_canonical addr" by (rule user_canonical [OF v(3)])
    have sm0: "va_is_canonical w \<Longrightarrow> small_at ?m ?P w" for w
      using small_at_frame [OF pt(4,2)] space_okD(3) [OF D(5) [OF cur]] by simp
    obtain it where it: "vmiter_new ?m ?P addr = Some it" "ready ?m it" "it_pt it = ?P" "it_va it = addr" "it_perm it AND 7 = 7"
      using iter_ready [OF pt(1) can] sm0 [OF can] by auto
    have ok1: "pages_ok ?s" using kpa.alloc_keeps [OF ok al] by simp
    have lt: "pa < 0x100000000" using free_page_range [OF fp] by (auto intro: less_trans)
    have as: "map_asserts it pa 7" by (rule user_map_asserts) (use it pg v lt in auto)
    have rd: "ready (phys ?s) it" using it(2) by simp
    obtain r it' s' where tm: "try_map (kalloc PAGESIZE) ?s it pa 7 = Some (r, it', s')"
      and ok': "pages_ok s'" and ke: "kernel_end s' = kernel_end ?s" and mr: "map_result free_page ?s it pa 7 r s'"
      and st: "pt_step free_page ?s s' ?P" and cs: "copy_step ?P ?s s'"
      and old: "\<forall>i<512. pages ?s ! i \<noteq> 0 \<longrightarrow> pages s' ! i = pages ?s ! i"
      and cnt: "\<forall>i<512. pages s' ! i = pages ?s ! i + (if page_at i \<in> tables (phys s') ?P then 1 else 0)
        - (if page_at i \<in> tables (phys ?s) ?P then 1 else 0)"
      by (rule map_any [OF ok1 pt(1) rd it(3) _ as lt]) simp_all
    have "\<not> (addr < PROC_START_ADDR \<or> MEMSIZE_VIRTUAL \<le> addr \<or> addr mod PAGESIZE \<noteq> 0)"
      using True by (auto simp: valid_page_addr_def)
    then have call: "syscall_page_alloc addr k = (if r = 0 then Some (0, k\<lparr>km := s'\<rparr>) else None)"
      unfolding syscall_page_alloc_def pid using al nz it(1) tm by (simp add: vm_map_def)
    then have r0: "r = 0" and k': "k' = k\<lparr>km := s'\<rparr>" using f by (auto split: if_splits)
    have pinv': "pt_inv free_page s' ?P" and sm1: "\<And>w. small_at ?m ?P w \<Longrightarrow> small_at (phys s') ?P w"
      and mp: "mapping (phys s') ?P w = (if agree 12 addr w then mapped_page pa 7 w else mapping (kphys k) ?P w)" for w
      using mr r0 it(3,4) mp0 by (simp_all add: map_result_def)
    have tab: "p \<in> tables (kphys k) ?P \<or> free_page (km k) p \<and> p \<noteq> pa" if "p \<in> tables (phys s') ?P" for p
      using pt_step_new [OF st that] tb0 mk by (simp add: kpa.avail_phys)
    have ke': "kernel_end s' = kernel_end (km k)" using ke tk by (simp add: took_pages_def)
    have frame: "phys s' x = kphys k x"
      if p: "page_aligned p" "\<not> free_page (km k) p" "p \<notin> tables (kphys k) ?P" "in_rng p 4096 x" for p x
    proof -
      have ne: "p \<noteq> pa" using p(2) fp by blast
      have nf: "\<not> free_page ?s p" using mk p(2) by (simp add: kpa.avail_phys)
      have "p \<notin> tables (phys ?s) ?P" using p(3) tb0 by (simp del: PAGESIZE_def)
      then have "phys s' x = phys ?s x" using cs p(1,4) nf unfolding copy_step_def by blast
      moreover have "\<not> in_rng pa 4096 x" using pages_disjoint [OF p(1) _ ne p(4)] pg by blast
      ultimately show ?thesis using out by (simp add: same_outside_def del: PAGESIZE_def)
    qed
    have kK: "keeps_tables (kphys k) (phys s') ?K"
      unfolding keeps_tables_def
    proof (intro ballI allI impI)
      fix t x assume t: "t \<in> tables (kphys k) ?K" "in_rng t 4096 x"
      have "page_aligned ?K" "\<not> pool_page (km k) t" using D(3) t(1) unfolding kernel_space_ok_def by blast+
      then show "phys s' x = kphys k x"
        using frame [OF tables_aligned [OF _ t(1)] _ _ t(2)] space_okD(4) [OF D(5) [OF cur], of t] free_kpage by blast
    qed
    have oth: "phys s' x = kphys k x" if j: "live k j" "j \<noteq> ?c" "has_page k j p" "in_rng p 4096 x" for j p x
    proof (rule frame [OF _ _ _ j(4)])
      show "page_aligned p" using has_page_kpage [OF inv j(1,3)] by (simp add: pool_page_def)
      show "\<not> free_page (km k) p" using has_page_used [OF inv j(1,3)] by (simp add: free_page_def)
      show "p \<notin> tables (kphys k) ?P" using D(6) [OF cur j(1), of p] D(7) [OF cur j(1), of p] j(2,3) unfolding has_page_def by blast
    qed
    have npa: "pa \<notin> tables (kphys k) ?P" by (rule pt(3))
    have kc: "pages s ! n = pages (km k) ! n + (if page_at n = pa then 1 else 0)" if "n < 512" for n
      by (rule kalloc_counts [OF ok al nz that])
    have at: "page_no pa < 512" "page_at (page_no pa) = pa" using page_at_no [of pa] free_page_range [OF fp] by simp_all
    have p0: "pages (km k) ! page_no pa = 0" using fp by (simp add: free_page_def used_def)
    have one: "pages s' ! page_no pa = 1" using old kc [OF at(1)] at p0 by simp
    have oldu: "pages s' ! n = pages (km k) ! n" if n: "n < 512" "used (pages (km k) ! n)" for n
    proof -
      have "page_at n \<noteq> pa"
      proof
        assume "page_at n = pa"
        then have "n = page_no pa" using page_at_ram(2) [OF n(1)] by metis
        then show False using n(2) p0 by (simp add: used_def)
      qed
      then have "pages s ! n = pages (km k) ! n" using kc [OF n(1)] by simp
      then show ?thesis using old n by (simp add: used_def)
    qed
    have cn: "pages s' ! n + (if page_at n \<in> tables (kphys k) ?P then 1 else 0)
      = pages (km k) ! n + (if page_at n \<in> tables (phys s') ?P then 1 else 0) + (if page_at n = pa then 1 else 0)" if "n < 512" for n
      using cnt kc [OF that] that by (simp add: tb0 del: PAGESIZE_def)
    have "kinv k'" if none: "mapping (kphys k) ?P addr = None"
    proof -
      note g = space_grow [OF inv cur v none fp pinv' sm1 [OF sm0] ke' ok' kK oth tab mp oldu one cn]
      show ?thesis unfolding k' by (rule g(1))
    qed
    then have "mapping (kphys k) ?P addr = None \<or> \<not> valid_page_addr addr \<longrightarrow> kinv k'" using True by blast
    moreover have "mapping (phys s') (space k j) w = mapping (kphys k) (space k j) w" if "live k j" "j \<noteq> ?c" for j w
      by (rule mapping_frame [OF space_aligned [OF D(5) [OF that(1)]] has_page_keeps]) (rule oth [OF that])
    moreover have "mapping (phys s') ?P addr = Some (pa, 7)"
      using mp [of addr] v(1) by (simp add: agree_iff mapped_page_def page_aligned_def)
    ultimately show ?thesis using k' oth by blast
  qed
  then show "(valid_page_addr addr \<Longrightarrow> mapping (kphys k) (space k (current k)) addr = None) \<Longrightarrow> kinv k'"
    "ptable k' = ptable k" "current k' = current k" "mu_v k' = mu_v k"
    "live k j \<Longrightarrow> j \<noteq> ?c \<Longrightarrow> mapping (kphys k') (space k j) w = mapping (kphys k) (space k j) w"
    "live k j \<Longrightarrow> j \<noteq> ?c \<Longrightarrow> has_page k j p \<Longrightarrow> in_rng p 4096 x \<Longrightarrow> kphys k' x = kphys k x"
    "r = 0 \<Longrightarrow> \<exists>pa. mapping (kphys k') ?P addr = Some (pa, 7)"
    using inv by auto
qed

end
