(* ===== verification/KernelSteps.thy ===== *)
theory KernelSteps
  imports KernelInv
begin

text \<open>
  Runs of the kernel: a process writes its memory, makes a system call, or is interrupted. Every
  such step keeps the invariant of \<open>KernelInv\<close> and the memory and the registers of the other
  processes, except for two calls that \<open>kernel.cc\<close> accepts and mishandles: \<open>page_alloc\<close> over a
  mapped page breaks the invariant, and \<open>kill\<close> of a process that is gone may break both.
\<close>

section \<open>The memory viewer writes its own page only\<close>

abbreviation only_page :: "u64 \<Rightarrow> mem \<Rightarrow> mem \<Rightarrow> bool" where
  "only_page v m m' \<equiv> \<forall>x. \<not> in_rng v 4096 x \<longrightarrow> m' x = m x"

lemma mark_only [simp]: "\<not> in_rng v 4096 x \<Longrightarrow> mark v pa flags m x = m x"
proof -
  assume x: "\<not> in_rng v 4096 x"
  show "mark v pa flags m x = m x"
  proof (cases "pa < maxpa")
    case True
    let ?i = "unat pa div 4096"
    have i: "?i < 1024" using True by (simp add: word_less_nat_alt)
    have "unat (pa div PAGESIZE) = ?i" by (simp add: unat_div)
    then have "of_nat ?i = pa div PAGESIZE" by (metis of_nat_unat ucast_id)
    then have a: "usage_addr v pa = v + of_nat (4 * ?i)" unfolding usage_addr_def by simp
    have "\<not> in_rng (usage_addr v pa) 4 x"
    proof
      assume "in_rng (usage_addr v pa) 4 x"
      then have "x - v - of_nat (4 * ?i) < 4" by (simp add: in_rng_def a algebra_simps)
      moreover define d where "d = unat (x - v - of_nat (4 * ?i))"
      ultimately have d: "x - v - of_nat (4 * ?i) = of_nat d" "d < 4" by (simp_all add: word_less_nat_alt)
      then have "x - v = of_nat (4 * ?i + d)" by (simp add: algebra_simps)
      then have "unat (x - v) < 4096" using i d(2) by (simp only: unat_of_nat) (simp add: less_imp_le_nat)
      then show False using x by (simp add: in_rng_def word_less_nat_alt)
    qed
    then show ?thesis using True by (simp add: mark_def st32_def)
  qed (simp add: mark_def)
qed

lemma mark_tables_only: "mark_tables v flags m it = Some m' \<Longrightarrow> only_page v m m'"
proof (rule mark_tables.raw_induct [where P = "\<lambda>v flags m it m'. only_page v m m'"])
  fix mt :: "u64 \<Rightarrow> u32 \<Rightarrow> mem \<Rightarrow> ptiter \<Rightarrow> mem option" and v flags m it m'
  assume IH: "\<And>v flags m it m'. mt v flags m it = Some m' \<Longrightarrow> only_page v m m'"
    and e: "(if pt_active it then let m1 = mark v (pt_pa m it) flags m in Option.bind (pt_next m1 it) (mt v flags m1)
      else Some m) = Some m'"
  show "only_page v m m'" using e by (auto simp: Let_def split: if_splits bind_splits dest!: IH)
qed

lemma mark_user_only: "mark_user v flags m it = Some m' \<Longrightarrow> only_page v m m'"
proof (rule mark_user.raw_induct [where P = "\<lambda>v flags m it m'. only_page v m m'"])
  fix mt :: "u64 \<Rightarrow> u32 \<Rightarrow> mem \<Rightarrow> vmiter \<Rightarrow> mem option" and v flags m it m'
  assume IH: "\<And>v flags m it m'. mt v flags m it = Some m' \<Longrightarrow> only_page v m m'"
    and e: "(if vm_low it then
        if vm_user m it then
          let m1 = mark v (vm_pa m it) flags m in Option.bind (vm_next m1 it) (mt v flags m1)
        else Option.bind (vm_next_range m it) (mt v flags m)
      else Some m) = Some m'"
  show "only_page v m m'" using e by (auto simp: Let_def split: if_splits bind_splits dest!: IH)
qed

lemma mark_physical_only: "mark_physical pgs v m it = Some m' \<Longrightarrow> only_page v m m'"
proof (rule mark_physical.raw_induct [where P = "\<lambda>pgs v m it m'. only_page v m m'"])
  fix mt :: "u8 list \<Rightarrow> u64 \<Rightarrow> mem \<Rightarrow> vmiter \<Rightarrow> mem option" and pgs v m it m'
  assume IH: "\<And>pgs v m it m'. mt pgs v m it = Some m' \<Longrightarrow> only_page v m m'"
    and e: "(if vm_low it then
        if vm_user m it \<and> vm_pa m it < MEMSIZE_PHYSICAL \<and> used (pgs ! page_no (vm_pa m it)) then
          let owner = (ucast ((vm_pa m it - PROC_START_ADDR) div 0x40000) :: u32);
              m1 = mark v (vm_pa m it) (f_user OR f_process (sint (owner + 1))) m
          in Option.bind (vm_next m1 it) (mt pgs v m1)
        else Option.bind (vm_next_range m it) (mt pgs v m)
      else Some m) = Some m'"
  show "only_page v m m'" using e by (auto simp: Let_def split: if_splits bind_splits dest!: IH)
qed

lemma mark_procs_only: "mark_procs k v pids found m = Some (b, m') \<Longrightarrow> only_page v m m'"
proof (induction pids arbitrary: found m)
  case (Cons pid pids)
  have one: "only_page v m m1" if "mark_proc k v pid m = Some m1" for m1
    using that by (auto simp: mark_proc_def Let_def split: bind_splits dest!: mark_tables_only mark_user_only)
  show ?case
  proof (cases "visible_proc k pid")
    case True
    then obtain m1 where m1: "mark_proc k v pid m = Some m1" "mark_procs k v pids True m1 = Some (b, m')"
      using Cons.prems by (auto split: bind_splits)
    then show ?thesis using one [OF m1(1)] Cons.IH [OF m1(2)] by simp
  qed (use Cons in simp)
qed simp

lemma refresh_map_only:
  assumes "refresh_map k v m = Some m'"
  shows "only_page v m m'"
proof -
  have "only_page v m (mem_fill m v 0 4096)" by (simp add: mem_fill_def)
  then show ?thesis
    using assms
    by (auto simp: refresh_map_def Let_def split: bind_splits if_splits dest!: mark_tables_only mark_procs_only mark_physical_only)
qed

section \<open>The viewer keeps the invariant\<close>

lemma kinv_viewer:
  assumes inv: "kinv k" and kv: "pool_page (km k) v" and own: "\<And>i. live k i \<Longrightarrow> \<not> has_page k i v"
    and ok: "pages_ok s" and ke: "kernel_end s = kernel_end (km k)" and out: "only_page v (kphys k) (phys s)"
    and cnt: "mu_v k = v \<and> pages s = pages (km k)
      \<or> mu_v k = 0 \<and> (\<forall>n<512. pages s ! n = pages (km k) ! n + (if page_at n = v then 1 else 0))"
  shows "kinv (k\<lparr>mu_v := v, km := s\<rparr>)"
    and "\<And>i p x. live k i \<Longrightarrow> has_page k i p \<Longrightarrow> in_rng p 4096 x \<Longrightarrow> phys s x = kphys k x"
    and "\<And>i w. live k i \<Longrightarrow> mapping (phys s) (space k i) w = mapping (kphys k) (space k i) w"
proof -
  let ?K = "kernel_pagetable k" and ?k = "k\<lparr>mu_v := v, km := s\<rparr>"
  note D = kinvD [OF inv]
  have va: "page_aligned v" using kv by (simp add: pool_page_def)
  have K: "page_aligned ?K" using D(3) by (simp add: kernel_space_ok_def)
  have kp: "pool_page s p = pool_page (km k) p" for p by (simp add: pool_page_def ke)
  have oth: "phys s x = kphys k x" if "live k i" "has_page k i p" "in_rng p 4096 x" for i p x
  proof -
    have "p \<noteq> v" "page_aligned p" using own [OF that(1)] that(2) has_page_kpage [OF inv that(1,2)] by (auto simp: pool_page_def)
    then show ?thesis using pages_disjoint [OF _ va _ that(3)] out by blast
  qed
  have kK: "keeps_tables (kphys k) (phys s) ?K"
  proof (rule kernel_keeps [OF inv])
    fix x assume "\<And>p. pool_page (km k) p \<Longrightarrow> \<not> in_rng p 4096 x"
    then show "phys s x = kphys k x" using out kv by blast
  qed
  have kt: "keeps_tables (kphys k) (phys s) (space k i)" if "live k i" for i
    by (rule has_page_keeps) (rule oth [OF that])
  have at: "page_at (page_no v) = v" "page_no v < 512" using kpage_at [OF kv] by simp_all
  have priv: "pages s ! page_no pa = 1"
    if i: "live k i" and w: "page_aligned w" "PROC_START_ADDR \<le> w" "mapping (kphys k) (space k i) w = Some (pa, 7)" for i w pa
  proof -
    have p: "pages (km k) ! page_no pa = 1" "has_page k i pa" using space_priv [OF D(5) [OF i] w] by (simp_all add: has_page_def)
    have a: "page_at (page_no pa) = pa" "page_no pa < 512" using kpage_at [OF has_page_kpage [OF inv i p(2)]] by simp_all
    have "pa \<noteq> v" using own [OF i] p(2) by blast
    then show ?thesis using cnt p(1) a by auto
  qed
  have f: "space_ok s ?K (space k i)" "tables (phys s) (space k i) = tables (kphys k) (space k i)"
    "umap (phys s) (space k i) = umap (kphys k) (space k i)" "mapping (phys s) (space k i) w = mapping (kphys k) (space k i) w"
    "holds (phys s) (space k i) n = holds (kphys k) (space k i) n"
    if i: "live k i" for i n w
  proof -
    note g = space_frame [OF D(5) [OF i] ke kt [OF i] kK K priv [OF i]]
    show "space_ok s ?K (space k i)" by (rule g(1))
    show "tables (phys s) (space k i) = tables (kphys k) (space k i)" by (rule g(2))
    show "umap (phys s) (space k i) = umap (kphys k) (space k i)" by (rule g(3))
    show "mapping (phys s) (space k i) w = mapping (kphys k) (space k i) w" by (rule g(4))
    show "holds (phys s) (space k i) n = holds (kphys k) (space k i) n" by (rule g(5))
  qed
  show "\<And>i p x. live k i \<Longrightarrow> has_page k i p \<Longrightarrow> in_rng p 4096 x \<Longrightarrow> phys s x = kphys k x" by (rule oth)
  show "\<And>i w. live k i \<Longrightarrow> mapping (phys s) (space k i) w = mapping (kphys k) (space k i) w" by (rule f(4))
  have lv: "live ?k i = live k i" for i by (simp add: live_def)
  have hp: "has_page ?k i p = has_page k i p" if "live k i" for i p using f(2,3) [OF that] by (simp add: has_page_def)
  have "(\<Sum>i | live k i. holds (phys s) (space k i) n) = (\<Sum>i | live k i. holds (kphys k) (space k i) n)" for n
    by (rule sum.cong) (use f(5) in auto)
  then have ex: "expected ?k n + (if page_at n = mu_v k then 1 else 0) = expected k n + (if page_at n = v then 1 else 0)" for n
    by (simp add: expected_def lv)
  show "kinv ?k"
    unfolding kinv_def lv
  proof (intro conjI allI impI)
    show "kernel_space_ok (km ?k) (kernel_pagetable ?k)" using kernel_space_frame [OF D(3) ke kK] by simp
    show "p_pid (ptable ?k ! i) = int i" if "i < NPROC" for i using D(4) that by simp
    show "space_ok (km ?k) (kernel_pagetable ?k) (space ?k i)" if "live k i" for i using f(1) that by simp
    show "p \<notin> set (umap (kphys ?k) (space ?k j))" "p \<in> tables (kphys ?k) (space ?k j) \<Longrightarrow> i = j"
      if "live k i" "live k j" "p \<in> tables (kphys ?k) (space ?k i)" for i j p
      using D(6,7) [of i j p] f(2,3) that by simp_all
    show "unat (pages (km ?k) ! n) = expected ?k n" if n: "n < 512" "pool_page (km ?k) (page_at n)" for n
    proof -
      have kn: "pool_page (km k) (page_at n)" using n(2) kp by simp
      have c: "unat (pages (km k) ! n) = expected k n" "unat (pages (km k) ! n) \<le> 17"
        using D(8) [OF n(1) kn] count_le [OF inv n(1) kn] by simp_all
      have p0: "page_at n \<noteq> 0" using kpage_ram [OF kn] by (simp add: ram_page_def)
      show ?thesis
      proof (cases "mu_v k = v")
        case True
        then have "pages s = pages (km k)" using cnt kv kpage_ram [of "km k" 0] by (auto simp: ram_page_def)
        then show ?thesis using c ex [of n] True by simp
      next
        case False
        then have "mu_v k = 0" "pages s ! n = pages (km k) ! n + (if page_at n = v then 1 else 0)" using cnt n(1) by auto
        then show ?thesis using c ex [of n] p0 by (auto simp: unat_word_ariths)
      qed
    qed
    show "pool_page (km ?k) (mu_v ?k)" using kv kp by simp
    show "\<not> has_page ?k i (mu_v ?k)" if "live k i" for i using hp [OF that] own [OF that] by simp
    show "\<not> live k 0" using live_pos [OF inv] by auto
  qed (use ok D(2) in simp_all)
qed

section \<open>What a step leaves alone\<close>

text \<open>
  Process \<open>j\<close> does not notice the step: its descriptor with its registers is the same, every
  address is mapped as before, and every byte of its pages and page tables is the same.
\<close>

definition undisturbed :: "kernel \<Rightarrow> kernel \<Rightarrow> nat \<Rightarrow> bool" where
  "undisturbed k k' j \<longleftrightarrow> ptable k' ! j = ptable k ! j \<and> (\<forall>p. has_page k' j p = has_page k j p)
     \<and> (\<forall>w. mapping (kphys k') (space k j) w = mapping (kphys k) (space k j) w)
     \<and> (\<forall>p x. has_page k j p \<longrightarrow> in_rng p 4096 x \<longrightarrow> kphys k' x = kphys k x)"

lemma undisturbedI:
  assumes inv: "kinv k" and j: "live k j" and slot: "ptable k' ! j = ptable k ! j"
    and oth: "\<And>p x. has_page k j p \<Longrightarrow> in_rng p 4096 x \<Longrightarrow> kphys k' x = kphys k x"
  shows "undisturbed k k' j"
proof -
  have kt: "keeps_tables (kphys k) (kphys k') (space k j)" by (rule has_page_keeps) (rule oth)
  note al = space_aligned [OF kinvD(5) [OF inv j]]
  show ?thesis
    using slot oth mapping_frame [OF al kt] tables_frame [OF al kt] mapped_pages_frame [OF al kt]
    unfolding undisturbed_def has_page_def by simp
qed

lemma undisturbed_refl: "undisturbed k k j" by (simp add: undisturbed_def)

lemma undisturbed_trans: "undisturbed k k1 j \<Longrightarrow> undisturbed k1 k2 j \<Longrightarrow> undisturbed k k2 j"
  by (simp add: undisturbed_def)

lemma undisturbed_live: "undisturbed k k' j \<Longrightarrow> live k' j = live k j"
  by (simp add: undisturbed_def live_def)

text \<open>Fields that neither the invariant nor a process depends on.\<close>

lemma kinv_fields [simp]:
  "kinv (k\<lparr>con := a\<rparr>) = kinv k" "kinv (k\<lparr>kbd := b\<rparr>) = kinv k" "kinv (k\<lparr>ticks := c\<rparr>) = kinv k"
  "kinv (k\<lparr>last_ticks := d\<rparr>) = kinv k" "kinv (k\<lparr>showing := e\<rparr>) = kinv k" "kinv (k\<lparr>current := f\<rparr>) = kinv k"
  by (simp_all add: kinv_def live_def has_page_def expected_def)

lemma undisturbed_fields [simp]:
  "undisturbed k (k'\<lparr>con := a\<rparr>) j = undisturbed k k' j" "undisturbed k (k'\<lparr>kbd := b\<rparr>) j = undisturbed k k' j"
  "undisturbed k (k'\<lparr>ticks := c\<rparr>) j = undisturbed k k' j" "undisturbed k (k'\<lparr>last_ticks := d\<rparr>) j = undisturbed k k' j"
  "undisturbed k (k'\<lparr>showing := e\<rparr>) j = undisturbed k k' j" "undisturbed k (k'\<lparr>current := f\<rparr>) j = undisturbed k k' j"
  by (simp_all add: undisturbed_def has_page_def)

lemma has_page_fields [simp]:
  "has_page (k\<lparr>last_ticks := d\<rparr>) j = has_page k j" "has_page (k\<lparr>showing := e\<rparr>) j = has_page k j"
  by (simp_all add: has_page_def fun_eq_iff)

lemma live_fields [simp]:
  "live (k\<lparr>con := a\<rparr>) j = live k j" "live (k\<lparr>kbd := b\<rparr>) j = live k j" "live (k\<lparr>ticks := c\<rparr>) j = live k j"
  "live (k\<lparr>last_ticks := d\<rparr>) j = live k j" "live (k\<lparr>showing := e\<rparr>) j = live k j" "live (k\<lparr>current := f\<rparr>) j = live k j"
  "live (k\<lparr>km := s\<rparr>) j = live k j" "live (k\<lparr>mu_v := v\<rparr>) j = live k j"
  by (simp_all add: live_def)

text \<open>Steps that touch no process: the memory viewer and the keyboard.\<close>

definition quiet :: "kernel \<Rightarrow> kernel \<Rightarrow> bool" where
  "quiet k k' \<longleftrightarrow> kinv k' \<and> ptable k' = ptable k \<and> current k' = current k \<and> (\<forall>j. live k j \<longrightarrow> undisturbed k k' j)"

lemma quiet_refl: "kinv k \<Longrightarrow> quiet k k" by (simp add: quiet_def undisturbed_refl)

lemma quiet_trans: "quiet k k1 \<Longrightarrow> quiet k1 k2 \<Longrightarrow> quiet k k2"
  unfolding quiet_def using undisturbed_trans undisturbed_live by metis

lemma refresh_quiet:
  assumes inv: "kinv k" and r: "refresh k = Some k'"
  shows "quiet k k'"
proof -
  obtain v s where v: "(if mu_v k = 0 then kalloc PAGESIZE (km k) else (mu_v k, km k)) = (v, s)" by fastforce
  have nz: "v \<noteq> 0" using r v by (auto simp: refresh_def split: if_splits)
  obtain m where m: "refresh_map (k\<lparr>mu_v := v, km := s\<rparr>) v (phys s) = Some m"
    and k': "k' = k\<lparr>mu_v := v, km := s\<lparr>phys := m\<rparr>\<rparr>"
    using r v nz by (auto simp: refresh_def)
  let ?s = "s\<lparr>phys := m\<rparr>"
  have own0: "only_page v (phys s) m" by (rule refresh_map_only [OF m])
  have ok: "pages_ok (km k)" by (rule kinvD(1) [OF inv])
  have "pool_page (km k) v \<and> (\<forall>i. live k i \<longrightarrow> \<not> has_page k i v) \<and> pages_ok ?s \<and> kernel_end ?s = kernel_end (km k)
    \<and> only_page v (kphys k) (phys ?s) \<and> (mu_v k = v \<and> pages ?s = pages (km k)
      \<or> mu_v k = 0 \<and> (\<forall>n<512. pages ?s ! n = pages (km k) ! n + (if page_at n = v then 1 else 0)))"
  proof (cases "mu_v k = 0")
    case True
    then have al: "kalloc PAGESIZE (km k) = (v, s)" using v by simp
    have fp: "free_page (km k) v" by (rule kpa.alloc_avail [OF ok al nz])
    have "\<not> has_page k i v" if "live k i" for i using has_page_used [OF inv that] fp by (auto simp: free_page_def)
    moreover have "only_page v (kphys k) m" using own0 kpa.alloc_frame [OF ok al] by simp
    moreover have "kernel_end s = kernel_end (km k)" using took_kalloc [OF ok] al by (simp add: took_pages_def)
    ultimately show ?thesis
      using True fp free_kpage kpa.alloc_keeps [OF ok al] kalloc_counts [OF ok al nz] by simp
  next
    case False
    then have "v = mu_v k" "s = km k" using v by simp_all
    then show ?thesis using False kinvD(9,10) [OF inv] own0 ok by simp
  qed
  note c = this
  have kv: "kinv k'" and oth: "\<And>i p x. live k i \<Longrightarrow> has_page k i p \<Longrightarrow> in_rng p 4096 x \<Longrightarrow> phys ?s x = kphys k x"
    using kinv_viewer(1,2) [OF inv, of v ?s] c unfolding k' by blast+
  have "undisturbed k k' j" if j: "live k j" for j
    by (rule undisturbedI [OF inv j]) (use oth [OF j] in \<open>simp_all add: k'\<close>)
  then show ?thesis using kv by (simp add: quiet_def k')
qed

lemma memviewer_quiet: "kinv k \<Longrightarrow> console_memviewer k vmp = Some k' \<Longrightarrow> quiet k k'"
  using refresh_quiet [of k]
  by (fastforce simp: console_memviewer_def quiet_def split: if_splits bind_splits option.splits)

lemma memshow_quiet:
  assumes "kinv k" "memshow k = Some k'"
  shows "quiet k k'"
proof -
  define k1 where "k1 = (if last_ticks k = 0 \<or> HZ div 2 \<le> ticks k - ucast (last_ticks k)
    then k\<lparr>last_ticks := ucast (ticks k), showing := (showing k + 1) mod NPROC\<rparr> else k)"
  obtain s p where fs: "find_shown k1 (showing k1) NPROC = (s, p)" by fastforce
  have m0: "console_memviewer (k1\<lparr>showing := s\<rparr>) p = Some k'"
    using assms(2) fs unfolding memshow_def Let_def k1_def [symmetric] by simp
  define t where "t = last_ticks k1"
  have "k1\<lparr>showing := s\<rparr> = k\<lparr>last_ticks := t, showing := s\<rparr>" by (simp add: k1_def t_def)
  then have m: "console_memviewer (k\<lparr>last_ticks := t, showing := s\<rparr>) p = Some k'" using m0 by simp
  have "quiet (k\<lparr>last_ticks := t, showing := s\<rparr>) k'" by (rule memviewer_quiet [OF _ m]) (use assms(1) in simp)
  then show ?thesis by (simp add: quiet_def undisturbed_def)
qed

lemma poll_quiet: "kinv k \<Longrightarrow> poll_keyboard k = Inr k' \<Longrightarrow> quiet k k'"
  by (auto simp: poll_keyboard_def quiet_def undisturbed_refl split: prod.splits key_action.splits)

section \<open>Scheduling\<close>

definition after :: "kresult \<Rightarrow> (kernel \<Rightarrow> bool) \<Rightarrow> bool" where
  "after r Q \<longleftrightarrow> (case r of Run k \<Rightarrow> Q k | Return _ k \<Rightarrow> Q k | _ \<Rightarrow> True)"

lemma after_simps [simp]:
  "after (Run k) Q = Q k" "after (Return v k) Q = Q k" "after (SoftReboot s) Q" "after PowerOff Q" "after Panic Q"
  by (simp_all add: after_def)

lemma after_mono: "after r P \<Longrightarrow> (\<And>k. P k \<Longrightarrow> Q k) \<Longrightarrow> after r Q"
  by (cases r) simp_all

text \<open>The state in which a process runs.\<close>

definition running :: "kernel \<Rightarrow> bool" where
  "running k \<longleftrightarrow> kinv k \<and> live k (current k)"

definition settled :: "kernel \<Rightarrow> kernel \<Rightarrow> bool" where
  "settled k k' \<longleftrightarrow> running k' \<and> ptable k' = ptable k \<and> (\<forall>j. live k j \<longrightarrow> undisturbed k k' j)"

lemma quiet_settled: "quiet k k1 \<Longrightarrow> settled k1 k' \<Longrightarrow> settled k k'"
  unfolding quiet_def settled_def using undisturbed_trans undisturbed_live by metis

lemma schedule_loop_settled: "schedule_loop pid spins k = Some r \<Longrightarrow> kinv k \<Longrightarrow> after r (settled k)"
proof -
  have "kinv k \<longrightarrow> after r (settled k)" if "schedule_loop pid spins k = Some r" for pid spins k r
  proof (rule schedule_loop.raw_induct [OF _ that, where P = "\<lambda>pid spins k r. kinv k \<longrightarrow> after r (settled k)"], intro impI)
    fix sl :: "nat \<Rightarrow> u32 \<Rightarrow> kernel \<Rightarrow> kresult option" and pid spins k r
    let ?p = "(pid + 1) mod NPROC"
    assume IH: "\<And>pid spins k r. sl pid spins k = Some r \<Longrightarrow> kinv k \<longrightarrow> after r (settled k)"
      and e: "(let pid1 = (pid + 1) mod NPROC
        in if p_state (ptable k ! pid1) = P_RUNNABLE then Some (run pid1 k)
           else case poll_keyboard k of Inl r \<Rightarrow> Some r
             | Inr k1 \<Rightarrow> if spins mod 4096 = 0 then (case memshow k1 of None \<Rightarrow> Some Panic | Some k2 \<Rightarrow> sl pid1 (spins + 1) k2)
                 else sl pid1 (spins + 1) k1) = Some r"
      and inv: "kinv k"
    show "after r (settled k)"
    proof (cases "p_state (ptable k ! ?p) = P_RUNNABLE")
      case True
      then have "r = run ?p k" using e by simp
      then show ?thesis using True inv by (simp add: run_def settled_def running_def undisturbed_refl) (simp add: live_def)
    next
      case False
      show ?thesis
      proof (cases "poll_keyboard k")
        case (Inl r')
        then have "r = r'" using e False by simp
        then show ?thesis using Inl by (auto simp: poll_keyboard_def split: prod.splits key_action.splits)
      next
        case (Inr k1)
        have q: "quiet k k1" by (rule poll_quiet [OF inv Inr])
        then have inv1: "kinv k1" by (simp add: quiet_def)
        have "r = Panic \<or> (\<exists>k2. quiet k1 k2 \<and> sl ?p (spins + 1) k2 = Some r)"
          using e False Inr quiet_refl [OF inv1] memshow_quiet [OF inv1] by (auto simp: Let_def split: if_splits option.splits)
        then show ?thesis
        proof
          assume "\<exists>k2. quiet k1 k2 \<and> sl ?p (spins + 1) k2 = Some r"
          then obtain k2 where k2: "quiet k1 k2" "sl ?p (spins + 1) k2 = Some r" by blast
          then have "after r (settled k2)" using IH by (simp add: quiet_def)
          then show ?thesis by (rule after_mono) (rule quiet_settled [OF quiet_trans [OF q k2(1)]])
        qed simp
      qed
    qed
  qed
  then show "schedule_loop pid spins k = Some r \<Longrightarrow> kinv k \<Longrightarrow> after r (settled k)" by blast
qed

lemma schedule_settled: "schedule k = Some r \<Longrightarrow> kinv k \<Longrightarrow> after r (settled k)"
  unfolding schedule_def by (rule schedule_loop_settled)

section \<open>Process descriptors\<close>

text \<open>A change of the registers, or of the state short of freeing the slot.\<close>

lemma upd_proc_kinv:
  assumes inv: "kinv k" and i: "live k i"
    and f: "p_pagetable (f (ptable k ! i)) = space k i" "p_pid (f (ptable k ! i)) = p_pid (ptable k ! i)" "p_state (f (ptable k ! i)) \<noteq> P_FREE"
  shows "kinv (upd_proc i f k)" "live (upd_proc i f k) j = live k j" "\<And>j. j \<noteq> i \<Longrightarrow> undisturbed k (upd_proc i f k) j"
    and "\<And>p. has_page (upd_proc i f k) i p = has_page k i p"
proof -
  have i16: "i < 16" and len: "length (ptable k) = 16" using i kinvD(2) [OF inv] by (simp_all add: live_def)
  have lv: "live (upd_proc i f k) j = live k j" for j
    using f(3) i i16 len by (cases "j = i") (simp_all add: live_def)
  show "live (upd_proc i f k) j = live k j" by (rule lv)
  show "kinv (upd_proc i f k)"
  proof (rule kinv_same [OF inv])
    show "\<forall>j. live (upd_proc i f k) j = live k j" using lv by blast
    show "\<forall>j. live k j \<longrightarrow> space (upd_proc i f k) j = space k j" using f(1) i16 len by (auto simp: nth_list_update)
    show "\<forall>j<16. p_pid (ptable (upd_proc i f k) ! j) = p_pid (ptable k ! j)" using f(2) i16 len by (auto simp: nth_list_update)
  qed (use kinvD(1) [OF inv] len in \<open>simp_all add: unchanged_def\<close>)
  show "\<And>j. j \<noteq> i \<Longrightarrow> undisturbed k (upd_proc i f k) j"
    by (simp add: undisturbed_def has_page_def)
  show "\<And>p. has_page (upd_proc i f k) i p = has_page k i p" using f(1) i16 len by (simp add: has_page_def)
qed

text \<open>What a handler does before it looks at the request.\<close>

definition entered :: "kernel \<Rightarrow> regstate \<Rightarrow> kernel \<Rightarrow> bool" where
  "entered k regs k1 \<longleftrightarrow> running k1 \<and> current k1 = current k \<and> ptable k1 = (ptable k)[current k := (ptable k ! current k)\<lparr>p_regs := regs\<rparr>]
     \<and> (\<forall>j. live k1 j = live k j) \<and> (\<forall>j. live k j \<longrightarrow> j \<noteq> current k \<longrightarrow> undisturbed k k1 j)
     \<and> (\<forall>w. mapping (kphys k1) (space k (current k)) w = mapping (kphys k) (space k (current k)) w)"

lemma enter_kernel_entered:
  assumes run: "running k" and e: "enter_kernel show regs k = Inr k1"
  shows "entered k regs k1"
proof -
  let ?c = "current k" and ?k = "upd_proc (current k) (\<lambda>p. p\<lparr>p_regs := regs\<rparr>) k"
  have inv: "kinv k" and c: "live k ?c" using run by (simp_all add: running_def)
  have c16: "?c < 16" and len: "length (ptable k) = 16" using c kinvD(2) [OF inv] by (simp_all add: live_def)
  have st: "p_state (ptable k ! ?c) \<noteq> P_FREE" using c by (simp add: live_def)
  note u = upd_proc_kinv [OF inv c, of "\<lambda>p. p\<lparr>p_regs := regs\<rparr>", simplified, OF st [simplified]]
  obtain k2 where k2: "quiet ?k k2" "poll_keyboard k2 = Inr k1"
    using e u(1) quiet_refl memshow_quiet by (fastforce simp: enter_kernel_def Let_def split: if_splits option.splits)
  have q: "quiet ?k k1" using quiet_trans [OF k2(1) poll_quiet [OF _ k2(2)]] k2(1) by (simp add: quiet_def)
  have lv: "live k1 j = live k j" for j using q u(2) [of j] by (simp add: quiet_def live_def)
  have "undisturbed ?k k1 ?c" using q u(2) c by (simp add: quiet_def)
  then have "mapping (kphys k1) (space k ?c) w = mapping (kphys k) (space k ?c) w" for w
    using c16 len by (simp add: undisturbed_def)
  moreover have "undisturbed k k1 j" if "live k j" "j \<noteq> ?c" for j
    using undisturbed_trans [OF u(3) [OF that(2)]] q u(2) that(1) by (simp add: quiet_def)
  ultimately show ?thesis using q lv c by (simp add: entered_def running_def quiet_def)
qed

section \<open>System calls\<close>

text \<open>
  Two calls that \<open>kernel.cc\<close> accepts and mishandles: \<open>page_alloc\<close> for an address that is mapped
  already (the page behind it is never released) and \<open>kill\<close> of a process that is no longer there
  (its slot still points to the page table that was freed).
\<close>

definition remaps :: "regstate \<Rightarrow> kernel \<Rightarrow> bool" where
  "remaps regs k \<longleftrightarrow> reg_rax regs = SYSCALL_PAGE_ALLOC \<and> valid_page_addr (reg_rdi regs)
     \<and> mapping (kphys k) (space k (current k)) (reg_rdi regs) \<noteq> None"

definition kills_dead :: "regstate \<Rightarrow> kernel \<Rightarrow> bool" where
  "kills_dead regs k \<longleftrightarrow> reg_rax regs = SYSCALL_KILL
     \<and> (let pid = sint (ucast (reg_rdi regs) :: u32)
        in pid_ok pid \<and> p_state (ptable k ! nat pid) = P_FREE \<and> p_pagetable (ptable k ! nat pid) \<noteq> 0)"

text \<open>
  What every step of the current process does: every other process is undisturbed or gone, and
  the kernel is ready again.
\<close>

definition spared :: "kernel \<Rightarrow> kernel \<Rightarrow> bool" where
  "spared k k' \<longleftrightarrow> (\<forall>j. live k j \<longrightarrow> j \<noteq> current k \<longrightarrow> live k' j \<longrightarrow> undisturbed k k' j)"

definition stepped :: "kernel \<Rightarrow> kernel \<Rightarrow> bool" where
  "stepped k k' \<longleftrightarrow> running k' \<and> spared k k'"

lemma entered_spared:
  assumes "entered k regs k1" "\<And>j. live k1 j \<Longrightarrow> j \<noteq> current k1 \<Longrightarrow> live k' j \<Longrightarrow> undisturbed k1 k' j"
  shows "spared k k'"
  using assms undisturbed_trans [of k k1] unfolding spared_def entered_def by metis

lemma entered_stepped:
  assumes "entered k regs k1" "running k'" "\<And>j. live k1 j \<Longrightarrow> j \<noteq> current k1 \<Longrightarrow> live k' j \<Longrightarrow> undisturbed k1 k' j"
  shows "stepped k k'"
  using entered_spared [OF assms(1,3)] assms(2) by (simp add: stepped_def)

text \<open>The rest of a handler that changes the state and then schedules.\<close>

lemma scheduled_stepped:
  assumes en: "entered k regs k1" and s: "schedule k2 = Some r" and k2: "kinv k2"
    and und: "\<And>j. live k1 j \<Longrightarrow> j \<noteq> current k1 \<Longrightarrow> live k2 j \<Longrightarrow> undisturbed k1 k2 j"
  shows "after r (stepped k)"
proof (rule after_mono [OF schedule_settled [OF s k2]])
  fix k' assume st: "settled k2 k'"
  show "stepped k k'"
  proof (rule entered_stepped [OF en])
    show "running k'" using st by (simp add: settled_def)
    fix j assume j: "live k1 j" "j \<noteq> current k1" "live k' j"
    then have l2: "live k2 j" using st by (simp add: settled_def live_def)
    have "undisturbed k2 k' j" using st l2 by (simp add: settled_def)
    then show "undisturbed k1 k' j" using undisturbed_trans [OF und [OF j(1,2) l2]] by blast
  qed
qed

lemma exit_stepped:
  assumes en: "entered k regs k1" and i: "live k1 i" and s: "then_schedule (exit_proc (int i) k1) = Some r"
  shows "after r (stepped k)"
proof -
  have inv: "kinv k1" using en by (simp add: entered_def running_def)
  obtain s' where call: "exit_proc (int i) k1 = Some (freed_slot (int i) k1 s')" and k2: "kinv (freed_slot (int i) k1 s')"
    and oth: "\<And>j p x. live k1 j \<Longrightarrow> j \<noteq> i \<Longrightarrow> has_page k1 j p \<Longrightarrow> in_rng p 4096 x \<Longrightarrow> phys s' x = kphys k1 x"
    using kinv_exit [OF inv i] by blast
  have i16: "i < 16" and len: "length (ptable k1) = 16" using i kinvD(2) [OF inv] by (simp_all add: live_def)
  have "schedule (freed_slot (int i) k1 s') = Some r" using s by (simp add: then_schedule_def call)
  then show ?thesis
  proof (rule scheduled_stepped [OF en _ k2])
    fix j assume j: "live k1 j" "live (freed_slot (int i) k1 s') j"
    then have "j \<noteq> i" using i16 len by (auto simp: live_def)
    then show "undisturbed k1 (freed_slot (int i) k1 s') j"
      by (intro undisturbedI [OF inv j(1)]) (use oth [OF j(1)] in simp_all)
  qed
qed

lemma after_return: "after (return_int r) Q \<longleftrightarrow> (\<forall>i k. r = Some (i, k) \<longrightarrow> Q k)"
  by (cases r) (auto simp: return_int_def or_panic_def)

lemma syscall_stepped:
  assumes run: "running k" and pr: "\<not> kills_dead regs k" and sc: "syscall regs k = Some r"
  shows "after r (\<lambda>k'. spared k k' \<and> (\<not> remaps regs k \<longrightarrow> running k'))"
proof (cases "enter_kernel True regs k")
  case (Inl r')
  then have "r = r'" using sc by (simp add: syscall_def)
  then show ?thesis using Inl
    by (auto simp: enter_kernel_def Let_def poll_keyboard_def split: option.splits prod.splits key_action.splits)
next
  case (Inr k1)
  have en: "entered k regs k1" by (rule enter_kernel_entered [OF run Inr])
  have inv: "kinv k1" and c: "live k1 (current k1)" and cur: "current k1 = current k" and run1: "running k1"
    using en unfolding entered_def running_def by blast+
  have weaken: "after r (stepped k) \<Longrightarrow> ?thesis" by (erule after_mono) (simp add: stepped_def)
  have self: "stepped k k1" by (rule entered_stepped [OF en run1 undisturbed_refl])
  have c16: "current k1 < 16" using c by (simp add: live_def)
  have pid: "p_pid (ptable k1 ! current k1) = int (current k1)" using kinvD(4) [OF inv] c16 by blast
  have lv: "live k1 j = live k j" for j using en by (simp add: entered_def)
  have i16: "current k < 16" and len: "length (ptable k) = 16"
    using c cur kinvD(2) [of k] run by (simp_all add: live_def running_def)
  have sp: "space k1 (current k1) = space k (current k)" using en i16 len by (simp add: entered_def)
  let ?n = "reg_rax regs" and ?a = "reg_rdi regs"
  have cases: "r = Panic \<or> ?n = SYSCALL_GETPID \<and> r = Return (word_of_int (p_pid (ptable k1 ! current k1))) k1
    \<or> ?n = SYSCALL_YIELD \<and> schedule (upd_proc (current k1) (\<lambda>p. p\<lparr>p_regs := (p_regs p)\<lparr>reg_rax := 0\<rparr>\<rparr>) k1) = Some r
    \<or> ?n = SYSCALL_PAGE_ALLOC \<and> r = return_int (syscall_page_alloc ?a k1) \<or> ?n = SYSCALL_FORK \<and> r = return_int (sys_fork k1)
    \<or> ?n = SYSCALL_EXIT \<and> then_schedule (sys_exit k1) = Some r \<or> ?n = SYSCALL_KILL \<and> then_schedule (sys_kill ?a k1) = Some r"
    using sc by (auto simp: syscall_def Inr Let_def split: if_splits)
  consider (none) "r = Panic" | (self) "r = Return (word_of_int (p_pid (ptable k1 ! current k1))) k1"
    | (yield) "schedule (upd_proc (current k1) (\<lambda>p. p\<lparr>p_regs := (p_regs p)\<lparr>reg_rax := 0\<rparr>\<rparr>) k1) = Some r"
    | (alloc) "?n = SYSCALL_PAGE_ALLOC" "r = return_int (syscall_page_alloc ?a k1)" | (fork) "r = return_int (sys_fork k1)"
    | (exit) "then_schedule (sys_exit k1) = Some r" | (kill) "?n = SYSCALL_KILL" "then_schedule (sys_kill ?a k1) = Some r"
    using cases by blast
  then show ?thesis
  proof cases
    case yield
    have st: "p_state (ptable k1 ! current k1) \<noteq> P_FREE" using c by (simp add: live_def)
    note u = upd_proc_kinv [OF inv c, of "\<lambda>p. p\<lparr>p_regs := (p_regs p)\<lparr>reg_rax := 0\<rparr>\<rparr>", simplified, OF st [simplified]]
    show ?thesis by (rule weaken) (rule scheduled_stepped [OF en yield u(1) u(3)])
  next
    case alloc
    have same: "mapping (kphys k1) (space k1 (current k1)) ?a = mapping (kphys k) (space k (current k)) ?a"
      using en sp unfolding entered_def by metis
    show ?thesis
      unfolding alloc(2) after_return
    proof (intro allI impI)
      fix i k' assume a: "syscall_page_alloc ?a k1 = Some (i, k')"
      note g = kinv_page_alloc [OF inv c a]
      have "running k'" if "\<not> remaps regs k"
      proof -
        have "kinv k'" by (rule g(1)) (use that alloc(1) same in \<open>simp add: remaps_def del: not_None_eq\<close>)
        then show ?thesis using g(2,3) c by (simp add: running_def live_def)
      qed
      moreover have "spared k k'"
        by (rule entered_spared [OF en]) (rule undisturbedI [OF inv], use g(2,6) in simp_all)
      ultimately show "spared k k' \<and> (\<not> remaps regs k \<longrightarrow> running k')" by blast
    qed
  next
    case fork
    show ?thesis
    proof (rule weaken, unfold fork after_return, intro allI impI)
      fix i k' assume a: "sys_fork k1 = Some (i, k')"
      note g = kinv_fork [OF inv c a]
      have und: "undisturbed k1 k' j" if j: "live k1 j" for j
      proof (rule undisturbedI [OF inv j g(3) [OF j]])
        fix p x assume p: "has_page k1 j p" "in_rng p 4096 x"
        have "\<not> free_page (km k1) p" using has_page_used [OF inv j p(1)] by (simp add: free_page_def)
        moreover have "page_aligned p" using has_page_kpage [OF inv j p(1)] by (simp add: pool_page_def)
        ultimately have "\<not> in_rng q 4096 x" if "free_page (km k1) q" for q
          using pages_disjoint [OF _ _ _ p(2), of q] free_page_range [OF that] that by blast
        then show "kphys k' x = kphys k1 x" using g(2) by (simp add: unchanged_def)
      qed
      have "running k'" using g(1,5) und [OF c] undisturbed_live c by (simp add: running_def)
      then show "stepped k k'" by (rule entered_stepped [OF en]) (rule und)
    qed
  next
    case exit
    then show ?thesis using exit_stepped [OF en c] pid by (intro weaken) (simp add: sys_exit_def)
  next
    case kill
    let ?p = "sint (ucast ?a :: u32)"
    show ?thesis
    proof (cases "pid_ok ?p \<and> live k1 (nat ?p)")
      case True
      then show ?thesis using exit_stepped [OF en, of "nat ?p"] kill(2) by (intro weaken) (simp add: sys_kill_def)
    next
      case False
      have "sys_kill ?a k1 = Some k1"
      proof (cases "pid_ok ?p")
        case ok: True
        then have p: "nat ?p < 16" by (simp add: nat_less_iff)
        have "\<not> live k1 (nat ?p)" using False ok by simp
        then have st: "p_state (ptable k1 ! nat ?p) = P_FREE" and ne: "nat ?p \<noteq> current k"
          using p c cur by (auto simp: live_def)
        have same: "ptable k1 ! nat ?p = ptable k ! nat ?p" using en ne unfolding entered_def by simp
        have pt0: "p_pagetable (ptable k1 ! nat ?p) = 0"
          using pr kill(1) ok st unfolding kills_dead_def Let_def same by simp
        have "(ptable k1 ! nat ?p)\<lparr>p_state := P_FREE\<rparr> = ptable k1 ! nat ?p" using st by (cases "ptable k1 ! nat ?p") simp
        then have "upd_proc (nat ?p) (\<lambda>p. p\<lparr>p_state := P_FREE\<rparr>) k1 = k1" by (simp add: list_update_id)
        then show ?thesis using ok pt0 by (simp add: sys_kill_def exit_proc_def Let_def)
      qed (simp add: sys_kill_def exit_proc_def)
      then have "schedule k1 = Some r" using kill(2) by (simp add: then_schedule_def)
      then show ?thesis by (intro weaken) (rule scheduled_stepped [OF en _ inv undisturbed_refl])
    qed
  qed (use self weaken in simp_all)
qed

section \<open>Exceptions\<close>

lemma exception_stepped:
  assumes run: "running k" and ex: "exception cr2 regs k = Some r"
  shows "after r (stepped k)"
proof (cases "enter_kernel (reg_intno regs \<noteq> INT_PF \<or> reg_errcode regs AND PFERR_USER \<noteq> 0) regs k")
  case (Inl r')
  then have "r = r'" using ex by (simp add: exception_def)
  then show ?thesis using Inl
    by (auto simp: enter_kernel_def Let_def poll_keyboard_def split: option.splits prod.splits key_action.splits if_splits)
next
  case (Inr k1)
  have en: "entered k regs k1" by (rule enter_kernel_entered [OF run Inr])
  have inv: "kinv k1" and c: "live k1 (current k1)" using en unfolding entered_def running_def by blast+
  have cases: "r = Panic \<or> schedule (k1\<lparr>ticks := ticks k1 + 1\<rparr>) = Some r
    \<or> (\<exists>a. schedule (upd_proc (current k1) (\<lambda>p. p\<lparr>p_state := P_BROKEN\<rparr>) (k1\<lparr>con := a\<rparr>)) = Some r)"
    using ex unfolding exception_def Inr by (auto split: if_splits option.splits)
  consider (none) "r = Panic" | (timer) "schedule (k1\<lparr>ticks := ticks k1 + 1\<rparr>) = Some r"
    | (fault) a where "schedule (upd_proc (current k1) (\<lambda>p. p\<lparr>p_state := P_BROKEN\<rparr>) (k1\<lparr>con := a\<rparr>)) = Some r"
    using cases by blast
  then show ?thesis
  proof cases
    case timer
    show ?thesis by (rule scheduled_stepped [OF en timer]) (use inv undisturbed_refl in simp_all)
  next
    case (fault a)
    have i: "kinv (k1\<lparr>con := a\<rparr>)" "live (k1\<lparr>con := a\<rparr>) (current k1)" using inv c by simp_all
    note u = upd_proc_kinv [OF i, of "\<lambda>p. p\<lparr>p_state := P_BROKEN\<rparr>"]
    show ?thesis
    proof (rule scheduled_stepped [OF en fault])
      show "kinv (upd_proc (current k1) (\<lambda>p. p\<lparr>p_state := P_BROKEN\<rparr>) (k1\<lparr>con := a\<rparr>))" using u(1) by simp
      fix j assume "j \<noteq> current k1"
      then show "undisturbed k1 (upd_proc (current k1) (\<lambda>p. p\<lparr>p_state := P_BROKEN\<rparr>) (k1\<lparr>con := a\<rparr>)) j"
        by (simp add: undisturbed_def has_page_def)
    qed
  qed simp
qed

section \<open>Writes of a process\<close>

text \<open>An address is mapped to the same offset in the page that its own page address is mapped to.\<close>

lemma mapping_in_page:
  assumes sm: "small_at m pt v" and mp: "mapping m pt v = Some (pa, q)"
  obtains base where "mapping m pt (v AND NOT (mask 12)) = Some (base, q)" "in_rng base 4096 pa"
proof -
  let ?w = "v AND NOT (mask 12)"
  obtain l pe p where e: "pt_entry m pt v = (l, pe, p)" by (cases "pt_entry m pt v") auto
  have on: "pe AND PTE_P \<noteq> 0" and pa: "pa = frame_addr l pe v" and q: "q = pe AND p AND (PTE_P OR PTE_W OR PTE_U)"
    using mp e by (auto simp: mapping_def split: if_splits)
  have l0: "l = 0" using sm e on by (auto simp: small_at_def)
  have "agree 12 v ?w" by (auto simp: agree_iff bit_and_iff bit_not_iff bit_mask_iff dest: bit_imp_le_length)
  then have e': "pt_entry m pt ?w = (0, pe, p)" using pt_entry_region [OF e] l0 by simp
  have pm: "pageoffmask 0 = mask 12" using pageoffmask_mask [of 0] by simp
  have "?w AND mask 12 = 0" by (intro bit_word_eqI) (simp add: bit_and_iff bit_not_iff)
  then have "frame_addr 0 pe ?w = pe AND PTE_PAMASK" by (simp only: frame_addr_def pm simp_thms if_True add_0_right)
  then have m': "mapping m pt ?w = Some (pe AND PTE_PAMASK, q)" using e' on q by (simp add: mapping_def)
  have "pa - (pe AND PTE_PAMASK) = v AND mask 12" unfolding pa l0 by (simp only: frame_addr_def pm simp_thms if_True add_diff_cancel_left')
  moreover have "v AND mask 12 < 4096"
  proof -
    have "v AND mask 12 = v mod 4096" by (simp add: take_bit_eq_mask [symmetric] take_bit_eq_mod)
    then have "unat (v AND mask 12) = unat v mod 4096" by (simp add: unat_mod)
    then show ?thesis by (simp add: word_less_nat_alt)
  qed
  ultimately show ?thesis using that [OF m'] by (simp add: in_rng_def)
qed

lemma page_floor:
  "page_aligned (v AND NOT (mask 12))" "PROC_START_ADDR \<le> v \<Longrightarrow> PROC_START_ADDR \<le> v AND NOT (mask 12)"
proof -
  let ?w = "v AND NOT (mask 12)"
  show "page_aligned ?w" by (simp add: page_aligned_iff bit_and_iff bit_not_iff bit_mask_iff)
  have "?w = push_bit 12 (drop_bit 12 v)" by (intro bit_word_eqI) (auto simp: bit_simps)
  then have "unat ?w = unat (push_bit 12 (drop_bit 12 v))" by simp
  also have "\<dots> = (unat v div 4096 * 4096) mod 2 ^ 64"
    by (simp add: push_bit_eq_mult unat_word_ariths unat_drop_bit drop_bit_eq_div mod_mult_left_eq)
  also have "\<dots> = unat v div 4096 * 4096"
  proof -
    have "unat v div 4096 * 4096 \<le> unat v" by simp
    then show ?thesis using unsigned_less [of v, where 'a = nat] by (simp add: le_less_trans)
  qed
  finally show "PROC_START_ADDR \<le> v \<Longrightarrow> PROC_START_ADDR \<le> ?w" by (simp add: word_le_nat_alt)
qed

text \<open>A byte that a process can address lies in a page that the process holds.\<close>

lemma user_byte:
  assumes inv: "kinv k" and li: "live k i" and lo: "PROC_START_ADDR \<le> v" and mp: "mapping (kphys k) (space k i) v = Some (pa, q)"
  obtains base where "mapping (kphys k) (space k i) (v AND NOT (mask 12)) = Some (base, q)" "in_rng base 4096 pa"
    "has_page k i base"
proof -
  note sp = kinvD(5) [OF inv li] and w = page_floor [of v]
  have "v < MEMSIZE_VIRTUAL" by (rule mapped_below [OF space_okD(8) [OF sp] mp])
  then obtain base where b: "mapping (kphys k) (space k i) (v AND NOT (mask 12)) = Some (base, q)" "in_rng base 4096 pa"
    using mapping_in_page [OF space_okD(3) [OF sp user_canonical] mp] by blast
  have "v AND NOT (mask 12) < MEMSIZE_VIRTUAL" by (rule mapped_below [OF space_okD(8) [OF sp] b(1)])
  then have "v AND NOT (mask 12) \<in> set user_pages" by (rule user_pageI [OF w(1) w(2) [OF lo]])
  then have "has_page k i base" using b(1) mem_mapped_pages unfolding has_page_def by blast
  then show ?thesis using that b by blast
qed

lemma write_kinv:
  assumes inv: "kinv k" and li: "live k i" and mp: "mapping (kphys k) (space k i) v = Some (pa, 7)" and lo: "PROC_START_ADDR \<le> v"
  shows "kinv (upd_phys (\<lambda>m. m(pa := b)) k)" (is "kinv ?k")
    and "\<And>j. live k j \<Longrightarrow> j \<noteq> i \<Longrightarrow> undisturbed k (upd_phys (\<lambda>m. m(pa := b)) k) j"
proof -
  let ?P = "space k i" and ?K = "kernel_pagetable k" and ?s = "(km k)\<lparr>phys := (kphys k)(pa := b)\<rparr>"
  note D = kinvD [OF inv] and sp = kinvD(5) [OF inv li]
  obtain base where w: "mapping (kphys k) ?P (v AND NOT (mask 12)) = Some (base, 7)" and pa: "in_rng base 4096 pa"
    and hp: "has_page k i base"
    by (rule user_byte [OF inv li lo mp])
  note pr = space_priv [OF sp page_floor(1) page_floor(2) [OF lo] w]
  have kb: "pool_page (km k) base" by (rule has_page_kpage [OF inv li hp])
  have ba: "page_aligned base" using kb by (simp add: pool_page_def)
  have frame: "phys ?s x = kphys k x" if "page_aligned p" "p \<noteq> base" "in_rng p 4096 x" for p x
    using pages_disjoint [OF that(1) ba that(2,3)] pa by auto
  have oth: "phys ?s x = kphys k x" if j: "live k j" "j \<noteq> i" "has_page k j p" "in_rng p 4096 x" for j p x
  proof (rule frame [OF _ _ j(4)])
    show "page_aligned p" using has_page_kpage [OF inv j(1,3)] by (simp add: pool_page_def)
    show "p \<noteq> base" using private_page [OF inv li hp j(1)] pr j(2,3) by blast
  qed
  have kP: "keeps_tables (kphys k) (phys ?s) ?P"
    unfolding keeps_tables_def
  proof (intro ballI allI impI)
    fix t x assume t: "t \<in> tables (kphys k) ?P" "in_rng t 4096 x"
    have "t \<noteq> base" using D(6) [OF li li t(1)] pr by blast
    then show "phys ?s x = kphys k x" using frame [OF tables_aligned [OF space_aligned [OF sp] t(1)] _ t(2)] by blast
  qed
  have kK: "keeps_tables (kphys k) (phys ?s) ?K"
  proof (rule kernel_keeps [OF inv])
    fix x assume "\<And>p. pool_page (km k) p \<Longrightarrow> \<not> in_rng p 4096 x"
    then have "x \<noteq> pa" using kb pa by blast
    then show "phys ?s x = kphys k x" by simp
  qed
  have K: "page_aligned ?K" using D(3) by (simp add: kernel_space_ok_def)
  have ke: "kernel_end ?s = kernel_end (km k)" and ok: "pages_ok ?s" using D(1) by (simp_all add: pages_ok_def)
  have prv: "pages ?s ! page_no p = 1" if "page_aligned u" "PROC_START_ADDR \<le> u" "mapping (kphys k) ?P u = Some (p, 7)" for u p
    using space_priv [OF sp that] by simp
  note g = space_frame [OF sp ke kP kK K prv]
  have sp': "space_ok ?s ?K ?P" by (rule g(1))
  have tb: "tables (phys ?s) ?P = tables (kphys k) ?P" by (rule g(2))
  have um: "umap (phys ?s) ?P = umap (kphys k) ?P" by (rule g(3))
  have "kinv (k\<lparr>km := ?s\<rparr>)"
  proof (rule kinv_update(1) [OF inv li ok ke kK oth sp'])
    show "p \<notin> set (umap (phys ?s) ?P)" if "p \<in> tables (phys ?s) ?P" for p
      using D(6) [OF li li, of p] that unfolding tb um by blast
    show "unat (pages ?s ! n) + holds (kphys k) ?P n = unat (pages (km k) ! n) + holds (phys ?s) ?P n" for n
      unfolding holds_def tb um by simp
  qed (use tb um in simp_all)
  then show "kinv ?k" by simp
  show "\<And>j. live k j \<Longrightarrow> j \<noteq> i \<Longrightarrow> undisturbed k ?k j"
    by (rule undisturbedI [OF inv]) (use oth in simp_all)
qed

section \<open>Steps\<close>

text \<open>
  One step of the machine and its event: the current process writes a byte through a writable
  mapping in its region or draws on the console, makes a system call that returns or switches, or
  is interrupted. Every system call with every argument is a step; the registers at the entry of
  the kernel are arbitrary: they stand for everything the process has computed. A call in which
  the kernel panics, reboots or switches the machine off ends the run.
\<close>

datatype kevent =
  UserWrite u64 u8
| UserDraw u64 console
| Syscall regstate
| Interrupt u64 regstate

inductive kstep :: "kernel \<Rightarrow> kevent \<Rightarrow> kernel \<Rightarrow> bool" where
  user_write: "mapping (kphys k) (space k (current k)) v = Some (pa, 7) \<Longrightarrow> PROC_START_ADDR \<le> v \<Longrightarrow>
    kstep k (UserWrite v b) (upd_phys (\<lambda>m. m(pa := b)) k)"
| user_draw: "mapping (kphys k) (space k (current k)) v = Some (pa, 7) \<Longrightarrow> in_rng CONSOLE_ADDR PAGESIZE v \<Longrightarrow>
    kstep k (UserDraw v c) (k\<lparr>con := c\<rparr>)"
| call_run: "syscall regs k = Some (Run k') \<Longrightarrow> kstep k (Syscall regs) k'"
| call_return: "syscall regs k = Some (Return x k') \<Longrightarrow> kstep k (Syscall regs) k'"
| interrupt: "exception cr2 regs k = Some (Run k') \<Longrightarrow> kstep k (Interrupt cr2 regs) k'"

text \<open>The steps the kernel mishandles.\<close>

fun remapping :: "kevent \<Rightarrow> kernel \<Rightarrow> bool" where
  "remapping (Syscall regs) k = remaps regs k"
| "remapping _ _ = False"

fun dead_kill :: "kevent \<Rightarrow> kernel \<Rightarrow> bool" where
  "dead_kill (Syscall regs) k = kills_dead regs k"
| "dead_kill _ _ = False"

lemma kstep_spared:
  assumes "kstep k e k'" "running k" "\<not> dead_kill e k"
  shows "spared k k'" and "\<not> remapping e k \<Longrightarrow> running k'"
proof -
  have "spared k k' \<and> (\<not> remapping e k \<longrightarrow> running k')"
    using assms(1)
  proof cases
    case (user_write v pa b)
    have i: "kinv k" "live k (current k)" using assms(2) by (simp_all add: running_def)
    note g = write_kinv [OF i user_write(3,4), where b = b]
    show ?thesis using g i(2) by (simp add: user_write(2) spared_def running_def)
  next
    case (user_draw v pa c)
    then show ?thesis using assms(2) by (simp add: spared_def running_def undisturbed_refl)
  next
    case (call_run regs)
    then show ?thesis using syscall_stepped [OF assms(2), of regs] assms(3) by fastforce
  next
    case (call_return regs x)
    then show ?thesis using syscall_stepped [OF assms(2), of regs] assms(3) by fastforce
  next
    case (interrupt cr2 regs)
    then show ?thesis using exception_stepped [OF assms(2), of cr2 regs] by (fastforce simp: stepped_def)
  qed
  then show "spared k k'" "\<not> remapping e k \<Longrightarrow> running k'" by blast+
qed

text \<open>A run: steps none of which the kernel mishandles.\<close>

definition sound_step :: "kernel \<Rightarrow> kernel \<Rightarrow> bool" where
  "sound_step k k' \<longleftrightarrow> (\<exists>e. kstep k e k' \<and> \<not> remapping e k \<and> \<not> dead_kill e k)"

lemma reachable_running: "sound_step\<^sup>*\<^sup>* k k' \<Longrightarrow> running k \<Longrightarrow> running k'"
  by (induction rule: rtranclp_induct) (use kstep_spared(2) in \<open>auto simp: sound_step_def\<close>)

section \<open>Consequences\<close>

lemma used_iff_held:
  assumes inv: "kinv k" and n: "n < 512" "pool_page (km k) (page_at n)"
  shows "used (pages (km k) ! n) \<longleftrightarrow> page_at n = mu_v k \<or> (\<exists>i. live k i \<and> has_page k i (page_at n))"
proof
  assume "used (pages (km k) ! n)"
  then have pos: "0 < expected k n" using kinvD(8) [OF inv n] by (auto simp: used_def word_unat_eq_iff)
  show "page_at n = mu_v k \<or> (\<exists>i. live k i \<and> has_page k i (page_at n))"
  proof (cases "page_at n = mu_v k")
    case False
    have "\<exists>i\<in>{i. live k i}. holds (kphys k) (space k i) n \<noteq> 0"
      by (rule ccontr) (use pos False in \<open>simp add: expected_def\<close>)
    then obtain i where i: "live k i" "0 < holds (kphys k) (space k i) n" by auto
    have "\<And>p. p \<in> set (umap (kphys k) (space k i)) \<Longrightarrow> pool_page (km k) p" by (rule space_okD(5) [OF kinvD(5) [OF inv i(1)]])
    then show ?thesis using holds_has [OF i(2) n(1)] i(1) unfolding has_page_def by blast
  qed simp
next
  assume "page_at n = mu_v k \<or> (\<exists>i. live k i \<and> has_page k i (page_at n))"
  moreover have "page_at n \<noteq> 0" using kpage_ram [OF n(2)] by (simp add: ram_page_def)
  ultimately show "used (pages (km k) ! n)"
    using mu_used [OF inv] has_page_used [OF inv] page_at_ram(2) [OF n(1)] by metis
qed

lemma private_mapping:
  assumes inv: "kinv k" and l: "live k i" "live k j" and v: "page_aligned v" "PROC_START_ADDR \<le> v" "page_aligned w" "PROC_START_ADDR \<le> w"
    and m: "mapping (kphys k) (space k i) v = Some (pa, 7)" "mapping (kphys k) (space k j) w = Some (pa, q)"
  shows "i = j"
proof -
  have p: "pages (km k) ! page_no pa = 1" "has_page k i pa"
    using space_priv [OF kinvD(5) [OF inv l(1)] v(1,2) m(1)] by (simp_all add: has_page_def)
  have "w < MEMSIZE_VIRTUAL" by (rule mapped_below [OF space_okD(8) [OF kinvD(5) [OF inv l(2)]] m(2)])
  then have "w \<in> set user_pages" by (rule user_pageI [OF v(3,4)])
  then have "has_page k j pa" using m(2) mem_mapped_pages unfolding has_page_def by blast
  then show ?thesis using private_page [OF inv l(1) p(2) l(2)] p(1) by blast
qed

end
