(* ===== verification/Boot.thy ===== *)
theory Boot
  imports KLoader
begin

text \<open>
  The boot loader (\<open>pset3/boot.cc\<close>): it reads the kernel's ELF image from the disk, sector by sector,
  and copies its segments to their addresses. The disk is a function from byte offsets to bytes; the
  values read from the status port are a list, and a wait that would read past its end never ends.
  \<open>None\<close> is a loader that waits or spins forever.
\<close>

definition SECTORSIZE :: nat where [simp]: "SECTORSIZE = 512"
definition ELFHDR :: u64 where [simp]: "ELFHDR = 0x3000"
definition KERNEL_START_SECTOR :: u32 where [simp]: "KERNEL_START_SECTOR = 1"

type_synonym disk = "nat \<Rightarrow> u8"

record boot_state =
  b_mem :: mem
  b_status :: "u8 list"

section \<open>Reading a sector\<close>

definition disk_ready :: "u8 \<Rightarrow> bool" where
  "disk_ready s \<longleftrightarrow> s AND 0xC0 = 0x40"

fun boot_waitdisk :: "u8 list \<Rightarrow> u8 list option" where
  "boot_waitdisk [] = None"
| "boot_waitdisk (s # ss) = (if disk_ready s then Some ss else boot_waitdisk ss)"

text \<open>The port writes of a read command, and the sector that an ATA disk understands by them.\<close>

definition read_command :: "u32 \<Rightarrow> (u16 \<times> u8) list" where
  "read_command src_sect =
     [(0x1F2, 1), (0x1F3, ucast src_sect), (0x1F4, ucast (drop_bit 8 src_sect)), (0x1F5, ucast (drop_bit 16 src_sect)),
      (0x1F6, ucast (drop_bit 24 src_sect OR 0xE0)), (0x1F7, 0x20)]"

definition port_value :: "(u16 \<times> u8) list \<Rightarrow> u16 \<Rightarrow> nat" where
  "port_value ws p = (case map_of (rev ws) p of Some v \<Rightarrow> unat v | None \<Rightarrow> 0)"

definition ata_sector :: "(u16 \<times> u8) list \<Rightarrow> nat" where
  "ata_sector ws = port_value ws 0x1F3 + 256 * port_value ws 0x1F4 + 65536 * port_value ws 0x1F5
     + 16777216 * (port_value ws 0x1F6 mod 16)"

definition store_sector :: "disk \<Rightarrow> nat \<Rightarrow> u64 \<Rightarrow> mem \<Rightarrow> mem" where
  "store_sector disk n dst m = (\<lambda>x. if in_rng dst 512 x then disk (SECTORSIZE * n + unat (x - dst)) else m x)"

definition boot_readsect :: "disk \<Rightarrow> u64 \<Rightarrow> u32 \<Rightarrow> boot_state \<Rightarrow> boot_state option" where
  "boot_readsect disk dst src_sect st =
     Option.bind (boot_waitdisk (b_status st)) (\<lambda>ss1.
     Option.bind (boot_waitdisk ss1) (\<lambda>ss2.
       Some \<lparr>b_mem = store_sector disk (ata_sector (read_command src_sect)) dst (b_mem st), b_status = ss2\<rparr>))"

section \<open>Reading a segment\<close>

partial_function (option) readseg_loop :: "disk \<Rightarrow> u64 \<Rightarrow> u64 \<Rightarrow> u32 \<Rightarrow> boot_state \<Rightarrow> boot_state option" where
  "readseg_loop disk ptr end_ptr src_sect st =
     (if ptr < end_ptr then
        Option.bind (boot_readsect disk ptr src_sect st) (\<lambda>st1.
          readseg_loop disk (ptr + 512) end_ptr (src_sect + 1) st1)
      else Some st)"

function clear_loop :: "u64 \<Rightarrow> u64 \<Rightarrow> mem \<Rightarrow> mem" where
  "clear_loop p top_ptr m = (if p < top_ptr then clear_loop (p + 1) top_ptr (m(p := 0)) else m)"
  by pat_completeness auto
termination by (relation "measure (\<lambda>(p, t, m). unat t - unat p)") (auto simp: unat_plus1 word_less_nat_alt)

declare clear_loop.simps [simp del]

definition boot_readseg :: "disk \<Rightarrow> u64 \<Rightarrow> u32 \<Rightarrow> u64 \<Rightarrow> u64 \<Rightarrow> boot_state \<Rightarrow> boot_state option" where
  "boot_readseg disk ptr src_sect filesz memsz st =
     map_option (\<lambda>st1. st1\<lparr>b_mem := clear_loop (ptr + filesz) (memsz + ptr) (b_mem st1)\<rparr>)
       (readseg_loop disk (ptr AND NOT 511) (ptr + filesz) src_sect st)"

section \<open>Loading the kernel\<close>

partial_function (option) load_segments :: "disk \<Rightarrow> u64 \<Rightarrow> u64 \<Rightarrow> boot_state \<Rightarrow> boot_state option" where
  "load_segments disk ph eph st =
     (if ph < eph then
        let m = b_mem st
        in Option.bind (boot_readseg disk (p_va m ph)
                          (KERNEL_START_SECTOR + ucast (p_offset m ph div of_nat SECTORSIZE)) (p_filesz m ph) (p_memsz m ph) st)
             (load_segments disk (ph + phdr_size) eph)
      else Some st)"

text \<open>The result is the entry point that is jumped to and the memory at that time.\<close>

definition boot :: "disk \<Rightarrow> boot_state \<Rightarrow> (u64 \<times> boot_state) option" where
  "boot disk st =
     Option.bind (boot_readseg disk ELFHDR KERNEL_START_SECTOR PAGESIZE PAGESIZE st) (\<lambda>st1.
       if e_magic (b_mem st1) ELFHDR \<noteq> ELF_MAGIC then None
       else let ph = ELFHDR + e_phoff (b_mem st1) ELFHDR;
                eph = ph + phdr_size * ucast (e_phnum (b_mem st1) ELFHDR)
            in map_option (\<lambda>st2. (e_entry (b_mem st2) ELFHDR, st2)) (load_segments disk ph eph st1))"

section \<open>The disk\<close>

abbreviation ready_polls :: "u8 list \<Rightarrow> nat" where
  "ready_polls ss \<equiv> length (filter disk_ready ss)"

lemma waitdisk_ready: "0 < ready_polls ss \<Longrightarrow> \<exists>ss'. boot_waitdisk ss = Some ss' \<and> ready_polls ss' = ready_polls ss - 1"
  by (induction ss) auto

text \<open>The disk gets the sector number as it is, up to 28 bits.\<close>

lemma ata_sector_command: "ata_sector (read_command s) = unat s mod 2 ^ 28"
proof -
  let ?n = "unat s"
  have b: "unat (ucast (drop_bit k s) :: u8) = ?n div 2 ^ k mod 256" for k
  proof -
    have "unat (drop_bit k s) = ?n div 2 ^ k" by (simp add: unat_drop_bit_eq drop_bit_eq_div [of k "unat s"])
    then show ?thesis by (simp only: unsigned_ucast_eq take_bit_eq_mod) simp
  qed
  have "(ucast (drop_bit 24 s OR 0xE0) :: u8) AND mask 4 = ucast (drop_bit 24 s) AND mask 4"
  proof (rule bit_word_eqI)
    fix i assume "i < LENGTH(8)"
    have e: "bit (0xE0 :: u32) i \<longleftrightarrow> i = 5 \<or> i = 6 \<or> i = 7" for i
    proof -
      have "(0xE0 :: u32) = push_bit 5 1 OR push_bit 6 1 OR push_bit 7 1" by simp
      then show ?thesis by (simp only: bit_or_iff bit_push_bit_iff bit_1_iff) auto
    qed
    show "bit ((ucast (drop_bit 24 s OR 0xE0) :: u8) AND mask 4) i = bit ((ucast (drop_bit 24 s) :: u8) AND mask 4) i"
      using e [of i] by (auto simp: bit_simps)
  qed
  then have "(ucast (drop_bit 24 s OR 0xE0) :: u8) mod 16 = ucast (drop_bit 24 s) mod 16"
    by (simp add: take_bit_eq_mask [symmetric] take_bit_eq_mod)
  then have "unat ((ucast (drop_bit 24 s OR 0xE0) :: u8) mod 16) = unat ((ucast (drop_bit 24 s) :: u8) mod 16)" by (rule arg_cong)
  then have hi: "unat (ucast (drop_bit 24 s OR 0xE0) :: u8) mod 16 = ?n div 2 ^ 24 mod 16"
    using b [of 24] by (simp add: unat_mod mod_mod_cancel)
  have "?n mod (256 * (256 * (256 * 16))) = ?n mod 256 + 256 * (?n div 256 mod 256) + 65536 * (?n div 65536 mod 256)
      + 16777216 * (?n div 16777216 mod 16)"
    by (simp only: mod_mult2_eq) (simp add: div_mult2_eq [symmetric])
  then show ?thesis
    using b [of 0] b [of 8] b [of 16] hi by (simp add: ata_sector_def port_value_def read_command_def)
qed

lemma readsect_ok:
  assumes "2 \<le> ready_polls (b_status st)" "unat src < 2 ^ 28"
  obtains ss where "boot_readsect disk dst src st = Some \<lparr>b_mem = store_sector disk (unat src) dst (b_mem st), b_status = ss\<rparr>"
    "ready_polls ss = ready_polls (b_status st) - 2"
proof -
  obtain s1 where s1: "boot_waitdisk (b_status st) = Some s1" "ready_polls s1 = ready_polls (b_status st) - 1"
    using waitdisk_ready [of "b_status st"] assms(1) by fastforce
  obtain s2 where s2: "boot_waitdisk s1 = Some s2" "ready_polls s2 = ready_polls s1 - 1"
    using waitdisk_ready [of s1] s1(2) assms(1) by fastforce
  show ?thesis
  proof (rule that)
    show "boot_readsect disk dst src st = Some \<lparr>b_mem = store_sector disk (unat src) dst (b_mem st), b_status = s2\<rparr>"
      using s1(1) s2(1) assms(2) by (simp add: boot_readsect_def ata_sector_command)
  qed (use s1(2) s2(2) in simp)
qed

section \<open>What a segment read does to memory\<close>

text \<open>The sectors that are read, and the bytes that are written, for a segment at \<open>va\<close>.\<close>

definition seg_sectors :: "u64 \<Rightarrow> u64 \<Rightarrow> nat" where
  "seg_sectors va filesz = (unat va mod 512 + unat filesz + 511) div 512"

definition sectors_at :: "disk \<Rightarrow> nat \<Rightarrow> nat \<Rightarrow> u64 \<Rightarrow> mem \<Rightarrow> mem" where
  "sectors_at disk n s p m = (\<lambda>x. if unat (x - p) < 512 * n then disk (512 * s + unat (x - p)) else m x)"

lemma sectors_step:
  assumes "unat p + 512 * Suc n < 2 ^ 64"
  shows "sectors_at disk n (Suc s) (p + 512) (store_sector disk s p m) = sectors_at disk (Suc n) s p m"
proof
  fix x
  show "sectors_at disk n (Suc s) (p + 512) (store_sector disk s p m) x = sectors_at disk (Suc n) s p m x"
  proof (cases "512 \<le> unat (x - p)")
    case True
    have "x - (p + 512) = (x - p) - 512" by simp
    moreover have "unat ((x - p) - 512) = unat (x - p) - unat (512 :: u64)"
      by (rule unat_sub_le) (use True in \<open>simp add: word_le_nat_alt\<close>)
    ultimately have "unat (x - (p + 512)) = unat (x - p) - unat (512 :: u64)" by (simp only:)
    then have "unat (x - (p + 512)) = unat (x - p) - 512" by simp
    moreover have "512 * Suc s + (unat (x - p) - 512) = 512 * s + unat (x - p)" using True by simp
    moreover have "unat (x - p) - 512 < 512 * n \<longleftrightarrow> unat (x - p) < 512 * Suc n" using True by auto
    moreover have "\<not> in_rng p 512 x" using True by (simp add: in_rng_def word_less_nat_alt)
    ultimately show ?thesis by (simp only: sectors_at_def store_sector_def if_False)
  next
    case False
    have e: "unat (y - 512) = unat y + 2 ^ 64 - 512" if "unat y < 512" for y :: u64
      using that by (simp add: unat_sub_if')
    have "x - (p + 512) = (x - p) - 512" by simp
    then have "unat (x - (p + 512)) = unat (x - p) + 2 ^ 64 - 512" using e [of "x - p"] False by (simp only: not_le)
    then have "\<not> unat (x - (p + 512)) < 512 * n" "unat (x - p) < 512 * Suc n" using False assms by auto
    moreover have "in_rng p 512 x" using False by (simp add: in_rng_def word_less_nat_alt)
    ultimately show ?thesis by (simp only: sectors_at_def store_sector_def if_True if_False SECTORSIZE_def)
  qed
qed

lemma readseg_loop_ok:
  assumes "n = (unat e - unat p + 511) div 512" "unat p + 512 * n < 2 ^ 64" "unat src + n \<le> 2 ^ 28"
    and "2 * n \<le> ready_polls (b_status st)"
  shows "\<exists>ss. readseg_loop disk p e src st = Some \<lparr>b_mem = sectors_at disk n (unat src) p (b_mem st), b_status = ss\<rparr>
      \<and> ready_polls ss = ready_polls (b_status st) - 2 * n"
  using assms
proof (induction n arbitrary: p src st)
  case 0
  then have "\<not> p < e" by (auto simp: word_less_nat_alt)
  then show ?case by (subst readseg_loop.simps) (simp add: sectors_at_def exI [of _ "b_status st"])
next
  case (Suc n)
  have lt: "p < e" using Suc.prems(1) by (auto simp: word_less_nat_alt intro: ccontr)
  have up: "unat (p + 512) = unat p + 512" by (subst unat_add_lt) (use Suc.prems(2) in simp_all)
  have us: "unat (src + 1) = Suc (unat src)" by (subst unat_add_lt) (use Suc.prems(3) in simp_all)
  obtain ss where ss: "boot_readsect disk p src st = Some \<lparr>b_mem = store_sector disk (unat src) p (b_mem st), b_status = ss\<rparr>"
    "ready_polls ss = ready_polls (b_status st) - 2"
    by (rule readsect_ok [of st src disk p]) (use Suc.prems(3,4) in simp_all)
  let ?st = "\<lparr>b_mem = store_sector disk (unat src) p (b_mem st), b_status = ss\<rparr>"
  have n: "n = (unat e - unat (p + 512) + 511) div 512" using Suc.prems(1) lt up by (auto simp: word_less_nat_alt)
  have "unat (p + 512) + 512 * n < 2 ^ 64" "unat (src + 1) + n \<le> 2 ^ 28" "2 * n \<le> ready_polls (b_status ?st)"
    using Suc.prems(2-4) ss(2) up us by simp_all
  note ih = Suc.IH [OF n this, unfolded us boot_state.simps sectors_step [OF Suc.prems(2)]]
  have "readseg_loop disk p e src st = readseg_loop disk (p + 512) e (src + 1) ?st"
    using lt ss(1) by (subst readseg_loop.simps) simp
  then show ?case using ih ss(2) by simp
qed

lemma clear_loop_fill: "clear_loop p e m = (\<lambda>x. if p \<le> x \<and> x < e then 0 else m x)"
proof (induction p e m rule: clear_loop.induct)
  case (1 p e m)
  show ?case
  proof (cases "p < e")
    case True
    have "x \<noteq> p \<Longrightarrow> p + 1 \<le> x \<longleftrightarrow> p \<le> x" for x
      using plus1_le [of p x] plus1_le [OF True] unat_plus1 [OF True] by (auto simp: word_le_nat_alt word_unat_eq_iff)
    then show ?thesis using True unfolding clear_loop.simps [of p e m] 1 [OF True] by (auto simp: fun_eq_iff)
  next
    case False
    then have no: "\<not> (p \<le> x \<and> x < e)" for x by (meson le_less_trans)
    show ?thesis unfolding if_not_P [OF no] using False by (subst clear_loop.simps) simp
  qed
qed

lemma round512: "unat (va AND NOT 511 :: u64) = unat va - unat va mod 512" "unat (va - (va AND NOT 511)) = unat va mod 512"
proof -
  have m: "(511 :: u64) = mask 9" by (simp add: mask_eq_exp_minus_1)
  have "va AND NOT (mask 9) = push_bit 9 (drop_bit 9 va)" by (intro bit_word_eqI) (auto simp: bit_simps)
  then have "unat (va AND NOT 511) = unat (push_bit 9 (drop_bit 9 va))" unfolding m by (rule arg_cong)
  also have "\<dots> = (unat va div 512 * 512) mod 2 ^ 64"
  proof -
    have "push_bit 9 (drop_bit 9 va) = drop_bit 9 va * 512" by (simp add: push_bit_eq_mult)
    moreover have "unat (drop_bit 9 va) = unat va div 512" by (subst unat_drop_bit) simp
    ultimately show ?thesis by (simp add: unat_word_ariths)
  qed
  finally have f: "unat (va AND NOT 511) = (unat va div 512 * 512) mod 2 ^ 64" .
  have "unat va div 512 * 512 \<le> unat va" by simp
  moreover have "unat va < 2 ^ 64" using unsigned_less [of va, where 'a = nat] by simp
  ultimately have "unat va div 512 * 512 < 2 ^ 64" by (rule le_less_trans)
  then have "unat (va AND NOT 511) = unat va div 512 * 512" unfolding f by (rule mod_less)
  also have "\<dots> = unat va - unat va mod 512" by (rule minus_mod_eq_div_mult [symmetric])
  finally have e: "unat (va AND NOT 511) = unat va - unat va mod 512" .
  then show "unat (va AND NOT 511) = unat va - unat va mod 512" .
  have "va AND NOT 511 \<le> va" using e by (simp add: word_le_nat_alt)
  then have "unat (va - (va AND NOT 511)) = unat va - unat (va AND NOT 511)" by (rule unat_sub_le)
  then show "unat (va - (va AND NOT 511)) = unat va mod 512" using e by simp
qed

text \<open>The addresses a segment read may write, from the sector boundary below the segment on.\<close>

definition seg_touch :: "u64 \<Rightarrow> u64 \<Rightarrow> u64 \<Rightarrow> u64 \<Rightarrow> bool" where
  "seg_touch va filesz memsz x \<longleftrightarrow>
     unat (x - (va AND NOT 511)) < max (512 * seg_sectors va filesz) (unat va mod 512 + unat memsz)"

lemma readseg_ok:
  assumes va: "unat va + unat filesz + 512 < 2 ^ 64" "unat va + unat memsz < 2 ^ 64" "filesz \<le> memsz"
    and src: "unat src + seg_sectors va filesz \<le> 2 ^ 28" and polls: "2 * seg_sectors va filesz \<le> ready_polls (b_status st)"
  obtains st' where "boot_readseg disk va src filesz memsz st = Some st'"
    "ready_polls (b_status st') = ready_polls (b_status st) - 2 * seg_sectors va filesz"
    "\<And>b. b < unat memsz \<Longrightarrow> b_mem st' (va + of_nat b) =
       (if b < unat filesz then disk (512 * unat src + unat va mod 512 + b) else 0)"
    "\<And>x. \<not> seg_touch va filesz memsz x \<Longrightarrow> b_mem st' x = b_mem st x"
proof -
  define r where "r = unat va mod 512"
  let ?p = "va AND NOT 511" and ?n = "seg_sectors va filesz" and ?e = "va + filesz"
  have ue: "unat ?e = unat va + unat filesz" by (rule unat_add_lt) (use va(1) in simp)
  have um: "unat (memsz + va) = unat va + unat memsz" 
    unfolding add.commute [of memsz va] by (rule unat_add_lt) (use va(2) in simp)
  have up: "unat ?p = unat va - r" unfolding r_def by (rule round512(1))
  have off0: "unat (va - ?p) = r" unfolding r_def by (rule round512(2))
  have le: "r \<le> unat va" unfolding r_def by simp
  have sec: "?n = (r + unat filesz + 511) div 512" by (simp only: seg_sectors_def r_def)
  have n: "?n = (unat ?e - unat ?p + 511) div 512" 
  proof -
    have "unat va + unat filesz - (unat va - r) = r + unat filesz" using le by linarith
    then show ?thesis by (simp only: sec ue up)
  qed
  have "512 * ?n \<le> r + unat filesz + 511" unfolding sec by simp
  then have b: "unat ?p + 512 * ?n < 2 ^ 64" using va(1) up le by linarith
  obtain ss where r: "readseg_loop disk ?p ?e src st = Some \<lparr>b_mem = sectors_at disk ?n (unat src) ?p (b_mem st), b_status = ss\<rparr>"
    "ready_polls ss = ready_polls (b_status st) - 2 * ?n"
    using readseg_loop_ok [OF n b src polls] by blast
  let ?m = "\<lambda>x. if ?e \<le> x \<and> x < memsz + va then 0 else sectors_at disk ?n (unat src) ?p (b_mem st) x"
  have call: "boot_readseg disk va src filesz memsz st = Some \<lparr>b_mem = ?m, b_status = ss\<rparr>"
    unfolding boot_readseg_def r(1) option.map clear_loop_fill boot_state.simps by simp
  have cover: "r + unat filesz \<le> 512 * ?n" unfolding sec by simp
  show ?thesis
  proof (rule that [OF call])
    show "ready_polls (b_status \<lparr>b_mem = ?m, b_status = ss\<rparr>) = ready_polls (b_status st) - 2 * ?n" using r(2) by simp
  next
    fix k assume k: "k < unat memsz"
    have k64: "k < 2 ^ 64" using k va(2) by linarith
    have uk: "unat (va + of_nat k) = unat va + k" using unat_add_lt [of va "of_nat k"] k va(2) k64 by simp
    have "unat ((va - ?p) + of_nat k) = r + k"
      using unat_add_lt [of "va - ?p" "of_nat k"] off0 k64 k va(2) le by simp
    moreover have "(va - ?p) + of_nat k = va + of_nat k - ?p" by (rule diff_add_eq)
    ultimately have off: "unat (va + of_nat k - ?p) = r + k" by (simp only:)
    have lt: "va + of_nat k < memsz + va" using k by (simp add: word_less_nat_alt um uk)
    show "b_mem \<lparr>b_mem = ?m, b_status = ss\<rparr> (va + of_nat k) = (if k < unat filesz then disk (512 * unat src + unat va mod 512 + k) else 0)"
    proof (cases "k < unat filesz")
      case True
      then have "\<not> ?e \<le> va + of_nat k" by (simp add: word_le_nat_alt ue uk)
      moreover have "r + k < 512 * ?n" using True cover by linarith
      ultimately show ?thesis using True off by (simp add: sectors_at_def add.assoc r_def)
    next
      case False
      then have "?e \<le> va + of_nat k" by (simp add: word_le_nat_alt ue uk)
      then show ?thesis using False lt by simp
    qed
  next
    fix x assume x: "\<not> seg_touch va filesz memsz x"
    have "\<not> unat (x - ?p) < 512 * ?n" using x by (simp add: seg_touch_def r_def [symmetric])
    moreover have no: "\<not> (?e \<le> x \<and> x < memsz + va)"
    proof
      assume a: "?e \<le> x \<and> x < memsz + va"
      then have ux: "unat va + unat filesz \<le> unat x" "unat x < unat va + unat memsz"
        by (simp_all add: word_le_nat_alt word_less_nat_alt ue um)
      then have "?p \<le> x" using up by (simp add: word_le_nat_alt)
      then have "unat (x - ?p) = unat x - unat ?p" by (rule unat_sub_le)
      then have "unat (x - ?p) < r + unat memsz" using ux up le by linarith
      then show False using x by (simp add: seg_touch_def r_def [symmetric])
    qed
    ultimately show "b_mem \<lparr>b_mem = ?m, b_status = ss\<rparr> x = b_mem st x"
      unfolding boot_state.simps if_not_P [OF no] sectors_at_def by (simp only: if_False)
  qed
qed

section \<open>Loading every segment\<close>

text \<open>The segments that the image's program headers name, read off the disk: the image starts at
  sector 1 and its first page is seen at \<open>ELFHDR\<close>.\<close>

record boot_seg =
  s_va :: u64
  s_off :: u64
  s_filesz :: u64
  s_memsz :: u64

definition boot_header :: "disk \<Rightarrow> mem" where
  "boot_header disk = (\<lambda>x. disk (512 + unat (x - ELFHDR)))"

fun header_segs :: "mem \<Rightarrow> u64 \<Rightarrow> nat \<Rightarrow> boot_seg list" where
  "header_segs m ph 0 = []"
| "header_segs m ph (Suc n) =
     \<lparr>s_va = p_va m ph, s_off = p_offset m ph, s_filesz = p_filesz m ph, s_memsz = p_memsz m ph\<rparr>
       # header_segs m (ph + phdr_size) n"

definition boot_segs :: "disk \<Rightarrow> boot_seg list" where
  "boot_segs disk = header_segs (boot_header disk) (ELFHDR + e_phoff (boot_header disk) ELFHDR)
     (unat (e_phnum (boot_header disk) ELFHDR))"

text \<open>What the loader needs of a segment, and of two segments, the first loaded before the second: the
  sectors read for the second, and the bytes it clears, leave the first alone.\<close>

definition seg_lo :: "boot_seg \<Rightarrow> nat" where
  "seg_lo s = unat (s_va s) - unat (s_va s) mod 512"

definition seg_hi :: "boot_seg \<Rightarrow> nat" where
  "seg_hi s = max (seg_lo s + 512 * seg_sectors (s_va s) (s_filesz s)) (unat (s_va s) + unat (s_memsz s))"

definition seg_fits :: "boot_seg \<Rightarrow> bool" where
  "seg_fits s \<longleftrightarrow>
     unat (s_va s) + unat (s_filesz s) + 512 < 2 ^ 64 \<and> unat (s_va s) + unat (s_memsz s) < 2 ^ 64 \<and>
     s_filesz s \<le> s_memsz s \<and> unat (s_off s) mod 512 = unat (s_va s) mod 512 \<and>
     1 + unat (s_off s) div 512 + seg_sectors (s_va s) (s_filesz s) \<le> 2 ^ 28 \<and>
     (seg_hi s \<le> 0x3000 \<or> 0x4000 \<le> seg_lo s)"

fun segs_fit :: "boot_seg list \<Rightarrow> bool" where
  "segs_fit [] = True"
| "segs_fit (s # ss) = (seg_fits s \<and> segs_fit ss
     \<and> list_all (\<lambda>t. unat (s_va s) + unat (s_memsz s) \<le> seg_lo t \<or> seg_hi t \<le> unat (s_va s)) ss)"

abbreviation total_sectors :: "boot_seg list \<Rightarrow> nat" where
  "total_sectors ss \<equiv> sum_list (map (\<lambda>s. seg_sectors (s_va s) (s_filesz s)) ss)"

definition seg_loaded :: "disk \<Rightarrow> mem \<Rightarrow> boot_seg \<Rightarrow> bool" where
  "seg_loaded disk m s \<longleftrightarrow> (\<forall>b < unat (s_memsz s). m (s_va s + of_nat b) =
     (if b < unat (s_filesz s) then disk (512 + unat (s_off s) + b) else 0))"

lemma seg_touch_range:
  assumes "seg_fits s" "seg_touch (s_va s) (s_filesz s) (s_memsz s) x"
  shows "seg_lo s \<le> unat x \<and> unat x < seg_hi s"
proof -
  define r where "r = unat (s_va s) mod 512"
  let ?p = "s_va s AND NOT 511" and ?n = "512 * seg_sectors (s_va s) (s_filesz s)"
  have le: "r \<le> unat (s_va s)" unfolding r_def by simp
  have p: "unat ?p = unat (s_va s) - r" unfolding r_def by (rule round512(1))
  have lo: "seg_lo s = unat ?p" unfolding p seg_lo_def r_def ..
  have n: "?n \<le> r + unat (s_filesz s) + 511" unfolding seg_sectors_def r_def by simp
  have d: "unat (x - ?p) < max ?n (r + unat (s_memsz s))" using assms(2) unfolding seg_touch_def r_def .
  have "unat ?p + max ?n (r + unat (s_memsz s)) < 2 ^ 64"
  proof -
    have "unat (s_va s) + unat (s_filesz s) + 512 < 2 ^ 64" "unat (s_va s) + unat (s_memsz s) < 2 ^ 64"
      using assms(1) by (auto simp: seg_fits_def)
    then show ?thesis using n le p by linarith
  qed
  then have "unat ?p + unat (x - ?p) < 2 ^ 64" using d by linarith
  then have s: "unat (?p + (x - ?p)) = unat ?p + unat (x - ?p)" by (intro unat_add_lt) simp
  have "?p + (x - ?p) = x" by (rule add_diff_eq [THEN trans]) (rule add_diff_cancel_left')
  then have "unat x = unat ?p + unat (x - ?p)" using s by (simp only:)
  then show ?thesis using d le p unfolding seg_hi_def lo by auto
qed

lemma header_segs_cong:
  assumes "\<And>x. 0x3000 \<le> unat x \<Longrightarrow> unat x < 0x4000 \<Longrightarrow> m x = m' x"
    and "0x3000 \<le> unat ph" "unat ph + 56 * n \<le> 0x4000"
  shows "header_segs m ph n = header_segs m' ph n"
  using assms(2,3)
proof (induction n arbitrary: ph)
  case (Suc n)
  have k: "unat (ph + k) = unat ph + unat k" if "unat k \<le> 56" for k
    by (rule unat_add_lt) (use Suc.prems that in simp)
  have f: "ld64 m (ph + k) = ld64 m' (ph + k)" if "unat k \<le> 0x30" for k
  proof (rule ld64_cong)
    fix x assume "in_rng (ph + k) 8 x"
    then have d: "unat (x - (ph + k)) < 8" by (simp add: in_rng_def word_less_nat_alt)
    have "unat ((ph + k) + (x - (ph + k))) = unat (ph + k) + unat (x - (ph + k))"
      by (rule unat_add_lt) (use d k [of k] that Suc.prems in simp)
    moreover have "(ph + k) + (x - (ph + k)) = x" by (rule add_diff_eq [THEN trans]) (rule add_diff_cancel_left')
    ultimately have "unat x = unat (ph + k) + unat (x - (ph + k))" by (simp only:)
    then show "m x = m' x" using assms(1) [of x] d k [of k] that Suc.prems by simp
  qed
  show ?case using f k [of 56] Suc.IH [of "ph + 56"] Suc.prems by (simp add: p_va_def p_offset_def p_filesz_def p_memsz_def)
qed simp

definition header_kept :: "disk \<Rightarrow> mem \<Rightarrow> bool" where
  "header_kept disk m \<longleftrightarrow> (\<forall>x. 0x3000 \<le> unat x \<and> unat x < 0x4000 \<longrightarrow> m x = boot_header disk x)"

text \<open>One segment: it is loaded, and nothing outside its range changes.\<close>

lemma load_segment_ok:
  assumes fits: "seg_fits s" and polls: "2 * seg_sectors (s_va s) (s_filesz s) \<le> ready_polls (b_status st)"
  obtains st' where
    "boot_readseg disk (s_va s) (KERNEL_START_SECTOR + ucast (s_off s div of_nat SECTORSIZE)) (s_filesz s) (s_memsz s) st = Some st'"
    "ready_polls (b_status st') = ready_polls (b_status st) - 2 * seg_sectors (s_va s) (s_filesz s)"
    "seg_loaded disk (b_mem st') s" "\<And>x :: u64. unat x < seg_lo s \<or> seg_hi s \<le> unat x \<Longrightarrow> b_mem st' x = b_mem st x"
proof -
  let ?src = "KERNEL_START_SECTOR + ucast (s_off s div of_nat SECTORSIZE)"
  have sec: "1 + unat (s_off s) div 512 + seg_sectors (s_va s) (s_filesz s) \<le> 2 ^ 28"
    and md: "unat (s_off s) mod 512 = unat (s_va s) mod 512"
    and va: "unat (s_va s) + unat (s_filesz s) + 512 < 2 ^ 64" "unat (s_va s) + unat (s_memsz s) < 2 ^ 64" "s_filesz s \<le> s_memsz s"
    using fits by (auto simp: seg_fits_def)
  have "unat (s_off s) div 512 < 2 ^ 32" using sec by simp
  then have "unat (ucast (s_off s div 512) :: u32) = unat (s_off s) div 512"
    by (simp add: unsigned_ucast_eq take_bit_eq_mod unat_div)
  then have src: "unat ?src = 1 + unat (s_off s) div 512"
    by (simp only: KERNEL_START_SECTOR_def SECTORSIZE_def of_nat_numeral) (subst unat_add_lt, use sec in simp_all)
  obtain st' where st': "boot_readseg disk (s_va s) ?src (s_filesz s) (s_memsz s) st = Some st'"
    "ready_polls (b_status st') = ready_polls (b_status st) - 2 * seg_sectors (s_va s) (s_filesz s)"
    "\<And>b. b < unat (s_memsz s) \<Longrightarrow> b_mem st' (s_va s + of_nat b) =
       (if b < unat (s_filesz s) then disk (512 * unat ?src + unat (s_va s) mod 512 + b) else 0)"
    "\<And>x. \<not> seg_touch (s_va s) (s_filesz s) (s_memsz s) x \<Longrightarrow> b_mem st' x = b_mem st x"
    by (rule readseg_ok [OF va _ polls, of ?src disk]) (use src sec in simp_all)
  have "512 * (1 + unat (s_off s) div 512) + unat (s_off s) mod 512 = 512 + unat (s_off s)" by simp
  then have "512 * unat ?src + unat (s_va s) mod 512 = 512 + unat (s_off s)" unfolding src md .
  then have "seg_loaded disk (b_mem st') s" unfolding seg_loaded_def using st'(3) by (simp only:) simp
  moreover have "b_mem st' x = b_mem st x" if "unat x < seg_lo s \<or> seg_hi s \<le> unat x" for x
    by (rule st'(4)) (use that seg_touch_range [OF fits, of x] in linarith)
  ultimately show ?thesis by (rule that [OF st'(1,2)])
qed

lemma seg_loaded_kept:
  assumes "seg_loaded disk m s" "unat (s_va s) + unat (s_memsz s) < 2 ^ 64"
    and "\<And>x. unat (s_va s) \<le> unat x \<Longrightarrow> unat x < unat (s_va s) + unat (s_memsz s) \<Longrightarrow> m' x = m x"
  shows "seg_loaded disk m' s"
  unfolding seg_loaded_def
proof (intro allI impI)
  fix b assume b: "b < unat (s_memsz s)"
  have "unat (s_va s + of_nat b) = unat (s_va s) + b" using unat_add_lt [of "s_va s" "of_nat b"] b assms(2) by simp
  then show "m' (s_va s + of_nat b) = (if b < unat (s_filesz s) then disk (512 + unat (s_off s) + b) else 0)"
    using assms(1,3) b by (simp add: seg_loaded_def)
qed

lemma load_segments_ok:
  assumes "eph = ph + 56 * of_nat n" "0x3000 \<le> unat ph" "unat ph + 56 * n \<le> 0x4000" "header_kept disk (b_mem st)"
    and "segs_fit (header_segs (boot_header disk) ph n)"
    and "2 * total_sectors (header_segs (boot_header disk) ph n) \<le> ready_polls (b_status st)"
  shows "\<exists>st'. load_segments disk ph eph st = Some st' \<and> header_kept disk (b_mem st') \<and>
      list_all (seg_loaded disk (b_mem st')) (header_segs (boot_header disk) ph n) \<and>
      (\<forall>x. list_all (\<lambda>t. unat x < seg_lo t \<or> seg_hi t \<le> unat x) (header_segs (boot_header disk) ph n) \<longrightarrow> b_mem st' x = b_mem st x)"
  using assms
proof (induction n arbitrary: ph st)
  case 0
  then show ?case by (subst load_segments.simps) simp
next
  case (Suc n)
  define s where "s = \<lparr>s_va = p_va (boot_header disk) ph, s_off = p_offset (boot_header disk) ph,
    s_filesz = p_filesz (boot_header disk) ph, s_memsz = p_memsz (boot_header disk) ph\<rparr>"
  let ?ss = "header_segs (boot_header disk) (ph + 56) n"
  have hs: "header_segs (boot_header disk) ph (Suc n) = s # ?ss" by (simp add: s_def)
  have "header_segs (b_mem st) ph 1 = header_segs (boot_header disk) ph 1"
    by (rule header_segs_cong) (use Suc.prems in \<open>auto simp: header_kept_def\<close>)
  then have hd: "p_va (b_mem st) ph = s_va s" "p_offset (b_mem st) ph = s_off s" "p_filesz (b_mem st) ph = s_filesz s"
    "p_memsz (b_mem st) ph = s_memsz s" by (simp_all add: s_def)
  have up: "unat (ph + 56) = unat ph + 56" by (subst unat_add_lt) (use Suc.prems in simp_all)
  have "unat eph = unat ph + 56 * Suc n"
  proof -
    have "(56 * of_nat (Suc n) :: u64) = of_nat (56 * Suc n)" by (simp only: of_nat_mult of_nat_numeral)
    then have m: "unat (56 * of_nat (Suc n) :: u64) = 56 * Suc n" using Suc.prems(3) by (simp only: unat_of_nat) simp
    show ?thesis unfolding Suc.prems(1) by (subst unat_add_lt) (use m Suc.prems(3) in simp_all)
  qed
  then have lt: "ph < eph" by (simp add: word_less_nat_alt)
  have polls: "2 * seg_sectors (s_va s) (s_filesz s) + 2 * total_sectors ?ss \<le> ready_polls (b_status st)"
    using Suc.prems(6) unfolding hs by simp
  have fits: "seg_fits s" and rest: "segs_fit ?ss"
    and apart: "list_all (\<lambda>t. unat (s_va s) + unat (s_memsz s) \<le> seg_lo t \<or> seg_hi t \<le> unat (s_va s)) ?ss"
    using Suc.prems(5) unfolding hs by simp_all
  obtain st1 where st1:
    "boot_readseg disk (s_va s) (KERNEL_START_SECTOR + ucast (s_off s div of_nat SECTORSIZE)) (s_filesz s) (s_memsz s) st = Some st1"
    "ready_polls (b_status st1) = ready_polls (b_status st) - 2 * seg_sectors (s_va s) (s_filesz s)"
    "seg_loaded disk (b_mem st1) s" "\<And>x :: u64. unat x < seg_lo s \<or> seg_hi s \<le> unat x \<Longrightarrow> b_mem st1 x = b_mem st x"
    by (rule load_segment_ok [OF fits, of st disk]) (use polls in simp_all)
  have hk: "header_kept disk (b_mem st1)"
    using Suc.prems(4) st1(4) fits unfolding header_kept_def seg_fits_def by (metis le_trans less_le_trans not_le)
  have "eph = (ph + 56) + 56 * of_nat n" unfolding Suc.prems(1) by (simp add: distrib_left)
  moreover have "2 * total_sectors ?ss \<le> ready_polls (b_status st1)" using polls st1(2) by linarith
  moreover have "0x3000 \<le> unat (ph + 56)" "unat (ph + 56) + 56 * n \<le> 0x4000" using up Suc.prems(2,3) by simp_all
  ultimately obtain st' where st': "load_segments disk (ph + 56) eph st1 = Some st'" "header_kept disk (b_mem st')"
    "list_all (seg_loaded disk (b_mem st')) ?ss"
    "\<And>x :: u64. list_all (\<lambda>t. unat x < seg_lo t \<or> seg_hi t \<le> unat x) ?ss \<Longrightarrow> b_mem st' x = b_mem st1 x"
    using Suc.IH [of "ph + 56" st1] hk rest by blast
  have call: "load_segments disk ph eph st = Some st'"
    unfolding load_segments.simps [of disk ph] using lt hd st1(1) st'(1) by simp
  have "seg_loaded disk (b_mem st') s"
  proof (rule seg_loaded_kept [OF st1(3)])
    show "unat (s_va s) + unat (s_memsz s) < 2 ^ 64" using fits by (simp add: seg_fits_def)
    fix x :: u64 assume x: "unat (s_va s) \<le> unat x" "unat x < unat (s_va s) + unat (s_memsz s)"
    show "b_mem st' x = b_mem st1 x" by (rule st'(4)) (use apart x in \<open>fastforce simp: list_all_iff\<close>)
  qed
  then show ?case unfolding hs using call st'(2-4) st1(4) by auto
qed

text \<open>The boot loader loads the kernel. Let the image's magic number be right, its program headers
  lie in the image's first page, and its segments fit (they do not wrap, are not longer in the file than
  in memory, have their file offset congruent to their address modulo the sector size, lie in the first
  \<open>2 ^ 28\<close> sectors, and spare the page at \<open>ELFHDR\<close> and the segments before them). If the disk becomes
  ready often enough, twice a sector, then the loader jumps to the image's entry point with every segment
  in memory: the bytes of the file, then zeros.\<close>

lemma boot_loads_kernel:
  assumes "e_magic (boot_header disk) ELFHDR = ELF_MAGIC"
    and "unat (e_phoff (boot_header disk) ELFHDR) + 56 * unat (e_phnum (boot_header disk) ELFHDR) \<le> 0x1000"
    and "segs_fit (boot_segs disk)" "16 + 2 * total_sectors (boot_segs disk) \<le> ready_polls (b_status st)"
  shows "\<exists>st'. boot disk st = Some (e_entry (boot_header disk) ELFHDR, st') \<and>
      (\<forall>s \<in> set (boot_segs disk). \<forall>b < unat (s_memsz s). b_mem st' (s_va s + of_nat b) =
         (if b < unat (s_filesz s) then disk (512 + unat (s_off s) + b) else 0))"
proof -
  let ?m = "boot_header disk"
  obtain st1 where st1: "boot_readseg disk ELFHDR KERNEL_START_SECTOR PAGESIZE PAGESIZE st = Some st1"
    "ready_polls (b_status st1) = ready_polls (b_status st) - 16"
    "\<And>b. b < 4096 \<Longrightarrow> b_mem st1 (0x3000 + of_nat b) = disk (512 + b)"
    by (rule readseg_ok [of ELFHDR PAGESIZE PAGESIZE KERNEL_START_SECTOR st disk])
      (use assms(4) in \<open>simp_all add: seg_sectors_def\<close>)
  have hk: "header_kept disk (b_mem st1)"
    unfolding header_kept_def
  proof (intro allI impI)
    fix x :: u64 assume x: "0x3000 \<le> unat x \<and> unat x < 0x4000"
    have "unat (x - 0x3000) = unat x - unat (0x3000 :: u64)" by (rule unat_sub_le) (use x in \<open>simp add: word_le_nat_alt\<close>)
    then have "unat (x - 0x3000) = unat x - 0x3000" by simp
    then have d: "unat (x - 0x3000) < 4096" using x by linarith
    have "0x3000 + of_nat (unat (x - 0x3000)) = x" by simp
    then show "b_mem st1 x = boot_header disk x" using st1(3) [OF d] unfolding boot_header_def by simp
  qed
  have kept: "e_magic m ELFHDR = e_magic ?m ELFHDR" "e_phoff m ELFHDR = e_phoff ?m ELFHDR"
    "e_phnum m ELFHDR = e_phnum ?m ELFHDR" "e_entry m ELFHDR = e_entry ?m ELFHDR" if "header_kept disk m" for m
    using that by (simp_all add: header_kept_def e_magic_def e_phoff_def e_phnum_def e_entry_def ld64_def ld32_def ld16_def)
  let ?ph = "ELFHDR + e_phoff ?m ELFHDR" and ?n = "unat (e_phnum ?m ELFHDR)"
  have uph: "unat ?ph = 0x3000 + unat (e_phoff ?m ELFHDR)"
    using unat_add_lt [of ELFHDR "e_phoff ?m ELFHDR"] assms(2) by simp
  have eph: "?ph + phdr_size * ucast (e_phnum ?m ELFHDR) = ?ph + 56 * of_nat ?n" by simp
  have p: "0x3000 \<le> unat ?ph" "unat ?ph + 56 * ?n \<le> 0x4000" "segs_fit (header_segs ?m ?ph ?n)"
    "2 * total_sectors (header_segs ?m ?ph ?n) \<le> ready_polls (b_status st1)"
    using uph assms(2-4) st1(2) unfolding boot_segs_def by (simp_all del: ELFHDR_def)
  obtain st' where st': "load_segments disk ?ph (?ph + phdr_size * ucast (e_phnum ?m ELFHDR)) st1 = Some st'"
    "header_kept disk (b_mem st')" "list_all (seg_loaded disk (b_mem st')) (boot_segs disk)"
    using load_segments_ok [OF eph p(1,2) hk p(3,4)] unfolding boot_segs_def by blast
  have "boot disk st = Some (e_entry ?m ELFHDR, st')"
    using st1(1) st'(1) assms(1) by (simp add: boot_def kept [OF hk] kept [OF st'(2)] Let_def del: ELFHDR_def phdr_size_def)
  then show ?thesis using st'(3) by (auto simp: list_all_iff seg_loaded_def)
qed

end
