(* ===== verification/BootDisk.thy ===== *)
theory BootDisk
  imports Boot
begin

text \<open>
  The boot image builder (\<open>pset3/build/mkbootdisk.cc\<close>): it writes a boot sector and files, padded to
  sectors, to the standard output or into a partition of a disk, or puts a multiboot header into a kernel
  file. The files are a map from names to contents; the outcomes of the \<open>write\<close> calls are a list that the
  run consumes, and \<open>Stopped\<close> is a run that asks for more of them. Every error keeps the state it left.
\<close>

section \<open>The output\<close>

datatype io_result = Intr | Fail | Count nat

datatype bd_error = Usage | NoFile | TooMuchData | WriteError | WriteEof | ReadError | BootBlockTooLarge
  | CantSkip | NoPartition | NotElf | HeaderTooLarge | Stopped

text \<open>The file behind \<open>diskfd\<close> with its length and offset, the two globals, and the outcomes to come.\<close>

record bd_state =
  d_out :: disk
  d_len :: nat
  d_pos :: nat
  d_maxoff :: nat
  d_curoff :: nat
  d_io :: "io_result list"

type_synonym bd = "(bd_error \<times> bd_state) + bd_state"
type_synonym files = "string \<Rightarrow> u8 list option"

definition bd_then :: "bd \<Rightarrow> (bd_state \<Rightarrow> bd) \<Rightarrow> bd" where
  "bd_then r f = (case r of Inl e \<Rightarrow> Inl e | Inr st \<Rightarrow> f st)"

definition put_bytes :: "nat \<Rightarrow> u8 list \<Rightarrow> disk \<Rightarrow> disk" where
  "put_bytes p bs d = (\<lambda>i. if p \<le> i \<and> i < p + length bs then bs ! (i - p) else d i)"

definition bd_put :: "u8 list \<Rightarrow> bd_state \<Rightarrow> bd_state" where
  "bd_put bs st = st\<lparr>d_out := put_bytes (d_pos st) bs (d_out st), d_len := max (d_len st) (d_pos st + length bs),
     d_pos := d_pos st + length bs, d_curoff := d_curoff st + length bs\<rparr>"

text \<open>A \<open>write\<close> stores at most what it was given.\<close>

fun diskwrite_loop :: "io_result list \<Rightarrow> u8 list \<Rightarrow> bd_state \<Rightarrow> bd" where
  "diskwrite_loop io [] st = Inr (st\<lparr>d_io := io\<rparr>)"
| "diskwrite_loop [] data st = Inl (Stopped, st\<lparr>d_io := []\<rparr>)"
| "diskwrite_loop (Intr # io) data st = diskwrite_loop io data st"
| "diskwrite_loop (Fail # io) data st = Inl (WriteError, st\<lparr>d_io := io\<rparr>)"
| "diskwrite_loop (Count w # io) data st =
     (if w = 0 then Inl (WriteEof, st\<lparr>d_io := io\<rparr>)
      else diskwrite_loop io (drop w data) (bd_put (take w data) st))"

definition diskwrite :: "u8 list \<Rightarrow> bd_state \<Rightarrow> bd" where
  "diskwrite data st =
     (if d_maxoff st \<noteq> 0 \<and> d_curoff st + length data > d_maxoff st then Inl (TooMuchData, st)
      else diskwrite_loop (d_io st) data st)"

abbreviation zerobuf :: "u8 list" where
  "zerobuf \<equiv> replicate 512 0"

section \<open>The arguments\<close>

text \<open>\<open>strtoul\<close> of the C library in base 0, on a string that starts with a digit: the value, which
  saturates, and the rest.\<close>

definition digit_value :: "char \<Rightarrow> nat option" where
  "digit_value c = (let v = of_char c :: nat in
     if 48 \<le> v \<and> v \<le> 57 then Some (v - 48)
     else if 97 \<le> v \<and> v \<le> 122 then Some (v - 87)
     else if 65 \<le> v \<and> v \<le> 90 then Some (v - 55) else None)"

fun read_digits :: "nat \<Rightarrow> nat \<Rightarrow> string \<Rightarrow> nat \<times> string" where
  "read_digits base acc [] = (acc, [])"
| "read_digits base acc (c # cs) =
     (case digit_value c of
        Some v \<Rightarrow> if v < base then read_digits base (base * acc + v) cs else (acc, c # cs)
      | None \<Rightarrow> (acc, c # cs))"

definition c_strtoul :: "string \<Rightarrow> nat \<times> string" where
  "c_strtoul s =
     (let (v, r) =
        (case s of
           CHR ''0'' # c # h # cs \<Rightarrow>
             if (c = CHR ''x'' \<or> c = CHR ''X'') \<and> (case digit_value h of Some v \<Rightarrow> v < 16 | None \<Rightarrow> False)
             then read_digits 16 0 (h # cs) else read_digits 8 0 s
         | CHR ''0'' # cs \<Rightarrow> read_digits 8 0 s
         | _ \<Rightarrow> read_digits 10 0 s)
      in (min v (2 ^ 64 - 1), r))"

definition c_isdigit :: "char \<Rightarrow> bool" where
  "c_isdigit c \<longleftrightarrow> 48 \<le> (of_char c :: nat) \<and> of_char c \<le> (57 :: nat)"

definition skip_target :: "string \<Rightarrow> nat option" where
  "skip_target a =
     (case a of
        CHR ''@'' # c # cs \<Rightarrow>
          if c_isdigit c then (case c_strtoul (c # cs) of (v, r) \<Rightarrow> if r = [] then Some v else None) else None
      | _ \<Rightarrow> None)"

section \<open>Writing the image\<close>

function fill_sectors :: "nat \<Rightarrow> nat \<Rightarrow> bd_state \<Rightarrow> bd" where
  "fill_sectors nsectors limit st =
     (if nsectors < limit then bd_then (diskwrite zerobuf st) (\<lambda>st1. fill_sectors (nsectors + 1) limit st1) else Inr st)"
  by pat_completeness auto
termination by (relation "measure (\<lambda>(n, l, st). l - n)") auto

function copy_file :: "u8 list \<Rightarrow> bd_state \<Rightarrow> bd" where
  "copy_file bs st =
     (if bs \<noteq> [] then bd_then (diskwrite (take 4096 bs) st) (\<lambda>st1. copy_file (drop 4096 bs) st1) else Inr st)"
  by pat_completeness auto
termination by (relation "measure (\<lambda>(bs, st). length bs)") auto

declare fill_sectors.simps [simp del] copy_file.simps [simp del]

definition pad_length :: "nat \<Rightarrow> nat" where
  "pad_length pos = (if pos mod 512 \<noteq> 0 then 512 - pos mod 512 else 0)"

definition write_file :: "u8 list \<Rightarrow> bd_state \<Rightarrow> bd" where
  "write_file bs st =
     bd_then (copy_file bs st) (\<lambda>st1.
       if length bs mod 512 \<noteq> 0 then diskwrite (take (512 - length bs mod 512) zerobuf) st1 else Inr st1)"

fun write_args :: "files \<Rightarrow> nat \<Rightarrow> string list \<Rightarrow> bd_state \<Rightarrow> bd" where
  "write_args files nsectors [] st = fill_sectors nsectors 1024 st"
| "write_args files nsectors (a # args) st =
     (case skip_target a of
        Some skipto \<Rightarrow>
          if nsectors > skipto then Inl (CantSkip, st)
          else bd_then (fill_sectors nsectors skipto st) (write_args files skipto args)
      | None \<Rightarrow>
          (case files a of
             None \<Rightarrow> Inl (NoFile, st)
           | Some bs \<Rightarrow>
               bd_then (write_file bs st)
                 (write_args files (nsectors + (length bs + pad_length (length bs)) div 512) args)))"

text \<open>The boot sector is read into a buffer of 4096 bytes; longer files are refused like long ones.\<close>

definition boot_sector :: "u8 list \<Rightarrow> u8 list" where
  "boot_sector bs = bs @ replicate (510 - length bs) 0 @ [0x55, 0xAA]"

definition write_image :: "files \<Rightarrow> bool \<Rightarrow> string list \<Rightarrow> bd_state \<Rightarrow> bd" where
  "write_image files bootsector_special args st =
     (case args of
        [] \<Rightarrow> Inl (Usage, st)
      | a # rest \<Rightarrow>
          if bootsector_special then
            (case files a of
               None \<Rightarrow> Inl (NoFile, st)
             | Some bs \<Rightarrow>
                 if min 4096 (length bs) > 510 then Inl (BootBlockTooLarge, st)
                 else bd_then (diskwrite (boot_sector bs) st) (write_args files 1 rest))
          else write_args files 0 args st)"

section \<open>Partitions\<close>

definition bd_open :: "u8 list \<Rightarrow> bd_state \<Rightarrow> bd_state" where
  "bd_open bs st = st\<lparr>d_out := (\<lambda>i. if i < length bs then bs ! i else 0), d_len := length bs, d_pos := 0\<rparr>"

text \<open>An interrupted \<open>read\<close> is retried; a short one, at the end of the file, is an error. The sector number
  is a \<open>uint32_t\<close>.\<close>

definition readsect :: "nat \<Rightarrow> bd_state \<Rightarrow> bd_state option" where
  "readsect sectno st =
     (let o' = (sectno mod 2 ^ 32) * SECTORSIZE
      in if o' + SECTORSIZE \<le> d_len st then Some (st\<lparr>d_pos := o' + SECTORSIZE\<rparr>) else None)"

record part_desc =
  pt_type :: u8
  pt_start :: nat
  pt_length :: nat

definition le32 :: "disk \<Rightarrow> nat \<Rightarrow> nat" where
  "le32 d o' = unat (d o') + 256 * unat (d (o' + 1)) + 65536 * unat (d (o' + 2)) + 16777216 * unat (d (o' + 3))"

definition part_entry :: "disk \<Rightarrow> nat \<Rightarrow> nat \<Rightarrow> part_desc" where
  "part_entry d sect i =
     (let o' = (sect mod 2 ^ 32) * SECTORSIZE + 446 + 16 * i
      in \<lparr>pt_type = d (o' + 4), pt_start = le32 d (o' + 8), pt_length = le32 d (o' + 12)\<rparr>)"

definition part_magic :: "disk \<Rightarrow> nat \<Rightarrow> bool" where
  "part_magic d sect \<longleftrightarrow>
     (let o' = (sect mod 2 ^ 32) * SECTORSIZE in d (o' + 510) = 0x55 \<and> d (o' + 511) = 0xAA)"

definition pt_kernel :: "part_desc \<Rightarrow> bool" where
  "pt_kernel p \<longleftrightarrow> pt_type p = 0x27"

definition pt_extended :: "part_desc \<Rightarrow> bool" where
  "pt_extended p \<longleftrightarrow> pt_type p = 0x05 \<or> pt_type p = 0x0F \<or> pt_type p = 0x85"

text \<open>The search, with the depth of the recursion that the stack allows; \<open>None\<close> is a deeper one. A result
  \<open>Some (Inr (r, st))\<close> is the returned value, positive when a partition was found.\<close>

type_synonym bd_found = "((bd_error \<times> bd_state) + (bool \<times> bd_state)) option"

function (sequential) find_partition :: "nat \<Rightarrow> nat \<Rightarrow> nat \<Rightarrow> bd_state \<Rightarrow> bd_found"
  and find_entries :: "nat \<Rightarrow> nat \<Rightarrow> nat \<Rightarrow> part_desc list \<Rightarrow> bd_state \<Rightarrow> bd_found" where
  "find_partition 0 sect ext st = None"
| "find_partition (Suc n) sect ext st =
     (case readsect sect st of
        None \<Rightarrow> Some (Inl (ReadError, st))
      | Some st1 \<Rightarrow>
          if \<not> part_magic (d_out st1) sect then Some (Inr (False, st1))
          else find_entries n sect ext (map (part_entry (d_out st1) sect) [0, 1, 2, 3]) st1)"
| "find_entries n sect ext [] st = Some (Inr (False, st))"
| "find_entries n sect ext (p # ps) st =
     (if pt_length p = 0 then find_entries n sect ext ps st
      else if pt_kernel p then
        Some (Inr (True, st\<lparr>d_pos := (sect + pt_start p) * SECTORSIZE, d_maxoff := pt_length p * SECTORSIZE\<rparr>))
      else if pt_extended p then
        (case find_partition n (pt_start p + ext) (if ext = 0 then pt_start p else ext) st of
           Some (Inr (False, st1)) \<Rightarrow> find_entries n sect ext ps st1
         | r \<Rightarrow> r)
      else find_entries n sect ext ps st)"
  by pat_completeness auto
termination by (relation "measures [\<lambda>x. case x of Inl (n, _) \<Rightarrow> n | Inr (n, _) \<Rightarrow> n,
     \<lambda>x. case x of Inl _ \<Rightarrow> 0 | Inr (n, s, e, ps, st) \<Rightarrow> length ps]") auto

section \<open>Multiboot\<close>

definition multiboot_header :: "u8 list" where
  "multiboot_header = [0x02, 0xB0, 0xAD, 0x1B, 0, 0, 0, 0, 0xFE, 0x4F, 0x52, 0xE4]"

definition file_mem :: "disk \<Rightarrow> mem" where
  "file_mem d = (\<lambda>x. d (unat x))"

definition do_multiboot :: "files \<Rightarrow> string \<Rightarrow> bd_state \<Rightarrow> bd" where
  "do_multiboot files name st =
     (case files name of
        None \<Rightarrow> Inl (NoFile, st)
      | Some bs \<Rightarrow>
          (case readsect 0 (bd_open bs st) of
             None \<Rightarrow> Inl (ReadError, bd_open bs st)
           | Some st1 \<Rightarrow>
               let m = file_mem (d_out st1); o' = e_phoff m 0 + phdr_size * ucast (e_phnum m 0)
               in if e_magic m 0 \<noteq> ELF_MAGIC then Inl (NotElf, st1)
                  else if o' \<ge> 4096 - 12 then Inl (HeaderTooLarge, st1)
                  else diskwrite multiboot_header (st1\<lparr>d_pos := unat o'\<rparr>)))"

section \<open>The program\<close>

definition bd_start :: "io_result list \<Rightarrow> bd_state" where
  "bd_start io = \<lparr>d_out = \<lambda>_. 0, d_len = 0, d_pos = 0, d_maxoff = 0, d_curoff = 0, d_io = io\<rparr>"

definition mkbootdisk_rest :: "files \<Rightarrow> bool \<Rightarrow> string list \<Rightarrow> bd_state \<Rightarrow> bd" where
  "mkbootdisk_rest files special args st =
     (case args of
        ''-m'' # [] \<Rightarrow> Inl (Usage, st)
      | ''-m'' # name # _ \<Rightarrow> do_multiboot files name st
      | _ \<Rightarrow> write_image files special args st)"

definition mkbootdisk :: "nat \<Rightarrow> files \<Rightarrow> io_result list \<Rightarrow> string list \<Rightarrow> bd option" where
  "mkbootdisk depth files io args =
     (let st = bd_start io in
      case args of
        ''-p'' # [] \<Rightarrow> Some (Inl (Usage, st))
      | ''-p'' # name # rest \<Rightarrow>
          (case files name of
             None \<Rightarrow> Some (Inl (NoFile, st))
           | Some bs \<Rightarrow>
               (case find_partition depth 0 0 (bd_open bs st) of
                  None \<Rightarrow> None
                | Some (Inl e) \<Rightarrow> Some (Inl e)
                | Some (Inr (found, st1)) \<Rightarrow>
                    if \<not> found then Some (Inl (NoPartition, st1)) else Some (mkbootdisk_rest files False rest st1)))
      | _ \<Rightarrow> Some (mkbootdisk_rest files True args st))"

section \<open>What a run keeps\<close>

text \<open>The state that a step leaves, whether it ends in an error or not.\<close>

definition bd_after :: "bd \<Rightarrow> bd_state" where
  "bd_after r = (case r of Inl (e, st) \<Rightarrow> st | Inr st \<Rightarrow> st)"

lemma bd_after_simps [simp]: "bd_after (Inl (e, st)) = st" "bd_after (Inr st) = st"
  by (simp_all add: bd_after_def)











section \<open>What a run writes\<close>

text \<open>The outcomes of the \<open>write\<close> calls when the output works: interruptions, and at least one byte each.\<close>

fun steady :: "io_result \<Rightarrow> bool" where
  "steady Intr = True" | "steady Fail = False" | "steady (Count w) = (w \<noteq> 0)"

fun is_count :: "io_result \<Rightarrow> bool" where
  "is_count (Count w) = True" | "is_count _ = False"

definition io_supply :: "nat \<Rightarrow> io_result list \<Rightarrow> bool" where
  "io_supply k io \<longleftrightarrow> list_all steady io \<and> k \<le> length (filter is_count io)"

definition emitted :: "u8 list \<Rightarrow> bd_state \<Rightarrow> bd_state \<Rightarrow> bool" where
  "emitted bs st st' \<longleftrightarrow> d_out st' = put_bytes (d_pos st) bs (d_out st) \<and> d_pos st' = d_pos st + length bs \<and>
     d_len st' = max (d_len st) (d_pos st') \<and> d_maxoff st' = d_maxoff st"

text \<open>Without a partition: the bytes are written, whatever the sizes of the single writes.\<close>

definition emits :: "bd_state \<Rightarrow> u8 list \<Rightarrow> bd \<Rightarrow> bool" where
  "emits st bs r \<longleftrightarrow> (d_maxoff st = 0 \<and> d_pos st \<le> d_len st \<longrightarrow>
     (\<forall>k. io_supply (length bs + k) (d_io st) \<longrightarrow> (\<exists>st'. r = Inr st' \<and> emitted bs st st' \<and> io_supply k (d_io st'))))"

lemma put_bytes_append: "put_bytes (p + length xs) bs (put_bytes p xs d) = put_bytes p (xs @ bs) d"
  by (auto simp: put_bytes_def fun_eq_iff nth_append)

lemma put_bytes_Nil [simp]: "put_bytes p [] d = d"
proof
  fix i
  have "\<not> (p \<le> i \<and> i < p + length [])" by simp
  then show "put_bytes p [] d i = d i" unfolding put_bytes_def by (rule if_not_P)
qed

lemma emitted_trans: "emitted xs st st1 \<Longrightarrow> emitted bs st1 st2 \<Longrightarrow> emitted (xs @ bs) st st2"
  by (simp add: emitted_def put_bytes_append)

lemma emits_then:
  assumes "emits st xs r" "\<And>st1. r = Inr st1 \<Longrightarrow> emits st1 bs (f st1)"
  shows "emits st (xs @ bs) (bd_then r f)"
  unfolding emits_def
proof (intro impI allI)
  fix k assume st: "d_maxoff st = 0 \<and> d_pos st \<le> d_len st" and "io_supply (length (xs @ bs) + k) (d_io st)"
  then have "io_supply (length xs + (length bs + k)) (d_io st)" by (simp add: add.assoc)
  then obtain st1 where st1: "r = Inr st1" "emitted xs st st1" "io_supply (length bs + k) (d_io st1)"
    using assms(1) st unfolding emits_def by blast
  have "d_maxoff st1 = 0 \<and> d_pos st1 \<le> d_len st1" using st1(2) st by (simp add: emitted_def)
  then obtain st2 where "f st1 = Inr st2" "emitted bs st1 st2" "io_supply k (d_io st2)"
    using assms(2) [OF st1(1)] st1(3) unfolding emits_def by blast
  then show "\<exists>st'. bd_then r f = Inr st' \<and> emitted (xs @ bs) st st' \<and> io_supply k (d_io st')"
    using st1(1) emitted_trans [OF st1(2)] by (auto simp: bd_then_def)
qed

lemma emits_nothing: "emits st [] (Inr st)"
  by (simp add: emits_def emitted_def max_def)

lemma write_loop_emits:
  "d_maxoff st = 0 \<Longrightarrow> d_pos st \<le> d_len st \<Longrightarrow> io_supply (length data + k) io \<Longrightarrow>
     \<exists>st'. diskwrite_loop io data st = Inr st' \<and> emitted data st st' \<and> io_supply k (d_io st')"
proof (induction io data st rule: diskwrite_loop.induct)
  case (5 w io v vs st)
  let ?st = "bd_put (take w (v # vs)) st"
  have w: "w \<noteq> 0" using 5(4) by (simp add: io_supply_def)
  have "io_supply (length (drop w (v # vs)) + k) io" using 5(4) w by (auto simp: io_supply_def)
  moreover have "d_maxoff ?st = 0" "d_pos ?st \<le> d_len ?st" using 5(2) by (simp_all add: bd_put_def)
  ultimately obtain st' where st': "diskwrite_loop io (drop w (v # vs)) ?st = Inr st'" "emitted (drop w (v # vs)) ?st st'"
    "io_supply k (d_io st')" using 5(1) [OF w] by blast
  have "emitted (take w (v # vs)) st ?st" by (simp add: emitted_def bd_put_def)
  from emitted_trans [OF this st'(2)] have "emitted (v # vs) st st'" by (simp only: append_take_drop_id)
  then show ?case using st'(1,3) w by simp
qed (auto simp: io_supply_def emitted_def)

lemma diskwrite_emits: "emits st bs (diskwrite bs st)"
  using write_loop_emits [of st bs] by (auto simp: emits_def diskwrite_def)

lemma fill_emits: "emits st (replicate (512 * (limit - n)) 0) (fill_sectors n limit st)"
proof (induction n limit st rule: fill_sectors.induct)
  case (1 n limit st)
  show ?case
  proof (cases "n < limit")
    case True
    then have "512 * (limit - n) = 512 + 512 * (limit - (n + 1))" by simp
    then have e: "replicate (512 * (limit - n)) 0 = zerobuf @ replicate (512 * (limit - (n + 1))) (0 :: u8)"
      by (simp only: replicate_add)
    show ?thesis unfolding e fill_sectors.simps [of n]
      using True 1 [OF True] by (simp only: if_True) (rule emits_then [OF diskwrite_emits])
  qed (subst fill_sectors.simps, simp add: emits_nothing)
qed

lemma copy_emits: "emits st bs (copy_file bs st)"
proof (induction bs st rule: copy_file.induct)
  case (1 bs st)
  show ?case
  proof (cases "bs = []")
    case False
    have "emits st (take 4096 bs @ drop 4096 bs) (bd_then (diskwrite (take 4096 bs) st) (\<lambda>st1. copy_file (drop 4096 bs) st1))"
      by (rule emits_then [OF diskwrite_emits 1 [OF False]])
    then show ?thesis using False by (subst copy_file.simps) simp
  qed (subst copy_file.simps, simp add: emits_nothing)
qed

lemma file_emits: "emits st (bs @ replicate (pad_length (length bs)) 0) (write_file bs st)"
  unfolding write_file_def
proof (rule emits_then [OF copy_emits])
  fix st1
  show "emits st1 (replicate (pad_length (length bs)) 0)
     (if length bs mod 512 \<noteq> 0 then diskwrite (take (512 - length bs mod 512) zerobuf) st1 else Inr st1)"
    using diskwrite_emits by (simp add: pad_length_def emits_nothing)
qed

text \<open>The bytes that the arguments describe from a sector on, and when they can be written.\<close>

fun args_bytes :: "files \<Rightarrow> nat \<Rightarrow> string list \<Rightarrow> u8 list" where
  "args_bytes files n [] = replicate (512 * (1024 - n)) 0"
| "args_bytes files n (a # args) =
     (case skip_target a of
        Some k \<Rightarrow> replicate (512 * (k - n)) 0 @ args_bytes files k args
      | None \<Rightarrow>
          let bs = the (files a); padded = bs @ replicate (pad_length (length bs)) 0
          in padded @ args_bytes files (n + length padded div 512) args)"

fun args_ok :: "files \<Rightarrow> nat \<Rightarrow> string list \<Rightarrow> bool" where
  "args_ok files n [] = True"
| "args_ok files n (a # args) =
     (case skip_target a of
        Some k \<Rightarrow> n \<le> k \<and> args_ok files k args
      | None \<Rightarrow>
          (case files a of
             None \<Rightarrow> False
           | Some bs \<Rightarrow> args_ok files (n + (length bs + pad_length (length bs)) div 512) args))"

lemma args_emit: "args_ok files n args \<Longrightarrow> emits st (args_bytes files n args) (write_args files n args st)"
proof (induction files n args arbitrary: st rule: args_bytes.induct)
  case (1 files n)
  then show ?case using fill_emits by simp
next
  case (2 files n a args)
  show ?case
  proof (cases "skip_target a")
    case (Some k)
    then show ?thesis using 2 by (auto intro!: emits_then [OF fill_emits])
  next
    case None
    then obtain bs where bs: "files a = Some bs" using 2(3) by (auto split: option.splits)
    let ?n = "n + (length bs + pad_length (length bs)) div 512"
    have "emits st1 (args_bytes files ?n args) (write_args files ?n args st1)" for st1
      using 2(1) [OF None refl refl, of st1] 2(3) None bs by simp
    then show ?thesis using None bs emits_then [OF file_emits] by simp
  qed
qed

lemma image_run:
  assumes "b \<noteq> ''-p''" "b \<noteq> ''-m''" "files b = Some bs" "length bs \<le> 510" "args_ok files 1 args"
    and "io_supply (length (boot_sector bs @ args_bytes files 1 args)) io"
  shows "\<exists>st. mkbootdisk depth files io (b # args) = Some (Inr st) \<and>
      d_out st = put_bytes 0 (boot_sector bs @ args_bytes files 1 args) (\<lambda>_. 0) \<and>
      d_len st = length (boot_sector bs @ args_bytes files 1 args)"
proof -
  let ?img = "boot_sector bs @ args_bytes files 1 args" and ?st = "bd_start io"
  have "write_image files True (b # args) ?st = bd_then (diskwrite (boot_sector bs) ?st) (write_args files 1 args)"
    using assms(3,4) by (simp add: write_image_def)
  then have "emits ?st ?img (write_image files True (b # args) ?st)"
    using emits_then [OF diskwrite_emits args_emit [OF assms(5)]] by simp
  moreover have "d_maxoff ?st = 0 \<and> d_pos ?st \<le> d_len ?st" "io_supply (length ?img + 0) (d_io ?st)"
    using assms(6) by (simp_all add: bd_start_def)
  ultimately obtain st where "write_image files True (b # args) ?st = Inr st" "emitted ?img ?st st"
    unfolding emits_def by blast
  moreover have "mkbootdisk depth files io (b # args) = Some (write_image files True (b # args) ?st)"
    using assms(1,2) by (auto simp: mkbootdisk_def mkbootdisk_rest_def Let_def split: list.splits char.splits bool.splits)
  ultimately show ?thesis by (auto simp: emitted_def bd_start_def)
qed

section \<open>The properties\<close>







definition file_disk :: "u8 list \<Rightarrow> disk" where
  "file_disk bs = (\<lambda>i. if 512 \<le> i \<and> i < 512 + length bs then bs ! (i - 512) else 0)"

lemma boot_disk_cong:
  assumes "\<And>i. 512 \<le> i \<Longrightarrow> d i = d' i"
  shows "boot_header d = boot_header d'" "boot_segs d = boot_segs d'"
proof -
  show "boot_header d = boot_header d'" using assms by (simp add: boot_header_def)
  then show "boot_segs d = boot_segs d'" by (simp only: boot_segs_def)
qed

lemma pad_length_mod: "(n + pad_length n) mod 512 = 0"
proof (cases "n mod 512 = 0")
  case False
  define q r where "q = n div 512" and "r = n mod 512"
  have n: "n = 512 * q + r" "r < 512" by (simp_all add: q_def r_def)
  have p: "pad_length n = 512 - r" using False by (simp add: r_def pad_length_def)
  have "r + (512 - r) = 512" using n(2) by simp
  moreover have "n + (512 - r) = 512 * q + (r + (512 - r))" by (subst n(1)) (rule add.assoc)
  ultimately have "n + (512 - r) = 512 * (q + 1)" by simp
  then show ?thesis unfolding p by simp
qed (simp add: pad_length_def)

lemma boot_signature:
  assumes "length bs \<le> 510"
  shows "boot_sector bs ! 510 = 0x55" "boot_sector bs ! 511 = 0xAA"
proof -
  define xs where "xs = bs @ replicate (510 - length bs) (0 :: u8)"
  have "length xs = 510" "boot_sector bs = xs @ [0x55, 0xAA]" using assms by (simp_all add: xs_def boot_sector_def)
  then show "boot_sector bs ! 510 = 0x55" "boot_sector bs ! 511 = 0xAA" by (simp_all add: nth_append)
qed

text \<open>C20: An image built from a boot sector and a kernel boots. Let the kernel file be as
  \<open>boot_loads_kernel\<close> asks, the boot sector fit, and the output take at least a byte with every write that
  is not interrupted. Then \<open>mkbootdisk\<close> succeeds, the first sector is the boot sector with its signature,
  the image has at least 1024 sectors and a whole number of them, and the boot loader, run on the image,
  jumps to the kernel's entry point with the bytes of every segment, from the kernel file, in memory.\<close>

lemma built_disk_boots:
  assumes "b \<noteq> ''-p''" "b \<noteq> ''-m''" "files b = Some bs" "length bs \<le> 510" "skip_target k = None" "files k = Some ks"
    and "io_supply (513 * 1024 + length ks) io"
    and "e_magic (boot_header (file_disk ks)) ELFHDR = ELF_MAGIC"
    and "unat (e_phoff (boot_header (file_disk ks)) ELFHDR) + 56 * unat (e_phnum (boot_header (file_disk ks)) ELFHDR) \<le> 0x1000"
    and "segs_fit (boot_segs (file_disk ks))"
    and "16 + 2 * total_sectors (boot_segs (file_disk ks)) \<le> ready_polls (b_status bst)"
  shows "\<exists>st bst'. mkbootdisk depth files io [b, k] = Some (Inr st) \<and>
      (\<forall>i < length bs. d_out st i = bs ! i) \<and> d_out st 510 = 0x55 \<and> d_out st 511 = 0xAA \<and>
      512 * 1024 \<le> d_len st \<and> d_len st mod 512 = 0 \<and>
      boot (d_out st) bst = Some (e_entry (boot_header (file_disk ks)) ELFHDR, bst') \<and>
      (\<forall>s \<in> set (boot_segs (file_disk ks)). \<forall>x < unat (s_memsz s). b_mem bst' (s_va s + of_nat x) =
         (if x < unat (s_filesz s) \<and> unat (s_off s) + x < length ks then ks ! (unat (s_off s) + x) else 0))"
proof -
  define pk where "pk = ks @ replicate (pad_length (length ks)) 0"
  define img where "img = boot_sector bs @ args_bytes files 1 [k]"
  let ?fill = "512 * (1024 - (1 + length pk div 512))"
  have bytes: "args_bytes files 1 [k] = pk @ replicate ?fill 0"
    using assms(5,6) by (simp add: pk_def)
  have l512: "length (boot_sector bs) = 512" using assms(4) by (simp add: boot_sector_def)
  have li: "length img = 512 + length pk + ?fill" unfolding img_def bytes using l512 by simp
  have pm: "length pk mod 512 = 0" unfolding pk_def using pad_length_mod [of "length ks"] by simp
  have pl: "length pk \<le> length ks + 512" unfolding pk_def pad_length_def by simp
  have pd: "512 * (length pk div 512) = length pk" using pm mult_div_mod_eq [of 512 "length pk"] by simp
  have "length img \<le> 513 * 1024 + length ks" unfolding li using pl by simp
  then have "io_supply (length img) io" using assms(7) unfolding io_supply_def by simp
  moreover have "args_ok files 1 [k]" using assms(5,6) by simp
  ultimately obtain st where st: "mkbootdisk depth files io [b, k] = Some (Inr st)" "d_out st = put_bytes 0 img (\<lambda>_. 0)"
    "d_len st = length img" using image_run [OF assms(1,2) _ assms(4), of files "[k]" io depth] assms(3) unfolding img_def by blast
  have out: "d_out st i = (if i < length img then img ! i else 0)" for i by (simp add: st(2) put_bytes_def)
  have hi: "d_out st i = file_disk ks i" if "512 \<le> i" for i
  proof -
    have "img = boot_sector bs @ ks @ replicate (pad_length (length ks) + ?fill) 0"
      unfolding img_def bytes by (simp add: pk_def replicate_add)
    then show ?thesis using that l512 li unfolding out file_disk_def by (auto simp: nth_append pk_def)
  qed
  have same: "boot_header (d_out st) = boot_header (file_disk ks)" "boot_segs (d_out st) = boot_segs (file_disk ks)"
    by (rule boot_disk_cong, erule hi)+
  have low: "d_out st i = boot_sector bs ! i" if "i < 512" for i using that l512 li unfolding out img_def by (simp add: nth_append)
  have "d_out st i = bs ! i" if "i < length bs" for i using low [of i] that assms(4) by (simp add: boot_sector_def nth_append)
  moreover have "d_out st 510 = 0x55" "d_out st 511 = 0xAA"
    using low [of 510] low [of 511] boot_signature [OF assms(4)] by simp_all
  moreover have "512 * 1024 \<le> d_len st" unfolding st(3) li using pd by linarith
  moreover have "d_len st mod 512 = 0" unfolding st(3) li using pm by (simp add: mod_add_eq [symmetric])
  moreover obtain bst' where "boot (d_out st) bst = Some (e_entry (boot_header (file_disk ks)) ELFHDR, bst')"
    "\<And>s x. s \<in> set (boot_segs (file_disk ks)) \<Longrightarrow> x < unat (s_memsz s) \<Longrightarrow> b_mem bst' (s_va s + of_nat x) =
         (if x < unat (s_filesz s) then d_out st (512 + unat (s_off s) + x) else 0)"
    using boot_loads_kernel [of "d_out st" bst] assms(8-11) unfolding same by blast
  moreover have "d_out st (512 + n) = (if n < length ks then ks ! n else 0)" for n using hi [of "512 + n"] by (simp add: file_disk_def)
  ultimately show ?thesis using st(1) by (intro exI [of _ st] exI [of _ bst']) (simp add: add.assoc)
qed

text \<open>The properties at concrete inputs: a disk with one partition, of one sector; and a kernel file of two
  segments, code with a zeroed tail, and data.\<close>

definition part_ex :: "nat \<Rightarrow> u8" where
  "part_ex i = (if i = 450 then 0x27 else if i = 454 then 1 else if i = 458 then 1 else if i = 510 then 0x55
     else if i = 511 then 0xAA else 0)"

definition files_ex :: files where
  "files_ex name =
     (if name = ''disk'' then Some (map part_ex [0..<2048])
      else if name = ''data'' then Some [1, 2, 3]
      else if name = ''boot'' then Some [0xEB, 0xFE] else None)"


definition disk_ex :: disk where
  "disk_ex i =
     (if i < 512 then 0
      else let o' = i - 512 in
        if o' = 0 then 0x7F else if o' = 1 then 0x45 else if o' = 2 then 0x4C else if o' = 3 then 0x46
        else if o' = 0x1A then 4 else if o' = 0x20 then 0x40 else if o' = 0x38 then 2
        else if o' = 0x40 + 9 then 0x10 else if o' = 0x40 + 0x12 then 4 else if o' = 0x40 + 0x21 then 2 else if o' = 0x40 + 0x29 then 3
        else if o' = 0x78 + 8 then 0x10 else if o' = 0x78 + 9 then 0x12 else if o' = 0x78 + 0x10 then 0x10
        else if o' = 0x78 + 0x12 then 5 else if o' = 0x78 + 0x20 then 5 else if o' = 0x78 + 0x28 then 9
        else if o' = 0x1001 then 0xF4 else if o' = 0x1211 then 0x2A else 0)"

lemma disk_ex_segs: "boot_segs disk_ex =
    [\<lparr>s_va = 0x40000, s_off = 0x1000, s_filesz = 0x200, s_memsz = 0x300\<rparr>, \<lparr>s_va = 0x50010, s_off = 0x1210, s_filesz = 5, s_memsz = 9\<rparr>]"
proof -
  have "e_phoff (boot_header disk_ex) ELFHDR = 0x40" "unat (e_phnum (boot_header disk_ex) ELFHDR) = Suc (Suc 0)"
    by (simp_all add: e_phoff_def e_phnum_def ld64_def ld16_def boot_header_def disk_ex_def Let_def)
  then show ?thesis
    by (simp add: boot_segs_def p_va_def p_offset_def p_filesz_def p_memsz_def ld64_def boot_header_def disk_ex_def Let_def)
qed

definition kernel_ex :: "u8 list" where
  "kernel_ex = map (\<lambda>i. disk_ex (512 + i)) [0..<0x1300]"

lemma file_disk_ex: "file_disk kernel_ex = disk_ex"
proof
  fix i
  have "disk_ex i = 0" if "\<not> (512 \<le> i \<and> i < 512 + 0x1300)" using that by (auto simp: disk_ex_def Let_def)
  then show "file_disk kernel_ex i = disk_ex i" by (auto simp: file_disk_def kernel_ex_def simp del: upt_rec_numeral)
qed

lemma built_disk_boots_witness:
  "\<exists>st bst'. mkbootdisk 1 (files_ex(''kernel'' \<mapsto> kernel_ex)) (replicate 0x90000 (Count 1)) [''boot'', ''kernel''] = Some (Inr st) \<and>
     d_out st 1 = 0xFE \<and> boot (d_out st) \<lparr>b_mem = \<lambda>_. 7, b_status = replicate 20 0x40\<rparr> = Some (0x40000, bst') \<and>
     b_mem bst' 0x40001 = 0xF4 \<and> b_mem bst' 0x40210 = 0 \<and> b_mem bst' 0x50011 = 0x2A"
proof -
  let ?st = "\<lparr>b_mem = \<lambda>_. 7, b_status = replicate 20 0x40\<rparr> :: boot_state" and ?io = "replicate 0x90000 (Count 1)"
  let ?files = "files_ex(''kernel'' \<mapsto> kernel_ex)"
  let ?code = "\<lparr>s_va = 0x40000, s_off = 0x1000, s_filesz = 0x200, s_memsz = 0x300\<rparr>"
  let ?data = "\<lparr>s_va = 0x50010, s_off = 0x1210, s_filesz = 5, s_memsz = 9\<rparr>"
  have len: "length kernel_ex = 0x1300" by (simp add: kernel_ex_def)
  have nth: "kernel_ex ! i = disk_ex (512 + i)" if "i < 0x1300" for i using that by (simp add: kernel_ex_def del: upt_rec_numeral)
  have io: "io_supply (513 * 1024 + length kernel_ex) ?io" by (simp add: io_supply_def len list_all_iff)
  have e: "e_magic (boot_header (file_disk kernel_ex)) ELFHDR = ELF_MAGIC"
    "unat (e_phoff (boot_header (file_disk kernel_ex)) ELFHDR) + 56 * unat (e_phnum (boot_header (file_disk kernel_ex)) ELFHDR) \<le> 0x1000"
    "e_entry (boot_header (file_disk kernel_ex)) ELFHDR = 0x40000" unfolding file_disk_ex
    by (simp_all add: e_magic_def e_entry_def e_phoff_def e_phnum_def ld64_def ld32_def ld16_def boot_header_def disk_ex_def Let_def)
  have f: "segs_fit (boot_segs (file_disk kernel_ex))" unfolding file_disk_ex
    by (simp add: disk_ex_segs seg_fits_def seg_lo_def seg_hi_def seg_sectors_def)
  have p: "16 + 2 * total_sectors (boot_segs (file_disk kernel_ex)) \<le> ready_polls (b_status ?st)" unfolding file_disk_ex
    by (simp add: disk_ex_segs seg_sectors_def disk_ready_def)
  have b: "?files ''boot'' = Some [0xEB, 0xFE]" "?files ''kernel'' = Some kernel_ex" "skip_target ''kernel'' = None"
    by (simp_all add: files_ex_def skip_target_def)
  have n: "''boot'' \<noteq> ''-p''" "''boot'' \<noteq> ''-m''" "length [0xEB, 0xFE :: u8] \<le> 510" by simp_all
  obtain st bst' where st: "mkbootdisk 1 ?files ?io [''boot'', ''kernel''] = Some (Inr st)" "\<forall>i < length [0xEB, 0xFE :: u8]. d_out st i = [0xEB, 0xFE] ! i"
    "boot (d_out st) ?st = Some (0x40000, bst')"
    and seg: "\<And>s x. s \<in> set (boot_segs (file_disk kernel_ex)) \<Longrightarrow> x < unat (s_memsz s) \<Longrightarrow> b_mem bst' (s_va s + of_nat x) =
         (if x < unat (s_filesz s) \<and> unat (s_off s) + x < length kernel_ex then kernel_ex ! (unat (s_off s) + x) else 0)"
    using built_disk_boots [OF n(1,2) b(1) n(3) b(3,2) io e(1,2) f p, of 1] unfolding e(3) by blast
  have "d_out st 1 = 0xFE" using st(2) by simp
  moreover have "b_mem bst' 0x40001 = 0xF4" "b_mem bst' 0x40210 = 0" "b_mem bst' 0x50011 = 0x2A"
    using seg [of ?code 1] seg [of ?code "0x210"] seg [of ?data 1] unfolding file_disk_ex
    by (simp_all add: disk_ex_segs len nth disk_ex_def Let_def)
  ultimately show ?thesis using st(1,3) by blast
qed

text \<open>An extended partition that links to itself: the search never comes back, however deep it may go.\<close>

lemma find_partition_endless:
  assumes "sect \<noteq> 0" "sect < 2 ^ 32" "sect * 512 + 512 \<le> d_len st" "part_magic (d_out st) sect"
    and "pt_extended (part_entry (d_out st) sect 0)" "pt_length (part_entry (d_out st) sect 0) \<noteq> 0"
    "pt_start (part_entry (d_out st) sect 0) = 0"
  shows "find_partition n sect sect st = None"
  using assms(3-7)
proof (induction n arbitrary: st)
  case (Suc n)
  let ?st = "st\<lparr>d_pos := sect * 512 + 512\<rparr>"
  have r: "readsect sect st = Some ?st" using Suc.prems(1) assms(2) by (simp add: readsect_def Let_def)
  have k: "\<not> pt_kernel (part_entry (d_out st) sect 0)" using Suc.prems(3) by (auto simp: pt_kernel_def pt_extended_def)
  have "find_partition n sect sect ?st = None" by (rule Suc.IH) (use Suc.prems in simp_all)
  then show ?case using Suc.prems r k assms(1) by simp
qed simp

end
