(* ===== verification/SymTab.thy ===== *)
theory SymTab
  imports BootDisk "HOL-Library.Multiset"
begin

text \<open>
  The symbol table tool (\<open>pset3/build/mkchickadeesymtab.cc\<close>): it checks an ELF image, moves its symbol
  table to a page boundary, fills in the kernel's reference to it, sorts it, and adds a program header that
  loads it. The image is memory that starts at address 0, so that pointers into it are offsets; the class
  \<open>elf_info\<close> is a record, with \<open>None\<close> for the null \<open>symtab_\<close>. \<open>Inl\<close> is a message and an exit.
\<close>

section \<open>The image\<close>

datatype elf_error = Not_elf | Component_sizes | Empty_components | Bad_offsets | No_shstrtab | Bad_shstrtab
  | No_null_section | Bad_section_name | Bad_section_range | Bad_link | Bad_symbol_name | Bad_strtab
  | Assert_failed | Phdr_spans | Program_spans | Section_spans | Bad_symtabref_size | Bad_reference
  | No_symtab | Unexpected_links | No_symbol | Unexpected_phdrs | Read_error | Out_error | Elf_stopped

record elf_info =
  ei_data :: mem
  ei_size :: u64
  ei_capacity :: u64
  ei_changed :: bool
  ei_ok :: bool
  ei_pht :: u64
  ei_sht :: u64
  ei_symtab :: "u64 option"
  ei_nsymtab :: nat
  ei_symstrtab :: u64

definition ELF_SHT_NULL :: u32 where [simp]: "ELF_SHT_NULL = 0"
definition ELF_SHT_PROGBITS :: u32 where [simp]: "ELF_SHT_PROGBITS = 1"
definition ELF_SHT_SYMTAB :: u32 where [simp]: "ELF_SHT_SYMTAB = 2"
definition ELF_SHT_STRTAB :: u32 where [simp]: "ELF_SHT_STRTAB = 3"
definition ELF_SHT_NOBITS :: u32 where [simp]: "ELF_SHT_NOBITS = 8"
definition ELF_SHF_ALLOC :: u64 where [simp]: "ELF_SHF_ALLOC = 2"
definition ELF_STT_MASK :: u8 where [simp]: "ELF_STT_MASK = 0x0F"
definition ELF_STT_OBJECT :: u8 where [simp]: "ELF_STT_OBJECT = 1"
definition ELF_STT_FUNC :: u8 where [simp]: "ELF_STT_FUNC = 2"

definition e_shoff :: "mem \<Rightarrow> u64" where "e_shoff m = ld64 m 0x28"
definition e_phentsize :: "mem \<Rightarrow> u16" where "e_phentsize m = ld16 m 0x36"
definition e_shentsize :: "mem \<Rightarrow> u16" where "e_shentsize m = ld16 m 0x3A"
definition e_shnum :: "mem \<Rightarrow> u16" where "e_shnum m = ld16 m 0x3C"
definition e_shstrndx :: "mem \<Rightarrow> u16" where "e_shstrndx m = ld16 m 0x3E"

text \<open>Section \<open>i\<close> of a table, and its members; program header \<open>i\<close>.\<close>

definition sec :: "u64 \<Rightarrow> nat \<Rightarrow> u64" where "sec t i = t + 64 * of_nat i"
definition phdr :: "u64 \<Rightarrow> nat \<Rightarrow> u64" where "phdr t i = t + phdr_size * of_nat i"

definition sh_name :: "mem \<Rightarrow> u64 \<Rightarrow> u32" where "sh_name m s = ld32 m s"
definition sh_type :: "mem \<Rightarrow> u64 \<Rightarrow> u32" where "sh_type m s = ld32 m (s + 0x04)"
definition sh_flags :: "mem \<Rightarrow> u64 \<Rightarrow> u64" where "sh_flags m s = ld64 m (s + 0x08)"
definition sh_addr :: "mem \<Rightarrow> u64 \<Rightarrow> u64" where "sh_addr m s = ld64 m (s + 0x10)"
definition sh_offset :: "mem \<Rightarrow> u64 \<Rightarrow> u64" where "sh_offset m s = ld64 m (s + 0x18)"
definition sh_size :: "mem \<Rightarrow> u64 \<Rightarrow> u64" where "sh_size m s = ld64 m (s + 0x20)"
definition sh_link :: "mem \<Rightarrow> u64 \<Rightarrow> u32" where "sh_link m s = ld32 m (s + 0x28)"
definition sh_addralign :: "mem \<Rightarrow> u64 \<Rightarrow> u64" where "sh_addralign m s = ld64 m (s + 0x30)"

abbreviation in_file :: "u32 \<Rightarrow> bool" where
  "in_file t \<equiv> t \<noteq> ELF_SHT_NULL \<and> t \<noteq> ELF_SHT_NOBITS"

text \<open>A symbol is its 24 bytes.\<close>

type_synonym sym_bytes = "u8 list"

definition sym_mem :: "sym_bytes \<Rightarrow> mem" where
  "sym_mem b = (\<lambda>x. if unat x < length b then b ! unat x else 0)"

definition sy_name :: "sym_bytes \<Rightarrow> u32" where "sy_name b = ld32 (sym_mem b) 0"
definition sy_info :: "sym_bytes \<Rightarrow> u8" where "sy_info b = sym_mem b 4"
definition sy_shndx :: "sym_bytes \<Rightarrow> u16" where "sy_shndx b = ld16 (sym_mem b) 6"
definition sy_value :: "sym_bytes \<Rightarrow> u64" where "sy_value b = ld64 (sym_mem b) 8"
definition sy_size :: "sym_bytes \<Rightarrow> u64" where "sy_size b = ld64 (sym_mem b) 16"

definition sym_at :: "mem \<Rightarrow> u64 \<Rightarrow> nat \<Rightarrow> sym_bytes" where
  "sym_at m t i = mem_read m (t + 24 * of_nat i) 24"

section \<open>Growing\<close>

text \<open>The new bytes are not initialised; the model leaves what is there.\<close>

definition grow :: "u64 \<Rightarrow> elf_info \<Rightarrow> elf_info" where
  "grow capacity ei =
     (if capacity > ei_capacity ei then
        let ei1 = ei\<lparr>ei_capacity := max capacity (ei_capacity ei + 32768)\<rparr>
        in if ei_ok ei then
             ei1\<lparr>ei_pht := e_phoff (ei_data ei) 0, ei_sht := e_shoff (ei_data ei), ei_symtab := None, ei_nsymtab := 0\<rparr>
           else ei1
      else ei)"

section \<open>Checking\<close>

text \<open>The first message of a list of checks.\<close>

fun first_error :: "(nat \<Rightarrow> elf_error option) \<Rightarrow> nat \<Rightarrow> nat \<Rightarrow> elf_error option" where
  "first_error f i 0 = None"
| "first_error f i (Suc n) = (case f i of Some e \<Rightarrow> Some e | None \<Rightarrow> first_error f (i + 1) n)"

definition check_symbol :: "mem \<Rightarrow> u64 \<Rightarrow> u64 \<Rightarrow> nat \<Rightarrow> elf_error option" where
  "check_symbol m t strsize j = (if ucast (sy_name (sym_at m t j)) \<ge> strsize then Some Bad_symbol_name else None)"

definition check_section :: "mem \<Rightarrow> u64 \<Rightarrow> u64 \<Rightarrow> u64 \<Rightarrow> nat \<Rightarrow> elf_error option" where
  "check_section m sz t shstrtab_size i =
     (let s = sec t i; ty = sh_type m s in
      if i = 0 \<and> ty \<noteq> ELF_SHT_NULL then Some No_null_section
      else if ucast (sh_name m s) \<ge> shstrtab_size then Some Bad_section_name
      else if in_file ty \<and> (sh_offset m s \<ge> sz \<or> sh_size m s > sz - sh_offset m s) then Some Bad_section_range
      else if ty = ELF_SHT_SYMTAB \<and>
              (sh_link m s \<ge> ucast (e_shnum m) \<or> sh_type m (sec t (unat (sh_link m s))) \<noteq> ELF_SHT_STRTAB)
      then Some Bad_link
      else
        case (if ty = ELF_SHT_SYMTAB
              then first_error (check_symbol m (sh_offset m s) (sh_size m (sec t (unat (sh_link m s))))) 0
                     (unat (sh_size m s) div 24)
              else None) of
          Some e \<Rightarrow> Some e
        | None \<Rightarrow>
            if ty = ELF_SHT_STRTAB \<and>
               (sh_size m s = 0 \<or> m (sh_offset m s) \<noteq> 0 \<or> m (sh_offset m s + sh_size m s - 1) \<noteq> 0)
            then Some Bad_strtab else None)"

definition check_image :: "mem \<Rightarrow> u64 \<Rightarrow> elf_error option" where
  "check_image m sz =
     (let ph = e_phoff m 0; sh = e_shoff m; str = sec sh (unat (e_shstrndx m)) in
      if sz < 64 \<or> e_magic m 0 \<noteq> ELF_MAGIC then Some Not_elf
      else if e_phentsize m \<noteq> 56 \<or> e_shentsize m \<noteq> 64 then Some Component_sizes
      else if e_phnum m 0 = 0 \<or> e_shnum m = 0 then Some Empty_components
      else if ph \<ge> sz \<or> (sz - ph) div 56 < ucast (e_phnum m 0) \<or> sh \<ge> sz \<or> (sz - sh) div 64 < ucast (e_shnum m)
      then Some Bad_offsets
      else if e_shstrndx m = 0 \<or> e_shstrndx m \<ge> e_shnum m \<or> sh_type m str \<noteq> ELF_SHT_STRTAB \<or> sh_size m str = 0
      then Some No_shstrtab
      else if m (sh_offset m str) \<noteq> 0 \<or> m (sh_offset m str + sh_size m str - 1) \<noteq> 0 then Some Bad_shstrtab
      else first_error (check_section m sz sh (sh_size m str)) 0 (unat (e_shnum m)))"

definition validate :: "elf_info \<Rightarrow> elf_error + elf_info" where
  "validate ei =
     (if ei_ok ei then Inr ei
      else case check_image (ei_data ei) (ei_size ei) of
             Some e \<Rightarrow> Inl e
           | None \<Rightarrow> Inr (ei\<lparr>ei_pht := e_phoff (ei_data ei) 0, ei_sht := e_shoff (ei_data ei), ei_ok := True\<rparr>))"

section \<open>Sections and symbols\<close>

text \<open>Equality of the C string at \<open>p\<close> and a name.\<close>

fun mem_streq :: "mem \<Rightarrow> u64 \<Rightarrow> u8 list \<Rightarrow> bool" where
  "mem_streq m p [] = (m p = 0)"
| "mem_streq m p (c # cs) = (m p = c \<and> mem_streq m (p + 1) cs)"

definition shstrtab :: "elf_info \<Rightarrow> u64" where
  "shstrtab ei = sh_offset (ei_data ei) (sec (ei_sht ei) (unat (e_shstrndx (ei_data ei))))"

fun find_section_from :: "elf_info \<Rightarrow> u8 list \<Rightarrow> nat \<Rightarrow> nat \<Rightarrow> nat" where
  "find_section_from ei name i 0 = 0"
| "find_section_from ei name i (Suc n) =
     (if mem_streq (ei_data ei) (shstrtab ei + ucast (sh_name (ei_data ei) (sec (ei_sht ei) i))) name then i
      else find_section_from ei name (i + 1) n)"

definition find_section :: "elf_info \<Rightarrow> u8 list \<Rightarrow> nat" where
  "find_section ei name = find_section_from ei name 0 (unat (e_shnum (ei_data ei)))"

definition first_offset :: "elf_info \<Rightarrow> u64" where
  "first_offset ei =
     fold (\<lambda>i acc. let s = sec (ei_sht ei) i in
             if in_file (sh_type (ei_data ei) s) then min acc (sh_offset (ei_data ei) s) else acc)
       [0..<unat (e_shnum (ei_data ei))] (- 1)"

definition symtab_name :: "u8 list" where
  "symtab_name = [0x2E, 0x73, 0x79, 0x6D, 0x74, 0x61, 0x62]"

definition load_symtab :: "elf_info \<Rightarrow> elf_info" where
  "load_symtab ei =
     (case ei_symtab ei of
        Some _ \<Rightarrow> ei
      | None \<Rightarrow>
          let i = find_section ei symtab_name; m = ei_data ei; s = sec (ei_sht ei) i in
          if i \<noteq> 0 \<and> sh_type m s = ELF_SHT_SYMTAB then
            ei\<lparr>ei_symtab := Some (sh_offset m s), ei_nsymtab := (unat (sh_size m s) div 24) mod 2 ^ 32,
               ei_symstrtab := sh_offset m (sec (ei_sht ei) (unat (sh_link m s)))\<rparr>
          else ei)"

definition sym_special :: "sym_bytes \<Rightarrow> bool" where
  "sym_special a \<longleftrightarrow> sy_info a AND ELF_STT_MASK > ELF_STT_FUNC"

definition symbol_less :: "sym_bytes \<Rightarrow> sym_bytes \<Rightarrow> bool" where
  "symbol_less a b =
     (if sym_special a \<or> sym_special b then sym_special a \<and> \<not> sym_special b
      else sy_value a < sy_value b \<or> sy_value a = sy_value b \<and> sy_size a < sy_size b)"

text \<open>\<open>std::stable_sort\<close>.\<close>

fun insert_stable :: "('a \<Rightarrow> 'a \<Rightarrow> bool) \<Rightarrow> 'a \<Rightarrow> 'a list \<Rightarrow> 'a list" where
  "insert_stable lt x [] = [x]"
| "insert_stable lt x (y # ys) = (if lt y x then y # insert_stable lt x ys else x # y # ys)"

definition stable_sort :: "('a \<Rightarrow> 'a \<Rightarrow> bool) \<Rightarrow> 'a list \<Rightarrow> 'a list" where
  "stable_sort lt xs = foldr (insert_stable lt) xs []"

text \<open>The symbols \<open>1, \<dots>\<close> of the table at \<open>t\<close>, and their storing back.\<close>

definition table_syms :: "mem \<Rightarrow> u64 \<Rightarrow> nat \<Rightarrow> sym_bytes list" where
  "table_syms m t n = map (sym_at m t) [1..<n]"

definition store_syms :: "mem \<Rightarrow> u64 \<Rightarrow> sym_bytes list \<Rightarrow> mem" where
  "store_syms m t ss =
     (\<lambda>x. let k = unat (x - (t + 24)) in if k < 24 * length ss then ss ! (k div 24) ! (k mod 24) else m x)"

function sort_scan :: "mem \<Rightarrow> u64 \<Rightarrow> nat \<Rightarrow> nat \<Rightarrow> nat" where
  "sort_scan m t n i = (if i < n \<and> \<not> symbol_less (sym_at m t i) (sym_at m t (i - 1)) then sort_scan m t n (i + 1) else i)"
  by pat_completeness auto
termination by (relation "measure (\<lambda>(m, t, n, i). n - i)") auto

declare sort_scan.simps [simp del]

definition sort_symtab :: "elf_info \<Rightarrow> elf_info" where
  "sort_symtab ei0 =
     (let ei = load_symtab ei0 in
      case ei_symtab ei of
        None \<Rightarrow> ei
      | Some t \<Rightarrow>
          if sort_scan (ei_data ei) t (ei_nsymtab ei) 2 < ei_nsymtab ei then
            ei\<lparr>ei_data := store_syms (ei_data ei) t (stable_sort symbol_less (table_syms (ei_data ei) t (ei_nsymtab ei))), ei_changed := True\<rparr>
          else ei)"

text \<open>\<open>find_symbol\<close>, from an index on.\<close>

function find_symbol_from :: "elf_info \<Rightarrow> u64 \<Rightarrow> u8 list \<Rightarrow> nat \<Rightarrow> nat option" where
  "find_symbol_from ei t name i =
     (if i < ei_nsymtab ei then
        if mem_streq (ei_data ei) (ei_symstrtab ei + ucast (sy_name (sym_at (ei_data ei) t i))) name then Some i
        else find_symbol_from ei t name (i + 1)
      else None)"
  by pat_completeness auto
termination by (relation "measure (\<lambda>(ei, t, name, i). ei_nsymtab ei - i)") auto

declare find_symbol_from.simps [simp del]

section \<open>Moving sections\<close>

definition shift_phdr :: "u64 \<Rightarrow> u64 \<Rightarrow> mem \<Rightarrow> u64 \<Rightarrow> elf_error + mem" where
  "shift_phdr offset diff m p =
     (if p_offset m p \<ge> offset then Inr (st64 m (p + 0x08) (p_offset m p + diff))
      else if p_offset m p + p_filesz m p > offset then Inl Program_spans else Inr m)"

definition shift_shdr :: "u64 \<Rightarrow> u64 \<Rightarrow> mem \<Rightarrow> u64 \<Rightarrow> elf_error + mem" where
  "shift_shdr offset diff m s =
     (if sh_offset m s \<ge> offset then Inr (st64 m (s + 0x18) (sh_offset m s + diff))
      else if in_file (sh_type m s) \<and> sh_offset m s + sh_size m s > offset then Inl Section_spans else Inr m)"

fun shift_headers :: "(mem \<Rightarrow> u64 \<Rightarrow> elf_error + mem) \<Rightarrow> u64 \<Rightarrow> u64 \<Rightarrow> nat \<Rightarrow> mem \<Rightarrow> elf_error + mem" where
  "shift_headers f p step 0 m = Inr m"
| "shift_headers f p step (Suc n) m =
     (case f m p of Inl e \<Rightarrow> Inl e | Inr m1 \<Rightarrow> shift_headers f (p + step) step n m1)"

definition shift_sections :: "u64 \<Rightarrow> u64 \<Rightarrow> elf_info \<Rightarrow> elf_error + elf_info" where
  "shift_sections offset diff ei =
     (let m = ei_data ei in
      if \<not> (offset < ei_size ei \<and> 0 <s diff) then Inl Assert_failed
      else if e_phoff m 0 + ucast (e_phnum m 0) * 56 \<ge> offset then Inl Phdr_spans
      else
        case shift_headers (shift_phdr offset diff) (ei_pht ei) phdr_size (unat (e_phnum m 0)) m of
          Inl e \<Rightarrow> Inl e
        | Inr m1 \<Rightarrow>
            (case shift_headers (shift_shdr offset diff) (ei_sht ei) 64 (unat (e_shnum m)) m1 of
               Inl e \<Rightarrow> Inl e
             | Inr m2 \<Rightarrow>
                 let ei1 = grow (ei_size ei + diff) (ei\<lparr>ei_data := m2\<rparr>);
                     m3 = mem_fill (mem_copy m2 (offset + diff) offset (ei_size ei - offset)) offset 0 diff;
                     ei2 = ei1\<lparr>ei_data := m3, ei_size := ei_size ei + diff, ei_changed := True\<rparr>
                 in if e_shoff m3 \<ge> offset
                    then Inr (ei2\<lparr>ei_data := st64 m3 0x28 (e_shoff m3 + diff), ei_sht := e_shoff m3 + diff\<rparr>)
                    else Inr ei2))"

section \<open>The kernel's reference to the table\<close>

definition symtabref_bytes :: "u64 \<Rightarrow> u64 \<Rightarrow> u64 \<Rightarrow> u64 \<Rightarrow> mem \<Rightarrow> u64 \<Rightarrow> mem" where
  "symtabref_bytes sy nsym strtab sz m p = st64 (st64 (st64 (st64 m p sy) (p + 8) nsym) (p + 16) strtab) (p + 24) sz"

definition symtabref_same :: "u64 \<Rightarrow> u64 \<Rightarrow> u64 \<Rightarrow> u64 \<Rightarrow> mem \<Rightarrow> u64 \<Rightarrow> bool" where
  "symtabref_same sy nsym strtab sz m p \<longleftrightarrow>
     ld64 m p = sy \<and> ld64 m (p + 8) = nsym \<and> ld64 m (p + 16) = strtab \<and> ld64 m (p + 24) = sz"

text \<open>What one symbol with the name does: nothing unless it is an object of a section.\<close>

definition ref_symbol :: "u64 \<Rightarrow> u64 \<Rightarrow> sym_bytes \<Rightarrow> u64 \<times> elf_info \<Rightarrow> elf_error + (bool \<times> u64 \<times> elf_info)" where
  "ref_symbol strtab_off sz sy acc =
     (case acc of (loadaddr, ei) \<Rightarrow>
      let m = ei_data ei; s = sec (ei_sht ei) (unat (sy_shndx sy)) in
      if sy_info sy AND ELF_STT_MASK = ELF_STT_OBJECT \<and> sy_shndx sy < e_shnum m then
        if sy_size sy \<noteq> 32 then Inl Bad_symtabref_size
        else if sh_type m s \<noteq> ELF_SHT_PROGBITS \<or> sy_value sy < sh_addr m s \<or>
                sy_value sy \<ge> sh_addr m s + sh_size m s - 32 then Inl Bad_reference
        else
          let off = sh_offset m s + (sy_value sy - sh_addr m s);
              load = (if loadaddr = 0 then ld64 m off else loadaddr);
              nsym = of_nat (ei_nsymtab ei)
          in if symtabref_same load nsym (load + strtab_off) sz m off then Inr (True, load, ei)
             else Inr (True, load, ei\<lparr>ei_data := symtabref_bytes load nsym (load + strtab_off) sz m off, ei_changed := True\<rparr>)
      else Inr (False, loadaddr, ei))"

lemma find_symbol_range: "find_symbol_from ei t name i = Some j \<Longrightarrow> i \<le> j \<and> j < ei_nsymtab ei"
proof (induction ei t name i rule: find_symbol_from.induct)
  case (1 ei t name i)
  then show ?case by (subst (asm) find_symbol_from.simps) (fastforce split: if_splits)
qed

lemma ref_symbol_nsymtab: "ref_symbol so sz sy acc = Inr (b, acc1) \<Longrightarrow> ei_nsymtab (snd acc1) = ei_nsymtab (snd acc)"
  by (auto simp: ref_symbol_def Let_def split: prod.splits if_splits)

function rewrite_from :: "u8 list \<Rightarrow> u64 \<Rightarrow> u64 \<Rightarrow> u64 \<Rightarrow> nat \<Rightarrow> u64 \<times> elf_info \<Rightarrow> elf_error + (nat \<times> u64 \<times> elf_info)" where
  "rewrite_from name strtab_off sz t i acc =
     (case find_symbol_from (snd acc) t name i of
        None \<Rightarrow> Inr (0, acc)
      | Some j \<Rightarrow>
          (case ref_symbol strtab_off sz (sym_at (ei_data (snd acc)) t j) acc of
             Inl e \<Rightarrow> Inl e
           | Inr (found, acc1) \<Rightarrow>
               (case rewrite_from name strtab_off sz t (j + 1) acc1 of
                  Inl e \<Rightarrow> Inl e
                | Inr (k, acc2) \<Rightarrow> Inr (k + of_bool found, acc2))))"
  by pat_completeness auto
termination
proof (relation "measure (\<lambda>(name, so, sz, t, i, acc). ei_nsymtab (snd acc) - i)", goal_cases)
  case (2 name so sz t i acc j r found acc1)
  then show ?case using find_symbol_range [OF 2(1)] ref_symbol_nsymtab [of so sz _ acc found acc1] by auto
qed simp

declare rewrite_from.simps [simp del]

definition rewrite_symtabref :: "u8 list \<Rightarrow> u64 \<Rightarrow> u64 \<Rightarrow> u64 \<Rightarrow> elf_info \<Rightarrow> elf_error + (nat \<times> u64 \<times> elf_info)" where
  "rewrite_symtabref name loadaddr strtab_off sz ei0 =
     (let ei = load_symtab ei0 in
      case ei_symtab ei of
        None \<Rightarrow> Inr (0, loadaddr, ei)
      | Some t \<Rightarrow> rewrite_from name strtab_off sz t 0 (loadaddr, ei))"

section \<open>The program\<close>

text \<open>The two sections that are loaded: marking one.\<close>

definition mark_alloc :: "u64 \<Rightarrow> u64 \<Rightarrow> elf_info \<Rightarrow> elf_info" where
  "mark_alloc s addr ei =
     (if sh_flags (ei_data ei) s AND ELF_SHF_ALLOC = 0 then
        ei\<lparr>ei_data := st64 (st64 (ei_data ei) (s + 0x08) (sh_flags (ei_data ei) s OR ELF_SHF_ALLOC)) (s + 0x10) addr,
           ei_changed := True\<rparr>
      else ei)"

definition st16 :: "mem \<Rightarrow> u64 \<Rightarrow> u16 \<Rightarrow> mem" where
  "st16 m a v = m(a := ucast v, a + 1 := ucast (drop_bit 8 v))"

definition st32 :: "mem \<Rightarrow> u64 \<Rightarrow> u32 \<Rightarrow> mem" where
  "st32 m a v = m(a := ucast v, a + 1 := ucast (drop_bit 8 v), a + 2 := ucast (drop_bit 16 v), a + 3 := ucast (drop_bit 24 v))"

fun find_phdr :: "mem \<Rightarrow> u64 \<Rightarrow> u64 \<Rightarrow> nat \<Rightarrow> nat \<Rightarrow> nat" where
  "find_phdr m t loadaddr i 0 = i"
| "find_phdr m t loadaddr i (Suc n) =
     (if p_va m (phdr t i) + p_filesz m (phdr t i) < loadaddr then find_phdr m t loadaddr (i + 1) n else i)"

definition write_phdr :: "u64 \<Rightarrow> u64 \<Rightarrow> u64 \<Rightarrow> mem \<Rightarrow> u64 \<Rightarrow> mem" where
  "write_phdr fst_off loadaddr sz m p =
     st64 (st64 (st64 (st64 (st64 (st64 (st32 (st32 m p 1) (p + 0x04) 4) (p + 0x08) fst_off) (p + 0x10) loadaddr)
       (p + 0x18) loadaddr) (p + 0x20) sz) (p + 0x28) sz) (p + 0x30) 0x1000"

definition add_phdr :: "u64 \<Rightarrow> u64 \<Rightarrow> u64 \<Rightarrow> elf_info \<Rightarrow> elf_error + elf_info" where
  "add_phdr loadaddr fst_off lst ei =
     (let m = ei_data ei; t = ei_pht ei; n = unat (e_phnum m 0); i = find_phdr m t loadaddr 0 n; p = phdr t i in
      if i \<noteq> n \<and> p_va m p = loadaddr \<and> p_offset m p = fst_off \<and> p_filesz m p \<ge> lst - fst_off then Inr ei
      else if e_phoff m 0 + (ucast (e_phnum m 0) + 1) * 56 > first_offset ei \<or> e_shoff m \<le> first_offset ei
      then Inl Unexpected_phdrs
      else
        let m1 = mem_copy m (p + phdr_size) p (of_nat (n - i) * phdr_size);
            m2 = st16 m1 0x38 (e_phnum m1 0 + 1)
        in Inr (ei\<lparr>ei_data := write_phdr fst_off loadaddr (lst - fst_off) m2 p, ei_changed := True\<rparr>))"

text \<open>The alignment of the symbol table.\<close>

definition align_symtab :: "nat \<Rightarrow> elf_info \<Rightarrow> elf_error + elf_info" where
  "align_symtab ndx ei =
     (let m = ei_data ei; s = sec (ei_sht ei) ndx; off = sh_offset m s in
      if off AND 0xFFF \<noteq> 0 then
        if \<not> sh_addralign m s < 0x1000 then Inl Assert_failed
        else shift_sections off (0x1000 - (off AND 0xFFF)) (ei\<lparr>ei_data := st64 m (s + 0x30) 0x1000, ei_changed := True\<rparr>)
      else Inr ei)"

text \<open>From the check of the image to its last change; \<open>given\<close> says that the symbol was asked for with
  \<open>-s\<close>, and \<open>loadaddr\<close> comes from \<open>-a\<close>.\<close>

definition finish_image :: "nat \<Rightarrow> u64 \<Rightarrow> u64 \<Rightarrow> u64 \<Rightarrow> u64 \<Rightarrow> elf_info \<Rightarrow> elf_error + elf_info" where
  "finish_image ndx loadaddr fst_off strtab lst ei =
     (let ei1 = sort_symtab ei in
      if loadaddr = 0 then Inr ei1
      else
        let ei2 = mark_alloc (sec (ei_sht ei1) ndx) loadaddr ei1;
            ei3 = mark_alloc (sec (ei_sht ei2) (ndx + 1)) (loadaddr + strtab - fst_off) ei2
        in add_phdr loadaddr fst_off lst ei3)"

definition process_image :: "u64 \<Rightarrow> u8 list \<Rightarrow> bool \<Rightarrow> elf_info \<Rightarrow> elf_error + elf_info" where
  "process_image loadaddr name given ei0 =
     (case validate ei0 of
        Inl e \<Rightarrow> Inl e
      | Inr ei1 \<Rightarrow>
          let ndx = find_section ei1 symtab_name; m = ei_data ei1; s = sec (ei_sht ei1) ndx in
          if ndx = 0 \<or> sh_type m s \<noteq> ELF_SHT_SYMTAB then Inl No_symtab
          else if sh_link m s \<ge> ucast (e_shnum m) \<or> sh_link m s \<noteq> of_nat (ndx + 1) \<or>
                  sh_type m (sec (ei_sht ei1) (unat (sh_link m s))) \<noteq> ELF_SHT_STRTAB then Inl Unexpected_links
          else
            (case align_symtab ndx ei1 of
               Inl e \<Rightarrow> Inl e
             | Inr ei2 \<Rightarrow>
                 let m2 = ei_data ei2;
                     fst_off = sh_offset m2 (sec (ei_sht ei2) ndx);
                     strtab = sh_offset m2 (sec (ei_sht ei2) (ndx + 1));
                     lst = strtab + sh_size m2 (sec (ei_sht ei2) (ndx + 1))
                 in case rewrite_symtabref name loadaddr (strtab - fst_off) (lst - fst_off) ei2 of
                      Inl e \<Rightarrow> Inl e
                    | Inr (nfound, loadaddr1, ei3) \<Rightarrow>
                        if nfound = 0 \<and> given then Inl No_symbol
                        else finish_image ndx loadaddr1 fst_off strtab lst ei3))"

section \<open>Reading and writing the image\<close>

text \<open>The results of the \<open>read\<close> calls: the bytes of the file in pieces, the empty one at its end.\<close>

datatype read_result = RAgain | RFail | RBytes "u8 list"

fun read_image :: "read_result list \<Rightarrow> elf_info \<Rightarrow> elf_error + elf_info" where
  "read_image [] ei = Inl Elf_stopped"
| "read_image (r # rs) ei0 =
     (let ei = (if ei_size ei0 = ei_capacity ei0 then grow (ei_capacity ei0 * 2) ei0 else ei0) in
      case r of
        RAgain \<Rightarrow> read_image rs ei
      | RFail \<Rightarrow> Inl Read_error
      | RBytes [] \<Rightarrow> Inr ei
      | RBytes bs \<Rightarrow>
          let got = take (unat (ei_capacity ei - ei_size ei)) bs
          in read_image rs (ei\<lparr>ei_data := mem_write (ei_data ei) (ei_size ei) got, ei_size := ei_size ei + of_nat (length got)\<rparr>))"

text \<open>The \<open>write\<close> calls: a write of nothing is tried again.\<close>

fun out_loop :: "mem \<Rightarrow> u64 \<Rightarrow> io_result list \<Rightarrow> u64 \<Rightarrow> u8 list \<Rightarrow> (elf_error \<times> u8 list) + u8 list" where
  "out_loop m sz [] off out = (if off = sz then Inr out else Inl (Elf_stopped, out))"
| "out_loop m sz (r # rs) off out =
     (if off = sz then Inr out
      else case r of
             Intr \<Rightarrow> out_loop m sz rs off out
           | Fail \<Rightarrow> Inl (Out_error, out)
           | Count w \<Rightarrow>
               let w1 = min w (unat (sz - off))
               in out_loop m sz rs (off + of_nat w1) (out @ mem_read m off w1))"

text \<open>The size of the buffer at the start, for a regular file of \<open>fsize\<close> bytes or something else.\<close>

definition initial_capacity :: "u64 option \<Rightarrow> u64" where
  "initial_capacity fsize = (case fsize of Some s \<Rightarrow> (s + 32767) AND NOT 32767 | None \<Rightarrow> 262144)"

definition elf_start :: "u64 option \<Rightarrow> elf_info" where
  "elf_start fsize = grow (initial_capacity fsize)
     \<lparr>ei_data = \<lambda>_. 0, ei_size = 0, ei_capacity = 0, ei_changed = False, ei_ok = False, ei_pht = 0, ei_sht = 0,
      ei_symtab = None, ei_nsymtab = 0, ei_symstrtab = 0\<rparr>"

text \<open>The program; an image that needs no change, in a file that would be its own output, is not written:
  the result is then \<open>None\<close>.\<close>

definition mkchickadeesymtab :: "u64 option \<Rightarrow> read_result list \<Rightarrow> io_result list \<Rightarrow> u64 \<Rightarrow> u8 list \<Rightarrow> bool \<Rightarrow> bool
    \<Rightarrow> (elf_error \<times> u8 list) + u8 list option" where
  "mkchickadeesymtab fsize reads writes loadaddr name given in_place =
     (case read_image reads (elf_start fsize) of
        Inl e \<Rightarrow> Inl (e, [])
      | Inr ei \<Rightarrow>
          (case process_image loadaddr name given ei of
             Inl e \<Rightarrow> Inl (e, [])
           | Inr ei1 \<Rightarrow>
               if \<not> ei_changed ei1 \<and> in_place then Inr None
               else case out_loop (ei_data ei1) (ei_size ei1) writes 0 [] of
                      Inl e \<Rightarrow> Inl e
                    | Inr out \<Rightarrow> Inr (Some out)))"

section \<open>Stable sorting\<close>

text \<open>The interface of a sort: a strict weak order.\<close>

locale weak_order =
  fixes lt :: "'a \<Rightarrow> 'a \<Rightarrow> bool"
  assumes asym: "lt x y \<Longrightarrow> \<not> lt y x"
    and neg_trans: "\<not> lt y x \<Longrightarrow> \<not> lt z y \<Longrightarrow> \<not> lt z x"
begin

abbreviation in_order :: "'a list \<Rightarrow> bool" where
  "in_order xs \<equiv> sorted_wrt (\<lambda>x y. \<not> lt y x) xs"

abbreviation equiv :: "'a \<Rightarrow> 'a \<Rightarrow> bool" where
  "equiv x y \<equiv> \<not> lt x y \<and> \<not> lt y x"

lemma mset_insert_stable: "mset (insert_stable lt x ys) = add_mset x (mset ys)"
  by (induction ys) auto

lemma set_insert_stable: "set (insert_stable lt x ys) = insert x (set ys)"
  by (induction ys) auto

lemma insert_stable_in_order: "in_order ys \<Longrightarrow> in_order (insert_stable lt x ys)"
proof (induction ys)
  case (Cons y ys)
  show ?case
  proof (cases "lt y x")
    case True
    then show ?thesis using Cons asym by (auto simp: set_insert_stable)
  next
    case False
    then show ?thesis using Cons.prems neg_trans by auto
  qed
qed simp

lemma insert_stable_filter: "filter (equiv z) (insert_stable lt x ys) = filter (equiv z) (x # ys)"
proof (induction ys)
  case (Cons y ys)
  have "\<not> (equiv z y \<and> equiv z x)" if "lt y x" using that neg_trans by blast
  then show ?case using Cons by auto
qed simp

lemma stable_sort_Nil: "stable_sort lt [] = []"
  by (simp add: stable_sort_def)

lemma stable_sort_Cons: "stable_sort lt (x # xs) = insert_stable lt x (stable_sort lt xs)"
  by (simp add: stable_sort_def)

lemma stable_sort_in_order: "in_order (stable_sort lt xs)"
  by (induction xs) (simp_all add: stable_sort_Nil stable_sort_Cons insert_stable_in_order)

lemma mset_stable_sort: "mset (stable_sort lt xs) = mset xs"
  by (induction xs) (simp_all add: stable_sort_Nil stable_sort_Cons mset_insert_stable)

lemma stable_sort_filter: "filter (equiv z) (stable_sort lt xs) = filter (equiv z) xs"
  by (induction xs) (simp_all add: stable_sort_Nil stable_sort_Cons insert_stable_filter)

text \<open>A list whose neighbours are in order is in order.\<close>

lemma neighbours_in_order:
  assumes "\<And>i. Suc i < length xs \<Longrightarrow> \<not> lt (xs ! Suc i) (xs ! i)"
  shows "in_order xs"
  using assms
proof (induction xs)
  case (Cons x xs)
  have tail: "\<And>i. Suc i < length xs \<Longrightarrow> \<not> lt (xs ! Suc i) (xs ! i)" using Cons.prems by fastforce
  then have o: "in_order xs" by (rule Cons.IH)
  show ?case
  proof (cases xs)
    case (Cons y ys)
    then have "\<not> lt y x" using Cons.prems [of 0] by simp
    then show ?thesis using o Cons neg_trans by auto
  qed simp
qed simp

end

interpretation sym_order: weak_order symbol_less
  by unfold_locales (auto simp: symbol_less_def split: if_splits)

section \<open>The sorted table\<close>

lemma length_sym_at [simp]: "length (sym_at m t i) = 24"
  by (simp add: sym_at_def)

lemma sort_scan_stop: "i \<le> sort_scan m t n i \<and> (\<forall>j. i \<le> j \<and> j < sort_scan m t n i \<longrightarrow> \<not> symbol_less (sym_at m t j) (sym_at m t (j - 1)))"
proof (induction m t n i rule: sort_scan.induct)
  case (1 m t n i)
  show ?case
  proof (cases "i < n \<and> \<not> symbol_less (sym_at m t i) (sym_at m t (i - 1))")
    case True
    note ih = 1 [OF True]
    have e: "sort_scan m t n i = sort_scan m t n (i + 1)" using True by (subst sort_scan.simps) simp
    show ?thesis unfolding e
    proof (intro conjI allI impI)
      show "i \<le> sort_scan m t n (i + 1)" using ih by linarith
      fix j assume "i \<le> j \<and> j < sort_scan m t n (i + 1)"
      then show "\<not> symbol_less (sym_at m t j) (sym_at m t (j - 1))" using ih True by (cases "j = i") auto
    qed
  next
    case False
    then have e: "sort_scan m t n i = i" by (subst sort_scan.simps) (rule if_not_P)
    show ?thesis unfolding e by auto
  qed
qed

lemma scan_sorted:
  assumes "\<not> sort_scan m t n 2 < n"
  shows "sym_order.in_order (table_syms m t n)"
proof (rule sym_order.neighbours_in_order)
  fix i assume "Suc i < length (table_syms m t n)"
  then have i: "Suc (Suc i) < n" by (simp add: table_syms_def)
  then have "\<not> symbol_less (sym_at m t (Suc (Suc i))) (sym_at m t (Suc (Suc i) - 1))"
    using sort_scan_stop [of 2 m t n] assms by (metis One_nat_def Suc_1 Suc_leI le_less_trans less_le_trans not_less zero_less_Suc Suc_le_mono)
  then show "\<not> symbol_less (table_syms m t n ! Suc i) (table_syms m t n ! i)" using i by (simp add: table_syms_def)
qed

text \<open>Storing symbols back: the entries are the new ones, and no other byte changes.\<close>

lemma store_syms_entry:
  assumes "\<And>s. s \<in> set ss \<Longrightarrow> length s = 24" "24 * length ss + 24 < 2 ^ 64" "i < length ss"
  shows "sym_at (store_syms m t ss) t (Suc i) = ss ! i"
proof (rule nth_equalityI)
  show l: "length (sym_at (store_syms m t ss) t (Suc i)) = length (ss ! i)" using assms(1,3) by simp
  fix k assume "k < length (sym_at (store_syms m t ss) t (Suc i))"
  then have k: "k < 24" by simp
  let ?x = "t + 24 * of_nat (Suc i) + of_nat k"
  have "?x - (t + 24) = of_nat (24 * i + k)" by simp
  moreover have "24 * i + k < 24 * length ss" using assms(3) k by linarith
  moreover then have "unat (of_nat (24 * i + k) :: u64) = 24 * i + k" using assms(2) by (intro unat_of_nat_small) simp
  ultimately have "unat (?x - (t + 24)) = 24 * i + k" "24 * i + k < 24 * length ss" by (simp_all only:)
  then have "store_syms m t ss ?x = ss ! ((24 * i + k) div 24) ! ((24 * i + k) mod 24)"
    by (simp only: store_syms_def Let_def if_True)
  also have "\<dots> = ss ! i ! k" using k by simp
  finally show "sym_at (store_syms m t ss) t (Suc i) ! k = ss ! i ! k" using k by (simp add: sym_at_def mem_read_def)
qed

lemma store_syms_other: "\<not> unat (x - (t + 24)) < 24 * length ss \<Longrightarrow> store_syms m t ss x = m x"
  by (simp add: store_syms_def Let_def)

lemma sort_scan_end: "sort_scan m t n i < n \<Longrightarrow> symbol_less (sym_at m t (sort_scan m t n i)) (sym_at m t (sort_scan m t n i - 1))"
proof (induction m t n i rule: sort_scan.induct)
  case (1 m t n i)
  show ?case
  proof (cases "i < n \<and> \<not> symbol_less (sym_at m t i) (sym_at m t (i - 1))")
    case True
    then have e: "sort_scan m t n i = sort_scan m t n (i + 1)" by (subst sort_scan.simps) simp
    show ?thesis using 1 True unfolding e by blast
  next
    case False
    then have e: "sort_scan m t n i = i" by (subst sort_scan.simps) (rule if_not_P)
    show ?thesis using 1(2) False unfolding e by blast
  qed
qed

lemma scan_unsorted:
  assumes "sort_scan m t n 2 < n"
  shows "\<not> sym_order.in_order (table_syms m t n)"
proof
  assume o: "sym_order.in_order (table_syms m t n)"
  let ?k = "sort_scan m t n 2"
  have k2: "2 \<le> ?k" using sort_scan_stop [of 2 m t n] by simp
  have "\<not> symbol_less (table_syms m t n ! (?k - 1)) (table_syms m t n ! (?k - 2))"
    by (rule sorted_wrt_nth_less [OF o]) (use k2 assms in \<open>auto simp: table_syms_def\<close>)
  moreover have "table_syms m t n ! (?k - 1) = sym_at m t ?k" "table_syms m t n ! (?k - 2) = sym_at m t (?k - 1)"
  proof -
    have "Suc (?k - 2) = ?k - 1" "Suc (?k - 1) = ?k" using k2 by simp_all
    then show "table_syms m t n ! (?k - 1) = sym_at m t ?k" "table_syms m t n ! (?k - 2) = sym_at m t (?k - 1)"
      using k2 assms by (simp_all add: table_syms_def)
  qed
  ultimately show False using sort_scan_end [OF assms] by simp
qed

lemma table_syms_store:
  assumes "length ss = n - 1" "\<And>s. s \<in> set ss \<Longrightarrow> length s = 24" "24 * n + 24 < 2 ^ 64"
  shows "table_syms (store_syms m t ss) t n = ss"
proof (rule nth_equalityI)
  fix i assume "i < length (table_syms (store_syms m t ss) t n)"
  then have i: "i < length ss" using assms(1) by (simp add: table_syms_def)
  then show "table_syms (store_syms m t ss) t n ! i = ss ! i"
    using store_syms_entry [of ss i m t] assms by (simp add: table_syms_def)
qed (simp add: assms(1) table_syms_def)

lemma sort_symtab_run:
  assumes "ei_symtab (load_symtab ei0) = Some t" "24 * ei_nsymtab (load_symtab ei0) + 24 < 2 ^ 64"
  defines "n \<equiv> ei_nsymtab (load_symtab ei0)" and "m \<equiv> ei_data (load_symtab ei0)" and "m' \<equiv> ei_data (sort_symtab ei0)"
  shows "sorted_wrt (\<lambda>a b. \<not> symbol_less b a) (table_syms m' t n) \<and>
      mset (table_syms m' t n) = mset (table_syms m t n) \<and>
      (\<forall>s. filter (\<lambda>b. \<not> symbol_less s b \<and> \<not> symbol_less b s) (table_syms m' t n) =
           filter (\<lambda>b. \<not> symbol_less s b \<and> \<not> symbol_less b s) (table_syms m t n)) \<and>
      (\<forall>x. \<not> unat (x - (t + 24)) < 24 * (n - 1) \<longrightarrow> m' x = m x) \<and>
      (ei_changed (sort_symtab ei0) = (ei_changed (load_symtab ei0) \<or> m' \<noteq> m)) \<and>
      (sorted_wrt (\<lambda>a b. \<not> symbol_less b a) (table_syms m t n) \<longrightarrow> sort_symtab ei0 = load_symtab ei0)"
proof (cases "sort_scan m t n 2 < n")
  case True
  define ss where "ss = stable_sort symbol_less (table_syms m t n)"
  have "mset ss = mset (table_syms m t n)" unfolding ss_def by (rule sym_order.mset_stable_sort)
  then have set: "set ss = set (table_syms m t n)" "length ss = n - 1"
    by (metis set_mset_mset, metis length_map length_upt size_mset table_syms_def)
  have "sort_symtab ei0 = (load_symtab ei0)\<lparr>ei_data := store_syms m t ss, ei_changed := True\<rparr>"
    using True assms(1) unfolding sort_symtab_def ss_def n_def m_def by (simp add: Let_def)
  then have m': "m' = store_syms m t ss" and ch: "ei_changed (sort_symtab ei0)" by (simp_all add: m'_def)
  have tab: "table_syms m' t n = ss" unfolding m'
    by (rule table_syms_store [OF set(2)]) (use set(1) assms(2) in \<open>auto simp: table_syms_def n_def\<close>)
  have un: "\<not> sym_order.in_order (table_syms m t n)" by (rule scan_unsorted [OF True])
  have "m' \<noteq> m" using un tab sym_order.stable_sort_in_order unfolding ss_def by metis
  moreover have "\<forall>x. \<not> unat (x - (t + 24)) < 24 * (n - 1) \<longrightarrow> m' x = m x" unfolding m' using store_syms_other set(2) by metis
  ultimately show ?thesis
    using un ch sym_order.stable_sort_in_order sym_order.mset_stable_sort sym_order.stable_sort_filter unfolding tab ss_def by blast
next
  case False
  then have "sort_symtab ei0 = load_symtab ei0" using assms(1) by (simp add: sort_symtab_def Let_def n_def m_def)
  moreover then have "m' = m" by (simp add: m'_def m_def)
  ultimately show ?thesis using scan_sorted [OF False] by simp
qed

text \<open>What the kernel's \<open>lookup_symbol\<close> sees of an entry, and the whole table.\<close>

definition sym_entry :: "sym_bytes \<Rightarrow> elf_symbol" where
  "sym_entry b = \<lparr>st_name = sy_name b, st_value = sy_value b, st_size = sy_size b\<rparr>"

definition kernel_syms :: "mem \<Rightarrow> u64 \<Rightarrow> nat \<Rightarrow> elf_symbol list" where
  "kernel_syms m t n = map sym_entry (map (sym_at m t) [0..<n])"

text \<open>Symbols that do not overlap, with different values.\<close>

definition syms_apart :: "sym_bytes list \<Rightarrow> bool" where
  "syms_apart ss \<longleftrightarrow> distinct (map sy_value ss) \<and>
     (\<forall>a \<in> set ss. sy_value a \<noteq> 0 \<and> sy_value a \<le> sy_value a + sy_size a \<and> \<not> sym_special a \<and>
        (\<forall>b \<in> set ss. sy_value a < sy_value b \<longrightarrow> sy_value a + sy_size a \<le> sy_value b))"

lemma syms_apart_mset: "mset xs = mset ys \<Longrightarrow> syms_apart ys \<Longrightarrow> syms_apart xs"
  unfolding syms_apart_def by (metis mset_eq_imp_distinct_iff mset_map set_mset_mset)

lemma kernel_syms_Cons: "0 < n \<Longrightarrow> kernel_syms m t n = sym_entry (sym_at m t 0) # map sym_entry (table_syms m t n)"
  by (simp add: kernel_syms_def table_syms_def upt_conv_Cons)

lemma sorted_apart_ok:
  assumes "sym_order.in_order ss" "syms_apart ss" "sy_value s0 = 0" "sy_size s0 = 0"
  shows "symtab_ok (map sym_entry (s0 # ss))"
  unfolding symtab_ok_def
proof (intro conjI allI impI)
  fix i assume i: "i < length (map sym_entry (s0 # ss))"
  show "st_value (map sym_entry (s0 # ss) ! i) \<le> st_value (map sym_entry (s0 # ss) ! i) + st_size (map sym_entry (s0 # ss) ! i)"
    using assms(2-4) i by (cases i) (auto simp: sym_entry_def syms_apart_def)
next
  fix i j assume ij: "i < j" "j < length (map sym_entry (s0 # ss))"
  then obtain b where b: "j = Suc b" "b < length ss" by (cases j) auto
  have pos: "sy_value (ss ! b) \<noteq> 0" using assms(2) b(2) by (auto simp: syms_apart_def)
  have "sy_value ((s0 # ss) ! i) < sy_value (ss ! b) \<and> sy_value ((s0 # ss) ! i) + sy_size ((s0 # ss) ! i) \<le> sy_value (ss ! b)"
  proof (cases i)
    case 0
    then show ?thesis using pos assms(3,4) by (simp add: word_neq_0_conv)
  next
    case (Suc a)
    then have ab: "a < b" using ij b by simp
    have "\<not> symbol_less (ss ! b) (ss ! a)" by (rule sorted_wrt_nth_less [OF assms(1) ab b(2)])
    moreover have "\<not> sym_special (ss ! a)" "\<not> sym_special (ss ! b)" using assms(2) ab b(2) by (auto simp: syms_apart_def)
    ultimately have "sy_value (ss ! a) \<le> sy_value (ss ! b)" by (auto simp: symbol_less_def)
    moreover have "sy_value (ss ! a) \<noteq> sy_value (ss ! b)"
      using assms(2) ab b(2) nth_eq_iff_index_eq [of "map sy_value ss" a b] by (simp add: syms_apart_def)
    ultimately have lt: "sy_value (ss ! a) < sy_value (ss ! b)" by simp
    moreover have "sy_value (ss ! a) + sy_size (ss ! a) \<le> sy_value (ss ! b)"
      using assms(2) ab b(2) lt by (auto simp: syms_apart_def)
    ultimately show ?thesis using Suc by simp
  qed
  moreover have "map sym_entry (s0 # ss) ! k = sym_entry ((s0 # ss) ! k)" if "k \<le> j" for k
    by (rule nth_map) (use that ij in simp)
  moreover have "(s0 # ss) ! j = ss ! b" using b by simp
  ultimately show "st_value (map sym_entry (s0 # ss) ! i) < st_value (map sym_entry (s0 # ss) ! j)"
    "st_value (map sym_entry (s0 # ss) ! i) + st_size (map sym_entry (s0 # ss) ! i) \<le> st_value (map sym_entry (s0 # ss) ! j)"
    using ij by (simp_all add: sym_entry_def del: list.map)
qed

lemma kernel_finds_lemma:
  assumes "sym_order.in_order (table_syms m' t n)" "mset (table_syms m' t n) = mset (table_syms m t n)"
    and "syms_apart (table_syms m t n)" "sy_value (sym_at m' t 0) = 0" "sy_size (sym_at m' t 0) = 0"
    and "s \<in> set (table_syms m t n)" "sy_value s \<le> addr" "addr < sy_value s + sy_size s"
  shows "lookup_symbol (kernel_syms m' t n) addr = Some (sy_name s, sy_value s)"
proof -
  let ?ss = "table_syms m' t n" and ?all = "sym_at m' t 0 # table_syms m' t n"
  have "0 < n" using assms(6) by (cases n) (auto simp: table_syms_def)
  then have k: "kernel_syms m' t n = map sym_entry ?all" by (simp add: kernel_syms_Cons)
  have ok: "symtab_ok (map sym_entry ?all)"
    by (rule sorted_apart_ok [OF assms(1) syms_apart_mset [OF assms(2,3)] assms(4,5)])
  have "s \<in> set ?ss" using assms(2,6) by (metis set_mset_mset)
  then obtain i where i: "i < length ?ss" "?ss ! i = s" by (auto simp: in_set_conv_nth)
  have "sy_size s \<noteq> 0" using assms(7,8) by auto
  then have c: "sym_covers (map sym_entry ?all) (Suc i) addr" using i assms(7,8) by (simp add: sym_covers_def sym_entry_def)
  show ?thesis
    unfolding k lookup_symbol_correct [OF ok] by (rule exI [of _ "Suc i"]) (use c i in \<open>simp add: sym_entry_def\<close>)
qed

lemma first_symbol_kept:
  assumes "24 * n + 24 < 2 ^ 64" "\<And>x. \<not> unat (x - (t + 24)) < 24 * (n - 1) \<Longrightarrow> m' x = m x"
  shows "sym_at m' t 0 = sym_at m t 0"
proof -
  have "m' (t + of_nat k) = m (t + of_nat k)" if k: "k < 24" for k
  proof (rule assms(2))
    have "t + of_nat k - (t + 24) = of_nat k - 24" by simp
    moreover have "unat (of_nat k - 24 :: u64) = k + 2 ^ 64 - 24" using k by (simp add: unat_sub_if')
    ultimately show "\<not> unat (t + of_nat k - (t + 24)) < 24 * (n - 1)" using assms(1) by simp
  qed
  then show ?thesis by (simp add: sym_at_def mem_read_def)
qed

section \<open>Properties\<close>

text \<open>C28: \<open>sort_symtab\<close> sorts the symbol table. Let the image have a table, below the end of the address
  space. Afterwards the symbols from the second on are in the order of \<open>symbol_less\<close>; they are a stable
  permutation of the old ones: the same entries, and those that the order does not tell apart in their
  old order. The first symbol and every byte outside the other entries are as before, and the image is
  marked as changed only when the table was out of order; one in order is left alone.\<close>

lemma sort_symtab_sorts:
  assumes "ei_symtab (load_symtab ei0) = Some t" "24 * ei_nsymtab (load_symtab ei0) + 24 < 2 ^ 64"
  defines "n \<equiv> ei_nsymtab (load_symtab ei0)" and "m \<equiv> ei_data (load_symtab ei0)" and "m' \<equiv> ei_data (sort_symtab ei0)"
  shows "sorted_wrt (\<lambda>a b. \<not> symbol_less b a) (table_syms m' t n) \<and>
      mset (table_syms m' t n) = mset (table_syms m t n) \<and>
      (\<forall>s. filter (\<lambda>b. \<not> symbol_less s b \<and> \<not> symbol_less b s) (table_syms m' t n) =
           filter (\<lambda>b. \<not> symbol_less s b \<and> \<not> symbol_less b s) (table_syms m t n)) \<and>
      (\<forall>x. \<not> unat (x - (t + 24)) < 24 * (n - 1) \<longrightarrow> m' x = m x) \<and>
      (ei_changed (sort_symtab ei0) = (ei_changed (load_symtab ei0) \<or> m' \<noteq> m)) \<and>
      (sorted_wrt (\<lambda>a b. \<not> symbol_less b a) (table_syms m t n) \<longrightarrow> sort_symtab ei0 = load_symtab ei0)"
  unfolding n_def m_def m'_def by (rule sort_symtab_run [OF assms(1,2)])

text \<open>C27: The kernel finds every symbol of a table that \<open>sort_symtab\<close> has sorted. Let the first symbol be the
  null symbol, and let the others be neither sections nor files, have different values that are not 0, and
  not overlap. Then \<open>lookup_symbol\<close> of the kernel, on the sorted table, gives for every address in the range
  of a symbol of the old table that symbol's name and value.\<close>

lemma kernel_finds_symbols:
  assumes "ei_symtab (load_symtab ei0) = Some t" "24 * ei_nsymtab (load_symtab ei0) + 24 < 2 ^ 64"
  defines "n \<equiv> ei_nsymtab (load_symtab ei0)" and "m \<equiv> ei_data (load_symtab ei0)"
  assumes "syms_apart (table_syms m t n)" "sy_value (sym_at m t 0) = 0" "sy_size (sym_at m t 0) = 0"
    and "s \<in> set (table_syms m t n)" "sy_value s \<le> addr" "addr < sy_value s + sy_size s"
  shows "lookup_symbol (kernel_syms (ei_data (sort_symtab ei0)) t n) addr = Some (sy_name s, sy_value s)"
proof -
  note run = sort_symtab_run [OF assms(1,2), folded n_def m_def]
  have "sym_at (ei_data (sort_symtab ei0)) t 0 = sym_at m t 0"
    by (rule first_symbol_kept [of n]) (use assms(2) run in \<open>auto simp: n_def\<close>)
  then show ?thesis
    using kernel_finds_lemma [of "ei_data (sort_symtab ei0)" t n m s addr] run assms(5-10) by simp
qed

section \<open>Concrete tables\<close>

text \<open>Two functions out of order, two section symbols, and an image with the functions.\<close>

definition sym_f :: sym_bytes where
  "sym_f = [1, 0, 0, 0, 0x12, 0, 1, 0, 0, 1, 4, 0, 0, 0, 0, 0, 0x20, 0, 0, 0, 0, 0, 0, 0]"

definition sym_g :: sym_bytes where
  "sym_g = [9, 0, 0, 0, 0x12, 0, 1, 0, 0, 0, 4, 0, 0, 0, 0, 0, 0x80, 0, 0, 0, 0, 0, 0, 0]"

definition sym_text :: sym_bytes where
  "sym_text = [0, 0, 0, 0, 0x03, 0, 1, 0, 0, 0, 4, 0, 0, 0, 0, 0, 0, 0, 0, 0, 0, 0, 0, 0]"

definition sym_data :: sym_bytes where
  "sym_data = [0, 0, 0, 0, 0x03, 0, 2, 0, 0, 0, 5, 0, 0, 0, 0, 0, 0, 0, 0, 0, 0, 0, 0, 0]"

lemmas sym_ex_simps = sy_value_def sy_size_def sy_name_def sy_info_def sym_mem_def ld64_def ld32_def sym_special_def symbol_less_def

lemma sym_f_fields [simp]: "sy_value sym_f = 0x40100" "sy_size sym_f = 0x20" "sy_name sym_f = 1" "\<not> sym_special sym_f"
  by (simp_all add: sym_ex_simps sym_f_def)

lemma sym_g_fields [simp]: "sy_value sym_g = 0x40000" "sy_size sym_g = 0x80" "sy_name sym_g = 9" "\<not> sym_special sym_g"
  by (simp_all add: sym_ex_simps sym_g_def)

lemma sym_sections [simp]: "sy_value sym_text = 0x40000" "sy_size sym_text = 0" "sy_name sym_text = 0" "sym_special sym_text"
    "sy_value sym_data = 0x50000" "sy_size sym_data = 0" "sy_name sym_data = 0" "sym_special sym_data"
  by (simp_all add: sym_ex_simps sym_text_def sym_data_def)

definition image_ex :: elf_info where
  "image_ex =
     \<lparr>ei_data = (\<lambda>x. if unat x < 24 then 0 else if unat x < 48 then sym_f ! (unat x - 24)
        else if unat x < 72 then sym_g ! (unat x - 48) else 0), ei_size = 72, ei_capacity = 32768,
      ei_changed = False, ei_ok = True, ei_pht = 0, ei_sht = 0, ei_symtab = Some 0, ei_nsymtab = 3, ei_symstrtab = 0\<rparr>"

lemma image_ex_fields [simp]: "ei_symtab image_ex = Some 0" "ei_nsymtab image_ex = 3"
  by (simp_all add: image_ex_def)

lemma image_ex_load [simp]: "load_symtab image_ex = image_ex"
  by (simp add: load_symtab_def image_ex_def)

lemma image_ex_syms: "sym_at (ei_data image_ex) 0 0 = replicate 24 0" "table_syms (ei_data image_ex) 0 3 = [sym_f, sym_g]"
  by (simp_all add: table_syms_def sym_at_def mem_read_def image_ex_def sym_f_def sym_g_def upt_rec)
    (simp add: numeral_eq_Suc)

lemma sort_symtab_sorts_witness:
  "sorted_wrt (\<lambda>a b. \<not> symbol_less b a) (table_syms (ei_data (sort_symtab image_ex)) 0 3) \<and>
   mset (table_syms (ei_data (sort_symtab image_ex)) 0 3) = {#sym_f, sym_g#}"
  using sort_symtab_sorts [of image_ex 0] image_ex_syms by simp

lemma kernel_finds_symbols_witness:
  "lookup_symbol (kernel_syms (ei_data (sort_symtab image_ex)) 0 3) 0x40110 = Some (1, 0x40100)"
proof -
  have e: "ei_symtab (load_symtab image_ex) = Some 0" "ei_nsymtab (load_symtab image_ex) = 3" by simp_all
  have a: "syms_apart [sym_f, sym_g]" by (simp add: syms_apart_def)
  have z: "sy_value (replicate 24 0) = 0" "sy_size (replicate 24 0) = 0" by (simp_all add: sy_value_def sy_size_def sym_mem_def ld64_def)
  show ?thesis
    using kernel_finds_symbols [of image_ex 0 sym_f "0x40110", OF e(1)] e a z image_ex_syms by simp
qed

text \<open>The order puts section and file symbols first, whatever their addresses, and the kernel's binary
  search does not know of it: on a sorted table it takes a section symbol, without a size, for the
  function that covers the address.\<close>

lemma section_symbols_mislead:
  "sorted_wrt (\<lambda>a b. \<not> symbol_less b a) [sym_text, sym_data, sym_f] \<and>
   sy_value sym_f \<le> 0x40110 \<and> 0x40110 < sy_value sym_f + sy_size sym_f \<and>
   lookup_symbol (map sym_entry [replicate 24 0, sym_text, sym_data, sym_f]) 0x40110 = Some (0, 0x40000)"
proof -
  have "lookup_loop (map sym_entry [replicate 24 0, sym_text, sym_data, sym_f]) 0x40110 0 (Suc (Suc (Suc (Suc 0)))) = Some (Suc 0)"
    by (simp add: lookup_loop.simps sym_covers_def sym_entry_def)
  then show ?thesis by (simp add: lookup_symbol_def symbol_less_def sym_entry_def)
qed

text \<open>A reference that takes exactly the last 32 bytes of its section is refused.\<close>

lemma last_symtabref_rejected:
  assumes "sy_info sy AND ELF_STT_MASK = ELF_STT_OBJECT" "sy_shndx sy < e_shnum (ei_data ei)" "sy_size sy = 32"
    and "s = sec (ei_sht ei) (unat (sy_shndx sy))" "sy_value sy = sh_addr (ei_data ei) s + sh_size (ei_data ei) s - 32"
  shows "ref_symbol strtab_off sz sy (loadaddr, ei) = Inl Bad_reference"
  using assms by (simp add: ref_symbol_def Let_def)

end
