(* ===== verification/UserProg.thy ===== *)
theory UserProg
  imports Kernel
begin

text \<open>
  The user library and the user programs of WeensyOS (\<open>pset3/u-lib.hh\<close>, \<open>u-lib.cc\<close>, \<open>p-allocator.cc\<close>,
  \<open>p-fork.cc\<close>, \<open>p-forkexit.cc\<close>, \<open>p-kill.cc\<close>). A program is a state machine: a step is a system call with
  what follows for every value of \<open>rax\<close>, a store, a change of the console, or a move inside the program.
  The addresses that the linker and the kernel choose are a record of constants.
\<close>

section \<open>Programs\<close>

datatype 's ustep =
    Call u64 "u64 option" "u64 \<Rightarrow> 's"
  | Store u64 u8 's
  | Draw nat u16 's
  | Peek nat "u16 \<Rightarrow> 's"
  | Print int u16 "int list" "vararg list" 's
  | Local 's
  | Spin

datatype upc = Start | Fork1 | Fork2 | Check | Asserted | Loop | Got | Mark | Yield | Idle
  | Fork_loop | Choice | Setup | Heap_loop | Lottery | Reseed | Clear | Clear_msg | Count | Alloc_failed
  | Tail | Pick | Killed | Exited | Spinning

record uenv =
  ue_end :: u64
  ue_rsp :: u64
  ue_exit_msg :: u64
  ue_kill_msg :: u64
  ue_assert_args :: "upc \<Rightarrow> vararg list"

record uproc =
  u_pc :: upc
  u_p :: u32
  u_p1 :: u32
  u_p2 :: u32
  u_rand :: rand_state
  u_heap :: u64
  u_speed :: u32
  u_nalloc :: u32

definition data_top :: "uenv \<Rightarrow> u64" where
  "data_top env = round_up (ue_end env) PAGESIZE"

definition stack_bottom :: "uenv \<Rightarrow> u64" where
  "stack_bottom env = round_down (ue_rsp env - 1) PAGESIZE"

section \<open>The user library\<close>

text \<open>The system calls; \<open>sys_kill\<close> makes the call that its body makes.\<close>

definition u_getpid :: "(u64 \<Rightarrow> 's) \<Rightarrow> 's ustep" where "u_getpid f = Call SYSCALL_GETPID None f"
definition u_yield :: "'s \<Rightarrow> 's ustep" where "u_yield s = Call SYSCALL_YIELD None (\<lambda>_. s)"
definition u_page_alloc :: "u64 \<Rightarrow> (u64 \<Rightarrow> 's) \<Rightarrow> 's ustep" where "u_page_alloc a f = Call SYSCALL_PAGE_ALLOC (Some a) f"
definition u_fork :: "(u64 \<Rightarrow> 's) \<Rightarrow> 's ustep" where "u_fork f = Call SYSCALL_FORK None f"
definition u_exit :: "uproc \<Rightarrow> uproc ustep" where "u_exit s = Call SYSCALL_EXIT None (\<lambda>_. s\<lparr>u_pc := Exited\<rparr>)"
definition u_kill :: "u32 \<Rightarrow> uproc \<Rightarrow> uproc ustep" where "u_kill pid s = Call SYSCALL_FORK None (\<lambda>_. s\<lparr>u_pc := Killed\<rparr>)"
definition u_panic :: "u64 \<Rightarrow> uproc \<Rightarrow> uproc ustep" where "u_panic msg s = Call SYSCALL_PANIC (Some msg) (\<lambda>_. s\<lparr>u_pc := Spinning\<rparr>)"

text \<open>A failed assertion prints the file, the line and the text, which the compiler makes, and panics.\<close>

definition assert_format :: "int list" where
  "assert_format = map (\<lambda>c. int (of_char c)) ''PANIC: %s:%d: assertion '%s' failed'' @ [10]"

definition u_assert_fail :: "vararg list \<Rightarrow> uproc \<Rightarrow> uproc ustep" where
  "u_assert_fail args s = Print 1840 0xC000 assert_format args (s\<lparr>u_pc := Asserted\<rparr>)"


text \<open>What happens after the calls that do not return: the panic calls, and the endless loops.\<close>

definition lib_step :: "uenv \<Rightarrow> uproc \<Rightarrow> uproc ustep" where
  "lib_step env s =
     (case u_pc s of
        Exited \<Rightarrow> u_panic (ue_exit_msg env) s
      | Killed \<Rightarrow> u_panic (ue_kill_msg env) s
      | Asserted \<Rightarrow> u_panic 0 s
      | _ \<Rightarrow> Spin)"

definition u_rand_between :: "uenv \<Rightarrow> u32 \<Rightarrow> u32 \<Rightarrow> uproc \<Rightarrow> (u32 \<Rightarrow> uproc \<Rightarrow> uproc ustep) \<Rightarrow> uproc ustep" where
  "u_rand_between env lo hi s f =
     (case rand_between lo hi (u_rand s) of
        None \<Rightarrow> u_assert_fail (ue_assert_args env (u_pc s)) s
      | Some (x, g) \<Rightarrow> f x (s\<lparr>u_rand := g\<rparr>))"

text \<open>The message of \<open>panic\<close>, in a buffer of 160 bytes: \<open>None\<close> is an access past its end.\<close>

definition panic_prefix :: "int list" where
  "panic_prefix = map (\<lambda>c. int (of_char c)) ''PANIC: ''"

definition user_panic_buf :: "int list \<Rightarrow> vararg list \<Rightarrow> int list option" where
  "user_panic_buf format args =
     Option.bind (vsnprintf 153 format args) (\<lambda>(out, n).
       let len = n + 7; buf = panic_prefix @ out;
           pos = len - of_bool (len = 159)
       in if len > 160 then None
          else if len = 160 \<or> buf ! (len - 1) \<noteq> 10 then (if pos + 2 \<le> 160 then Some (take pos buf @ [10, 0]) else None)
          else Some buf)"

section \<open>p-allocator and p-fork\<close>





section \<open>p-forkexit and p-kill\<close>

text \<open>What both programs do until the heap meets the stack; \<open>Tail\<close> is the loop after that.\<close>

definition forkexit_heap :: "uenv \<Rightarrow> uproc \<Rightarrow> uproc ustep" where
  "forkexit_heap env s =
     (case u_pc s of
        Start \<Rightarrow>
          u_rand_between env 0 18 s (\<lambda>x s1.
            if x = 0 then u_fork (\<lambda>r. s1\<lparr>u_pc := Choice, u_p := ucast r\<rparr>) else u_yield s1)
      | Choice \<Rightarrow>
          u_rand_between env 0 2 s (\<lambda>c s1.
            if c = 0 \<and> 0 <s u_p s1 then u_exit s1
            else if (if c \<noteq> 2 then 0 <s u_p s1 else u_p s1 = 0) then Local (s1\<lparr>u_pc := Setup\<rparr>)
            else Local (s1\<lparr>u_pc := Start\<rparr>))
      | Setup \<Rightarrow>
          u_rand_between env 1 16 s (\<lambda>x s1.
            Local (s1\<lparr>u_pc := Heap_loop, u_speed := x, u_heap := data_top env, u_nalloc := 0\<rparr>))
      | Heap_loop \<Rightarrow>
          if u_heap s = stack_bottom env then Local (s\<lparr>u_pc := Tail\<rparr>)
          else u_rand_between env 0 108 s (\<lambda>x s1.
            if 8 * u_speed s1 \<le>s x then u_yield s1 else Local (s1\<lparr>u_pc := Lottery\<rparr>))
      | Lottery \<Rightarrow>
          u_rand_between env 0 (7 + min (u_nalloc s div 4) 10) s (\<lambda>x s1.
            if x <s 2 then u_fork (\<lambda>r. s1\<lparr>u_pc := (if (ucast r :: u32) = 0 then Reseed else Heap_loop)\<rparr>)
            else if x <s 3 then u_exit s1
            else u_page_alloc (u_heap s1) (\<lambda>r. s1\<lparr>u_pc := (if (ucast r :: u32) <s 0 then Alloc_failed else Got)\<rparr>))
      | Reseed \<Rightarrow> u_rand_between env 1 16 s (\<lambda>x s1. Local (s1\<lparr>u_pc := Heap_loop, u_speed := x\<rparr>))
      | Got \<Rightarrow> Store (u_heap s) (ucast (u_speed s)) (s\<lparr>u_pc := Mark\<rparr>)
      | Mark \<Rightarrow> Draw 1999 (ucast (u_speed s)) (s\<lparr>u_pc := Clear, u_heap := u_heap s + PAGESIZE\<rparr>)
      | Clear \<Rightarrow> Peek 1920 (\<lambda>c. s\<lparr>u_pc := (if c \<noteq> 0 then Clear_msg else Count)\<rparr>)
      | Clear_msg \<Rightarrow> Print 1920 0 [10] [] (s\<lparr>u_pc := Count\<rparr>)
      | Count \<Rightarrow> Local (s\<lparr>u_pc := Heap_loop, u_nalloc := ucast ((u_heap s - data_top env) div PAGESIZE)\<rparr>)
      | Alloc_failed \<Rightarrow> if u_nalloc s < 4 then u_exit s else Local (s\<lparr>u_pc := Heap_loop, u_nalloc := u_nalloc s - 4\<rparr>)
      | _ \<Rightarrow> lib_step env s)"


definition kill_step :: "uenv \<Rightarrow> uproc \<Rightarrow> uproc ustep" where
  "kill_step env s =
     (case u_pc s of
        Tail \<Rightarrow>
          u_rand_between env 0 35 s (\<lambda>x s1.
            if x = 0 then u_getpid (\<lambda>r. s1\<lparr>u_pc := Pick, u_p := ucast r\<rparr>) else u_yield s1)
      | Pick \<Rightarrow> u_rand_between env 0 (u_p s) s (\<lambda>x s1. u_kill x s1)
      | _ \<Rightarrow> forkexit_heap env s)"

section \<open>Runs\<close>

text \<open>The state at the start of a program.\<close>

definition u_start :: uproc where
  "u_start = \<lparr>u_pc = Start, u_p = 0, u_p1 = 0, u_p2 = 0, u_rand = \<lparr>rand_seed_set = False, rand_seed = 0\<rparr>, u_heap = 0,
     u_speed = 0, u_nalloc = 0\<rparr>"

text \<open>The states a program may be in after a step, whatever the kernel returns and the console shows, with
  the pages of its heap that \<open>sys_page_alloc\<close> has given it.\<close>

definition given :: "u64 \<Rightarrow> u64 option \<Rightarrow> u64 \<Rightarrow> u64 set" where
  "given n a r = (if n = SYSCALL_PAGE_ALLOC \<and> \<not> (ucast r :: u32) <s 0 then set_option a else {})"

inductive user_run :: "(uproc \<Rightarrow> uproc ustep) \<Rightarrow> uproc \<Rightarrow> u64 set \<Rightarrow> bool" for step where
  start: "user_run step u_start {}"
| call: "user_run step s own \<Longrightarrow> step s = Call n a f \<Longrightarrow> user_run step (f r) (own \<union> given n a r)"
| store: "user_run step s own \<Longrightarrow> step s = Store x b s' \<Longrightarrow> user_run step s' own"
| draw: "user_run step s own \<Longrightarrow> step s = Draw i c s' \<Longrightarrow> user_run step s' own"
| peek: "user_run step s own \<Longrightarrow> step s = Peek i f \<Longrightarrow> user_run step (f c) own"
| print: "user_run step s own \<Longrightarrow> step s = Print p c fmt args s' \<Longrightarrow> user_run step s' own"
| move: "user_run step s own \<Longrightarrow> step s = Local s' \<Longrightarrow> user_run step s' own"

section \<open>The heap\<close>

definition page_multiple :: "u64 \<Rightarrow> bool" where
  "page_multiple a \<longleftrightarrow> unat a mod 4096 = 0"

lemma round_down_multiple: "page_multiple (round_down x PAGESIZE)"
proof -
  have "unat (x - x mod 4096) = unat x - unat x mod 4096"
    by (subst unat_sub_le) (simp_all add: word_le_nat_alt unat_mod)
  then show ?thesis by (simp add: page_multiple_def round_down_def minus_mod_eq_mult_div)
qed

lemma next_page:
  assumes "page_multiple h" "page_multiple b" "h < b"
  shows "page_multiple (h + 4096)" "h + 4096 \<le> b" "h < h + 4096"
proof -
  obtain q where q: "unat h = 4096 * q" using assms(1) by (auto simp: page_multiple_def)
  obtain r where r: "unat b = 4096 * r" using assms(2) by (auto simp: page_multiple_def)
  have "4096 * q < 4096 * r" using assms(3) q r by (simp add: word_less_nat_alt)
  then have le: "4096 * q + 4096 \<le> unat b" using r by simp
  then have u: "unat (h + 4096) = 4096 * q + 4096"
    by (subst unat_add_lt) (use q unsigned_less [of b, where 'a = nat] in simp_all)
  then show "page_multiple (h + 4096)" by (simp add: page_multiple_def)
  show "h + 4096 \<le> b" "h < h + 4096" using le u q by (simp_all add: word_le_nat_alt word_less_nat_alt)
qed

text \<open>What the linker and the kernel provide: the program's end and a page of stack above it.\<close>

definition uenv_ok :: "uenv \<Rightarrow> bool" where
  "uenv_ok env \<longleftrightarrow> PROC_START_ADDR \<le> ue_end env \<and> ue_end env \<le> data_top env \<and> data_top env \<le> stack_bottom env \<and>
     stack_bottom env < MEMSIZE_VIRTUAL"

text \<open>The counters before the heap is set up, and those with a page that has just been given.\<close>

definition before_heap :: "upc \<Rightarrow> bool" where
  "before_heap pc \<longleftrightarrow> pc \<in> {Start, Fork1, Fork2, Check, Choice, Setup}"

definition fresh_page :: "upc \<Rightarrow> bool" where
  "fresh_page pc \<longleftrightarrow> pc \<in> {Got, Mark}"

definition no_heap_use :: "upc \<Rightarrow> bool" where
  "no_heap_use pc \<longleftrightarrow> pc \<in> {Asserted, Exited, Killed, Spinning}"

definition heap_inv :: "uenv \<Rightarrow> uproc \<Rightarrow> u64 set \<Rightarrow> bool" where
  "heap_inv env s own \<longleftrightarrow>
     (if before_heap (u_pc s) then own = {}
      else if no_heap_use (u_pc s) then True
      else page_multiple (u_heap s) \<and> data_top env \<le> u_heap s \<and> u_heap s \<le> stack_bottom env \<and>
        (fresh_page (u_pc s) \<longrightarrow> u_heap s < stack_bottom env \<and> u_heap s \<in> own) \<and>
        (u_pc s = Lottery \<longrightarrow> u_heap s \<noteq> stack_bottom env) \<and>
        (\<forall>a \<in> own. a < u_heap s \<or> fresh_page (u_pc s) \<and> a = u_heap s))"

text \<open>A step respects the heap: what it asks for is the next page, and what follows keeps the invariant.\<close>

fun step_ok :: "uenv \<Rightarrow> uproc \<Rightarrow> u64 set \<Rightarrow> uproc ustep \<Rightarrow> bool" where
  "step_ok env s own (Call n a f) =
     ((n = SYSCALL_PAGE_ALLOC \<longrightarrow> a = Some (u_heap s) \<and> \<not> before_heap (u_pc s) \<and> \<not> no_heap_use (u_pc s) \<and> \<not> fresh_page (u_pc s)
         \<and> u_heap s \<noteq> stack_bottom env) \<and>
      n \<noteq> SYSCALL_KILL \<and> (\<forall>r. heap_inv env (f r) (own \<union> given n a r)))"
| "step_ok env s own (Store x b s') = (x = u_heap s \<and> fresh_page (u_pc s) \<and> heap_inv env s' own)"
| "step_ok env s own (Draw i c s') = heap_inv env s' own"
| "step_ok env s own (Peek i f) = (\<forall>c. heap_inv env (f c) own)"
| "step_ok env s own (Print p c fmt args s') = heap_inv env s' own"
| "step_ok env s own (Local s') = heap_inv env s' own"
| "step_ok env s own Spin = True"

text \<open>The contract of the programs, and what follows from it for their runs.\<close>

locale heap_program =
  fixes step :: "uenv \<Rightarrow> uproc \<Rightarrow> uproc ustep"
  assumes step: "uenv_ok env \<Longrightarrow> heap_inv env s own \<Longrightarrow> step_ok env s own (step env s)"
begin

lemma run_inv:
  assumes "uenv_ok env"
  shows "user_run (step env) s own \<Longrightarrow> heap_inv env s own"
proof (induction rule: user_run.induct)
  case start
  show ?case by (simp add: heap_inv_def before_heap_def u_start_def)
next
  case (call s own n a f r)
  then show ?case using step [OF assms, of s own] by simp
next
  case (peek s own i f c)
  then show ?case using step [OF assms, of s own] by simp
qed (use step [OF assms] in force)+

lemma alloc_fresh:
  assumes env: "uenv_ok env" and run: "user_run (step env) s own" and call: "step env s = Call SYSCALL_PAGE_ALLOC a f"
  shows "\<exists>h. a = Some h \<and> page_multiple h \<and> PROC_START_ADDR \<le> h \<and> h < MEMSIZE_VIRTUAL \<and>
    data_top env \<le> h \<and> h < stack_bottom env \<and> h \<notin> own"
proof -
  have i: "heap_inv env s own" by (rule run_inv [OF env run])
  have ok: "step_ok env s own (Call SYSCALL_PAGE_ALLOC a f)" using step [OF env i] call by (simp only:)
  then have pc: "\<not> before_heap (u_pc s)" "\<not> no_heap_use (u_pc s)" "\<not> fresh_page (u_pc s)" "u_heap s \<noteq> stack_bottom env"
    and a: "a = Some (u_heap s)" by simp_all
  have h: "page_multiple (u_heap s)" "data_top env \<le> u_heap s" "u_heap s < stack_bottom env" "u_heap s \<notin> own"
    using i pc unfolding heap_inv_def by auto
  moreover have "PROC_START_ADDR \<le> u_heap s" "u_heap s < MEMSIZE_VIRTUAL"
    using env h(2,3) unfolding uenv_ok_def by (meson order_trans less_trans)+
  ultimately show ?thesis using a by blast
qed

lemma store_owned: "uenv_ok env \<Longrightarrow> user_run (step env) s own \<Longrightarrow> step env s = Store x b s' \<Longrightarrow> x \<in> own"
  using run_inv [of env s own] step [of env s own]
  by (auto simp: heap_inv_def before_heap_def no_heap_use_def fresh_page_def split: if_splits)

lemma never_kills: "uenv_ok env \<Longrightarrow> user_run (step env) s own \<Longrightarrow> step env s \<noteq> Call SYSCALL_KILL a f"
  using run_inv [of env s own] step [of env s own] by fastforce

end

lemma step_ok_rand:
  assumes "\<And>x g. rand_between lo hi (u_rand s) = Some (x, g) \<Longrightarrow> step_ok env s own (f x (s\<lparr>u_rand := g\<rparr>))"
  shows "step_ok env s own (u_rand_between env lo hi s f)"
  using assms by (auto simp: u_rand_between_def u_assert_fail_def heap_inv_def before_heap_def no_heap_use_def split: option.splits)

lemmas u_calls = u_getpid_def u_yield_def u_page_alloc_def u_fork_def u_exit_def u_kill_def u_panic_def
lemmas pc_sets = before_heap_def no_heap_use_def fresh_page_def

lemma lib_step_ok: "no_heap_use (u_pc s) \<Longrightarrow> step_ok env s own (lib_step env s)"
  by (auto simp: lib_step_def u_panic_def heap_inv_def pc_sets split: upc.splits)

text \<open>Every program meets the contract.\<close>

lemma heap_inv_move:
  assumes "heap_inv env s own" "\<not> before_heap (u_pc s)" "\<not> no_heap_use (u_pc s)" "\<not> fresh_page (u_pc s)"
    and "u_heap s' = u_heap s" "\<not> before_heap (u_pc s')" "\<not> fresh_page (u_pc s')"
    and "u_pc s' = Lottery \<longrightarrow> u_heap s' \<noteq> stack_bottom env"
  shows "heap_inv env s' own"
  using assms by (auto simp: heap_inv_def)

lemma alloc_step_ok:
  assumes "heap_inv env s own" "\<not> before_heap (u_pc s)" "\<not> no_heap_use (u_pc s)" "\<not> fresh_page (u_pc s)"
    and "u_heap s \<noteq> stack_bottom env" "\<not> before_heap pc" "\<not> fresh_page pc" "pc \<noteq> Lottery"
  shows "step_ok env s own (u_page_alloc (u_heap s) (\<lambda>r. s\<lparr>u_rand := g, u_pc := (if (ucast r :: u32) <s 0 then pc else Got)\<rparr>))"
  using assms by (auto simp: u_page_alloc_def heap_inv_def given_def pc_sets)

lemma heap_inv_bump:
  assumes "heap_inv env s own" "u_pc s = Mark" "\<not> before_heap pc" "\<not> fresh_page pc" "pc \<noteq> Lottery"
  shows "heap_inv env (s\<lparr>u_pc := pc, u_heap := u_heap s + PAGESIZE\<rparr>) own"
proof -
  have h: "page_multiple (u_heap s)" "data_top env \<le> u_heap s" "u_heap s < stack_bottom env" "\<forall>a \<in> own. a \<le> u_heap s"
    using assms(1,2) by (auto simp: heap_inv_def pc_sets)
  have "page_multiple (stack_bottom env)" unfolding stack_bottom_def by (rule round_down_multiple)
  note n = next_page [OF h(1) this h(3)]
  then have "\<forall>a \<in> own. a < u_heap s + 4096" using h(4) by (auto intro: le_less_trans)
  moreover have "data_top env \<le> u_heap s + 4096" using h(2) n(3) by (meson le_less_trans less_imp_le)
  ultimately show ?thesis using h n assms(3-5) by (simp add: heap_inv_def)
qed

lemma heap_inv_start:
  assumes "uenv_ok env" "u_heap s = data_top env" "\<not> fresh_page (u_pc s)" "\<not> before_heap (u_pc s)" "u_pc s \<noteq> Lottery"
  shows "heap_inv env s {}"
  using assms round_down_multiple by (auto simp: heap_inv_def uenv_ok_def data_top_def round_up_def)






lemma exit_ok: "step_ok env s own (u_exit s')"
  by (simp add: u_exit_def given_def heap_inv_def pc_sets)

lemma forkexit_heap_ok:
  assumes "uenv_ok env" "heap_inv env s own" "u_pc s \<notin> {Tail, Pick}"
  shows "step_ok env s own (forkexit_heap env s)"
proof (cases "u_pc s")
  case Start
  then show ?thesis using assms(2)
    by (auto simp: forkexit_heap_def u_fork_def u_yield_def given_def heap_inv_def pc_sets intro!: step_ok_rand)
next
  case Choice
  then show ?thesis using assms(2)
    by (auto simp: forkexit_heap_def exit_ok given_def heap_inv_def pc_sets intro!: step_ok_rand)
next
  case Setup
  then have "own = {}" using assms(2) by (simp add: heap_inv_def pc_sets)
  then show ?thesis using Setup heap_inv_start [OF assms(1)] by (auto simp: forkexit_heap_def pc_sets intro!: step_ok_rand)
next
  case Heap_loop
  then show ?thesis using heap_inv_move [OF assms(2)]
    by (auto simp: forkexit_heap_def u_yield_def given_def pc_sets intro!: step_ok_rand)
next
  case Lottery
  show ?thesis
    unfolding forkexit_heap_def Lottery upc.case
  proof (rule step_ok_rand)
    fix x g
    have ne: "u_heap s \<noteq> stack_bottom env" using assms(2) Lottery by (simp add: heap_inv_def pc_sets)
    show "step_ok env s own (if x <s 2 then u_fork (\<lambda>r. s\<lparr>u_rand := g, u_pc := if (ucast r :: u32) = 0 then Reseed else Heap_loop\<rparr>)
        else if x <s 3 then u_exit (s\<lparr>u_rand := g\<rparr>)
        else u_page_alloc (u_heap (s\<lparr>u_rand := g\<rparr>)) (\<lambda>r. s\<lparr>u_rand := g, u_pc := if (ucast r :: u32) <s 0 then Alloc_failed else Got\<rparr>))"
      using alloc_step_ok [OF assms(2), of Alloc_failed g] heap_inv_move [OF assms(2)] ne Lottery
      by (auto simp: pc_sets u_fork_def given_def exit_ok)
  qed
next
  case Reseed
  then show ?thesis using heap_inv_move [OF assms(2)] by (auto simp: forkexit_heap_def pc_sets intro!: step_ok_rand)
next
  case Got
  then show ?thesis using assms(2) by (auto simp: forkexit_heap_def heap_inv_def pc_sets)
next
  case Mark
  then show ?thesis using heap_inv_bump [OF assms(2) Mark] by (simp add: forkexit_heap_def pc_sets)
next
  case Clear
  then show ?thesis using heap_inv_move [OF assms(2)] by (auto simp: forkexit_heap_def pc_sets)
next
  case Clear_msg
  then show ?thesis using heap_inv_move [OF assms(2)] by (auto simp: forkexit_heap_def pc_sets)
next
  case Count
  then show ?thesis using heap_inv_move [OF assms(2)] by (auto simp: forkexit_heap_def pc_sets)
next
  case Alloc_failed
  then show ?thesis using heap_inv_move [OF assms(2)] by (auto simp: forkexit_heap_def exit_ok pc_sets)
qed (use assms(3) in \<open>auto simp: forkexit_heap_def lib_step_def u_panic_def pc_sets heap_inv_def\<close>)


lemma kill_step_ok:
  assumes "uenv_ok env" "heap_inv env s own"
  shows "step_ok env s own (kill_step env s)"
proof (cases "u_pc s \<in> {Tail, Pick}")
  case True
  then consider "u_pc s = Tail" | "u_pc s = Pick" by blast
  then show ?thesis
  proof cases
    case 1
    then show ?thesis using heap_inv_move [OF assms(2)]
      by (auto simp: kill_step_def u_getpid_def u_yield_def given_def pc_sets intro!: step_ok_rand)
  next
    case 2
    then show ?thesis by (auto simp: kill_step_def u_kill_def given_def heap_inv_def pc_sets intro!: step_ok_rand)
  qed
next
  case False
  then have "kill_step env s = forkexit_heap env s" by (cases "u_pc s") (simp_all add: kill_step_def)
  then show ?thesis using forkexit_heap_ok [OF assms False] by simp
qed




interpretation kill: heap_program kill_step
  by unfold_locales (rule kill_step_ok)

section \<open>Properties\<close>





text \<open>The library's \<open>sys_kill\<close> asks for a fork, and then both processes stop the machine with a panic: no
  program ever makes the call that kills.\<close>

lemma sys_kill_forks_and_panics:
  "\<exists>f. u_kill pid s = Call SYSCALL_FORK None f \<and>
     (\<forall>r. \<exists>g. kill_step env (f r) = Call SYSCALL_PANIC (Some (ue_kill_msg env)) g \<and> (\<forall>q. kill_step env (g q) = Spin))"
  by (simp add: u_kill_def kill_step_def forkexit_heap_def lib_step_def u_panic_def)

lemma no_program_kills:
  "uenv_ok env \<Longrightarrow> user_run (kill_step env) s own \<Longrightarrow> kill_step env s \<noteq> Call SYSCALL_KILL a f"
  by (rule kill.never_kills)

text \<open>The buffer of the library's \<open>panic\<close> is left exactly when the message has more than 152 characters.\<close>

lemma user_panic_overflow:
  "vsnprintf 153 format args = Some (out, n) \<Longrightarrow> user_panic_buf format args = None \<longleftrightarrow> 152 < n"
  by (auto simp: user_panic_buf_def Let_def)

end
