(* ===== verification/Io61.thy ===== *)
theory Io61
  imports Prelude "HOL-Library.Signed_Division"
begin

text \<open>
  Buffered file input and output (\<open>pset4/io61.cc\<close>) and the unbuffered version it replaces
  (\<open>pset4/slow-io61.cc\<close>). The open file behind a file descriptor is a value of its own,
  \<open>fdesc\<close>: the bytes of the file, the file offset, and the \<open>answers\<close> that bound how many bytes
  each call transfers or let it fail, so that a statement for all \<open>answers\<close> covers every way the
  system may split the data. In the operations on an \<open>io61_file\<close>, \<open>None\<close> is an access outside
  \<open>cbuf\<close> or a loop that does not end.
\<close>

section \<open>Open files\<close>

text \<open>
  A call that is allowed \<open>Upto k\<close> transfers at most \<open>k + 1\<close> bytes; it transfers at least one
  when there is one to transfer. When the answers are used up, all that was asked for is transferred.
\<close>

datatype answer = Fail | Upto nat

record fdesc =
  contents :: "u8 list"
  offset :: nat
  regular :: bool
  answers :: "answer list"

definition limit :: "fdesc \<Rightarrow> nat \<Rightarrow> nat option" where
  "limit d n = (case answers d of [] \<Rightarrow> Some n | Fail # _ \<Rightarrow> None | Upto k # _ \<Rightarrow> Some (min n (Suc k)))"

text \<open>\<open>overlay xs i bs\<close> is the file \<open>xs\<close> after \<open>bs\<close> were written at \<open>i\<close>; a gap reads as zeros.\<close>

definition overlay :: "u8 list \<Rightarrow> nat \<Rightarrow> u8 list \<Rightarrow> u8 list" where
  "overlay xs i bs =
     (if bs = [] then xs else take i xs @ replicate (i - length xs) 0 @ bs @ drop (i + length bs) xs)"

definition sys_read :: "fdesc \<Rightarrow> nat \<Rightarrow> u8 list option \<times> fdesc" where
  "sys_read d n =
     (let d1 = d\<lparr>answers := tl (answers d)\<rparr>
      in case limit d n of None \<Rightarrow> (None, d1)
         | Some k \<Rightarrow> let bs = take k (drop (offset d) (contents d))
                     in (Some bs, d1\<lparr>offset := offset d + length bs\<rparr>))"

definition sys_write :: "fdesc \<Rightarrow> u8 list \<Rightarrow> nat option \<times> fdesc" where
  "sys_write d bs =
     (let d1 = d\<lparr>answers := tl (answers d)\<rparr>
      in case limit d (length bs) of None \<Rightarrow> (None, d1)
         | Some k \<Rightarrow> (Some k, d1\<lparr>contents := overlay (contents d) (offset d) (take k bs), offset := offset d + k\<rparr>))"

definition sys_lseek :: "fdesc \<Rightarrow> int \<Rightarrow> int \<times> fdesc" where
  "sys_lseek d p = (if regular d \<and> 0 \<le> p then (p, d\<lparr>offset := nat p\<rparr>) else (- 1, d))"

section \<open>Buffered files\<close>

datatype mode = O_RDONLY | O_WRONLY | O_RDWR

definition bufsize :: nat where "bufsize = 8192"

text \<open>The file descriptor \<open>fd\<close> is the open file it names; the member \<open>tag\<close> is never used.\<close>

record io61_file =
  fd :: fdesc
  mode :: mode
  cbuf :: "u8 list"
  beg_tag :: int
  end_tag :: int
  pos_tag :: int

text \<open>\<open>new io61_file\<close> leaves the other members with whatever the memory holds: \<open>raw\<close>.\<close>

definition io61_fdopen :: "io61_file \<Rightarrow> fdesc \<Rightarrow> mode \<Rightarrow> io61_file" where
  "io61_fdopen raw d m = raw\<lparr>fd := d, mode := m\<rparr>"

definition io61_open_check ::
  "io61_file \<Rightarrow> (string \<Rightarrow> fdesc option) \<Rightarrow> fdesc \<Rightarrow> fdesc \<Rightarrow> string option \<Rightarrow> mode \<Rightarrow> io61_file option" where
  "io61_open_check raw opened stdin stdout filename m =
     (case filename of
        Some name \<Rightarrow> (case opened name of None \<Rightarrow> None | Some d \<Rightarrow> Some (io61_fdopen raw d m))
      | None \<Rightarrow> Some (io61_fdopen raw (if m = O_RDONLY then stdin else stdout) m))"

definition cbuf_slice :: "io61_file \<Rightarrow> int \<Rightarrow> nat \<Rightarrow> u8 list option" where
  "cbuf_slice f i n =
     (if 0 \<le> i \<and> i + int n \<le> int bufsize then Some (take n (drop (nat i) (cbuf f))) else None)"

definition cbuf_put :: "io61_file \<Rightarrow> int \<Rightarrow> u8 list \<Rightarrow> io61_file option" where
  "cbuf_put f i bs =
     (if 0 \<le> i \<and> i + int (length bs) \<le> int bufsize
      then Some (f\<lparr>cbuf := take (nat i) (cbuf f) @ bs @ drop (nat i + length bs) (cbuf f)\<rparr>) else None)"

definition io61_fill :: "io61_file \<Rightarrow> io61_file" where
  "io61_fill f =
     (let (r, d) = sys_read (fd f) bufsize;
          f1 = f\<lparr>beg_tag := end_tag f, pos_tag := end_tag f, fd := d\<rparr>
      in case r of None \<Rightarrow> f1
         | Some bs \<Rightarrow> f1\<lparr>cbuf := bs @ drop (length bs) (cbuf f), end_tag := end_tag f + int (length bs)\<rparr>)"

definition io61_readc :: "io61_file \<Rightarrow> (int \<times> io61_file) option" where
  "io61_readc f =
     (let f1 = (if pos_tag f = end_tag f then io61_fill f else f)
      in if pos_tag f = end_tag f \<and> pos_tag f1 = end_tag f1 then Some (- 1, f1)
         else map_option (\<lambda>bs. (uint (hd bs), f1\<lparr>pos_tag := pos_tag f1 + 1\<rparr>))
                (cbuf_slice f1 (pos_tag f1 - beg_tag f1) 1))"

text \<open>The loop of \<open>io61_read\<close> after \<open>n\<close> bytes; the result lists the bytes it adds to the buffer.\<close>

function io61_read_loop :: "nat \<Rightarrow> nat \<Rightarrow> io61_file \<Rightarrow> (u8 list \<times> io61_file) option" where
  "io61_read_loop sz n f =
     (if n < sz then
        let f1 = (if end_tag f \<le> pos_tag f then io61_fill f else f)
        in if end_tag f1 \<le> pos_tag f1 then Some ([], f1)
           else let req_bytes = min (nat (end_tag f1 - pos_tag f1)) (sz - n)
                in Option.bind (cbuf_slice f1 (pos_tag f1 - beg_tag f1) req_bytes) (\<lambda>bs.
                   map_option (\<lambda>(rest, f2). (bs @ rest, f2))
                     (io61_read_loop sz (n + req_bytes) (f1\<lparr>pos_tag := pos_tag f1 + int req_bytes\<rparr>)))
      else Some ([], f))"
  by auto
termination by (relation "measure (\<lambda>(sz, n, f). sz - n)") (auto split: if_splits)

declare io61_read_loop.simps [simp del]

text \<open>The result: the value returned and the bytes stored to \<open>buf\<close>.\<close>

definition io61_read :: "nat \<Rightarrow> io61_file \<Rightarrow> (int \<times> u8 list \<times> io61_file) option" where
  "io61_read sz f =
     map_option (\<lambda>(bs, f1). (if bs = [] then - 1 else int (length bs), bs, f1)) (io61_read_loop sz 0 f)"

definition io61_flush :: "io61_file \<Rightarrow> (int \<times> io61_file) option" where
  "io61_flush f =
     (if mode f = O_RDONLY then Some (0, f)
      else if pos_tag f < beg_tag f then None
      else Option.bind (cbuf_slice f 0 (nat (pos_tag f - beg_tag f))) (\<lambda>bs.
           let (n, d) = sys_write (fd f) bs
           in Some (case n of None \<Rightarrow> - 1 | Some _ \<Rightarrow> 0, f\<lparr>fd := d, beg_tag := pos_tag f\<rparr>)))"

definition flush_full :: "io61_file \<Rightarrow> io61_file option" where
  "flush_full f = (if end_tag f = beg_tag f + int bufsize then map_option snd (io61_flush f) else Some f)"

definition io61_writec :: "u8 \<Rightarrow> io61_file \<Rightarrow> (int \<times> io61_file) option" where
  "io61_writec ch f =
     Option.bind (flush_full f) (\<lambda>f1.
     map_option (\<lambda>f2. (0, f2\<lparr>pos_tag := pos_tag f2 + 1, end_tag := end_tag f2 + 1\<rparr>))
       (cbuf_put f1 (pos_tag f1 - beg_tag f1) [ch]))"

text \<open>The bytes one turn of the loop takes: what fits into the buffer, at most \<open>n\<close>.\<close>

definition rec_count :: "io61_file \<Rightarrow> nat \<Rightarrow> nat" where
  "rec_count f n =
     (let room = int bufsize - (pos_tag f - beg_tag f) in if 0 \<le> room \<and> room \<le> int n then nat room else n)"

partial_function (option) io61_write_loop :: "u8 list \<Rightarrow> io61_file \<Rightarrow> io61_file option" where
  "io61_write_loop buf f =
     (if buf = [] then Some f
      else Option.bind (flush_full f) (\<lambda>f1.
           let rec_bytes = rec_count f1 (length buf)
           in Option.bind (cbuf_put f1 (pos_tag f1 - beg_tag f1) (take rec_bytes buf)) (\<lambda>f2.
              io61_write_loop (drop rec_bytes buf)
                (f2\<lparr>pos_tag := pos_tag f2 + int rec_bytes, end_tag := end_tag f2 + int rec_bytes\<rparr>))))"

definition io61_write :: "u8 list \<Rightarrow> io61_file \<Rightarrow> (int \<times> io61_file) option" where
  "io61_write buf f = map_option (Pair (int (length buf))) (io61_write_loop buf f)"

definition io61_seek :: "int \<Rightarrow> io61_file \<Rightarrow> (int \<times> io61_file) option" where
  "io61_seek p f =
     Option.bind (if mode f = O_WRONLY then map_option snd (io61_flush f) else Some f) (\<lambda>f1.
       if p < end_tag f1 \<and> beg_tag f1 \<le> p then Some (0, f1\<lparr>pos_tag := p\<rparr>)
       else let new_pos = (if mode f1 = O_RDONLY then (p sdiv int bufsize) * int bufsize else p);
                (r, d) = sys_lseek (fd f1) new_pos;
                f2 = f1\<lparr>fd := d\<rparr>;
                f3 = (if mode f1 = O_RDONLY then io61_fill (f2\<lparr>end_tag := new_pos\<rparr>)
                      else f2\<lparr>beg_tag := p, end_tag := p\<rparr>)
            in Some (if r = new_pos then 0 else - 1, f3\<lparr>pos_tag := p\<rparr>))"

text \<open>Closing: what remains is the open file.\<close>

definition io61_close :: "io61_file \<Rightarrow> fdesc option" where
  "io61_close f = map_option (\<lambda>(_, f1). fd f1) (io61_flush f)"

definition fd_size :: "fdesc \<Rightarrow> int" where
  "fd_size d = (if regular d then int (length (contents d)) else - 1)"

definition io61_filesize :: "io61_file \<Rightarrow> int" where
  "io61_filesize f = fd_size (fd f)"

section \<open>Unbuffered files\<close>

text \<open>Here a file is nothing but its descriptor; the operations always return.\<close>

definition slow_readc :: "fdesc \<Rightarrow> (int \<times> fdesc) option" where
  "slow_readc d =
     Some (case sys_read d 1 of (Some [b], d1) \<Rightarrow> (uint b, d1) | (_, d1) \<Rightarrow> (- 1, d1))"

fun slow_read_loop :: "nat \<Rightarrow> fdesc \<Rightarrow> (u8 list \<times> fdesc) option" where
  "slow_read_loop 0 d = Some ([], d)"
| "slow_read_loop (Suc n) d =
     Option.bind (slow_readc d) (\<lambda>(ch, d1).
       if ch = - 1 then Some ([], d1)
       else map_option (\<lambda>(bs, d2). (word_of_int ch # bs, d2)) (slow_read_loop n d1))"

definition slow_read :: "nat \<Rightarrow> fdesc \<Rightarrow> (int \<times> u8 list \<times> fdesc) option" where
  "slow_read sz d = map_option (\<lambda>(bs, d1). (int (length bs), bs, d1)) (slow_read_loop sz d)"

definition slow_writec :: "u8 \<Rightarrow> fdesc \<Rightarrow> (int \<times> fdesc) option" where
  "slow_writec ch d =
     (let (r, d1) = sys_write d [ch] in Some (if r = Some 1 then 0 else - 1, d1))"

fun slow_write_loop :: "u8 list \<Rightarrow> fdesc \<Rightarrow> (nat \<times> fdesc) option" where
  "slow_write_loop [] d = Some (0, d)"
| "slow_write_loop (b # bs) d =
     Option.bind (slow_writec b d) (\<lambda>(r, d1).
       if r = - 1 then Some (0, d1)
       else map_option (\<lambda>(n, d2). (n + 1, d2)) (slow_write_loop bs d1))"

definition slow_write :: "u8 list \<Rightarrow> fdesc \<Rightarrow> (int \<times> fdesc) option" where
  "slow_write bs d =
     map_option (\<lambda>(n, d1). (if n \<noteq> 0 \<or> bs = [] then int n else - 1, d1)) (slow_write_loop bs d)"

definition slow_flush :: "fdesc \<Rightarrow> (int \<times> fdesc) option" where
  "slow_flush d = Some (0, d)"

definition slow_seek :: "int \<Rightarrow> fdesc \<Rightarrow> (int \<times> fdesc) option" where
  "slow_seek p d = (let (r, d1) = sys_lseek d p in Some (if r = p then 0 else - 1, d1))"

definition slow_close :: "fdesc \<Rightarrow> fdesc option" where
  "slow_close d = map_option snd (slow_flush d)"

section \<open>Elementary facts\<close>

lemma overlay_Nil [simp]: "overlay xs i [] = xs"
  by (simp add: overlay_def)

lemma overlay_overlay: "overlay (overlay xs i as) (i + length as) bs = overlay xs i (as @ bs)"
proof (cases "as = [] \<or> bs = []")
  case True then show ?thesis by (auto simp: overlay_def)
next
  case False
  then show ?thesis
    by (cases "i \<le> length xs") (auto simp: overlay_def min_def add_ac)
qed

lemma overlay_empty [simp]: "overlay [] 0 bs = bs"
  by (simp add: overlay_def)

lemma no_fail_limit: "Fail \<notin> set (answers d) \<Longrightarrow> \<exists>k\<le>n. limit d n = Some k \<and> (0 < n \<longrightarrow> 0 < k)"
  by (cases "answers d") (auto simp: limit_def split: answer.splits)

end
