(* ===== verification/Io61Spec.thy ===== *)
theory Io61Spec
  imports Io61
begin

text \<open>
  What the clients of the file library may rely on: a reader delivers the bytes that remain, a
  seekable reader the bytes of the file from any position, a writer overlays the file. Both the
  buffered and the unbuffered library are shown to keep these contracts, so they behave alike.
\<close>

section \<open>The contract of a reader\<close>

text \<open>
  The value a read returns for the bytes it delivers: their number, or \<open>none\<close> when there are none.
  (The two libraries differ in this: the buffered one returns -1, the unbuffered one 0.)
\<close>

definition count_of :: "int \<Rightarrow> u8 list \<Rightarrow> int" where
  "count_of none bs = (if bs = [] then none else int (length bs))"

locale byte_reader =
  fixes readc :: "'s \<Rightarrow> (int \<times> 's) option"
    and read :: "nat \<Rightarrow> 's \<Rightarrow> (int \<times> u8 list \<times> 's) option"
    and ok :: "'s \<Rightarrow> bool"
    and rest :: "'s \<Rightarrow> u8 list"
    and none :: int
  assumes readc_law: "ok s \<Longrightarrow> \<exists>s'. readc s = Some (case rest s of [] \<Rightarrow> - 1 | b # _ \<Rightarrow> uint b, s')
      \<and> ok s' \<and> rest s' = tl (rest s)"
    and read_law: "ok s \<Longrightarrow> \<exists>s'. read n s = Some (count_of none (take n (rest s)), take n (rest s), s')
      \<and> ok s' \<and> rest s' = drop n (rest s)"
    and none_law: "none \<le> 0"
begin

lemma read_max: "ok s \<Longrightarrow> \<exists>r s'. read n s = Some (r, take n (rest s), s')
    \<and> max 0 r = int (length (take n (rest s))) \<and> ok s' \<and> rest s' = drop n (rest s)"
  using read_law [of s n] none_law by (auto simp: count_of_def)

end

locale seekable_reader = byte_reader +
  fixes seek :: "int \<Rightarrow> 's \<Rightarrow> (int \<times> 's) option"
    and data :: "'s \<Rightarrow> u8 list"
  assumes readc_file: "ok s \<Longrightarrow> readc s = Some (c, s') \<Longrightarrow> data s' = data s"
    and read_file: "ok s \<Longrightarrow> read n s = Some (r, bs, s') \<Longrightarrow> data s' = data s"
    and seek_law: "ok s \<Longrightarrow> p \<le> length (data s) \<Longrightarrow> \<exists>s'. seek (int p) s = Some (0, s')
      \<and> ok s' \<and> data s' = data s \<and> rest s' = drop p (data s)"

text \<open>A sequence of calls and what they deliver: the value returned and the bytes.\<close>

datatype call = Readc | Read nat | Seek nat

fun run_calls ::
  "('s \<Rightarrow> (int \<times> 's) option) \<Rightarrow> (nat \<Rightarrow> 's \<Rightarrow> (int \<times> u8 list \<times> 's) option) \<Rightarrow> (int \<Rightarrow> 's \<Rightarrow> (int \<times> 's) option)
    \<Rightarrow> call list \<Rightarrow> 's \<Rightarrow> (int \<times> u8 list) list option" where
  "run_calls rc rd sk [] s = Some []"
| "run_calls rc rd sk (Readc # cs) s =
     Option.bind (rc s) (\<lambda>(c, s1). map_option ((#) (c, [])) (run_calls rc rd sk cs s1))"
| "run_calls rc rd sk (Read n # cs) s =
     Option.bind (rd n s) (\<lambda>(r, bs, s1). map_option ((#) (r, bs)) (run_calls rc rd sk cs s1))"
| "run_calls rc rd sk (Seek p # cs) s =
     Option.bind (sk (int p) s) (\<lambda>(r, s1). map_option ((#) (r, [])) (run_calls rc rd sk cs s1))"

text \<open>What a file of the given bytes should deliver, with \<open>us\<close> the bytes from the position on.\<close>

fun delivered :: "int \<Rightarrow> u8 list \<Rightarrow> call list \<Rightarrow> u8 list \<Rightarrow> (int \<times> u8 list) list" where
  "delivered none xs [] us = []"
| "delivered none xs (Readc # cs) us = (case us of [] \<Rightarrow> - 1 | b # _ \<Rightarrow> uint b, []) # delivered none xs cs (tl us)"
| "delivered none xs (Read n # cs) us = (count_of none (take n us), take n us) # delivered none xs cs (drop n us)"
| "delivered none xs (Seek p # cs) us = (0, []) # delivered none xs cs (drop p xs)"

text \<open>The same answers with the other value for a read that delivers nothing.\<close>

fun minus_one :: "call \<Rightarrow> int \<times> u8 list \<Rightarrow> int \<times> u8 list" where
  "minus_one (Read n) (r, bs) = (if r = 0 then (- 1, bs) else (r, bs))"
| "minus_one _ a = a"

lemma delivered_minus_one: "delivered (- 1) xs cs us = map2 minus_one cs (delivered 0 xs cs us)"
proof (induction cs arbitrary: us)
  case (Cons c cs)
  then show ?case by (cases c) (auto simp: count_of_def)
qed simp

definition seeks_in :: "call list \<Rightarrow> nat \<Rightarrow> bool" where
  "seeks_in cs n \<longleftrightarrow> list_all (\<lambda>c. case c of Seek p \<Rightarrow> p \<le> n | _ \<Rightarrow> True) cs"

context seekable_reader begin

lemma run_calls_delivered:
  "ok s \<Longrightarrow> seeks_in cs (length (data s)) \<Longrightarrow>
   run_calls readc read seek cs s = Some (delivered none (data s) cs (rest s))"
proof (induction cs arbitrary: s)
  case (Cons c cs)
  have later: "seeks_in cs (length (data s))" using Cons.prems(2) by (simp add: seeks_in_def)
  show ?case
  proof (cases c)
    case Readc
    then show ?thesis using readc_law [OF Cons.prems(1)] readc_file [OF Cons.prems(1)] later Cons.IH
      by (auto split: list.split)
  next
    case (Read n)
    then show ?thesis using read_law [OF Cons.prems(1), of n] read_file [OF Cons.prems(1), of n] later Cons.IH
      by auto
  next
    case (Seek p)
    then have "p \<le> length (data s)" using Cons.prems(2) by (simp add: seeks_in_def)
    then show ?thesis using seek_law [OF Cons.prems(1), of p] later Cons.IH Seek by auto
  qed
qed simp

end

section \<open>The buffered reader\<close>

definition unread :: "io61_file \<Rightarrow> u8 list" where
  "unread f = take (nat (end_tag f - pos_tag f)) (drop (nat (pos_tag f - beg_tag f)) (cbuf f))
     @ drop (offset (fd f)) (contents (fd f))"

definition stream_ok :: "io61_file \<Rightarrow> bool" where
  "stream_ok f \<longleftrightarrow> length (cbuf f) = bufsize \<and> beg_tag f \<le> pos_tag f \<and> pos_tag f \<le> end_tag f
     \<and> end_tag f \<le> beg_tag f + int bufsize \<and> Fail \<notin> set (answers (fd f))"

text \<open>A regular file whose calls transfer all they are asked for, and a buffer that holds part of it.\<close>

definition file_ok :: "io61_file \<Rightarrow> bool" where
  "file_ok f \<longleftrightarrow> stream_ok f \<and> mode f = O_RDONLY \<and> regular (fd f) \<and> answers (fd f) = []
     \<and> 0 \<le> beg_tag f \<and> end_tag f = int (offset (fd f)) \<and> offset (fd f) \<le> length (contents (fd f))
     \<and> take (nat (end_tag f - beg_tag f)) (cbuf f)
       = take (nat (end_tag f - beg_tag f)) (drop (nat (beg_tag f)) (contents (fd f)))"

lemma fill_facts:
  assumes "Fail \<notin> set (answers (fd f))" and "length (cbuf f) = bufsize"
  shows "stream_ok (io61_fill f)" and "beg_tag (io61_fill f) = end_tag f" and "pos_tag (io61_fill f) = end_tag f"
    and "unread (io61_fill f) = drop (offset (fd f)) (contents (fd f))"
    and "end_tag (io61_fill f) \<le> end_tag f \<longleftrightarrow> drop (offset (fd f)) (contents (fd f)) = []"
    and "contents (fd (io61_fill f)) = contents (fd f)"
proof -
  obtain k where k: "k \<le> bufsize" "limit (fd f) bufsize = Some k" "0 < k"
    using no_fail_limit [OF assms(1), of bufsize] by (auto simp: bufsize_def)
  define bs where "bs = take k (drop (offset (fd f)) (contents (fd f)))"
  have b: "length bs \<le> bufsize" "bs @ drop (offset (fd f) + length bs) (contents (fd f)) = drop (offset (fd f)) (contents (fd f))"
    using k(1) by (auto simp: bs_def min_def) (metis add.commute append_take_drop_id drop_drop)
  have "Fail \<notin> set (tl (answers (fd f)))" using assms(1) by (cases "answers (fd f)") auto
  then show "stream_ok (io61_fill f)" and "beg_tag (io61_fill f) = end_tag f" and "pos_tag (io61_fill f) = end_tag f"
    and "unread (io61_fill f) = drop (offset (fd f)) (contents (fd f))"
    and "contents (fd (io61_fill f)) = contents (fd f)"
    using k assms b by (auto simp: io61_fill_def sys_read_def stream_ok_def unread_def bs_def [symmetric] Let_def)
  show "end_tag (io61_fill f) \<le> end_tag f \<longleftrightarrow> drop (offset (fd f)) (contents (fd f)) = []"
    using k by (auto simp: io61_fill_def sys_read_def Let_def)
qed

text \<open>The state before a byte is taken: the buffer is not empty, or the file has ended.\<close>

definition filled :: "io61_file \<Rightarrow> io61_file" where
  "filled f = (if pos_tag f = end_tag f then io61_fill f else f)"

lemma filled_facts:
  assumes "stream_ok f"
  shows "stream_ok (filled f)" and "unread (filled f) = unread f"
    and "pos_tag (filled f) = end_tag (filled f) \<longleftrightarrow> unread f = []"
  using assms fill_facts [of f]
  by (auto simp: filled_def stream_ok_def unread_def bufsize_def nat_eq_iff2 split: if_splits)

lemma read_loop_filled:
  "stream_ok f \<Longrightarrow> io61_read_loop sz n f =
     (if n < sz then
        if pos_tag (filled f) = end_tag (filled f) then Some ([], filled f)
        else let k = min (nat (end_tag (filled f) - pos_tag (filled f))) (sz - n)
             in Option.bind (cbuf_slice (filled f) (pos_tag (filled f) - beg_tag (filled f)) k) (\<lambda>bs.
                map_option (\<lambda>(rest, f2). (bs @ rest, f2))
                  (io61_read_loop sz (n + k) ((filled f)\<lparr>pos_tag := pos_tag (filled f) + int k\<rparr>)))
      else Some ([], f))"
  using filled_facts(1) [of f]
  by (subst io61_read_loop.simps) (auto simp: filled_def stream_ok_def Let_def)

text \<open>Taking \<open>k\<close> bytes from the buffer.\<close>

lemma take_buffered:
  assumes "stream_ok f" and "int k \<le> end_tag f - pos_tag f"
  shows "cbuf_slice f (pos_tag f - beg_tag f) k = Some (take k (unread f))"
    and "stream_ok (f\<lparr>pos_tag := pos_tag f + int k\<rparr>)"
    and "unread (f\<lparr>pos_tag := pos_tag f + int k\<rparr>) = drop k (unread f)"
proof -
  define a n where "a = nat (pos_tag f - beg_tag f)" and "n = nat (end_tag f - pos_tag f)"
  have u: "a + n \<le> length (cbuf f)" "k \<le> n" "pos_tag f - beg_tag f = int a" "end_tag f - pos_tag f = int n"
    using assms by (auto simp: stream_ok_def a_def n_def)
  have t: "nat (end_tag f - (pos_tag f + int k)) = n - k" "nat (pos_tag f + int k - beg_tag f) = a + k"
    using u by auto
  have l: "length (cbuf f) = bufsize" using assms(1) by (simp add: stream_ok_def)
  have un: "unread f = take n (drop a (cbuf f)) @ drop (offset (fd f)) (contents (fd f))"
    by (simp add: unread_def a_def n_def)
  show "cbuf_slice f (pos_tag f - beg_tag f) k = Some (take k (unread f))"
    unfolding cbuf_slice_def u(3) un using u l by (auto simp: min_def)
  show "stream_ok (f\<lparr>pos_tag := pos_tag f + int k\<rparr>)"
    using assms by (auto simp: stream_ok_def)
  show "unread (f\<lparr>pos_tag := pos_tag f + int k\<rparr>) = drop k (unread f)"
    unfolding un using u by (simp add: unread_def t drop_take add.commute min_def)
qed

lemma io61_readc_stream:
  assumes "stream_ok f"
  shows "\<exists>f'. io61_readc f = Some (case unread f of [] \<Rightarrow> - 1 | b # _ \<Rightarrow> uint b, f')
    \<and> stream_ok f' \<and> unread f' = tl (unread f) \<and> (f' = filled f \<or> f' = (filled f)\<lparr>pos_tag := pos_tag (filled f) + 1\<rparr> \<and> pos_tag (filled f) < end_tag (filled f))"
proof (cases "unread f")
  case Nil
  then have "pos_tag (filled f) = end_tag (filled f)" and "pos_tag f = end_tag f"
    using filled_facts [OF assms] by (auto simp: filled_def split: if_splits)
  then show ?thesis using Nil filled_facts [OF assms] by (auto simp: io61_readc_def filled_def Let_def)
next
  case (Cons b bs)
  let ?f = "filled f"
  have ok: "stream_ok ?f" "unread ?f = b # bs" "pos_tag ?f \<noteq> end_tag ?f" using filled_facts [OF assms] Cons by auto
  then have lt: "pos_tag ?f < end_tag ?f" by (simp add: stream_ok_def)
  have "io61_readc f = map_option (\<lambda>bs. (uint (hd bs), ?f\<lparr>pos_tag := pos_tag ?f + 1\<rparr>))
      (cbuf_slice ?f (pos_tag ?f - beg_tag ?f) 1)"
    using ok(3) by (auto simp: io61_readc_def filled_def Let_def)
  then show ?thesis using take_buffered [OF ok(1), of 1] lt ok(2) Cons by auto
qed

lemma read_loop_stream:
  "stream_ok f \<Longrightarrow> n \<le> sz \<Longrightarrow> (\<And>g. P g \<Longrightarrow> stream_ok g \<Longrightarrow> P (filled g)) \<Longrightarrow>
   (\<And>g k. P g \<Longrightarrow> stream_ok g \<Longrightarrow> int k \<le> end_tag g - pos_tag g \<Longrightarrow> P (g\<lparr>pos_tag := pos_tag g + int k\<rparr>)) \<Longrightarrow> P f \<Longrightarrow>
   \<exists>f'. io61_read_loop sz n f = Some (take (sz - n) (unread f), f')
     \<and> stream_ok f' \<and> unread f' = drop (sz - n) (unread f) \<and> P f'"
proof (induction "sz - n" arbitrary: n f rule: less_induct)
  case less
  note keep = less.prems(3,4)
  show ?case
  proof (cases "n < sz")
    case True
    let ?f = "filled f"
    have ok: "stream_ok ?f" "unread ?f = unread f" "pos_tag ?f = end_tag ?f \<longleftrightarrow> unread f = []" "P ?f"
      using filled_facts [OF less.prems(1)] keep(1) less.prems(1,5) by auto
    show ?thesis
    proof (cases "unread f = []")
      case True
      then show ?thesis using ok read_loop_filled [OF less.prems(1)] \<open>n < sz\<close> by simp
    next
      case False
      define k where "k = min (nat (end_tag ?f - pos_tag ?f)) (sz - n)"
      define g where "g = ?f\<lparr>pos_tag := pos_tag ?f + int k\<rparr>"
      have "pos_tag ?f < end_tag ?f" using ok(1,3) False by (simp add: stream_ok_def)
      then have k: "0 < k" "int k \<le> end_tag ?f - pos_tag ?f" "k \<le> sz - n"
        using \<open>n < sz\<close> by (auto simp: k_def)
      have g: "stream_ok g" "unread g = drop k (unread f)" "P g"
        using take_buffered [OF ok(1) k(2)] ok keep(2) [OF ok(4,1) k(2)] by (auto simp: g_def)
      have "sz - (n + k) < sz - n" and "n + k \<le> sz" using k \<open>n < sz\<close> by auto
      from less.hyps [OF this(1) g(1) this(2) keep g(3)] obtain f' where
        f': "io61_read_loop sz (n + k) g = Some (take (sz - (n + k)) (unread g), f')" "stream_ok f'"
          "unread f' = drop (sz - (n + k)) (unread g)" "P f'" by blast
      have "sz - n = k + (sz - (n + k))" using k \<open>n < sz\<close> by simp
      then have "take (sz - n) (unread f) = take k (unread f) @ take (sz - (n + k)) (unread g)"
        "drop (sz - n) (unread f) = drop (sz - (n + k)) (unread g)"
        using g(2) by (metis take_add, metis drop_drop add.commute)
      then show ?thesis
        using read_loop_filled [OF less.prems(1)] \<open>n < sz\<close> ok False f' take_buffered(1) [OF ok(1) k(2)]
        by (simp add: k_def [symmetric] g_def [symmetric] Let_def)
    qed
  next
    case False
    then show ?thesis using less.prems by (subst io61_read_loop.simps) simp
  qed
qed

lemma io61_read_stream:
  assumes "stream_ok f" and "\<And>g. P g \<Longrightarrow> stream_ok g \<Longrightarrow> P (filled g)"
    and "\<And>g k. P g \<Longrightarrow> stream_ok g \<Longrightarrow> int k \<le> end_tag g - pos_tag g \<Longrightarrow> P (g\<lparr>pos_tag := pos_tag g + int k\<rparr>)" and "P f"
  shows "\<exists>f'. io61_read sz f = Some (count_of (- 1) (take sz (unread f)), take sz (unread f), f')
    \<and> stream_ok f' \<and> unread f' = drop sz (unread f) \<and> P f'"
  using read_loop_stream [of f 0 sz P] assms by (auto simp: io61_read_def count_of_def)

interpretation bs: byte_reader io61_readc io61_read stream_ok unread "- 1"
  using io61_readc_stream io61_read_stream [of _ "\<lambda>_. True"] by unfold_locales fastforce+

section \<open>The buffered reader on a regular file\<close>

lemma fill_file:
  assumes "length (cbuf f) = bufsize" "mode f = O_RDONLY" "regular (fd f)" "answers (fd f) = []" "0 \<le> end_tag f"
    and "end_tag f = int (offset (fd f))" "offset (fd f) \<le> length (contents (fd f))"
  shows "file_ok (io61_fill f)"
    and "end_tag (io61_fill f) = min (end_tag f + int bufsize) (int (length (contents (fd f))))"
proof -
  define bs where "bs = take bufsize (drop (offset (fd f)) (contents (fd f)))"
  have "limit (fd f) bufsize = Some bufsize" using assms(4) by (simp add: limit_def)
  then have fill: "io61_fill f = f\<lparr>beg_tag := end_tag f, pos_tag := end_tag f, cbuf := bs @ drop (length bs) (cbuf f),
      end_tag := end_tag f + int (length bs), fd := (fd f)\<lparr>answers := [], offset := offset (fd f) + length bs\<rparr>\<rparr>"
    using assms(4) by (simp add: io61_fill_def sys_read_def bs_def [symmetric] Let_def)
  have "length bs \<le> bufsize" "offset (fd f) + length bs \<le> length (contents (fd f))"
    using assms(7) by (auto simp: bs_def)
  moreover have "take (length bs) (drop (offset (fd f)) (contents (fd f))) = bs"
    by (cases "bufsize \<le> length (contents (fd f)) - offset (fd f)") (auto simp: bs_def)
  ultimately show "file_ok (io61_fill f)" using assms
    by (simp add: fill file_ok_def stream_ok_def)
  show "end_tag (io61_fill f) = min (end_tag f + int bufsize) (int (length (contents (fd f))))"
    using assms(6,7) by (auto simp: fill bs_def)
qed

lemma file_filled: "file_ok f \<Longrightarrow> file_ok (filled f)"
  using fill_file(1) [of f] by (auto simp: filled_def) (auto simp: file_ok_def stream_ok_def)

lemma contents_filled: "stream_ok f \<Longrightarrow> contents (fd (filled f)) = contents (fd f)"
  using fill_facts(6) [of f] by (simp add: filled_def stream_ok_def)

lemma file_moved: "file_ok f \<Longrightarrow> beg_tag f \<le> p \<Longrightarrow> p \<le> end_tag f \<Longrightarrow> file_ok (f\<lparr>pos_tag := p\<rparr>)"
  by (auto simp: file_ok_def stream_ok_def)

lemma unread_file:
  assumes "file_ok f"
  shows "unread f = drop (nat (pos_tag f)) (contents (fd f))"
proof -
  define b p e c where "b = nat (beg_tag f)" and "p = nat (pos_tag f)" and "e = nat (end_tag f)" and "c = contents (fd f)"
  have o: "b \<le> p" "p \<le> e" "e = offset (fd f)" "e \<le> length c" "take (e - b) (cbuf f) = take (e - b) (drop b c)"
    and n: "nat (end_tag f - pos_tag f) = e - p" "nat (pos_tag f - beg_tag f) = p - b"
    using assms by (auto simp: file_ok_def stream_ok_def b_def p_def e_def c_def nat_diff_distrib)
  have "take (e - p) (drop (p - b) (cbuf f)) = drop (p - b) (take (e - b) (cbuf f))"
    using o(1,2) by (simp add: drop_take)
  also have "\<dots> = drop (p - b) (take (e - b) (drop b c))" by (simp only: o(5))
  also have "\<dots> = take (e - p) (drop p c)" using o(1,2) by (simp add: drop_take)
  finally show ?thesis using o(2) append_take_drop_id [of "e - p" "drop p c"]
    by (simp add: unread_def n o(3) [symmetric] c_def [symmetric] p_def [symmetric])
qed

lemma io61_readc_file: "file_ok f \<Longrightarrow> \<exists>f'. io61_readc f = Some (case unread f of [] \<Rightarrow> - 1 | b # _ \<Rightarrow> uint b, f')
    \<and> file_ok f' \<and> unread f' = tl (unread f) \<and> contents (fd f') = contents (fd f)"
proof -
  assume ok: "file_ok f"
  then have s: "stream_ok f" by (simp add: file_ok_def)
  have g: "file_ok (filled f)" "contents (fd (filled f)) = contents (fd f)" "beg_tag (filled f) \<le> pos_tag (filled f)"
    using file_filled [OF ok] contents_filled [OF s] by (auto simp: file_ok_def stream_ok_def)
  then have "pos_tag (filled f) < end_tag (filled f) \<Longrightarrow> file_ok ((filled f)\<lparr>pos_tag := pos_tag (filled f) + 1\<rparr>)"
    by (intro file_moved) auto
  then show ?thesis using io61_readc_stream [OF s] g by auto
qed

lemma io61_read_file: "file_ok f \<Longrightarrow> \<exists>f'. io61_read sz f = Some (count_of (- 1) (take sz (unread f)), take sz (unread f), f')
    \<and> file_ok f' \<and> unread f' = drop sz (unread f)
    \<and> contents (fd f') = contents (fd f)"
proof -
  assume ok: "file_ok f"
  let ?P = "\<lambda>g. file_ok g \<and> contents (fd g) = contents (fd f)"
  have "\<exists>f'. io61_read sz f = Some (count_of (- 1) (take sz (unread f)), take sz (unread f), f')
    \<and> stream_ok f' \<and> unread f' = drop sz (unread f) \<and> ?P f'"
  proof (rule io61_read_stream)
    show "stream_ok f" using ok by (simp add: file_ok_def)
    show "?P f" using ok by simp
    show "?P (filled g)" if "?P g" "stream_ok g" for g
      using that file_filled contents_filled by simp
    show "?P (g\<lparr>pos_tag := pos_tag g + int k\<rparr>)" if "?P g" "stream_ok g" "int k \<le> end_tag g - pos_tag g" for g k
    proof -
      have "file_ok (g\<lparr>pos_tag := pos_tag g + int k\<rparr>)"
        using that by (intro file_moved) (auto simp: stream_ok_def)
      then show ?thesis using that by simp
    qed
  qed
  then show ?thesis by blast
qed

lemma io61_seek_file:
  assumes ok: "file_ok f" and p: "p \<le> length (contents (fd f))"
  shows "\<exists>f'. io61_seek (int p) f = Some (0, f') \<and> file_ok f' \<and> contents (fd f') = contents (fd f)
    \<and> unread f' = drop p (contents (fd f))"
proof (cases "int p < end_tag f \<and> beg_tag f \<le> int p")
  case True
  then have "file_ok (f\<lparr>pos_tag := int p\<rparr>)" using ok file_moved by auto
  then show ?thesis using True ok unread_file [of "f\<lparr>pos_tag := int p\<rparr>"]
    by (auto simp: io61_seek_def file_ok_def)
next
  case False
  define q where "q = p div bufsize * bufsize"
  have q: "(int p sdiv int bufsize) * int bufsize = int q" "q \<le> p" "p < q + bufsize"
    using div_mult_mod_eq [of p bufsize] mod_less_divisor [of bufsize p]
    by (auto simp: q_def signed_divide_int_def bufsize_def zdiv_int)
  define g where "g = f\<lparr>fd := (fd f)\<lparr>offset := q\<rparr>, end_tag := int q\<rparr>"
  have "file_ok (io61_fill g)" "end_tag (io61_fill g) = min (int q + int bufsize) (int (length (contents (fd f))))"
    using fill_file [of g] ok q p by (auto simp: g_def file_ok_def stream_ok_def)
  moreover have "beg_tag (io61_fill g) = int q" "contents (fd (io61_fill g)) = contents (fd f)"
    using fill_facts(2,6) [of g] ok by (auto simp: g_def file_ok_def stream_ok_def)
  ultimately have r: "file_ok ((io61_fill g)\<lparr>pos_tag := int p\<rparr>)" "contents (fd (io61_fill g)) = contents (fd f)"
    using file_moved [of "io61_fill g" "int p"] q p by auto
  have m: "mode f = O_RDONLY" "regular (fd f)" using ok by (simp_all add: file_ok_def)
  have "io61_seek (int p) f = Some (0, (io61_fill g)\<lparr>pos_tag := int p\<rparr>)"
    using q(1) by (simp add: io61_seek_def if_not_P [OF False] m sys_lseek_def g_def Let_def)
  then show ?thesis using r unread_file [OF r(1)] by simp
qed

interpretation bf: seekable_reader io61_readc io61_read file_ok unread "- 1" io61_seek "\<lambda>f. contents (fd f)"
proof unfold_locales
  show "- 1 \<le> (0 :: int)" by simp
next
  fix f :: io61_file and n p :: nat assume ok: "file_ok f"
  show "\<exists>f'. io61_readc f = Some (case unread f of [] \<Rightarrow> - 1 | b # _ \<Rightarrow> uint b, f') \<and> file_ok f' \<and> unread f' = tl (unread f)"
    using io61_readc_file [OF ok] by blast
  show "\<exists>f'. io61_read n f = Some (count_of (- 1) (take n (unread f)), take n (unread f), f')
    \<and> file_ok f' \<and> unread f' = drop n (unread f)"
    using io61_read_file [OF ok] by blast
  show "contents (fd f') = contents (fd f)" if "io61_readc f = Some (c, f')" for c f'
    using io61_readc_file [OF ok] that by auto
  show "contents (fd f') = contents (fd f)" if "io61_read n f = Some (r, bs, f')" for r bs f'
    using io61_read_file [OF ok, of n] that by auto
  show "\<exists>f'. io61_seek (int p) f = Some (0, f') \<and> file_ok f' \<and> contents (fd f') = contents (fd f)
      \<and> unread f' = drop p (contents (fd f))" if "p \<le> length (contents (fd f))"
    by (rule io61_seek_file [OF ok that])
qed

section \<open>The unbuffered reader\<close>

definition desc_rest :: "fdesc \<Rightarrow> u8 list" where
  "desc_rest d = drop (offset d) (contents d)"

definition desc_ok :: "fdesc \<Rightarrow> bool" where
  "desc_ok d \<longleftrightarrow> Fail \<notin> set (answers d)"

definition desc_file :: "fdesc \<Rightarrow> bool" where
  "desc_file d \<longleftrightarrow> regular d \<and> desc_ok d"

lemma slow_readc_ok:
  assumes "desc_ok d"
  shows "\<exists>d'. slow_readc d = Some (case desc_rest d of [] \<Rightarrow> - 1 | b # _ \<Rightarrow> uint b, d') \<and> desc_ok d'
    \<and> desc_rest d' = tl (desc_rest d) \<and> contents d' = contents d \<and> regular d' = regular d"
proof -
  obtain k where k: "k \<le> 1" "limit d 1 = Some k" "0 < k" using no_fail_limit [of d 1] assms by (auto simp: desc_ok_def)
  then have one: "limit d 1 = Some 1" by simp
  have a: "Fail \<notin> set (tl (answers d))" using assms by (cases "answers d") (auto simp: desc_ok_def)
  have "drop (Suc (offset d)) (contents d) = tl (drop (offset d) (contents d))"
    by (simp add: drop_Suc tl_drop)
  then show ?thesis using one a
    by (cases "drop (offset d) (contents d)")
       (auto simp: slow_readc_def sys_read_def desc_rest_def desc_ok_def Let_def)
qed

lemma slow_read_loop_ok:
  "desc_ok d \<Longrightarrow> \<exists>d'. slow_read_loop n d = Some (take n (desc_rest d), d') \<and> desc_ok d'
    \<and> desc_rest d' = drop n (desc_rest d) \<and> contents d' = contents d \<and> regular d' = regular d"
proof (induction n arbitrary: d)
  case (Suc n)
  obtain d' where d': "slow_readc d = Some (case desc_rest d of [] \<Rightarrow> - 1 | b # _ \<Rightarrow> uint b, d')" "desc_ok d'"
    "desc_rest d' = tl (desc_rest d)" "contents d' = contents d" "regular d' = regular d"
    using slow_readc_ok [OF Suc.prems] by blast
  show ?case
  proof (cases "desc_rest d")
    case (Cons b us)
    have "uint b \<noteq> - 1" by (metis neg_0_le_iff_le not_one_le_zero uint_ge_0)
    then show ?thesis using Suc.IH [OF d'(2)] d' Cons by auto
  qed (use d' in auto)
qed simp

lemma count_of_0 [simp]: "count_of 0 bs = int (length bs)" by (simp add: count_of_def)

interpretation ss: byte_reader slow_readc slow_read desc_ok desc_rest 0
  using slow_readc_ok slow_read_loop_ok by unfold_locales (fastforce simp: slow_read_def)+

interpretation sf: seekable_reader slow_readc slow_read desc_file desc_rest 0 slow_seek contents
proof unfold_locales
  show "(0 :: int) \<le> 0" by simp
next
  fix d :: fdesc and n p :: nat assume "desc_file d"
  then have ok: "desc_ok d" "regular d" by (simp_all add: desc_file_def)
  show "\<exists>d'. slow_readc d = Some (case desc_rest d of [] \<Rightarrow> - 1 | b # _ \<Rightarrow> uint b, d') \<and> desc_file d'
      \<and> desc_rest d' = tl (desc_rest d)"
    using slow_readc_ok [OF ok(1)] ok(2) by (auto simp: desc_file_def)
  show "\<exists>d'. slow_read n d = Some (count_of 0 (take n (desc_rest d)), take n (desc_rest d), d')
    \<and> desc_file d' \<and> desc_rest d' = drop n (desc_rest d)"
    using slow_read_loop_ok [OF ok(1), of n] ok(2) by (auto simp: desc_file_def slow_read_def)
  show "contents d' = contents d" if "slow_readc d = Some (c, d')" for c d'
    using slow_readc_ok [OF ok(1)] that by auto
  show "contents d' = contents d" if "slow_read n d = Some (r, bs, d')" for r bs d'
    using slow_read_loop_ok [OF ok(1), of n] that by (auto simp: slow_read_def)
  show "\<exists>d'. slow_seek (int p) d = Some (0, d') \<and> desc_file d' \<and> contents d' = contents d
      \<and> desc_rest d' = drop p (contents d)" if "p \<le> length (contents d)"
    using ok by (simp add: slow_seek_def sys_lseek_def desc_file_def desc_ok_def desc_rest_def)
qed

end
