(* ===== verification/Io61Writer.thy ===== *)
theory Io61Writer
  imports Io61
begin

text \<open>
  The contract of a writer: its bytes overlay the file at the writer's position, and closing it
  leaves them there. The buffered library keeps it when the system transfers all it is given (it
  does not look at the count \<open>write\<close> returns), the unbuffered one as long as no call fails.
\<close>

section \<open>The contract\<close>

locale byte_writer =
  fixes writec :: "u8 \<Rightarrow> 'w \<Rightarrow> (int \<times> 'w) option"
    and wr :: "u8 list \<Rightarrow> 'w \<Rightarrow> (int \<times> 'w) option"
    and shut :: "'w \<Rightarrow> fdesc option"
    and wok :: "'w \<Rightarrow> bool"
    and stored :: "'w \<Rightarrow> u8 list"
    and at :: "'w \<Rightarrow> nat"
  assumes writec_law: "wok w \<Longrightarrow> \<exists>w'. writec c w = Some (0, w') \<and> wok w'
      \<and> stored w' = overlay (stored w) (at w) [c] \<and> at w' = at w + 1"
    and write_law: "wok w \<Longrightarrow> \<exists>w'. wr bs w = Some (int (length bs), w') \<and> wok w'
      \<and> stored w' = overlay (stored w) (at w) bs \<and> at w' = at w + length bs"
    and close_law: "wok w \<Longrightarrow> \<exists>d. shut w = Some d \<and> contents d = stored w"

locale seekable_writer = byte_writer +
  fixes wseek :: "int \<Rightarrow> 'w \<Rightarrow> (int \<times> 'w) option"
  assumes wseek_law: "wok w \<Longrightarrow> \<exists>w'. wseek (int p) w = Some (0, w') \<and> wok w' \<and> stored w' = stored w \<and> at w' = p"

text \<open>A sequence of writing calls, with every value they return checked by the caller.\<close>

datatype wcall = Writec u8 | Write "u8 list" | Wseek nat

fun run_writes ::
  "(u8 \<Rightarrow> 'w \<Rightarrow> (int \<times> 'w) option) \<Rightarrow> (u8 list \<Rightarrow> 'w \<Rightarrow> (int \<times> 'w) option) \<Rightarrow> (int \<Rightarrow> 'w \<Rightarrow> (int \<times> 'w) option)
    \<Rightarrow> ('w \<Rightarrow> fdesc option) \<Rightarrow> wcall list \<Rightarrow> 'w \<Rightarrow> (int list \<times> u8 list) option" where
  "run_writes wc wr sk cl [] w = map_option (\<lambda>d. ([], contents d)) (cl w)"
| "run_writes wc wr sk cl (Writec c # cs) w =
     Option.bind (wc c w) (\<lambda>(r, w1). map_option (\<lambda>(rs, d). (r # rs, d)) (run_writes wc wr sk cl cs w1))"
| "run_writes wc wr sk cl (Write bs # cs) w =
     Option.bind (wr bs w) (\<lambda>(r, w1). map_option (\<lambda>(rs, d). (r # rs, d)) (run_writes wc wr sk cl cs w1))"
| "run_writes wc wr sk cl (Wseek p # cs) w =
     Option.bind (sk (int p) w) (\<lambda>(r, w1). map_option (\<lambda>(rs, d). (r # rs, d)) (run_writes wc wr sk cl cs w1))"

text \<open>What the file holds after the calls: each write overlays it at the position.\<close>

fun written :: "wcall list \<Rightarrow> u8 list \<Rightarrow> nat \<Rightarrow> u8 list" where
  "written [] xs p = xs"
| "written (Writec c # cs) xs p = written cs (overlay xs p [c]) (p + 1)"
| "written (Write bs # cs) xs p = written cs (overlay xs p bs) (p + length bs)"
| "written (Wseek q # cs) xs p = written cs xs q"

definition returns :: "wcall \<Rightarrow> int" where
  "returns c = (case c of Write bs \<Rightarrow> int (length bs) | _ \<Rightarrow> 0)"

context seekable_writer begin

lemma run_writes_written:
  "wok w \<Longrightarrow> run_writes writec wr wseek shut cs w = Some (map returns cs, written cs (stored w) (at w))"
proof (induction cs arbitrary: w)
  case Nil
  then show ?case using close_law by fastforce
next
  case (Cons c cs)
  show ?case
  proof (cases c)
    case (Writec b)
    then show ?thesis using writec_law [OF Cons.prems, of b] Cons.IH by (auto simp: returns_def)
  next
    case (Write bs)
    then show ?thesis using write_law [OF Cons.prems, of bs] Cons.IH by (auto simp: returns_def)
  next
    case (Wseek p)
    then show ?thesis using wseek_law [OF Cons.prems, of p] Cons.IH by (auto simp: returns_def)
  qed
qed

end

section \<open>The buffered writer\<close>

definition pending :: "io61_file \<Rightarrow> u8 list" where
  "pending f = take (nat (pos_tag f - beg_tag f)) (cbuf f)"

definition writer_ok :: "io61_file \<Rightarrow> bool" where
  "writer_ok f \<longleftrightarrow> mode f = O_WRONLY \<and> length (cbuf f) = bufsize \<and> answers (fd f) = []
     \<and> beg_tag f \<le> pos_tag f \<and> end_tag f = pos_tag f \<and> end_tag f \<le> beg_tag f + int bufsize"

definition out_stored :: "io61_file \<Rightarrow> u8 list" where
  "out_stored f = overlay (contents (fd f)) (offset (fd f)) (pending f)"

definition out_at :: "io61_file \<Rightarrow> nat" where
  "out_at f = offset (fd f) + length (pending f)"

lemma flush_ok:
  assumes "writer_ok f"
  shows "\<exists>f'. io61_flush f = Some (0, f') \<and> writer_ok f' \<and> out_stored f' = out_stored f \<and> out_at f' = out_at f
    \<and> beg_tag f' = pos_tag f \<and> pos_tag f' = pos_tag f \<and> contents (fd f') = out_stored f \<and> regular (fd f') = regular (fd f)"
proof -
  have p: "cbuf_slice f 0 (nat (pos_tag f - beg_tag f)) = Some (pending f)"
    using assms by (auto simp: cbuf_slice_def pending_def writer_ok_def)
  have "io61_flush f = Some (0, f\<lparr>fd := (fd f)\<lparr>contents := out_stored f, offset := out_at f\<rparr>, beg_tag := pos_tag f\<rparr>)"
    using assms by (simp add: io61_flush_def p writer_ok_def sys_write_def limit_def out_stored_def out_at_def Let_def)
  then show ?thesis using assms by (auto simp: writer_ok_def out_stored_def out_at_def pending_def bufsize_def)
qed

lemma flush_full_ok:
  assumes "writer_ok f"
  shows "\<exists>f'. flush_full f = Some f' \<and> writer_ok f' \<and> out_stored f' = out_stored f \<and> out_at f' = out_at f
    \<and> pos_tag f' < beg_tag f' + int bufsize \<and> regular (fd f') = regular (fd f)"
proof (cases "end_tag f = beg_tag f + int bufsize")
  case True
  then show ?thesis using flush_ok [OF assms] by (auto simp: flush_full_def bufsize_def)
next
  case False
  then show ?thesis using assms by (auto simp: flush_full_def writer_ok_def)
qed

lemma put_ok:
  assumes "writer_ok f" and "pos_tag f - beg_tag f + int (length bs) \<le> int bufsize"
  shows "\<exists>g. cbuf_put f (pos_tag f - beg_tag f) bs = Some g \<and>
    (let f' = g\<lparr>pos_tag := pos_tag g + int (length bs), end_tag := end_tag g + int (length bs)\<rparr>
     in writer_ok f' \<and> out_stored f' = overlay (out_stored f) (out_at f) bs \<and> out_at f' = out_at f + length bs
       \<and> regular (fd f') = regular (fd f))"
proof -
  define k g where "k = nat (pos_tag f - beg_tag f)" and
    "g = f\<lparr>cbuf := take k (cbuf f) @ bs @ drop (k + length bs) (cbuf f)\<rparr>"
  have k: "pos_tag f = beg_tag f + int k" "k + length bs \<le> bufsize" "length (cbuf f) = bufsize"
    using assms by (auto simp: k_def writer_ok_def)
  have "cbuf_put f (pos_tag f - beg_tag f) bs = Some g"
    using k by (simp add: cbuf_put_def g_def)
  moreover have "pending (g\<lparr>pos_tag := pos_tag g + int (length bs), end_tag := end_tag g + int (length bs)\<rparr>) = pending f @ bs"
    using k by (cases bs) (simp_all add: pending_def g_def min_def nat_add_distrib)
  ultimately show ?thesis using assms k
    by (simp add: Let_def writer_ok_def out_stored_def out_at_def overlay_overlay) (simp add: g_def)
qed

lemma io61_writec_ok: "writer_ok f \<Longrightarrow> \<exists>f'. io61_writec c f = Some (0, f') \<and> writer_ok f'
    \<and> out_stored f' = overlay (out_stored f) (out_at f) [c] \<and> out_at f' = out_at f + 1
    \<and> regular (fd f') = regular (fd f)"
  using flush_full_ok [of f] put_ok [of _ "[c]"] by (fastforce simp: io61_writec_def Let_def)

lemma write_loop_ok: "writer_ok f \<Longrightarrow> \<exists>f'. io61_write_loop bs f = Some f' \<and> writer_ok f'
    \<and> out_stored f' = overlay (out_stored f) (out_at f) bs \<and> out_at f' = out_at f + length bs
    \<and> regular (fd f') = regular (fd f)"
proof (induction "length bs" arbitrary: bs f rule: less_induct)
  case less
  show ?case
  proof (cases "bs = []")
    case True
    then show ?thesis using less.prems by (simp add: io61_write_loop.simps)
  next
    case False
    obtain f1 where f1: "flush_full f = Some f1" "writer_ok f1" "out_stored f1 = out_stored f" "out_at f1 = out_at f"
      "pos_tag f1 < beg_tag f1 + int bufsize" "regular (fd f1) = regular (fd f)" using flush_full_ok [OF less.prems] by blast
    define k where "k = rec_count f1 (length bs)"
    have k: "0 < k" "k \<le> length bs" "pos_tag f1 - beg_tag f1 + int k \<le> int bufsize" "length (take k bs) = k"
      using f1(2,5) False by (auto simp: k_def rec_count_def writer_ok_def Let_def)
    obtain g where g: "cbuf_put f1 (pos_tag f1 - beg_tag f1) (take k bs) = Some g"
      "writer_ok (g\<lparr>pos_tag := pos_tag g + int k, end_tag := end_tag g + int k\<rparr>)"
      "out_stored (g\<lparr>pos_tag := pos_tag g + int k, end_tag := end_tag g + int k\<rparr>) = overlay (out_stored f) (out_at f) (take k bs)"
      "out_at (g\<lparr>pos_tag := pos_tag g + int k, end_tag := end_tag g + int k\<rparr>) = out_at f + k" "regular (fd g) = regular (fd f)"
      using put_ok [OF f1(2), of "take k bs"] k(3,4) f1(3,4,6) by (auto simp: Let_def simp del: length_take)
    have step: "io61_write_loop bs f = io61_write_loop (drop k bs) (g\<lparr>pos_tag := pos_tag g + int k, end_tag := end_tag g + int k\<rparr>)"
      using False f1(1) g(1)
      by (subst io61_write_loop.simps) (simp add: Let_def k_def [symmetric])
    have "overlay (overlay (out_stored f) (out_at f) (take k bs)) (out_at f + k) (drop k bs) = overlay (out_stored f) (out_at f) bs"
      using overlay_overlay [of "out_stored f" "out_at f" "take k bs" "drop k bs"] k(4) by simp
    then show ?thesis using less.hyps [of "drop k bs", OF _ g(2)] k g(3-5) step by auto
  qed
qed

lemma io61_close_ok: "writer_ok f \<Longrightarrow> \<exists>d. io61_close f = Some d \<and> contents d = out_stored f"
  using flush_ok by (fastforce simp: io61_close_def)

lemma io61_wseek_ok: "writer_ok f \<Longrightarrow> regular (fd f) \<Longrightarrow> \<exists>f'. io61_seek (int p) f = Some (0, f') \<and> writer_ok f'
    \<and> regular (fd f') \<and> out_stored f' = out_stored f \<and> out_at f' = p"
proof -
  assume ok: "writer_ok f" "regular (fd f)"
  then obtain g where g: "io61_flush f = Some (0, g)" "writer_ok g" "out_stored g = out_stored f" "beg_tag g = pos_tag g"
    "regular (fd g)" using flush_ok by metis
  have m: "mode f = O_WRONLY" "mode g = O_WRONLY" "end_tag g = pos_tag g"
    using ok g(2,4) by (auto simp: writer_ok_def)
  have "io61_seek (int p) f = Some (0, g\<lparr>fd := (fd g)\<lparr>offset := p\<rparr>, beg_tag := int p, end_tag := int p, pos_tag := int p\<rparr>)"
    using g(1,4,5) m by (simp add: io61_seek_def sys_lseek_def Let_def)
  then show ?thesis using g(2-5) m(3) by (auto simp: writer_ok_def out_stored_def out_at_def pending_def bufsize_def)
qed

interpretation bo: byte_writer io61_writec io61_write io61_close writer_ok out_stored out_at
  using io61_writec_ok write_loop_ok io61_close_ok by unfold_locales (fastforce simp: io61_write_def)+

interpretation bw: seekable_writer io61_writec io61_write io61_close "\<lambda>f. writer_ok f \<and> regular (fd f)"
  out_stored out_at io61_seek
  using io61_writec_ok write_loop_ok io61_close_ok io61_wseek_ok
  by unfold_locales (fastforce simp: io61_write_def)+

section \<open>The unbuffered writer\<close>

definition desc_wok :: "fdesc \<Rightarrow> bool" where
  "desc_wok d \<longleftrightarrow> Fail \<notin> set (answers d) \<and> regular d"

lemma slow_writec_ok: "desc_wok d \<Longrightarrow> \<exists>d'. slow_writec c d = Some (0, d') \<and> desc_wok d'
    \<and> contents d' = overlay (contents d) (offset d) [c] \<and> offset d' = offset d + 1"
proof -
  assume ok: "desc_wok d"
  then obtain k where "k \<le> 1" "limit d 1 = Some k" "0 < k" using no_fail_limit [of d 1] by (auto simp: desc_wok_def)
  then have "limit d 1 = Some 1" by simp
  moreover have "Fail \<notin> set (tl (answers d))" using ok by (cases "answers d") (auto simp: desc_wok_def)
  ultimately show ?thesis using ok by (auto simp: slow_writec_def sys_write_def desc_wok_def Let_def)
qed

lemma slow_write_loop_ok: "desc_wok d \<Longrightarrow> \<exists>d'. slow_write_loop bs d = Some (length bs, d') \<and> desc_wok d'
    \<and> contents d' = overlay (contents d) (offset d) bs \<and> offset d' = offset d + length bs"
proof (induction bs arbitrary: d)
  case (Cons b bs)
  obtain d' where d': "slow_writec b d = Some (0, d')" "desc_wok d'"
    "contents d' = overlay (contents d) (offset d) [b]" "offset d' = offset d + 1"
    using slow_writec_ok [OF Cons.prems] by blast
  show ?case using Cons.IH [OF d'(2)] d' overlay_overlay [of "contents d" "offset d" "[b]" bs] by auto
qed simp

interpretation sw: seekable_writer slow_writec slow_write slow_close desc_wok contents offset slow_seek
proof unfold_locales
  fix d :: fdesc and p :: nat and bs :: "u8 list" and c :: u8 assume ok: "desc_wok d"
  show "\<exists>d'. slow_writec c d = Some (0, d') \<and> desc_wok d' \<and> contents d' = overlay (contents d) (offset d) [c] \<and> offset d' = offset d + 1"
    by (rule slow_writec_ok [OF ok])
  show "\<exists>d'. slow_write bs d = Some (int (length bs), d') \<and> desc_wok d'
      \<and> contents d' = overlay (contents d) (offset d) bs \<and> offset d' = offset d + length bs"
  proof -
    obtain d' where "slow_write_loop bs d = Some (length bs, d')" "desc_wok d'"
      "contents d' = overlay (contents d) (offset d) bs" "offset d' = offset d + length bs"
      using slow_write_loop_ok [OF ok, of bs] by blast
    then show ?thesis by (simp add: slow_write_def)
  qed
  show "\<exists>d'. slow_close d = Some d' \<and> contents d' = contents d"
    by (simp add: slow_close_def slow_flush_def)
  show "\<exists>d'. slow_seek (int p) d = Some (0, d') \<and> desc_wok d' \<and> contents d' = contents d \<and> offset d' = p"
    using ok by (simp add: slow_seek_def sys_lseek_def desc_wok_def)
qed

end
