(* ===== verification/Io61Cat.thy ===== *)
theory Io61Cat
  imports Io61Spec Io61Writer
begin

text \<open>
  The programs that use the file library (\<open>pset4/cat61.cc\<close>, \<open>blockcat61.cc\<close>, \<open>randblockcat61.cc\<close>,
  \<open>reverse61.cc\<close>, \<open>reordercat61.cc\<close>, \<open>stridecat61.cc\<close>, \<open>ostridecat61.cc\<close>). They are linked with
  either version of the library, so the operations they call are their first arguments. A program
  ends with the open file of its output, or with the message it exits with. The values \<open>random()\<close>
  returns are an argument.
\<close>

definition SSIZE_LIMIT :: nat where "SSIZE_LIMIT = 2 ^ 63"

text \<open>The options a program was called with; no \<open>-s\<close> option is \<open>SIZE_MAX\<close>, no \<open>-b\<close> option 0.\<close>

record arguments =
  input_size :: nat
  block_size :: nat
  stride :: nat

section \<open>Copying in order\<close>

fun cat_loop :: "('r \<Rightarrow> (int \<times> 'r) option) \<Rightarrow> (u8 \<Rightarrow> 'w \<Rightarrow> (int \<times> 'w) option) \<Rightarrow> nat \<Rightarrow> 'r \<Rightarrow> 'w \<Rightarrow> ('r \<times> 'w) option" where
  "cat_loop rc wc 0 r w = Some (r, w)"
| "cat_loop rc wc (Suc n) r w =
     Option.bind (rc r) (\<lambda>(ch, r1).
       if ch = - 1 then Some (r1, w)
       else Option.bind (wc (word_of_int ch) w) (\<lambda>(_, w1). cat_loop rc wc n r1 w1))"

definition cat61 where
  "cat61 rc wc cl args r w = Option.bind (cat_loop rc wc (input_size args) r w) (\<lambda>(_, w1). cl w1)"

text \<open>Block \<open>i\<close> of the copy has the size \<open>sizes i\<close>.\<close>

partial_function (option) block_loop ::
  "(nat \<Rightarrow> 'r \<Rightarrow> (int \<times> u8 list \<times> 'r) option) \<Rightarrow> (u8 list \<Rightarrow> 'w \<Rightarrow> (int \<times> 'w) option) \<Rightarrow> (nat \<Rightarrow> nat)
    \<Rightarrow> nat \<Rightarrow> 'r \<Rightarrow> 'w \<Rightarrow> ('r \<times> 'w) option" where
  "block_loop rd wr sizes i r w =
     Option.bind (rd (sizes i) r) (\<lambda>(amount, buf, r1).
       if amount \<le> 0 then Some (r1, w)
       else Option.bind (wr buf w) (\<lambda>(_, w1). block_loop rd wr sizes (i + 1) r1 w1))"

definition block_default :: "nat \<Rightarrow> arguments \<Rightarrow> nat" where
  "block_default n args = (if block_size args \<noteq> 0 then block_size args else n)"

definition blockcat61 where
  "blockcat61 rd wr cl args r w =
     Option.bind (block_loop rd wr (\<lambda>_. block_default 4096 args) 0 r w) (\<lambda>(_, w1). cl w1)"

definition randblockcat61 where
  "randblockcat61 rd wr cl random args r w =
     Option.bind (block_loop rd wr (\<lambda>i. random i mod block_default 4096 args + 1) 0 r w) (\<lambda>(_, w1). cl w1)"

section \<open>Copying out of order\<close>

text \<open>The size of the input: as given, or the size of the file, if it has one.\<close>

definition size_of_input :: "('r \<Rightarrow> int) \<Rightarrow> arguments \<Rightarrow> 'r \<Rightarrow> nat option" where
  "size_of_input fsize args r =
     (if input_size args < SSIZE_LIMIT then Some (input_size args)
      else if fsize r < 0 then None else Some (nat (fsize r)))"

fun reverse_loop ::
  "('r \<Rightarrow> (int \<times> 'r) option) \<Rightarrow> (int \<Rightarrow> 'r \<Rightarrow> (int \<times> 'r) option) \<Rightarrow> (u8 \<Rightarrow> 'w \<Rightarrow> (int \<times> 'w) option)
    \<Rightarrow> nat \<Rightarrow> 'r \<Rightarrow> 'w \<Rightarrow> ('r \<times> 'w) option" where
  "reverse_loop rc sk wc 0 r w = Some (r, w)"
| "reverse_loop rc sk wc (Suc n) r w =
     Option.bind (sk (int n) r) (\<lambda>(_, r1).
     Option.bind (rc r1) (\<lambda>(ch, r2).
     Option.bind (wc (word_of_int ch) w) (\<lambda>(_, w1). reverse_loop rc sk wc n r2 w1)))"

definition reverse61 where
  "reverse61 rc sk fsize wc cl args r w =
     (case size_of_input fsize args r of
        None \<Rightarrow> Some (Inl ''can't get size of input file'')
      | Some n \<Rightarrow>
          Option.bind (sk 0 r) (\<lambda>(res, r1).
            if res < 0 then Some (Inl ''input file is not seekable'')
            else Option.bind (reverse_loop rc sk wc n r1 w) (\<lambda>(_, w1). map_option Inr (cl w1))))"

text \<open>The remaining blocks are the first \<open>n\<close> entries of \<open>blockpos\<close>.\<close>

fun reorder_loop where
  "reorder_loop rd sk wr wsk random sz i 0 blockpos r w = Some (r, w)"
| "reorder_loop rd sk wr wsk random sz i (Suc n) blockpos r w =
     (let index = random i mod Suc n;
          pos = blockpos ! index * sz;
          blockpos1 = blockpos[index := blockpos ! n]
      in Option.bind (sk (int pos) r) (\<lambda>(_ :: int, r1).
         Option.bind (rd sz r1) (\<lambda>(amount :: int, buf, r2).
           if amount \<le> 0 then Some (r2, w)
           else Option.bind (wsk (int pos) w) (\<lambda>(_ :: int, w1).
                Option.bind (wr buf w1) (\<lambda>(_ :: int, w2).
                  reorder_loop rd sk wr wsk random sz (i + 1) n blockpos1 r2 w2)))))"

definition reordercat61 where
  "reordercat61 rd sk fsize wr wsk cl random args r w =
     (let sz = block_default 4096 args
      in case size_of_input fsize args r of
           None \<Rightarrow> Some (Inl ''can't get size of input file'')
         | Some n \<Rightarrow>
             Option.bind (sk 0 r) (\<lambda>(res, r1).
               if res < 0 then Some (Inl ''input file is not seekable'')
               else Option.bind (wsk 0 w) (\<lambda>(res, w1).
                 if res < 0 then Some (Inl ''output file is not seekable'')
                 else let nblocks = n div sz
                      in if 30 * 2 ^ 20 < nblocks then Some (Inl ''file too large'')
                         else if nblocks * sz \<noteq> n then Some (Inl ''input file size not a multiple of block size'')
                         else Option.bind (reorder_loop rd sk wr wsk random sz 0 nblocks [0..<nblocks] r1 w1)
                                (\<lambda>(_, w2). map_option Inr (cl w2)))))"

text \<open>
  One step of the strided access patterns: the next position and block size. The sizes are
  \<open>size_t\<close>, which wraps.
\<close>

definition next_stride :: "u64 \<Rightarrow> u64 \<Rightarrow> u64 \<Rightarrow> u64 \<Rightarrow> u64 \<times> u64" where
  "next_stride isize str pos bsz =
     (let pos1 = pos + str
      in if isize \<le> pos1
         then let pos2 = pos1 mod str + bsz
              in (pos2, if str < pos2 + bsz then str - pos2 else bsz)
         else (pos1, bsz))"

partial_function (option) stride_loop ::
  "(nat \<Rightarrow> 'r \<Rightarrow> (int \<times> u8 list \<times> 'r) option) \<Rightarrow> (int \<Rightarrow> 'r \<Rightarrow> (int \<times> 'r) option)
    \<Rightarrow> (u8 list \<Rightarrow> 'w \<Rightarrow> (int \<times> 'w) option) \<Rightarrow> (int \<Rightarrow> 'w \<Rightarrow> (int \<times> 'w) option)
    \<Rightarrow> u64 \<Rightarrow> u64 \<Rightarrow> u64 \<Rightarrow> u64 \<Rightarrow> u64 \<Rightarrow> 'r \<Rightarrow> 'w \<Rightarrow> ('r \<times> 'w) option" where
  "stride_loop rd sk wr wsk isize str pos copied bsz r w =
     (if copied < isize then
        Option.bind (rd (unat bsz) r) (\<lambda>(amount, buf, r1).
          if amount \<le> 0 then Some (r1, w)
          else Option.bind (wr buf w) (\<lambda>(_, w1).
               let (pos1, bsz1) = next_stride isize str pos bsz
               in Option.bind (sk (sint pos1) r1) (\<lambda>(res1, r2).
                  Option.bind (wsk (sint pos1) w1) (\<lambda>(res2, w2).
                    if res1 < 0 \<or> res2 < 0 then None
                    else stride_loop rd sk wr wsk isize str pos1 (copied + word_of_int amount) bsz1 r2 w2))))
      else Some (r, w))"

text \<open>\<open>stridecat61\<close> seeks in its input only, \<open>ostridecat61\<close> in its output only.\<close>

definition no_seek :: "int \<Rightarrow> 'a \<Rightarrow> (int \<times> 'a) option" where
  "no_seek p s = Some (0, s)"

definition stridecat61 where
  "stridecat61 rd sk fsize wr cl args r w =
     (case size_of_input fsize args r of
        None \<Rightarrow> Some (Inl ''can't get size of input file'')
      | Some n \<Rightarrow>
          Option.bind (sk 0 r) (\<lambda>(res, r1).
            if res < 0 then Some (Inl ''input file is not seekable'')
            else Option.bind (stride_loop rd sk wr no_seek (of_nat n) (of_nat (stride args)) 0 0
                                (of_nat (block_default 1 args)) r1 w) (\<lambda>(_, w1). map_option Inr (cl w1))))"

definition ostridecat61 where
  "ostridecat61 rd fsize wr wsk cl args r w =
     (if fsize r < 0 then Some (Inl ''input file is not seekable'')
      else Option.bind (wsk 0 w) (\<lambda>(res, w1).
            if res < 0 then Some (Inl ''output file is not seekable'')
            else Option.bind (stride_loop rd no_seek wr wsk (word_of_int (fsize r)) (of_nat (stride args)) 0 0
                                (of_nat (block_default 1 args)) r w1) (\<lambda>(_, w2). map_option Inr (cl w2))))"

end
