(* ===== verification/Io61Args.thy ===== *)
theory Io61Args
  imports Io61Cat
begin

text \<open>
  The command line of the copying programs (\<open>io61_arguments\<close> of \<open>pset4/profile61.cc\<close>). Strings are lists of
  bytes without their NUL. What \<open>getopt\<close> returns is a list of options with their arguments, in which
  \<open>63\<close> (a question mark) is an option that is not in \<open>opts\<close>. \<open>None\<close> in a list of files is standard input or output;
  the result \<open>None\<close> is the exit after the usage has been printed.
\<close>

section \<open>\<open>strtoul\<close> with base 0\<close>

definition digit_value :: "nat \<Rightarrow> u8 \<Rightarrow> nat option" where
  "digit_value base b =
     (let d = (if 48 \<le> b \<and> b \<le> 57 then unat b - 48
               else if 97 \<le> b \<and> b \<le> 122 then unat b - 87
               else if 65 \<le> b \<and> b \<le> 90 then unat b - 55 else base)
      in if d < base then Some d else None)"

fun digits_value :: "nat \<Rightarrow> nat \<Rightarrow> u8 list \<Rightarrow> nat \<times> u8 list" where
  "digits_value base v [] = (v, [])"
| "digits_value base v (b # bs) =
     (case digit_value base b of Some d \<Rightarrow> digits_value base (v * base + d) bs | None \<Rightarrow> (v, b # bs))"

text \<open>The value, and the text at \<open>endptr\<close>: all of it when there is no number.\<close>

definition strtoul_end :: "u8 list \<Rightarrow> nat \<times> u8 list" where
  "strtoul_end bs =
     (let s = dropWhile (\<lambda>b. b = 32 \<or> 9 \<le> b \<and> b \<le> 13) bs;
          (neg, t) = (case s of b # r \<Rightarrow> if b = 45 then (True, r) else if b = 43 then (False, r) else (False, s) | [] \<Rightarrow> (False, s));
          hex = (case t of a # b # c # _ \<Rightarrow> a = 48 \<and> (b = 120 \<or> b = 88) \<and> digit_value 16 c \<noteq> None | _ \<Rightarrow> False);
          (v, rest) = (if hex then digits_value 16 0 (drop 2 t)
                       else if take 1 t = [48] then digits_value 8 0 t else digits_value 10 0 t)
      in if rest = t then (0, bs)
         else (if 2 ^ 64 \<le> v then 2 ^ 64 - 1 else if neg then nat ((- int v) mod 2 ^ 64) else v, rest))"

section \<open>The arguments\<close>

record io61_arguments = arguments +
  by_lines :: bool
  input_file :: "u8 list option"
  output_file :: "u8 list option"
  input_files :: "u8 list option list"
  output_files :: "u8 list option list"
  seed :: "nat option"

definition no_arguments :: io61_arguments where
  "no_arguments = \<lparr>input_size = 2 ^ 64 - 1, block_size = 0, stride = 1024, by_lines = False, input_file = None,
     output_file = None, input_files = [], output_files = [], seed = None\<rparr>"

text \<open>\<open>endptr == optarg || *endptr\<close>.\<close>

definition bad_number :: "u8 list \<Rightarrow> bool" where
  "bad_number optarg \<longleftrightarrow> snd (strtoul_end optarg) = optarg \<or> snd (strtoul_end optarg) \<noteq> []"

definition argument :: "char \<times> u8 list \<Rightarrow> io61_arguments \<Rightarrow> io61_arguments option" where
  "argument = (\<lambda>(arg, optarg) a.
     let n = fst (strtoul_end optarg)
     in if arg = CHR ''s'' then if bad_number optarg then None else Some (a\<lparr>input_size := n\<rparr>)
        else if arg = CHR ''b'' then if n = 0 \<or> bad_number optarg then None else Some (a\<lparr>block_size := n\<rparr>)
        else if arg = CHR ''t'' then if n = 0 \<or> bad_number optarg then None else Some (a\<lparr>stride := n\<rparr>)
        else if arg = CHR ''l'' then Some (a\<lparr>by_lines := True\<rparr>)
        else if arg = CHR ''r'' then if bad_number optarg then None else Some (a\<lparr>seed := Some n\<rparr>)
        else if arg = CHR ''i'' then Some (a\<lparr>input_files := input_files a @ [Some optarg]\<rparr>)
        else if arg = CHR ''o'' then Some (a\<lparr>output_files := output_files a @ [Some optarg]\<rparr>)
        else None)"

fun argument_loop :: "(char \<times> u8 list) list \<Rightarrow> io61_arguments \<Rightarrow> io61_arguments option" where
  "argument_loop [] a = Some a"
| "argument_loop (x # xs) a = Option.bind (argument x a) (argument_loop xs)"

text \<open>\<open>strstr(opts, "##")\<close>.\<close>

fun two_hashes :: "string \<Rightarrow> bool" where
  "two_hashes [] = False"
| "two_hashes (c # cs) = (take 2 (c # cs) = ''##'' \<or> two_hashes cs)"

text \<open>The constructor: \<open>opts\<close> is the options string, \<open>operands\<close> are the arguments behind the options.\<close>

definition parse_arguments :: "string \<Rightarrow> (char \<times> u8 list) list \<Rightarrow> u8 list list \<Rightarrow> io61_arguments option" where
  "parse_arguments opts xs operands =
     Option.bind (argument_loop xs no_arguments) (\<lambda>a0.
     let a1 = a0\<lparr>input_files := input_files a0 @ map Some operands\<rparr>;
         ins = input_files a1
     in Option.bind (if ins = [] then Some (a1\<lparr>input_files := [None]\<rparr>)
                     else if length ins = 1 then Some (a1\<lparr>input_file := hd ins\<rparr>)
                     else if CHR ''#'' \<notin> set opts then None else Some a1) (\<lambda>a2.
        let outs = output_files a2
        in if outs = [] then Some (a2\<lparr>output_files := [None]\<rparr>)
           else if length outs = 1 then Some (a2\<lparr>output_file := hd outs\<rparr>)
           else if \<not> two_hashes opts then None else Some a2))"

text \<open>The message of \<open>usage\<close>.\<close>

definition usage :: "string \<Rightarrow> string \<Rightarrow> string" where
  "usage program_name opts =
     ''Usage: '' @ program_name
     @ (if CHR ''s'' \<in> set opts then '' [-s SIZE]'' else [])
     @ (if CHR ''b'' \<in> set opts then '' [-b BLOCKSIZE]'' else [])
     @ (if CHR ''t'' \<in> set opts then '' [-t STRIDE]'' else [])
     @ (if CHR ''l'' \<in> set opts then '' [-l]'' else [])
     @ (if CHR ''o'' \<in> set opts then '' [-o OUTFILE]'' else [])
     @ (if CHR ''#'' \<in> set opts then '' [FILE...]'' @ [CHR 0x0A] else '' [FILE]'' @ [CHR 0x0A])"

section \<open>What the programs can rely on\<close>

text \<open>There is always an input and an output, one of each unless the program takes more, and the sizes that
  programs divide by are positive.\<close>

lemma argument_positive:
  "argument x a = Some a' \<Longrightarrow> 0 < stride a \<Longrightarrow> 0 < stride a' \<and> input_file a' = input_file a \<and> output_file a' = output_file a"
  by (cases x) (auto simp: argument_def Let_def split: if_splits)

lemma argument_loop_positive:
  "argument_loop xs a = Some a' \<Longrightarrow> 0 < stride a \<Longrightarrow> 0 < stride a' \<and> input_file a' = input_file a \<and> output_file a' = output_file a"
proof (induction xs arbitrary: a)
  case (Cons x xs)
  then obtain a1 where "argument x a = Some a1" "argument_loop xs a1 = Some a'" by (auto simp: bind_eq_Some_conv)
  then show ?case using Cons argument_positive [of x a a1] by metis
qed simp

theorem parsed_arguments:
  assumes "parse_arguments opts xs operands = Some a"
  shows "input_files a \<noteq> [] \<and> output_files a \<noteq> [] \<and> 0 < stride a \<and>
    (CHR ''#'' \<notin> set opts \<longrightarrow> input_files a = [input_file a]) \<and> (\<not> two_hashes opts \<longrightarrow> output_files a = [output_file a])"
proof -
  obtain a0 where a0: "argument_loop xs no_arguments = Some a0" using assms by (auto simp: parse_arguments_def bind_eq_Some_conv)
  have p: "0 < stride a0" "input_file a0 = None" "output_file a0 = None"
    using argument_loop_positive [OF a0] by (simp_all add: no_arguments_def)
  define ins where "ins = input_files a0 @ map Some operands"
  have one: "length ys = Suc 0 \<Longrightarrow> ys = [hd ys]" for ys :: "u8 list option list" by (cases ys) auto
  show ?thesis using assms p one [of ins] one [of "output_files a0"]
    by (auto simp: parse_arguments_def a0 ins_def [symmetric] Let_def simp del: length_append append_is_Nil_conv split: if_splits)
qed

end
