(* ===== verification/Io61Props.thy ===== *)
theory Io61Props
  imports Io61Cat
begin

text \<open>
  What the file library and its programs guarantee: the buffered library behaves like the
  unbuffered one, and the copying programs copy, in whatever order they do it.
\<close>

section \<open>Copying from any reader to any writer\<close>

locale copier = byte_reader + byte_writer
begin

lemma cat_loop_copies:
  "ok r \<Longrightarrow> wok w \<Longrightarrow> \<exists>r' w'. cat_loop readc writec n r w = Some (r', w') \<and> wok w'
     \<and> stored w' = overlay (stored w) (at w) (take n (rest r)) \<and> at w' = at w + length (take n (rest r))"
proof (induction n arbitrary: r w)
  case (Suc n)
  obtain r1 where r1: "readc r = Some (case rest r of [] \<Rightarrow> - 1 | b # _ \<Rightarrow> uint b, r1)" "ok r1" "rest r1 = tl (rest r)"
    using readc_law [OF Suc.prems(1)] by blast
  show ?case
  proof (cases "rest r")
    case Nil
    then show ?thesis using r1 Suc.prems by simp
  next
    case (Cons b bs)
    obtain w1 where w1: "writec b w = Some (0, w1)" "wok w1" "stored w1 = overlay (stored w) (at w) [b]" "at w1 = at w + 1"
      using writec_law [OF Suc.prems(2), of b] by blast
    have "uint b \<noteq> - 1" by (metis neg_0_le_iff_le not_one_le_zero uint_ge_0)
    then show ?thesis
      using Suc.IH [OF r1(2) w1(2)] r1 w1 Cons overlay_overlay [of "stored w" "at w" "[b]" "take n bs"] by auto
  qed
qed simp

lemma block_loop_copies:
  assumes "\<And>i. 0 < sizes i"
  shows "ok r \<Longrightarrow> wok w \<Longrightarrow> \<exists>r' w'. block_loop read wr sizes i r w = Some (r', w') \<and> wok w'
     \<and> stored w' = overlay (stored w) (at w) (rest r) \<and> at w' = at w + length (rest r)"
proof (induction "length (rest r)" arbitrary: r w i rule: less_induct)
  case less
  define bs where "bs = take (sizes i) (rest r)"
  obtain a r1 where r1: "read (sizes i) r = Some (a, bs, r1)" "max 0 a = int (length bs)" "ok r1"
    "rest r1 = drop (sizes i) (rest r)"
    using read_max [OF less.prems(1), of "sizes i"] bs_def by blast
  show ?case
  proof (cases "rest r")
    case Nil
    then have "a \<le> 0" using r1(2) by (simp add: bs_def)
    then show ?thesis using r1 less.prems Nil by (subst block_loop.simps) (simp add: bs_def)
  next
    case (Cons b us)
    then have "bs \<noteq> []" and shorter: "length (rest r1) < length (rest r)" using assms [of i] r1(4) by (auto simp: bs_def)
    then have pos: "\<not> a \<le> 0" using r1(2) by (cases bs) auto
    obtain w1 where w1: "wr bs w = Some (int (length bs), w1)" "wok w1" "stored w1 = overlay (stored w) (at w) bs"
      "at w1 = at w + length bs" using write_law [OF less.prems(2), of bs] by blast
    have "bs @ rest r1 = rest r" by (simp add: bs_def r1(4))
    then show ?thesis
      using less.hyps [OF shorter r1(3) w1(2), of "i + 1"] r1(1) w1 pos
        overlay_overlay [of "stored w" "at w" bs "rest r1"] length_append [of bs "rest r1"]
      by (subst block_loop.simps) auto
  qed
qed

lemma cat61_copies:
  assumes "ok r" and "wok w"
  shows "\<exists>d. cat61 readc writec shut args r w = Some d
    \<and> contents d = overlay (stored w) (at w) (take (input_size args) (rest r))"
  using cat_loop_copies [OF assms, of "input_size args"] close_law by (fastforce simp: cat61_def)

lemma blockcat61_copies:
  assumes "ok r" and "wok w"
  shows "\<exists>d. blockcat61 read wr shut args r w = Some d \<and> contents d = overlay (stored w) (at w) (rest r)"
  using block_loop_copies [OF _ assms, of "\<lambda>_. block_default 4096 args" 0] close_law
  by (fastforce simp: blockcat61_def block_default_def)

lemma randblockcat61_copies:
  assumes "ok r" and "wok w"
  shows "\<exists>d. randblockcat61 read wr shut random args r w = Some d \<and> contents d = overlay (stored w) (at w) (rest r)"
  using block_loop_copies [OF _ assms, of "\<lambda>i. random i mod block_default 4096 args + 1" 0] close_law
  by (fastforce simp: randblockcat61_def)

end

section \<open>Copying with seeks\<close>

text \<open>\<open>holds xs ys j sz\<close>: block \<open>j\<close> of \<open>ys\<close> is that of \<open>xs\<close>.\<close>

definition holds :: "u8 list \<Rightarrow> u8 list \<Rightarrow> nat \<Rightarrow> nat \<Rightarrow> bool" where
  "holds xs ys j sz \<longleftrightarrow> (j + 1) * sz \<le> length ys \<and> take sz (drop (j * sz) ys) = take sz (drop (j * sz) xs)"

lemma length_overlay: "length (overlay xs i bs) = (if bs = [] then length xs else max (length xs) (i + length bs))"
  by (auto simp: overlay_def max_def)

lemma nth_overlay: "k < length (overlay xs i bs) \<Longrightarrow> overlay xs i bs ! k =
    (if i \<le> k \<and> k < i + length bs then bs ! (k - i) else if k < length xs then xs ! k else 0)"
  by (auto simp: overlay_def nth_append min_def)

lemma holds_nth: "(j + 1) * sz \<le> length xs \<Longrightarrow> holds xs ys j sz \<longleftrightarrow>
    (j + 1) * sz \<le> length ys \<and> (\<forall>k. j * sz \<le> k \<and> k < (j + 1) * sz \<longrightarrow> ys ! k = xs ! k)"
proof -
  assume "(j + 1) * sz \<le> length xs"
  moreover have "(\<forall>i < sz. ys ! (j * sz + i) = xs ! (j * sz + i)) \<longleftrightarrow>
      (\<forall>k. j * sz \<le> k \<and> k < (j + 1) * sz \<longrightarrow> ys ! k = xs ! k)"
    by (auto, metis add.commute le_add_diff_inverse nat_add_left_cancel_less)
  ultimately show ?thesis by (auto simp: holds_def list_eq_iff_nth_eq)
qed

lemma block_apart: "i \<noteq> j \<Longrightarrow> k < (i + 1) * sz \<Longrightarrow> i * sz \<le> k \<Longrightarrow> j * sz \<le> k \<Longrightarrow> \<not> k < (j + 1) * (sz :: nat)"
proof
  assume "i \<noteq> j" and k: "k < (i + 1) * sz" "i * sz \<le> k" "j * sz \<le> k" "k < (j + 1) * sz"
  then have "i * sz < (j + 1) * sz" and "j * sz < (i + 1) * sz" by auto
  then have "i < j + 1" and "j < i + 1" by (simp_all only: mult_less_cancel2)
  then show False using \<open>i \<noteq> j\<close> by simp
qed

lemma holds_overlay:
  assumes "(i + 1) * sz \<le> length xs" and "(j + 1) * sz \<le> length xs" and "i = j \<or> holds xs ys j sz"
  shows "holds xs (overlay ys (i * sz) (take sz (drop (i * sz) xs))) j sz"
proof (cases "sz = 0")
  case True then show ?thesis by (simp add: holds_def)
next
  case False
  define bs where "bs = take sz (drop (i * sz) xs)"
  have l: "length bs = sz" using assms(1) by (simp add: bs_def)
  then have len: "length (overlay ys (i * sz) bs) = max (length ys) ((i + 1) * sz)"
    using False by (auto simp: length_overlay)
  have "overlay ys (i * sz) bs ! k = xs ! k"
    if k: "j * sz \<le> k" "k < (j + 1) * sz" "k < length (overlay ys (i * sz) bs)" for k
  proof (cases "i = j")
    case True
    then show ?thesis using k l assms(1) nth_overlay [OF k(3)] by (simp add: bs_def)
  next
    case False
    then have "holds xs ys j sz" using assms(3) by simp
    then have "k < length ys" "ys ! k = xs ! k" using k holds_nth [OF assms(2)] by auto
    then show ?thesis using nth_overlay [OF k(3)] l block_apart [of j i k sz] False k by auto
  qed
  moreover have "(j + 1) * sz \<le> max (length ys) ((i + 1) * sz)"
    using assms(3) by (auto simp: holds_def)
  ultimately show ?thesis unfolding holds_nth [OF assms(2)] bs_def [symmetric] len by auto
qed

lemma all_blocks:
  assumes "length xs = n * sz" and "length ys \<le> n * sz" and "\<And>j. j < n \<Longrightarrow> holds xs ys j sz"
  shows "ys = xs"
proof (cases "n * sz = 0")
  case True then show ?thesis using assms(1,2) by (metis le_zero_eq length_0_conv)
next
  case False
  have b: "(j + 1) * sz \<le> n * sz" if "j < n" for j using that mult_le_mono1 [of "j + 1" n sz] by simp
  have "(n - 1 + 1) * sz \<le> length ys" using False assms(3) [of "n - 1"] by (auto simp: holds_def)
  then have len: "length ys = length xs" using False assms by (cases n) auto
  have "ys ! k = xs ! k" if "k < length xs" for k
  proof -
    have "k div sz < n" using that assms(1) by (simp add: less_mult_imp_div_less)
    moreover have "k div sz * sz \<le> k" "k < (k div sz + 1) * sz"
      using False dividend_less_div_times [of sz k] by auto
    ultimately show ?thesis using assms(3) holds_nth [of "k div sz" sz xs ys] b assms(1) by auto
  qed
  then show ?thesis using len by (simp add: list_eq_iff_nth_eq)
qed

lemma insert_set_update:
  "k < length xs \<Longrightarrow> insert (xs ! k) (set (xs[k := y])) = insert y (set xs)"
proof -
  assume k: "k < length xs"
  then have "set xs = set (take k xs @ xs ! k # drop (Suc k) xs)" by (simp add: id_take_nth_drop [symmetric])
  then show ?thesis using k by (auto simp: upd_conv_take_nth_drop)
qed

locale seek_copier = seekable_reader + seekable_writer
begin

lemma reverse_loop_reverses:
  "ok r \<Longrightarrow> wok w \<Longrightarrow> n \<le> length (data r) \<Longrightarrow>
   \<exists>r' w'. reverse_loop readc seek writec n r w = Some (r', w') \<and> wok w'
     \<and> stored w' = overlay (stored w) (at w) (rev (take n (data r))) \<and> at w' = at w + n"
proof (induction n arbitrary: r w)
  case (Suc n)
  obtain r1 where r1: "seek (int n) r = Some (0, r1)" "ok r1" "data r1 = data r" "rest r1 = drop n (data r)"
    using seek_law [OF Suc.prems(1), of n] Suc.prems(3) by auto
  have at_n: "rest r1 = data r ! n # drop (Suc n) (data r)" using r1(4) Suc.prems(3) by (simp add: Cons_nth_drop_Suc)
  obtain r2 where r2: "readc r1 = Some (uint (data r ! n), r2)" "ok r2" using readc_law [OF r1(2)] at_n by auto
  have d2: "data r2 = data r" using readc_file [OF r1(2) r2(1)] r1(3) by simp
  obtain w1 where w1: "writec (data r ! n) w = Some (0, w1)" "wok w1"
    "stored w1 = overlay (stored w) (at w) [data r ! n]" "at w1 = at w + 1"
    using writec_law [OF Suc.prems(2), of "data r ! n"] by blast
  have "rev (take (Suc n) (data r)) = [data r ! n] @ rev (take n (data r))"
    using Suc.prems(3) by (simp add: take_Suc_conv_app_nth)
  then show ?case using Suc.IH [OF r2(2) w1(2)] Suc.prems(3) d2 r1(1) r2(1) w1
      overlay_overlay [of "stored w" "at w" "[data r ! n]" "rev (take n (data r))"] by auto
qed simp

text \<open>While blocks are left, the others have been copied.\<close>

lemma reorder_loop_step:
  assumes "ok r" and "wok w" and "0 < sz" and "(j + 1) * sz \<le> length (data r)"
  shows "\<exists>amount r1 r2 w1 w2. seek (int (j * sz)) r = Some (0, r1) \<and> 0 < amount
    \<and> read sz r1 = Some (amount, take sz (drop (j * sz) (data r)), r2) \<and> wseek (int (j * sz)) w = Some (0, w1)
    \<and> wr (take sz (drop (j * sz) (data r))) w1 = Some (int sz, w2) \<and> ok r2 \<and> wok w2 \<and> data r2 = data r
    \<and> stored w2 = overlay (stored w) (j * sz) (take sz (drop (j * sz) (data r)))"
proof -
  define bs where "bs = take sz (drop (j * sz) (data r))"
  have l: "length bs = sz" using assms(4) by (simp add: bs_def)
  have "j * sz \<le> length (data r)" using assms(4) by simp
  from seek_law [OF assms(1) this] obtain r1 where
    r1: "seek (int (j * sz)) r = Some (0, r1)" "ok r1" "data r1 = data r" "rest r1 = drop (j * sz) (data r)" by blast
  from read_max [OF r1(2), of sz] r1(4) obtain a r2 where
    r2: "read sz r1 = Some (a, bs, r2)" "max 0 a = int (length bs)" "ok r2" by (auto simp: bs_def)
  have d2: "data r2 = data r" using read_file [OF r1(2) r2(1)] r1(3) by simp
  obtain w1 where w1: "wseek (int (j * sz)) w = Some (0, w1)" "wok w1" "stored w1 = stored w" "at w1 = j * sz"
    using wseek_law [OF assms(2), of "j * sz"] by blast
  obtain w2 where w2: "wr bs w1 = Some (int (length bs), w2)" "wok w2" "stored w2 = overlay (stored w1) (at w1) bs"
    using write_law [OF w1(2), of bs] by blast
  have "0 < a" using r2(2) l assms(3) by linarith
  then show ?thesis using r1 r2 d2 w1 w2 l unfolding bs_def [symmetric] by auto
qed

lemma reorder_loop_copies:
  "ok r \<Longrightarrow> wok w \<Longrightarrow> 0 < sz \<Longrightarrow> data r = xs \<Longrightarrow> length xs = nb * sz \<Longrightarrow> length (stored w) \<le> nb * sz \<Longrightarrow>
   n \<le> length bp \<Longrightarrow> set (take n bp) \<subseteq> {..<nb} \<Longrightarrow>
   (\<And>j. j < nb \<Longrightarrow> j \<notin> set (take n bp) \<Longrightarrow> holds xs (stored w) j sz) \<Longrightarrow>
   \<exists>r' w'. reorder_loop read seek wr wseek random sz i n bp r w = Some (r', w') \<and> wok w' \<and> stored w' = xs"
proof (induction n arbitrary: r w bp i)
  case 0
  then show ?case using all_blocks [of xs nb sz "stored w"] by simp
next
  case (Suc n)
  define k where "k = random i mod Suc n"
  define j where "j = bp ! k"
  define bs where "bs = take sz (drop (j * sz) xs)"
  define bp' where "bp' = bp[k := bp ! n]"
  have k: "k < Suc n" by (simp add: k_def)
  then have "j \<in> set (take (Suc n) bp)" using Suc.prems(7) by (auto simp: j_def in_set_conv_nth)
  then have j: "j < nb" using Suc.prems(8) by auto
  have fits: "(i + 1) * sz \<le> length xs" if "i < nb" for i
    using that mult_le_mono1 [of "i + 1" nb sz] Suc.prems(5) by simp
  have split: "set (take (Suc n) bp) = insert j (set (take n bp'))"
  proof -
    have t: "take (Suc n) bp = take n bp @ [bp ! n]" using Suc.prems(7) by (simp add: take_Suc_conv_app_nth)
    have t': "take n bp' = (take n bp)[k := bp ! n]" by (simp add: bp'_def take_update_swap)
    have "k = n \<or> k < length (take n bp) \<and> take n bp ! k = j" using k Suc.prems(7) by (auto simp: j_def)
    moreover have "k = n \<Longrightarrow> (take n bp)[k := bp ! n] = take n bp" by (simp add: list_update_beyond)
    ultimately show ?thesis unfolding t t' using insert_set_update [of k "take n bp" "bp ! n"] by (auto simp: j_def)
  qed
  obtain amount r1 r2 w1 w2 where st: "seek (int (j * sz)) r = Some (0, r1)" "0 < amount"
    "read sz r1 = Some (amount, bs, r2)" "wseek (int (j * sz)) w = Some (0, w1)" "wr bs w1 = Some (int sz, w2)"
    "ok r2" "wok w2" "data r2 = xs" "stored w2 = overlay (stored w) (j * sz) bs"
    using reorder_loop_step [OF Suc.prems(1,2,3), of j] fits [OF j] Suc.prems(4) unfolding bs_def by metis
  have "holds xs (stored w2) i sz" if "i < nb" "i \<notin> set (take n bp')" for i
    unfolding st(9) bs_def using Suc.prems(9) [OF that(1)] that(2) split
    by (intro holds_overlay fits j that(1)) auto
  moreover have "length (stored w2) \<le> nb * sz"
    unfolding st(9) using Suc.prems(5,6) fits [OF j] by (auto simp: length_overlay bs_def)
  moreover have "set (take n bp') \<subseteq> {..<nb}" "n \<le> length bp'" using Suc.prems(7,8) split by (auto simp: bp'_def)
  ultimately obtain r' w' where "reorder_loop read seek wr wseek random sz (i + 1) n bp' r2 w2 = Some (r', w')"
    "wok w'" "stored w' = xs"
    using Suc.IH [OF st(6,7) Suc.prems(3) st(8) Suc.prems(5), of bp' "i + 1"] by blast
  then show ?case using st
    by (simp add: k_def [symmetric] j_def [symmetric] bp'_def [symmetric] Let_def)
qed

end

context seek_copier begin

lemma reverse61_reverses:
  assumes "ok r" and "wok w" and "fsize r = int (length (data r))"
    and "input_size args \<le> length (data r) \<or> SSIZE_LIMIT \<le> input_size args" and "length (data r) < SSIZE_LIMIT"
  shows "\<exists>d. reverse61 readc seek fsize writec shut args r w = Some (Inr d)
    \<and> contents d = overlay (stored w) (at w) (rev (take (input_size args) (data r)))"
proof -
  define n where "n = min (input_size args) (length (data r))"
  have n: "size_of_input fsize args r = Some n" "n \<le> length (data r)" "take n (data r) = take (input_size args) (data r)"
    using assms(3-5) by (auto simp: size_of_input_def n_def min_def)
  obtain r1 where r1: "seek 0 r = Some (0, r1)" "ok r1" "data r1 = data r"
    using seek_law [OF assms(1), of 0] by auto
  obtain r2 w2 where "reverse_loop readc seek writec n r1 w = Some (r2, w2)" "wok w2"
    "stored w2 = overlay (stored w) (at w) (rev (take n (data r)))"
    using reverse_loop_reverses [OF r1(2) assms(2), of n] n(2) r1(3) by auto
  then show ?thesis using n(1,3) r1(1) close_law [of w2] by (auto simp: reverse61_def)
qed

lemma reordercat61_copies:
  assumes "ok r" and "wok w" and "stored w = []" and "fsize r = int (length (data r))"
    and "SSIZE_LIMIT \<le> input_size args" and "block_default 4096 args dvd length (data r)"
    and "length (data r) div block_default 4096 args \<le> 30 * 2 ^ 20"
  shows "\<exists>d. reordercat61 read seek fsize wr wseek shut random args r w = Some (Inr d) \<and> contents d = data r"
proof -
  define sz nb where "sz = block_default 4096 args" and "nb = length (data r) div sz"
  have sz: "0 < sz" "length (data r) = nb * sz" using assms(6) by (auto simp: sz_def nb_def block_default_def)
  have n: "size_of_input fsize args r = Some (length (data r))"
    using assms(4,5) by (auto simp: size_of_input_def)
  obtain r1 where r1: "seek 0 r = Some (0, r1)" "ok r1" "data r1 = data r"
    using seek_law [OF assms(1), of 0] by auto
  obtain w1 where w1: "wseek 0 w = Some (0, w1)" "wok w1" "stored w1 = []"
    using wseek_law [OF assms(2), of 0] assms(3) by auto
  obtain r2 w2 where "reorder_loop read seek wr wseek random sz 0 nb [0..<nb] r1 w1 = Some (r2, w2)" "wok w2"
    "stored w2 = data r"
    using reorder_loop_copies [OF r1(2) w1(2) sz(1) r1(3) sz(2), of nb "[0..<nb]" random 0] w1(3) by (auto simp: lessThan_atLeast0)
  then show ?thesis using n r1(1) w1(1) close_law [of w2] assms(7) sz
    by (auto simp: reordercat61_def sz_def [symmetric] nb_def [symmetric] Let_def)
qed

end

section \<open>The library and its programs\<close>

text \<open>A new \<open>io61_file\<close> whose memory happens to be zero, as the library expects.\<close>

definition fresh :: "io61_file \<Rightarrow> bool" where
  "fresh raw \<longleftrightarrow> length (cbuf raw) = bufsize \<and> beg_tag raw = 0 \<and> end_tag raw = 0 \<and> pos_tag raw = 0"

lemma fresh_stream: "fresh raw \<Longrightarrow> Fail \<notin> set (answers d) \<Longrightarrow>
    stream_ok (io61_fdopen raw d m) \<and> unread (io61_fdopen raw d m) = drop (offset d) (contents d)"
  by (simp add: fresh_def io61_fdopen_def stream_ok_def unread_def)

lemma fresh_file: "fresh raw \<Longrightarrow> answers d = [] \<Longrightarrow> regular d \<Longrightarrow> offset d = 0 \<Longrightarrow> file_ok (io61_fdopen raw d O_RDONLY)"
  by (simp add: fresh_def io61_fdopen_def file_ok_def stream_ok_def)

lemma fresh_writer: "fresh raw \<Longrightarrow> answers d = [] \<Longrightarrow> writer_ok (io61_fdopen raw d O_WRONLY)
    \<and> out_stored (io61_fdopen raw d O_WRONLY) = contents d \<and> out_at (io61_fdopen raw d O_WRONLY) = offset d
    \<and> fd (io61_fdopen raw d O_WRONLY) = d"
  by (simp add: fresh_def io61_fdopen_def writer_ok_def out_stored_def out_at_def pending_def)

text \<open>Concrete files for the examples below.\<close>

definition zeroed :: io61_file where
  "zeroed = \<lparr>fd = \<lparr>contents = [], offset = 0, regular = False, answers = []\<rparr>, mode = O_RDONLY,
     cbuf = replicate bufsize 0, beg_tag = 0, end_tag = 0, pos_tag = 0\<rparr>"

definition disk_file :: "u8 list \<Rightarrow> fdesc" where
  "disk_file bs = \<lparr>contents = bs, offset = 0, regular = True, answers = []\<rparr>"

lemma fresh_zeroed: "fresh zeroed"
  by (simp add: fresh_def zeroed_def)

interpretation cp: copier io61_readc io61_read stream_ok unread "- 1" io61_writec io61_write io61_close writer_ok out_stored out_at
  by unfold_locales

interpretation scp: seek_copier io61_readc io61_read file_ok unread "- 1" io61_seek "\<lambda>f. contents (fd f)" io61_writec io61_write
  io61_close "\<lambda>f. writer_ok f \<and> regular (fd f)" out_stored out_at io61_seek
  by unfold_locales



text \<open>
  C15: As long as the system writes all it is given in every \<open>write\<close>, the buffered library leaves in
  a regular file exactly what the unbuffered one leaves after every sequence of \<open>io61_writec\<close>,
  \<open>io61_write\<close> and \<open>io61_seek\<close> calls and \<open>io61_close\<close>, with the same values returned: each write
  overlays the file at the position, whatever was still in the buffer. (When the system cuts a
  \<open>write\<close> short they differ: the buffered library drops the rest, \<open>short_write_lost\<close> below.)
\<close>

theorem io61_writer_equiv:
  assumes "fresh raw" and "regular d" and "answers d = []"
  shows "run_writes io61_writec io61_write io61_seek io61_close cs (io61_fdopen raw d O_WRONLY)
      = run_writes slow_writec slow_write slow_seek slow_close cs d
    \<and> run_writes slow_writec slow_write slow_seek slow_close cs d
      = Some (map returns cs, written cs (contents d) (offset d))"
proof -
  have "desc_wok d" using assms by (simp add: desc_wok_def)
  then show ?thesis
    using bw.run_writes_written [of "io61_fdopen raw d O_WRONLY" cs] sw.run_writes_written [of d cs]
      fresh_writer [OF assms(1,3)] assms(2) by simp
qed

theorem io61_writer_equiv_witness:
  "run_writes io61_writec io61_write io61_seek io61_close [Write [1, 2, 3], Wseek 1, Writec 9]
     (io61_fdopen zeroed (disk_file []) O_WRONLY) = Some ([3, 0, 0], [1, 9, 3])"
  using io61_writer_equiv [OF fresh_zeroed, of "disk_file []" "[Write [1, 2, 3], Wseek 1, Writec 9]"]
  by (simp add: disk_file_def returns_def overlay_def)

text \<open>
  C17: \<open>cat61\<close>, \<open>blockcat61\<close> and \<open>randblockcat61\<close> on the buffered library copy the whole rest of their
  input to their output, byte for byte, for every block size and every random choice, and however
  the system splits the input into short reads: pipes and terminals included.
\<close>

theorem io61_cats_copy:
  assumes "fresh raw" and "Fail \<notin> set (answers din)" and "answers dout = []"
    and "length (drop (offset din) (contents din)) \<le> input_size args"
  defines "r \<equiv> io61_fdopen raw din O_RDONLY" and "w \<equiv> io61_fdopen raw dout O_WRONLY"
    and "result \<equiv> overlay (contents dout) (offset dout) (drop (offset din) (contents din))"
  shows "map_option contents (cat61 io61_readc io61_writec io61_close args r w) = Some result
    \<and> map_option contents (blockcat61 io61_read io61_write io61_close args r w) = Some result
    \<and> map_option contents (randblockcat61 io61_read io61_write io61_close random args r w) = Some result"
proof -
  have r: "stream_ok r" "unread r = drop (offset din) (contents din)"
    using fresh_stream [OF assms(1,2)] by (auto simp: r_def)
  have w: "writer_ok w" "out_stored w = contents dout" "out_at w = offset dout"
    using fresh_writer [OF assms(1,3)] by (auto simp: w_def)
  show ?thesis
    using cp.cat61_copies [OF r(1) w(1), of args] cp.blockcat61_copies [OF r(1) w(1), of args]
      cp.randblockcat61_copies [OF r(1) w(1), of random args] r(2) w(2,3) assms(4)
    by (auto simp: result_def)
qed

theorem io61_cats_copy_witness:
  "map_option contents (cat61 io61_readc io61_writec io61_close \<lparr>input_size = 9, block_size = 0, stride = 1024\<rparr>
     (io61_fdopen zeroed \<lparr>contents = [7, 8, 9], offset = 0, regular = False, answers = [Upto 0, Upto 1]\<rparr> O_RDONLY)
     (io61_fdopen zeroed (disk_file []) O_WRONLY)) = Some [7, 8, 9]"
  using io61_cats_copy [OF fresh_zeroed, of "\<lparr>contents = [7, 8, 9], offset = 0, regular = False, answers = [Upto 0, Upto 1]\<rparr>"
      "disk_file []" "\<lparr>input_size = 9, block_size = 0, stride = 1024\<rparr>"]
  by (simp add: disk_file_def)

text \<open>
  C19: \<open>reordercat61\<close>, which transfers the blocks of its input in random order, leaves an output
  equal to the input, for every sequence of random numbers, and \<open>reverse61\<close> leaves the input reversed.
\<close>

theorem io61_reorder_identity:
  assumes "fresh raw" and "regular din" and "answers din = []" and "offset din = 0"
    and "regular dout" and "answers dout = []" and "contents dout = []" and "offset dout = 0"
    and "SSIZE_LIMIT \<le> input_size args" and "block_default 4096 args dvd length (contents din)"
    and "length (contents din) div block_default 4096 args \<le> 30 * 2 ^ 20" and "length (contents din) < SSIZE_LIMIT"
  defines "r \<equiv> io61_fdopen raw din O_RDONLY" and "w \<equiv> io61_fdopen raw dout O_WRONLY"
  shows "(\<exists>d. reordercat61 io61_read io61_seek io61_filesize io61_write io61_seek io61_close random args r w
        = Some (Inr d) \<and> contents d = contents din)
    \<and> (\<exists>d. reverse61 io61_readc io61_seek io61_filesize io61_writec io61_close args r w
        = Some (Inr d) \<and> contents d = rev (contents din))"
proof -
  have r: "file_ok r" "fd r = din" using fresh_file [OF assms(1,3,2,4)] by (auto simp: r_def io61_fdopen_def)
  then have size: "io61_filesize r = int (length (contents (fd r)))" using assms(2) by (simp add: io61_filesize_def fd_size_def)
  have w: "writer_ok w \<and> regular (fd w)" "out_stored w = []" "out_at w = 0"
    using fresh_writer [OF assms(1,6)] assms(5,7,8) by (auto simp: w_def)
  have short: "length (contents (fd r)) < SSIZE_LIMIT" using assms(12) r(2) by simp
  have all: "take (input_size args) (contents (fd r)) = contents din" using assms(9,12) r(2) by simp
  from scp.reverse61_reverses [where fsize = io61_filesize, OF r(1) w(1) size disjI2 [OF assms(9)] short] obtain d where
    "reverse61 io61_readc io61_seek io61_filesize io61_writec io61_close args r w = Some (Inr d)"
    "contents d = rev (contents din)" unfolding all w(2,3) overlay_empty by blast
  then show ?thesis
    using scp.reordercat61_copies [where fsize = io61_filesize, OF r(1) w(1,2) size assms(9)] assms(10,11) r(2)
    by simp
qed

theorem io61_reorder_identity_witness:
  "\<exists>d. reordercat61 io61_read io61_seek io61_filesize io61_write io61_seek io61_close (\<lambda>i. 5 * i + 3)
     \<lparr>input_size = 2 ^ 64 - 1, block_size = 2, stride = 1024\<rparr> (io61_fdopen zeroed (disk_file [1, 2, 3, 4, 5, 6]) O_RDONLY)
     (io61_fdopen zeroed (disk_file []) O_WRONLY) = Some (Inr d) \<and> contents d = [1, 2, 3, 4, 5, 6]"
  using io61_reorder_identity [OF fresh_zeroed, of "disk_file [1, 2, 3, 4, 5, 6]" "disk_file []"
      "\<lparr>input_size = 2 ^ 64 - 1, block_size = 2, stride = 1024\<rparr>" "\<lambda>i. 5 * i + 3"]
  by (simp add: disk_file_def SSIZE_LIMIT_def block_default_def)

section \<open>Where the buffered library differs\<close>

lemmas example_simps = io61_fdopen_def zeroed_def disk_file_def bufsize_def Let_def overlay_def

text \<open>A short write is not noticed: the second byte is lost, and every call reports success.\<close>

lemma short_write_lost:
  "Option.bind (io61_write [1, 2] (io61_fdopen zeroed ((disk_file [])\<lparr>answers := [Upto 0]\<rparr>) O_WRONLY)) (\<lambda>(r, f).
     map_option (\<lambda>(r', f'). (r, r', contents (fd f'))) (io61_flush f)) = Some (2, 0, [1])"
  by (simp add: io61_write_def io61_write_loop.simps flush_full_def rec_count_def cbuf_put_def io61_flush_def cbuf_slice_def
      sys_write_def limit_def example_simps)

text \<open>After a seek past the end of the file \<open>io61_readc\<close> delivers what the buffer last held there.\<close>

lemma seek_past_end_stale:
  "map_option fst (Option.bind (io61_seek 9000 (io61_fdopen zeroed (disk_file [5]) O_RDONLY)) (\<lambda>(r, f). io61_readc f)) = Some 0"
  "map_option fst (Option.bind (slow_seek 9000 (disk_file [5])) (\<lambda>(r, d). slow_readc d)) = Some (- 1)"
  by (simp_all add: io61_seek_def io61_fill_def io61_readc_def cbuf_slice_def sys_lseek_def sys_read_def limit_def
      slow_seek_def slow_readc_def signed_divide_int_def example_simps)

text \<open>A seek to a negative position succeeds, and the next read is outside the buffer.\<close>

lemma seek_negative_accepted:
  "map_option fst (io61_seek (- 5) (io61_fdopen zeroed (disk_file [5]) O_RDONLY)) = Some 0"
  "Option.bind (io61_seek (- 5) (io61_fdopen zeroed (disk_file [5]) O_RDONLY)) (\<lambda>(r, f). io61_readc f) = None"
  by (simp_all add: io61_seek_def io61_fill_def io61_readc_def cbuf_slice_def sys_lseek_def sys_read_def limit_def
      signed_divide_int_def example_simps)

end
