(* ===== verification/Io61Gather.thy ===== *)
theory Io61Gather
  imports Io61Props Io61Args
begin

text \<open>
  Scatter/gather (\<open>pset4/scattergather61.cc\<close>): blocks or lines are read from several inputs in turn and
  written to several outputs in turn. The program is linked with either version of the library, so the
  operations it calls are arguments. The program itself does not check that there is an output;
  \<open>None\<close> stands for using one that is not there, which the command line (\<open>Io61Args\<close>) excludes.
\<close>

section \<open>The program\<close>

fun line_loop :: "('r \<Rightarrow> (int \<times> 'r) option) \<Rightarrow> nat \<Rightarrow> 'r \<Rightarrow> (u8 list \<times> 'r) option" where
  "line_loop rc 0 r = Some ([], r)"
| "line_loop rc (Suc n) r =
     Option.bind (rc r) (\<lambda>(ch, r1).
       if ch = - 1 then Some ([], r1)
       else if word_of_int ch = (10 :: u8) then Some ([word_of_int ch], r1)
       else map_option (\<lambda>(bs, r2). (word_of_int ch # bs, r2)) (line_loop rc n r1))"

definition read_line :: "('r \<Rightarrow> (int \<times> 'r) option) \<Rightarrow> (nat \<Rightarrow> 'r \<Rightarrow> (int \<times> u8 list \<times> 'r) option)
    \<Rightarrow> nat \<Rightarrow> bool \<Rightarrow> 'r \<Rightarrow> (int \<times> u8 list \<times> 'r) option" where
  "read_line rc rd sz lines f =
     (if lines then map_option (\<lambda>(bs, r1). (int (length bs), bs, r1)) (line_loop rc sz f) else rd sz f)"

text \<open>The index of the current input is a \<open>size_t\<close>: it starts at \<open>-1\<close>, and steps back when a file is removed.\<close>

partial_function (option) gather_loop ::
  "('r \<Rightarrow> (int \<times> 'r) option) \<Rightarrow> (nat \<Rightarrow> 'r \<Rightarrow> (int \<times> u8 list \<times> 'r) option) \<Rightarrow> (u8 list \<Rightarrow> 'w \<Rightarrow> (int \<times> 'w) option)
    \<Rightarrow> nat \<Rightarrow> bool \<Rightarrow> 'r list \<Rightarrow> u64 \<Rightarrow> 'w list \<Rightarrow> nat \<Rightarrow> 'w list option" where
  "gather_loop rc rd wr sz lines infs ini outfs outi =
     (if infs = [] then Some outfs
      else
        let i = unat ((ini + 1) mod of_nat (length infs))
        in Option.bind (read_line rc rd sz lines (infs ! i)) (\<lambda>(amount, buf, f1).
             if amount \<le> 0 then
               gather_loop rc rd wr sz lines (take i infs @ drop (i + 1) infs) (of_nat i - 1) outfs outi
             else if outi < length outfs then
               Option.bind (wr buf (outfs ! outi)) (\<lambda>(_, w1).
                 gather_loop rc rd wr sz lines (infs[i := f1]) (of_nat i) (outfs[outi := w1]) ((outi + 1) mod length outfs))
             else None))"

fun close_all :: "('w \<Rightarrow> fdesc option) \<Rightarrow> 'w list \<Rightarrow> fdesc list option" where
  "close_all cl [] = Some []"
| "close_all cl (w # ws) = Option.bind (cl w) (\<lambda>d. map_option ((#) d) (close_all cl ws))"

definition scattergather61 where
  "scattergather61 rc rd wr cl args lines infs outfs =
     Option.bind (gather_loop rc rd wr (block_default 1 args) lines infs (- 1) outfs 0)
       (close_all cl)"

section \<open>The reference\<close>

text \<open>The first block of some data, the blocks of a queue of inputs, and the share of output \<open>j\<close> of \<open>m\<close> when
  the next block goes to output \<open>k\<close>.\<close>

fun first_line :: "nat \<Rightarrow> u8 list \<Rightarrow> u8 list" where
  "first_line 0 xs = []"
| "first_line (Suc n) [] = []"
| "first_line (Suc n) (x # xs) = (if x = 10 then [x] else x # first_line n xs)"

definition block_of :: "nat \<Rightarrow> bool \<Rightarrow> u8 list \<Rightarrow> u8 list" where
  "block_of sz lines xs = (if lines then first_line sz xs else take sz xs)"

lemma block_of_prefix: "block_of sz lines xs @ drop (length (block_of sz lines xs)) xs = xs"
proof -
  have "first_line n xs @ drop (length (first_line n xs)) xs = xs" for n
    by (induction n xs rule: first_line.induct) auto
  then show ?thesis by (simp add: block_of_def min_def)
qed

lemma block_of_Nil [simp]: "block_of sz lines [] = []"
  by (cases sz) (simp_all add: block_of_def)

lemma block_of_ne: "0 < sz \<Longrightarrow> xs \<noteq> [] \<Longrightarrow> block_of sz lines xs \<noteq> []"
  by (cases sz; cases xs) (auto simp: block_of_def)

text \<open>No block is empty in a run: the size is one more than \<open>n\<close>.\<close>

function gathered :: "nat \<Rightarrow> bool \<Rightarrow> u8 list list \<Rightarrow> u8 list list" where
  "gathered n lines [] = []"
| "gathered n lines (q # qs) =
     (if q = [] then gathered n lines qs
      else block_of (Suc n) lines q # gathered n lines (qs @ [drop (length (block_of (Suc n) lines q)) q]))"
  by pat_completeness auto
termination
proof (relation "measure (\<lambda>(n, lines, qs). length qs + length (concat qs))", goal_cases)
  case (3 n lines q qs)
  then have "0 < length (block_of (Suc n) lines q)" "0 < length q" using block_of_ne [of "Suc n" q lines] by simp_all
  then show ?case by simp
qed auto

fun share :: "nat \<Rightarrow> nat \<Rightarrow> nat \<Rightarrow> u8 list list \<Rightarrow> u8 list" where
  "share m j k [] = []"
| "share m j k (b # bs) = (if k = j then b else []) @ share m j ((k + 1) mod m) bs"

section \<open>The program against the reference\<close>

context copier begin

lemma line_loop_first: "ok r \<Longrightarrow> \<exists>r'. line_loop readc n r = Some (first_line n (rest r), r') \<and> ok r' \<and>
    rest r' = drop (length (first_line n (rest r))) (rest r)"
proof (induction n arbitrary: r)
  case (Suc n)
  obtain r1 where r1: "readc r = Some (case rest r of [] \<Rightarrow> - 1 | b # _ \<Rightarrow> uint b, r1)" "ok r1" "rest r1 = tl (rest r)"
    using readc_law [OF Suc.prems(1)] by blast
  show ?case
  proof (cases "rest r")
    case (Cons b bs)
    have "uint b \<noteq> - 1" by (metis neg_0_le_iff_le not_one_le_zero uint_ge_0)
    then show ?thesis using r1 Cons Suc.IH [OF r1(2)] by auto
  qed (use r1 in simp)
qed auto

lemma read_line_block:
  assumes "ok r"
  shows "\<exists>a r'. read_line readc read sz lines r = Some (a, block_of sz lines (rest r), r') \<and>
    (a \<le> 0 \<longleftrightarrow> block_of sz lines (rest r) = []) \<and> ok r' \<and> rest r' = drop (length (block_of sz lines (rest r))) (rest r)"
proof (cases lines)
  case True
  then show ?thesis using line_loop_first [OF assms, of sz] by (auto simp: read_line_def block_of_def)
next
  case False
  obtain a r' where r: "read sz r = Some (a, take sz (rest r), r')" "max 0 a = int (length (take sz (rest r)))" "ok r'"
    "rest r' = drop sz (rest r)" using read_max [OF assms, of sz] by blast
  have "a \<le> 0 \<longleftrightarrow> length (take sz (rest r)) = 0" using r(2) by linarith
  then have "a \<le> 0 \<longleftrightarrow> take sz (rest r) = []" unfolding length_0_conv .
  moreover have "drop (length (take sz (rest r))) (rest r) = drop sz (rest r)" by (simp add: min_def)
  ultimately show ?thesis using r False by (simp add: read_line_def block_of_def)
qed

abbreviation turn :: "u64 \<Rightarrow> nat \<Rightarrow> nat" where
  "turn ini n \<equiv> unat ((ini + 1) mod of_nat n)"

abbreviation queue where
  "queue infs i \<equiv> map rest (drop i infs @ take i infs)"

lemma turn_next: "i + 1 < 2 ^ 64 \<Longrightarrow> k < 2 ^ 64 \<Longrightarrow> turn (of_nat i) k = (i + 1) mod k" "i < 2 ^ 64 \<Longrightarrow> k < 2 ^ 64 \<Longrightarrow> turn (of_nat i - 1) k = i mod k"
proof -
  assume i: "i + 1 < 2 ^ 64" and k: "k < 2 ^ 64"
  have "(of_nat i + 1 :: u64) = of_nat (i + 1)" by simp
  moreover have "unat (of_nat (i + 1) :: u64) = i + 1" "unat (of_nat k :: u64) = k" using i k by (intro unat_of_nat_small; simp)+
  ultimately show "turn (of_nat i) k = (i + 1) mod k" by (simp only: unat_mod)
next
  assume i: "i < 2 ^ 64" and k: "k < 2 ^ 64"
  have "unat (of_nat i :: u64) = i" "unat (of_nat k :: u64) = k" using i k by (intro unat_of_nat_small; simp)+
  then show "turn (of_nat i - 1) k = i mod k" by (simp only: diff_add_cancel unat_mod)
qed

lemma queue_remove:
  assumes "i < length infs"
  shows "queue (take i infs @ drop (i + 1) infs) (i mod (length infs - 1)) = map rest (drop (i + 1) infs @ take i infs)"
proof (cases "i < length infs - 1")
  case False
  then have "i = length infs - 1" using assms by simp
  then show ?thesis using assms by simp
qed (use assms in simp)

lemma queue_update:
  assumes "i < length infs"
  shows "queue (infs[i := f]) ((i + 1) mod length infs) = map rest (drop (i + 1) infs @ take i infs @ [f])"
proof (cases "i + 1 < length infs")
  case True
  then show ?thesis by (simp add: take_Suc_conv_app_nth)
next
  case False
  then have "i + 1 = length infs" using assms by simp
  then show ?thesis using take_Suc_conv_app_nth [of i "infs[i := f]"] assms by (metis Suc_eq_plus1 append.right_neutral append_Nil drop_all drop_0 le_refl length_list_update mod_self nth_list_update_eq take_all take_update_cancel take0)
qed

lemma gather_loop_shares:
  assumes "list_all ok infs" "list_all (\<lambda>w. wok w \<and> at w = length (stored w)) outfs" "length infs < 2 ^ 64" "outi < length outfs"
  shows "\<exists>outfs'. gather_loop readc read wr (Suc n) lines infs ini outfs outi = Some outfs' \<and> length outfs' = length outfs \<and>
    list_all wok outfs' \<and> (\<forall>j < length outfs. stored (outfs' ! j) =
       stored (outfs ! j) @ share (length outfs) j outi (gathered n lines (queue infs (turn ini (length infs)))))"
  using assms
proof (induction "length infs + length (concat (map rest infs))" arbitrary: infs ini outfs outi rule: less_induct)
  case less
  show ?case
  proof (cases "infs = []")
    case True
    then show ?thesis using less.prems by (subst gather_loop.simps) (auto simp: list_all_iff)
  next
    case False
    define i where "i = turn ini (length infs)"
    let ?f = "infs ! i" and ?qs = "map rest (drop (i + 1) infs @ take i infs)" and ?m = "length outfs"
    have k: "unat (of_nat (length infs) :: u64) = length infs" using less.prems(3) by (intro unat_of_nat_small) simp
    have i: "i < length infs" using False by (simp add: i_def unat_mod k)
    have i64: "i + 1 < 2 ^ 64" using i less.prems(3) by linarith
    have q: "queue infs i = rest ?f # ?qs" using i by (simp add: Cons_nth_drop_Suc [symmetric])
    have okf: "ok ?f" using less.prems(1) i by (simp add: list_all_length)
    obtain a f1 where rl: "read_line readc read (Suc n) lines ?f = Some (a, block_of (Suc n) lines (rest ?f), f1)"
      "a \<le> 0 \<longleftrightarrow> block_of (Suc n) lines (rest ?f) = []" "ok f1" "rest f1 = drop (length (block_of (Suc n) lines (rest ?f))) (rest ?f)"
      using read_line_block [OF okf, of "Suc n" lines] by blast
    let ?b = "block_of (Suc n) lines (rest ?f)"
    have split: "concat (map rest infs) = concat (map rest (take i infs)) @ rest ?f @ concat (map rest (drop (i + 1) infs))"
      using id_take_nth_drop [OF i] by (metis Suc_eq_plus1 concat.simps(2) concat_append list.simps(9) map_append)
    show ?thesis
    proof (cases "rest ?f = []")
      case True
      let ?infs = "take i infs @ drop (i + 1) infs"
      have len: "length ?infs = length infs - 1" using i by simp
      have "length ?infs + length (concat (map rest ?infs)) < length infs + length (concat (map rest infs))"
        using i split True by simp
      moreover have "list_all ok ?infs" using less.prems(1) by (auto simp: list_all_iff dest: in_set_takeD in_set_dropD)
      moreover have "length ?infs < 2 ^ 64" using len less.prems(3) by linarith
      ultimately obtain outfs' where o: "gather_loop readc read wr (Suc n) lines ?infs (of_nat i - 1) outfs outi = Some outfs'"
        "length outfs' = ?m" "list_all wok outfs'" "\<forall>j < ?m. stored (outfs' ! j) = stored (outfs ! j) @
          share ?m j outi (gathered n lines (queue ?infs (turn (of_nat i - 1) (length ?infs))))"
        using less.hyps [of ?infs outfs outi "of_nat i - 1"] less.prems(2,4) by blast
      have "turn (of_nat i - 1) (length ?infs) = i mod (length infs - 1)"
        unfolding len by (rule turn_next(2)) (use i64 less.prems(3) in linarith)+
      then have "queue ?infs (turn (of_nat i - 1) (length ?infs)) = ?qs" using queue_remove [OF i] by simp
      moreover have "gathered n lines (queue infs i) = gathered n lines ?qs" unfolding q using True by simp
      moreover have "gather_loop readc read wr (Suc n) lines infs ini outfs outi = Some outfs'"
        unfolding gather_loop.simps [of readc read wr "Suc n" lines infs ini] using False rl(1,2) o(1) True by (simp add: Let_def i_def [symmetric])
      ultimately show ?thesis using o(2-4) unfolding i_def [symmetric] by simp
    next
      case ne: False
      then have b: "?b \<noteq> []" using block_of_ne [of "Suc n"] by simp
      obtain w1 where w1: "wr ?b (outfs ! outi) = Some (int (length ?b), w1)" "wok w1"
        "stored w1 = overlay (stored (outfs ! outi)) (at (outfs ! outi)) ?b" "at w1 = at (outfs ! outi) + length ?b"
        using write_law [of "outfs ! outi" ?b] less.prems(2,4) by (auto simp: list_all_length)
      have at0: "at (outfs ! outi) = length (stored (outfs ! outi))" using less.prems(2,4) by (simp add: list_all_length)
      have st1: "stored w1 = stored (outfs ! outi) @ ?b" unfolding w1(3) at0 by (simp add: overlay_def)
      let ?infs = "infs[i := f1]" and ?outs = "outfs[outi := w1]"
      have "rest f1 @ [] = drop (length ?b) (rest ?f)" using rl(4) by simp
      have "map rest ?infs = (map rest infs)[i := rest f1]" by (simp add: map_update)
      then have "concat (map rest ?infs) = concat (map rest (take i infs)) @ rest f1 @ concat (map rest (drop (i + 1) infs))"
        using i by (simp add: upd_conv_take_nth_drop take_map drop_map)
      moreover have "length (rest f1) < length (rest ?f)" using rl(4) b ne by simp
      ultimately have "length ?infs + length (concat (map rest ?infs)) < length infs + length (concat (map rest infs))" using split by simp
      moreover have "list_all ok ?infs" using less.prems(1) rl(3) by (auto simp: list_all_iff dest!: set_update_subset_insert [THEN subsetD])
      moreover have "list_all (\<lambda>w. wok w \<and> at w = length (stored w)) ?outs"
        using less.prems(2) w1(2,4) st1 at0 by (auto simp: list_all_iff dest!: set_update_subset_insert [THEN subsetD])
      moreover have "(outi + 1) mod ?m < length ?outs" using less.prems(4) by (cases "outfs = []") simp_all
      moreover have "length ?infs < 2 ^ 64" using less.prems(3) by simp
      ultimately obtain outfs' where o: "gather_loop readc read wr (Suc n) lines ?infs (of_nat i) ?outs ((outi + 1) mod ?m) = Some outfs'"
        "length outfs' = length ?outs" "list_all wok outfs'" "\<forall>j < length ?outs. stored (outfs' ! j) = stored (?outs ! j) @
          share (length ?outs) j ((outi + 1) mod ?m) (gathered n lines (queue ?infs (turn (of_nat i) (length ?infs))))"
        using less.hyps [of ?infs ?outs "(outi + 1) mod ?m" "of_nat i"] by blast
      have "turn (of_nat i) (length ?infs) = (i + 1) mod length infs"
        unfolding length_list_update by (rule turn_next(1) [OF i64 less.prems(3)])
      then have "queue ?infs (turn (of_nat i) (length ?infs)) = ?qs @ [drop (length ?b) (rest ?f)]"
        using queue_update [OF i, of f1] rl(4) by simp
      then have g: "gathered n lines (queue infs i) = ?b # gathered n lines (queue ?infs (turn (of_nat i) (length ?infs)))"
        unfolding q using ne by simp
      have "gather_loop readc read wr (Suc n) lines infs ini outfs outi = Some outfs'"
        unfolding gather_loop.simps [of readc read wr "Suc n" lines infs ini]
        using False rl(1,2) o(1) b w1(1) less.prems(4) by (simp add: Let_def i_def [symmetric])
      moreover have "stored (outfs' ! j) = stored (outfs ! j) @ share ?m j outi (gathered n lines (queue infs i))" if "j < ?m" for j
        using o(4) that st1 less.prems(4) unfolding g by (cases "j = outi") simp_all
      ultimately show ?thesis using o(2,3) unfolding i_def [symmetric] by simp
    qed
  qed
qed

lemma close_all_stored: "list_all wok ws \<Longrightarrow> \<exists>ds. close_all shut ws = Some ds \<and> map contents ds = map stored ws"
proof (induction ws)
  case (Cons w ws)
  then show ?case using close_law [of w] by fastforce
qed simp

lemma scattergather_lemma:
  assumes "list_all ok infs" "list_all (\<lambda>w. wok w \<and> at w = 0 \<and> stored w = []) outfs" "length infs < 2 ^ 64" "outfs \<noteq> []"
    and "n = block_default 1 args - 1"
  shows "\<exists>ds. scattergather61 readc read wr shut args lines infs outfs = Some ds \<and> length ds = length outfs \<and>
    (\<forall>j < length outfs. contents (ds ! j) = share (length outfs) j 0 (gathered n lines (map rest infs)))"
proof -
  have n: "block_default 1 args = Suc n" using assms(5) by (simp add: block_default_def)
  have "list_all (\<lambda>w. wok w \<and> at w = length (stored w)) outfs" using assms(2) by (auto simp: list_all_iff)
  moreover have "0 < length outfs" using assms(4) by simp
  ultimately obtain ws where ws: "gather_loop readc read wr (Suc n) lines infs (- 1) outfs 0 = Some ws" "length ws = length outfs" "list_all wok ws"
    "\<forall>j < length outfs. stored (ws ! j) = stored (outfs ! j) @ share (length outfs) j 0 (gathered n lines (queue infs (turn (- 1) (length infs))))"
    using gather_loop_shares [OF assms(1) _ assms(3), of outfs 0 n lines "- 1"] by blast
  obtain ds where ds: "close_all shut ws = Some ds" "map contents ds = map stored ws" using close_all_stored [OF ws(3)] by blast
  have "length ds = length outfs" using ds(2) ws(2) by (metis length_map)
  moreover have "contents (ds ! j) = stored (ws ! j)" if "j < length outfs" for j
    using ds(2) ws(2) that calculation by (metis nth_map)
  moreover have "stored (outfs ! j) = []" if "j < length outfs" for j using assms(2) that by (simp add: list_all_length)
  moreover have "queue infs (turn (- 1) (length infs)) = map rest infs" by simp
  moreover have "scattergather61 readc read wr shut args lines infs outfs = Some ds"
    unfolding scattergather61_def n ws(1) by (simp add: ds(1))
  ultimately show ?thesis using ws(4) by auto
qed

end

text \<open>With one input and one output the program copies.\<close>

lemma gathered_one: "concat (gathered n lines [xs]) = xs"
proof (induction "length xs" arbitrary: xs rule: less_induct)
  case less
  show ?case
  proof (cases "xs = []")
    case False
    then have "block_of (Suc n) lines xs \<noteq> []" using block_of_ne by simp
    then have "length (drop (length (block_of (Suc n) lines xs)) xs) < length xs" using False by simp
    note ih = less [OF this]
    have "gathered n lines [xs] = block_of (Suc n) lines xs # gathered n lines [drop (length (block_of (Suc n) lines xs)) xs]"
      using False by (simp del: gathered.simps add: gathered.simps(2) [of n lines xs])
    then show ?thesis using ih block_of_prefix [of "Suc n" lines xs] by (simp del: gathered.simps)
  qed simp
qed

lemma share_one: "share 1 0 0 bs = concat bs"
  by (induction bs) simp_all

section \<open>Property\<close>

text \<open>C31: \<open>scattergather61\<close>, with the buffered library, deals the blocks (or lines) of its inputs, taken in turn
  from those that have some left, to its outputs in turn: it ends, and output \<open>j\<close> holds its share of the
  reference's blocks. Interrupted and short reads make no difference.\<close>

theorem scattergather_deals:
  assumes "parse_arguments ''b:i:o:l##'' xs operands = Some a"
    and "fresh raw" "list_all (\<lambda>d. Fail \<notin> set (answers d)) ins" "list_all (\<lambda>d. answers d = [] \<and> contents d = [] \<and> offset d = 0) outs"
    and "length ins = length (input_files a)" "length ins < 2 ^ 64" "length outs = length (output_files a)"
  shows "\<exists>ds. scattergather61 io61_readc io61_read io61_write io61_close (arguments.truncate a) (by_lines a)
        (map (\<lambda>d. io61_fdopen raw d O_RDONLY) ins) (map (\<lambda>d. io61_fdopen raw d O_WRONLY) outs) = Some ds \<and>
      length ds = length outs \<and>
      (\<forall>j < length outs. contents (ds ! j) = share (length outs) j 0
         (gathered (block_default 1 (arguments.truncate a) - 1) (by_lines a) (map (\<lambda>d. drop (offset d) (contents d)) ins)))"
proof -
  let ?ins = "map (\<lambda>d. io61_fdopen raw d O_RDONLY) ins" and ?outs = "map (\<lambda>d. io61_fdopen raw d O_WRONLY) outs"
  have "list_all stream_ok ?ins" using assms(3) fresh_stream [OF assms(2)] by (auto simp: list_all_iff)
  moreover have "list_all (\<lambda>w. writer_ok w \<and> out_at w = 0 \<and> out_stored w = []) ?outs"
    using assms(4) fresh_writer [OF assms(2)] by (auto simp: list_all_iff)
  moreover have u: "map unread ?ins = map (\<lambda>d. drop (offset d) (contents d)) ins"
    using assms(3) fresh_stream [OF assms(2)] by (auto simp: list_all_iff)
  moreover have "length ?ins < 2 ^ 64" "?outs \<noteq> []" using assms(6,7) parsed_arguments [OF assms(1)] by auto
  ultimately show ?thesis
    using cp.scattergather_lemma [of ?ins ?outs _ "arguments.truncate a" "by_lines a", OF _ _ _ _ refl] unfolding u length_map by blast
qed

text \<open>\<open>scattergather61 -b 2 -o o1 -o o2 a b\<close>.\<close>

theorem scattergather_deals_witness:
  "case parse_arguments ''b:i:o:l##'' [(CHR ''b'', [50]), (CHR ''o'', [111, 49]), (CHR ''o'', [111, 50])] [[97], [98]] of
     None \<Rightarrow> False
   | Some a \<Rightarrow> (\<exists>ds. scattergather61 io61_readc io61_read io61_write io61_close (arguments.truncate a) (by_lines a)
        (map (\<lambda>d. io61_fdopen zeroed d O_RDONLY) [disk_file [97, 98, 99, 100], disk_file [120, 121, 122]])
        (map (\<lambda>d. io61_fdopen zeroed d O_WRONLY) [disk_file [], disk_file []]) = Some ds \<and>
      contents (ds ! 0) = [97, 98, 99, 100] \<and> contents (ds ! 1) = [120, 121, 122])"
proof -
  have p: "parse_arguments ''b:i:o:l##'' [(CHR ''b'', [50]), (CHR ''o'', [111, 49]), (CHR ''o'', [111, 50])] [[97], [98]] =
    Some \<lparr>input_size = 2 ^ 64 - 1, block_size = 2, stride = 1024, by_lines = False, input_file = None, output_file = None,
      input_files = [Some [97], Some [98]], output_files = [Some [111, 49], Some [111, 50]], seed = None\<rparr>"
    by (simp add: parse_arguments_def argument_def no_arguments_def bad_number_def strtoul_end_def digit_value_def)
  have "list_all (\<lambda>d. Fail \<notin> set (answers d)) [disk_file [97, 98, 99, 100], disk_file [120, 121, 122]]"
    "list_all (\<lambda>d. answers d = [] \<and> contents d = [] \<and> offset d = 0) [disk_file [], disk_file []]" by (simp_all add: disk_file_def)
  from scattergather_deals [OF p fresh_zeroed this]
  show ?thesis unfolding p by (auto simp: disk_file_def block_of_def block_default_def arguments.truncate_def)
qed

end
