(* ===== verification/PipeExchange.thy ===== *)
theory PipeExchange
  imports Prelude
begin

text \<open>
  The message exchange of \<open>pset4/pipeexchange61.cc\<close>: a requester and a responder, two processes joined by
  two pipes, each of some capacity. They are linked here with the unbuffered library
  (\<open>slow-io61.cc\<close>), where a call reads or writes one byte per system call: a step moves one byte or
  finishes a call. What the processes do does not depend on the data but for the assertions, so each is
  the list of the calls its loops make.
\<close>

section \<open>Messages\<close>




section \<open>The two processes\<close>

text \<open>\<open>Put_id\<close> and \<open>Check_id\<close> are the copies of an id into and out of the buffer, with the increments and
  the assertion that follow.\<close>

datatype call = Put_id | Io_write nat | Io_flush | Io_read nat | Check_id



text \<open>\<open>moved\<close> is the number of bytes the current call has moved (\<open>nread\<close>, \<open>nwritten\<close> of the library).\<close>

record peer =
  calls :: "call list"
  moved :: nat
  buf :: "u8 list"
  requestid :: u64
  responseid :: u64
  aborted :: bool

definition id_bytes :: "u64 \<Rightarrow> u8 list" where
  "id_bytes i = map (\<lambda>k. byte_of i (of_nat k)) [0..<8]"

definition id_of :: "u8 list \<Rightarrow> u64" where
  "id_of b = ld64 (\<lambda>a. b ! unat a) 0"

text \<open>A step of a process, with the pipe it writes to and the pipe it reads from. \<open>None\<close>: it waits for the
  other process, or has exited. The parent process keeps both ends of both pipes open, so that
  a read from an empty pipe waits and no write fails.\<close>

definition peer_step :: "nat \<Rightarrow> peer \<Rightarrow> u8 list \<Rightarrow> u8 list \<Rightarrow> (peer \<times> u8 list \<times> u8 list) option" where
  "peer_step cap p out inp =
     (if aborted p then None else case calls p of
        [] \<Rightarrow> None
      | Put_id # cs \<Rightarrow> Some (p\<lparr>calls := cs, buf := id_bytes (requestid p) @ drop 8 (buf p), requestid := requestid p + 1\<rparr>, out, inp)
      | Io_write n # cs \<Rightarrow>
          if moved p = n then Some (p\<lparr>calls := cs, moved := 0\<rparr>, out, inp)
          else if length out < cap then Some (p\<lparr>moved := moved p + 1\<rparr>, out @ [buf p ! moved p], inp)
          else None
      | Io_flush # cs \<Rightarrow> Some (p\<lparr>calls := cs\<rparr>, out, inp)
      | Io_read n # cs \<Rightarrow>
          if moved p = n then Some (p\<lparr>calls := cs, moved := 0\<rparr>, out, inp)
          else (case inp of [] \<Rightarrow> None
                | b # bs \<Rightarrow> Some (p\<lparr>moved := moved p + 1, buf := (buf p)[moved p := b]\<rparr>, out, bs))
      | Check_id # cs \<Rightarrow>
          if id_of (buf p) = responseid p then Some (p\<lparr>calls := cs, responseid := responseid p + 1\<rparr>, out, inp)
          else Some (p\<lparr>aborted := True\<rparr>, out, inp))"


definition exited :: "peer \<Rightarrow> bool" where
  "exited p \<longleftrightarrow> aborted p \<or> calls p = []"

section \<open>The program\<close>

text \<open>The events of the five seconds that the parent waits: a step of a child, or a round of its waiting loop.\<close>

datatype event = Requester | Responder | Poll

record exchange =
  req :: peer
  resp :: peer
  request_pipe :: "u8 list"
  response_pipe :: "u8 list"
  p1 :: int
  p2 :: int


fun exchange_step :: "nat \<Rightarrow> event \<Rightarrow> exchange \<Rightarrow> exchange" where
  "exchange_step cap Requester s =
     (case peer_step cap (req s) (request_pipe s) (response_pipe s) of None \<Rightarrow> s
      | Some (p, out, inp) \<Rightarrow> s\<lparr>req := p, request_pipe := out, response_pipe := inp\<rparr>)"
| "exchange_step cap Responder s =
     (case peer_step cap (resp s) (response_pipe s) (request_pipe s) of None \<Rightarrow> s
      | Some (p, out, inp) \<Rightarrow> s\<lparr>resp := p, response_pipe := out, request_pipe := inp\<rparr>)"
| "exchange_step cap Poll s =
     s\<lparr>p1 := (if p1 s > 0 \<and> exited (req s) then - 1 else p1 s), p2 := (if p2 s > 0 \<and> exited (resp s) then - 1 else p2 s)\<rparr>"

definition exchange_run :: "nat \<Rightarrow> event list \<Rightarrow> exchange \<Rightarrow> exchange" where
  "exchange_run cap es s = fold (exchange_step cap) es s"


section \<open>Labels of the bytes\<close>

text \<open>A byte of a stream is labelled with its offset in its message and with the number of messages that follow
  that one: \<open>labels\<close> lists the labels of messages of the given sizes.\<close>

definition outs :: "call list \<Rightarrow> nat list" where
  "outs cs = concat (map (\<lambda>c. case c of Io_write n \<Rightarrow> [n] | _ \<Rightarrow> []) cs)"

definition ins :: "call list \<Rightarrow> nat list" where
  "ins cs = concat (map (\<lambda>c. case c of Io_read n \<Rightarrow> [n] | _ \<Rightarrow> []) cs)"

definition puts :: "call list \<Rightarrow> nat" where
  "puts cs = length (filter ((=) Put_id) cs)"

definition checks :: "call list \<Rightarrow> nat" where
  "checks cs = length (filter ((=) Check_id) cs)"

lemma outs_simps [simp]: "outs [] = []" "outs (Put_id # cs) = outs cs" "outs (Io_write n # cs) = n # outs cs"
  "outs (Io_flush # cs) = outs cs" "outs (Io_read n # cs) = outs cs" "outs (Check_id # cs) = outs cs"
  by (simp_all add: outs_def)

lemma ins_simps [simp]: "ins [] = []" "ins (Put_id # cs) = ins cs" "ins (Io_write n # cs) = ins cs"
  "ins (Io_flush # cs) = ins cs" "ins (Io_read n # cs) = n # ins cs" "ins (Check_id # cs) = ins cs"
  by (simp_all add: ins_def)

lemma id_call_simps [simp]: "puts [] = 0" "puts (Put_id # cs) = Suc (puts cs)" "puts (Io_write n # cs) = puts cs"
  "puts (Io_flush # cs) = puts cs" "puts (Io_read n # cs) = puts cs" "puts (Check_id # cs) = puts cs"
  "checks [] = 0" "checks (Put_id # cs) = checks cs" "checks (Io_write n # cs) = checks cs"
  "checks (Io_flush # cs) = checks cs" "checks (Io_read n # cs) = checks cs" "checks (Check_id # cs) = Suc (checks cs)"
  by (simp_all add: puts_def checks_def)

fun labels :: "nat list \<Rightarrow> (nat \<times> nat) list" where
  "labels [] = []"
| "labels (n # ns) = map (Pair (length ns)) [0..<n] @ labels ns"

lemma length_labels [simp]: "length (labels ns) = sum_list ns"
  by (induction ns) simp_all


lemma drop_labels_all: "drop n (labels (n # ns)) = labels ns"
  by simp












section \<open>The invariant of a process\<close>






section \<open>A step keeps the invariant\<close>


section \<open>The invariant of the exchange\<close>


fun bytes_out :: "call \<Rightarrow> nat" where
  "bytes_out (Io_write n) = n"
| "bytes_out _ = 0"

fun bytes_in :: "call \<Rightarrow> nat" where
  "bytes_in (Io_read n) = n"
| "bytes_in _ = 0"


lemma sum_calls: "sum_list (outs (cs @ [c])) = bytes_out c + sum_list (outs cs)" "sum_list (ins (cs @ [c])) = bytes_in c + sum_list (ins cs)"
  by (cases c; simp add: outs_def ins_def)+


















lemma exchange_run_simps [simp]: "exchange_run cap [] s = s" "exchange_run cap (e # es) s = exchange_run cap es (exchange_step cap e s)"
  "exchange_run cap (es @ fs) s = exchange_run cap fs (exchange_run cap es s)"
  by (simp_all add: exchange_run_def)



section \<open>The messages of the program\<close>















section \<open>With small pipes the exchange never ends\<close>




section \<open>With large pipes it ends\<close>








section \<open>Property\<close>








end
