(* ===== verification/Pong.thy ===== *)
theory Pong
  imports Prelude
begin

text \<open>
  The pong board (\<open>pset6/pongboard.hh\<close>): cells, balls, and the two operations of a ball. Pointers
  to balls are indices into the list of all balls. \<open>None\<close> is a failed assertion or the use of a
  mutex outside \<open>mutexes_per_row\<close>. A \<open>move\<close> holds the locks of three rows from its first access to
  its last, so it is one step here; that this is right for moves that run at the same time is a
  theorem of its own.
\<close>

section \<open>Cells, balls and the board\<close>

datatype pong_celltype = Cell_empty | Cell_sticky | Cell_obstacle | Cell_hole

record pong_cell =
  ctype :: pong_celltype
  cball :: "nat option"

record pong_ball =
  placed :: bool
  ball_x :: int
  ball_y :: int
  ball_dx :: int
  ball_dy :: int

record pong_board =
  width :: int
  height :: int
  cells :: "pong_cell list"
  obstacle_cell :: pong_cell
  ncollisions :: u64
  balls :: "pong_ball list"

text \<open>An \<open>int\<close> has 32 bits: a \<open>long\<close> assigned to one is cut, and a product of two is taken to wrap around.\<close>

definition to_int :: "int \<Rightarrow> int" where
  "to_int v = sint (of_int v :: u32)"

lemma to_int_id: "- (2 ^ 31) \<le> v \<Longrightarrow> v < 2 ^ 31 \<Longrightarrow> to_int v = v"
  by (simp add: to_int_def int_word_sint mod_pos_pos_trivial)

text \<open>
  The constructor. The number of cells is an \<open>int\<close>, the product of two; where it wraps to a negative
  number the vector cannot be made (\<open>None\<close>: an exception ends the program), and where it wraps to
  a positive one there are fewer cells than the board has positions.
\<close>

definition pong_board_new :: "int \<Rightarrow> int \<Rightarrow> pong_board option" where
  "pong_board_new w h =
     (let n = to_int (w * h)
      in if n < 0 then None
         else Some \<lparr>width = w, height = h,
           cells = replicate (nat n) \<lparr>ctype = Cell_empty, cball = None\<rparr>,
           obstacle_cell = \<lparr>ctype = Cell_obstacle, cball = None\<rparr>, ncollisions = 0, balls = []\<rparr>)"

definition pong_ball_new :: pong_ball where
  "pong_ball_new = \<lparr>placed = False, ball_x = - 1, ball_y = - 1, ball_dx = 0, ball_dy = 0\<rparr>"

definition on_board :: "pong_board \<Rightarrow> int \<Rightarrow> int \<Rightarrow> bool" where
  "on_board g x y \<longleftrightarrow> \<not> (x < 0 \<or> width g \<le> x \<or> y < 0 \<or> height g \<le> y)"

definition cell_index :: "pong_board \<Rightarrow> int \<Rightarrow> int \<Rightarrow> nat" where
  "cell_index g x y = nat (y * width g + x)"

definition cell :: "pong_board \<Rightarrow> int \<Rightarrow> int \<Rightarrow> pong_cell" where
  "cell g x y = (if on_board g x y then cells g ! cell_index g x y else obstacle_cell g)"

text \<open>\<open>cell(x, y)\<close> is a reference: writing through it.\<close>

definition cell_upd :: "int \<Rightarrow> int \<Rightarrow> (pong_cell \<Rightarrow> pong_cell) \<Rightarrow> pong_board \<Rightarrow> pong_board" where
  "cell_upd x y f g =
     (if on_board g x y then g\<lparr>cells := (cells g)[cell_index g x y := f (cell g x y)]\<rparr>
      else g\<lparr>obstacle_cell := f (obstacle_cell g)\<rparr>)"

definition set_ball :: "int \<Rightarrow> int \<Rightarrow> nat option \<Rightarrow> pong_board \<Rightarrow> pong_board" where
  "set_ball x y p = cell_upd x y (\<lambda>c. c\<lparr>cball := p\<rparr>)"

definition upd_ball :: "nat \<Rightarrow> (pong_ball \<Rightarrow> pong_ball) \<Rightarrow> pong_board \<Rightarrow> pong_board" where
  "upd_ball i f g = g\<lparr>balls := (balls g)[i := f (balls g ! i)]\<rparr>"

section \<open>Placing a ball\<close>

text \<open>One turn of the loop of \<open>place\<close> at the random position \<open>x, y\<close>.\<close>

definition place_try :: "nat \<Rightarrow> int \<Rightarrow> int \<Rightarrow> pong_board \<Rightarrow> pong_board" where
  "place_try i x y g =
     (if (ctype (cell g x y) = Cell_empty \<or> ctype (cell g x y) = Cell_sticky) \<and> cball (cell g x y) = None
      then upd_ball i (\<lambda>b. b\<lparr>ball_x := x, ball_y := y, placed := True\<rparr>) (set_ball x y (Some i) g)
      else g)"

definition place_dir :: "nat \<Rightarrow> bool \<Rightarrow> bool \<Rightarrow> pong_board \<Rightarrow> pong_board" where
  "place_dir i right down = upd_ball i (\<lambda>b. b\<lparr>ball_dx := if right then 1 else - 1, ball_dy := if down then 1 else - 1\<rparr>)"

text \<open>\<open>place\<close> with the random positions \<open>pos 0, pos 1, ...\<close>; it may try forever.\<close>

partial_function (option) place_loop :: "nat \<Rightarrow> (nat \<Rightarrow> int \<times> int) \<Rightarrow> nat \<Rightarrow> pong_board \<Rightarrow> pong_board option" where
  "place_loop i pos n g =
     (if placed (balls g ! i) then Some g
      else place_loop i pos (n + 1) (place_try i (fst (pos n)) (snd (pos n)) g))"

definition place :: "nat \<Rightarrow> bool \<Rightarrow> bool \<Rightarrow> (nat \<Rightarrow> int \<times> int) \<Rightarrow> pong_board \<Rightarrow> pong_board option" where
  "place i right down pos g = place_loop i pos 0 (place_dir i right down g)"

section \<open>Moving a ball\<close>

text \<open>A collision of ball \<open>i\<close>, moving by \<open>dx, dy\<close>, with the ball \<open>j\<close> of the next cell.\<close>

definition collide :: "nat \<Rightarrow> nat \<Rightarrow> int \<Rightarrow> int \<Rightarrow> pong_board \<Rightarrow> pong_board" where
  "collide i j dx dy g =
     (let g1 = (if ball_dx (balls g ! j) \<noteq> dx
                then upd_ball i (\<lambda>b. b\<lparr>ball_dx := - dx\<rparr>) (upd_ball j (\<lambda>b. b\<lparr>ball_dx := dx\<rparr>) g) else g);
          g2 = (if ball_dy (balls g ! j) \<noteq> dy
                then upd_ball i (\<lambda>b. b\<lparr>ball_dy := - dy\<rparr>) (upd_ball j (\<lambda>b. b\<lparr>ball_dy := dy\<rparr>) g1) else g1)
      in g2\<lparr>ncollisions := ncollisions g2 + 1\<rparr>)"

definition bounce :: "pong_board \<Rightarrow> int \<Rightarrow> int \<Rightarrow> int \<Rightarrow> int" where
  "bounce g x y d = (if ctype (cell g x y) = Cell_obstacle then - d else d)"

text \<open>The move of a ball that is on the board and not stuck.\<close>

definition move_on :: "nat \<Rightarrow> pong_board \<Rightarrow> int \<times> pong_board" where
  "move_on i g =
     (let b = balls g ! i;
          dx = bounce g (ball_x b + ball_dx b) (ball_y b) (ball_dx b);
          dy = bounce g (ball_x b) (ball_y b + ball_dy b) (ball_dy b);
          g1 = upd_ball i (\<lambda>b. b\<lparr>ball_dx := dx, ball_dy := dy\<rparr>) g;
          nx = ball_x b + dx; ny = ball_y b + dy;
          next_cell = cell g nx ny
      in case cball next_cell of
           Some j \<Rightarrow> (0, collide i j dx dy g1)
         | None \<Rightarrow>
             (case ctype next_cell of
                Cell_obstacle \<Rightarrow> (0, upd_ball i (\<lambda>b. b\<lparr>ball_dx := - dx, ball_dy := - dy\<rparr>) g1)
              | Cell_hole \<Rightarrow>
                  (- 1, set_ball (ball_x b) (ball_y b) None
                          (upd_ball i (\<lambda>b. b\<lparr>ball_x := - 1, ball_y := - 1, ball_dx := 0, ball_dy := 0, placed := False\<rparr>) g1))
              | t \<Rightarrow>
                  (1, upd_ball i (\<lambda>b. b\<lparr>ball_x := nx, ball_y := ny, ball_dx := if t = Cell_sticky then 0 else dx,
                                         ball_dy := if t = Cell_sticky then 0 else dy\<rparr>)
                        (set_ball nx ny (Some i) (set_ball (ball_x b) (ball_y b) None g1)))))"

definition move :: "nat \<Rightarrow> pong_board \<Rightarrow> (int \<times> pong_board) option" where
  "move i g =
     (let b = balls g ! i
      in if ball_y b < 0 \<or> height g \<le> ball_y b then None
         else if ball_x b < 0 \<or> cball (cell g (ball_x b) (ball_y b)) \<noteq> Some i then None
         else if ball_dx b = 0 \<and> ball_dy b = 0 then Some (0, g)
         else Some (move_on i g))"

definition check_cell_stick :: "nat \<Rightarrow> pong_board \<Rightarrow> bool" where
  "check_cell_stick i g \<longleftrightarrow> ball_dx (balls g ! i) = 0 \<and> ball_dy (balls g ! i) = 0"

section \<open>Reading after writing\<close>

definition same_board :: "pong_board \<Rightarrow> pong_board \<Rightarrow> bool" where
  "same_board g g' \<longleftrightarrow> width g' = width g \<and> height g' = height g \<and> length (cells g') = length (cells g)
     \<and> length (balls g') = length (balls g)"

definition shape_ok :: "pong_board \<Rightarrow> bool" where
  "shape_ok g \<longleftrightarrow> 0 < width g \<and> 0 < height g \<and> length (cells g) = nat (width g * height g)
     \<and> obstacle_cell g = \<lparr>ctype = Cell_obstacle, cball = None\<rparr>"

lemma cell_index_bound:
  assumes "shape_ok g" and "on_board g x y"
  shows "cell_index g x y < length (cells g)"
proof -
  have "y * width g + x < (y + 1) * width g" using assms by (auto simp: on_board_def distrib_right)
  also have "\<dots> \<le> height g * width g" using assms by (intro mult_right_mono) (auto simp: on_board_def shape_ok_def)
  finally have "y * width g + x < width g * height g" by (simp add: mult.commute)
  moreover have "0 \<le> y * width g + x" using assms by (auto simp: on_board_def shape_ok_def)
  ultimately show ?thesis using assms(1) by (auto simp: cell_index_def shape_ok_def)
qed

lemma cell_index_inj:
  assumes "shape_ok g" and "on_board g x y" and "on_board g x' y'"
  shows "cell_index g x y = cell_index g x' y' \<longleftrightarrow> x = x' \<and> y = y'"
proof
  assume eq: "cell_index g x y = cell_index g x' y'"
  have "0 \<le> y * width g + x" "0 \<le> y' * width g + x'" using assms by (auto simp: on_board_def shape_ok_def)
  then have e: "y * width g + x = y' * width g + x'" using eq by (simp add: cell_index_def)
  have "(y * width g + x) div width g = y" "(y' * width g + x') div width g = y'"
    using assms by (auto simp: on_board_def shape_ok_def)
  then have "y = y'" using e by simp
  then show "x = x' \<and> y = y'" using e by simp
qed simp

lemma cell_upd_ball [simp]: "cell (upd_ball i f g) x y = cell g x y"
  by (simp add: cell_def upd_ball_def on_board_def cell_index_def)

lemma cell_set_ball:
  assumes "shape_ok g" and "on_board g x y"
  shows "cell (set_ball x y p g) x' y' = (if x' = x \<and> y' = y then (cell g x y)\<lparr>cball := p\<rparr> else cell g x' y')"
  using cell_index_bound [OF assms] cell_index_inj [OF assms] assms(2)
  by (auto simp: cell_def set_ball_def cell_upd_def on_board_def cell_index_def nth_list_update)

lemma shape_upd_ball [simp]: "shape_ok (upd_ball i f g) = shape_ok g"
  by (simp add: shape_ok_def upd_ball_def)

lemma shape_set_ball [simp]: "on_board g x y \<Longrightarrow> shape_ok (set_ball x y p g) = shape_ok g"
  by (simp add: shape_ok_def set_ball_def cell_upd_def)

lemma balls_simps [simp]:
  "balls (set_ball x y p g) = balls g" "balls (upd_ball i f g) = (balls g)[i := f (balls g ! i)]"
  "width (set_ball x y p g) = width g" "height (set_ball x y p g) = height g"
  "width (upd_ball i f g) = width g" "height (upd_ball i f g) = height g"
  "ncollisions (set_ball x y p g) = ncollisions g" "ncollisions (upd_ball i f g) = ncollisions g"
  "on_board (set_ball x y p g) x' y' = on_board g x' y'" "on_board (upd_ball i f g) x' y' = on_board g x' y'"
  by (simp_all add: set_ball_def cell_upd_def upd_ball_def on_board_def)

end
