(* ===== verification/PongProps.thy ===== *)
theory PongProps
  imports Pong
begin

text \<open>
  The board stays consistent: cells and balls name each other, balls are on free cells only. And
  the locks are enough: moves that hold disjoint sets of row locks commute.
\<close>

section \<open>Consistent boards\<close>

definition dir_ok :: "pong_ball \<Rightarrow> bool" where
  "dir_ok b \<longleftrightarrow> ball_dx b = 0 \<and> ball_dy b = 0 \<or> \<bar>ball_dx b\<bar> = 1 \<and> \<bar>ball_dy b\<bar> = 1"

definition free_kind :: "pong_celltype \<Rightarrow> bool" where
  "free_kind t \<longleftrightarrow> t = Cell_empty \<or> t = Cell_sticky"

definition ball_ok :: "pong_board \<Rightarrow> nat \<Rightarrow> bool" where
  "ball_ok g i \<longleftrightarrow> (let b = balls g ! i
     in if placed b then on_board g (ball_x b) (ball_y b) \<and> cball (cell g (ball_x b) (ball_y b)) = Some i
          \<and> free_kind (ctype (cell g (ball_x b) (ball_y b))) \<and> dir_ok b
        else ball_x b = - 1 \<and> ball_y b = - 1)"

definition cell_ok :: "pong_board \<Rightarrow> int \<Rightarrow> int \<Rightarrow> bool" where
  "cell_ok g x y \<longleftrightarrow> (case cball (cell g x y) of None \<Rightarrow> True
     | Some i \<Rightarrow> i < length (balls g) \<and> placed (balls g ! i) \<and> ball_x (balls g ! i) = x \<and> ball_y (balls g ! i) = y)"

definition board_ok :: "pong_board \<Rightarrow> bool" where
  "board_ok g \<longleftrightarrow> shape_ok g \<and> (\<forall>i < length (balls g). ball_ok g i) \<and> (\<forall>x y. on_board g x y \<longrightarrow> cell_ok g x y)"

lemma board_okD:
  assumes "board_ok g"
  shows "shape_ok g"
    and "i < length (balls g) \<Longrightarrow> placed (balls g ! i) \<Longrightarrow> on_board g (ball_x (balls g ! i)) (ball_y (balls g ! i))
      \<and> cball (cell g (ball_x (balls g ! i)) (ball_y (balls g ! i))) = Some i
      \<and> free_kind (ctype (cell g (ball_x (balls g ! i)) (ball_y (balls g ! i)))) \<and> dir_ok (balls g ! i)"
    and "i < length (balls g) \<Longrightarrow> \<not> placed (balls g ! i) \<Longrightarrow> ball_x (balls g ! i) = - 1 \<and> ball_y (balls g ! i) = - 1"
    and "on_board g x y \<Longrightarrow> cball (cell g x y) = Some i \<Longrightarrow> i < length (balls g) \<and> placed (balls g ! i)
      \<and> ball_x (balls g ! i) = x \<and> ball_y (balls g ! i) = y"
    and "\<not> on_board g x y \<Longrightarrow> cell g x y = \<lparr>ctype = Cell_obstacle, cball = None\<rparr>"
proof -
  show shape: "shape_ok g" using assms by (simp add: board_ok_def)
  show "\<not> on_board g x y \<Longrightarrow> cell g x y = \<lparr>ctype = Cell_obstacle, cball = None\<rparr>"
    using shape by (simp add: cell_def shape_ok_def)
  show "i < length (balls g) \<and> placed (balls g ! i) \<and> ball_x (balls g ! i) = x \<and> ball_y (balls g ! i) = y"
    if "on_board g x y" "cball (cell g x y) = Some i"
  proof -
    have "cell_ok g x y" using assms that(1) by (simp add: board_ok_def)
    then show ?thesis using that(2) by (simp add: cell_ok_def)
  qed
next
  assume "i < length (balls g)"
  then have "ball_ok g i" using assms by (simp add: board_ok_def)
  then show "placed (balls g ! i) \<Longrightarrow> on_board g (ball_x (balls g ! i)) (ball_y (balls g ! i))
      \<and> cball (cell g (ball_x (balls g ! i)) (ball_y (balls g ! i))) = Some i
      \<and> free_kind (ctype (cell g (ball_x (balls g ! i)) (ball_y (balls g ! i)))) \<and> dir_ok (balls g ! i)"
    and "\<not> placed (balls g ! i) \<Longrightarrow> ball_x (balls g ! i) = - 1 \<and> ball_y (balls g ! i) = - 1"
    by (simp_all add: ball_ok_def Let_def)
qed

section \<open>What a move changes\<close>

text \<open>Ball assignments, cell assignments and collisions, applied to a board.\<close>

fun put_balls :: "(nat \<times> pong_ball) list \<Rightarrow> pong_board \<Rightarrow> pong_board" where
  "put_balls [] g = g"
| "put_balls ((i, b) # bs) g = put_balls bs (upd_ball i (\<lambda>_. b) g)"

fun put_cells :: "(int \<times> int \<times> nat option) list \<Rightarrow> pong_board \<Rightarrow> pong_board" where
  "put_cells [] g = g"
| "put_cells ((x, y, p) # cs) g = put_cells cs (set_ball x y p g)"

definition patch :: "(nat \<times> pong_ball) list \<Rightarrow> (int \<times> int \<times> nat option) list \<Rightarrow> u64 \<Rightarrow> pong_board \<Rightarrow> pong_board" where
  "patch bs cs n g = (put_balls bs (put_cells cs g))\<lparr>ncollisions := ncollisions g + n\<rparr>"

definition moved_ball :: "pong_ball \<Rightarrow> int \<Rightarrow> int \<Rightarrow> int \<Rightarrow> int \<Rightarrow> pong_ball" where
  "moved_ball b x y dx dy = b\<lparr>ball_x := x, ball_y := y, ball_dx := dx, ball_dy := dy\<rparr>"

text \<open>The effect on ball \<open>i\<close>, now \<open>b\<close>, of moving by \<open>dx, dy\<close> into the cell \<open>next\<close>.\<close>

definition effect_at :: "nat \<Rightarrow> pong_ball \<Rightarrow> int \<Rightarrow> int \<Rightarrow> pong_cell \<Rightarrow> (nat \<Rightarrow> pong_ball) \<Rightarrow>
    int \<times> (nat \<times> pong_ball) list \<times> (int \<times> int \<times> nat option) list \<times> u64" where
  "effect_at i b dx dy next_cell ball_of =
     (let x = ball_x b; y = ball_y b
      in case cball next_cell of
           Some j \<Rightarrow> let b' = ball_of j in
             (0, [(i, moved_ball b x y (if ball_dx b' \<noteq> dx then - dx else dx) (if ball_dy b' \<noteq> dy then - dy else dy)),
                  (j, b'\<lparr>ball_dx := dx, ball_dy := dy\<rparr>)], [], 1)
         | None \<Rightarrow>
             (case ctype next_cell of
                Cell_obstacle \<Rightarrow> (0, [(i, moved_ball b x y (- dx) (- dy))], [], 0)
              | Cell_hole \<Rightarrow> (- 1, [(i, (moved_ball b (- 1) (- 1) 0 0)\<lparr>placed := False\<rparr>)], [(x, y, None)], 0)
              | t \<Rightarrow> (1, [(i, if t = Cell_sticky then moved_ball b (x + dx) (y + dy) 0 0
                             else moved_ball b (x + dx) (y + dy) dx dy)], [(x, y, None), (x + dx, y + dy, Some i)], 0)))"

definition effect :: "nat \<Rightarrow> pong_board \<Rightarrow>
    int \<times> (nat \<times> pong_ball) list \<times> (int \<times> int \<times> nat option) list \<times> u64" where
  "effect i g =
     (let b = balls g ! i;
          dx = bounce g (ball_x b + ball_dx b) (ball_y b) (ball_dx b);
          dy = bounce g (ball_x b) (ball_y b + ball_dy b) (ball_dy b)
      in effect_at i b dx dy (cell g (ball_x b + dx) (ball_y b + dy)) ((!) (balls g)))"

lemma effect_at_cong: "(\<And>j. cball c = Some j \<Longrightarrow> f j = h j) \<Longrightarrow> effect_at i b dx dy c f = effect_at i b dx dy c h"
  by (auto simp: effect_at_def Let_def split: option.split)

lemma upd_upd [simp]: "i < length (balls g) \<Longrightarrow> upd_ball i f (upd_ball i h g) = upd_ball i (f \<circ> h) g"
  by (simp add: upd_ball_def)

lemma upd_ball_eqI: "f (balls g ! i) = h (balls g ! i) \<Longrightarrow> upd_ball i f g = upd_ball i h g"
  by (simp add: upd_ball_def)

lemma upd_ball_swap: "i \<noteq> j \<Longrightarrow> upd_ball i f (upd_ball j h g) = upd_ball j h (upd_ball i f g)"
  by (simp add: upd_ball_def list_update_swap)

lemma set_ball_upd: "set_ball x y p (upd_ball i f g) = upd_ball i f (set_ball x y p g)"
  by (simp add: set_ball_def cell_upd_def upd_ball_def on_board_def cell_index_def cell_def)

lemma ncollisions_put_balls [simp]: "ncollisions (put_balls bs g) = ncollisions g"
  by (induction bs arbitrary: g) auto

lemma ncollisions_put_cells [simp]: "ncollisions (put_cells cs g) = ncollisions g"
  by (induction cs arbitrary: g) auto

lemma patch_0: "patch bs cs 0 g = put_balls bs (put_cells cs g)"
proof -
  have "h\<lparr>ncollisions := ncollisions h\<rparr> = h" for h :: pong_board by simp
  from this [of "put_balls bs (put_cells cs g)"] show ?thesis by (simp add: patch_def)
qed

lemma nth_upd_ball: "i < length (balls g) \<Longrightarrow> balls (upd_ball j f g) ! i = (if i = j then f (balls g ! i) else balls g ! i)"
  by (auto simp: upd_ball_def)

lemma collide_effect:
  assumes "i \<noteq> j" "i < length (balls g)" "j < length (balls g)"
  shows "collide i j dx dy (upd_ball i (\<lambda>b. b\<lparr>ball_dx := dx, ball_dy := dy\<rparr>) g) =
    patch [(i, (balls g ! i)\<lparr>ball_dx := if ball_dx (balls g ! j) \<noteq> dx then - dx else dx,
                 ball_dy := if ball_dy (balls g ! j) \<noteq> dy then - dy else dy\<rparr>),
           (j, (balls g ! j)\<lparr>ball_dx := dx, ball_dy := dy\<rparr>)] [] 1 g"
proof (rule pong_board.equality)
  let ?L = "collide i j dx dy (upd_ball i (\<lambda>b. b\<lparr>ball_dx := dx, ball_dy := dy\<rparr>) g)"
    and ?R = "patch [(i, (balls g ! i)\<lparr>ball_dx := if ball_dx (balls g ! j) \<noteq> dx then - dx else dx,
                 ball_dy := if ball_dy (balls g ! j) \<noteq> dy then - dy else dy\<rparr>),
           (j, (balls g ! j)\<lparr>ball_dx := dx, ball_dy := dy\<rparr>)] [] 1 g"
  show "balls ?L = balls ?R"
  proof (rule nth_equalityI)
    fix k assume "k < length (balls ?L)"
    then show "balls ?L ! k = balls ?R ! k" using assms
      by (cases "k = i"; cases "k = j") (auto simp: collide_def patch_def Let_def nth_list_update)
  qed (simp add: collide_def patch_def Let_def)
qed (auto simp: collide_def patch_def Let_def upd_ball_def)

lemma move_on_effect:
  assumes ok: "board_ok g" and i: "i < length (balls g)" "placed (balls g ! i)"
    and moving: "\<not> (ball_dx (balls g ! i) = 0 \<and> ball_dy (balls g ! i) = 0)"
  shows "move_on i g = (case effect i g of (r, bs, cs, n) \<Rightarrow> (r, patch bs cs n g))"
proof -
  define b where "b = balls g ! i"
  define dx where "dx = bounce g (ball_x b + ball_dx b) (ball_y b) (ball_dx b)"
  define dy where "dy = bounce g (ball_x b) (ball_y b + ball_dy b) (ball_dy b)"
  define nx ny where "nx = ball_x b + dx" and "ny = ball_y b + dy"
  have "dir_ok b" using board_okD(2) [OF ok i] by (simp add: b_def)
  then have "\<bar>dx\<bar> = 1" using moving by (auto simp: dir_ok_def dx_def bounce_def b_def)
  then have ne: "nx \<noteq> ball_x b" by (auto simp: nx_def)
  show ?thesis
  proof (cases "cball (cell g nx ny)")
    case None
    then show ?thesis using i
      by (auto simp: move_on_def effect_def effect_at_def Let_def b_def [symmetric] dx_def [symmetric] dy_def [symmetric]
          nx_def [symmetric] ny_def [symmetric] patch_0 set_ball_upd moved_ball_def
          split: pong_celltype.split intro!: upd_ball_eqI)
  next
    case (Some j)
    have "on_board g nx ny" using board_okD(5) [OF ok, of nx ny] Some by (cases "on_board g nx ny") auto
    then have j: "j < length (balls g)" "j \<noteq> i"
      using board_okD(4) [OF ok _ Some] ne by (auto simp: b_def)
    have "balls g ! i = b" by (simp add: b_def)
    then show ?thesis using Some collide_effect [of i j g dx dy] i j
      by (simp add: move_on_def effect_def effect_at_def Let_def b_def [symmetric] dx_def [symmetric] dy_def [symmetric]
          nx_def [symmetric] ny_def [symmetric] moved_ball_def)
  qed
qed

section \<open>Entering and leaving the board\<close>

lemma board_okI:
  assumes "shape_ok g" and "\<And>i. i < length (balls g) \<Longrightarrow> ball_ok g i" and "\<And>x y. on_board g x y \<Longrightarrow> cell_ok g x y"
  shows "board_ok g"
  using assms by (simp add: board_ok_def)

lemma board_ok_dirs:
  assumes ok: "board_ok g" and i: "i < length (balls g)" and d: "placed (balls g ! i) \<Longrightarrow> dir_ok b"
    and b: "b = (balls g ! i)\<lparr>ball_dx := dx, ball_dy := dy\<rparr>"
  shows "board_ok (upd_ball i (\<lambda>_. b) g)"
proof (rule board_okI)
  show "shape_ok (upd_ball i (\<lambda>_. b) g)" using board_okD(1) [OF ok] by simp
next
  fix k assume "k < length (balls (upd_ball i (\<lambda>_. b) g))"
  then have k: "k < length (balls g)" by simp
  show "ball_ok (upd_ball i (\<lambda>_. b) g) k"
    using board_okD(2) [OF ok k] board_okD(3) [OF ok k] d k b i by (auto simp: ball_ok_def Let_def nth_list_update)
next
  fix x y assume "on_board (upd_ball i (\<lambda>_. b) g) x y"
  then have "on_board g x y" by simp
  then show "cell_ok (upd_ball i (\<lambda>_. b) g) x y"
    using board_okD(4) [OF ok] b i by (auto simp: cell_ok_def nth_list_update split: option.splits)
qed

lemma board_ok_leave:
  assumes ok: "board_ok g" and i: "i < length (balls g)" "placed (balls g ! i)"
    and b: "\<not> placed b" "ball_x b = - 1" "ball_y b = - 1"
  shows "board_ok (upd_ball i (\<lambda>_. b) (set_ball (ball_x (balls g ! i)) (ball_y (balls g ! i)) None g))" (is "board_ok ?h")
proof (rule board_okI)
  define x y where "x = ball_x (balls g ! i)" and "y = ball_y (balls g ! i)"
  have xy: "on_board g x y" "cball (cell g x y) = Some i" and shape: "shape_ok g"
    using board_okD(1,2) [OF ok] i by (simp_all add: x_def y_def)
  note cells = cell_set_ball [OF shape xy(1), of None]
  have h: "?h = upd_ball i (\<lambda>_. b) (set_ball x y None g)" by (simp add: x_def y_def)
  show "shape_ok ?h" using shape xy by (simp add: h)
  show "ball_ok ?h k" if "k < length (balls ?h)" for k
  proof -
    have k: "k < length (balls g)" using that by simp
    show ?thesis
    proof (cases "k = i")
      case True then show ?thesis using b i(1) by (simp add: h ball_ok_def Let_def)
    next
      case False
      then have "placed (balls g ! k) \<Longrightarrow> (ball_x (balls g ! k), ball_y (balls g ! k)) \<noteq> (x, y)"
        using board_okD(2) [OF ok k] xy(2) by auto
      then show ?thesis using board_okD(2,3) [OF ok k] False k i(1) by (auto simp: h ball_ok_def Let_def cells)
    qed
  qed
  show "cell_ok ?h x' y'" if "on_board ?h x' y'" for x' y'
  proof -
    have on: "on_board g x' y'" using that by (simp add: h)
    have "i \<noteq> k" if "cball (cell g x' y') = Some k" "\<not> (x' = x \<and> y' = y)" for k
      using board_okD(4) [OF ok on] that by (auto simp: x_def y_def)
    then show ?thesis using board_okD(4) [OF ok on] i(1) by (auto simp: h cell_ok_def cells split: option.splits)
  qed
qed

lemma board_ok_enter:
  assumes ok: "board_ok g" and i: "i < length (balls g)" "\<not> placed (balls g ! i)"
    and xy: "on_board g x y" "cball (cell g x y) = None" "free_kind (ctype (cell g x y))"
    and b: "placed b" "ball_x b = x" "ball_y b = y" "dir_ok b"
  shows "board_ok (upd_ball i (\<lambda>_. b) (set_ball x y (Some i) g))" (is "board_ok ?h")
proof (rule board_okI)
  note cells = cell_set_ball [OF board_okD(1) [OF ok] xy(1), of "Some i"]
  show "shape_ok ?h" using board_okD(1) [OF ok] xy by simp
  show "ball_ok ?h k" if "k < length (balls ?h)" for k
  proof -
    have k: "k < length (balls g)" using that by simp
    show ?thesis
    proof (cases "k = i")
      case True then show ?thesis using b i(1) xy by (simp add: ball_ok_def Let_def cells)
    next
      case False
      then have "placed (balls g ! k) \<Longrightarrow> (ball_x (balls g ! k), ball_y (balls g ! k)) \<noteq> (x, y)"
        using board_okD(2) [OF ok k] xy(2) by auto
      then show ?thesis using board_okD(2,3) [OF ok k] False k i(1) by (auto simp: ball_ok_def Let_def cells)
    qed
  qed
  show "cell_ok ?h x' y'" if "on_board ?h x' y'" for x' y'
  proof -
    have on: "on_board g x' y'" using that by simp
    show ?thesis
    proof (cases "x' = x \<and> y' = y")
      case True then show ?thesis using b i(1) by (simp add: cell_ok_def cells)
    next
      case False
      have "i \<noteq> k" if "cball (cell g x' y') = Some k" for k using board_okD(4) [OF ok on that] i(2) by auto
      then show ?thesis using board_okD(4) [OF ok on] False i(1) by (auto simp: cell_ok_def cells split: option.splits)
    qed
  qed
qed

lemma collisions_simps [simp]:
  "cell (g\<lparr>ncollisions := n\<rparr>) x y = cell g x y" "on_board (g\<lparr>ncollisions := n\<rparr>) x y = on_board g x y"
  "shape_ok (g\<lparr>ncollisions := n\<rparr>) = shape_ok g" "ball_ok (g\<lparr>ncollisions := n\<rparr>) i = ball_ok g i"
  by (simp_all add: cell_def on_board_def cell_index_def shape_ok_def ball_ok_def Let_def)

lemma board_ok_collisions: "board_ok g \<Longrightarrow> board_ok (g\<lparr>ncollisions := n\<rparr>)"
  by (simp add: board_ok_def cell_ok_def cong: option.case_cong)

section \<open>Setting up and placing\<close>

lemma board_new_ok:
  assumes "pong_board_new w h = Some g" and wh: "0 < w" "0 < h" "w * h < 2 ^ 31"
  shows "board_ok g" and "balls g = []"
proof -
  have "to_int (w * h) = w * h" using wh by (intro to_int_id) (auto intro: order_trans [of _ 0])
  then have g: "g = \<lparr>width = w, height = h, cells = replicate (nat (w * h)) \<lparr>ctype = Cell_empty, cball = None\<rparr>,
      obstacle_cell = \<lparr>ctype = Cell_obstacle, cball = None\<rparr>, ncollisions = 0, balls = []\<rparr>"
    using assms(1) by (simp add: pong_board_new_def Let_def split: if_splits)
  show "balls g = []" by (simp add: g)
  have s: "shape_ok g" using wh by (simp add: shape_ok_def g)
  have "cball (cell g x y) = None" if "on_board g x y" for x y
    using cell_index_bound [OF s that] that by (simp add: cell_def g)
  then show "board_ok g" using s by (auto simp: board_ok_def cell_ok_def) (simp add: g)
qed

lemma board_ok_new_balls:
  assumes g: "board_ok g" "balls g = []"
  shows "board_ok (g\<lparr>balls := replicate n pong_ball_new\<rparr>)" (is "board_ok ?h")
proof (rule board_okI)
  have cells: "cell ?h x y = cell g x y" "on_board ?h x y = on_board g x y" for x y
    by (simp_all add: cell_def on_board_def cell_index_def)
  have none: "cball (cell g x y) = None" if "on_board g x y" for x y
    using board_okD(4) [OF g(1) that] g(2) by (cases "cball (cell g x y)") auto
  show "shape_ok ?h" using board_okD(1) [OF g(1)] by (simp add: shape_ok_def)
  show "ball_ok ?h i" if "i < length (balls ?h)" for i
    using that by (simp add: ball_ok_def pong_ball_new_def Let_def)
  show "cell_ok ?h x y" if "on_board ?h x y" for x y
    using that none [of x y] unfolding cell_ok_def cells by simp
qed

lemma place_try_ok:
  assumes "board_ok g" and "i < length (balls g)" "\<not> placed (balls g ! i)" and "on_board g x y" and "dir_ok (balls g ! i)"
  shows "board_ok (place_try i x y g)" and "length (balls (place_try i x y g)) = length (balls g)"
    and "k \<noteq> i \<Longrightarrow> balls (place_try i x y g) ! k = balls g ! k"
proof -
  have "upd_ball i (\<lambda>b. b\<lparr>ball_x := x, ball_y := y, placed := True\<rparr>) (set_ball x y (Some i) g)
      = upd_ball i (\<lambda>_. (balls g ! i)\<lparr>ball_x := x, ball_y := y, placed := True\<rparr>) (set_ball x y (Some i) g)"
    by (rule upd_ball_eqI) simp
  then show "board_ok (place_try i x y g)"
    using assms board_ok_enter [OF assms(1-4), of "(balls g ! i)\<lparr>ball_x := x, ball_y := y, placed := True\<rparr>"]
    by (auto simp: place_try_def free_kind_def dir_ok_def)
qed (auto simp: place_try_def)

lemma board_ok_unplaced:
  assumes ok: "board_ok g" and i: "i < length (balls g)" "\<not> placed (balls g ! i)"
  shows "board_ok (place_dir i r d g)"
proof -
  let ?b = "(balls g ! i)\<lparr>ball_dx := if r then 1 else - 1, ball_dy := if d then 1 else - 1\<rparr>"
  have "place_dir i r d g = upd_ball i (\<lambda>_. ?b) g" unfolding place_dir_def by (rule upd_ball_eqI) simp
  moreover have "board_ok (upd_ball i (\<lambda>_. ?b) g)" using i by (intro board_ok_dirs [OF ok i(1)]) auto
  ultimately show ?thesis by simp
qed

section \<open>What a move does\<close>

text \<open>The four things that can happen to a ball \<open>i\<close> that heads for the cell \<open>nx, ny\<close>.\<close>

definition move_alt :: "nat \<Rightarrow> pong_board \<Rightarrow> int \<Rightarrow> int \<Rightarrow> bool" where
  "move_alt i g nx ny \<longleftrightarrow>
    (let b = balls g ! i in
      (\<exists>j bi bj. effect i g = (0, [(i, bi), (j, bj)], [], 1) \<and> on_board g nx ny \<and> cball (cell g nx ny) = Some j \<and> j \<noteq> i
          \<and> bi = b\<lparr>ball_dx := ball_dx bi, ball_dy := ball_dy bi\<rparr> \<and> dir_ok bi
          \<and> bj = (balls g ! j)\<lparr>ball_dx := ball_dx bj, ball_dy := ball_dy bj\<rparr> \<and> dir_ok bj)
      \<or> (\<exists>bi. effect i g = (0, [(i, bi)], [], 0) \<and> bi = b\<lparr>ball_dx := ball_dx bi, ball_dy := ball_dy bi\<rparr> \<and> dir_ok bi)
      \<or> (\<exists>bi. effect i g = (- 1, [(i, bi)], [(ball_x b, ball_y b, None)], 0) \<and> \<not> placed bi \<and> ball_x bi = - 1 \<and> ball_y bi = - 1
          \<and> ctype (cell g nx ny) = Cell_hole)
      \<or> (\<exists>bi. effect i g = (1, [(i, bi)], [(ball_x b, ball_y b, None), (nx, ny, Some i)], 0) \<and> placed bi
          \<and> ball_x bi = nx \<and> ball_y bi = ny \<and> dir_ok bi \<and> on_board g nx ny \<and> cball (cell g nx ny) = None
          \<and> free_kind (ctype (cell g nx ny)) \<and> (ball_dx bi = 0 \<longleftrightarrow> ctype (cell g nx ny) = Cell_sticky)))"

lemma effect_cases:
  assumes ok: "board_ok g" and i: "i < length (balls g)" "placed (balls g ! i)"
    and moving: "\<not> (ball_dx (balls g ! i) = 0 \<and> ball_dy (balls g ! i) = 0)"
  obtains nx ny where "\<bar>nx - ball_x (balls g ! i)\<bar> = 1" "\<bar>ny - ball_y (balls g ! i)\<bar> = 1" "move_alt i g nx ny"
proof -
  define b where "b = balls g ! i"
  define dx where "dx = bounce g (ball_x b + ball_dx b) (ball_y b) (ball_dx b)"
  define dy where "dy = bounce g (ball_x b) (ball_y b + ball_dy b) (ball_dy b)"
  define nx ny where "nx = ball_x b + dx" and "ny = ball_y b + dy"
  have "dir_ok b" using board_okD(2) [OF ok i] by (simp add: b_def)
  then have d: "\<bar>dx\<bar> = 1" "\<bar>dy\<bar> = 1" using moving by (auto simp: dir_ok_def dx_def dy_def bounce_def b_def)
  then have n: "\<bar>nx - ball_x b\<bar> = 1" "\<bar>ny - ball_y b\<bar> = 1" "nx \<noteq> ball_x b" by (auto simp: nx_def ny_def)
  note eff = effect_def effect_at_def Let_def b_def [symmetric] dx_def [symmetric] dy_def [symmetric] nx_def [symmetric] ny_def [symmetric]
    moved_ball_def
  have p: "placed b" using i(2) by (simp add: b_def)
  show ?thesis
  proof (cases "cball (cell g nx ny)")
    case (Some j)
    have on: "on_board g nx ny" using board_okD(5) [OF ok, of nx ny] Some by (cases "on_board g nx ny") auto
    then have j: "j \<noteq> i" using board_okD(4) [OF ok on Some] n(3) by (auto simp: b_def)
    show ?thesis
      by (rule that [OF n(1,2) [unfolded b_def]], unfold move_alt_def Let_def b_def [symmetric]) (rule disjI1, use Some on j d in \<open>simp add: eff dir_ok_def\<close>)
  next
    case None
    have on: "on_board g nx ny" if "ctype (cell g nx ny) \<noteq> Cell_obstacle"
      using board_okD(5) [OF ok, of nx ny] that by (cases "on_board g nx ny") auto
    show ?thesis
    proof (rule that [OF n(1,2) [unfolded b_def]], unfold move_alt_def Let_def b_def [symmetric], goal_cases)
      case 1
      show ?case
      proof (cases "ctype (cell g nx ny)")
        case Cell_obstacle
        then have "effect i g = (0, [(i, b\<lparr>ball_dx := - dx, ball_dy := - dy\<rparr>)], [], 0)"
          using None by (simp add: eff)
        then show ?thesis using d by (intro disjI2 disjI1) (auto simp: dir_ok_def)
      next
        case Cell_hole
        then have "effect i g = (- 1, [(i, (moved_ball b (- 1) (- 1) 0 0)\<lparr>placed := False\<rparr>)], [(ball_x b, ball_y b, None)], 0)"
          using None by (simp add: eff)
        then show ?thesis using Cell_hole by (intro disjI2 disjI1) (simp add: moved_ball_def)
      next
        case Cell_empty
        then have "effect i g = (1, [(i, moved_ball b nx ny dx dy)], [(ball_x b, ball_y b, None), (nx, ny, Some i)], 0)"
          using None by (simp add: eff)
        then show ?thesis using Cell_empty None on d p
          by (intro disjI2) (auto simp: moved_ball_def dir_ok_def free_kind_def)
      next
        case Cell_sticky
        then have "effect i g = (1, [(i, moved_ball b nx ny 0 0)], [(ball_x b, ball_y b, None), (nx, ny, Some i)], 0)"
          using None by (simp add: eff)
        then show ?thesis using Cell_sticky None on d p
          by (intro disjI2) (auto simp: moved_ball_def dir_ok_def free_kind_def)
      qed
    qed
  qed
qed

lemma length_cells [simp]:
  "length (cells (upd_ball i f g)) = length (cells g)" "length (cells (set_ball x y p g)) = length (cells g)"
  by (simp_all add: upd_ball_def set_ball_def cell_upd_def)

lemma ctype_set_ball: "shape_ok g \<Longrightarrow> on_board g x y \<Longrightarrow> ctype (cell (set_ball x y p g) x' y') = ctype (cell g x' y')"
  by (simp add: cell_set_ball)

lemma move_ok:
  assumes ok: "board_ok g" and i: "i < length (balls g)" "placed (balls g ! i)"
  shows "\<exists>r g'. move i g = Some (r, g') \<and> board_ok g' \<and> same_board g g' \<and> r \<in> {- 1, 0, 1}
    \<and> (placed (balls g' ! i) \<longleftrightarrow> r \<noteq> - 1)
    \<and> (r = 1 \<longrightarrow> \<bar>ball_x (balls g' ! i) - ball_x (balls g ! i)\<bar> = 1 \<and> \<bar>ball_y (balls g' ! i) - ball_y (balls g ! i)\<bar> = 1)
    \<and> (r = 0 \<longrightarrow> ball_x (balls g' ! i) = ball_x (balls g ! i) \<and> ball_y (balls g' ! i) = ball_y (balls g ! i))
    \<and> (\<forall>k < length (balls g). k \<noteq> i \<longrightarrow> placed (balls g' ! k) = placed (balls g ! k)
        \<and> ball_x (balls g' ! k) = ball_x (balls g ! k) \<and> ball_y (balls g' ! k) = ball_y (balls g ! k))
    \<and> (\<forall>x y. ctype (cell g' x y) = ctype (cell g x y))"
proof -
  define b where "b = balls g ! i"
  have at: "on_board g (ball_x b) (ball_y b)" "cball (cell g (ball_x b) (ball_y b)) = Some i" "dir_ok b"
    using board_okD(2) [OF ok i] by (simp_all add: b_def)
  have shape: "shape_ok g" by (rule board_okD(1) [OF ok])
  show ?thesis
  proof (cases "ball_dx b = 0 \<and> ball_dy b = 0")
    case True
    have "move i g = Some (0, g)" using True at by (auto simp: move_def Let_def b_def on_board_def)
    then show ?thesis using ok i by (auto simp: same_board_def)
  next
    case False
    obtain nx ny where n: "\<bar>nx - ball_x b\<bar> = 1" "\<bar>ny - ball_y b\<bar> = 1" and alt: "move_alt i g nx ny"
      using effect_cases [OF ok i] False unfolding b_def by blast
    have mv: "move i g = Some (case effect i g of (r, bs, cs, n) \<Rightarrow> (r, patch bs cs n g))"
      using move_on_effect [OF ok i] False at by (auto simp: move_def Let_def b_def on_board_def)
    from alt [unfolded move_alt_def Let_def b_def [symmetric]] show ?thesis
    proof (elim disjE exE conjE)
      fix j bi bj
      assume e: "effect i g = (0, [(i, bi), (j, bj)], [], 1)" and j: "on_board g nx ny" "cball (cell g nx ny) = Some j" "j \<noteq> i"
        and bi: "bi = b\<lparr>ball_dx := ball_dx bi, ball_dy := ball_dy bi\<rparr>" "dir_ok bi"
        and bj: "bj = (balls g ! j)\<lparr>ball_dx := ball_dx bj, ball_dy := ball_dy bj\<rparr>" "dir_ok bj"
      have lj: "j < length (balls g)" using board_okD(4) [OF ok j(1,2)] by simp
      have "board_ok (upd_ball i (\<lambda>_. bi) g)" by (rule board_ok_dirs [OF ok i(1) bi(2) bi(1) [unfolded b_def]])
      then have "board_ok (upd_ball j (\<lambda>_. bj) (upd_ball i (\<lambda>_. bi) g))"
        by (rule board_ok_dirs) (use lj bj j(3) in \<open>simp_all\<close>)
      then have "board_ok (patch [(i, bi), (j, bj)] [] 1 g)" by (simp add: patch_def board_ok_collisions)
      moreover have pos: "placed bi" "ball_x bi = ball_x b" "ball_y bi = ball_y b"
        using i(2) by (subst bi(1), simp add: b_def)+
      moreover have "placed bj = placed (balls g ! j)" "ball_x bj = ball_x (balls g ! j)" "ball_y bj = ball_y (balls g ! j)"
        by (subst bj(1), simp)+
      ultimately show ?thesis using mv e i lj j(3)
        by (auto simp: patch_def same_board_def nth_list_update b_def)
    next
      fix bi assume e: "effect i g = (0, [(i, bi)], [], 0)"
        and bi: "bi = b\<lparr>ball_dx := ball_dx bi, ball_dy := ball_dy bi\<rparr>" "dir_ok bi"
      have "board_ok (upd_ball i (\<lambda>_. bi) g)" by (rule board_ok_dirs [OF ok i(1) bi(2) bi(1) [unfolded b_def]])
      moreover have "placed bi" "ball_x bi = ball_x b" "ball_y bi = ball_y b"
        using i(2) by (subst bi(1), simp add: b_def)+
      ultimately show ?thesis using mv e i by (auto simp: patch_0 same_board_def nth_list_update b_def)
    next
      fix bi assume e: "effect i g = (- 1, [(i, bi)], [(ball_x b, ball_y b, None)], 0)"
        and bi: "\<not> placed bi" "ball_x bi = - 1" "ball_y bi = - 1"
      have "board_ok (upd_ball i (\<lambda>_. bi) (set_ball (ball_x b) (ball_y b) None g))"
        unfolding b_def by (rule board_ok_leave [OF ok i bi])
      then show ?thesis using mv e i bi at(1) shape
        by (auto simp: patch_0 same_board_def nth_list_update ctype_set_ball b_def)
    next
      fix bi assume e: "effect i g = (1, [(i, bi)], [(ball_x b, ball_y b, None), (nx, ny, Some i)], 0)"
        and bi: "placed bi" "ball_x bi = nx" "ball_y bi = ny" "dir_ok bi"
        and free: "on_board g nx ny" "cball (cell g nx ny) = None" "free_kind (ctype (cell g nx ny))"
      define b' where "b' = bi\<lparr>ball_x := - 1, ball_y := - 1, placed := False\<rparr>"
      define h where "h = upd_ball i (\<lambda>_. b') (set_ball (ball_x b) (ball_y b) None g)"
      have h: "board_ok h" unfolding h_def b_def by (rule board_ok_leave [OF ok i]) (simp_all add: b'_def)
      have cells: "cell h x' y' = (if x' = ball_x b \<and> y' = ball_y b then (cell g x' y')\<lparr>cball := None\<rparr> else cell g x' y')" for x' y'
        using cell_set_ball [OF shape at(1)] by (simp add: h_def)
      have eq: "patch [(i, bi)] [(ball_x b, ball_y b, None), (nx, ny, Some i)] 0 g
          = upd_ball i (\<lambda>_. bi) (set_ball nx ny (Some i) h)"
        using i(1) by (simp add: patch_0 h_def set_ball_upd comp_def)
      have "board_ok (upd_ball i (\<lambda>_. bi) (set_ball nx ny (Some i) h))"
        by (rule board_ok_enter [OF h]) (use free bi i n in \<open>auto simp: cells\<close>, simp_all add: h_def b'_def)
      moreover have "move i g = Some (1, upd_ball i (\<lambda>_. bi) (set_ball nx ny (Some i) h))" using mv e eq by simp
      moreover have "same_board g h" "on_board h nx ny" using free(1) by (auto simp: h_def same_board_def)
      moreover have "ctype (cell h x' y') = ctype (cell g x' y')" for x' y' by (simp add: cells)
      moreover have "length (balls h) = length (balls g)" "\<forall>k < length (balls g). k \<noteq> i \<longrightarrow> balls h ! k = balls g ! k"
        by (simp_all add: h_def)
      ultimately show ?thesis using i bi n board_okD(1) [OF h] unfolding b_def
        by (auto simp: same_board_def nth_list_update ctype_set_ball)
    qed
  qed
qed

section \<open>Moves under disjoint locks commute\<close>

text \<open>The rows whose locks a move of ball \<open>i\<close> holds: its own and the two next to it.\<close>

definition locked_rows :: "nat \<Rightarrow> pong_board \<Rightarrow> int set" where
  "locked_rows i g = {ball_y (balls g ! i) - 1 .. ball_y (balls g ! i) + 1}"

text \<open>The effect of a move depends only on what is in the locked rows.\<close>

lemma effect_local:
  assumes b: "balls h ! i = balls g ! i" and d: "dir_ok (balls g ! i)"
    and cells: "\<And>x y. y \<in> locked_rows i g \<Longrightarrow> cell h x y = cell g x y"
    and others: "\<And>x y j. y \<in> locked_rows i g \<Longrightarrow> cball (cell g x y) = Some j \<Longrightarrow> balls h ! j = balls g ! j"
  shows "effect i h = effect i g"
proof -
  define b where "b = balls g ! i"
  define dx where "dx = bounce g (ball_x b + ball_dx b) (ball_y b) (ball_dx b)"
  define dy where "dy = bounce g (ball_x b) (ball_y b + ball_dy b) (ball_dy b)"
  have r: "ball_y b \<in> locked_rows i g" "ball_y b + ball_dy b \<in> locked_rows i g" "ball_y b + dy \<in> locked_rows i g"
    using d by (auto simp: locked_rows_def b_def dy_def bounce_def dir_ok_def)
  have "bounce h (ball_x b + ball_dx b) (ball_y b) (ball_dx b) = dx" "bounce h (ball_x b) (ball_y b + ball_dy b) (ball_dy b) = dy"
    using r cells by (auto simp: dx_def dy_def bounce_def)
  moreover have "cell h (ball_x b + dx) (ball_y b + dy) = cell g (ball_x b + dx) (ball_y b + dy)" using cells r by simp
  ultimately have "effect i h = effect_at i b dx dy (cell g (ball_x b + dx) (ball_y b + dy)) ((!) (balls h))"
    by (simp add: effect_def Let_def assms(1) b_def [symmetric])
  also have "\<dots> = effect_at i b dx dy (cell g (ball_x b + dx) (ball_y b + dy)) ((!) (balls g))"
    by (rule effect_at_cong) (rule others [OF r(3)])
  also have "\<dots> = effect i g" by (simp add: effect_def Let_def b_def dx_def dy_def)
  finally show ?thesis .
qed

definition cell_pos :: "int \<times> int \<times> nat option \<Rightarrow> int \<times> int" where
  "cell_pos c = (fst c, fst (snd c))"

definition on_cells :: "pong_board \<Rightarrow> (int \<times> int \<times> nat option) list \<Rightarrow> bool" where
  "on_cells g cs \<longleftrightarrow> (\<forall>c \<in> set cs. on_board g (fst c) (fst (snd c)))"

lemma on_cells_simps [simp]:
  "on_cells g []" "on_cells g ((x, y, p) # cs) \<longleftrightarrow> on_board g x y \<and> on_cells g cs"
  "on_cells (set_ball x y p g) cs = on_cells g cs"
  by (simp_all add: on_cells_def)

lemma balls_put_cells [simp]: "balls (put_cells cs g) = balls g"
  by (induction cs g rule: put_cells.induct) simp_all

lemma cell_put_balls [simp]: "cell (put_balls bs g) x y = cell g x y"
  by (induction bs g rule: put_balls.induct) simp_all

lemma on_board_put_cells [simp]: "on_board (put_cells cs g) x y = on_board g x y"
  by (induction cs g rule: put_cells.induct) simp_all

lemma on_board_put_balls [simp]: "on_board (put_balls bs g) x y = on_board g x y"
  by (induction bs g rule: put_balls.induct) simp_all

lemma nth_put_balls: "k \<notin> fst ` set bs \<Longrightarrow> balls (put_balls bs g) ! k = balls g ! k"
  by (induction bs g rule: put_balls.induct) simp_all

lemma cell_put_cells:
  "shape_ok g \<Longrightarrow> on_cells g cs \<Longrightarrow> (x, y) \<notin> cell_pos ` set cs \<Longrightarrow> cell (put_cells cs g) x y = cell g x y"
proof (induction cs g rule: put_cells.induct)
  case (2 x' y' p cs g)
  then have "\<not> (x = x' \<and> y = y')" by (auto simp: cell_pos_def)
  then show ?case using 2 by (auto simp: cell_set_ball)
qed simp

lemma set_ball_swap:
  assumes "shape_ok g" "on_board g x y" "on_board g x' y'" "(x, y) \<noteq> (x', y')"
  shows "set_ball x y p (set_ball x' y' q g) = set_ball x' y' q (set_ball x y p g)"
proof -
  have "cell_index g x y \<noteq> cell_index g x' y'" using cell_index_inj [OF assms(1-3)] assms(4) by simp
  then show ?thesis using assms
    by (simp add: set_ball_def cell_upd_def on_board_def cell_index_def cell_def list_update_swap nth_list_update)
qed

lemma put_cells_set_ball:
  "shape_ok g \<Longrightarrow> on_cells g cs \<Longrightarrow> on_board g x y \<Longrightarrow> (x, y) \<notin> cell_pos ` set cs \<Longrightarrow>
   put_cells cs (set_ball x y p g) = set_ball x y p (put_cells cs g)"
proof (induction cs g rule: put_cells.induct)
  case (2 x' y' q cs g)
  then have "(x', y') \<noteq> (x, y)" by (auto simp: cell_pos_def)
  then show ?case using 2 set_ball_swap [of g x' y' x y q p] by simp
qed simp

lemma put_cells_swap:
  "shape_ok g \<Longrightarrow> on_cells g cs \<Longrightarrow> on_cells g cs' \<Longrightarrow> cell_pos ` set cs \<inter> cell_pos ` set cs' = {} \<Longrightarrow>
   put_cells cs (put_cells cs' g) = put_cells cs' (put_cells cs g)"
proof (induction cs g rule: put_cells.induct)
  case (2 x y p cs g)
  then have "(x, y) \<notin> cell_pos ` set cs'" by (auto simp: cell_pos_def)
  then show ?case using 2 put_cells_set_ball [of g cs' x y p] by simp
qed simp

lemma put_balls_set_ball: "put_balls bs (set_ball x y p g) = set_ball x y p (put_balls bs g)"
  by (induction bs g rule: put_balls.induct) (simp_all add: set_ball_upd [symmetric])

lemma put_balls_put_cells: "put_balls bs (put_cells cs g) = put_cells cs (put_balls bs g)"
  by (induction cs g rule: put_cells.induct) (simp_all add: put_balls_set_ball)

lemma put_balls_upd: "i \<notin> fst ` set bs \<Longrightarrow> put_balls bs (upd_ball i f g) = upd_ball i f (put_balls bs g)"
proof (induction bs g rule: put_balls.induct)
  case (2 j b bs g)
  then show ?case using upd_ball_swap [of j i "\<lambda>_. b" f g] by simp
qed simp

lemma put_balls_swap:
  "fst ` set bs \<inter> fst ` set bs' = {} \<Longrightarrow> put_balls bs (put_balls bs' g) = put_balls bs' (put_balls bs g)"
  by (induction bs g rule: put_balls.induct) (simp_all add: put_balls_upd)

lemma put_balls_collisions: "put_balls bs (g\<lparr>ncollisions := n\<rparr>) = (put_balls bs g)\<lparr>ncollisions := n\<rparr>"
proof (induction bs g rule: put_balls.induct)
  case (2 i b bs g)
  have "upd_ball i (\<lambda>_. b) (g\<lparr>ncollisions := n\<rparr>) = (upd_ball i (\<lambda>_. b) g)\<lparr>ncollisions := n\<rparr>" by (simp add: upd_ball_def)
  then show ?case using 2 by simp
qed simp

lemma put_cells_collisions: "put_cells cs (g\<lparr>ncollisions := n\<rparr>) = (put_cells cs g)\<lparr>ncollisions := n\<rparr>"
proof (induction cs g rule: put_cells.induct)
  case (2 x y p cs g)
  have "set_ball x y p (g\<lparr>ncollisions := n\<rparr>) = (set_ball x y p g)\<lparr>ncollisions := n\<rparr>"
    by (simp add: set_ball_def cell_upd_def on_board_def cell_index_def cell_def)
  then show ?case using 2 by simp
qed simp

lemma patch_swap:
  assumes "shape_ok g" "on_cells g cs" "on_cells g cs'" "fst ` set bs \<inter> fst ` set bs' = {}"
    and "cell_pos ` set cs \<inter> cell_pos ` set cs' = {}"
  shows "patch bs cs n (patch bs' cs' n' g) = patch bs' cs' n' (patch bs cs n g)"
  unfolding patch_def put_cells_collisions put_balls_collisions put_balls_put_cells
  using put_cells_swap [OF assms(1-3,5)] put_balls_swap [OF assms(4)]
  by (simp add: put_balls_put_cells [symmetric] add_ac)

definition move_effect :: "nat \<Rightarrow> pong_board \<Rightarrow>
    int \<times> (nat \<times> pong_ball) list \<times> (int \<times> int \<times> nat option) list \<times> u64" where
  "move_effect i g = (if check_cell_stick i g then (0, [], [], 0) else effect i g)"

lemma move_is_patch:
  assumes "board_ok g" and "i < length (balls g)" "placed (balls g ! i)"
  shows "move i g = Some (case move_effect i g of (r, bs, cs, n) \<Rightarrow> (r, patch bs cs n g))"
proof (cases "check_cell_stick i g")
  case True
  then show ?thesis using board_okD(2) [OF assms]
    by (auto simp: move_def move_effect_def check_cell_stick_def on_board_def patch_0 Let_def)
next
  case False
  then show ?thesis using board_okD(2) [OF assms] move_on_effect [OF assms]
    by (auto simp: move_def move_effect_def check_cell_stick_def on_board_def Let_def)
qed

lemma effect_footprint:
  assumes ok: "board_ok g" and i: "i < length (balls g)" "placed (balls g ! i)" and e: "move_effect i g = (r, bs, cs, n)"
  shows "on_cells g cs" and "(x, y) \<in> cell_pos ` set cs \<Longrightarrow> y \<in> locked_rows i g"
    and "k \<in> fst ` set bs \<Longrightarrow> k < length (balls g) \<and> placed (balls g ! k) \<and> ball_y (balls g ! k) \<in> locked_rows i g"
proof -
  have at: "on_board g (ball_x (balls g ! i)) (ball_y (balls g ! i))" using board_okD(2) [OF ok i] by simp
  have "on_cells g cs \<and> (\<forall>(x, y) \<in> cell_pos ` set cs. y \<in> locked_rows i g)
    \<and> (\<forall>k \<in> fst ` set bs. k < length (balls g) \<and> placed (balls g ! k) \<and> ball_y (balls g ! k) \<in> locked_rows i g)"
  proof (cases "check_cell_stick i g")
    case True then show ?thesis using e by (auto simp: move_effect_def)
  next
    case False
    then have e': "effect i g = (r, bs, cs, n)" and m: "\<not> (ball_dx (balls g ! i) = 0 \<and> ball_dy (balls g ! i) = 0)"
      using e by (auto simp: move_effect_def check_cell_stick_def)
    obtain nx ny where n: "\<bar>ny - ball_y (balls g ! i)\<bar> = 1" and alt: "move_alt i g nx ny"
      using effect_cases [OF ok i m] by blast
    have rows: "ball_y (balls g ! i) \<in> locked_rows i g" "ny \<in> locked_rows i g" using n by (auto simp: locked_rows_def)
    have hit: "j < length (balls g) \<and> placed (balls g ! j) \<and> ball_y (balls g ! j) \<in> locked_rows i g"
      if "on_board g nx ny" "cball (cell g nx ny) = Some j" for j
      using board_okD(4) [OF ok that] rows by simp
    from alt [unfolded move_alt_def Let_def e'] show ?thesis
      by (elim disjE exE conjE) (use i at rows hit in \<open>auto simp: cell_pos_def\<close>)
  qed
  then show "on_cells g cs" and "(x, y) \<in> cell_pos ` set cs \<Longrightarrow> y \<in> locked_rows i g"
    and "k \<in> fst ` set bs \<Longrightarrow> k < length (balls g) \<and> placed (balls g ! k) \<and> ball_y (balls g ! k) \<in> locked_rows i g"
    by blast+
qed

lemma patch_reads:
  "k \<notin> fst ` set bs \<Longrightarrow> balls (patch bs cs n g) ! k = balls g ! k"
  "shape_ok g \<Longrightarrow> on_cells g cs \<Longrightarrow> (x, y) \<notin> cell_pos ` set cs \<Longrightarrow> cell (patch bs cs n g) x y = cell g x y"
  by (simp_all add: patch_def nth_put_balls cell_put_cells)

text \<open>A move elsewhere does not change what a move does.\<close>

lemma move_effect_elsewhere:
  assumes ok: "board_ok g" and i: "i < length (balls g)" "placed (balls g ! i)" and j: "j < length (balls g)" "placed (balls g ! j)"
    and far: "locked_rows i g \<inter> locked_rows j g = {}" and e: "move_effect i g = (r, bs, cs, n)"
  shows "move_effect j (patch bs cs n g) = move_effect j g" and "balls (patch bs cs n g) ! j = balls g ! j"
proof -
  note fp = effect_footprint [OF ok i e]
  let ?h = "patch bs cs n g"
  have own: "ball_y (balls g ! j) \<in> locked_rows j g" by (simp add: locked_rows_def)
  then have "j \<notin> fst ` set bs" using fp(3) far by blast
  then show b: "balls ?h ! j = balls g ! j" by (rule patch_reads)
  have "effect j ?h = effect j g"
  proof (rule effect_local [OF b])
    show "dir_ok (balls g ! j)" using board_okD(2) [OF ok j] by simp
    show cells: "cell ?h x y = cell g x y" if "y \<in> locked_rows j g" for x y
      using fp(2) far that by (intro patch_reads board_okD(1) [OF ok] fp(1)) blast
    show "balls ?h ! k = balls g ! k" if y: "y \<in> locked_rows j g" and c: "cball (cell g x y) = Some k" for x y k
    proof (rule patch_reads)
      have "on_board g x y" using board_okD(5) [OF ok, of x y] c by (cases "on_board g x y") auto
      then have "ball_y (balls g ! k) = y" using board_okD(4) [OF ok _ c] by simp
      then show "k \<notin> fst ` set bs" using fp(3) [of k] y far by blast
    qed
  qed
  then show "move_effect j ?h = move_effect j g" using b by (simp add: move_effect_def check_cell_stick_def)
qed

text \<open>
  C21: Row locking is enough: two moves that hold disjoint sets of row locks commute. On every
  consistent board, when the rows locked by a move of ball \<open>i\<close> and by a move of ball \<open>j\<close> are
  different rows, both moves succeed in either order, with the same two results and the same board,
  so a run in which they overlap is a run in which one follows the other.
\<close>

theorem disjoint_moves_commute:
  assumes ok: "board_ok g" and i: "i < length (balls g)" "placed (balls g ! i)" and j: "j < length (balls g)" "placed (balls g ! j)"
    and far: "locked_rows i g \<inter> locked_rows j g = {}"
  shows "\<exists>r s g'. Option.bind (move i g) (\<lambda>(r, h). map_option (\<lambda>(s, g'). (r, s, g')) (move j h)) = Some (r, s, g')
    \<and> Option.bind (move j g) (\<lambda>(s, h). map_option (\<lambda>(r, g'). (r, s, g')) (move i h)) = Some (r, s, g')"
proof -
  obtain r bs cs n where ei: "move_effect i g = (r, bs, cs, n)" by (cases "move_effect i g")
  obtain s bs' cs' n' where ej: "move_effect j g = (s, bs', cs', n')" by (cases "move_effect j g")
  let ?gi = "patch bs cs n g" and ?gj = "patch bs' cs' n' g"
  have mi: "move i g = Some (r, ?gi)" and mj: "move j g = Some (s, ?gj)"
    using move_is_patch [OF ok i] move_is_patch [OF ok j] ei ej by simp_all
  have oki: "board_ok ?gi" "length (balls ?gi) = length (balls g)" using move_ok [OF ok i] mi by (auto simp: same_board_def)
  have okj: "board_ok ?gj" "length (balls ?gj) = length (balls g)" using move_ok [OF ok j] mj by (auto simp: same_board_def)
  have far': "locked_rows j g \<inter> locked_rows i g = {}" using far by blast
  note loc = move_effect_elsewhere [OF ok i j far ei] move_effect_elsewhere [OF ok j i far' ej]
  have "move j ?gi = Some (s, patch bs' cs' n' ?gi)" "move i ?gj = Some (r, patch bs cs n ?gj)"
    using move_is_patch [OF oki(1), of j] move_is_patch [OF okj(1), of i] loc oki(2) okj(2) i j ei ej by simp_all
  moreover have "patch bs' cs' n' ?gi = patch bs cs n ?gj"
  proof (rule patch_swap)
    note fi = effect_footprint [OF ok i ei] and fj = effect_footprint [OF ok j ej]
    show "shape_ok g" "on_cells g cs'" "on_cells g cs" using board_okD(1) [OF ok] fi(1) fj(1) by auto
    show "fst ` set bs' \<inter> fst ` set bs = {}" using fi(3) fj(3) far by blast
    have "y \<notin> locked_rows i g" if "(x, y) \<in> cell_pos ` set cs'" for x y using fj(2) [OF that] far by blast
    then show "cell_pos ` set cs' \<inter> cell_pos ` set cs = {}" using fi(2) by fast
  qed
  ultimately show ?thesis using mi mj by simp
qed

text \<open>Two balls on a board of eight rows, in the first and in the seventh.\<close>

definition two_balls :: pong_board where
  "two_balls = place_try 1 0 6 (place_dir 1 True False (place_try 0 0 0 (place_dir 0 True True
     ((the (pong_board_new 2 8))\<lparr>balls := replicate 2 pong_ball_new\<rparr>))))"

lemma two_balls_ok: "board_ok two_balls"
proof -
  let ?g = "(the (pong_board_new 2 8))\<lparr>balls := replicate 2 pong_ball_new\<rparr>"
  obtain g0 where g0: "pong_board_new 2 8 = Some g0" by (simp add: pong_board_new_def to_int_id)
  have g: "board_ok ?g" using board_ok_new_balls [OF board_new_ok [OF g0]] by (simp add: g0)
  have h: "board_ok (place_try 0 0 0 (place_dir 0 True True ?g))"
    by (rule place_try_ok(1) [OF board_ok_unplaced [OF g]]; code_simp)
  show ?thesis unfolding two_balls_def
    by (rule place_try_ok(1) [OF board_ok_unplaced [OF h]]; code_simp)
qed

theorem disjoint_moves_commute_witness:
  "Option.bind (move 0 two_balls) (\<lambda>(r, h). move 1 h) = Option.bind (move 1 two_balls) (\<lambda>(s, h). map_option (\<lambda>(r, g'). (s, g')) (move 0 h))
   \<and> move 0 two_balls \<noteq> None"
proof -
  have "length (balls two_balls) = 2" "placed (balls two_balls ! 0)" "placed (balls two_balls ! 1)"
    "ball_y (balls two_balls ! 0) = 0" "ball_y (balls two_balls ! 1) = 6" by code_simp+
  then show ?thesis
    using disjoint_moves_commute [OF two_balls_ok, of 0 1]
    by (auto simp: locked_rows_def bind_eq_Some_conv)
qed

end
