(* ===== verification/PongSim.thy ===== *)
theory PongSim
  imports PongProps "HOL-Library.Multiset"
begin

text \<open>
  The simulation (\<open>pset6/simpong61.cc\<close>): the board is set up, and each ball thread takes a ball from
  the reserve, places it, moves it until it falls into a hole, and returns it. The threads run as an
  interleaving of steps, one for each section that a lock makes atomic or that touches no shared
  state; \<open>mutex_sticky\<close> and the condition variable \<open>cv_sticky\<close> are modelled in full, because a check
  and the wait that follows it are two steps.
\<close>

section \<open>Setting up the board\<close>

text \<open>The loop that looks for an empty cell at random positions \<open>pos n, pos (n + 1), ...\<close>.\<close>

partial_function (option) set_kind_loop ::
  "pong_celltype \<Rightarrow> (nat \<Rightarrow> int \<times> int) \<Rightarrow> nat \<Rightarrow> pong_board \<Rightarrow> (nat \<times> pong_board) option" where
  "set_kind_loop t pos n g =
     (let (x, y) = pos n
      in if ctype (cell g x y) \<noteq> Cell_empty then set_kind_loop t pos (n + 1) g
         else Some (n + 1, cell_upd x y (\<lambda>c. c\<lparr>ctype := t\<rparr>) g))"

fun set_kinds :: "pong_celltype \<Rightarrow> (nat \<Rightarrow> int \<times> int) \<Rightarrow> nat \<Rightarrow> nat \<Rightarrow> pong_board \<Rightarrow> (nat \<times> pong_board) option" where
  "set_kinds t pos 0 n g = Some (n, g)"
| "set_kinds t pos (Suc k) n g = Option.bind (set_kind_loop t pos n g) (\<lambda>(n1, g1). set_kinds t pos k n1 g1)"

text \<open>The checks of the sizes, and the board: sticky cells, holes, then the balls.\<close>

definition sizes_ok :: "int \<Rightarrow> int \<Rightarrow> int \<Rightarrow> int \<Rightarrow> int \<Rightarrow> int \<Rightarrow> bool" where
  "sizes_ok w h nballs nsticky nholes nthreads \<longleftrightarrow>
     \<not> (w < 2 \<or> h < 2 \<or> to_int (w * h) \<le> to_int (min nthreads nballs + nsticky + nholes)
        \<or> nthreads = 0 \<or> nballs < nthreads)"

definition setup_board :: "int \<Rightarrow> int \<Rightarrow> nat \<Rightarrow> nat \<Rightarrow> nat \<Rightarrow> (nat \<Rightarrow> int \<times> int) \<Rightarrow> pong_board option" where
  "setup_board w h nballs nsticky nholes pos =
     Option.bind (pong_board_new w h) (\<lambda>g0.
     Option.bind (set_kinds Cell_sticky pos nsticky 0 g0) (\<lambda>(n, g1).
     map_option (\<lambda>(_, g2). g2\<lparr>balls := replicate nballs pong_ball_new\<rparr>) (set_kinds Cell_hole pos nholes n g1)))"

text \<open>
  The product of the sizes is computed in an \<open>int\<close>: a board of 65537 times 65537 passes the check,
  but its vector has 131073 cells only, and the position 0, 2 is already behind them.
\<close>

lemma size_overflow_accepted:
  "sizes_ok 65537 65537 24 12 0 24 \<and> (\<exists>g. pong_board_new 65537 65537 = Some g \<and> on_board g 0 2 \<and> length (cells g) < cell_index g 0 2)"
  by (simp add: sizes_ok_def pong_board_new_def to_int_def on_board_def cell_index_def)

section \<open>The picture of the board\<close>

text \<open>
  What the signal handler prints for a cell (\<open>None\<close>: a ball on an obstacle or a hole fails an
  assertion), and the line of row \<open>y\<close>, cut at \<open>BUFSIZ - 1\<close> characters.
\<close>

definition cell_char :: "pong_cell \<Rightarrow> char option" where
  "cell_char c =
     (if cball c \<noteq> None then (if ctype c = Cell_empty \<or> ctype c = Cell_sticky then Some (CHR ''O'') else None)
      else Some (case ctype c of Cell_empty \<Rightarrow> CHR ''.'' | Cell_sticky \<Rightarrow> CHR ''_'' | Cell_obstacle \<Rightarrow> CHR ''X'' | Cell_hole \<Rightarrow> CHR ''#''))"

fun row_chars :: "pong_board \<Rightarrow> int \<Rightarrow> nat \<Rightarrow> int \<Rightarrow> string option" where
  "row_chars g y 0 x = Some []"
| "row_chars g y (Suc n) x =
     Option.bind (cell_char (cell g x y)) (\<lambda>ch. map_option ((#) ch) (row_chars g y n (x + 1)))"

definition picture_row :: "pong_board \<Rightarrow> int \<Rightarrow> string option" where
  "picture_row g y = map_option (\<lambda>cs. take 8191 cs @ [CHR 0x0A]) (row_chars g y (nat (width g)) 0)"

section \<open>Threads\<close>

text \<open>
  Where a ball thread is: it waits for a ball, tries positions, moves, is about to notify, to lock
  \<open>mutex_sticky\<close>, has it, has seen that its ball is stuck, sleeps on \<open>cv_sticky\<close>, has lost its ball
  to a hole, or has ended.
\<close>

datatype phase = Waiting | Placing nat | Running nat | Notifying nat | Locking nat | Checking nat
  | Seen_stuck nat | Sleeping nat | Fallen nat | Ended

record sim =
  pboard :: pong_board
  reserve :: "nat list"
  threads :: "phase list"
  sticky_owner :: "nat option"
  nstarted :: nat
  nrunning :: int

definition sim_start :: "pong_board \<Rightarrow> sim" where
  "sim_start g = \<lparr>pboard = g, reserve = [0..<length (balls g)], threads = [], sticky_owner = None, nstarted = 0, nrunning = 0\<rparr>"

definition set_phase :: "nat \<Rightarrow> phase \<Rightarrow> sim \<Rightarrow> sim" where
  "set_phase t p s = s\<lparr>threads := (threads s)[t := p]\<rparr>"

text \<open>
  \<open>notify_all\<close>: every sleeping thread wakes and has to take the mutex again. (A single thread may
  also wake without a notification: step \<open>woken\<close> below.)
\<close>

fun wake :: "phase \<Rightarrow> phase" where
  "wake (Sleeping i) = Locking i"
| "wake p = p"

definition take_ball :: "nat \<Rightarrow> bool \<Rightarrow> bool \<Rightarrow> sim \<Rightarrow> sim" where
  "take_ball t right down s =
     (set_phase t (Placing (hd (reserve s))) s)
       \<lparr>reserve := tl (reserve s), pboard := place_dir (hd (reserve s)) right down (pboard s)\<rparr>"

definition try_place :: "nat \<Rightarrow> nat \<Rightarrow> int \<Rightarrow> int \<Rightarrow> sim \<Rightarrow> sim" where
  "try_place t i x y s =
     (let g = place_try i x y (pboard s)
      in (if placed (balls g ! i) then set_phase t (Running i) s else s)\<lparr>pboard := g\<rparr>)"

definition after_move :: "nat \<Rightarrow> nat \<Rightarrow> int \<Rightarrow> pong_board \<Rightarrow> sim \<Rightarrow> sim" where
  "after_move t i r g s =
     (set_phase t (if 0 < r then Locking i else if r < 0 then Fallen i else Notifying i) s)\<lparr>pboard := g\<rparr>"

definition notify :: "nat \<Rightarrow> nat \<Rightarrow> sim \<Rightarrow> sim" where
  "notify t i s = s\<lparr>threads := (map wake (threads s))[t := Running i]\<rparr>"

definition check_stuck :: "nat \<Rightarrow> nat \<Rightarrow> sim \<Rightarrow> sim" where
  "check_stuck t i s =
     (if check_cell_stick i (pboard s) then set_phase t (Seen_stuck i) s
      else (set_phase t (Running i) s)\<lparr>sticky_owner := None\<rparr>)"

definition give_back :: "nat \<Rightarrow> nat \<Rightarrow> sim \<Rightarrow> sim" where
  "give_back t i s = (set_phase t Ended s)\<lparr>reserve := reserve s @ [i], nrunning := nrunning s - 1\<rparr>"

definition start_thread :: "sim \<Rightarrow> sim" where
  "start_thread s = s\<lparr>threads := threads s @ [Waiting], nstarted := nstarted s + 1, nrunning := nrunning s + 1\<rparr>"

text \<open>One step of thread \<open>t\<close>, or of the main thread that starts another one.\<close>

inductive sim_step :: "int \<Rightarrow> sim \<Rightarrow> sim \<Rightarrow> bool" for nthreads :: int where
  start: "nrunning s < nthreads \<Longrightarrow> sim_step nthreads s (start_thread s)"
| taken: "t < length (threads s) \<Longrightarrow> threads s ! t = Waiting \<Longrightarrow> reserve s \<noteq> [] \<Longrightarrow> sim_step nthreads s (take_ball t right down s)"
| tried: "t < length (threads s) \<Longrightarrow> threads s ! t = Placing i \<Longrightarrow> on_board (pboard s) x y \<Longrightarrow>
    sim_step nthreads s (try_place t i x y s)"
| moved: "t < length (threads s) \<Longrightarrow> threads s ! t = Running i \<Longrightarrow> move i (pboard s) = Some (r, g) \<Longrightarrow>
    sim_step nthreads s (after_move t i r g s)"
| notified: "t < length (threads s) \<Longrightarrow> threads s ! t = Notifying i \<Longrightarrow> sim_step nthreads s (notify t i s)"
| locked: "t < length (threads s) \<Longrightarrow> threads s ! t = Locking i \<Longrightarrow> sticky_owner s = None \<Longrightarrow>
    sim_step nthreads s ((set_phase t (Checking i) s)\<lparr>sticky_owner := Some t\<rparr>)"
| checked: "t < length (threads s) \<Longrightarrow> threads s ! t = Checking i \<Longrightarrow> sim_step nthreads s (check_stuck t i s)"
| slept: "t < length (threads s) \<Longrightarrow> threads s ! t = Seen_stuck i \<Longrightarrow>
    sim_step nthreads s ((set_phase t (Sleeping i) s)\<lparr>sticky_owner := None\<rparr>)"
| woken: "t < length (threads s) \<Longrightarrow> threads s ! t = Sleeping i \<Longrightarrow> sim_step nthreads s (set_phase t (Locking i) s)"
| returned: "t < length (threads s) \<Longrightarrow> threads s ! t = Fallen i \<Longrightarrow> sim_step nthreads s (give_back t i s)"

inductive_cases sim_stepE: "sim_step nthreads s s'"

inductive sim_reach :: "int \<Rightarrow> pong_board \<Rightarrow> sim \<Rightarrow> bool" for nthreads :: int and g :: pong_board where
  init: "sim_reach nthreads g (sim_start g)"
| step: "sim_reach nthreads g s \<Longrightarrow> sim_step nthreads s s' \<Longrightarrow> sim_reach nthreads g s'"

section \<open>The invariant\<close>

text \<open>The ball of a thread, and the balls of all: in the reserve or with a thread.\<close>

fun phase_ball :: "phase \<Rightarrow> nat list" where
  "phase_ball Waiting = []"
| "phase_ball Ended = []"
| "phase_ball (Placing i) = [i]"
| "phase_ball (Running i) = [i]"
| "phase_ball (Notifying i) = [i]"
| "phase_ball (Locking i) = [i]"
| "phase_ball (Checking i) = [i]"
| "phase_ball (Seen_stuck i) = [i]"
| "phase_ball (Sleeping i) = [i]"
| "phase_ball (Fallen i) = [i]"

definition all_balls :: "sim \<Rightarrow> nat list" where
  "all_balls s = reserve s @ concat (map phase_ball (threads s))"

text \<open>A ball is on the board exactly while its thread moves it or waits for it.\<close>

fun on_board_phase :: "phase \<Rightarrow> bool" where
  "on_board_phase (Placing i) = False"
| "on_board_phase (Fallen i) = False"
| "on_board_phase p = True"

definition phase_ok :: "pong_board \<Rightarrow> phase \<Rightarrow> bool" where
  "phase_ok g p \<longleftrightarrow> (\<forall>i \<in> set (phase_ball p). placed (balls g ! i) \<longleftrightarrow> on_board_phase p)"

fun holds_sticky :: "phase \<Rightarrow> bool" where
  "holds_sticky (Checking i) = True"
| "holds_sticky (Seen_stuck i) = True"
| "holds_sticky p = False"

definition sim_ok :: "sim \<Rightarrow> bool" where
  "sim_ok s \<longleftrightarrow> board_ok (pboard s) \<and> mset (all_balls s) = mset [0..<length (balls (pboard s))]
     \<and> (\<forall>i \<in> set (reserve s). \<not> placed (balls (pboard s) ! i)) \<and> (\<forall>p \<in> set (threads s). phase_ok (pboard s) p)
     \<and> (\<forall>t < length (threads s). holds_sticky (threads s ! t) \<longleftrightarrow> sticky_owner s = Some t)
     \<and> (\<forall>t. sticky_owner s = Some t \<longrightarrow> t < length (threads s))"

lemma mset_concat_update: "t < length xs \<Longrightarrow> mset (concat (xs[t := y])) + mset (xs ! t) = mset (concat xs) + mset y"
proof (induction xs arbitrary: t)
  case (Cons x xs)
  then show ?case by (cases t) (auto simp: add_ac)
qed simp

lemma distinct_concat_nth:
  "distinct (concat xs) \<Longrightarrow> t < length xs \<Longrightarrow> u < length xs \<Longrightarrow> t \<noteq> u \<Longrightarrow> set (xs ! t) \<inter> set (xs ! u) = {}"
proof (induction xs arbitrary: t u)
  case (Cons x xs)
  have sub: "set (xs ! v) \<inter> set x = {}" if "v < length xs" for v
    using nth_mem [OF that] Cons.prems(1) by auto
  show ?case
  proof (cases t)
    case 0 then show ?thesis using sub Cons.prems(3,4) by (cases u) auto
  next
    case (Suc t')
    then show ?thesis using Cons.IH [of t'] sub Cons.prems by (cases u) auto
  qed
qed simp

lemma phase_update: "(map phase_ball ts)[t := phase_ball p] = map phase_ball (ts[t := p])"
  by (simp add: map_update)

lemma sim_okD:
  assumes "sim_ok s"
  shows "board_ok (pboard s)" and "distinct (all_balls s)" and "set (all_balls s) = {..<length (balls (pboard s))}"
    and "i \<in> set (reserve s) \<Longrightarrow> i < length (balls (pboard s)) \<and> \<not> placed (balls (pboard s) ! i)"
    and "t < length (threads s) \<Longrightarrow> i \<in> set (phase_ball (threads s ! t)) \<Longrightarrow> i < length (balls (pboard s))
      \<and> (placed (balls (pboard s) ! i) \<longleftrightarrow> on_board_phase (threads s ! t)) \<and> i \<notin> set (reserve s)"
    and "t < length (threads s) \<Longrightarrow> u < length (threads s) \<Longrightarrow> t \<noteq> u \<Longrightarrow>
      set (phase_ball (threads s ! t)) \<inter> set (phase_ball (threads s ! u)) = {}"
proof -
  have m: "mset (all_balls s) = mset [0..<length (balls (pboard s))]" using assms by (simp add: sim_ok_def)
  show d: "distinct (all_balls s)" using m by (metis distinct_upt mset_eq_imp_distinct_iff)
  show all: "set (all_balls s) = {..<length (balls (pboard s))}"
    using m by (metis atLeast0LessThan set_mset_mset set_upt)
  show "board_ok (pboard s)" using assms by (simp add: sim_ok_def)
  show "i \<in> set (reserve s) \<Longrightarrow> i < length (balls (pboard s)) \<and> \<not> placed (balls (pboard s) ! i)"
    using assms all by (auto simp: sim_ok_def all_balls_def)
  show "i < length (balls (pboard s)) \<and> (placed (balls (pboard s) ! i) \<longleftrightarrow> on_board_phase (threads s ! t)) \<and> i \<notin> set (reserve s)"
    if "t < length (threads s)" "i \<in> set (phase_ball (threads s ! t))"
  proof -
    have "i \<in> set (concat (map phase_ball (threads s)))" using that by (auto intro!: bexI [of _ "threads s ! t"])
    then have "i \<in> set (all_balls s)" "i \<notin> set (reserve s)" using d by (auto simp: all_balls_def)
    moreover have "phase_ok (pboard s) (threads s ! t)" using assms that(1) by (simp add: sim_ok_def)
    ultimately show ?thesis using that all by (auto simp: phase_ok_def)
  qed
  show "set (phase_ball (threads s ! t)) \<inter> set (phase_ball (threads s ! u)) = {}"
    if "t < length (threads s)" "u < length (threads s)" "t \<noteq> u"
    using distinct_concat_nth [of "map phase_ball (threads s)" t u] d that by (simp add: all_balls_def)
qed

text \<open>A step of one thread that keeps its ball and the state of \<open>mutex_sticky\<close>.\<close>

lemma sim_ok_thread:
  assumes ok: "sim_ok s" and t: "t < length (threads s)" and p: "phase_ball p = phase_ball (threads s ! t)"
    and g: "board_ok g" "length (balls g) = length (balls (pboard s))" "phase_ok g p"
    and others: "\<And>k. k < length (balls g) \<Longrightarrow> k \<notin> set (phase_ball p) \<Longrightarrow> placed (balls g ! k) = placed (balls (pboard s) ! k)"
    and own: "own = (if holds_sticky p then Some t else if holds_sticky (threads s ! t) then None else sticky_owner s)"
    and free: "holds_sticky p \<Longrightarrow> \<not> holds_sticky (threads s ! t) \<Longrightarrow> sticky_owner s = None"
  shows "sim_ok ((set_phase t p s)\<lparr>pboard := g, sticky_owner := own\<rparr>)" (is "sim_ok ?s")
proof -
  have th: "threads ?s = (threads s)[t := p]" by (simp add: set_phase_def)
  have "map phase_ball (threads ?s) = map phase_ball (threads s)"
    unfolding th phase_update [symmetric] p by (metis list_update_id map_update)
  then have "all_balls ?s = all_balls s" by (simp add: all_balls_def set_phase_def)
  then have "mset (all_balls ?s) = mset [0..<length (balls (pboard ?s))]" using ok g(2) by (simp add: sim_ok_def)
  moreover have "\<not> placed (balls g ! i)" if "i \<in> set (reserve s)" for i
    using sim_okD(4) [OF ok that] sim_okD(5) [OF ok t, of i] others [of i] that p g(2) by auto
  moreover have "phase_ok g q" if q: "q \<in> set (threads ?s)" for q
  proof -
    obtain u where u: "u < length (threads s)" "q = (threads s)[t := p] ! u" using q unfolding th by (auto simp: in_set_conv_nth)
    show ?thesis
    proof (cases "u = t")
      case True then show ?thesis using u t g(3) by simp
    next
      case False
      then show ?thesis using u sim_okD(6) [OF ok u(1) t False] sim_okD(5) [OF ok u(1)] others p g(2)
        by (auto simp: phase_ok_def)
    qed
  qed
  moreover have "holds_sticky (threads ?s ! u) \<longleftrightarrow> own = Some u" if "u < length (threads s)" for u
  proof -
    have h: "holds_sticky (threads s ! v) \<longleftrightarrow> sticky_owner s = Some v" if "v < length (threads s)" for v
      using ok that by (simp add: sim_ok_def)
    show ?thesis using h [OF that] h [OF t] own free t that unfolding th by (auto simp: nth_list_update)
  qed
  moreover have "\<forall>u. own = Some u \<longrightarrow> u < length (threads s)" using ok own t by (auto simp: sim_ok_def)
  ultimately show ?thesis using g(1) by (simp add: sim_ok_def set_phase_def)
qed

text \<open>The direction of a ball that is being placed is set before its position.\<close>

definition aimed :: "sim \<Rightarrow> bool" where
  "aimed s \<longleftrightarrow> (\<forall>t < length (threads s). \<forall>i. threads s ! t = Placing i \<longrightarrow> dir_ok (balls (pboard s) ! i))"

lemma sim_ok_take:
  assumes ok: "sim_ok s" and t: "t < length (threads s)" "threads s ! t = Waiting" and r: "reserve s \<noteq> []"
  shows "sim_ok (take_ball t right down s)" (is "sim_ok ?s")
proof -
  define i where "i = hd (reserve s)"
  have ri: "reserve s = i # tl (reserve s)" using r by (simp add: i_def)
  have i: "i < length (balls (pboard s))" "\<not> placed (balls (pboard s) ! i)"
    using sim_okD(4) [OF ok, of i] ri by (metis list.set_intros(1))+
  define g where "g = place_dir i right down (pboard s)"
  have g: "board_ok g" "length (balls g) = length (balls (pboard s))" "placed (balls g ! k) = placed (balls (pboard s) ! k)" for k
    using board_ok_unplaced [OF sim_okD(1) [OF ok] i] i(1) by (auto simp: g_def place_dir_def nth_list_update)
  have s: "?s = s\<lparr>threads := (threads s)[t := Placing i], reserve := tl (reserve s), pboard := g\<rparr>"
    by (simp add: take_ball_def set_phase_def i_def g_def)
  have "mset (all_balls ?s) = mset (all_balls s)"
    using mset_concat_update [of t "map phase_ball (threads s)" "[i]"] t ri
    by (simp add: s all_balls_def phase_update [of _ _ "Placing i", simplified]) (metis add_mset_add_single mset.simps(2) union_mset_add_mset_right)
  moreover have "phase_ok g q" if q: "q \<in> set ((threads s)[t := Placing i])" for q
    using set_update_subset_insert [of "threads s" t "Placing i"] q ok i g by (auto simp: sim_ok_def phase_ok_def)
  moreover have "holds_sticky ((threads s)[t := Placing i] ! u) \<longleftrightarrow> holds_sticky (threads s ! u)" if "u < length (threads s)" for u
    using t that by (cases "u = t") auto
  moreover have "\<not> placed (balls g ! k)" if "k \<in> set (tl (reserve s))" for k
    using sim_okD(4) [OF ok, of k] that g(3) r by (simp add: list.set_sel(2))
  ultimately show ?thesis using ok g(1,2) by (simp add: s sim_ok_def)
qed

lemma sim_ok_give_back:
  assumes ok: "sim_ok s" and t: "t < length (threads s)" "threads s ! t = Fallen i"
  shows "sim_ok (give_back t i s)"
proof -
  have s: "give_back t i s = s\<lparr>threads := (threads s)[t := Ended], reserve := reserve s @ [i], nrunning := nrunning s - 1\<rparr>"
    by (simp add: give_back_def set_phase_def)
  have "mset (all_balls (give_back t i s)) = mset (all_balls s)"
    using mset_concat_update [of t "map phase_ball (threads s)" "[]"] t
    by (simp add: s all_balls_def phase_update [of _ _ Ended, simplified])
  moreover have "phase_ok (pboard s) q" if q: "q \<in> set ((threads s)[t := Ended])" for q
    using set_update_subset_insert [of "threads s" t Ended] q ok by (auto simp: sim_ok_def phase_ok_def)
  moreover have "holds_sticky ((threads s)[t := Ended] ! u) \<longleftrightarrow> holds_sticky (threads s ! u)" if "u < length (threads s)" for u
    using t that by (cases "u = t") auto
  moreover have "\<not> placed (balls (pboard s) ! i)" using sim_okD(5) [OF ok t(1), of i] t(2) by simp
  ultimately show ?thesis using ok by (auto simp: s sim_ok_def)
qed

lemma wake_simps [simp]: "phase_ball (wake p) = phase_ball p" "on_board_phase (wake p) = on_board_phase p"
  "holds_sticky (wake p) = holds_sticky p" "phase_ok g (wake p) = phase_ok g p"
  by (cases p; simp add: phase_ok_def)+

lemma sim_ok_wake: "sim_ok s \<Longrightarrow> sim_ok (s\<lparr>threads := map wake (threads s)\<rparr>)"
  by (auto simp: sim_ok_def all_balls_def comp_def)

lemma sim_ok_start: "sim_ok s \<Longrightarrow> sim_ok (start_thread s)"
  by (auto simp: sim_ok_def start_thread_def all_balls_def phase_ok_def nth_append less_Suc_eq)

lemma move_others:
  assumes ok: "board_ok g" and i: "i < length (balls g)" "placed (balls g ! i)" and m: "move i g = Some (r, g')"
    and k: "\<not> placed (balls g ! k)"
  shows "balls g' ! k = balls g ! k"
proof -
  obtain r' bs cs n where e: "move_effect i g = (r', bs, cs, n)" by (cases "move_effect i g")
  then have "g' = patch bs cs n g" using move_is_patch [OF ok i] m by simp
  moreover have "k \<notin> fst ` set bs" using effect_footprint(3) [OF ok i e, of k] k by blast
  ultimately show ?thesis by (simp add: patch_reads(1))
qed

lemma sim_ok_moved:
  assumes ok: "sim_ok s" and t: "t < length (threads s)" "threads s ! t = Running i" and m: "move i (pboard s) = Some (r, g)"
  shows "sim_ok (after_move t i r g s)"
proof -
  have i: "i < length (balls (pboard s))" "placed (balls (pboard s) ! i)" using sim_okD(5) [OF ok t(1), of i] t(2) by auto
  define p where "p = (if 0 < r then Locking i else if r < 0 then Fallen i else Notifying i)"
  have g: "board_ok g" "length (balls g) = length (balls (pboard s))" "placed (balls g ! i) \<longleftrightarrow> r \<noteq> - 1" "r \<in> {- 1, 0, 1}"
    "\<And>k. k < length (balls g) \<Longrightarrow> k \<noteq> i \<Longrightarrow> placed (balls g ! k) = placed (balls (pboard s) ! k)"
    using move_ok [OF sim_okD(1) [OF ok] i] m by (auto simp: same_board_def)
  have "sim_ok ((set_phase t p s)\<lparr>pboard := g, sticky_owner := sticky_owner s\<rparr>)"
    by (rule sim_ok_thread [OF ok t(1)]) (use g t(2) in \<open>auto simp: p_def phase_ok_def\<close>)
  moreover have "(set_phase t p s)\<lparr>pboard := g, sticky_owner := sticky_owner s\<rparr> = after_move t i r g s"
    by (simp add: after_move_def p_def set_phase_def)
  ultimately show ?thesis by simp
qed

lemma sim_ok_tried:
  assumes ok: "sim_ok s" and a: "aimed s" and t: "t < length (threads s)" "threads s ! t = Placing i"
    and xy: "on_board (pboard s) x y"
  shows "sim_ok (try_place t i x y s)"
proof -
  have i: "i < length (balls (pboard s))" "\<not> placed (balls (pboard s) ! i)" "dir_ok (balls (pboard s) ! i)"
    using sim_okD(5) [OF ok t(1), of i] t(2) a t(1) by (auto simp: aimed_def)
  define g p where "g = place_try i x y (pboard s)" and "p = (if placed (balls g ! i) then Running i else Placing i)"
  note g = place_try_ok [OF sim_okD(1) [OF ok] i(1,2) xy i(3)]
  have p: "phase_ball p = [i]" "\<not> holds_sticky p" "on_board_phase p \<longleftrightarrow> placed (balls g ! i)" by (simp_all add: p_def)
  have "sim_ok ((set_phase t p s)\<lparr>pboard := g, sticky_owner := sticky_owner s\<rparr>)"
    by (rule sim_ok_thread [OF ok t(1)]) (use g t(2) p in \<open>auto simp: phase_ok_def g_def [symmetric]\<close>)
  moreover have "(set_phase t p s)\<lparr>pboard := g, sticky_owner := sticky_owner s\<rparr> = try_place t i x y s"
    using t by (auto simp: try_place_def p_def g_def set_phase_def Let_def list_update_same_conv)
  ultimately show ?thesis by simp
qed

text \<open>Steps that change only the phase of a thread that has its ball on the board.\<close>

lemma sim_ok_phase:
  assumes ok: "sim_ok s" and t: "t < length (threads s)" and p: "phase_ball p = phase_ball (threads s ! t)"
    "on_board_phase p = on_board_phase (threads s ! t)"
    and own: "own = (if holds_sticky p then Some t else if holds_sticky (threads s ! t) then None else sticky_owner s)"
    and free: "holds_sticky p \<Longrightarrow> \<not> holds_sticky (threads s ! t) \<Longrightarrow> sticky_owner s = None"
  shows "sim_ok ((set_phase t p s)\<lparr>sticky_owner := own\<rparr>)"
proof -
  have "phase_ok (pboard s) p" using sim_okD(5) [OF ok t] p by (auto simp: phase_ok_def)
  then have "sim_ok ((set_phase t p s)\<lparr>pboard := pboard s, sticky_owner := own\<rparr>)"
    by (intro sim_ok_thread [OF ok t p(1) sim_okD(1) [OF ok] _ _ _ own free]) auto
  moreover have "(set_phase t p s)\<lparr>pboard := pboard s, sticky_owner := own\<rparr> = (set_phase t p s)\<lparr>sticky_owner := own\<rparr>"
    by (simp add: set_phase_def)
  ultimately show ?thesis by simp
qed

lemma sim_ok_step:
  assumes "sim_step nthreads s s'" and ok: "sim_ok s" and a: "aimed s"
  shows "sim_ok s'"
  using assms(1)
proof cases
  case start then show ?thesis using sim_ok_start ok by simp
next
  case taken then show ?thesis using sim_ok_take ok by simp
next
  case tried then show ?thesis using sim_ok_tried ok a by simp
next
  case moved then show ?thesis using sim_ok_moved ok by simp
next
  case (notified t i)
  have t: "t < length (threads (s\<lparr>threads := map wake (threads s)\<rparr>))" "threads (s\<lparr>threads := map wake (threads s)\<rparr>) ! t = Notifying i"
    using notified by simp_all
  have "sim_ok ((set_phase t (Running i) (s\<lparr>threads := map wake (threads s)\<rparr>))\<lparr>sticky_owner := sticky_owner s\<rparr>)"
    by (rule sim_ok_phase [OF sim_ok_wake [OF ok] t(1)]) (simp_all add: notified)
  then show ?thesis using notified by (simp add: notify_def set_phase_def)
next
  case (locked t i)
  then show ?thesis using sim_ok_phase [OF ok, of t "Checking i" "Some t"] by simp
next
  case (checked t i)
  then have own: "sticky_owner s = Some t" using ok by (auto simp: sim_ok_def)
  have "sim_ok ((set_phase t (Seen_stuck i) s)\<lparr>sticky_owner := sticky_owner s\<rparr>)"
    by (rule sim_ok_phase [OF ok]) (use checked own in simp_all)
  moreover have "(set_phase t (Seen_stuck i) s)\<lparr>sticky_owner := sticky_owner s\<rparr> = set_phase t (Seen_stuck i) s"
    by (simp add: set_phase_def)
  moreover have "sim_ok ((set_phase t (Running i) s)\<lparr>sticky_owner := None\<rparr>)"
    by (rule sim_ok_phase [OF ok]) (use checked in simp_all)
  ultimately show ?thesis using checked by (simp add: check_stuck_def)
next
  case (slept t i)
  then show ?thesis using sim_ok_phase [OF ok, of t "Sleeping i" None] by simp
next
  case (woken t i)
  have "sim_ok ((set_phase t (Locking i) s)\<lparr>sticky_owner := sticky_owner s\<rparr>)"
    by (rule sim_ok_phase [OF ok]) (use woken in simp_all)
  then show ?thesis using woken by (simp add: set_phase_def)
next
  case returned then show ?thesis using sim_ok_give_back ok by simp
qed

lemma nth_upd_any: "balls (upd_ball i f g) ! k = (if k = i \<and> i < length (balls g) then f (balls g ! i) else balls g ! k)"
  by (cases "i < length (balls g)") (auto simp: nth_list_update list_update_beyond not_less)

lemma place_dir_ok: "i < length (balls g) \<Longrightarrow> dir_ok (balls (place_dir i r d g) ! i)"
  by (simp add: place_dir_def dir_ok_def)

lemma aimed_step:
  assumes "sim_step nthreads s s'" and ok: "sim_ok s" and a: "aimed s"
  shows "aimed s'"
  using assms(1)
proof cases
  case start then show ?thesis using a by (auto simp: aimed_def start_thread_def nth_append less_Suc_eq)
next
  case (taken t right down)
  have "hd (reserve s) < length (balls (pboard s))" using sim_okD(4) [OF ok, of "hd (reserve s)"] taken by simp
  moreover have "dir_ok (balls (place_dir i right down g) ! k)" if "dir_ok (balls g ! k)" for i k g
    using that unfolding place_dir_def nth_upd_any by (auto simp: dir_ok_def)
  ultimately show ?thesis using a taken place_dir_ok [of "hd (reserve s)" "pboard s" right down]
    by (auto simp: aimed_def take_ball_def set_phase_def nth_list_update)
next
  case (tried t i x y)
  have "dir_ok (balls (place_try i x y g) ! k)" if "dir_ok (balls g ! k)" for k g
    using that by (auto simp: place_try_def nth_upd_any dir_ok_def simp del: balls_simps(2))
  then show ?thesis using a tried by (auto simp: aimed_def try_place_def set_phase_def Let_def nth_list_update)
next
  case (moved t i r g)
  have i: "i < length (balls (pboard s))" "placed (balls (pboard s) ! i)" using sim_okD(5) [OF ok, of t i] moved by auto
  have "balls g ! k = balls (pboard s) ! k" if "u < length (threads s)" "threads s ! u = Placing k" for u k
    using move_others [OF sim_okD(1) [OF ok] i moved(4)] sim_okD(5) [OF ok that(1), of k] that by simp
  then show ?thesis using a moved by (auto simp: aimed_def after_move_def set_phase_def nth_list_update)
next
  case (notified t i)
  have "wake p = Placing k \<longleftrightarrow> p = Placing k" for p k by (cases p) auto
  then show ?thesis using a notified by (auto simp: aimed_def notify_def nth_list_update)
next
  case locked then show ?thesis using a by (auto simp: aimed_def set_phase_def nth_list_update)
next
  case checked then show ?thesis using a by (auto simp: aimed_def check_stuck_def set_phase_def nth_list_update)
next
  case slept then show ?thesis using a by (auto simp: aimed_def set_phase_def nth_list_update)
next
  case woken then show ?thesis using a by (auto simp: aimed_def set_phase_def nth_list_update)
next
  case returned then show ?thesis using a by (auto simp: aimed_def give_back_def set_phase_def nth_list_update)
qed

section \<open>Reachable states\<close>

lemma cell_upd_kind_ok:
  assumes "board_ok g" "balls g = []" "on_board g x y"
  shows "board_ok (cell_upd x y (\<lambda>c. c\<lparr>ctype := t\<rparr>) g)" and "balls (cell_upd x y (\<lambda>c. c\<lparr>ctype := t\<rparr>) g) = []"
proof -
  let ?h = "cell_upd x y (\<lambda>c. c\<lparr>ctype := t\<rparr>) g"
  show b: "balls ?h = []" using assms(2) by (simp add: cell_upd_def)
  have s: "shape_ok ?h" using board_okD(1) [OF assms(1)] assms(3) by (simp add: shape_ok_def cell_upd_def)
  have on: "on_board ?h x' y' = on_board g x' y'" for x' y' by (simp add: on_board_def cell_upd_def)
  have none: "cball (cell g x' y') = None" if "on_board g x' y'" for x' y'
    using board_okD(4) [OF assms(1) that] assms(2) by (cases "cball (cell g x' y')") auto
  have "cball (cell ?h x' y') = None" if "on_board g x' y'" for x' y'
    using none [OF that] none [OF assms(3)] cell_index_bound [OF board_okD(1) [OF assms(1)] assms(3)] assms(3) that
    by (auto simp: cell_def cell_upd_def on_board_def cell_index_def nth_list_update)
  then show "board_ok ?h" using s b on by (auto simp: board_ok_def cell_ok_def)
qed

lemma set_kind_loop_ok:
  assumes "set_kind_loop t pos n g = Some r"
  shows "board_ok g \<longrightarrow> balls g = [] \<longrightarrow> t \<noteq> Cell_obstacle \<longrightarrow> board_ok (snd r) \<and> balls (snd r) = []"
proof (rule set_kind_loop.raw_induct [of "\<lambda>t pos n g r. board_ok g \<longrightarrow> balls g = [] \<longrightarrow> t \<noteq> Cell_obstacle \<longrightarrow>
    board_ok (snd r) \<and> balls (snd r) = []", OF _ assms])
  fix f t pos n g r
  assume IH: "\<And>t pos n g r. f t pos n g = Some r \<Longrightarrow>
      board_ok g \<longrightarrow> balls g = [] \<longrightarrow> t \<noteq> Cell_obstacle \<longrightarrow> board_ok (snd r) \<and> balls (snd r) = []"
    and r: "(let (x, y) = pos n in if ctype (cell g x y) \<noteq> Cell_empty then f t pos (n + 1) g
         else Some (n + 1, cell_upd x y (\<lambda>c. c\<lparr>ctype := t\<rparr>) g)) = Some r"
  obtain x y where p: "pos n = (x, y)" by (cases "pos n")
  show "board_ok g \<longrightarrow> balls g = [] \<longrightarrow> t \<noteq> Cell_obstacle \<longrightarrow> board_ok (snd r) \<and> balls (snd r) = []"
  proof (cases "ctype (cell g x y) = Cell_empty")
    case True
    then have "board_ok g \<Longrightarrow> on_board g x y" using board_okD(5) [of g x y] by (cases "on_board g x y") auto
    then show ?thesis using r True p cell_upd_kind_ok [of g x y t] by auto
  next
    case False
    then show ?thesis using r p IH [of t pos "n + 1" g r] by simp
  qed
qed

lemma set_kinds_ok: "set_kinds t pos k n g = Some r \<Longrightarrow> t \<noteq> Cell_obstacle \<Longrightarrow> board_ok g \<Longrightarrow> balls g = [] \<Longrightarrow>
    board_ok (snd r) \<and> balls (snd r) = []"
proof (induction k arbitrary: n g)
  case (Suc k)
  then show ?case using set_kind_loop_ok [of t pos n g] by (auto simp: bind_eq_Some_conv)
qed auto

lemma setup_board_ok:
  assumes "setup_board w h nballs nsticky nholes pos = Some g" and "2 \<le> w" "2 \<le> h" "w * h < 2 ^ 31"
  shows "board_ok g" and "balls g = replicate nballs pong_ball_new"
proof -
  obtain g0 n g1 m g2 where g0: "pong_board_new w h = Some g0" and g: "set_kinds Cell_sticky pos nsticky 0 g0 = Some (n, g1)"
    "set_kinds Cell_hole pos nholes n g1 = Some (m, g2)" "g = g2\<lparr>balls := replicate nballs pong_ball_new\<rparr>"
    using assms(1) by (auto simp: setup_board_def bind_eq_Some_conv)
  have "board_ok g1" "balls g1 = []"
    using set_kinds_ok [OF g(1)] board_new_ok [OF g0] assms(2-4) by auto
  then have g2: "board_ok g2" "balls g2 = []" using set_kinds_ok [OF g(2)] by auto
  show "balls g = replicate nballs pong_ball_new" by (simp add: g(3))
  show "board_ok g" unfolding g(3) by (rule board_ok_new_balls [OF g2])
qed

lemma sim_reach_ok:
  assumes "sim_reach nthreads g s" and g: "board_ok g" "\<And>i. i < length (balls g) \<Longrightarrow> \<not> placed (balls g ! i)"
  shows "sim_ok s \<and> aimed s \<and> length (balls (pboard s)) = length (balls g)"
  using assms(1)
proof induction
  case init
  then show ?case using g by (auto simp: sim_ok_def sim_start_def all_balls_def aimed_def)
next
  case (step s s')
  then have "length (balls (pboard s')) = length (balls (pboard s))"
  proof -
    have ok: "sim_ok s" using step by simp
    from \<open>sim_step nthreads s s'\<close> show ?thesis
    proof cases
      case (moved t i r g')
      have i: "i < length (balls (pboard s))" "placed (balls (pboard s) ! i)" using sim_okD(5) [OF ok, of t i] moved by auto
      then show ?thesis using move_ok [OF sim_okD(1) [OF ok] i] moved by (auto simp: after_move_def set_phase_def same_board_def)
    qed (auto simp: start_thread_def take_ball_def set_phase_def place_dir_def try_place_def place_try_def Let_def
        notify_def check_stuck_def give_back_def)
  qed
  then show ?case using step sim_ok_step aimed_step by simp
qed

text \<open>
  C23: On a board of at least 2 times 2 whose number of cells fits into an \<open>int\<close> (larger ones pass the
  program's own check but overflow, \<open>size_overflow_accepted\<close> above), whatever the interleaving of the
  ball threads, the random choices, the moment each thread runs and the wake-ups, notified or
  spurious, the simulation stays sound: cells and balls name each other and balls are on free cells
  only; every ball is in the reserve or with exactly one thread; no assertion of \<open>move\<close> fails and
  every row lock it takes exists; and a ball thread holds \<open>mutex_sticky\<close> exactly when it is recorded
  as the owner.
\<close>

theorem simulation_safe:
  assumes "setup_board w h nballs nsticky nholes pos = Some g" and "2 \<le> w" and "2 \<le> h" and "w * h < 2 ^ 31"
    and "sim_reach nthreads g s"
  shows "board_ok (pboard s) \<and> mset (all_balls s) = mset [0..<nballs]
    \<and> (\<forall>t < length (threads s). \<forall>i. threads s ! t = Running i \<longrightarrow> move i (pboard s) \<noteq> None)
    \<and> (\<forall>t < length (threads s). holds_sticky (threads s ! t) \<longleftrightarrow> sticky_owner s = Some t)"
proof -
  note g = setup_board_ok [OF assms(1-4)]
  have s: "sim_ok s" "length (balls (pboard s)) = nballs"
    using sim_reach_ok [OF assms(5) g(1)] g(2) by (simp_all add: pong_ball_new_def)
  have "move i (pboard s) \<noteq> None" if "t < length (threads s)" "threads s ! t = Running i" for t i
  proof -
    have "i < length (balls (pboard s))" "placed (balls (pboard s) ! i)" using sim_okD(5) [OF s(1) that(1), of i] that(2) by auto
    then show ?thesis using move_ok [OF sim_okD(1) [OF s(1)]] by fastforce
  qed
  then show ?thesis using s by (auto simp: sim_ok_def)
qed

section \<open>Concrete runs\<close>

text \<open>Thread \<open>t\<close> moves its ball \<open>i\<close>, as a function.\<close>

definition go :: "nat \<Rightarrow> nat \<Rightarrow> sim \<Rightarrow> sim" where
  "go t i s = (case move i (pboard s) of None \<Rightarrow> s | Some (r, g) \<Rightarrow> after_move t i r g s)"

lemma go_step: "t < length (threads s) \<Longrightarrow> threads s ! t = Running i \<Longrightarrow> move i (pboard s) \<noteq> None \<Longrightarrow> sim_step n s (go t i s)"
  by (auto simp: go_def intro: sim_step.moved)

definition ex_board :: pong_board where
  "ex_board = (the (pong_board_new 2 3))\<lparr>balls := [pong_ball_new]\<rparr>"

definition ex_sim :: sim where
  "ex_sim = try_place 0 0 0 0 (take_ball 0 True True (start_thread (sim_start ex_board)))"

lemma ex_setup: "setup_board 2 3 1 0 0 (\<lambda>_. (0, 0)) = Some ex_board"
  by (simp add: setup_board_def ex_board_def pong_board_new_def to_int_id)

lemma ex_sim_reach: "sim_reach 1 ex_board ex_sim"
proof -
  let ?s1 = "start_thread (sim_start ex_board)" and ?s2 = "take_ball 0 True True (start_thread (sim_start ex_board))"
  have "sim_reach 1 ex_board ?s1" by (rule sim_reach.step [OF sim_reach.init sim_step.start]) code_simp
  then have "sim_reach 1 ex_board ?s2" by (rule sim_reach.step) (rule sim_step.taken; code_simp)
  then show ?thesis unfolding ex_sim_def by (rule sim_reach.step) (rule sim_step.tried; code_simp)
qed

theorem simulation_safe_witness:
  "threads ex_sim ! 0 = Running 0 \<and> board_ok (pboard ex_sim) \<and> mset (all_balls ex_sim) = {#0#}
    \<and> move 0 (pboard ex_sim) \<noteq> None"
proof -
  have "threads ex_sim = [Running 0]" by code_simp
  then show ?thesis using simulation_safe [OF ex_setup _ _ _ ex_sim_reach] by auto
qed

text \<open>
  A notification can be missed: thread 0 has seen its ball stuck, thread 1 frees the ball and
  notifies nobody, and thread 0 goes to sleep although its ball can move.
\<close>

definition lost_board :: pong_board where
  "lost_board = (cell_upd 1 1 (\<lambda>c. c\<lparr>ctype := Cell_sticky\<rparr>) (the (pong_board_new 3 3)))\<lparr>balls := [pong_ball_new, pong_ball_new]\<rparr>"

definition lost_1 :: sim where
  "lost_1 = try_place 1 1 2 2 (take_ball 1 False False (try_place 0 0 0 0 (take_ball 0 True True
     (start_thread (start_thread (sim_start lost_board))))))"

definition lost_2 :: sim where
  "lost_2 = check_stuck 0 0 ((set_phase 0 (Checking 0) (go 0 0 lost_1))\<lparr>sticky_owner := Some 0\<rparr>)"

definition lost_3 :: sim where
  "lost_3 = (set_phase 0 (Sleeping 0) (notify 1 1 (go 1 1 lost_2)))\<lparr>sticky_owner := None\<rparr>"

lemma lost_1_reach: "sim_reach 2 lost_board lost_1"
proof -
  let ?s = "start_thread (start_thread (sim_start lost_board))"
  have "sim_reach 2 lost_board (start_thread (sim_start lost_board))"
    by (rule sim_reach.step [OF sim_reach.init sim_step.start]) code_simp
  then have "sim_reach 2 lost_board ?s" by (rule sim_reach.step) (rule sim_step.start; code_simp)
  then have "sim_reach 2 lost_board (take_ball 0 True True ?s)" by (rule sim_reach.step) (rule sim_step.taken; code_simp)
  then have "sim_reach 2 lost_board (try_place 0 0 0 0 (take_ball 0 True True ?s))"
    by (rule sim_reach.step) (rule sim_step.tried; code_simp)
  then have "sim_reach 2 lost_board (take_ball 1 False False (try_place 0 0 0 0 (take_ball 0 True True ?s)))"
    by (rule sim_reach.step) (rule sim_step.taken; code_simp)
  then show ?thesis unfolding lost_1_def by (rule sim_reach.step) (rule sim_step.tried; code_simp)
qed

lemma lost_3_reach: "sim_reach 2 lost_board lost_3"
proof -
  have "sim_reach 2 lost_board (go 0 0 lost_1)" by (rule sim_reach.step [OF lost_1_reach]) (rule go_step; code_simp)
  then have "sim_reach 2 lost_board ((set_phase 0 (Checking 0) (go 0 0 lost_1))\<lparr>sticky_owner := Some 0\<rparr>)"
    by (rule sim_reach.step) (rule sim_step.locked; code_simp)
  then have "sim_reach 2 lost_board lost_2" unfolding lost_2_def by (rule sim_reach.step) (rule sim_step.checked; code_simp)
  then have "sim_reach 2 lost_board (go 1 1 lost_2)" by (rule sim_reach.step) (rule go_step; code_simp)
  then have "sim_reach 2 lost_board (notify 1 1 (go 1 1 lost_2))" by (rule sim_reach.step) (rule sim_step.notified; code_simp)
  then show ?thesis unfolding lost_3_def by (rule sim_reach.step) (rule sim_step.slept; code_simp)
qed

lemma missed_notification:
  "sim_reach 2 lost_board lost_3" "threads lost_3 = [Sleeping 0, Running 1]" "\<not> check_cell_stick 0 (pboard lost_3)"
  by (rule lost_3_reach) code_simp+

end
