(* ===== verification/PongHttp.thy ===== *)
theory PongHttp
  imports Prelude "HOL-Library.Char_ord"
begin

text \<open>
  The HTTP connection of the pong client (\<open>pset6/pong61.cc\<close>): sending a request, parsing the
  response headers line by line as the data arrives, and reading the body. The first \<open>len_\<close> bytes
  of the response buffer are a list; the byte behind them is the NUL the code keeps there. What
  \<open>read\<close> and \<open>write\<close> return is a list of answers. A store outside the buffer of \<open>BUFSIZ\<close> bytes is
  the outcome \<open>Overflow\<close>.
\<close>

section \<open>Strings\<close>

type_synonym bytes = "u8 list"

definition ascii :: "string \<Rightarrow> bytes" where
  "ascii s = map of_char s"

definition BUFSIZ :: nat where "BUFSIZ = 8192"

text \<open>The C string that starts a block of bytes.\<close>

definition c_string :: "bytes \<Rightarrow> bytes" where
  "c_string bs = takeWhile (\<lambda>b. b \<noteq> 0) bs"

definition is_space :: "u8 \<Rightarrow> bool" where
  "is_space b \<longleftrightarrow> b = 32 \<or> 9 \<le> b \<and> b \<le> 13"

definition to_lower :: "u8 \<Rightarrow> u8" where
  "to_lower b = (if 65 \<le> b \<and> b \<le> 90 then b + 32 else b)"

text \<open>The value of a digit in a base, as \<open>strtoul\<close> reads it.\<close>

definition digit_in :: "int \<Rightarrow> u8 \<Rightarrow> int option" where
  "digit_in base b =
     (let d = (if 48 \<le> b \<and> b \<le> 57 then uint b - 48
               else if 97 \<le> to_lower b \<and> to_lower b \<le> 122 then uint (to_lower b) - 87 else base)
      in if d < base then Some d else None)"

fun read_digits :: "int \<Rightarrow> int \<Rightarrow> bytes \<Rightarrow> int \<times> bytes" where
  "read_digits base v [] = (v, [])"
| "read_digits base v (b # bs) =
     (case digit_in base b of Some d \<Rightarrow> read_digits base (v * base + d) bs | None \<Rightarrow> (v, b # bs))"

definition read_sign :: "bytes \<Rightarrow> bool \<times> bytes" where
  "read_sign bs = (case bs of b # rest \<Rightarrow> if b = 45 then (True, rest) else if b = 43 then (False, rest) else (False, bs)
     | [] \<Rightarrow> (False, bs))"

text \<open>The conversion \<open>%d\<close> of \<open>sscanf\<close>: the number and what follows it.\<close>

definition scan_int :: "bytes \<Rightarrow> (int \<times> bytes) option" where
  "scan_int bs =
     (let (neg, s) = read_sign (dropWhile is_space bs); (v, rest) = read_digits 10 0 s
      in if rest = s then None else Some (if neg then - v else v, rest))"

text \<open>\<open>sscanf(line, "HTTP/1.%d %d", &minor, &status)\<close>: the status when both numbers were read.\<close>

definition scan_status :: "bytes \<Rightarrow> int option" where
  "scan_status line =
     (if take 7 line \<noteq> ascii ''HTTP/1.'' then None
      else Option.bind (scan_int (drop 7 line)) (\<lambda>(minor, rest).
           map_option fst (scan_int (dropWhile is_space rest))))"

text \<open>\<open>strtoul(s, nullptr, 0)\<close>.\<close>

definition strtoul_0 :: "bytes \<Rightarrow> nat" where
  "strtoul_0 bs =
     (let (neg, s) = read_sign (dropWhile is_space bs);
          hex = (take 1 s = [48] \<and> map to_lower (take 1 (drop 1 s)) = [120]
                 \<and> (case drop 2 s of b # _ \<Rightarrow> digit_in 16 b \<noteq> None | [] \<Rightarrow> False));
          v = fst (if hex then read_digits 16 0 (drop 2 s) else if take 1 s = [48] then read_digits 8 0 s
                   else read_digits 10 0 s)
      in nat (if 2 ^ 64 \<le> v then 2 ^ 64 - 1 else if neg then (- v) mod 2 ^ 64 else v))"

definition strncasecmp_eq :: "bytes \<Rightarrow> bytes \<Rightarrow> nat \<Rightarrow> bool" where
  "strncasecmp_eq a b n \<longleftrightarrow> map to_lower (take n a) = map to_lower (take n b)"

section \<open>The connection\<close>

datatype cstate = Cstate_idle | Cstate_waiting | Cstate_headers | Cstate_body | Cstate_closed | Cstate_broken

record http =
  cstate :: cstate
  status_code :: int
  content_length :: nat
  has_content_length :: bool
  eof :: bool
  buf :: bytes

definition receiving :: "http \<Rightarrow> bool" where
  "receiving c \<longleftrightarrow> cstate c = Cstate_waiting \<or> cstate c = Cstate_headers"

text \<open>The answers of \<open>read\<close> and \<open>write\<close>: so many bytes, end of file, an error that is retried, another one.\<close>

datatype answer = Data bytes | End | Retry | Error

definition request_text :: "string \<Rightarrow> string \<Rightarrow> string \<Rightarrow> bytes" where
  "request_text user uri host =
     ascii (''POST /'' @ user @ ''/'' @ uri @ '' HTTP/1.0'') @ [13, 10] @ ascii (''Host: '' @ host) @ [13, 10]
     @ ascii ''Connection: keep-alive'' @ [13, 10, 13, 10]"

text \<open>The loop that writes the request; each answer is how much was written. What was sent, if all of it.\<close>

fun send_loop :: "bytes \<Rightarrow> nat \<Rightarrow> nat option list \<Rightarrow> bytes option" where
  "send_loop req pos answers =
     (if length req \<le> pos then Some []
      else case answers of
          [] \<Rightarrow> None
        | None # as \<Rightarrow> send_loop req pos as
        | Some nw # as \<Rightarrow>
            if nw = 0 then None
            else map_option (\<lambda>bs. take nw (drop pos req) @ bs) (send_loop req (pos + nw) as))"

definition send_request :: "string \<Rightarrow> string \<Rightarrow> string \<Rightarrow> nat option list \<Rightarrow> http \<Rightarrow> (bytes \<times> http) option" where
  "send_request user uri host answers c =
     (if cstate c \<noteq> Cstate_idle \<or> BUFSIZ \<le> length (request_text user uri host) then None
      else map_option (\<lambda>bs. (bs, c\<lparr>cstate := Cstate_waiting, status_code := - 1, content_length := 0,
                                  has_content_length := False, buf := []\<rparr>))
             (send_loop (request_text user uri host) 0 answers))"

text \<open>One header line of \<open>i\<close> bytes at the start of the buffer.\<close>

definition header_line :: "bytes \<Rightarrow> http \<Rightarrow> http" where
  "header_line bs c =
     (let line = c_string bs
      in if cstate c = Cstate_waiting then
           (case scan_status line of Some status \<Rightarrow> c\<lparr>status_code := status, cstate := Cstate_headers\<rparr>
            | None \<Rightarrow> c\<lparr>cstate := Cstate_broken\<rparr>)
         else if bs = [] then c\<lparr>cstate := Cstate_body\<rparr>
         else if strncasecmp_eq line (ascii ''Content-Length: '') 16 then
           c\<lparr>content_length := strtoul_0 (drop 16 line), has_content_length := True\<rparr>
         else c)"

text \<open>The loop of \<open>process_response_headers\<close> at index \<open>i\<close>.\<close>

function header_loop :: "http \<Rightarrow> nat \<Rightarrow> http" where
  "header_loop c i =
     (if receiving c \<and> i + 2 \<le> length (buf c) then
        if buf c ! i = 13 \<and> buf c ! (i + 1) = 10
        then header_loop ((header_line (take i (buf c)) c)\<lparr>buf := drop (i + 2) (buf c)\<rparr>) 0
        else header_loop c (i + 1)
      else c)"
  by auto
termination by (relation "measure (\<lambda>(c, i). 2 * length (buf c) - i)") auto

declare header_loop.simps [simp del]

definition process_response_headers :: "http \<Rightarrow> bool \<times> http" where
  "process_response_headers c =
     (let c1 = header_loop c 0; c2 = (if eof c1 then c1\<lparr>cstate := Cstate_broken\<rparr> else c1)
      in (receiving c2, c2))"

definition check_response_body :: "http \<Rightarrow> bool \<times> http" where
  "check_response_body c =
     (let c1 = (if cstate c = Cstate_body \<and> (has_content_length c \<or> eof c) \<and> content_length c \<le> length (buf c)
                then c\<lparr>cstate := Cstate_idle\<rparr> else c);
          c2 = (if eof c1 then
                  if cstate c1 = Cstate_idle then c1\<lparr>cstate := Cstate_closed\<rparr>
                  else if cstate c1 \<noteq> Cstate_closed then c1\<lparr>cstate := Cstate_broken\<rparr> else c1
                else c1)
      in (cstate c2 = Cstate_body, c2))"

text \<open>
  The outcome of a loop of reads: the connection and the answers not yet used, a store outside the
  buffer, the end of the program after an error, or a connection that waits for more data.
\<close>

datatype outcome = Done http "answer list" | Overflow | Exit | Blocked http

fun read_more :: "(http \<Rightarrow> bool \<times> http) \<Rightarrow> http \<Rightarrow> answer list \<Rightarrow> outcome" where
  "read_more check c answers =
     (let (more, c1) = check c
      in if \<not> more then Done c1 answers
         else case answers of
             [] \<Rightarrow> Blocked c1
           | Data bs # as \<Rightarrow>
               if BUFSIZ \<le> length (buf c1) + length bs then Overflow
               else read_more check (c1\<lparr>buf := buf c1 @ bs\<rparr>) as
           | End # as \<Rightarrow> read_more check (c1\<lparr>eof := True\<rparr>) as
           | Retry # as \<Rightarrow> read_more check c1 as
           | Error # as \<Rightarrow> Exit)"

declare read_more.simps [simp del]

definition truncate_response :: "bytes \<Rightarrow> bytes" where
  "truncate_response bs = take 100 (takeWhile (\<lambda>b. b \<noteq> 10) (c_string bs))"

definition receive_response_headers :: "http \<Rightarrow> answer list \<Rightarrow> outcome" where
  "receive_response_headers c answers =
     (if cstate c = Cstate_idle then Exit
      else if cstate c = Cstate_closed \<or> cstate c = Cstate_broken then Done c answers
      else case read_more process_response_headers c answers of
          Done c1 as \<Rightarrow> if 500 \<le> status_code c1 then Exit else Done c1 as
        | r \<Rightarrow> r)"

definition receive_response_body :: "http \<Rightarrow> answer list \<Rightarrow> outcome" where
  "receive_response_body c answers =
     (if cstate c = Cstate_closed \<or> cstate c = Cstate_broken then Done c answers
      else if cstate c \<noteq> Cstate_body then Exit
      else read_more check_response_body c answers)"

section \<open>Header lines\<close>

text \<open>The first line of a block of bytes and what follows its CR LF.\<close>

fun split_crlf :: "bytes \<Rightarrow> (bytes \<times> bytes) option" where
  "split_crlf [] = None"
| "split_crlf (b # bs) =
     (if b = 13 \<and> bs \<noteq> [] \<and> hd bs = 10 then Some ([], tl bs)
      else map_option (\<lambda>(l, r). (b # l, r)) (split_crlf bs))"

lemma split_append: "split_crlf xs = Some (l, r) \<Longrightarrow> split_crlf (xs @ ys) = Some (l, r @ ys)"
  by (induction xs arbitrary: l) (auto simp: hd_append split: if_splits)

lemma split_shorter: "split_crlf xs = Some (l, r) \<Longrightarrow> length r < length xs"
  by (induction xs arbitrary: l) (auto split: if_splits)

lemma header_loop_at:
  "receiving c \<Longrightarrow> i \<le> length (buf c) \<Longrightarrow> header_loop c i =
     (case split_crlf (drop i (buf c)) of None \<Rightarrow> c
      | Some (l, r) \<Rightarrow> header_loop ((header_line (take i (buf c) @ l) c)\<lparr>buf := r\<rparr>) 0)"
proof (induction "length (buf c) - i" arbitrary: i rule: less_induct)
  case less
  show ?case
  proof (cases "i + 2 \<le> length (buf c)")
    case True
    define xs where "xs = drop (Suc (Suc i)) (buf c)"
    have d: "drop i (buf c) = buf c ! i # buf c ! (i + 1) # xs" "drop (Suc i) (buf c) = buf c ! (i + 1) # xs"
      "take (Suc i) (buf c) = take i (buf c) @ [buf c ! i]"
      using True by (simp_all add: Cons_nth_drop_Suc take_Suc_conv_app_nth xs_def)
    show ?thesis
    proof (cases "buf c ! i = 13 \<and> buf c ! (i + 1) = 10")
      case crlf: True
      then show ?thesis using True less.prems d by (subst header_loop.simps) (simp add: xs_def)
    next
      case False
      then have "header_loop c i = header_loop c (i + 1)" using True less.prems by (subst header_loop.simps) auto
      also have "\<dots> = (case split_crlf (drop (Suc i) (buf c)) of None \<Rightarrow> c
          | Some (l, r) \<Rightarrow> header_loop ((header_line (take (Suc i) (buf c) @ l) c)\<lparr>buf := r\<rparr>) 0)"
        using less.hyps [of "Suc i"] less.prems True by simp
      finally show ?thesis using False d by (cases "split_crlf (drop (Suc i) (buf c))") auto
    qed
  next
    case False
    then have "length (drop i (buf c)) \<le> 1" by simp
    then have "split_crlf (drop i (buf c)) = None"
      by (cases "drop i (buf c)") (auto simp: length_Suc_conv)
    then show ?thesis using False by (subst header_loop.simps) simp
  qed
qed

lemma header_loop_start:
  "header_loop c 0 = (if receiving c then case split_crlf (buf c) of None \<Rightarrow> c
     | Some (l, r) \<Rightarrow> header_loop ((header_line l c)\<lparr>buf := r\<rparr>) 0 else c)"
proof (cases "receiving c")
  case True then show ?thesis using header_loop_at [of c 0] by (auto split: option.split)
next
  case False then show ?thesis by (subst header_loop.simps) simp
qed

lemma header_line_buf: "header_line l (c\<lparr>buf := x\<rparr>) = (header_line l c)\<lparr>buf := x\<rparr>"
  by (auto simp: header_line_def Let_def split: option.split)

lemma receiving_buf [simp]: "receiving (c\<lparr>buf := x\<rparr>) = receiving c"
  by (simp add: receiving_def)

lemma eof_line [simp]: "eof (header_line l c) = eof c"
  by (auto simp: header_line_def Let_def split: option.split)

text \<open>Parsing what has arrived and then the rest is parsing everything.\<close>

lemma header_loop_append:
  "header_loop (c\<lparr>buf := buf c @ ys\<rparr>) 0 =
     (let d = header_loop c 0 in if receiving d then header_loop (d\<lparr>buf := buf d @ ys\<rparr>) 0 else d\<lparr>buf := buf d @ ys\<rparr>)"
proof (induction "length (buf c)" arbitrary: c rule: less_induct)
  case less
  show ?case
  proof (cases "receiving c")
    case False
    then show ?thesis by (simp add: header_loop_start [of c] header_loop_start [of "c\<lparr>buf := buf c @ ys\<rparr>"])
  next
    case True
    show ?thesis
    proof (cases "split_crlf (buf c)")
      case None
      then show ?thesis using True by (simp add: header_loop_start [of c])
    next
      case (Some lr)
      obtain l r where lr: "lr = (l, r)" by (cases lr)
      let ?d = "(header_line l c)\<lparr>buf := r\<rparr>"
      have "header_loop (c\<lparr>buf := buf c @ ys\<rparr>) 0 = header_loop (?d\<lparr>buf := buf ?d @ ys\<rparr>) 0"
        using True split_append [OF Some [unfolded lr], of ys]
        by (simp add: header_loop_start [of "c\<lparr>buf := buf c @ ys\<rparr>"] header_line_buf)
      moreover have "header_loop c 0 = header_loop ?d 0"
        using True Some lr by (simp add: header_loop_start [of c])
      ultimately show ?thesis using less [of ?d] split_shorter [OF Some [unfolded lr]] by simp
    qed
  qed
qed

lemma eof_header_loop: "eof (header_loop c 0) = eof c"
proof (induction "length (buf c)" arbitrary: c rule: less_induct)
  case less
  show ?case
  proof (cases "split_crlf (buf c)")
    case None then show ?thesis by (simp add: header_loop_start [of c])
  next
    case (Some lr)
    obtain l r where lr: "split_crlf (buf c) = Some (l, r)" using Some by (cases lr) auto
    then show ?thesis using less [of "(header_line l c)\<lparr>buf := r\<rparr>"] split_shorter [OF lr] by (simp add: header_loop_start [of c])
  qed
qed

lemma length_header_loop: "length (buf (header_loop c 0)) \<le> length (buf c)"
proof (induction "length (buf c)" arbitrary: c rule: less_induct)
  case less
  show ?case
  proof (cases "split_crlf (buf c)")
    case None then show ?thesis by (simp add: header_loop_start [of c])
  next
    case (Some lr)
    obtain l r where lr: "split_crlf (buf c) = Some (l, r)" using Some by (cases lr) auto
    then show ?thesis using less [of "(header_line l c)\<lparr>buf := r\<rparr>"] split_shorter [OF lr] by (simp add: header_loop_start [of c])
  qed
qed

text \<open>
  C25: The headers of a response are parsed alike however the data is split into reads. Take any
  split of the incoming bytes into reads that fit the buffer, and the connection that parsing all
  of them at once gives. If that one still waits for headers, reading them in pieces ends in the
  very same connection. If its headers are complete (or broken), so are those read in pieces, with
  the same status, content length and state, and the bytes after the headers are the same: those in
  the buffer followed by those not yet read. The buffer does not overflow.
\<close>

theorem headers_any_split:
  assumes "\<not> eof c" and "length (buf c) + length (concat bss) < BUFSIZ"
  defines "whole \<equiv> header_loop (c\<lparr>buf := buf c @ concat bss\<rparr>) 0"
  shows "case read_more process_response_headers c (map Data bss) of
      Blocked c1 \<Rightarrow> receiving whole \<and> c1 = whole
    | Done c1 as \<Rightarrow> \<not> receiving whole \<and> (\<exists>rest. as = map Data rest \<and> c1\<lparr>buf := buf c1 @ concat rest\<rparr> = whole)
    | _ \<Rightarrow> False"
  unfolding whole_def using assms(1,2)
proof (induction bss arbitrary: c)
  case Nil
  have "process_response_headers c = (receiving (header_loop c 0), header_loop c 0)"
    using Nil.prems(1) by (simp add: process_response_headers_def eof_header_loop Let_def)
  then show ?case by (subst read_more.simps) (auto intro: exI [of _ "[]"])
next
  case (Cons bs bss)
  let ?d = "header_loop c 0"
  have p: "process_response_headers c = (receiving ?d, ?d)"
    using Cons.prems(1) by (simp add: process_response_headers_def eof_header_loop Let_def)
  show ?case
  proof (cases "receiving ?d")
    case False
    then show ?thesis using p header_loop_append [of c "concat (bs # bss)"]
      by (subst read_more.simps) (auto simp: Let_def intro!: exI [of _ "bs # bss"])
  next
    case True
    let ?e = "?d\<lparr>buf := buf ?d @ bs\<rparr>"
    have len: "length (buf ?d) + length bs + length (concat bss) < BUFSIZ"
      using length_header_loop [of c] Cons.prems(2) by simp
    then have eq1: "read_more process_response_headers c (map Data (bs # bss)) = read_more process_response_headers ?e (map Data bss)"
      using p True by (subst read_more.simps) simp
    have eq2: "header_loop (c\<lparr>buf := buf c @ concat (bs # bss)\<rparr>) 0 = header_loop (?e\<lparr>buf := buf ?e @ concat bss\<rparr>) 0"
      using True header_loop_append [of c "concat (bs # bss)"] by (simp add: Let_def)
    show ?thesis unfolding eq1 eq2 by (rule Cons.IH) (use Cons.prems(1) len in \<open>simp_all add: eof_header_loop\<close>)
  qed
qed

definition ex_response :: bytes where
  "ex_response = ascii ''HTTP/1.1 200 OK'' @ [13, 10] @ ascii ''content-length: 4'' @ [13, 10, 13, 10] @ ascii ''0 ok''"

definition ex_conn :: http where
  "ex_conn = \<lparr>cstate = Cstate_waiting, status_code = - 1, content_length = 0, has_content_length = False, eof = False, buf = []\<rparr>"

text \<open>The same response in one read, and in reads of 3, 13 and 26 bytes: split inside a line and inside a CR LF.\<close>

lemma ex_whole: "header_loop (ex_conn\<lparr>buf := ex_response\<rparr>) 0 =
    \<lparr>cstate = Cstate_body, status_code = 200, content_length = 4, has_content_length = True, eof = False, buf = ascii ''0 ok''\<rparr>"
  by code_simp

theorem headers_any_split_witness:
  "case read_more process_response_headers ex_conn
      (map Data [take 3 ex_response, take 13 (drop 3 ex_response), drop 16 ex_response]) of
     Done c1 as \<Rightarrow> (\<exists>rest. as = map Data rest \<and> c1\<lparr>buf := buf c1 @ concat rest\<rparr> =
       \<lparr>cstate = Cstate_body, status_code = 200, content_length = 4, has_content_length = True, eof = False, buf = ascii ''0 ok''\<rparr>)
   | _ \<Rightarrow> False"
proof -
  let ?bss = "[take 3 ex_response, take 13 (drop 3 ex_response), drop 16 ex_response]"
  have "concat ?bss = ex_response" "\<not> eof ex_conn" "length ex_response = 42" "buf ex_conn = []" by code_simp+
  then show ?thesis using headers_any_split [of ex_conn ?bss] by (simp add: ex_whole receiving_def BUFSIZ_def split: outcome.splits)
qed

end
