(* ===== verification/PongHelpers.thy ===== *)
theory PongHelpers
  imports PongSim PongHttp
begin

text \<open>
  The helpers of the pong programs (\<open>pset6/helpers.cc\<close>): the printer that a signal handler may use and the
  test for integers, with the parts of \<open>simpong61.cc\<close> that use them: the options of the command line, the
  summary, and the mode with one thread. A printer is the text written so far and the size of its
  buffer; \<open>None\<close> is a failed assertion. Floating point numbers are left out: how an option
  is read as microseconds is an argument.
\<close>

section \<open>The printer\<close>

record simple_printer =
  ptext :: bytes
  psize :: nat

definition new_printer :: "nat \<Rightarrow> simple_printer" where
  "new_printer sz = \<lparr>ptext = [], psize = sz\<rparr>"

definition print_char :: "u8 \<Rightarrow> simple_printer \<Rightarrow> simple_printer option" where
  "print_char ch p = (if length (ptext p) < psize p then Some (p\<lparr>ptext := ptext p @ [ch]\<rparr>) else None)"

definition print_str :: "bytes \<Rightarrow> simple_printer \<Rightarrow> simple_printer option" where
  "print_str s p = (if length s \<le> psize p - length (ptext p) then Some (p\<lparr>ptext := ptext p @ s\<rparr>) else None)"

function count_digits :: "nat \<Rightarrow> u64 \<Rightarrow> nat" where
  "count_digits ndigits x = (if ndigits = 0 \<or> x \<noteq> 0 then count_digits (ndigits + 1) (x div 10) else ndigits)"
  by auto
termination
proof (relation "measure (\<lambda>(n, x). unat x + (if n = 0 then 1 else 0))", goal_cases)
  case (2 n x)
  then show ?case by (cases "x = 0") (auto simp: unat_div unat_gt_0 intro!: le_imp_less_Suc div_le_dividend div_less_dividend)
qed simp

declare count_digits.simps [simp del]

text \<open>The digits are written from the last to the first.\<close>

fun write_digits :: "nat \<Rightarrow> u64 \<Rightarrow> bytes \<Rightarrow> bytes" where
  "write_digits 0 x ds = ds"
| "write_digits (Suc digit) x ds = write_digits digit (x div 10) (ucast (48 + x mod 10) # ds)"

definition print_ulong :: "u64 \<Rightarrow> simple_printer \<Rightarrow> simple_printer option" where
  "print_ulong i p =
     (let ndigits = count_digits 0 i
      in if ndigits \<le> psize p - length (ptext p) then Some (p\<lparr>ptext := ptext p @ write_digits ndigits i []\<rparr>) else None)"

text \<open>A \<open>long\<close> is given by its 64 bits; the negation wraps.\<close>

definition print_long :: "u64 \<Rightarrow> simple_printer \<Rightarrow> simple_printer option" where
  "print_long i p =
     (if sint i < 0 then
        if length (ptext p) < psize p then print_ulong (- i) (p\<lparr>ptext := ptext p @ [45]\<rparr>) else None
      else print_ulong i p)"

section \<open>Integers on the command line\<close>

text \<open>\<open>strtol(s, &last, 10)\<close>: the value, cut to the range of \<open>long\<close>, and the text at \<open>last\<close>.\<close>

definition strtol_10 :: "bytes \<Rightarrow> int \<times> bytes" where
  "strtol_10 bs =
     (let (neg, s) = read_sign (dropWhile is_space bs); (v, rest) = read_digits 10 0 s
      in if rest = s then (0, bs) else (max (- (2 ^ 63)) (min (2 ^ 63 - 1) (if neg then - v else v)), rest))"

definition is_integer_string :: "bytes \<Rightarrow> bool" where
  "is_integer_string s \<longleftrightarrow>
     (let rest = snd (strtol_10 s) in rest \<noteq> s \<and> rest = [] \<and> \<not> (s \<noteq> [] \<and> is_space (hd s)))"

section \<open>The printed numbers\<close>

text \<open>The decimal digits of a number.\<close>

fun decimal :: "nat \<Rightarrow> bytes" where
  "decimal n = (if n < 10 then [of_nat (48 + n)] else decimal (n div 10) @ [of_nat (48 + n mod 10)])"

declare decimal.simps [simp del]

definition decimal_int :: "int \<Rightarrow> bytes" where
  "decimal_int i = (if i < 0 then 45 # decimal (nat (- i)) else decimal (nat i))"

lemma count_digits_decimal: "x \<noteq> 0 \<or> n = 0 \<Longrightarrow> count_digits n x = n + length (decimal (unat x))"
proof (induction n x rule: count_digits.induct)
  case (1 n x)
  have d: "unat (x div 10) = unat x div 10" by (simp add: unat_div)
  show ?case
  proof (cases "x div 10 = 0")
    case True
    then have "unat x < 10" using d by (simp add: div_eq_0_iff)
    then have "length (decimal (unat x)) = 1" by (simp add: decimal.simps)
    moreover have "count_digits n x = count_digits (n + 1) 0" using 1(2) True count_digits.simps [of n x] by metis
    moreover have "count_digits (n + 1) 0 = n + 1" by (simp add: count_digits.simps)
    ultimately show ?thesis by simp
  next
    case False
    then have "unat x div 10 \<noteq> 0" using d by (metis unat_eq_0)
    then have "\<not> unat x < 10" by simp
    then show ?thesis using 1 False count_digits.simps [of n x] decimal.simps [of "unat x"] by (auto simp: d)
  qed
qed

lemma ucast_small: "n < 2 ^ 64 \<Longrightarrow> ucast (of_nat n :: u64) = (of_nat n :: u8)"
  by (simp add: unsigned_of_nat take_bit_nat_eq_self)

lemma digit_char: "ucast (48 + x mod 10 :: u64) = (of_nat (48 + unat x mod 10) :: u8)"
proof -
  have "48 + x mod 10 = (of_nat (48 + unat x mod 10) :: u64)" by (simp add: word_arith_nat_mod)
  moreover have "unat x mod 10 < 18446744073709551568" by (rule less_trans [of _ 10]) simp_all
  then have "48 + unat x mod 10 < 2 ^ 64" by simp
  ultimately show ?thesis by (simp only: ucast_small)
qed

lemma write_digits_decimal: "write_digits (length (decimal (unat x))) x ds = decimal (unat x) @ ds"
proof (induction "unat x" arbitrary: x ds rule: less_induct)
  case less
  show ?case
  proof (cases "unat x < 10")
    case True
    then show ?thesis using decimal.simps [of "unat x"] by (simp add: digit_char)
  next
    case False
    then have "unat (x div 10) < unat x" by (simp add: unat_div)
    from less [OF this] show ?thesis using False decimal.simps [of "unat x"] by (simp add: unat_div digit_char)
  qed
qed

lemma print_ulong_decimal:
  "print_ulong i p = (if length (decimal (unat i)) \<le> psize p - length (ptext p)
     then Some (p\<lparr>ptext := ptext p @ decimal (unat i)\<rparr>) else None)"
  by (simp add: print_ulong_def count_digits_decimal write_digits_decimal)

lemma unat_word_of_int: "0 \<le> k \<Longrightarrow> k < 2 ^ 64 \<Longrightarrow> unat (word_of_int k :: u64) = nat k"
  by (simp add: unat_eq_nat_uint uint_word_of_int_eq take_bit_int_eq_self)

lemma sint_bounds: "- (2 ^ 63) \<le> sint (i :: u64)" "sint (i :: u64) < 2 ^ 63"
  using sint_ge [of i] sint_lt [of i] by simp_all

lemma unat_by_sint: "sint i < 0 \<Longrightarrow> unat (- i :: u64) = nat (- sint i)" "0 \<le> sint i \<Longrightarrow> unat (i :: u64) = nat (sint i)"
  using unat_word_of_int [of "- sint i"] unat_word_of_int [of "sint i"] sint_bounds [of i] by simp_all

lemma print_long_decimal:
  "print_long i p = (if length (decimal_int (sint i)) \<le> psize p - length (ptext p)
     then Some (p\<lparr>ptext := ptext p @ decimal_int (sint i)\<rparr>) else None)"
proof (cases "sint i < 0")
  case True
  then show ?thesis by (auto simp: print_long_def decimal_int_def print_ulong_decimal unat_by_sint)
next
  case False
  then show ?thesis by (simp add: print_long_def decimal_int_def print_ulong_decimal unat_by_sint)
qed

section \<open>Reading printed numbers\<close>

lemma digit_value: "d < 10 \<Longrightarrow> digit_in 10 (of_nat (48 + d)) = Some (int d)"
proof -
  assume d: "d < 10"
  then have "unat (of_nat (48 + d) :: u8) = 48 + d" by (intro unat_of_nat_small) simp
  then have u: "uint (of_nat (48 + d) :: u8) = int (48 + d)" by (metis uint_nat)
  have "(48 :: u8) \<le> of_nat (48 + d)" "of_nat (48 + d) \<le> (57 :: u8)" unfolding word_le_def u using d by simp_all
  then show ?thesis using d u by (simp add: digit_in_def)
qed

lemma read_digits_app:
  "\<forall>b \<in> set ds. digit_in base b \<noteq> None \<Longrightarrow> read_digits base v (ds @ bs) = read_digits base (fst (read_digits base v ds)) bs"
  by (induction ds arbitrary: v) (auto split: option.splits)

lemma decimal_digits: "b \<in> set (decimal n) \<Longrightarrow> \<exists>d < 10. b = of_nat (48 + d)"
proof (induction n rule: decimal.induct)
  case (1 n)
  then show ?case using decimal.simps [of n] by (cases "n < 10") force+
qed

lemma read_decimal: "read_digits 10 0 (decimal n) = (int n, [])"
proof (induction n rule: decimal.induct)
  case (1 n)
  show ?case
  proof (cases "n < 10")
    case True
    then show ?thesis using decimal.simps [of n] digit_value by simp
  next
    case False
    have "\<forall>b \<in> set (decimal (n div 10)). digit_in 10 b \<noteq> None" using decimal_digits digit_value by fastforce
    then have "read_digits 10 0 (decimal n) = read_digits 10 (int (n div 10)) [of_nat (48 + n mod 10)]"
      using False 1 decimal.simps [of n] by (simp add: read_digits_app)
    moreover have "int (n div 10) * 10 + int (n mod 10) = int n" by presburger
    ultimately show ?thesis using digit_value [of "n mod 10"] by (simp del: of_nat_add)
  qed
qed

lemma decimal_first: "\<exists>d ds. decimal n = of_nat (48 + d) # ds \<and> d < 10"
proof -
  have "decimal n \<noteq> []" using decimal.simps [of n] by simp
  then obtain b ds where "decimal n = b # ds" by (cases "decimal n") auto
  moreover obtain d where "d < 10" "b = of_nat (48 + d)" using decimal_digits [of b n] calculation by auto
  ultimately show ?thesis by blast
qed

lemma digit_not_special: "d < 10 \<Longrightarrow> \<not> is_space (of_nat (48 + d)) \<and> (of_nat (48 + d) :: u8) \<noteq> 45 \<and> (of_nat (48 + d) :: u8) \<noteq> 43"
proof -
  assume "d < 10"
  then have "d = 0 \<or> d = 1 \<or> d = 2 \<or> d = 3 \<or> d = 4 \<or> d = 5 \<or> d = 6 \<or> d = 7 \<or> d = 8 \<or> d = 9" by arith
  then show ?thesis by (auto simp: is_space_def)
qed

lemma strtol_decimal_int:
  assumes "- (2 ^ 63) \<le> i" "i < 2 ^ 63"
  shows "strtol_10 (decimal_int i) = (i, [])"
proof -
  obtain d ds where d: "decimal (nat \<bar>i\<bar>) = of_nat (48 + d) # ds" "d < 10" using decimal_first by blast
  note sp = digit_not_special [OF d(2)]
  have ne: "decimal (nat \<bar>i\<bar>) \<noteq> []" using d(1) by simp
  show ?thesis
  proof (cases "i < 0")
    case True
    then have "decimal_int i = 45 # decimal (nat \<bar>i\<bar>)" by (simp add: decimal_int_def)
    then show ?thesis using assms True ne by (simp add: strtol_10_def is_space_def read_sign_def read_decimal)
  next
    case False
    then have "decimal_int i = decimal (nat \<bar>i\<bar>)" by (simp add: decimal_int_def)
    moreover have "dropWhile is_space (decimal (nat \<bar>i\<bar>)) = decimal (nat \<bar>i\<bar>)" "read_sign (decimal (nat \<bar>i\<bar>)) = (False, decimal (nat \<bar>i\<bar>))"
      using sp unfolding d(1) by (simp_all add: read_sign_def del: of_nat_add)
    ultimately show ?thesis using assms False ne by (simp add: strtol_10_def read_decimal)
  qed
qed

lemma is_integer_decimal_int:
  assumes "- (2 ^ 63) \<le> i" "i < 2 ^ 63"
  shows "is_integer_string (decimal_int i)"
proof -
  obtain d ds where d: "decimal (nat \<bar>i\<bar>) = of_nat (48 + d) # ds" "d < 10" using decimal_first by blast
  have "\<exists>b bs. decimal_int i = b # bs \<and> \<not> is_space b"
    using d(1) digit_not_special [OF d(2)] by (cases "i < 0") (simp_all add: decimal_int_def is_space_def del: of_nat_add)
  then show ?thesis using strtol_decimal_int [OF assms] by (auto simp: is_integer_string_def)
qed

lemma length_decimal: "n < 10 ^ Suc k \<Longrightarrow> length (decimal n) \<le> Suc k"
proof (induction k arbitrary: n)
  case 0
  then show ?case using decimal.simps [of n] by simp
next
  case (Suc k)
  show ?case
  proof (cases "n < 10")
    case False
    have "n div 10 < 10 ^ Suc k" using Suc.prems by (simp add: div_less_iff_less_mult mult.commute)
    then show ?thesis using Suc.IH False decimal.simps [of n] by simp
  qed (use decimal.simps [of n] in simp)
qed

lemma length_ulong: "length (decimal (unat (i :: u64))) \<le> 20"
proof (rule length_decimal [of _ 19, simplified])
  have "unat i < 2 ^ 64" using unsigned_less [of i] by simp
  then show "unat i < 100000000000000000000" by simp
qed

lemma length_long: "length (decimal_int (sint (i :: u64))) \<le> 21"
  using length_ulong [of i] length_ulong [of "- i"] unat_by_sint [of i] by (cases "sint i < 0") (simp_all add: decimal_int_def)

theorem print_long_reads_back:
  assumes "length (ptext p) + 21 \<le> psize p"
  shows "\<exists>t. print_long i p = Some (p\<lparr>ptext := ptext p @ t\<rparr>) \<and> length t \<le> 21 \<and>
    is_integer_string t \<and> strtol_10 t = (sint i, [])"
  using assms length_long [of i] strtol_decimal_int [OF sint_bounds] is_integer_decimal_int [OF sint_bounds]
  by (intro exI [of _ "decimal_int (sint i)"]) (simp add: print_long_decimal)

section \<open>The summary of the simulation\<close>

definition summary :: "nat \<Rightarrow> sim \<Rightarrow> bytes option" where
  "summary sz s = map_option ptext
     (Option.bind (print_ulong (of_nat (nstarted s)) (new_printer sz)) (\<lambda>p1.
      Option.bind (print_str (ascii '' threads started, '') p1) (\<lambda>p2.
      Option.bind (print_long (of_int (nrunning s)) p2) (\<lambda>p3.
      Option.bind (print_str (ascii '' running, '') p3) (\<lambda>p4.
      Option.bind (print_ulong (ncollisions (pboard s)) p4) (\<lambda>p5.
      print_str (ascii '' collisions'' @ [10]) p5))))))"

text \<open>The summary fits into the buffer of the handler: no assertion of the printer fails.\<close>

lemma summary_fits:
  "summary BUFSIZ s = Some (decimal (unat (of_nat (nstarted s) :: u64)) @ ascii '' threads started, ''
     @ decimal_int (sint (of_int (nrunning s) :: u64)) @ ascii '' running, ''
     @ decimal (unat (ncollisions (pboard s))) @ ascii '' collisions'' @ [10])"
  using length_ulong [of "of_nat (nstarted s)"] length_long [of "of_int (nrunning s)"] length_ulong [of "ncollisions (pboard s)"]
  by (auto simp: summary_def print_ulong_decimal print_long_decimal print_str_def new_printer_def BUFSIZ_def ascii_def)

section \<open>The options of the simulation\<close>

record sim_options =
  o_width :: int
  o_height :: int
  o_nballs :: int
  o_nsticky :: int
  o_nholes :: int
  o_nthreads :: int
  o_delay :: u64
  o_print_interval :: int
  o_single :: bool

definition default_options :: sim_options where
  "default_options = \<lparr>o_width = 100, o_height = 31, o_nballs = 24, o_nsticky = 12, o_nholes = 0, o_nthreads = - 1,
     o_delay = 0, o_print_interval = 0, o_single = False\<rparr>"

definition int_option :: "bytes \<Rightarrow> int" where
  "int_option optarg = to_int (fst (strtol_10 optarg))"

text \<open>One option that \<open>getopt\<close> returns, with its argument. \<open>usec\<close> reads a real number as microseconds.\<close>

definition sim_option :: "(bytes \<Rightarrow> int option) \<Rightarrow> char \<times> bytes \<Rightarrow> sim_options \<Rightarrow> sim_options option" where
  "sim_option usec = (\<lambda>(ch, optarg) o1.
     if ch = CHR ''w'' \<and> is_integer_string optarg then Some (o1\<lparr>o_width := int_option optarg\<rparr>)
     else if ch = CHR ''h'' \<and> is_integer_string optarg then Some (o1\<lparr>o_height := int_option optarg\<rparr>)
     else if ch = CHR ''b'' \<and> is_integer_string optarg then Some (o1\<lparr>o_nballs := int_option optarg\<rparr>)
     else if ch = CHR ''s'' \<and> is_integer_string optarg then Some (o1\<lparr>o_nsticky := int_option optarg\<rparr>)
     else if ch = CHR ''H'' \<and> is_integer_string optarg then Some (o1\<lparr>o_nholes := int_option optarg\<rparr>)
     else if ch = CHR ''j'' \<and> is_integer_string optarg then Some (o1\<lparr>o_nthreads := int_option optarg\<rparr>)
     else if ch = CHR ''d'' \<and> usec optarg \<noteq> None then Some (o1\<lparr>o_delay := of_int (the (usec optarg))\<rparr>)
     else if ch = CHR ''p'' \<and> usec optarg \<noteq> None then Some (o1\<lparr>o_print_interval := the (usec optarg)\<rparr>)
     else if ch = CHR ''1'' then Some (o1\<lparr>o_single := True\<rparr>)
     else None)"

fun sim_option_loop :: "(bytes \<Rightarrow> int option) \<Rightarrow> (char \<times> bytes) list \<Rightarrow> sim_options \<Rightarrow> sim_options option" where
  "sim_option_loop usec [] o1 = Some o1"
| "sim_option_loop usec (x # xs) o1 = Option.bind (sim_option usec x o1) (sim_option_loop usec xs)"

text \<open>The arguments, \<open>None\<close> when the usage is printed. \<open>rest\<close>: there are arguments behind the options.\<close>

definition sim_arguments :: "(bytes \<Rightarrow> int option) \<Rightarrow> (char \<times> bytes) list \<Rightarrow> bool \<Rightarrow> sim_options option" where
  "sim_arguments usec xs rest =
     Option.bind (sim_option_loop usec xs default_options) (\<lambda>o1.
       let o2 = (if o_nthreads o1 < 0 then o1\<lparr>o_nthreads := o_nballs o1\<rparr> else o1)
       in if rest \<or> \<not> sizes_ok (o_width o2) (o_height o2) (o_nballs o2) (o_nsticky o2) (o_nholes o2) (o_nthreads o2)
          then None else Some o2)"

text \<open>Options in decimal are read as they were written.\<close>

lemma int_option_decimal: "- (2 ^ 31) \<le> v \<Longrightarrow> v < 2 ^ 31 \<Longrightarrow> int_option (decimal_int v) = v"
  using strtol_decimal_int [of v] by (simp add: int_option_def to_int_id)

text \<open>An argument that does not fit into an \<open>int\<close> is accepted and cut: 4294967298 is read as 2.\<close>

lemma int_option_cut: "is_integer_string (decimal_int 4294967298) \<and> int_option (decimal_int 4294967298) = 2"
  using strtol_decimal_int [of 4294967298] is_integer_decimal_int [of 4294967298] by (simp add: int_option_def to_int_def)

text \<open>Negative numbers of sticky cells are accepted, too; the loops that make them do nothing.\<close>

lemma negative_sticky_accepted:
  "sim_arguments usec [(CHR ''s'', decimal_int (- 5))] False \<noteq> None"
  using int_option_decimal [of "- 5"] is_integer_decimal_int [of "- 5"]
  by (simp add: sim_arguments_def sim_option_def default_options_def sizes_ok_def to_int_id)

section \<open>One thread\<close>

text \<open>A round of the single threaded mode: every ball moves once.\<close>

fun single_round :: "nat list \<Rightarrow> pong_board \<Rightarrow> pong_board option" where
  "single_round [] g = Some g"
| "single_round (n # ns) g = Option.bind (move n g) (\<lambda>(_, g1). single_round ns g1)"

text \<open>The balls of this mode are never placed, so that the first move already uses a mutex that is not there.\<close>

lemma single_round_fails:
  assumes "setup_board w h nballs nsticky nholes pos = Some g" "0 < nballs"
  shows "single_round [0..<nballs] g = None"
proof -
  have "balls g = replicate nballs pong_ball_new" using assms(1) by (auto simp: setup_board_def bind_eq_Some_conv)
  then have "move 0 g = None" using assms(2) by (simp add: move_def pong_ball_new_def)
  then show ?thesis using assms(2) by (simp add: upt_conv_Cons)
qed

end
