(* ===== verification/PongClient.thy ===== *)
theory PongClient
  imports PongHelpers
begin

text \<open>
  The client of the pong server (\<open>pset6/pong61.cc\<close>): opening connections, the thread that sends a move,
  and \<open>main\<close>, which resets the board and plays. Each connection is given by what the system calls on
  it return. Times and messages on standard error are left out.
\<close>

section \<open>Connections\<close>

text \<open>The answers for one connection: of \<open>socket\<close>, \<open>connect\<close>, the \<open>write\<close> calls and the \<open>read\<close> calls.\<close>

record link =
  socket_fd :: int
  connect_r :: int
  writes :: "nat option list"
  reads :: "answer list"

definition new_http :: http where
  "new_http = \<lparr>cstate = Cstate_idle, status_code = 0, content_length = 0, has_content_length = False, eof = False, buf = []\<rparr>"

text \<open>\<open>None\<close>: the program exits.\<close>

definition http_connect :: "link \<Rightarrow> http option" where
  "http_connect l = (if socket_fd l < 0 \<or> connect_r l < 0 then None else Some new_http)"

section \<open>A thread that moves the ball\<close>

text \<open>Whether \<open>strtod\<close> reads a negative number (an exponent does not matter but for underflow, hexadecimal is left out).\<close>

definition negative_real :: "bytes \<Rightarrow> bool" where
  "negative_real bs =
     (case dropWhile is_space bs of
        b # s \<Rightarrow> b = 45 \<and>
          (let whole = takeWhile (\<lambda>c. 48 \<le> c \<and> c \<le> 57) s; rest = drop (length whole) s;
               frac = (case rest of c # r \<Rightarrow> if c = 46 then takeWhile (\<lambda>c. 48 \<le> c \<and> c \<le> 57) r else [] | [] \<Rightarrow> [])
           in (\<exists>c \<in> set (whole @ frac). c \<noteq> 48) \<or> map to_lower (take 3 s) = ascii ''inf'')
      | [] \<Rightarrow> False)"

text \<open>The text of a request for the position \<open>x, y\<close>.\<close>

definition number_text :: "int \<Rightarrow> string" where
  "number_text i = map (\<lambda>b. char_of (uint b)) (decimal_int i)"

definition move_url :: "int \<Rightarrow> int \<Rightarrow> string" where
  "move_url x y = take 255 (''move?x='' @ number_text x @ ''&y='' @ number_text y @ ''&style=on'')"

text \<open>A request and its answer. The connection with the body read, after the bytes that were sent.\<close>

datatype reply = Reply bytes http | Fails bytes | Waits bytes

definition call_server :: "string \<Rightarrow> string \<Rightarrow> string \<Rightarrow> link \<Rightarrow> reply" where
  "call_server user host uri l =
     (case http_connect l of None \<Rightarrow> Fails []
      | Some c \<Rightarrow>
          (case send_request user uri host (writes l) c of None \<Rightarrow> Fails []
           | Some (sent, c1) \<Rightarrow>
               (case receive_response_headers c1 (reads l) of
                  Done c2 as \<Rightarrow>
                    (case receive_response_body c2 as of
                       Done c3 _ \<Rightarrow> Reply sent c3
                     | Blocked _ \<Rightarrow> Waits sent
                     | _ \<Rightarrow> Fails sent)
                | Blocked _ \<Rightarrow> Waits sent
                | _ \<Rightarrow> Fails sent)))"

text \<open>\<open>pong_thread\<close>: \<open>Reply\<close> stands for setting \<open>move_done\<close>.\<close>

definition pong_thread :: "string \<Rightarrow> string \<Rightarrow> int \<Rightarrow> int \<Rightarrow> link \<Rightarrow> reply" where
  "pong_thread user host x y l =
     (case call_server user host (move_url x y) l of
        Reply sent c \<Rightarrow> if negative_real (c_string (buf c)) then Fails sent else Reply sent c
      | r \<Rightarrow> r)"

section \<open>The main program\<close>

record client_options =
  pong_host :: string
  pong_port :: string
  pong_user :: string
  nocheck :: bool
  fast :: bool

text \<open>The options that \<open>getopt\<close> returns, then the arguments behind them. \<open>None\<close>: the usage is printed.\<close>

fun client_option_loop :: "(char \<times> string) list \<Rightarrow> client_options \<Rightarrow> client_options option" where
  "client_option_loop [] o1 = Some o1"
| "client_option_loop ((ch, optarg) # xs) o1 =
     (if ch = CHR ''h'' then client_option_loop xs (o1\<lparr>pong_host := optarg\<rparr>)
      else if ch = CHR ''p'' then client_option_loop xs (o1\<lparr>pong_port := optarg\<rparr>)
      else if ch = CHR ''u'' then client_option_loop xs (o1\<lparr>pong_user := optarg\<rparr>)
      else if ch = CHR ''n'' then client_option_loop xs (o1\<lparr>nocheck := True\<rparr>)
      else if ch = CHR ''f'' then client_option_loop xs (o1\<lparr>fast := True\<rparr>)
      else None)"

definition client_arguments :: "(char \<times> string) list \<Rightarrow> string list \<Rightarrow> client_options \<Rightarrow> client_options option" where
  "client_arguments xs args o0 =
     Option.bind (client_option_loop xs o0) (\<lambda>o1.
       case args of [] \<Rightarrow> Some o1 | [user] \<Rightarrow> Some (o1\<lparr>pong_user := user\<rparr>) | _ \<Rightarrow> None)"

definition reset_url :: "client_options \<Rightarrow> string" where
  "reset_url o1 =
     (if \<not> nocheck o1 \<and> \<not> fast o1 then ''reset''
      else ''reset?nocheck='' @ number_text (of_bool (nocheck o1)) @ ''&fast='' @ number_text (of_bool (fast o1)))"

text \<open>Width, height and delay from the answer to \<open>reset\<close>.\<close>

definition reset_reply :: "http \<Rightarrow> (int \<times> int \<times> int) option" where
  "reset_reply c =
     (let text = c_string (buf c)
      in if status_code c \<noteq> 200 then None
         else Option.bind (scan_int text) (\<lambda>(w, r1).
              Option.bind (scan_int (dropWhile is_space r1)) (\<lambda>(h, r2).
              if to_int w \<le> 0 \<or> to_int h \<le> 0 then None
              else Some (to_int w, to_int h, case scan_int (dropWhile is_space r2) of Some (d, _) \<Rightarrow> to_int d | None \<Rightarrow> 100000))))"

text \<open>\<open>pong_ball(board, x, y, dx, dy)\<close>, the only ball of the client's board.\<close>

definition pong_ball_at :: "int \<Rightarrow> int \<Rightarrow> int \<Rightarrow> int \<Rightarrow> pong_board \<Rightarrow> pong_board option" where
  "pong_ball_at x y dx dy g =
     (if on_board g x y
      then Some (g\<lparr>balls := balls g @ [\<lparr>placed = True, ball_x = x, ball_y = y, ball_dx = dx, ball_dy = dy\<rparr>]\<rparr>) else None)"

text \<open>\<open>while (ball.move() <= 0)\<close>: the loop may go on forever; \<open>Some None\<close> is a failed assertion.\<close>

partial_function (option) move_ball :: "pong_board \<Rightarrow> pong_board option option" where
  "move_ball g =
     (case move 0 g of None \<Rightarrow> Some None
      | Some (r, g1) \<Rightarrow> if r \<le> 0 then move_ball g1 else Some (Some g1))"

declare move_ball.simps [code]

text \<open>How far a run gets: the program exits with an error, an assertion fails, it waits for the server, it
  moves the ball forever, or it has used up the connections that are given.\<close>

datatype ending = Exits | Aborts | Waiting | Spins | Plays pong_board

fun play :: "client_options \<Rightarrow> pong_board \<Rightarrow> link list \<Rightarrow> bytes list \<times> ending" where
  "play o1 g [] = ([], Plays g)"
| "play o1 g (l # ls) =
     (case pong_thread (pong_user o1) (pong_host o1) (ball_x (balls g ! 0)) (ball_y (balls g ! 0)) l of
        Fails sent \<Rightarrow> ([sent], Exits)
      | Waits sent \<Rightarrow> ([sent], Waiting)
      | Reply sent c \<Rightarrow>
          (case move_ball g of None \<Rightarrow> ([sent], Spins)
           | Some None \<Rightarrow> ([sent], Aborts)
           | Some (Some g1) \<Rightarrow> (let (sents, e) = play o1 g1 ls in (sent # sents, e))))"

definition pong61 :: "client_options \<Rightarrow> link \<Rightarrow> link list \<Rightarrow> bytes list \<times> ending" where
  "pong61 o1 l ls =
     (case call_server (pong_user o1) (pong_host o1) (reset_url o1) l of
        Fails sent \<Rightarrow> ([sent], Exits)
      | Waits sent \<Rightarrow> ([sent], Waiting)
      | Reply sent c \<Rightarrow>
          (case reset_reply c of None \<Rightarrow> ([sent], Exits)
           | Some (w, h, _) \<Rightarrow>
               (case Option.bind (pong_board_new w h) (pong_ball_at 0 0 1 1) of None \<Rightarrow> ([sent], Aborts)
                | Some g \<Rightarrow> (let (sents, e) = play o1 g ls in (sent # sents, e)))))"

section \<open>The first move\<close>

text \<open>The ball of the client is not stored in its cell, so the assertion of \<open>move\<close> fails: whatever the server
  answers, at most one move is requested, and the client does not get past it. (For sizes whose product
  wraps to 0 there is no cell at all, and the assertion reads outside of the vector.)\<close>

lemma client_ball_lost:
  assumes "Option.bind (pong_board_new w h) (pong_ball_at 0 0 1 1) = Some g" and fits: "to_int (w * h) \<noteq> 0"
  shows "move_ball g = Some None"
proof -
  have wh: "0 < w" "0 < h" and n: "0 < nat (to_int (w * h))"
    using assms by (auto simp: pong_ball_at_def on_board_def pong_board_new_def Let_def bind_eq_Some_conv split: if_splits)
  then have "cball (cell g 0 0) = None" "balls g = [\<lparr>placed = True, ball_x = 0, ball_y = 0, ball_dx = 1, ball_dy = 1\<rparr>]"
    using assms wh by (auto simp: pong_ball_at_def pong_board_new_def Let_def bind_eq_Some_conv cell_def cell_index_def on_board_def split: if_splits)
  then have "move 0 g = None" by (simp add: move_def Let_def)
  then show ?thesis by (simp add: move_ball.simps)
qed

theorem client_stops_at_first_move:
  assumes sizes: "\<And>c w h d. reset_reply c = Some (w, h, d) \<Longrightarrow> to_int (w * h) \<noteq> 0"
  shows "length (fst (pong61 o1 l ls)) \<le> 2 \<and> (ls \<noteq> [] \<longrightarrow> (\<forall>g. snd (pong61 o1 l ls) \<noteq> Plays g))"
proof (cases "call_server (pong_user o1) (pong_host o1) (reset_url o1) l")
  case (Reply sent c)
  have p: "length (fst (play o1 g ls)) \<le> 1 \<and> (ls \<noteq> [] \<longrightarrow> (\<forall>g'. snd (play o1 g ls) \<noteq> Plays g'))"
    if "Option.bind (pong_board_new w h) (pong_ball_at 0 0 1 1) = Some g" "to_int (w * h) \<noteq> 0" for w h g
    using client_ball_lost [OF that] by (cases ls) (auto split: reply.split)
  show ?thesis
  proof (cases "reset_reply c")
    case (Some x)
    then obtain w h d where x: "reset_reply c = Some (w, h, d)" by (cases x) auto
    show ?thesis
    proof (cases "Option.bind (pong_board_new w h) (pong_ball_at 0 0 1 1)")
      case (Some g)
      then show ?thesis using p [OF Some sizes [OF x]] Reply x by (cases "play o1 g ls") (simp add: pong61_def)
    qed (use Reply x in \<open>simp add: pong61_def\<close>)
  qed (use Reply in \<open>simp add: pong61_def\<close>)
qed (auto simp: pong61_def)

text \<open>A server that answers correctly: the client asks for the move to \<open>0, 0\<close> and aborts.\<close>

definition ex_answer :: "string \<Rightarrow> bytes" where
  "ex_answer body = ascii ''HTTP/1.1 200 OK'' @ [13, 10] @ ascii ''Content-Length: 8'' @ [13, 10, 13, 10] @ ascii body"

definition ex_link :: "string \<Rightarrow> link" where
  "ex_link body = \<lparr>socket_fd = 3, connect_r = 0, writes = [Some 500], reads = [Data (ex_answer body)]\<rparr>"

definition ex_options :: client_options where
  "ex_options = \<lparr>pong_host = ''host'', pong_port = ''6168'', pong_user = ''me'', nocheck = False, fast = False\<rparr>"

lemma client_example:
  "pong61 ex_options (ex_link ''2 2 500.'') [ex_link ''0 moved.'', ex_link ''0 moved.''] =
     ([request_text ''me'' ''reset'' ''host'', request_text ''me'' ''move?x=0&y=0&style=on'' ''host''], Aborts)"
  by code_simp

end
