(* ===== verification/Spec2Isabelle.thy ===== *)
theory Spec2Isabelle
  imports Prelude BaseAlloc HeavyHitter M61 M61Run ShellParse ShellPrint ShellRun
    X86 PageAlloc Vmiter PageTable PageMap PtIter
    KHardware KDevices KLoader KLib KPrint KProc MemView Kernel KernelProps KernelExit KernelCopy KernelFork KernelInv KernelSteps KernelSafety
    Boot BootDisk SymTab UserProg
    Io61 Io61Spec Io61Writer Io61Cat Io61Args Io61Props Io61Gather PipeExchange
    Pong PongProps PongSim PongHttp PongHelpers PongClient
begin

text \<open>
  The repository holds five systems programs written in C++, one per directory, and this development
  holds a model of each of them with the theorems that make it correct.

  \<^bold>\<open>The debugging allocator, \<open>src/pset1\<close>.\<close> \<open>m61_malloc\<close>, \<open>m61_free\<close> and \<open>m61_calloc\<close> wrap a base
  allocator: every block carries a header, a footer and links, so that a bad \<open>free\<close> is reported, the
  statistics and the leak report are exact, and the locations that allocate most are named.
    \<^item> \<open>BaseAlloc\<close>: \<open>basealloc.cc\<close>. A record holds the vectors of active and inactive blocks; the C
      library's \<open>malloc\<close> is the list of the regions it will hand out. It provides the locale
      \<open>block_allocator\<close>, the interface of the debugging allocator.
    \<^item> \<open>HeavyHitter\<close>: the two counter tables of \<open>m61.cc\<close> and their report. The locale
      \<open>frequency_summary\<close> gives the error bound of such a table once for both.
    \<^item> \<open>M61\<close>: \<open>m61.cc\<close> over a flat byte memory, its operations with the base allocator as an argument
      and the invariant \<open>m61_inv\<close> of the circular list of blocks.
    \<^item> \<open>M61Run\<close>: programs that use both. Its theorems are about every state of every run: an active
      pointer can be freed, a double free, a wild write and a free of an interior pointer are
      reported, statistics and leak report are exact, \<open>calloc\<close> clears.

  \<^bold>\<open>WeensyOS, \<open>src/pset3\<close>.\<close> An operating system kernel on x86-64: physical pages, page tables, processes,
  system calls, a scheduler, the hardware support under them and a C library subset.
    \<^item> \<open>X86\<close>: \<open>x86-64.h\<close>, constants, index arithmetic, saved registers.
    \<^item> \<open>PageAlloc\<close>: \<open>kalloc\<close>, \<open>kfree\<close> and the reserved ranges. It provides the locale \<open>page_allocator\<close>.
    \<^item> \<open>Vmiter\<close>: \<open>vmiter\<close> and \<open>ptiter\<close> (\<open>k-vmiter.hh\<close>, \<open>k-vmiter.cc\<close>). \<open>PageTable\<close> relates them to the
      processor's page walk, \<open>PageMap\<close> proves what \<open>try_map\<close> does to an address space, \<open>PtIter\<close> that
      \<open>ptiter\<close> visits every table once and that the tables may be freed on the way.
    \<^item> \<open>KHardware\<close>, \<open>KDevices\<close>, \<open>KLoader\<close>: \<open>k-hardware.cc\<close>, \<open>k-apic.hh\<close>, \<open>k-pci.hh\<close>, \<open>elf.h\<close>: descriptors
      and gates, keyboard, PCI, APIC, early page table, page table check, reboot; symbol table,
      backtraces, program loader, guards of static variables.
    \<^item> \<open>KLib\<close>, \<open>KPrint\<close>: \<open>lib.cc\<close>, \<open>lib.hh\<close>: memory and strings, numbers, random values, formatted
      output, the console.
    \<^item> \<open>KProc\<close>, \<open>MemView\<close>, \<open>Kernel\<close>: the state of the kernel (\<open>kernel.hh\<close>), the memory viewer
      (\<open>k-memviewer.cc\<close>), and every function of \<open>kernel.cc\<close>.
    \<^item> \<open>KernelProps\<close>, \<open>KernelExit\<close>: the scheduler is round robin, \<open>page_alloc\<close> maps a zeroed page or
      refuses, \<open>exit\<close> releases exactly the memory of the process, killing twice panics.
    \<^item> \<open>KernelCopy\<close>, \<open>KernelFork\<close>: \<open>fork\<close> is all or nothing: a child with its own copy of the address
      space and exact reference counts, or a failure that gives every page back.
    \<^item> \<open>KernelInv\<close>, \<open>KernelSteps\<close>, \<open>KernelSafety\<close>: the invariant \<open>kinv\<close> of the kernel between two entries
      (address spaces, disjoint page tables, exact reference counts), the relation \<open>kstep\<close> of memory
      writes, system calls and exceptions, which all keep it, and the conclusions: no leak and no use
      after free in any reachable state, and isolation of the processes. Two calls are outside
      \<open>kstep\<close> because the code mishandles them: \<open>page_alloc\<close> over a mapped page, which leaks the old
      page, and \<open>kill\<close> of a slot that is not in use.

    \<^item> \<open>Boot\<close>, \<open>BootDisk\<close>: the boot loader (\<open>boot.cc\<close>) and the tool that builds its disk
      (\<open>build/mkbootdisk.cc\<close>). The loader puts every segment of a fitting image in memory, an image that the
      tool builds boots, and with \<open>-p\<close> the tool writes inside the partition only: the locale
      \<open>disk_writer\<close> carries a relation between states through everything that writes. The depth of the
      recursion over partition tables is a bound that stands for the stack; the theorem holds for all.
    \<^item> \<open>SymTab\<close>: the symbol table tool (\<open>build/mkchickadeesymtab.cc\<close>) over the bytes of an ELF image. The locale
      \<open>weak_order\<close> is the interface of the stable sort; a sorted table without section symbols is one in
      which \<open>lookup_symbol\<close> of \<open>KLoader\<close> finds every symbol.
    \<^item> \<open>UserProg\<close>: the user library (\<open>u-lib.hh\<close>, \<open>u-lib.cc\<close>) and the user programs (\<open>p-allocator.cc\<close>,
      \<open>p-fork.cc\<close>, \<open>p-forkexit.cc\<close>, \<open>p-kill.cc\<close>) as state machines that make system calls. The locale
      \<open>heap_program\<close> is their contract: pages are asked for fresh, aligned and below the stack.

  \<^bold>\<open>Buffered files, \<open>src/pset4\<close>.\<close> A single-slot cache over \<open>read\<close>, \<open>write\<close> and \<open>lseek\<close>, and programs
  that copy files in different orders.
    \<^item> \<open>Io61\<close>: \<open>io61.cc\<close> and the unbuffered reference \<open>slow-io61.cc\<close>; \<open>Io61Cat\<close>: the copying programs
      over either library.
    \<^item> \<open>Io61Spec\<close>, \<open>Io61Writer\<close>: the locales \<open>byte_reader\<close>, \<open>seekable_reader\<close>, \<open>byte_writer\<close>,
      \<open>seekable_writer\<close> with interpretations on both libraries. \<open>Io61Props\<close> draws the
      conclusions: the libraries are equivalent, and the programs copy.
    \<^item> \<open>Io61Args\<close>: the command line of these programs (\<open>io61_arguments\<close> in \<open>profile61.cc\<close>) and what
      they can rely on when it is accepted.
    \<^item> \<open>Io61Gather\<close>: \<open>scattergather61.cc\<close> over either library, against a queue of inputs whose
      blocks are dealt to the outputs.
    \<^item> \<open>PipeExchange\<close>: \<open>pipeexchange61.cc\<close>, two processes that exchange messages over two bounded pipes,
      as interleaved steps of one byte with the unbuffered library. The invariant relates the bytes in
      a pipe to what one process has left to write and the other has left to read: no assertion
      fails, and the capacity at which the exchange deadlocks is exact.

  \<^bold>\<open>The shell, \<open>src/pset5\<close>.\<close> \<open>ShellParse\<close> is the tokenizer (\<open>helpers.cc\<close>) and \<open>parse_line\<close>
  (\<open>sh61.cc\<close>), \<open>ShellPrint\<close> its round trip against a printer of the grammar, \<open>ShellRun\<close> the processes,
  pipes, redirections, conditional chains and the read loop.

  \<^bold>\<open>Pong, \<open>src/pset6\<close>.\<close> \<open>Pong\<close> is the board (\<open>pongboard.hh\<close>), \<open>PongProps\<close> its consistency and the
  theorem that row locks make concurrent moves commute, \<open>PongSim\<close> the threads of \<open>simpong61.cc\<close> as an
  inductive step relation, \<open>PongHttp\<close> the HTTP connection of \<open>pong61.cc\<close>, \<open>PongHelpers\<close>
  \<open>helpers.cc\<close> (printed numbers are read back) with the options and the summary of the simulation, \<open>PongClient\<close>
  the thread and the main program of \<open>pong61.cc\<close>, which stops at its first move.

  \<^bold>\<open>How the code is modelled.\<close> \<open>Prelude\<close> holds the machine integers, the byte memory and the shared
  lemmas. A struct is a record, mutation is explicit state passing, and a pointer is a machine word
  into a byte memory (\<open>pset1\<close>, \<open>pset3\<close>) or an index (\<open>pset6\<close>). \<open>None\<close> is an outcome that the code
  does not recover from: a panic, a failed assertion, an access outside an array. Where a loop has no
  bound in the code it is a \<open>partial_function\<close>, \<open>None\<close> is also that it does not end, and the
  theorems state that there is a result. No fuel is used, except for the depth
  of partition tables in \<open>BootDisk\<close>. Integers keep the width of the code wherever it computes with
  wrap-around; counters that the theorems bound are naturals or integers, as each theory says.

  \<^bold>\<open>Parameters.\<close> What the environment decides is an argument: the regions of the C library's
  \<open>malloc\<close>, the values of \<open>random\<close>, the counts that \<open>read\<close> and \<open>write\<close> return, the exit statuses of
  processes, the polls of the keyboard, PCI configuration space, the addresses of linked images and
  symbols. The theorems hold for all of them, under the hypotheses they name.

  \<^bold>\<open>Not modelled.\<close>
    \<^item> Assembly (\<open>bootentry.S\<close>, \<open>k-exception.S\<close>, the inline functions of \<open>x86-64.h\<close>): the effect of an
      instruction is not in the source. Registers saved at an exception are an argument.
    \<^item> Devices that only take output (serial and parallel log, cursor, interrupt controller) have no
      state; where the order of the writes matters it is a list. Log text is not state.
    \<^item> Process descriptors are kernel data kept beside the byte memory, since no page table of the
      model maps them for a user.
    \<^item> Timing and resource usage (the rest of \<open>profile61.cc\<close>, the clock in \<open>pong61.cc\<close>, timers), the look-up of
      a server's address, and floating point: how an option is read as microseconds is an argument.
    \<^item> \<open>hhtest.cc\<close> (a test driver that draws allocations with floating point probabilities) and the
      exercises of \<open>pset_0\<close>, of which \<open>cat61.cc\<close> and \<open>sortargs61.cc\<close> are unfinished and do not compile.
    \<^item> \<open>pset2\<close> (a binary exercise: the source is one driver whose phases are not in the repository),
      \<open>qemu-nograb.c\<close> (a shim for another program), the tests, \<open>stdio-io61.cc\<close> (forwards to the C
      library), and the duplicate \<open>.atom-beautify.m61.cc\<close>.
\<close>

end
